(* ===== verification/Prelude.thy ===== *)
theory Prelude
  imports Main "HOL-Library.Word"
begin

text \<open>
  Shared vocabulary of the development: the machine types of the firmware, the
  big-endian loads and stores that several of its files repeat, and the generic
  facts about bytes and byte lists that the component theories use.

  A byte buffer with its length is a list of bytes; a \<open>size_t\<close> is a \<open>nat\<close>
  (every length in the firmware is bounded by a buffer of at most a few KiB, far
  below \<open>SIZE_MAX\<close>), a \<open>uint8_t\<close>, \<open>uint16_t\<close>, \<open>uint32_t\<close> or \<open>uint64_t\<close> is a
  word of that width where the code computes with it.
\<close>

unbundle bit_operations_syntax

type_synonym u8 = "8 word"
type_synonym u16 = "16 word"
type_synonym u32 = "32 word"
type_synonym u64 = "64 word"
type_synonym bytes = "8 word list"

named_theorems codec \<comment> \<open>encode / decode equations\<close>

text \<open>The bytes of a C string literal.\<close>

definition ascii :: "string \<Rightarrow> bytes" where
  "ascii s = map (\<lambda>c. of_nat (of_char c)) s"

section \<open>Words and naturals\<close>

lemma u8_lt [simp]: "unat (x :: u8) < 256"
  using unsigned_less [of x, where ?'a = nat] by simp

lemma u8_le [simp]: "unat (x :: u8) \<le> 255"
  using u8_lt [of x] by linarith

lemma u16_lt [simp]: "unat (x :: u16) < 65536"
  using unsigned_less [of x, where ?'a = nat] by simp

lemma u32_lt [simp]: "unat (x :: u32) < 4294967296"
  using unsigned_less [of x, where ?'a = nat] by simp

lemma unat_of_nat_u8 [simp]: "n < 256 \<Longrightarrow> unat (of_nat n :: u8) = n"
  by (simp add: unsigned_of_nat take_bit_eq_mod)

lemma unat_of_nat_u16 [simp]: "n < 65536 \<Longrightarrow> unat (of_nat n :: u16) = n"
  by (simp add: unsigned_of_nat take_bit_eq_mod)

lemma unat_of_nat_u32 [simp]: "n < 4294967296 \<Longrightarrow> unat (of_nat n :: u32) = n"
  by (simp add: unsigned_of_nat take_bit_eq_mod)

lemma of_nat_unat_u8 [simp]: "of_nat (unat x) = (x :: u8)"
  by simp

section \<open>Big-endian fields\<close>

text \<open>
  The firmware writes a 32-bit field with four shifts and casts, and reads it back
  with four shifts joined by \<open>|\<close>: \<open>be32_store\<close> / \<open>be32_load\<close> in slots.c,
  \<open>write_be32\<close> / \<open>read_be32\<close> in ctaphid.c and rpc.c, \<open>gen_of\<close> in rec_pair.c.
\<close>

definition be32_store :: "u32 \<Rightarrow> bytes" where
  "be32_store v = [ucast (drop_bit 24 v), ucast (drop_bit 16 v), ucast (drop_bit 8 v), ucast v]"

definition be32_load :: "u8 \<Rightarrow> u8 \<Rightarrow> u8 \<Rightarrow> u8 \<Rightarrow> u32" where
  "be32_load a b c d =
     push_bit 24 (ucast a) OR push_bit 16 (ucast b) OR push_bit 8 (ucast c) OR ucast d"

definition be16_load :: "u8 \<Rightarrow> u8 \<Rightarrow> nat" where
  "be16_load hi lo = unat (push_bit 8 (ucast hi) OR ucast lo :: u16)"

definition be16_store :: "nat \<Rightarrow> bytes" where
  "be16_store n = [of_nat (drop_bit 8 n), of_nat n]"

lemma length_be32_store [simp]: "length (be32_store v) = 4"
  by (simp add: be32_store_def)

lemma length_be16_store [simp]: "length (be16_store n) = 2"
  by (simp add: be16_store_def)

lemma u8_bit_ge: "8 \<le> n \<Longrightarrow> \<not> bit (x :: u8) n"
  using bit_imp_le_length [of x n] by auto

lemma be32_load_store [codec]:
  "be32_load (ucast (drop_bit 24 v)) (ucast (drop_bit 16 v)) (ucast (drop_bit 8 v)) (ucast v) = v"
proof (rule bit_word_eqI)
  fix n assume "n < LENGTH(32)"
  then consider "n < 8" | "8 \<le> n" "n < 16" | "16 \<le> n" "n < 24" | "24 \<le> n" "n < 32"
    by force
  then show "bit (be32_load (ucast (drop_bit 24 v)) (ucast (drop_bit 16 v))
      (ucast (drop_bit 8 v)) (ucast v)) n = bit v n"
    by cases (auto simp: be32_load_def bit_simps)
qed

lemma be32_store_load [codec]: "be32_store (be32_load a b c d) = [a, b, c, d]"
  unfolding be32_store_def be32_load_def
  by (simp add: bit_simps bit_eq_iff u8_bit_ge possible_bit_def)

lemma be32_store_inj: "be32_store v = be32_store w \<Longrightarrow> v = w"
  unfolding be32_store_def by (metis be32_load_store list.inject)

lemma be16_load_eq: "be16_load hi lo = 256 * unat hi + unat lo"
proof -
  have "(push_bit 8 (ucast hi) OR ucast lo :: u16) = push_bit 8 (ucast hi) + ucast lo"
    by (rule disjunctive_add [symmetric]) (auto simp: bit_simps u8_bit_ge)
  then have "be16_load hi lo = unat (ucast hi * 256 + ucast lo :: u16)"
    by (simp add: be16_load_def push_bit_eq_mult)
  also have "\<dots> = 256 * unat hi + unat lo"
    using u8_lt [of hi] u8_lt [of lo]
    by (simp add: unat_word_ariths unsigned_ucast_eq take_bit_eq_mod del: u8_lt)
  finally show ?thesis .
qed

lemma be16_load_lt: "be16_load hi lo < 65536"
  unfolding be16_load_eq using u8_lt [of hi] u8_lt [of lo] by linarith

lemma be16_load_store [codec]:
  "n < 65536 \<Longrightarrow> be16_load (of_nat (drop_bit 8 n)) (of_nat n) = n"
  by (simp add: be16_load_eq unsigned_of_nat take_bit_eq_mod drop_bit_eq_div)

lemma be16_store_load [codec]: "be16_store (be16_load hi lo) = [hi, lo]"
proof -
  have "drop_bit 8 (256 * unat hi + unat lo) = unat hi"
    using u8_lt [of lo] by (simp add: drop_bit_eq_div)
  moreover have "(of_nat (256 * unat hi + unat lo) :: u8) = lo"
    by (simp add: word_unat_eq_iff unsigned_of_nat take_bit_eq_mod del: of_nat_add of_nat_mult)
  ultimately show ?thesis
    by (simp add: be16_store_def be16_load_eq)
qed

section \<open>Byte lists\<close>

lemma take_append_exact [simp]: "length xs = n \<Longrightarrow> take n (xs @ ys) = xs"
  by simp

lemma list_eq_take_drop3:
  "length r = a + b + d \<Longrightarrow> r = take a r @ take b (drop a r) @ drop (a + b) r"
  by (metis append_take_drop_id drop_drop add.commute)

lemma nth4_take4: "4 \<le> length r \<Longrightarrow> take 4 r = [r ! 0, r ! 1, r ! 2, r ! 3]"
  by (simp add: list_eq_iff_nth_eq less_Suc_eq numeral_eq_Suc)

text \<open>
  The constant-time comparisons of the firmware (\<open>ct_memcmp\<close>, \<open>ct_equal\<close>,
  \<open>tag_equal\<close>) fold the XOR of the two buffers with OR and test the result for zero.
\<close>

fun ct_diff :: "u8 \<Rightarrow> bytes \<Rightarrow> bytes \<Rightarrow> u8" where
  "ct_diff d (x # xs) (y # ys) = ct_diff (d OR (x XOR y)) xs ys"
| "ct_diff d _ _ = d"

lemma xor_eq_0: "(x :: u8) XOR y = 0 \<longleftrightarrow> x = y"
  by (auto simp: bit_eq_iff bit_simps)

lemma ct_diff_zero_iff:
  "length xs = length ys \<Longrightarrow> ct_diff d xs ys = 0 \<longleftrightarrow> d = 0 \<and> xs = ys"
proof (induction xs ys arbitrary: d rule: list_induct2)
  case Nil
  then show ?case by simp
next
  case (Cons x xs y ys)
  then show ?case by (simp add: or_eq_0_iff xor_eq_0)
qed

text \<open>Byte-wise XOR of two buffers.\<close>

definition xor_bytes :: "bytes \<Rightarrow> bytes \<Rightarrow> bytes" where
  "xor_bytes a k = map2 (\<lambda>x y. x XOR y) a k"

lemma length_xor_bytes [simp]: "length (xor_bytes a k) = min (length a) (length k)"
  by (simp add: xor_bytes_def)

lemma xor_bytes_cancel:
  "length a = length k \<Longrightarrow> xor_bytes (xor_bytes a k) k = a"
  unfolding xor_bytes_def
  by (induction a k rule: list_induct2) (simp_all add: xor.assoc)

end
