(* ===== verification/Op_Monad.thy ===== *)
theory Op_Monad
  imports Prelude
begin

text \<open>
  Operations on a state that end in a value, in the status to answer, or wait for a touch: the
  shape of the CTAP2 and OpenPGP command handlers, with their early returns.  Laws to take
  a successful run apart, and two calculi for relations between the states before and after.
\<close>

section \<open>Operations with a status\<close>

text \<open>
  A value, the status (a CTAP status, a status word) to answer, or still waiting for a touch (the rounds the button
  oracle gives have run out).
\<close>

datatype 'a res = Val 'a | Fail nat | Waits

type_synonym ('s, 'a) st_op = "'s \<Rightarrow> 'a res \<times> 's"

definition op_ret :: "'a \<Rightarrow> ('s, 'a) st_op" where "op_ret x s = (Val x, s)"
definition op_fail :: "nat \<Rightarrow> ('s, 'a) st_op" where "op_fail e s = (Fail e, s)"

definition op_bind :: "('s, 'a) st_op \<Rightarrow> ('a \<Rightarrow> ('s, 'b) st_op) \<Rightarrow> ('s, 'b) st_op" where
  "op_bind m f s = (case m s of (Val x, s1) \<Rightarrow> f x s1 | (Fail e, s1) \<Rightarrow> (Fail e, s1) | (Waits, s1) \<Rightarrow> (Waits, s1))"

text \<open>Go on unless the condition holds, then answer the status.\<close>

definition op_unless :: "bool \<Rightarrow> nat \<Rightarrow> ('s, unit) st_op" where
  "op_unless bad e = (if bad then op_fail e else op_ret ())"

definition op_get :: "('s \<Rightarrow> 'a) \<Rightarrow> ('s, 'a) st_op" where "op_get f s = (Val (f s), s)"

section \<open>Reasoning about operations\<close>

named_theorems op_vals \<open>when an operation returns a value\<close>

lemma op_bind_val [op_vals]:
  "op_bind m f s = (Val y, s') \<longleftrightarrow> (\<exists>x s1. m s = (Val x, s1) \<and> f x s1 = (Val y, s'))"
  by (auto simp: op_bind_def split: res.splits prod.splits)

lemma op_ret_val [op_vals]: "op_ret x s = (Val y, s') \<longleftrightarrow> y = x \<and> s' = s"
  by (auto simp: op_ret_def)

lemma op_fail_val [op_vals]: "op_fail e s \<noteq> (Val y, s')"
  by (simp add: op_fail_def)

lemma op_unless_val [op_vals]: "op_unless bad e s = (Val y, s') \<longleftrightarrow> \<not> bad \<and> s' = s"
  by (auto simp: op_unless_def op_fail_def op_ret_def)

lemma op_sum_val [op_vals]:
  "(case x of Inl _ \<Rightarrow> op_fail e | Inr y \<Rightarrow> f y) s = (Val v, s') \<longleftrightarrow> (\<exists>y. x = Inr y \<and> f y s = (Val v, s'))"
  by (cases x) (simp_all add: op_fail_val)

lemma op_option_val [op_vals]:
  "(case y of None \<Rightarrow> op_fail e | Some z \<Rightarrow> g z) s = (Val v, s') \<longleftrightarrow> (\<exists>z. y = Some z \<and> g z s = (Val v, s'))"
  by (cases y) (simp_all add: op_fail_val)

lemma op_if_fail_val [op_vals]:
  "(if b then op_fail e else m) s = (Val v, s') \<longleftrightarrow> \<not> b \<and> m s = (Val v, s')"
  by (simp add: op_fail_val)

lemma op_get_val [op_vals]: "op_get f s = (Val y, s') \<longleftrightarrow> y = f s \<and> s' = s"
  by (auto simp: op_get_def)

text \<open>A relation between the states before and after, whatever the result, or for a value only.\<close>

definition keeps :: "('s \<Rightarrow> 's \<Rightarrow> bool) \<Rightarrow> ('s, 'a) st_op \<Rightarrow> bool" where
  "keeps R m \<longleftrightarrow> (\<forall>s. R s (snd (m s)))"

lemma keepsD: "keeps R m \<Longrightarrow> m s = (x, s') \<Longrightarrow> R s s'"
  by (auto simp: keeps_def dest: spec [of _ s])

lemma keeps_bind:
  assumes "transp R" and "keeps R m" and "\<And>x. keeps R (f x)"
  shows "keeps R (op_bind m f)"
  unfolding keeps_def
proof
  fix s
  obtain r s1 where m: "m s = (r, s1)" by fastforce
  have 1: "R s s1" by (rule keepsD [OF assms(2) m])
  show "R s (snd (op_bind m f s))"
  proof (cases r)
    case (Val x)
    have "R s1 (snd (f x s1))" using assms(3) by (simp add: keeps_def)
    then show ?thesis using 1 Val m transpD [OF assms(1)] by (auto simp: op_bind_def)
  qed (use 1 m in \<open>simp_all add: op_bind_def\<close>)
qed

lemma keeps_pure:
  assumes "reflp R"
  shows "keeps R (op_ret x)" "keeps R (op_fail e)" "keeps R (op_unless b e)" "keeps R (op_get f)"
  using reflpD [OF assms] by (simp_all add: keeps_def op_ret_def op_fail_def op_unless_def op_get_def)

lemma keeps_cases:
  "(\<And>x. keeps R (g x)) \<Longrightarrow> keeps R h \<Longrightarrow> keeps R (case y of None \<Rightarrow> h | Some x \<Rightarrow> g x)"
  "(\<And>x. keeps R (f x)) \<Longrightarrow> (\<And>x. keeps R (g' x)) \<Longrightarrow> keeps R (case z of Inl x \<Rightarrow> f x | Inr x \<Rightarrow> g' x)"
  "keeps R m \<Longrightarrow> keeps R m' \<Longrightarrow> keeps R (if b then m else m')"
  "(\<And>x y. keeps R (k x y)) \<Longrightarrow> keeps R (case v of (x, y) \<Rightarrow> k x y)"
  by (simp_all split: option.split sum.split prod.split)

definition val_keeps :: "('s \<Rightarrow> 's \<Rightarrow> bool) \<Rightarrow> ('s, 'a) st_op \<Rightarrow> bool" where
  "val_keeps R m \<longleftrightarrow> (\<forall>s x s'. m s = (Val x, s') \<longrightarrow> R s s')"

lemma val_keepsD: "val_keeps R m \<Longrightarrow> m s = (Val x, s') \<Longrightarrow> R s s'"
  by (auto simp: val_keeps_def)

lemma val_keeps_bind:
  "transp R \<Longrightarrow> val_keeps R m \<Longrightarrow> (\<And>x. val_keeps R (f x)) \<Longrightarrow> val_keeps R (op_bind m f)"
  unfolding val_keeps_def op_bind_val by (blast dest: transpD)

lemma val_keeps_keeps: "keeps R m \<Longrightarrow> val_keeps R m"
  by (auto simp: val_keeps_def dest: keepsD)

text \<open>An operation that only ever answers a status.\<close>

lemma val_keeps_fail: "val_keeps R (op_fail e)" "val_keeps R (op_bind m (\<lambda>x. op_fail (k x)))"
  "val_keeps R (op_bind m (\<lambda>x. op_bind m' (\<lambda>y. op_fail (k' x y))))"
  by (auto simp: val_keeps_def op_vals)

lemma val_keeps_cases:
  "(\<And>x. val_keeps R (g x)) \<Longrightarrow> val_keeps R h \<Longrightarrow> val_keeps R (case y of None \<Rightarrow> h | Some x \<Rightarrow> g x)"
  "(\<And>x. val_keeps R (f x)) \<Longrightarrow> (\<And>x. val_keeps R (g' x)) \<Longrightarrow> val_keeps R (case z of Inl x \<Rightarrow> f x | Inr x \<Rightarrow> g' x)"
  "val_keeps R m \<Longrightarrow> val_keeps R m' \<Longrightarrow> val_keeps R (if b then m else m')"
  "(\<And>x y. val_keeps R (k x y)) \<Longrightarrow> val_keeps R (case v of (x, y) \<Rightarrow> k x y)"
  by (simp_all split: option.split sum.split prod.split)

end
