(* ===== verification/Chip.thy ===== *)
theory Chip
  imports Prelude
begin

text \<open>
  The TROPIC01 secure element as the firmware sees it: the operations of
  \<^verbatim>\<open>firmware/src/tropic/tropic.h\<close>, each a function of the chip state.  The chip
  and libtropic are not in the repository, so the operations are a parameter of
  every definition that calls the chip (the record \<open>tropic\<close>), and what the code
  relies on is stated by the locales below: which slots an operation may touch, that
  a successful read reports what the slot holds, and what a chip that is working
  does.  An operation may fail at any time, with or without its effect.
\<close>

section \<open>The chip interface\<close>

text \<open>
  A wrapper that returns 0 or a negative libtropic code is an \<open>int\<close>; one that also
  fills a buffer returns \<open>Inr\<close> of the bytes on 0 and \<open>Inl\<close> of the code otherwise.
\<close>

record 'c tropic =
  tropic_l3_session_ensure :: "'c \<Rightarrow> int \<times> 'c"
  tropic_rmem_read :: "nat \<Rightarrow> nat \<Rightarrow> 'c \<Rightarrow> (int + bytes) \<times> 'c"
  tropic_rmem_write :: "nat \<Rightarrow> bytes \<Rightarrow> 'c \<Rightarrow> int \<times> 'c"
  tropic_rmem_erase :: "nat \<Rightarrow> 'c \<Rightarrow> int \<times> 'c"
  tropic_mac_and_destroy :: "nat \<Rightarrow> bytes \<Rightarrow> 'c \<Rightarrow> (int + bytes) \<times> 'c"
  tropic_random :: "nat \<Rightarrow> 'c \<Rightarrow> (int + bytes) \<times> 'c"
  tropic_ecc_generate :: "nat \<Rightarrow> nat \<Rightarrow> 'c \<Rightarrow> int \<times> 'c"
  tropic_ecc_pubkey_read :: "nat \<Rightarrow> nat \<Rightarrow> 'c \<Rightarrow> (int + bytes) \<times> 'c"
  tropic_ecc_eddsa_sign :: "nat \<Rightarrow> bytes \<Rightarrow> 'c \<Rightarrow> (int + bytes) \<times> 'c"
  tropic_ecc_ecdsa_sign :: "nat \<Rightarrow> bytes \<Rightarrow> 'c \<Rightarrow> (int + bytes) \<times> 'c"
  tropic_ecc_erase :: "nat \<Rightarrow> 'c \<Rightarrow> int \<times> 'c"
  tropic_mcounter_init :: "nat \<Rightarrow> u32 \<Rightarrow> 'c \<Rightarrow> int \<times> 'c"
  tropic_mcounter_update :: "nat \<Rightarrow> 'c \<Rightarrow> int \<times> 'c"
  tropic_mcounter_get :: "nat \<Rightarrow> 'c \<Rightarrow> (int + u32) \<times> 'c"

definition TROPIC_ERR_COUNTER_INVALID :: int where
  "TROPIC_ERR_COUNTER_INVALID = - 17"

definition TROPIC_ERR_RMEM_SLOT_EMPTY :: int where
  "TROPIC_ERR_RMEM_SLOT_EMPTY = - 28"

text \<open>The hash functions of trezor-crypto, also outside the repository.\<close>

record crypto =
  sha256 :: "bytes \<Rightarrow> bytes"
  hmac_sha256 :: "bytes \<Rightarrow> bytes \<Rightarrow> bytes"

definition crypto_ok :: "crypto \<Rightarrow> bool" where
  "crypto_ok K \<longleftrightarrow> (\<forall>m. length (sha256 K m) = 32) \<and> (\<forall>k m. length (hmac_sha256 K k m) = 32)"

lemma crypto_ok_lengths [simp]:
  assumes "crypto_ok K"
  shows "length (sha256 K m) = 32" and "length (hmac_sha256 K k m) = 32"
  using assms by (auto simp: crypto_ok_def)

section \<open>Documented behaviour of the data memory\<close>

text \<open>
  \<open>view c s\<close> is what slot \<open>s\<close> would report in state \<open>c\<close>, the empty list for a slot
  that reads empty.  \<open>inv\<close> is whatever the chip keeps invariant.  A read changes
  nothing, reports the slot truthfully when it succeeds, and says "empty" only of a
  slot that reads empty.  A write or an erase touches no slot but its own, whether it
  succeeds, fails or is cut; nothing is said about the slot it does touch, so every
  kind of torn or lost write is allowed.
\<close>

locale rmem_chip =
  fixes T :: "'c tropic" and inv :: "'c \<Rightarrow> bool" and view :: "'c \<Rightarrow> nat \<Rightarrow> bytes"
  assumes read_inv: "inv c \<Longrightarrow> tropic_rmem_read T s m c = (r, c') \<Longrightarrow> inv c'"
    and read_frame: "inv c \<Longrightarrow> tropic_rmem_read T s m c = (r, c') \<Longrightarrow> view c' = view c"
    and read_data: "inv c \<Longrightarrow> tropic_rmem_read T s m c = (Inr d, c') \<Longrightarrow> d = take m (view c s)"
    and read_empty: "inv c \<Longrightarrow>
      tropic_rmem_read T s m c = (Inl TROPIC_ERR_RMEM_SLOT_EMPTY, c') \<Longrightarrow> view c s = []"
    and write_inv: "inv c \<Longrightarrow> tropic_rmem_write T s d c = (rc, c') \<Longrightarrow> inv c'"
    and write_frame: "inv c \<Longrightarrow> tropic_rmem_write T s d c = (rc, c') \<Longrightarrow> t \<noteq> s \<Longrightarrow>
      view c' t = view c t"
    and erase_inv: "inv c \<Longrightarrow> tropic_rmem_erase T s c = (rc, c') \<Longrightarrow> inv c'"
    and erase_frame: "inv c \<Longrightarrow> tropic_rmem_erase T s c = (rc, c') \<Longrightarrow> t \<noteq> s \<Longrightarrow>
      view c' t = view c t"

text \<open>The operations that are not about data memory leave it alone.\<close>

locale framed_chip = rmem_chip T inv view
  for T :: "'c tropic" and inv :: "'c \<Rightarrow> bool" and view :: "'c \<Rightarrow> nat \<Rightarrow> bytes" +
  assumes md_inv: "inv c \<Longrightarrow> tropic_mac_and_destroy T i d c = (r, c') \<Longrightarrow> inv c'"
    and md_frame: "inv c \<Longrightarrow> tropic_mac_and_destroy T i d c = (r, c') \<Longrightarrow> view c' = view c"
    and random_inv: "inv c \<Longrightarrow> tropic_random T n c = (r2, c') \<Longrightarrow> inv c'"
    and random_frame: "inv c \<Longrightarrow> tropic_random T n c = (r2, c') \<Longrightarrow> view c' = view c"
    and session_inv: "inv c \<Longrightarrow> tropic_l3_session_ensure T c = (rc3, c') \<Longrightarrow> inv c'"
    and session_frame: "inv c \<Longrightarrow> tropic_l3_session_ensure T c = (rc3, c') \<Longrightarrow> view c' = view c"
    and ecc_gen_rest: "inv c \<Longrightarrow> tropic_ecc_generate T i n c = (rc4, c') \<Longrightarrow> inv c' \<and> view c' = view c"
    and ecc_pub_rest: "inv c \<Longrightarrow> tropic_ecc_pubkey_read T i n c = (r5, c') \<Longrightarrow> inv c' \<and> view c' = view c"
    and eddsa_rest: "inv c \<Longrightarrow> tropic_ecc_eddsa_sign T i d c = (r6, c') \<Longrightarrow> inv c' \<and> view c' = view c"
    and ecdsa_rest: "inv c \<Longrightarrow> tropic_ecc_ecdsa_sign T i d c = (r7, c') \<Longrightarrow> inv c' \<and> view c' = view c"
    and ecc_erase_rest: "inv c \<Longrightarrow> tropic_ecc_erase T i c = (rc8, c') \<Longrightarrow> inv c' \<and> view c' = view c"
    and mc_init_rest: "inv c \<Longrightarrow> tropic_mcounter_init T i w c = (rc9, c') \<Longrightarrow> inv c' \<and> view c' = view c"
    and mc_update_rest: "inv c \<Longrightarrow> tropic_mcounter_update T i c = (rc10, c') \<Longrightarrow> inv c' \<and> view c' = view c"
    and mc_get_rest: "inv c \<Longrightarrow> tropic_mcounter_get T i c = (r11, c') \<Longrightarrow> inv c' \<and> view c' = view c"
    and random_length: "inv c \<Longrightarrow> tropic_random T n c = (Inr d2, c') \<Longrightarrow> length d2 = n"

section \<open>A chip that is working\<close>

text \<open>
  \<open>good c\<close> says that no fault is pending and that a slot reads empty only when it is
  erased.  Then every operation with valid arguments succeeds and does what the
  datasheet says; a slot must be erased before it is written.
\<close>

locale live_rmem = rmem_chip T inv view
  for T :: "'c tropic" and inv :: "'c \<Rightarrow> bool" and view :: "'c \<Rightarrow> nat \<Rightarrow> bytes" +
  fixes good :: "'c \<Rightarrow> bool"
  assumes good_inv: "good c \<Longrightarrow> inv c"
    and live_read: "good c \<Longrightarrow> s < 512 \<Longrightarrow> 0 < m \<Longrightarrow> view c s \<noteq> [] \<Longrightarrow>
      \<exists>c'. tropic_rmem_read T s m c = (Inr (take m (view c s)), c') \<and> good c'"
    and live_empty: "good c \<Longrightarrow> s < 512 \<Longrightarrow> 0 < m \<Longrightarrow> view c s = [] \<Longrightarrow>
      \<exists>c'. tropic_rmem_read T s m c = (Inl TROPIC_ERR_RMEM_SLOT_EMPTY, c') \<and> good c'"
    and live_erase: "good c \<Longrightarrow> s < 512 \<Longrightarrow>
      \<exists>c'. tropic_rmem_erase T s c = (0, c') \<and> good c' \<and> view c' s = []"
    and live_write: "good c \<Longrightarrow> s < 512 \<Longrightarrow> view c s = [] \<Longrightarrow> d \<noteq> [] \<Longrightarrow> length d \<le> 475 \<Longrightarrow>
      \<exists>c'. tropic_rmem_write T s d c = (0, c') \<and> good c' \<and> view c' s = d"

text \<open>And its random numbers come.\<close>

locale live_dev = framed_chip T inv view + live_rmem T inv view good
  for T :: "'c tropic" and inv :: "'c \<Rightarrow> bool" and view :: "'c \<Rightarrow> nat \<Rightarrow> bytes"
    and good :: "'c \<Rightarrow> bool" +
  assumes dev_random: "good c \<Longrightarrow> 0 < n \<Longrightarrow> n \<le> 255 \<Longrightarrow>
      \<exists>d c'. tropic_random T n c = (Inr d, c') \<and> good c'"

end
