(* ===== verification/Mock_Chip.thy ===== *)
theory Mock_Chip
  imports Chip
begin

text \<open>
  The repository's own model of the chip, \<^verbatim>\<open>tests/host/mock_tropic.c\<close>, on which its host
  tests run the firmware: 512 data-memory slots that must be erased before they are
  written, 128 MAC-and-Destroy slots, the ECC slots, one counter, and faults that can be
  armed for the n-th next call of an operation.  It is translated like the rest of the
  code and shows that the laws of \<open>Chip\<close> can hold; the witnesses of the
  development run on it.  It keeps the two libtropic result codes it returns by name
  as a parameter, since their numbers are not in the repository.
\<close>

section \<open>State\<close>

datatype mock_op = MOCK_OP_RANDOM | MOCK_OP_RMEM_READ | MOCK_OP_RMEM_WRITE | MOCK_OP_RMEM_ERASE
  | MOCK_OP_MAC_AND_DESTROY | MOCK_OP_ECC_ERASE | MOCK_OP_MCOUNTER

datatype mock_damage = MOCK_DAMAGE_GARBLE | MOCK_DAMAGE_MASKED

record mock_slot =
  s_written :: bool
  s_masked :: bool
  s_data :: bytes

text \<open>A pending fault: the absolute call number that fails (0 for none).\<close>

record mock_fault =
  f_at :: nat
  f_rc :: int
  f_executed :: bool
  f_tear :: "mock_damage option"

record mock =
  s_rmem :: "nat \<Rightarrow> mock_slot"
  s_mad :: "nat \<Rightarrow> bytes"
  s_ecc :: "nat \<Rightarrow> bool"
  s_mcounter :: "u32 option"
  s_kfa :: bytes
  s_prng :: u32
  s_calls :: "mock_op \<Rightarrow> nat"
  s_fault :: "mock_op \<Rightarrow> mock_fault"

record lt_codes =
  LT_L3_SLOT_NOT_EMPTY :: int
  LT_L3_INVALID_CMD :: int

definition MOCK_RMEM_SLOTS :: nat where "MOCK_RMEM_SLOTS = 512"
definition MOCK_RMEM_SIZE :: nat where "MOCK_RMEM_SIZE = 475"
definition MOCK_MAD_SLOTS :: nat where "MOCK_MAD_SLOTS = 128"

lemmas mock_consts = MOCK_RMEM_SLOTS_def MOCK_RMEM_SIZE_def MOCK_MAD_SLOTS_def

definition mock_empty :: mock_slot where
  "mock_empty = \<lparr>s_written = False, s_masked = False, s_data = []\<rparr>"

definition no_fault :: mock_fault where
  "no_fault = \<lparr>f_at = 0, f_rc = 0, f_executed = False, f_tear = None\<rparr>"

section \<open>Set-up and faults\<close>

definition prng_step :: "u32 \<Rightarrow> u32" where
  "prng_step s =
     (let s1 = s XOR push_bit 13 s;
          s2 = s1 XOR drop_bit 17 s1
      in s2 XOR push_bit 5 s2)"

fun prng_bytes :: "nat \<Rightarrow> u32 \<Rightarrow> bytes \<times> u32" where
  "prng_bytes 0 s = ([], s)"
| "prng_bytes (Suc n) s =
     (let s1 = prng_step s; (bs, s2) = prng_bytes n s1 in (ucast s1 # bs, s2))"

definition mock_reset :: "crypto \<Rightarrow> u32 \<Rightarrow> mock" where
  "mock_reset K seed =
     (let s0 = (if seed \<noteq> 0 then seed else 0x6e697874);
          (kfa, s1) = prng_bytes 32 s0
      in \<lparr>s_rmem = (\<lambda>_. mock_empty), s_mad = (\<lambda>i. hmac_sha256 K kfa [of_nat i]),
          s_ecc = (\<lambda>_. False), s_mcounter = None, s_kfa = kfa, s_prng = s1,
          s_calls = (\<lambda>_. 0), s_fault = (\<lambda>_. no_fault)\<rparr>)"

definition mock_fail_nth :: "mock_op \<Rightarrow> nat \<Rightarrow> int \<Rightarrow> bool \<Rightarrow> mock \<Rightarrow> mock" where
  "mock_fail_nth op n rc executed m =
     m\<lparr>s_fault := (s_fault m)(op :=
        \<lparr>f_at = s_calls m op + n, f_rc = rc, f_executed = executed, f_tear = None\<rparr>)\<rparr>"

definition mock_tear_nth :: "mock_op \<Rightarrow> nat \<Rightarrow> int \<Rightarrow> mock_damage \<Rightarrow> mock \<Rightarrow> mock" where
  "mock_tear_nth op n rc how m =
     m\<lparr>s_fault := (s_fault m)(op :=
        \<lparr>f_at = s_calls m op + n, f_rc = rc, f_executed = True, f_tear = Some how\<rparr>)\<rparr>"

definition mock_disarm :: "mock \<Rightarrow> mock" where
  "mock_disarm m = m\<lparr>s_fault := (\<lambda>_. no_fault)\<rparr>"

definition mock_rmem_damage :: "nat \<Rightarrow> mock_damage \<Rightarrow> mock \<Rightarrow> mock" where
  "mock_rmem_damage slot how m =
     (if slot \<ge> MOCK_RMEM_SLOTS then m
      else let e = s_rmem m slot in
      m\<lparr>s_rmem := (s_rmem m)(slot :=
        (if how = MOCK_DAMAGE_MASKED then e\<lparr>s_masked := s_written e\<rparr>
         else if \<not> s_written e then e\<lparr>s_data := replicate 16 0xa5, s_written := True\<rparr>
         else let k = length (s_data e) div 2
              in e\<lparr>s_data := (s_data e)[k := s_data e ! k XOR 0x5a]\<rparr>))\<rparr>)"

text \<open>Counts the call; the injected code (0 for none), whether the chip acts, the damage.\<close>

definition enter :: "mock_op \<Rightarrow> mock \<Rightarrow> int \<times> bool \<times> mock_damage option \<times> mock" where
  "enter op m =
     (let n = s_calls m op + 1;
          m1 = m\<lparr>s_calls := (s_calls m)(op := n)\<rparr>;
          f = s_fault m op
      in if f_at f \<noteq> 0 \<and> f_at f = n
         then (f_rc f, f_executed f, f_tear f,
               m1\<lparr>s_fault := (s_fault m)(op := f\<lparr>f_at := 0\<rparr>)\<rparr>)
         else (0, True, None, m1))"

definition tear :: "mock_damage option \<Rightarrow> nat \<Rightarrow> mock \<Rightarrow> mock" where
  "tear d slot m = (case d of None \<Rightarrow> m | Some how \<Rightarrow> mock_rmem_damage slot how m)"

section \<open>The operations\<close>

text \<open>A fault is armed with a non-zero code, so a call that does not act never returns 0.\<close>

definition mock_random :: "nat \<Rightarrow> mock \<Rightarrow> (int + bytes) \<times> mock" where
  "mock_random len m =
     (let (rc, exec, _, m1) = enter MOCK_OP_RANDOM m in
      if len = 0 \<or> len > 255 then (Inl (- 1), m1)
      else let (bs, s) = (if exec then prng_bytes len (s_prng m1) else (replicate len 0, s_prng m1))
           in (if rc = 0 then Inr bs else Inl rc, m1\<lparr>s_prng := s\<rparr>))"

definition mock_rmem_write :: "lt_codes \<Rightarrow> nat \<Rightarrow> bytes \<Rightarrow> mock \<Rightarrow> int \<times> mock" where
  "mock_rmem_write E slot d m =
     (let (rc, exec, tr, m1) = enter MOCK_OP_RMEM_WRITE m in
      if slot \<ge> MOCK_RMEM_SLOTS \<or> length d = 0 \<or> length d > MOCK_RMEM_SIZE
      then (- LT_L3_INVALID_CMD E, m1)
      else if exec \<and> s_written (s_rmem m1 slot) then (- LT_L3_SLOT_NOT_EMPTY E, m1)
      else let m2 = (if exec
             then m1\<lparr>s_rmem := (s_rmem m1)(slot := (s_rmem m1 slot)\<lparr>s_data := d, s_written := True\<rparr>)\<rparr>
             else m1)
           in (rc, tear tr slot m2))"

definition mock_rmem_read :: "nat \<Rightarrow> nat \<Rightarrow> mock \<Rightarrow> (int + bytes) \<times> mock" where
  "mock_rmem_read slot mx m =
     (let (rc, _, _, m1) = enter MOCK_OP_RMEM_READ m in
      if slot \<ge> MOCK_RMEM_SLOTS \<or> mx = 0 then (Inl (- 1), m1)
      else if rc \<noteq> 0 then (Inl rc, m1)
      else let e = s_rmem m1 slot in
      if \<not> s_written e \<or> s_masked e then (Inl TROPIC_ERR_RMEM_SLOT_EMPTY, m1)
      else (Inr (take mx (s_data e)), m1))"

definition mock_rmem_erase :: "lt_codes \<Rightarrow> nat \<Rightarrow> mock \<Rightarrow> int \<times> mock" where
  "mock_rmem_erase E slot m =
     (let (rc, exec, tr, m1) = enter MOCK_OP_RMEM_ERASE m in
      if slot \<ge> MOCK_RMEM_SLOTS then (- LT_L3_INVALID_CMD E, m1)
      else let m2 = (if exec \<and> tr = None
             then m1\<lparr>s_rmem := (s_rmem m1)(slot := mock_empty)\<rparr> else m1)
           in (rc, tear tr slot m2))"

definition mock_mac_and_destroy :: "crypto \<Rightarrow> nat \<Rightarrow> bytes \<Rightarrow> mock \<Rightarrow> (int + bytes) \<times> mock" where
  "mock_mac_and_destroy K idx d m =
     (let (rc, exec, _, m1) = enter MOCK_OP_MAC_AND_DESTROY m in
      if idx \<ge> MOCK_MAD_SLOTS then (Inl (- 1), m1)
      else if \<not> exec then (Inl rc, m1)
      else let nv = hmac_sha256 K (s_kfa m1) (take 32 d @ [of_nat idx]);
               out = hmac_sha256 K (s_mad m1 idx) (nv @ [of_nat idx]);
               m2 = m1\<lparr>s_mad := (s_mad m1)(idx := nv)\<rparr>
           in (if rc = 0 then Inr out else Inl rc, m2))"

definition mock_ecc_erase :: "nat \<Rightarrow> mock \<Rightarrow> int \<times> mock" where
  "mock_ecc_erase slot m =
     (let (rc, exec, _, m1) = enter MOCK_OP_ECC_ERASE m in
      if slot \<ge> 32 then (- 1, m1)
      else (rc, if exec then m1\<lparr>s_ecc := (s_ecc m1)(slot := False)\<rparr> else m1))"

definition mock_mcounter_init :: "nat \<Rightarrow> u32 \<Rightarrow> mock \<Rightarrow> int \<times> mock" where
  "mock_mcounter_init idx v m =
     (let (rc, exec, _, m1) = enter MOCK_OP_MCOUNTER m in
      if idx \<noteq> 0 then (- 1, m1)
      else (rc, if exec then m1\<lparr>s_mcounter := Some v\<rparr> else m1))"

definition mock_mcounter_get :: "nat \<Rightarrow> mock \<Rightarrow> (int + u32) \<times> mock" where
  "mock_mcounter_get idx m =
     (let (rc, _, _, m1) = enter MOCK_OP_MCOUNTER m in
      if idx \<noteq> 0 then (Inl (- 1), m1)
      else if rc \<noteq> 0 then (Inl rc, m1)
      else case s_mcounter m1 of
             None \<Rightarrow> (Inl TROPIC_ERR_COUNTER_INVALID, m1)
           | Some v \<Rightarrow> (Inr v, m1))"

text \<open>
  The mock has no ECC key material and no counter update, which the host tests do not
  use; the chip record needs the fields, and here they fail without an effect.
\<close>

definition mock_tropic :: "crypto \<Rightarrow> lt_codes \<Rightarrow> mock tropic" where
  "mock_tropic K E = \<lparr>
     tropic_l3_session_ensure = (\<lambda>m. (0, m)),
     tropic_rmem_read = mock_rmem_read,
     tropic_rmem_write = mock_rmem_write E,
     tropic_rmem_erase = mock_rmem_erase E,
     tropic_mac_and_destroy = mock_mac_and_destroy K,
     tropic_random = mock_random,
     tropic_ecc_generate = (\<lambda>_ _ m. (- 1, m)),
     tropic_ecc_pubkey_read = (\<lambda>_ _ m. (Inl (- 1), m)),
     tropic_ecc_eddsa_sign = (\<lambda>_ _ m. (Inl (- 1), m)),
     tropic_ecc_ecdsa_sign = (\<lambda>_ _ m. (Inl (- 1), m)),
     tropic_ecc_erase = mock_ecc_erase,
     tropic_mcounter_init = mock_mcounter_init,
     tropic_mcounter_update = (\<lambda>_ m. (- 1, m)),
     tropic_mcounter_get = mock_mcounter_get\<rparr>"

lemma mock_tropic_sel [simp]:
  "tropic_rmem_read (mock_tropic K E) = mock_rmem_read"
  "tropic_rmem_write (mock_tropic K E) = mock_rmem_write E"
  "tropic_rmem_erase (mock_tropic K E) = mock_rmem_erase E"
  "tropic_mac_and_destroy (mock_tropic K E) = mock_mac_and_destroy K"
  "tropic_random (mock_tropic K E) = mock_random"
  "tropic_ecc_erase (mock_tropic K E) = mock_ecc_erase"
  "tropic_mcounter_init (mock_tropic K E) = mock_mcounter_init"
  "tropic_mcounter_get (mock_tropic K E) = mock_mcounter_get"
  "tropic_l3_session_ensure (mock_tropic K E) m = (0, m)"
  "tropic_ecc_generate (mock_tropic K E) i n m = (- 1, m)"
  "tropic_ecc_pubkey_read (mock_tropic K E) i n m = (Inl (- 1), m)"
  "tropic_ecc_eddsa_sign (mock_tropic K E) i d m = (Inl (- 1), m)"
  "tropic_ecc_ecdsa_sign (mock_tropic K E) i d m = (Inl (- 1), m)"
  "tropic_mcounter_update (mock_tropic K E) i m = (- 1, m)"
  by (simp_all add: mock_tropic_def)

section \<open>The mock obeys the laws\<close>

text \<open>What a slot reports, and the faults a run may have armed: a read never fails with
  the code that means "empty", and a torn operation leaves a slot that reads empty.\<close>

definition mock_view :: "mock \<Rightarrow> nat \<Rightarrow> bytes" where
  "mock_view m s =
     (let e = s_rmem m s in if s_written e \<and> \<not> s_masked e then s_data e else [])"

definition mock_inv :: "mock \<Rightarrow> bool" where
  "mock_inv m \<longleftrightarrow>
     f_rc (s_fault m MOCK_OP_RMEM_READ) \<noteq> TROPIC_ERR_RMEM_SLOT_EMPTY \<and>
     f_tear (s_fault m MOCK_OP_RMEM_WRITE) \<noteq> Some MOCK_DAMAGE_GARBLE \<and>
     f_tear (s_fault m MOCK_OP_RMEM_ERASE) \<noteq> Some MOCK_DAMAGE_GARBLE"

lemma enter_frame [simp]:
  assumes "enter op m = (rc, exec, tr, m')"
  shows "s_rmem m' = s_rmem m" and "s_mad m' = s_mad m" and "s_kfa m' = s_kfa m"
    and "mock_inv m \<Longrightarrow> mock_inv m'"
    and "mock_inv m \<Longrightarrow> op = MOCK_OP_RMEM_READ \<Longrightarrow> rc \<noteq> TROPIC_ERR_RMEM_SLOT_EMPTY"
    and "mock_inv m \<Longrightarrow> op = MOCK_OP_RMEM_WRITE \<or> op = MOCK_OP_RMEM_ERASE \<Longrightarrow>
      tr \<noteq> Some MOCK_DAMAGE_GARBLE"
  using assms
  by (auto simp: enter_def Let_def mock_inv_def TROPIC_ERR_RMEM_SLOT_EMPTY_def split: if_splits)

lemma enter_counter: "enter op m = (rc, exec, tr, m') \<Longrightarrow> s_mcounter m' = s_mcounter m"
  unfolding enter_def Let_def by (cases "f_at (s_fault m op) \<noteq> 0 \<and> f_at (s_fault m op) = s_calls m op + 1") auto

lemma tear_frame [simp]:
  "t \<noteq> s \<Longrightarrow> mock_view (tear d s m) t = mock_view m t"
  "mock_inv (tear d s m) = mock_inv m"
  by (auto simp: tear_def mock_rmem_damage_def mock_view_def mock_inv_def Let_def
      split: option.splits)

lemma prng_bytes_length: "prng_bytes n s = (bs, s') \<Longrightarrow> length bs = n"
  by (induction n arbitrary: s bs s') (auto simp: Let_def split: prod.splits)

lemma enter_view [simp]: "enter op m = (rc, exec, tr, m') \<Longrightarrow> mock_view m' = mock_view m"
  by (simp add: mock_view_def fun_eq_iff Let_def)

lemma mock_inv_sel [simp]:
  "mock_inv (m\<lparr>s_rmem := x\<rparr>) = mock_inv m" "mock_inv (m\<lparr>s_mad := y\<rparr>) = mock_inv m"
  "mock_inv (m\<lparr>s_prng := z\<rparr>) = mock_inv m" "mock_inv (m\<lparr>s_ecc := w\<rparr>) = mock_inv m"
  "mock_view (m\<lparr>s_ecc := w\<rparr>) = mock_view m" "mock_view (m\<lparr>s_mad := y\<rparr>) = mock_view m"
  "mock_view (m\<lparr>s_prng := z\<rparr>) = mock_view m"
  "t \<noteq> s \<Longrightarrow> mock_view (m\<lparr>s_rmem := (s_rmem m')(s := e)\<rparr>) t = mock_view m' t"
  by (auto simp: mock_inv_def mock_view_def)

lemma mock_read_spec:
  assumes "mock_inv m" and "mock_rmem_read s n m = (r, m')"
  shows "mock_inv m'" and "mock_view m' = mock_view m"
    and "r = Inr d \<Longrightarrow> d = take n (mock_view m s)"
    and "r = Inl TROPIC_ERR_RMEM_SLOT_EMPTY \<Longrightarrow> mock_view m s = []"
proof -
  obtain rc exec tr m1 where e: "enter MOCK_OP_RMEM_READ m = (rc, exec, tr, m1)"
    by (metis prod_cases4)
  note f = enter_frame [OF e] enter_view [OF e]
  show "mock_inv m'" and "mock_view m' = mock_view m"
    and "r = Inr d \<Longrightarrow> d = take n (mock_view m s)"
    and "r = Inl TROPIC_ERR_RMEM_SLOT_EMPTY \<Longrightarrow> mock_view m s = []"
    using assms f
    by (auto simp: mock_rmem_read_def e Let_def mock_view_def TROPIC_ERR_RMEM_SLOT_EMPTY_def
        split: if_splits)
qed

lemma mock_write_spec:
  assumes "mock_inv m" and "mock_rmem_write E s d m = (rc, m')"
  shows "mock_inv m'" and "t \<noteq> s \<Longrightarrow> mock_view m' t = mock_view m t"
    and "mock_view m' s = d \<or> mock_view m' s = mock_view m s \<or> mock_view m' s = []"
proof -
  obtain rc1 exec tr m1 where e: "enter MOCK_OP_RMEM_WRITE m = (rc1, exec, tr, m1)"
    by (metis prod_cases4)
  note f = enter_frame [OF e] enter_view [OF e]
  show "mock_inv m'" and "t \<noteq> s \<Longrightarrow> mock_view m' t = mock_view m t"
    using assms f by (auto simp: mock_rmem_write_def e Let_def split: if_splits)
  show "mock_view m' s = d \<or> mock_view m' s = mock_view m s \<or> mock_view m' s = []"
    using assms f
    by (cases tr; cases "the tr")
       (auto simp: mock_rmem_write_def e Let_def mock_view_def tear_def mock_rmem_damage_def
        split: if_splits)
qed

lemma mock_erase_spec:
  assumes "mock_inv m" and "mock_rmem_erase E s m = (rc, m')"
  shows "mock_inv m'" and "t \<noteq> s \<Longrightarrow> mock_view m' t = mock_view m t"
    and "mock_view m' s = mock_view m s \<or> mock_view m' s = []"
proof -
  obtain rc1 exec tr m1 where e: "enter MOCK_OP_RMEM_ERASE m = (rc1, exec, tr, m1)"
    by (metis prod_cases4)
  note f = enter_frame [OF e] enter_view [OF e]
  show "mock_inv m'" and "t \<noteq> s \<Longrightarrow> mock_view m' t = mock_view m t"
    using assms f by (auto simp: mock_rmem_erase_def e Let_def split: if_splits)
  show "mock_view m' s = mock_view m s \<or> mock_view m' s = []"
    using assms f
    by (cases tr; cases "the tr")
       (auto simp: mock_rmem_erase_def e Let_def mock_view_def tear_def mock_rmem_damage_def
          mock_empty_def split: if_splits)
qed

lemma mock_md_spec:
  assumes "mock_inv m" and "mock_mac_and_destroy K i d m = (r, m')"
  shows "mock_inv m'" and "mock_view m' = mock_view m"
proof -
  obtain rc exec tr m1 where e: "enter MOCK_OP_MAC_AND_DESTROY m = (rc, exec, tr, m1)"
    by (metis prod_cases4)
  show "mock_inv m'" and "mock_view m' = mock_view m"
    using assms enter_frame [OF e] enter_view [OF e]
    by (auto simp: mock_mac_and_destroy_def e Let_def split: if_splits)
qed

lemma mock_random_spec:
  assumes "mock_inv m" and "mock_random n m = (r, m')"
  shows "mock_inv m'" and "mock_view m' = mock_view m" and "r = Inr d \<Longrightarrow> length d = n"
proof -
  obtain rc exec tr m1 where e: "enter MOCK_OP_RANDOM m = (rc, exec, tr, m1)"
    by (metis prod_cases4)
  show "mock_inv m'" and "mock_view m' = mock_view m" and "r = Inr d \<Longrightarrow> length d = n"
    using assms enter_frame [OF e] enter_view [OF e]
    by (auto simp: mock_random_def e Let_def dest: prng_bytes_length split: if_splits prod.splits)
qed

lemma mock_other_spec:
  assumes "mock_inv m"
  shows "mock_ecc_erase i m = (rc, m') \<Longrightarrow> mock_inv m' \<and> mock_view m' = mock_view m"
    and "mock_mcounter_init i w m = (rc, m') \<Longrightarrow> mock_inv m' \<and> mock_view m' = mock_view m"
    and "mock_mcounter_get i m = (r, m') \<Longrightarrow> mock_inv m' \<and> mock_view m' = mock_view m"
proof -
  obtain rc1 ex1 tr1 m1 where 1: "enter MOCK_OP_ECC_ERASE m = (rc1, ex1, tr1, m1)" by (metis prod_cases4)
  show "mock_ecc_erase i m = (rc, m') \<Longrightarrow> mock_inv m' \<and> mock_view m' = mock_view m"
    using assms enter_frame [OF 1] enter_view [OF 1]
    by (auto simp: mock_ecc_erase_def 1 Let_def mock_inv_def mock_view_def split: if_splits)
next
  obtain rc1 ex1 tr1 m1 where 1: "enter MOCK_OP_MCOUNTER m = (rc1, ex1, tr1, m1)" by (metis prod_cases4)
  show "mock_mcounter_init i w m = (rc, m') \<Longrightarrow> mock_inv m' \<and> mock_view m' = mock_view m"
    using assms enter_frame [OF 1] enter_view [OF 1]
    by (auto simp: mock_mcounter_init_def 1 Let_def mock_inv_def mock_view_def split: if_splits)
next
  obtain rc1 ex1 tr1 m1 where 1: "enter MOCK_OP_MCOUNTER m = (rc1, ex1, tr1, m1)" by (metis prod_cases4)
  show "mock_mcounter_get i m = (r, m') \<Longrightarrow> mock_inv m' \<and> mock_view m' = mock_view m"
    using assms enter_frame [OF 1] enter_view [OF 1]
    by (auto simp: mock_mcounter_get_def 1 Let_def mock_inv_def mock_view_def split: if_splits option.splits)
qed

interpretation mock: framed_chip "mock_tropic K E" mock_inv mock_view for K E
  by unfold_locales
     (auto dest: mock_read_spec mock_write_spec mock_erase_spec mock_md_spec mock_random_spec mock_other_spec)

text \<open>A working mock: nothing armed, no slot masked, no slot written with nothing.\<close>

definition mock_good :: "mock \<Rightarrow> bool" where
  "mock_good m \<longleftrightarrow> mock_inv m \<and> (\<forall>op. f_at (s_fault m op) = 0) \<and>
     (\<forall>s. \<not> s_masked (s_rmem m s) \<and> (s_written (s_rmem m s) \<longrightarrow> s_data (s_rmem m s) \<noteq> []))"

lemma enter_good:
  assumes "mock_good m"
  obtains m1 where "enter op m = (0, True, None, m1)" and "mock_good m1"
    and "s_rmem m1 = s_rmem m" and "s_mad m1 = s_mad m" and "s_kfa m1 = s_kfa m"
proof
  let ?m = "m\<lparr>s_calls := (s_calls m)(op := s_calls m op + 1)\<rparr>"
  show "enter op m = (0, True, None, ?m)"
    using assms by (simp add: enter_def mock_good_def)
  show "mock_good ?m"
    using assms by (simp add: mock_good_def mock_inv_def)
qed simp_all

interpretation mock_live: live_rmem "mock_tropic K E" mock_inv mock_view mock_good for K E
proof (unfold_locales, goal_cases)
  case (1 c)
  then show ?case by (simp add: mock_good_def)
next
  case (2 c s n)
  then obtain m1 where "enter MOCK_OP_RMEM_READ c = (0, True, None, m1)" "mock_good m1"
    "s_rmem m1 = s_rmem c" by (auto elim: enter_good)
  with 2 show ?case
    by (auto simp: mock_rmem_read_def mock_view_def mock_good_def Let_def mock_consts split: if_splits)
next
  case (3 c s n)
  then obtain m1 where "enter MOCK_OP_RMEM_READ c = (0, True, None, m1)" "mock_good m1"
    "s_rmem m1 = s_rmem c" by (auto elim: enter_good)
  with 3 show ?case
    by (auto simp: mock_rmem_read_def mock_view_def mock_good_def Let_def mock_consts split: if_splits)
next
  case (4 c s)
  then obtain m1 where "enter MOCK_OP_RMEM_ERASE c = (0, True, None, m1)" "mock_good m1"
    "s_rmem m1 = s_rmem c" by (auto elim: enter_good)
  with 4 show ?case
    by (auto simp: mock_rmem_erase_def mock_view_def mock_good_def Let_def mock_consts tear_def
        mock_empty_def)
next
  case (5 c s d)
  then obtain m1 where "enter MOCK_OP_RMEM_WRITE c = (0, True, None, m1)" "mock_good m1"
    "s_rmem m1 = s_rmem c" by (auto elim: enter_good)
  with 5 show ?case
    by (auto simp: mock_rmem_write_def mock_view_def mock_good_def Let_def mock_consts tear_def
        split: if_splits)
qed

interpretation mock_dev: live_dev "mock_tropic K E" mock_inv mock_view mock_good for K E
proof (unfold_locales, goal_cases)
  case (1 c n)
  then obtain m1 where m1: "enter MOCK_OP_RANDOM c = (0, True, None, m1)" "mock_good m1"
    by (auto elim: enter_good)
  obtain bs s where "prng_bytes n (s_prng m1) = (bs, s)" by fastforce
  with 1 m1 show ?case
    by (auto simp: mock_random_def Let_def mock_good_def mock_inv_def)
qed

section \<open>Concrete parameters for evaluation\<close>

text \<open>
  Checksums that any single changed byte changes; real enough to run the code on, with
  no claim to be hash functions.
\<close>

definition demo_crypto :: crypto where
  "demo_crypto = \<lparr>sha256 = (\<lambda>m. replicate 32 (sum_list m)),
     hmac_sha256 = (\<lambda>k m. replicate 32 (5 * sum_list k + 3 * sum_list m + 1))\<rparr>"

definition demo_codes :: lt_codes where
  "demo_codes = \<lparr>LT_L3_SLOT_NOT_EMPTY = 1, LT_L3_INVALID_CMD = 2\<rparr>"

lemma crypto_ok_demo [simp]: "crypto_ok demo_crypto"
  by (simp add: crypto_ok_def demo_crypto_def)

definition demo_chip :: "mock tropic" where
  "demo_chip = mock_tropic demo_crypto demo_codes"

text \<open>An empty chip with no fault armed.\<close>

definition demo_mock :: mock where
  "demo_mock = \<lparr>s_rmem = (\<lambda>_. mock_empty), s_mad = (\<lambda>i. replicate 32 (of_nat i)),
     s_ecc = (\<lambda>_. False), s_mcounter = None, s_kfa = replicate 32 7, s_prng = 1,
     s_calls = (\<lambda>_. 0), s_fault = (\<lambda>_. no_fault)\<rparr>"

lemma mock_inv_start [simp]: "mock_inv (mock_reset K s)" "mock_inv demo_mock"
  by (simp_all add: mock_inv_def mock_reset_def demo_mock_def Let_def no_fault_def
      TROPIC_ERR_RMEM_SLOT_EMPTY_def split: prod.splits)

lemma mock_good_start [simp]: "mock_good demo_mock"
  by (simp add: mock_good_def demo_mock_def mock_inv_def no_fault_def mock_empty_def
      TROPIC_ERR_RMEM_SLOT_EMPTY_def)

end
