(* ===== verification/Rec_Pair.thy ===== *)
theory Rec_Pair
  imports Mock_Chip
begin

text \<open>
  Mirrored record pairs, \<^verbatim>\<open>firmware/src/tropic/rec_pair.c\<close>: one persistent object kept
  in two data-memory slots.  First the record format and its checks, then the reads,
  commits and erases of single copies, then the four public operations.  The lemmas
  show that the format is a bijection between (generation, payload) and valid records,
  that an acknowledged operation holds in both copies, and that no sequence of
  failures and power cuts rolls an object back or loses it.
\<close>

section \<open>The record format\<close>

datatype rec_status = REC_OK | REC_ABSENT | REC_CORRUPT | REC_ERROR

record rec_pair =
  slot_a :: nat
  slot_b :: nat
  obj :: u8
  schema :: u8
  uncertain :: bool

datatype copy = COPY_VALID bytes | COPY_EMPTY | COPY_BAD | COPY_ERR

definition REC_PAYLOAD_MAX :: nat where "REC_PAYLOAD_MAX = 424"
definition REC_HDR :: nat where "REC_HDR = 12"
definition REC_SUM :: nat where "REC_SUM = 8"
definition REC_MAX :: nat where "REC_MAX = REC_HDR + REC_PAYLOAD_MAX + REC_SUM"
definition SLOT_MAX :: nat where "SLOT_MAX = 475"

lemmas rec_consts = REC_PAYLOAD_MAX_def REC_HDR_def REC_SUM_def REC_MAX_def SLOT_MAX_def

definition REC_MAGIC :: bytes where
  "REC_MAGIC = [0x4e, 0x58, 0x52, 0x31]" \<comment> \<open>"NXR1"\<close>

definition gen_of :: "bytes \<Rightarrow> u32" where
  "gen_of r = be32_load (r ! 6) (r ! 7) (r ! 8) (r ! 9)"

definition len_of_rec :: "bytes \<Rightarrow> nat" where
  "len_of_rec r = be16_load (r ! 10) (r ! 11)"

definition checksum :: "crypto \<Rightarrow> bytes \<Rightarrow> nat \<Rightarrow> bytes" where
  "checksum K r n = take REC_SUM (sha256 K (take n r))"

definition encode :: "crypto \<Rightarrow> rec_pair \<Rightarrow> u32 \<Rightarrow> bytes \<Rightarrow> bytes" where
  "encode K p gen payload =
     (let body = REC_MAGIC @ [obj p, schema p] @ be32_store gen @ be16_store (length payload) @ payload
      in body @ checksum K body (REC_HDR + length payload))"

definition valid :: "crypto \<Rightarrow> rec_pair \<Rightarrow> bytes \<Rightarrow> bool" where
  "valid K p r =
     (let n = length r in
      \<not> (n < REC_HDR + REC_SUM \<or> n > REC_MAX) \<and>
      \<not> (take 4 r \<noteq> REC_MAGIC \<or> r ! 4 \<noteq> obj p \<or> r ! 5 \<noteq> schema p) \<and>
      \<not> (gen_of r = 0 \<or> n \<noteq> REC_HDR + len_of_rec r + REC_SUM) \<and>
      checksum K r (REC_HDR + len_of_rec r) = take REC_SUM (drop (REC_HDR + len_of_rec r) r))"

text \<open>The payload of a valid record, what \<open>rec_pair_read\<close> copies out.\<close>

definition payload_of :: "bytes \<Rightarrow> bytes" where
  "payload_of r = take (len_of_rec r) (drop REC_HDR r)"

section \<open>Single copies\<close>

definition read_copy :: "'c tropic \<Rightarrow> crypto \<Rightarrow> rec_pair \<Rightarrow> nat \<Rightarrow> 'c \<Rightarrow> copy \<times> 'c" where
  "read_copy T K p slot c =
     (case tropic_rmem_read T slot SLOT_MAX c of
        (Inl rc, c') \<Rightarrow>
          (if rc = TROPIC_ERR_RMEM_SLOT_EMPTY then COPY_EMPTY else COPY_ERR, c')
      | (Inr d, c') \<Rightarrow>
          (if length d = 0 then COPY_EMPTY
           else if valid K p d then COPY_VALID d else COPY_BAD, c'))"

definition commit_copy :: "'c tropic \<Rightarrow> nat \<Rightarrow> bytes \<Rightarrow> 'c \<Rightarrow> bool \<times> 'c" where
  "commit_copy T slot rec c =
     (let (rc1, c1) = tropic_rmem_erase T slot c in
      if rc1 \<noteq> 0 then (False, c1)
      else let (rc2, c2) = tropic_rmem_write T slot rec c1 in
      if rc2 \<noteq> 0 then (False, c2)
      else case tropic_rmem_read T slot SLOT_MAX c2 of
             (Inl _, c3) \<Rightarrow> (False, c3)
           | (Inr d, c3) \<Rightarrow> (d = rec, c3))"

definition erase_checked :: "'c tropic \<Rightarrow> nat \<Rightarrow> 'c \<Rightarrow> bool \<times> 'c" where
  "erase_checked T slot c =
     (let (rc1, c1) = tropic_rmem_erase T slot c in
      if rc1 \<noteq> 0 then (False, c1)
      else case tropic_rmem_read T slot SLOT_MAX c1 of
             (Inl rc, c2) \<Rightarrow> (rc = TROPIC_ERR_RMEM_SLOT_EMPTY, c2)
           | (Inr d, c2) \<Rightarrow> (length d = 0, c2))"

definition mark_uncertain :: "rec_pair \<Rightarrow> rec_pair" where
  "mark_uncertain p = p\<lparr>uncertain := True\<rparr>"

section \<open>The public operations\<close>

text \<open>
  The rules table of \<open>rec_pair_read\<close>: from the two copies, either the status to return
  or the winning record and the slot to repair from it.
\<close>

definition rec_choose :: "rec_pair \<Rightarrow> copy \<Rightarrow> copy \<Rightarrow> rec_status + (bytes \<times> nat option)" where
  "rec_choose p a b =
     (case (a, b) of
        (COPY_VALID ra, COPY_VALID rb) \<Rightarrow>
          (let ga = gen_of ra; gb = gen_of rb in
           if ga = gb then (if ra \<noteq> rb then Inl REC_ERROR else Inr (ra, None))
           else if ga = gb + 1 then Inr (ra, Some (slot_b p))
           else if gb = ga + 1 then Inr (rb, Some (slot_a p))
           else Inl REC_ERROR)
      | (COPY_VALID ra, _) \<Rightarrow> Inr (ra, Some (slot_b p))
      | (_, COPY_VALID rb) \<Rightarrow> Inr (rb, Some (slot_a p))
      | (COPY_EMPTY, COPY_EMPTY) \<Rightarrow> Inl REC_ABSENT
      | _ \<Rightarrow> Inl REC_CORRUPT)"

text \<open>
  \<open>cap\<close> is \<open>None\<close> for a NULL payload pointer.  The result holds the payload and the
  generation exactly when the status is \<open>REC_OK\<close>.
\<close>

definition rec_pair_read ::
  "'c tropic \<Rightarrow> crypto \<Rightarrow> nat option \<Rightarrow> rec_pair \<Rightarrow> 'c
     \<Rightarrow> rec_status \<times> (bytes \<times> u32) option \<times> rec_pair \<times> 'c" where
  "rec_pair_read T K cap p c =
     (if uncertain p then (REC_ERROR, None, p, c)
      else let (a, c1) = read_copy T K p (slot_a p) c in
      if a = COPY_ERR then (REC_ERROR, None, p, c1)
      else let (b, c2) = read_copy T K p (slot_b p) c1 in
      if b = COPY_ERR then (REC_ERROR, None, p, c2)
      else case rec_choose p a b of
        Inl st \<Rightarrow> (st, None, p, c2)
      | Inr (win, repair) \<Rightarrow>
          (if (case cap of None \<Rightarrow> False | Some m \<Rightarrow> len_of_rec win > m) then (REC_ERROR, None, p, c2)
           else let (ok, c3) = (case repair of
                      None \<Rightarrow> (True, c2)
                    | Some slot \<Rightarrow> commit_copy T slot win c2) in
           if \<not> ok then (REC_ERROR, None, mark_uncertain p, c3)
           else (REC_OK, Some (payload_of win, gen_of win), p, c3)))"

definition commit_both ::
  "'c tropic \<Rightarrow> crypto \<Rightarrow> u32 \<Rightarrow> bytes \<Rightarrow> rec_pair \<Rightarrow> 'c \<Rightarrow> rec_status \<times> rec_pair \<times> 'c" where
  "commit_both T K gen payload p c =
     (let rec = encode K p gen payload;
          (ok_a, c1) = commit_copy T (slot_a p) rec c in
      if \<not> ok_a then (REC_ERROR, mark_uncertain p, c1)
      else let (ok_b, c2) = commit_copy T (slot_b p) rec c1 in
      if \<not> ok_b then (REC_ERROR, mark_uncertain p, c2)
      else (REC_OK, p, c2))"

definition bad_args :: "bytes \<Rightarrow> bool" where
  "bad_args payload \<longleftrightarrow> length payload > REC_PAYLOAD_MAX"

definition rec_pair_write ::
  "'c tropic \<Rightarrow> crypto \<Rightarrow> bytes \<Rightarrow> rec_pair \<Rightarrow> 'c \<Rightarrow> rec_status \<times> rec_pair \<times> 'c" where
  "rec_pair_write T K payload p c =
     (if bad_args payload then (REC_ERROR, p, c)
      else case rec_pair_read T K None p c of
        (REC_OK, Some (_, gen), p1, c1) \<Rightarrow>
          (if gen = - 1 then (REC_ERROR, p1, c1)
           else commit_both T K (gen + 1) payload p1 c1)
      | (st, _, p1, c1) \<Rightarrow> (st, p1, c1))"

definition rec_pair_clear ::
  "'c tropic \<Rightarrow> rec_pair \<Rightarrow> 'c \<Rightarrow> rec_status \<times> rec_pair \<times> 'c" where
  "rec_pair_clear T p c =
     (if uncertain p then (REC_ERROR, p, c)
      else let (ok_b, c1) = erase_checked T (slot_b p) c in
      if \<not> ok_b then (REC_ERROR, mark_uncertain p, c1)
      else let (ok_a, c2) = erase_checked T (slot_a p) c1 in
      if \<not> ok_a then (REC_ERROR, mark_uncertain p, c2)
      else (REC_OK, p, c2))"

definition rec_pair_init ::
  "'c tropic \<Rightarrow> crypto \<Rightarrow> bytes \<Rightarrow> rec_pair \<Rightarrow> 'c \<Rightarrow> rec_status \<times> rec_pair \<times> 'c" where
  "rec_pair_init T K payload p c =
     (if bad_args payload then (REC_ERROR, p, c)
      else case rec_pair_clear T p c of
        (REC_OK, p1, c1) \<Rightarrow> commit_both T K 1 payload p1 c1
      | (st, p1, c1) \<Rightarrow> (st, p1, c1))"

section \<open>The format is a bijection\<close>

lemma encode_expand:
  "encode K p g pl =
     REC_MAGIC @ obj p # schema p # be32_store g @ be16_store (length pl) @ pl
       @ checksum K (encode K p g pl) (REC_HDR + length pl)"
proof -
  define body where
    "body = REC_MAGIC @ [obj p, schema p] @ be32_store g @ be16_store (length pl) @ pl"
  have len: "length body = REC_HDR + length pl"
    by (simp add: body_def REC_MAGIC_def rec_consts)
  have enc: "encode K p g pl = body @ checksum K body (REC_HDR + length pl)"
    by (simp add: encode_def body_def)
  have "checksum K (encode K p g pl) (REC_HDR + length pl) = checksum K body (REC_HDR + length pl)"
    by (simp add: enc checksum_def len)
  with enc show ?thesis by (simp add: body_def)
qed

lemma encode_fields:
  shows "encode K p g pl ! 4 = obj p" and "encode K p g pl ! 5 = schema p"
    and "take 4 (encode K p g pl) = REC_MAGIC"
    and "gen_of (encode K p g pl) = g"
    and "length pl < 65536 \<Longrightarrow> len_of_rec (encode K p g pl) = length pl"
  by (simp_all add: encode_def Let_def REC_MAGIC_def be32_store_def be16_store_def
      gen_of_def len_of_rec_def codec)

lemma length_encode:
  "crypto_ok K \<Longrightarrow> length (encode K p g pl) = REC_HDR + length pl + REC_SUM"
  by (simp add: encode_def Let_def REC_MAGIC_def checksum_def rec_consts)

lemma drop_encode:
  "drop (REC_HDR + length pl) (encode K p g pl) = checksum K (encode K p g pl) (REC_HDR + length pl)"
proof -
  have "length (REC_MAGIC @ obj p # schema p # be32_store g @ be16_store (length pl) @ pl)
      = REC_HDR + length pl"
    by (simp add: REC_MAGIC_def rec_consts)
  then show ?thesis
    by (subst (1) encode_expand) (metis append.assoc append_Cons append_eq_conv_conj)
qed

lemma payload_of_encode:
  "length pl < 65536 \<Longrightarrow> payload_of (encode K p g pl) = pl"
  by (simp add: payload_of_def encode_fields)
     (simp add: encode_def Let_def REC_MAGIC_def be32_store_def be16_store_def REC_HDR_def)

lemma take_checksum [simp]: "take REC_SUM (checksum K r n) = checksum K r n"
  by (simp add: checksum_def)

lemma valid_encode:
  assumes "crypto_ok K" and "g \<noteq> 0" and "length pl \<le> REC_PAYLOAD_MAX"
  shows "valid K p (encode K p g pl)"
proof -
  have l: "length pl < 65536" using assms(3) by (simp add: rec_consts)
  with assms show ?thesis
    by (simp add: valid_def Let_def length_encode encode_fields drop_encode)
       (simp add: rec_consts)
qed

lemma valid_length:
  assumes "valid K p r"
  shows "length r = REC_HDR + len_of_rec r + REC_SUM" and "length r \<le> REC_MAX"
    and "length (payload_of r) = len_of_rec r" and "len_of_rec r \<le> REC_PAYLOAD_MAX"
    and "r \<noteq> []" and "length r < SLOT_MAX"
  using assms by (auto simp: valid_def Let_def payload_of_def rec_consts)

lemma valid_gen: "valid K p r \<Longrightarrow> gen_of r \<noteq> 0"
  by (simp add: valid_def Let_def)

lemma header_split:
  assumes "12 \<le> length r"
  shows "r = [r ! 0, r ! 1, r ! 2, r ! 3] @ [r ! 4, r ! 5] @ [r ! 6, r ! 7, r ! 8, r ! 9]
      @ [r ! 10, r ! 11] @ drop 12 r"
proof -
  have "take 12 r = [r ! 0, r ! 1, r ! 2, r ! 3] @ [r ! 4, r ! 5] @ [r ! 6, r ! 7, r ! 8, r ! 9]
      @ [r ! 10, r ! 11]"
    using assms by (simp add: list_eq_iff_nth_eq nth_Cons' numeral_eq_Suc less_Suc_eq)
  then show ?thesis
    by (metis append_take_drop_id append.assoc)
qed

text \<open>A valid record is the encoding of its own generation and payload, and of nothing else.\<close>

lemma valid_is_encode:
  assumes "valid K p r"
  shows "r = encode K p (gen_of r) (payload_of r)"
proof -
  note v = assms [unfolded valid_def Let_def, simplified]
  have len: "length r = 12 + len_of_rec r + 8"
    using valid_length(1) [OF assms] by (simp add: rec_consts)
  have pl: "length (payload_of r) = len_of_rec r"
    by (rule valid_length(3) [OF assms])
  have hd: "[r ! 0, r ! 1, r ! 2, r ! 3] = REC_MAGIC"
    using v nth4_take4 [of r] by (simp add: rec_consts)
  have body: "drop 12 r = payload_of r @ drop (12 + len_of_rec r) r"
    by (metis payload_of_def REC_HDR_def append_take_drop_id drop_drop add.commute)
  have sum: "drop (12 + len_of_rec r) r = checksum K r (12 + len_of_rec r)"
    using v len by (simp add: rec_consts)
  have g: "be32_store (gen_of r) = [r ! 6, r ! 7, r ! 8, r ! 9]"
    by (simp add: gen_of_def codec)
  have l: "be16_store (len_of_rec r) = [r ! 10, r ! 11]"
    by (simp add: len_of_rec_def codec)
  define bd where
    "bd = REC_MAGIC @ [obj p, schema p] @ be32_store (gen_of r) @ be16_store (len_of_rec r) @ payload_of r"
  have r45: "r ! 4 = obj p" "r ! 5 = schema p" using v by simp_all
  have "r = [r ! 0, r ! 1, r ! 2, r ! 3] @ [r ! 4, r ! 5] @ [r ! 6, r ! 7, r ! 8, r ! 9]
      @ [r ! 10, r ! 11] @ drop 12 r"
    by (rule header_split) (simp add: len)
  also have "\<dots> = bd @ checksum K r (12 + len_of_rec r)"
    by (simp only: hd r45 g [symmetric] l [symmetric] body sum bd_def append_assoc)
  finally have r: "r = bd @ checksum K r (12 + len_of_rec r)" .
  have lbd: "length bd = 12 + len_of_rec r"
    using pl by (simp add: bd_def REC_MAGIC_def)
  have "checksum K r (12 + len_of_rec r) = checksum K bd (12 + len_of_rec r)"
    by (subst r) (simp add: checksum_def lbd)
  with r have "r = bd @ checksum K bd (12 + len_of_rec r)" by simp
  then show ?thesis
    by (simp add: encode_def Let_def bd_def pl REC_HDR_def)
qed

lemma valid_inj:
  assumes "valid K p r" and "valid K p r'" and "gen_of r = gen_of r'"
    and "payload_of r = payload_of r'"
  shows "r = r'"
  using valid_is_encode [OF assms(1)] valid_is_encode [OF assms(2)] assms(3,4) by simp

section \<open>What a copy reads as\<close>

definition classify :: "crypto \<Rightarrow> rec_pair \<Rightarrow> bytes \<Rightarrow> copy" where
  "classify K p v = (if v = [] then COPY_EMPTY else if valid K p v then COPY_VALID v else COPY_BAD)"

lemma classify_simps [simp]:
  "classify K p [] = COPY_EMPTY"
  "valid K p v \<Longrightarrow> classify K p v = COPY_VALID v"
  "classify K p v \<noteq> COPY_ERR"
  by (auto simp: classify_def dest: valid_length)

lemma classify_valid_iff [simp]:
  "classify K p v = COPY_VALID r \<longleftrightarrow> valid K p v \<and> r = v"
  by (auto simp: classify_def dest: valid_length)

lemma classify_take: "classify K p (take SLOT_MAX v) = classify K p v"
proof (cases "length v \<le> SLOT_MAX")
  case True
  then show ?thesis by simp
next
  case False
  then have "length (take SLOT_MAX v) = SLOT_MAX" by simp
  then have "\<not> valid K p (take SLOT_MAX v)" and "\<not> valid K p v"
    using False valid_length(6) [of K p v] valid_length(6) [of K p "take SLOT_MAX v"] by auto
  with False show ?thesis by (auto simp: classify_def rec_consts)
qed

lemma rec_choose_classify:
  assumes "rec_choose p (classify K p va) (classify K p vb) = Inr (win, rep)"
  shows "valid K p win"
    and "rep = None \<Longrightarrow> va = win \<and> vb = win"
    and "rep = Some t \<Longrightarrow> t = slot_a p \<and> vb = win \<or> t = slot_b p \<and> va = win"
  using assms
  by (auto simp: rec_choose_def Let_def classify_def split: copy.splits if_splits)

section \<open>Copies on any chip\<close>

context rmem_chip
begin

lemma read_copy_spec:
  assumes "inv c" and "read_copy T K p s c = (x, c')"
  shows "inv c'" and "view c' = view c" and "x \<noteq> COPY_ERR \<Longrightarrow> x = classify K p (view c s)"
proof -
  obtain r where r: "tropic_rmem_read T s SLOT_MAX c = (r, c')"
    using assms(2) by (auto simp: read_copy_def split: prod.splits sum.splits if_splits)
  show "inv c'" by (rule read_inv [OF assms(1) r])
  show "view c' = view c" by (rule read_frame [OF assms(1) r])
  assume x: "x \<noteq> COPY_ERR"
  show "x = classify K p (view c s)"
  proof (cases r)
    case (Inl rc)
    then have "rc = TROPIC_ERR_RMEM_SLOT_EMPTY" and "x = COPY_EMPTY"
      using assms(2) r x by (auto simp: read_copy_def split: if_splits)
    then show ?thesis using read_empty [OF assms(1)] r Inl by auto
  next
    case (Inr d)
    then have "d = take SLOT_MAX (view c s)" using read_data [OF assms(1)] r by auto
    moreover have "x = classify K p d"
      using assms(2) r Inr by (auto simp: read_copy_def classify_def)
    ultimately show ?thesis by (simp add: classify_take)
  qed
qed

lemma read_exact:
  assumes "inv c" and "tropic_rmem_read T s SLOT_MAX c = (Inr d, c')" and "length d < SLOT_MAX"
  shows "view c s = d"
  using read_data [OF assms(1,2)] assms(3) by auto

lemma commit_copy_spec:
  assumes "inv c" and "commit_copy T s d c = (ok, c')"
  shows "inv c'" and "t \<noteq> s \<Longrightarrow> view c' t = view c t"
    and "ok \<Longrightarrow> length d < SLOT_MAX \<Longrightarrow> view c' s = d"
proof -
  obtain rc1 c1 where 1: "tropic_rmem_erase T s c = (rc1, c1)" by fastforce
  obtain rc2 c2 where 2: "tropic_rmem_write T s d c1 = (rc2, c2)" by fastforce
  obtain r c3 where 3: "tropic_rmem_read T s SLOT_MAX c2 = (r, c3)" by fastforce
  note i1 = erase_inv [OF assms(1) 1] and i2 = write_inv [OF erase_inv [OF assms(1) 1] 2]
  note i3 = read_inv [OF i2 3]
  have c': "c' = (if rc1 \<noteq> 0 then c1 else if rc2 \<noteq> 0 then c2 else c3)"
    and ok: "ok \<longleftrightarrow> rc1 = 0 \<and> rc2 = 0 \<and> r = Inr d"
    using assms(2) by (auto simp: commit_copy_def 1 2 3 split: if_splits sum.splits)
  show "inv c'" using i1 i2 i3 c' by simp
  show "t \<noteq> s \<Longrightarrow> view c' t = view c t"
    using c' erase_frame [OF assms(1) 1] write_frame [OF i1 2] read_frame [OF i2 3] by simp
  show "ok \<Longrightarrow> length d < SLOT_MAX \<Longrightarrow> view c' s = d"
    using c' ok read_exact [OF i2] 3 read_frame [OF i2 3] by auto
qed

lemma erase_checked_spec:
  assumes "inv c" and "erase_checked T s c = (ok, c')"
  shows "inv c'" and "t \<noteq> s \<Longrightarrow> view c' t = view c t" and "ok \<Longrightarrow> view c' s = []"
proof -
  obtain rc1 c1 where 1: "tropic_rmem_erase T s c = (rc1, c1)" by fastforce
  obtain r c3 where 3: "tropic_rmem_read T s SLOT_MAX c1 = (r, c3)" by fastforce
  note i1 = erase_inv [OF assms(1) 1]
  note i3 = read_inv [OF i1 3]
  have c': "c' = (if rc1 \<noteq> 0 then c1 else c3)"
    and ok: "ok \<Longrightarrow> rc1 = 0 \<and> (r = Inl TROPIC_ERR_RMEM_SLOT_EMPTY \<or> r = Inr [])"
    using assms(2) by (auto simp: erase_checked_def 1 3 split: if_splits sum.splits)
  show "inv c'" using i1 i3 c' by simp
  show "t \<noteq> s \<Longrightarrow> view c' t = view c t"
    using c' erase_frame [OF assms(1) 1] read_frame [OF i1 3] by simp
  show "view c' s = []" if ok
    using c' ok [OF that] read_empty [OF i1] read_exact [OF i1] 3 read_frame [OF i1 3]
    by (auto simp: rec_consts)
qed

text \<open>
  A read either repairs the pair to the winner in both copies, or returns an error and
  leaves at least the winning copy as it was.
\<close>

lemma rec_pair_read_ok:
  assumes "inv c" and "slot_a p \<noteq> slot_b p"
    and "rec_pair_read T K cap p c = (REC_OK, out, p', c')"
  obtains win rep where
    "rec_choose p (classify K p (view c (slot_a p))) (classify K p (view c (slot_b p))) = Inr (win, rep)"
    and "out = Some (payload_of win, gen_of win)" and "valid K p win"
    and "view c' (slot_a p) = win" and "view c' (slot_b p) = win"
    and "p' = p" and "\<not> uncertain p"
proof -
  obtain a c1 where 1: "read_copy T K p (slot_a p) c = (a, c1)" by fastforce
  obtain b c2 where 2: "read_copy T K p (slot_b p) c1 = (b, c2)" by fastforce
  note s1 = read_copy_spec [OF assms(1) 1]
  note s2 = read_copy_spec [OF s1(1) 2]
  have nz: "\<not> uncertain p" "a \<noteq> COPY_ERR" "b \<noteq> COPY_ERR"
    using assms(3) by (auto simp: rec_pair_read_def 1 2 split: if_splits)
  obtain win rep where ch: "rec_choose p a b = Inr (win, rep)"
    using assms(3) nz by (auto simp: rec_pair_read_def 1 2 rec_choose_def Let_def
        split: copy.splits if_splits)
  have cl: "rec_choose p (classify K p (view c (slot_a p))) (classify K p (view c (slot_b p)))
      = Inr (win, rep)"
    using ch s1(3) s2(3) s1(2) nz by simp
  have v: "view c2 = view c" using s1(2) s2(2) by simp
  obtain ok c3 where 3: "(case rep of None \<Rightarrow> (True, c2)
      | Some slot \<Rightarrow> commit_copy T slot win c2) = (ok, c3)" by fastforce
  have fin: "ok" "out = Some (payload_of win, gen_of win)" "p' = p" "c' = c3"
    using assms(3) nz by (auto simp: rec_pair_read_def 1 2 3 ch split: if_splits option.splits)
  note w = rec_choose_classify [OF cl]
  have "view c' (slot_a p) = win \<and> view c' (slot_b p) = win"
  proof (cases rep)
    case None
    then show ?thesis using 3 fin w(2) v by simp
  next
    case (Some s)
    then have cc: "commit_copy T s win c2 = (True, c')" using 3 fin by simp
    note k = commit_copy_spec [OF s2(1) cc]
    show ?thesis
      using w(3) [OF Some] k(2,3) valid_length(6) [OF w(1)] v assms(2) by auto
  qed
  with cl w(1) fin nz show ?thesis by (intro that) auto
qed

lemma rec_pair_read_frame:
  assumes "inv c" and "rec_pair_read T K cap p c = (st, out, p', c')"
  shows "inv c'" and "t \<noteq> slot_a p \<Longrightarrow> t \<noteq> slot_b p \<Longrightarrow> view c' t = view c t"
    and "p' = p \<or> p' = mark_uncertain p"
proof -
  obtain a c1 where 1: "read_copy T K p (slot_a p) c = (a, c1)" by fastforce
  obtain b c2 where 2: "read_copy T K p (slot_b p) c1 = (b, c2)" by fastforce
  note s1 = read_copy_spec [OF assms(1) 1]
  note s2 = read_copy_spec [OF s1(1) 2]
  have *: "inv c' \<and> (t \<noteq> slot_a p \<longrightarrow> t \<noteq> slot_b p \<longrightarrow> view c' t = view c t)"
    if ch: "rec_choose p a b = Inr (win, rep)"
      and e: "(case rep of None \<Rightarrow> (True, c2) | Some slot \<Rightarrow> commit_copy T slot win c2) = (ok, c')"
      and nz: "a \<noteq> COPY_ERR" "b \<noteq> COPY_ERR" for win rep ok
  proof (cases rep)
    case None
    then show ?thesis using e s2 s1 by simp
  next
    case (Some s)
    have "rec_choose p (classify K p (view c (slot_a p))) (classify K p (view c (slot_b p)))
        = Inr (win, rep)"
      using ch nz s1 s2 by simp
    then have "s = slot_a p \<or> s = slot_b p" using rec_choose_classify(3) Some by blast
    then show ?thesis
      using e Some commit_copy_spec [OF s2(1), of s win ok c'] s1 s2 by auto
  qed
  show "inv c'" and "t \<noteq> slot_a p \<Longrightarrow> t \<noteq> slot_b p \<Longrightarrow> view c' t = view c t"
    and "p' = p \<or> p' = mark_uncertain p"
    using assms s1 s2 *
    by (auto simp: rec_pair_read_def 1 2 split: if_splits sum.splits prod.splits option.splits)
qed

lemma commit_both_spec:
  assumes "inv c" and "slot_a p \<noteq> slot_b p" and "crypto_ok K" and "\<not> bad_args pl"
    and "commit_both T K g pl p c = (st, p', c')"
  shows "inv c'" and "t \<noteq> slot_a p \<Longrightarrow> t \<noteq> slot_b p \<Longrightarrow> view c' t = view c t"
    and "p' = p \<or> p' = mark_uncertain p"
    and "st = REC_OK \<Longrightarrow> p' = p \<and> view c' (slot_a p) = encode K p g pl
           \<and> view c' (slot_b p) = encode K p g pl"
    and "st \<noteq> REC_OK \<Longrightarrow> st = REC_ERROR \<and> p' = mark_uncertain p"
    and "view c' (slot_b p) = view c (slot_b p) \<or> view c' (slot_a p) = encode K p g pl"
proof -
  let ?r = "encode K p g pl"
  have len: "length ?r < SLOT_MAX"
    using assms(3,4) by (simp add: length_encode bad_args_def rec_consts)
  obtain ok1 c1 where 1: "commit_copy T (slot_a p) ?r c = (ok1, c1)" by fastforce
  obtain ok2 c2 where 2: "commit_copy T (slot_b p) ?r c1 = (ok2, c2)" by fastforce
  note s1 = commit_copy_spec [OF assms(1) 1]
  note s2 = commit_copy_spec [OF s1(1) 2]
  show "inv c'" and "t \<noteq> slot_a p \<Longrightarrow> t \<noteq> slot_b p \<Longrightarrow> view c' t = view c t"
    and "p' = p \<or> p' = mark_uncertain p"
    and "st = REC_OK \<Longrightarrow> p' = p \<and> view c' (slot_a p) = ?r \<and> view c' (slot_b p) = ?r"
    and "st \<noteq> REC_OK \<Longrightarrow> st = REC_ERROR \<and> p' = mark_uncertain p"
    and "view c' (slot_b p) = view c (slot_b p) \<or> view c' (slot_a p) = ?r"
    using assms(2,5) s1 s2 len by (auto simp: commit_both_def Let_def 1 2 split: if_splits)
qed

end

section \<open>Failures and power cuts\<close>

text \<open>
  \<open>boots\<close> is what the rest of the firmware can observe of a pair: a list of power
  cycles, each followed by one read.  A power cycle forgets \<open>uncertain\<close> (RAM only) and
  does to the chip whatever its function in the list says.
\<close>

fun boots ::
  "'c tropic \<Rightarrow> crypto \<Rightarrow> nat option \<Rightarrow> rec_pair \<Rightarrow> ('c \<Rightarrow> 'c) list \<Rightarrow> 'c
     \<Rightarrow> (rec_status \<times> (bytes \<times> u32) option) list" where
  "boots T K cap p [] c = []"
| "boots T K cap p (f # fs) c =
     (case rec_pair_read T K cap (p\<lparr>uncertain := False\<rparr>) (f c) of
        (st, out, _, c') \<Rightarrow> (st, out) # boots T K cap p fs c')"

definition power_cycle :: "('c \<Rightarrow> bool) \<Rightarrow> ('c \<Rightarrow> nat \<Rightarrow> bytes) \<Rightarrow> ('c \<Rightarrow> 'c) \<Rightarrow> bool" where
  "power_cycle I view f \<longleftrightarrow> (\<forall>c. I c \<longrightarrow> I (f c) \<and> view (f c) = view c)"

text \<open>A boot either reports the record \<open>r\<close> or reports an error; never absent, never corrupt.\<close>

definition reports :: "bytes \<Rightarrow> rec_status \<times> (bytes \<times> u32) option \<Rightarrow> bool" where
  "reports r x \<longleftrightarrow> x = (REC_OK, Some (payload_of r, gen_of r)) \<or> x = (REC_ERROR, None)"

text \<open>
  The state a cut may leave: the write goes to copy A first, so copy B holds the old
  record unless copy A already holds the new one.  The other copy may be torn.
\<close>

definition torn_of :: "crypto \<Rightarrow> rec_pair \<Rightarrow> bytes \<Rightarrow> bytes \<Rightarrow> bytes \<Rightarrow> bool" where
  "torn_of K p ro rn v \<longleftrightarrow> (valid K p v \<longrightarrow> v = ro \<or> v = rn)"

definition pending :: "crypto \<Rightarrow> rec_pair \<Rightarrow> bytes \<Rightarrow> bytes \<Rightarrow> bytes \<Rightarrow> bytes \<Rightarrow> bool" where
  "pending K p ro rn va vb \<longleftrightarrow>
     vb = ro \<and> torn_of K p ro rn va \<or> va = rn \<and> torn_of K p ro rn vb"

lemma valid_uncertain [simp]: "valid K (p\<lparr>uncertain := b\<rparr>) r = valid K p r"
  by (simp add: valid_def)

lemma valid_mark [simp]: "valid K (mark_uncertain p) r = valid K p r"
  by (simp add: mark_uncertain_def)

lemma classify_uncertain [simp]: "classify K (p\<lparr>uncertain := b\<rparr>) r = classify K p r"
  by (simp add: classify_def)

lemma pending_uncertain [simp]: "pending K (p\<lparr>uncertain := b\<rparr>) = pending K p"
  by (simp add: pending_def torn_of_def fun_eq_iff)

lemma encode_uncertain [simp]: "encode K (p\<lparr>uncertain := b\<rparr>) = encode K p"
  by (simp add: encode_def fun_eq_iff)

lemma mark_uncertain_slots [simp]:
  "slot_a (mark_uncertain p) = slot_a p" "slot_b (mark_uncertain p) = slot_b p"
  "obj (mark_uncertain p) = obj p" "schema (mark_uncertain p) = schema p"
  "uncertain (mark_uncertain p)"
  by (simp_all add: mark_uncertain_def)

lemma pending_choose:
  assumes "pending K p ro rn va vb" and "valid K p ro" and "valid K p rn"
    and "gen_of rn = gen_of ro + 1"
  obtains rep where "rec_choose p (classify K p va) (classify K p vb) = Inr (ro, rep)" "vb = ro"
      "rep = None \<and> va = ro \<or> rep = Some (slot_a p) \<and> \<not> valid K p va"
  | rep where "rec_choose p (classify K p va) (classify K p vb) = Inr (rn, rep)" "va = rn"
      "rep = None \<and> vb = rn \<or> rep = Some (slot_b p) \<and> (\<not> valid K p vb \<or> vb = ro)"
proof -
  have ne: "gen_of ro \<noteq> gen_of rn" "gen_of ro \<noteq> gen_of rn + 1"
    using assms(4) by (auto simp: add_eq_0_iff)
  have "ro \<noteq> rn" using ne by auto
  have inv: "classify K p v = COPY_EMPTY \<or> classify K p v = COPY_BAD" if "\<not> valid K p v" for v
    using that by (simp add: classify_def)
  from assms(1) consider (o) "vb = ro" "va \<noteq> rn" "torn_of K p ro rn va"
    | (n) "va = rn" "torn_of K p ro rn vb"
    by (auto simp: pending_def torn_of_def)
  then show ?thesis
  proof cases
    case o
    show ?thesis
    proof (cases "valid K p va")
      case True
      then have "va = ro" using o by (simp add: torn_of_def)
      then show ?thesis using o assms(2) that(1) [of None]
        by (simp add: rec_choose_def)
    next
      case False
      then show ?thesis using o assms(2) that(1) [of "Some (slot_a p)"] inv [OF False]
        by (auto simp: rec_choose_def)
    qed
  next
    case n
    show ?thesis
    proof (cases "valid K p vb")
      case True
      then have "vb = ro \<or> vb = rn" using n by (simp add: torn_of_def)
      then show ?thesis
      proof
        assume "vb = rn"
        then show ?thesis using n assms(3) that(2) [of None] by (simp add: rec_choose_def)
      next
        assume "vb = ro"
        then show ?thesis using n assms(2,3,4) ne that(2) [of "Some (slot_b p)"]
          by (auto simp: rec_choose_def)
      qed
    next
      case False
      then show ?thesis using n assms(3) that(2) [of "Some (slot_b p)"] inv [OF False]
        by (auto simp: rec_choose_def)
    qed
  qed
qed

text \<open>
  What the 8-byte checksum is for: a cut write or erase leaves the slot with its old
  content, with the new content, or with something that is not a valid record.
\<close>

locale torn_chip = rmem_chip T inv view
  for T :: "'c tropic" and inv :: "'c \<Rightarrow> bool" and view :: "'c \<Rightarrow> nat \<Rightarrow> bytes" +
  fixes K :: crypto
  assumes erase_torn: "inv c \<Longrightarrow> tropic_rmem_erase T s c = (rc, c') \<Longrightarrow>
      valid K p (view c' s) \<Longrightarrow> view c' s = view c s"
    and write_torn: "inv c \<Longrightarrow> tropic_rmem_write T s d c = (rc, c') \<Longrightarrow>
      valid K p (view c' s) \<Longrightarrow> view c' s = d \<or> view c' s = view c s"
begin

lemma commit_copy_torn:
  assumes "inv c" and "commit_copy T s d c = (ok, c')" and "valid K p (view c' s)"
  shows "view c' s = view c s \<or> view c' s = d"
proof -
  obtain rc1 c1 where 1: "tropic_rmem_erase T s c = (rc1, c1)" by fastforce
  obtain rc2 c2 where 2: "tropic_rmem_write T s d c1 = (rc2, c2)" by fastforce
  obtain r c3 where 3: "tropic_rmem_read T s SLOT_MAX c2 = (r, c3)" by fastforce
  note i1 = erase_inv [OF assms(1) 1] and i2 = write_inv [OF erase_inv [OF assms(1) 1] 2]
  have "c' = c1 \<or> c' = c2 \<or> c' = c3"
    using assms(2) by (auto simp: commit_copy_def 1 2 3 split: if_splits sum.splits)
  then have "view c' = view c1 \<or> view c' = view c2"
    using read_frame [OF i2 3] by auto
  then show ?thesis
    using erase_torn [OF assms(1) 1] write_torn [OF i1 2] assms(3) by metis
qed

lemma commit_both_pending:
  assumes "inv c" and "slot_a p \<noteq> slot_b p" and "crypto_ok K" and "\<not> bad_args pl"
    and "view c (slot_a p) = ro" and "view c (slot_b p) = ro"
    and "commit_both T K g pl p c = (st, p', c')"
  shows "pending K p ro (encode K p g pl) (view c' (slot_a p)) (view c' (slot_b p))"
proof -
  let ?r = "encode K p g pl"
  obtain ok1 c1 where 1: "commit_copy T (slot_a p) ?r c = (ok1, c1)" by fastforce
  obtain ok2 c2 where 2: "commit_copy T (slot_b p) ?r c1 = (ok2, c2)" by fastforce
  note s1 = commit_copy_spec [OF assms(1) 1]
  note s2 = commit_copy_spec [OF s1(1) 2]
  have "torn_of K p ro ?r (view c1 (slot_a p))"
    using commit_copy_torn [OF assms(1) 1] assms(5) by (auto simp: torn_of_def)
  moreover have "torn_of K p ro ?r (view c2 (slot_b p))"
    using commit_copy_torn [OF s1(1) 2] s1(2) assms(2,6) by (auto simp: torn_of_def)
  moreover have "view c2 (slot_a p) = view c1 (slot_a p)" "view c1 (slot_b p) = ro"
    using s1(2) s2(2) assms(2,6) by auto
  moreover have "view c' (slot_b p) = ro \<or> view c' (slot_a p) = ?r"
    using commit_both_spec(6) [OF assms(1-4,7)] assms(6) by auto
  moreover have "c' = c1 \<or> c' = c2"
    using assms(7) by (auto simp: commit_both_def Let_def 1 2 split: if_splits)
  ultimately show ?thesis by (auto simp: pending_def)
qed

text \<open>A read of a pending pair settles it on one of the two records, or leaves it pending.\<close>

lemma read_pending:
  assumes "inv c" and "slot_a p \<noteq> slot_b p"
    and "valid K p ro" and "valid K p rn" and "gen_of rn = gen_of ro + 1"
    and pend: "pending K p ro rn (view c (slot_a p)) (view c (slot_b p))"
    and r: "rec_pair_read T K cap p c = (st, out, p', c')"
  shows "pending K p ro rn (view c' (slot_a p)) (view c' (slot_b p))"
    and "st = REC_OK \<Longrightarrow> \<exists>w \<in> {ro, rn}. out = Some (payload_of w, gen_of w)
           \<and> view c' (slot_a p) = w \<and> view c' (slot_b p) = w"
    and "st \<noteq> REC_OK \<Longrightarrow> st = REC_ERROR \<and> out = None"
proof -
  obtain a c1 where 1: "read_copy T K p (slot_a p) c = (a, c1)" by fastforce
  obtain b c2 where 2: "read_copy T K p (slot_b p) c1 = (b, c2)" by fastforce
  note s1 = read_copy_spec [OF assms(1) 1]
  note s2 = read_copy_spec [OF s1(1) 2]
  have v: "view c1 = view c" "view c2 = view c" using s1(2) s2(2) by simp_all
  obtain w rep where ch: "rec_choose p (classify K p (view c (slot_a p)))
        (classify K p (view c (slot_b p))) = Inr (w, rep)"
    and w: "w = ro \<and> view c (slot_b p) = ro \<and> (rep = None \<or> rep = Some (slot_a p))
      \<or> w = rn \<and> view c (slot_a p) = rn \<and> (rep = None \<or> rep = Some (slot_b p))"
    by (rule pending_choose [OF pend assms(3-5)]) auto
  obtain ok c3 where 3: "(case rep of None \<Rightarrow> (True, c2)
      | Some s \<Rightarrow> commit_copy T s w c2) = (ok, c3)" by fastforce
  have p3: "pending K p ro rn (view c3 (slot_a p)) (view c3 (slot_b p))"
  proof (cases rep)
    case None
    then show ?thesis using 3 v pend by simp
  next
    case (Some s)
    then have cc: "commit_copy T s w c2 = (ok, c3)" using 3 by simp
    have t: "valid K p (view c3 s) \<Longrightarrow> view c3 s = view c s \<or> view c3 s = w"
      using commit_copy_torn [OF s2(1) cc] v by simp
    from w Some consider "w = ro" "s = slot_a p" "view c (slot_b p) = ro"
      | "w = rn" "s = slot_b p" "view c (slot_a p) = rn" by auto
    then show ?thesis
      using t commit_copy_spec(2) [OF s2(1) cc] v pend assms(2)
      by cases (auto simp: pending_def torn_of_def)
  qed
  have ab: "a \<noteq> COPY_ERR \<Longrightarrow> b \<noteq> COPY_ERR \<Longrightarrow> rec_choose p a b = Inr (w, rep)"
    using ch s1(3) s2(3) v by simp
  have c': "(c' = c \<or> c' = c1 \<or> c' = c2) \<and> st = REC_ERROR \<and> out = None
      \<or> c' = c3 \<and> (st = REC_OK \<or> st = REC_ERROR \<and> out = None)"
    using r ab by (auto simp: rec_pair_read_def 1 2 3 split: if_splits option.splits)
  then show "pending K p ro rn (view c' (slot_a p)) (view c' (slot_b p))"
    using p3 v pend by auto
  show "st \<noteq> REC_OK \<Longrightarrow> st = REC_ERROR \<and> out = None" using c' by auto
  assume "st = REC_OK"
  then show "\<exists>w \<in> {ro, rn}. out = Some (payload_of w, gen_of w)
           \<and> view c' (slot_a p) = w \<and> view c' (slot_b p) = w"
    using rec_pair_read_ok [OF assms(1,2)] r ch w by (metis Inr_inject Pair_inject insertCI)
qed

end

context rmem_chip
begin

lemma read_settled:
  assumes "inv c" and "slot_a p \<noteq> slot_b p" and "valid K p r"
    and "view c (slot_a p) = r" and "view c (slot_b p) = r"
    and "rec_pair_read T K cap p c = (st, out, p', c')"
  shows "view c' = view c" and "p' = p"
    and "st = REC_OK \<and> out = Some (payload_of r, gen_of r) \<and> \<not> uncertain p
      \<or> st = REC_ERROR \<and> out = None"
proof -
  obtain a c1 where 1: "read_copy T K p (slot_a p) c = (a, c1)" by fastforce
  obtain b c2 where 2: "read_copy T K p (slot_b p) c1 = (b, c2)" by fastforce
  note s1 = read_copy_spec [OF assms(1) 1]
  note s2 = read_copy_spec [OF s1(1) 2]
  have "a \<noteq> COPY_ERR \<Longrightarrow> b \<noteq> COPY_ERR \<Longrightarrow> rec_choose p a b = Inr (r, None)"
    using s1 s2 assms(3-5) by (simp add: rec_choose_def)
  then show "view c' = view c" and "p' = p"
    and "st = REC_OK \<and> out = Some (payload_of r, gen_of r) \<and> \<not> uncertain p
      \<or> st = REC_ERROR \<and> out = None"
    using assms(6) s1(2) s2(2)
    by (auto simp: rec_pair_read_def 1 2 split: if_splits option.splits)
qed

lemma boots_settled:
  assumes "inv c" and "slot_a p \<noteq> slot_b p" and "valid K p r"
    and "view c (slot_a p) = r" and "view c (slot_b p) = r"
    and "\<forall>f \<in> set fs. power_cycle inv view f"
  shows "\<forall>x \<in> set (boots T K cap p fs c). reports r x"
  using assms
proof (induction fs arbitrary: c)
  case Nil
  then show ?case by simp
next
  case (Cons f fs)
  let ?p = "p\<lparr>uncertain := False\<rparr>"
  obtain st out p' c' where r: "rec_pair_read T K cap ?p (f c) = (st, out, p', c')"
    by (metis prod_cases4)
  have f: "inv (f c)" "view (f c) = view c" using Cons.prems(1,6) by (auto simp: power_cycle_def)
  note rd = read_settled [OF f(1) _ _ _ _ r] and fr = rec_pair_read_frame(1) [OF f(1) r]
  have "reports r (st, out)" and v: "view c' = view c"
    using rd Cons.prems f by (auto simp: reports_def)
  moreover have "\<forall>x \<in> set (boots T K cap p fs c'). reports r x"
    by (rule Cons.IH) (use fr v Cons.prems in auto)
  ultimately show ?case by (simp add: r)
qed

end

context torn_chip
begin

lemma boots_pending:
  assumes "inv c" and "slot_a p \<noteq> slot_b p"
    and "valid K p ro" and "valid K p rn" and "gen_of rn = gen_of ro + 1"
    and "pending K p ro rn (view c (slot_a p)) (view c (slot_b p))"
    and "\<forall>f \<in> set fs. power_cycle inv view f"
  shows "\<exists>w \<in> {ro, rn}. \<forall>x \<in> set (boots T K cap p fs c). reports w x"
  using assms
proof (induction fs arbitrary: c)
  case Nil
  show ?case by auto
next
  case (Cons f fs)
  let ?p = "p\<lparr>uncertain := False\<rparr>"
  obtain st out p' c' where r: "rec_pair_read T K cap ?p (f c) = (st, out, p', c')"
    by (metis prod_cases4)
  have f: "inv (f c)" "view (f c) = view c" using Cons.prems(1,7) by (auto simp: power_cycle_def)
  have q: "slot_a ?p \<noteq> slot_b ?p" "valid K ?p ro" "valid K ?p rn"
    "pending K ?p ro rn (view (f c) (slot_a ?p)) (view (f c) (slot_b ?p))"
    using Cons.prems(2-4,6) f(2) by simp_all
  note rd = read_pending [OF f(1) q(1-3) Cons.prems(5) q(4) r, simplified]
  have i: "inv c'" by (rule rec_pair_read_frame(1) [OF f(1) r])
  show ?case
  proof (cases "st = REC_OK")
    case True
    then obtain w where w: "w \<in> {ro, rn}" "out = Some (payload_of w, gen_of w)"
      "view c' (slot_a p) = w" "view c' (slot_b p) = w" using rd(2) by blast
    have "valid K p w" and "\<forall>f \<in> set fs. power_cycle inv view f"
      using w(1) Cons.prems(3,4,7) by auto
    then have "\<forall>x \<in> set (boots T K cap p fs c'). reports w x"
      using boots_settled [OF i Cons.prems(2) _ w(3,4)] by blast
    then show ?thesis using w True by (auto simp: r reports_def)
  next
    case False
    have "\<exists>w \<in> {ro, rn}. \<forall>x \<in> set (boots T K cap p fs c'). reports w x"
      using Cons.IH [OF i Cons.prems(2-5) rd(1)] Cons.prems(7) by simp
    then show ?thesis using rd(3) [OF False] by (auto simp: r reports_def)
  qed
qed

text \<open>One write, however it ends, followed by any number of boots.\<close>

lemma write_then_boots:
  assumes "inv c" and "slot_a p \<noteq> slot_b p" and "crypto_ok K"
    and "g \<noteq> 0" and "length old \<le> REC_PAYLOAD_MAX"
    and "view c (slot_a p) = encode K p g old" and "view c (slot_b p) = encode K p g old"
    and wr: "rec_pair_write T K new p c = (st, p', c')"
    and "\<forall>f \<in> set fs. power_cycle inv view f"
  shows "\<exists>w \<in> {encode K p g old, encode K p (g + 1) new}.
      (st = REC_OK \<longrightarrow> w = encode K p (g + 1) new) \<and>
      (\<forall>x \<in> set (boots T K cap p fs c'). reports w x)"
proof -
  let ?ro = "encode K p g old" and ?rn = "encode K p (g + 1) new"
  have vo: "valid K p ?ro" using assms(3-5) by (rule valid_encode)
  have go: "gen_of ?ro = g" by (rule encode_fields(4))
  note settled = boots_settled [OF _ assms(2) vo _ _ assms(9)]
  show ?thesis
  proof (cases "bad_args new")
    case True
    then show ?thesis using wr settled [OF assms(1,6,7)] by (auto simp: rec_pair_write_def)
  next
    case False
    obtain s1 o1 p1 c1 where r: "rec_pair_read T K None p c = (s1, o1, p1, c1)"
      by (metis prod_cases4)
    note rd = read_settled [OF assms(1,2) vo assms(6,7) r]
    have i1: "inv c1" by (rule rec_pair_read_frame(1) [OF assms(1) r])
    have b1: "\<forall>x \<in> set (boots T K cap p fs c1). reports ?ro x"
      by (rule settled [OF i1]) (use rd(1) assms(6,7) in auto)
    show ?thesis
    proof (cases "s1 = REC_OK \<and> g \<noteq> - 1")
      case True
      then have cb: "commit_both T K (g + 1) new p c1 = (st, p', c')"
        using wr False rd go by (auto simp: rec_pair_write_def r)
      have gn: "g + 1 \<noteq> 0" using True by (metis add.right_cancel left_minus add_0)
      have vn: "valid K p ?rn"
        using assms(3) gn False by (intro valid_encode) (simp_all add: bad_args_def)
      note cs = commit_both_spec [OF i1 assms(2,3) False cb]
      show ?thesis
      proof (cases "st = REC_OK")
        case True
        then have "\<forall>x \<in> set (boots T K cap p fs c'). reports ?rn x"
          using cs(4) by (intro boots_settled [OF cs(1) assms(2) vn _ _ assms(9)]) auto
        then show ?thesis by blast
      next
        case st: False
        have "pending K p ?ro ?rn (view c' (slot_a p)) (view c' (slot_b p))"
          by (rule commit_both_pending [OF i1 assms(2,3) False _ _ cb]) (use rd(1) assms(6,7) in auto)
        then have "\<exists>w \<in> {?ro, ?rn}. \<forall>x \<in> set (boots T K cap p fs c'). reports w x"
          using vo vn assms(2,9) cs(1) by (intro boots_pending) (auto simp: encode_fields)
        then show ?thesis using st by blast
      qed
    next
      case False
      then have "c' = c1" "st \<noteq> REC_OK"
        using wr \<open>\<not> bad_args new\<close> rd go
        by (auto simp: rec_pair_write_def r split: rec_status.splits)
      then show ?thesis using b1 by blast
    qed
  qed
qed

end

section \<open>What an acknowledged operation establishes\<close>

context rmem_chip
begin

lemma clear_spec:
  assumes "inv c" and "slot_a p \<noteq> slot_b p" and "rec_pair_clear T p c = (st, p', c')"
  shows "inv c'" and "t \<noteq> slot_a p \<Longrightarrow> t \<noteq> slot_b p \<Longrightarrow> view c' t = view c t"
    and "p' = p \<or> p' = mark_uncertain p"
    and "st = REC_OK \<Longrightarrow> p' = p \<and> view c' (slot_a p) = [] \<and> view c' (slot_b p) = []"
    and "st \<noteq> REC_OK \<Longrightarrow> st = REC_ERROR \<and> uncertain p'"
proof -
  obtain ok1 c1 where 1: "erase_checked T (slot_b p) c = (ok1, c1)" by fastforce
  obtain ok2 c2 where 2: "erase_checked T (slot_a p) c1 = (ok2, c2)" by fastforce
  note s1 = erase_checked_spec [OF assms(1) 1]
  note s2 = erase_checked_spec [OF s1(1) 2]
  show "inv c'" and "t \<noteq> slot_a p \<Longrightarrow> t \<noteq> slot_b p \<Longrightarrow> view c' t = view c t"
    and "p' = p \<or> p' = mark_uncertain p"
    and "st = REC_OK \<Longrightarrow> p' = p \<and> view c' (slot_a p) = [] \<and> view c' (slot_b p) = []"
    and "st \<noteq> REC_OK \<Longrightarrow> st = REC_ERROR \<and> uncertain p'"
    using assms s1 s2 by (auto simp: rec_pair_clear_def 1 2 split: if_splits)
qed

lemma init_spec:
  assumes "inv c" and "slot_a p \<noteq> slot_b p" and "crypto_ok K"
    and "rec_pair_init T K pl p c = (st, p', c')"
  shows "inv c'" and "t \<noteq> slot_a p \<Longrightarrow> t \<noteq> slot_b p \<Longrightarrow> view c' t = view c t"
    and "p' = p \<or> p' = mark_uncertain p"
    and "st = REC_OK \<Longrightarrow> p' = p \<and> \<not> bad_args pl \<and> view c' (slot_a p) = encode K p 1 pl
           \<and> view c' (slot_b p) = encode K p 1 pl"
    and "st \<noteq> REC_OK \<Longrightarrow> st = REC_ERROR"
proof -
  obtain s1 p1 c1 where 1: "rec_pair_clear T p c = (s1, p1, c1)" by (metis prod_cases3)
  note c1 = clear_spec [OF assms(1,2) 1]
  have *: "inv c' \<and> (t \<noteq> slot_a p \<longrightarrow> t \<noteq> slot_b p \<longrightarrow> view c' t = view c t)
      \<and> (p' = p \<or> p' = mark_uncertain p)
      \<and> (st = REC_OK \<longrightarrow> p' = p \<and> \<not> bad_args pl \<and> view c' (slot_a p) = encode K p 1 pl
           \<and> view c' (slot_b p) = encode K p 1 pl)
      \<and> (st \<noteq> REC_OK \<longrightarrow> st = REC_ERROR)"
  proof (cases "bad_args pl \<or> s1 \<noteq> REC_OK")
    case True
    then show ?thesis using assms(1,4) c1
      by (auto simp: rec_pair_init_def 1 split: if_splits rec_status.splits)
  next
    case False
    then have cb: "commit_both T K 1 pl p c1 = (st, p', c')"
      using assms(4) c1(4) by (simp add: rec_pair_init_def 1)
    show ?thesis
      using commit_both_spec [OF c1(1) assms(2,3) _ cb] c1(2) False by auto
  qed
  then show "inv c'" and "t \<noteq> slot_a p \<Longrightarrow> t \<noteq> slot_b p \<Longrightarrow> view c' t = view c t"
    and "p' = p \<or> p' = mark_uncertain p"
    and "st = REC_OK \<Longrightarrow> p' = p \<and> \<not> bad_args pl \<and> view c' (slot_a p) = encode K p 1 pl
           \<and> view c' (slot_b p) = encode K p 1 pl"
    and "st \<noteq> REC_OK \<Longrightarrow> st = REC_ERROR"
    by blast+
qed

lemma write_spec:
  assumes "inv c" and "slot_a p \<noteq> slot_b p" and "crypto_ok K"
    and "rec_pair_write T K pl p c = (st, p', c')"
  shows "inv c'" and "t \<noteq> slot_a p \<Longrightarrow> t \<noteq> slot_b p \<Longrightarrow> view c' t = view c t"
    and "p' = p \<or> p' = mark_uncertain p"
    and "st = REC_OK \<Longrightarrow> \<exists>g. g \<noteq> 0 \<and> \<not> bad_args pl \<and> p' = p
           \<and> view c' (slot_a p) = encode K p g pl \<and> view c' (slot_b p) = encode K p g pl"
proof -
  obtain s1 o1 p1 c1 where r: "rec_pair_read T K None p c = (s1, o1, p1, c1)"
    by (metis prod_cases4)
  note f = rec_pair_read_frame [OF assms(1) r]
  have *: "inv c' \<and> (t \<noteq> slot_a p \<longrightarrow> t \<noteq> slot_b p \<longrightarrow> view c' t = view c t)
      \<and> (p' = p \<or> p' = mark_uncertain p)
      \<and> (st = REC_OK \<longrightarrow> (\<exists>g. g \<noteq> 0 \<and> \<not> bad_args pl \<and> p' = p
           \<and> view c' (slot_a p) = encode K p g pl \<and> view c' (slot_b p) = encode K p g pl))"
  proof (cases "bad_args pl \<or> s1 \<noteq> REC_OK")
    case True
    then show ?thesis using assms(1,4) f
      by (auto simp: rec_pair_write_def r split: if_splits rec_status.splits)
  next
    case False
    then have "s1 = REC_OK" by simp
    then obtain win where win: "o1 = Some (payload_of win, gen_of win)" "p1 = p"
      using r rec_pair_read_ok [OF assms(1,2)] by metis
    show ?thesis
    proof (cases "gen_of win = - 1")
      case True
      then show ?thesis using assms(4) f False win
        by (auto simp: rec_pair_write_def r)
    next
      case nz: False
      then have cb: "commit_both T K (gen_of win + 1) pl p c1 = (st, p', c')"
        using assms(4) False win by (auto simp: rec_pair_write_def r)
      have "gen_of win + 1 \<noteq> 0" using nz by (metis add.right_cancel left_minus add_0)
      then show ?thesis
        using commit_both_spec [OF f(1) assms(2,3) _ cb] f False win by auto
    qed
  qed
  then show "inv c'" and "t \<noteq> slot_a p \<Longrightarrow> t \<noteq> slot_b p \<Longrightarrow> view c' t = view c t"
    and "p' = p \<or> p' = mark_uncertain p"
    and "st = REC_OK \<Longrightarrow> \<exists>g. g \<noteq> 0 \<and> \<not> bad_args pl \<and> p' = p
           \<and> view c' (slot_a p) = encode K p g pl \<and> view c' (slot_b p) = encode K p g pl"
    by blast+
qed

end

section \<open>The contract the rest of the firmware uses\<close>

text \<open>
  What a client of a record pair relies on: \<open>content s = Some pl\<close> says the object is
  at rest with payload \<open>pl\<close> in both copies.  An acknowledged operation leaves the object
  at rest with what it read or wrote; a failed read of an object at rest leaves it so.
\<close>

locale rec_store =
  fixes ok :: "'s \<Rightarrow> bool" and content :: "'s \<Rightarrow> bytes option"
    and rd :: "nat option \<Rightarrow> 's \<Rightarrow> rec_status \<times> (bytes \<times> u32) option \<times> 's"
    and wr :: "bytes \<Rightarrow> 's \<Rightarrow> rec_status \<times> 's"
    and ini :: "bytes \<Rightarrow> 's \<Rightarrow> rec_status \<times> 's"
    and clr :: "'s \<Rightarrow> rec_status \<times> 's"
  assumes rd_inv: "ok s \<Longrightarrow> rd n s = (st, res, s') \<Longrightarrow> ok s'"
    and rd_content: "ok s \<Longrightarrow> rd n s = (REC_OK, res, s') \<Longrightarrow>
      \<exists>pl g. res = Some (pl, g) \<and> content s' = Some pl"
    and rd_keep: "ok s \<Longrightarrow> content s = Some pl \<Longrightarrow> rd n s = (st, res, s') \<Longrightarrow>
      content s' = Some pl"
    and wr_inv: "ok s \<Longrightarrow> wr pl s = (st, s') \<Longrightarrow> ok s'"
    and wr_content: "ok s \<Longrightarrow> wr pl s = (REC_OK, s') \<Longrightarrow> content s' = Some pl"
    and ini_inv: "ok s \<Longrightarrow> ini pl s = (st, s') \<Longrightarrow> ok s'"
    and ini_content: "ok s \<Longrightarrow> ini pl s = (REC_OK, s') \<Longrightarrow> content s' = Some pl"
    and clr_inv: "ok s \<Longrightarrow> clr s = (st, s') \<Longrightarrow> ok s'"
    and clr_content: "ok s \<Longrightarrow> clr s = (REC_OK, s') \<Longrightarrow> content s' = None"
begin

text \<open>The reads a client does one after the other, each allowed to fail.\<close>

fun reads :: "nat option list \<Rightarrow> 's \<Rightarrow> (rec_status \<times> (bytes \<times> u32) option) list \<times> 's" where
  "reads [] s = ([], s)"
| "reads (n # ns) s =
     (case rd n s of (st, res, s1) \<Rightarrow> (case reads ns s1 of (rs, s2) \<Rightarrow> ((st, res) # rs, s2)))"

lemma reads_at_rest:
  "ok s \<Longrightarrow> content s = Some pl \<Longrightarrow> reads ns s = (rs, s') \<Longrightarrow>
     content s' = Some pl \<and> (\<forall>(st, res) \<in> set rs. st = REC_OK \<longrightarrow> (\<exists>g. res = Some (pl, g)))"
proof (induction ns arbitrary: s rs s')
  case Nil
  then show ?case by auto
next
  case (Cons n ns)
  obtain st res s1 where r: "rd n s = (st, res, s1)" by (metis prod_cases3)
  obtain rs1 s2 where rr: "reads ns s1 = (rs1, s2)" by fastforce
  have k: "content s1 = Some pl" by (rule rd_keep [OF Cons.prems(1,2) r])
  have "content s2 = Some pl \<and>
      (\<forall>(st, res) \<in> set rs1. st = REC_OK \<longrightarrow> (\<exists>g. res = Some (pl, g)))"
    by (rule Cons.IH [OF rd_inv [OF Cons.prems(1) r] k rr])
  moreover have "st = REC_OK \<Longrightarrow> \<exists>g. res = Some (pl, g)"
    using rd_content [OF Cons.prems(1)] r k by fastforce
  ultimately show ?case using Cons.prems(3) by (auto simp: r rr)
qed

lemma read_after_write:
  "ok s \<Longrightarrow> wr pl s = (REC_OK, s1) \<Longrightarrow> reads ns s1 = (rs, s') \<Longrightarrow> (st, res) \<in> set rs \<Longrightarrow>
     st = REC_OK \<Longrightarrow> \<exists>g. res = Some (pl, g)"
  using reads_at_rest [OF wr_inv wr_content] by fastforce

end

definition pair_content :: "crypto \<Rightarrow> ('c \<Rightarrow> nat \<Rightarrow> bytes) \<Rightarrow> rec_pair \<times> 'c \<Rightarrow> bytes option" where
  "pair_content K view s = (case s of (p, c) \<Rightarrow>
     (let v = view c (slot_a p) in
      if v = view c (slot_b p) \<and> valid K p v then Some (payload_of v) else None))"

definition pair_ok ::
  "'c tropic \<Rightarrow> crypto \<Rightarrow> ('c \<Rightarrow> bool) \<Rightarrow> ('c \<Rightarrow> nat \<Rightarrow> bytes) \<Rightarrow> rec_pair \<times> 'c \<Rightarrow> bool" where
  "pair_ok T K I view s = (case s of (p, c) \<Rightarrow>
     rmem_chip T I view \<and> crypto_ok K \<and> I c \<and> slot_a p \<noteq> slot_b p)"

lemma pair_content_encode:
  assumes "crypto_ok K" and "g \<noteq> 0" and "\<not> bad_args pl"
    and "view c (slot_a p) = encode K p g pl" and "view c (slot_b p) = encode K p g pl"
  shows "pair_content K view (p, c) = Some pl"
  using assms valid_encode [of K g pl p]
  by (simp add: pair_content_def Let_def bad_args_def payload_of_encode rec_consts)

lemma pair_contentE:
  assumes "pair_content K view (p, c) = Some pl"
  obtains "valid K p (view c (slot_a p))" and "view c (slot_b p) = view c (slot_a p)"
    and "pl = payload_of (view c (slot_a p))"
proof -
  have "view c (slot_a p) = view c (slot_b p) \<and> valid K p (view c (slot_a p))
      \<and> pl = payload_of (view c (slot_a p))"
    using assms unfolding pair_content_def Let_def prod.case by (metis option.distinct(1) option.inject)
  then show thesis using that by metis
qed

interpretation pair: rec_store "pair_ok T K I view" "pair_content K view"
  "\<lambda>n (p, c). rec_pair_read T K n p c" "\<lambda>pl (p, c). rec_pair_write T K pl p c"
  "\<lambda>pl (p, c). rec_pair_init T K pl p c" "\<lambda>(p, c). rec_pair_clear T p c"
  for T K I view
proof (unfold_locales, goal_cases)
  case (1 s n st res s')
  obtain p c p' c' where s: "s = (p, c)" "s' = (p', c')" by fastforce
  then show ?case
    using 1 rmem_chip.rec_pair_read_frame(1,3) [of T I view c K n p st res p' c']
    by (auto simp: pair_ok_def)
next
  case (2 s n res s')
  obtain p c p' c' where s: "s = (p, c)" "s' = (p', c')" by fastforce
  from 2 s have *: "rmem_chip T I view" "I c" "slot_a p \<noteq> slot_b p"
    and r: "rec_pair_read T K n p c = (REC_OK, res, p', c')" by (auto simp: pair_ok_def)
  obtain win where "res = Some (payload_of win, gen_of win)" "valid K p win"
    "view c' (slot_a p) = win" "view c' (slot_b p) = win" "p' = p"
    by (rule rmem_chip.rec_pair_read_ok [OF * r])
  then show ?case by (auto simp: s pair_content_def)
next
  case (3 s pl n st res s')
  obtain p c p' c' where s: "s = (p, c)" "s' = (p', c')" by fastforce
  from 3 s have *: "rmem_chip T I view" "I c" "slot_a p \<noteq> slot_b p"
    and r: "rec_pair_read T K n p c = (st, res, p', c')" by (auto simp: pair_ok_def)
  from 3(2) s obtain v: "valid K p (view c (slot_a p))" "view c (slot_b p) = view c (slot_a p)"
    by (auto elim: pair_contentE)
  show ?case
    using rmem_chip.read_settled(1,2) [OF * v(1) refl v(2) r] 3(2) s
    by (simp add: pair_content_def)
next
  case (4 s pl st s')
  obtain p c p' c' where s: "s = (p, c)" "s' = (p', c')" by fastforce
  then show ?case
    using 4 rmem_chip.write_spec(1,3) [of T I view c p K pl st p' c']
    by (auto simp: pair_ok_def)
next
  case (5 s pl s')
  obtain p c p' c' where s: "s = (p, c)" "s' = (p', c')" by fastforce
  then show ?case
    using 5 rmem_chip.write_spec(4) [of T I view c p K pl REC_OK p' c']
    by (auto simp: pair_ok_def intro: pair_content_encode)
next
  case (6 s pl st s')
  obtain p c p' c' where s: "s = (p, c)" "s' = (p', c')" by fastforce
  then show ?case
    using 6 rmem_chip.init_spec(1,3) [of T I view c p K pl st p' c']
    by (auto simp: pair_ok_def)
next
  case (7 s pl s')
  obtain p c p' c' where s: "s = (p, c)" "s' = (p', c')" by fastforce
  then show ?case
    using 7 rmem_chip.init_spec(4) [of T I view c p K pl REC_OK p' c']
    by (auto simp: pair_ok_def intro: pair_content_encode [of K 1])
next
  case (8 s st s')
  obtain p c p' c' where s: "s = (p, c)" "s' = (p', c')" by fastforce
  then show ?case
    using 8 rmem_chip.clear_spec(1,3) [of T I view c p st p' c']
    by (auto simp: pair_ok_def)
next
  case (9 s s')
  obtain p c p' c' where s: "s = (p, c)" "s' = (p', c')" by fastforce
  then show ?case
    using 9 rmem_chip.clear_spec(4) [of T I view c p REC_OK p' c'] valid_length(5) [of K p "[]"]
    by (auto simp: pair_ok_def pair_content_def)
qed

section \<open>A contract that survives failures\<close>

text \<open>
  \<open>may P s\<close> says that whichever record a later read of the object reports, its payload
  satisfies \<open>P\<close>, and that it reports none but those: the object is at rest, or a cut has
  left it between two records, and both satisfy \<open>P\<close>.  No operation breaks this,
  however it ends, if it writes a payload that satisfies \<open>P\<close>.
\<close>

definition may_hold :: "crypto \<Rightarrow> (bytes \<Rightarrow> bool) \<Rightarrow> rec_pair \<Rightarrow> bytes \<Rightarrow> bytes \<Rightarrow> bool" where
  "may_hold K P p va vb \<longleftrightarrow>
     va = vb \<and> valid K p va \<and> P (payload_of va) \<or>
     (\<exists>ro rn. valid K p ro \<and> valid K p rn \<and> gen_of rn = gen_of ro + 1 \<and>
        pending K p ro rn va vb \<and> P (payload_of ro) \<and> P (payload_of rn))"

locale crash_store = rec_store ok content rd wr ini clr
  for ok :: "'s \<Rightarrow> bool" and content :: "'s \<Rightarrow> bytes option"
    and rd :: "nat option \<Rightarrow> 's \<Rightarrow> rec_status \<times> (bytes \<times> u32) option \<times> 's"
    and wr :: "bytes \<Rightarrow> 's \<Rightarrow> rec_status \<times> 's"
    and ini :: "bytes \<Rightarrow> 's \<Rightarrow> rec_status \<times> 's"
    and clr :: "'s \<Rightarrow> rec_status \<times> 's" +
  fixes may :: "(bytes \<Rightarrow> bool) \<Rightarrow> 's \<Rightarrow> bool"
  assumes may_rd: "ok s \<Longrightarrow> may P s \<Longrightarrow> rd n s = (st, res, s') \<Longrightarrow> may P s'"
    and may_rd_ok: "ok s \<Longrightarrow> may P s \<Longrightarrow> rd n s = (REC_OK, Some (pl, g), s') \<Longrightarrow> P pl"
    and may_rd_st: "ok s \<Longrightarrow> may P s \<Longrightarrow> rd n s = (st, res, s') \<Longrightarrow>
      st = REC_OK \<or> st = REC_ERROR"
    and may_wr: "ok s \<Longrightarrow> may P s \<Longrightarrow> P pl \<Longrightarrow> wr pl s = (st, s') \<Longrightarrow> may P s'"
    and may_rest: "ok s \<Longrightarrow> content s = Some pl \<Longrightarrow> may P s \<longleftrightarrow> P pl"
begin

text \<open>An acknowledged write replaces whatever was possible before.\<close>

lemma may_wr_ok: "ok s \<Longrightarrow> wr pl s = (REC_OK, s') \<Longrightarrow> P pl \<Longrightarrow> may P s'"
  using may_rest [OF wr_inv wr_content] by blast

lemma may_ini_ok: "ok s \<Longrightarrow> ini pl s = (REC_OK, s') \<Longrightarrow> P pl \<Longrightarrow> may P s'"
  using may_rest [OF ini_inv ini_content] by blast

end

context torn_chip
begin

lemma may_read:
  assumes "inv c" and "slot_a p \<noteq> slot_b p"
    and "may_hold K P p (view c (slot_a p)) (view c (slot_b p))"
    and "rec_pair_read T K n p c = (st, out, p', c')"
  shows "may_hold K P p (view c' (slot_a p)) (view c' (slot_b p))"
    and "st = REC_OK \<and> (\<exists>r. valid K p r \<and> P (payload_of r) \<and> out = Some (payload_of r, gen_of r)
           \<and> view c' (slot_a p) = r \<and> view c' (slot_b p) = r)
      \<or> st = REC_ERROR \<and> out = None"
proof -
  have "may_hold K P p (view c' (slot_a p)) (view c' (slot_b p)) \<and>
    (st = REC_OK \<and> (\<exists>r. valid K p r \<and> P (payload_of r) \<and> out = Some (payload_of r, gen_of r)
           \<and> view c' (slot_a p) = r \<and> view c' (slot_b p) = r)
      \<or> st = REC_ERROR \<and> out = None)"
    using assms(3)
    unfolding may_hold_def [of _ _ _ "view c (slot_a p)"]
  proof (elim disjE exE conjE)
    assume s: "view c (slot_a p) = view c (slot_b p)" "valid K p (view c (slot_a p))"
      "P (payload_of (view c (slot_a p)))"
    show ?thesis
      using read_settled [OF assms(1,2) s(2) refl s(1) [symmetric] assms(4)] s
      by (auto simp: may_hold_def)
  next
    fix ro rn
    assume v: "valid K p ro" "valid K p rn" "gen_of rn = gen_of ro + 1"
      and pd: "pending K p ro rn (view c (slot_a p)) (view c (slot_b p))"
      and P: "P (payload_of ro)" "P (payload_of rn)"
    note rd = read_pending [OF assms(1,2) v pd assms(4)]
    show ?thesis
    proof (cases "st = REC_OK")
      case True
      then obtain w where "w \<in> {ro, rn}" "out = Some (payload_of w, gen_of w)"
        "view c' (slot_a p) = w" "view c' (slot_b p) = w" using rd(2) by blast
      then show ?thesis using True v P by (auto simp: may_hold_def)
    next
      case False
      then show ?thesis using rd(1,3) v P by (auto simp: may_hold_def)
    qed
  qed
  then show "may_hold K P p (view c' (slot_a p)) (view c' (slot_b p))"
    and "st = REC_OK \<and> (\<exists>r. valid K p r \<and> P (payload_of r) \<and> out = Some (payload_of r, gen_of r)
           \<and> view c' (slot_a p) = r \<and> view c' (slot_b p) = r)
      \<or> st = REC_ERROR \<and> out = None"
    by blast+
qed

lemma may_write:
  assumes "inv c" and "slot_a p \<noteq> slot_b p" and "crypto_ok K"
    and "may_hold K P p (view c (slot_a p)) (view c (slot_b p))" and "P pl"
    and "rec_pair_write T K pl p c = (st, p', c')"
  shows "may_hold K P p (view c' (slot_a p)) (view c' (slot_b p))"
proof -
  obtain s1 o1 p1 c1 where r: "rec_pair_read T K None p c = (s1, o1, p1, c1)"
    by (metis prod_cases4)
  note m1 = may_read [OF assms(1,2,4) r]
  have i1: "inv c1" by (rule rec_pair_read_frame(1) [OF assms(1) r])
  show ?thesis
  proof (cases "bad_args pl \<or> s1 \<noteq> REC_OK \<or> snd (the o1) = - 1")
    case True
    then have "c' = c \<or> c' = c1"
      using assms(6) m1(2)
      by (auto simp: rec_pair_write_def r split: if_splits rec_status.splits option.splits)
    then show ?thesis using m1(1) assms(4) by auto
  next
    case False
    then obtain w where w: "valid K p w" "P (payload_of w)" "o1 = Some (payload_of w, gen_of w)"
      "view c1 (slot_a p) = w" "view c1 (slot_b p) = w" and s1: "s1 = REC_OK" using m1(2) by auto
    have "p1 = p" using rec_pair_read_ok [OF assms(1,2)] r s1 by metis
    then have cb: "commit_both T K (gen_of w + 1) pl p c1 = (st, p', c')"
      using assms(6) False w s1 by (auto simp: rec_pair_write_def r)
    have "gen_of w + 1 \<noteq> 0" using False w(3) by (metis add.right_cancel left_minus add_0 option.sel snd_conv)
    then have "valid K p (encode K p (gen_of w + 1) pl)"
      using valid_encode [OF assms(3)] False by (simp add: bad_args_def)
    moreover have "pending K p w (encode K p (gen_of w + 1) pl) (view c' (slot_a p)) (view c' (slot_b p))"
      by (rule commit_both_pending [OF i1 assms(2,3) _ w(4,5) cb]) (use False in simp)
    moreover have "payload_of (encode K p (gen_of w + 1) pl) = pl"
      using False by (simp add: payload_of_encode bad_args_def rec_consts)
    ultimately show ?thesis
      using w(1,2) assms(5) encode_fields(4) unfolding may_hold_def by metis
  qed
qed

end

definition pair_safe ::
  "'c tropic \<Rightarrow> crypto \<Rightarrow> ('c \<Rightarrow> bool) \<Rightarrow> ('c \<Rightarrow> nat \<Rightarrow> bytes) \<Rightarrow> rec_pair \<times> 'c \<Rightarrow> bool" where
  "pair_safe T K I view s \<longleftrightarrow> torn_chip T I view K \<and> pair_ok T K I view s"

definition pair_may ::
  "crypto \<Rightarrow> ('c \<Rightarrow> nat \<Rightarrow> bytes) \<Rightarrow> (bytes \<Rightarrow> bool) \<Rightarrow> rec_pair \<times> 'c \<Rightarrow> bool" where
  "pair_may K view P s =
     (case s of (p, c) \<Rightarrow> may_hold K P p (view c (slot_a p)) (view c (slot_b p)))"

lemma may_hold_mark [simp]: "may_hold K P (mark_uncertain p) = may_hold K P p"
  by (simp add: may_hold_def fun_eq_iff mark_uncertain_def)

lemma may_hold_settled:
  assumes "valid K p r"
  shows "may_hold K P p r r \<longleftrightarrow> P (payload_of r)"
  using assms by (auto simp: may_hold_def pending_def torn_of_def)

interpretation pair_crash: crash_store "pair_safe T K I view" "pair_content K view"
  "\<lambda>n (p, c). rec_pair_read T K n p c" "\<lambda>pl (p, c). rec_pair_write T K pl p c"
  "\<lambda>pl (p, c). rec_pair_init T K pl p c" "\<lambda>(p, c). rec_pair_clear T p c" "pair_may K view"
  for T K I view
proof (unfold_locales, goal_cases)
  case (1 s n st res s')
  then show ?case using pair.rd_inv [of T K I view s n st res s'] by (simp add: pair_safe_def)
next
  case (2 s n res s')
  then show ?case using pair.rd_content [of T K I view s n res s'] by (simp add: pair_safe_def)
next
  case (3 s pl n st res s')
  then show ?case using pair.rd_keep [of T K I view s pl n st res s'] by (simp add: pair_safe_def)
next
  case (4 s pl st s')
  then show ?case using pair.wr_inv [of T K I view s pl st s'] by (simp add: pair_safe_def)
next
  case (5 s pl s')
  then show ?case using pair.wr_content [of T K I view s pl s'] by (simp add: pair_safe_def)
next
  case (6 s pl st s')
  then show ?case using pair.ini_inv [of T K I view s pl st s'] by (simp add: pair_safe_def)
next
  case (7 s pl s')
  then show ?case using pair.ini_content [of T K I view s pl s'] by (simp add: pair_safe_def)
next
  case (8 s st s')
  then show ?case using pair.clr_inv [of T K I view s st s'] by (simp add: pair_safe_def)
next
  case (9 s s')
  then show ?case using pair.clr_content [of T K I view s s'] by (simp add: pair_safe_def)
next
  case (10 s P n st res s')
  obtain p c p' c' where s: "s = (p, c)" "s' = (p', c')" by fastforce
  then have "p' = p \<or> p' = mark_uncertain p"
    using 10 rmem_chip.rec_pair_read_frame(3) [of T I view c K n p st res p' c']
    by (simp add: pair_safe_def pair_ok_def)
  then show ?case
    using 10 s torn_chip.may_read(1) [of T I view K c p P n st res p' c']
    by (auto simp: pair_safe_def pair_ok_def pair_may_def)
next
  case (11 s P n pl g s')
  obtain p c p' c' where s: "s = (p, c)" "s' = (p', c')" by fastforce
  then show ?case
    using 11 torn_chip.may_read(2) [of T I view K c p P n REC_OK "Some (pl, g)" p' c']
    by (auto simp: pair_safe_def pair_ok_def pair_may_def)
next
  case (12 s P n st res s')
  obtain p c p' c' where s: "s = (p, c)" "s' = (p', c')" by fastforce
  then show ?case
    using 12 torn_chip.may_read(2) [of T I view K c p P n st res p' c']
    by (auto simp: pair_safe_def pair_ok_def pair_may_def)
next
  case (13 s P pl st s')
  obtain p c p' c' where s: "s = (p, c)" "s' = (p', c')" by fastforce
  then have "p' = p \<or> p' = mark_uncertain p"
    using 13 rmem_chip.write_spec(3) [of T I view c p K pl st p' c']
    by (simp add: pair_safe_def pair_ok_def)
  then show ?case
    using 13 s torn_chip.may_write [of T I view K c p P pl st p' c']
    by (auto simp: pair_safe_def pair_ok_def pair_may_def)
next
  case (14 s pl P)
  obtain p c where s: "s = (p, c)" by fastforce
  with 14 show ?case
    by (auto simp: pair_may_def may_hold_settled elim!: pair_contentE)
qed

section \<open>Operations on a working chip\<close>

context live_rmem
begin

lemma read_copy_live:
  assumes "good c" and "s < 512"
  obtains c' where "read_copy T K p s c = (classify K p (view c s), c')" and "good c'"
proof (cases "view c s = []")
  case True
  then obtain c' where "tropic_rmem_read T s SLOT_MAX c = (Inl TROPIC_ERR_RMEM_SLOT_EMPTY, c')"
    "good c'" using live_empty [of c s SLOT_MAX] assms by (auto simp: rec_consts)
  then show ?thesis using that [of c'] True by (simp add: read_copy_def)
next
  case False
  then obtain c' where r: "tropic_rmem_read T s SLOT_MAX c = (Inr (take SLOT_MAX (view c s)), c')"
    and g: "good c'" using live_read [of c s SLOT_MAX] assms by (auto simp: rec_consts)
  have "take SLOT_MAX (view c s) \<noteq> []" using False by (simp add: rec_consts)
  then have "read_copy T K p s c = (classify K p (take SLOT_MAX (view c s)), c')"
    by (simp add: read_copy_def r classify_def del: take_eq_Nil length_take)
  then show ?thesis using that g by (simp add: classify_take)
qed

lemma commit_copy_live:
  assumes "good c" and "s < 512" and "d \<noteq> []" and "length d < SLOT_MAX"
  obtains c' where "commit_copy T s d c = (True, c')" and "good c'"
proof -
  obtain c1 where 1: "tropic_rmem_erase T s c = (0, c1)" "good c1" "view c1 s = []"
    using live_erase [OF assms(1,2)] by blast
  obtain c2 where 2: "tropic_rmem_write T s d c1 = (0, c2)" "good c2" "view c2 s = d"
    using live_write [OF 1(2) assms(2) 1(3) assms(3)] assms(4) by (auto simp: rec_consts)
  obtain c3 where 3: "tropic_rmem_read T s SLOT_MAX c2 = (Inr d, c3)" "good c3"
    using live_read [OF 2(2) assms(2), of SLOT_MAX] 2(3) assms(3,4) by (auto simp: rec_consts)
  show ?thesis using that [of c3] 1 2 3 by (simp add: commit_copy_def)
qed

lemma erase_checked_live:
  assumes "good c" and "s < 512"
  obtains c' where "erase_checked T s c = (True, c')" and "good c'"
proof -
  obtain c1 where 1: "tropic_rmem_erase T s c = (0, c1)" "good c1" "view c1 s = []"
    using live_erase [OF assms] by blast
  obtain c2 where 2: "tropic_rmem_read T s SLOT_MAX c1 = (Inl TROPIC_ERR_RMEM_SLOT_EMPTY, c2)"
    "good c2" using live_empty [OF 1(2) assms(2) _ 1(3), of SLOT_MAX] by (auto simp: rec_consts)
  show ?thesis using that [of c2] 1 2 by (simp add: erase_checked_def)
qed

lemma commit_both_live:
  assumes "good c" and "slot_a p < 512" and "slot_b p < 512" and "crypto_ok K"
    and "\<not> bad_args pl"
  obtains c' where "commit_both T K g pl p c = (REC_OK, p, c')" and "good c'"
proof -
  let ?r = "encode K p g pl"
  have r: "length ?r < SLOT_MAX" "?r \<noteq> []"
    using assms(4,5) length_encode [of K p g pl] by (auto simp: bad_args_def rec_consts)
  obtain c1 where 1: "commit_copy T (slot_a p) ?r c = (True, c1)" "good c1"
    using commit_copy_live [OF assms(1,2) r(2,1)] by blast
  obtain c2 where 2: "commit_copy T (slot_b p) ?r c1 = (True, c2)" "good c2"
    using commit_copy_live [OF 1(2) assms(3) r(2,1)] by blast
  show ?thesis using that [of c2] 1 2 by (simp add: commit_both_def)
qed

lemma rec_pair_clear_live:
  assumes "good c" and "slot_a p < 512" and "slot_b p < 512" and "\<not> uncertain p"
  obtains c' where "rec_pair_clear T p c = (REC_OK, p, c')" and "good c'"
proof -
  obtain c1 where 1: "erase_checked T (slot_b p) c = (True, c1)" "good c1"
    using erase_checked_live [OF assms(1,3)] by blast
  obtain c2 where 2: "erase_checked T (slot_a p) c1 = (True, c2)" "good c2"
    using erase_checked_live [OF 1(2) assms(2)] by blast
  show ?thesis using that [of c2] 1 2 assms(4) by (simp add: rec_pair_clear_def)
qed

lemma rec_pair_init_live:
  assumes "good c" and "slot_a p < 512" and "slot_b p < 512" and "\<not> uncertain p"
    and "crypto_ok K" and "\<not> bad_args pl"
  obtains c' where "rec_pair_init T K pl p c = (REC_OK, p, c')" and "good c'"
proof -
  obtain c1 where 1: "rec_pair_clear T p c = (REC_OK, p, c1)" "good c1"
    using rec_pair_clear_live [OF assms(1-4)] by blast
  obtain c2 where 2: "commit_both T K 1 pl p c1 = (REC_OK, p, c2)" "good c2"
    using commit_both_live [OF 1(2) assms(2,3,5,6)] by blast
  show ?thesis using that [of c2] 1 2 assms(6) by (simp add: rec_pair_init_def)
qed

lemma rec_pair_read_live:
  assumes "good c" and "slot_a p < 512" and "slot_b p < 512" and "\<not> uncertain p"
    and "rec_choose p (classify K p (view c (slot_a p))) (classify K p (view c (slot_b p)))
      = Inr (win, rep)"
    and "\<And>m. cap = Some m \<Longrightarrow> len_of_rec win \<le> m"
  obtains c' where "rec_pair_read T K cap p c = (REC_OK, Some (payload_of win, gen_of win), p, c')"
    and "good c'"
proof -
  obtain c1 where 1: "read_copy T K p (slot_a p) c = (classify K p (view c (slot_a p)), c1)"
    and g1: "good c1" by (rule read_copy_live [OF assms(1,2)])
  have v1: "view c1 = view c" by (rule read_copy_spec(2) [OF good_inv [OF assms(1)] 1])
  obtain c2 where 2: "read_copy T K p (slot_b p) c1 = (classify K p (view c1 (slot_b p)), c2)"
    and g2: "good c2" by (rule read_copy_live [OF g1 assms(3)])
  note w = rec_choose_classify [OF assms(5)]
  have ne: "win \<noteq> []" "length win < SLOT_MAX" using valid_length [OF w(1)] by auto
  have cp: "\<not> (case cap of None \<Rightarrow> False | Some m \<Rightarrow> len_of_rec win > m)"
    using assms(6) by (fastforce split: option.splits)
  show ?thesis
  proof (cases rep)
    case None
    then show ?thesis using that [of c2] 1 2 g2 v1 assms(4,5) cp
      by (simp add: rec_pair_read_def)
  next
    case (Some s)
    then have "s < 512" using w(3) assms(2,3) by auto
    then obtain c3 where 3: "commit_copy T s win c2 = (True, c3)" "good c3"
      using commit_copy_live [OF g2 _ ne] by blast
    then show ?thesis using that [of c3] 1 2 v1 assms(4,5) cp Some
      by (simp add: rec_pair_read_def)
  qed
qed

lemma rec_pair_write_live:
  assumes "good c" and "slot_a p < 512" and "slot_b p < 512" and "\<not> uncertain p"
    and "rec_choose p (classify K p (view c (slot_a p))) (classify K p (view c (slot_b p)))
      = Inr (win, rep)"
    and "gen_of win \<noteq> - 1" and "crypto_ok K" and "\<not> bad_args pl"
  obtains c' where "rec_pair_write T K pl p c = (REC_OK, p, c')" and "good c'"
proof -
  obtain c1 where 1: "rec_pair_read T K None p c
      = (REC_OK, Some (payload_of win, gen_of win), p, c1)" "good c1"
    using rec_pair_read_live [OF assms(1-5), of None] by blast
  obtain c2 where 2: "commit_both T K (gen_of win + 1) pl p c1 = (REC_OK, p, c2)" "good c2"
    using commit_both_live [OF 1(2) assms(2,3,7,8)] by blast
  show ?thesis using that [of c2] 1 2 assms(6,8) by (simp add: rec_pair_write_def)
qed

end

interpretation mock_torn: torn_chip "mock_tropic K E" mock_inv mock_view K for K E
  by unfold_locales (use mock_write_spec(3) mock_erase_spec(3) valid_length(5) in fastforce)+

section \<open>Properties\<close>

text \<open>
  C7. Whatever happens during a write (a failing or torn chip operation, a lost reply, a
  power cut between any two chip operations), every later boot that reads the pair at
  all reports one and the same record, the old one or the new one; it never reports the
  object absent or corrupt, and it reports the new one whenever the write was
  acknowledged.  Boots may themselves be cut during a repair.
\<close>

theorem rec_write_survives_cuts:
  assumes "torn_chip T I view K" and "crypto_ok K" and "I c" and "slot_a p \<noteq> slot_b p"
    and "g \<noteq> 0" and "length old \<le> REC_PAYLOAD_MAX"
    and "view c (slot_a p) = encode K p g old" and "view c (slot_b p) = encode K p g old"
    and "rec_pair_write T K new p c = (st, p', c')"
    and "\<forall>f \<in> set fs. power_cycle I view f"
  shows "\<exists>w \<in> {encode K p g old, encode K p (g + 1) new}.
      (st = REC_OK \<longrightarrow> w = encode K p (g + 1) new) \<and>
      (\<forall>x \<in> set (boots T K cap p fs c'). reports w x)"
  by (rule torn_chip.write_then_boots [OF assms(1) assms(3,4,2,5-10)])

definition demo_pair :: rec_pair where
  "demo_pair = \<lparr>slot_a = 41, slot_b = 42, obj = 2, schema = 1, uncertain = False\<rparr>"

text \<open>A mock whose pair 41 / 42 holds generation 5 of the payload [1, 2, 3].\<close>

definition demo_stored :: mock where
  "demo_stored = demo_mock\<lparr>s_rmem := (\<lambda>_. mock_empty)
     (41 := \<lparr>s_written = True, s_masked = False, s_data = encode demo_crypto demo_pair 5 [1, 2, 3]\<rparr>,
      42 := \<lparr>s_written = True, s_masked = False, s_data = encode demo_crypto demo_pair 5 [1, 2, 3]\<rparr>)\<rparr>"

lemma demo_stored_view:
  "mock_view demo_stored 41 = encode demo_crypto demo_pair 5 [1, 2, 3]"
  "mock_view demo_stored 42 = encode demo_crypto demo_pair 5 [1, 2, 3]"
  by (simp_all add: mock_view_def demo_stored_def)

lemma demo_inv: "mock_inv demo_mock" "mock_inv demo_stored"
  by (simp_all add: demo_stored_def mock_inv_def demo_mock_def no_fault_def
      TROPIC_ERR_RMEM_SLOT_EMPTY_def)

text \<open>The write of copy A is torn so that the slot reads empty; two boots follow.\<close>

definition demo_torn :: mock where
  "demo_torn = mock_tear_nth MOCK_OP_RMEM_WRITE 1 (- 9) MOCK_DAMAGE_MASKED demo_stored"

lemma demo_torn_facts:
  "mock_inv demo_torn"
  "mock_view demo_torn (slot_a demo_pair) = encode demo_crypto demo_pair 5 [1, 2, 3]"
  "mock_view demo_torn (slot_b demo_pair) = encode demo_crypto demo_pair 5 [1, 2, 3]"
  using demo_inv(2) demo_stored_view
  by (simp_all add: demo_torn_def mock_tear_nth_def mock_inv_def mock_view_def demo_pair_def)

theorem rec_write_survives_cuts_witness:
  "\<exists>w \<in> {encode demo_crypto demo_pair 5 [1, 2, 3], encode demo_crypto demo_pair (5 + 1) [9]}.
     (fst (rec_pair_write demo_chip demo_crypto [9] demo_pair demo_torn) = REC_OK \<longrightarrow>
        w = encode demo_crypto demo_pair (5 + 1) [9]) \<and>
     (\<forall>x \<in> set (boots demo_chip demo_crypto None demo_pair [mock_disarm, id]
        (snd (snd (rec_pair_write demo_chip demo_crypto [9] demo_pair demo_torn)))). reports w x)"
proof (rule rec_write_survives_cuts [where I = mock_inv and view = mock_view and c = demo_torn
      and p' = "fst (snd (rec_pair_write demo_chip demo_crypto [9] demo_pair demo_torn))"])
  show "torn_chip demo_chip mock_inv mock_view demo_crypto"
    unfolding demo_chip_def by (rule mock_torn.torn_chip_axioms)
  show "\<forall>f \<in> set [mock_disarm, id]. power_cycle mock_inv mock_view f"
    by (simp add: power_cycle_def mock_disarm_def mock_inv_def mock_view_def no_fault_def
        TROPIC_ERR_RMEM_SLOT_EMPTY_def fun_eq_iff)
qed (simp_all add: demo_torn_facts rec_consts, simp add: demo_pair_def)

text \<open>
  An acknowledged write is what every later read returns: after \<open>rec_pair_write\<close>
  reports \<open>REC_OK\<close>, any number of reads, each of which may fail, returns the written
  payload whenever it succeeds.
\<close>

theorem rec_read_after_write:
  assumes "pair_ok T K I view (p, c)"
    and "rec_pair_write T K pl p c = (REC_OK, p', c')"
    and "rec_store.reads (\<lambda>n (p, c). rec_pair_read T K n p c) ns (p', c') = (rs, s')"
    and "(REC_OK, res) \<in> set rs"
  shows "\<exists>g. res = Some (pl, g)"
  using pair.read_after_write [OF assms(1) _ assms(3,4)] assms(2) by simp

lemma demo_good: "mock_good demo_stored"
proof -
  have "encode demo_crypto demo_pair 5 [1, 2, 3] \<noteq> []"
    using length_encode [OF crypto_ok_demo, of demo_pair 5 "[1, 2, 3]"] by (auto simp: rec_consts)
  then show ?thesis
    using demo_inv(2)
    by (simp add: mock_good_def demo_stored_def demo_mock_def no_fault_def mock_empty_def)
qed

lemma demo_choose:
  "rec_choose demo_pair (classify demo_crypto demo_pair (mock_view demo_stored (slot_a demo_pair)))
     (classify demo_crypto demo_pair (mock_view demo_stored (slot_b demo_pair)))
   = Inr (encode demo_crypto demo_pair 5 [1, 2, 3], None)"
  using valid_encode [OF crypto_ok_demo, of 5 "[1, 2, 3]" demo_pair]
  by (simp add: demo_pair_def demo_stored_view rec_consts rec_choose_def)

lemma demo_pair_sel [simp]:
  "slot_a demo_pair = 41" "slot_b demo_pair = 42" "\<not> uncertain demo_pair"
  by (simp_all add: demo_pair_def)

lemma demo_chip_live: "live_rmem demo_chip mock_inv mock_view mock_good"
  unfolding demo_chip_def by (rule mock_live.live_rmem_axioms)

lemma demo_chip_rmem: "rmem_chip demo_chip mock_inv mock_view"
  unfolding demo_chip_def by (rule mock.rmem_chip_axioms)

lemma demo_pair_ok: "pair_ok demo_chip demo_crypto mock_inv mock_view (demo_pair, demo_stored)"
  by (simp add: pair_ok_def demo_chip_rmem demo_inv)

lemma demo_write:
  obtains c' where "rec_pair_write demo_chip demo_crypto [9] demo_pair demo_stored
      = (REC_OK, demo_pair, c')" and "mock_good c'"
  by (rule live_rmem.rec_pair_write_live [OF demo_chip_live demo_good _ _ _ demo_choose,
        where pl = "[9]"]) (simp_all add: encode_fields bad_args_def rec_consts)

theorem rec_read_after_write_witness:
  "\<exists>p' c' rs s'. rec_pair_write demo_chip demo_crypto [9] demo_pair demo_stored = (REC_OK, p', c')
     \<and> rec_store.reads (\<lambda>n (p, c). rec_pair_read demo_chip demo_crypto n p c) [None] (p', c') = (rs, s')
     \<and> (\<forall>res. (REC_OK, res) \<in> set rs \<longrightarrow> (\<exists>g. res = Some ([9], g)))"
proof -
  obtain c' where w: "rec_pair_write demo_chip demo_crypto [9] demo_pair demo_stored
      = (REC_OK, demo_pair, c')" by (rule demo_write)
  obtain rs s' where r: "rec_store.reads (\<lambda>n (p, c). rec_pair_read demo_chip demo_crypto n p c)
      [None] (demo_pair, c') = (rs, s')" by (rule prod.exhaust)
  show ?thesis using w r rec_read_after_write [OF demo_pair_ok w r] by blast
qed

text \<open>
  The record format is a bijection: the valid records of an object are exactly the
  encodings of its (non-zero generation, payload) pairs, and reading an encoding gives
  back the generation and the payload.
\<close>

theorem rec_format_bijection:
  assumes "crypto_ok K"
  shows "(valid K p r \<longleftrightarrow>
      (\<exists>g pl. g \<noteq> 0 \<and> length pl \<le> REC_PAYLOAD_MAX \<and> r = encode K p g pl)) \<and>
    (\<forall>g pl. length pl \<le> REC_PAYLOAD_MAX \<longrightarrow>
      gen_of (encode K p g pl) = g \<and> payload_of (encode K p g pl) = pl)"
proof (intro conjI iffI allI impI)
  assume "valid K p r"
  then show "\<exists>g pl. g \<noteq> 0 \<and> length pl \<le> REC_PAYLOAD_MAX \<and> r = encode K p g pl"
    using valid_is_encode valid_gen valid_length(3,4) by metis
next
  assume "\<exists>g pl. g \<noteq> 0 \<and> length pl \<le> REC_PAYLOAD_MAX \<and> r = encode K p g pl"
  then show "valid K p r" using valid_encode [OF assms] by blast
qed (simp_all add: encode_fields payload_of_encode rec_consts)

theorem rec_format_bijection_witness:
  "valid demo_crypto demo_pair (encode demo_crypto demo_pair 5 [1, 2, 3])"
proof -
  have "\<exists>g pl. g \<noteq> 0 \<and> length pl \<le> REC_PAYLOAD_MAX \<and>
      encode demo_crypto demo_pair 5 [1, 2, 3] = encode demo_crypto demo_pair g pl"
    by (rule exI [of _ 5], rule exI [of _ "[1, 2, 3]"]) (simp add: rec_consts)
  then show ?thesis
    using rec_format_bijection [OF crypto_ok_demo, of demo_pair "encode demo_crypto demo_pair 5 [1, 2, 3]"]
    by blast
qed

text \<open>
  C10. A failure poisons the pair: when (re)initialising or clearing fails, the pair is
  uncertain, and from then on, until the flag is forgotten by a reboot, every operation
  returns \<open>REC_ERROR\<close> without a single chip call.
\<close>

theorem rec_failure_poisons:
  assumes "rec_pair_init T K pl p c = (REC_ERROR, p', c') \<and> \<not> bad_args pl
      \<or> rec_pair_clear T p c = (REC_ERROR, p', c')"
  shows "uncertain p' \<and>
    (\<forall>cap x d. rec_pair_read T K cap p' d = (REC_ERROR, None, p', d) \<and>
       rec_pair_write T K x p' d = (REC_ERROR, p', d) \<and>
       rec_pair_init T K x p' d = (REC_ERROR, p', d) \<and>
       rec_pair_clear T p' d = (REC_ERROR, p', d))"
proof -
  have "uncertain p'"
    using assms
    by (auto simp: rec_pair_init_def rec_pair_clear_def commit_both_def Let_def
        split: if_splits prod.splits rec_status.splits)
  then show ?thesis
    by (simp add: rec_pair_read_def rec_pair_write_def rec_pair_init_def rec_pair_clear_def)
qed

text \<open>A mock whose next erase fails without an effect.\<close>

definition demo_stuck :: mock where
  "demo_stuck = mock_fail_nth MOCK_OP_RMEM_ERASE 1 (- 9) False demo_mock"

theorem rec_failure_poisons_witness:
  "\<exists>p' c'. rec_pair_clear demo_chip demo_pair demo_stuck = (REC_ERROR, p', c') \<and>
     uncertain p' \<and> rec_pair_write demo_chip demo_crypto [7] p' demo_mock = (REC_ERROR, p', demo_mock)"
proof -
  have "fst (mock_rmem_erase demo_codes 42 demo_stuck) \<noteq> 0"
    by (simp add: mock_rmem_erase_def enter_def demo_stuck_def mock_fail_nth_def demo_mock_def
        Let_def mock_consts)
  then have "fst (rec_pair_clear demo_chip demo_pair demo_stuck) = REC_ERROR"
    by (auto simp: rec_pair_clear_def erase_checked_def demo_chip_def split: prod.splits)
  then obtain p' c' where "rec_pair_clear demo_chip demo_pair demo_stuck = (REC_ERROR, p', c')"
    by (metis fst_conv prod_cases3)
  then show ?thesis
    using rec_failure_poisons [of demo_chip demo_crypto "[]" demo_pair demo_stuck p' c'] by blast
qed

end
