(* ===== verification/Rec_Client.thy ===== *)
theory Rec_Client
  imports Rec_Pair
begin

text \<open>
  What the clients of a record pair build on: a pair whose two copies are equal ("at
  rest"), what a failed write may have done to it, which chip slots the pair operations
  may touch, and what they do on a chip that works.
\<close>

section \<open>A write that fails\<close>

context rmem_chip
begin

lemma write_failed:
  assumes "inv c" and "slot_a p \<noteq> slot_b p" and "crypto_ok K" and "valid K p r"
    and "view c (slot_a p) = r" and "view c (slot_b p) = r"
    and "rec_pair_write T K pl p c = (st, p', c')" and "st \<noteq> REC_OK"
  shows "uncertain p' \<or> view c' = view c \<and> p' = p"
proof -
  obtain s1 o1 p1 c1 where r: "rec_pair_read T K None p c = (s1, o1, p1, c1)" by (metis prod_cases4)
  note rs = read_settled [OF assms(1,2,4,5,6) r]
  have i1: "inv c1" by (rule rec_pair_read_frame(1) [OF assms(1) r])
  show ?thesis
  proof (cases "bad_args pl \<or> s1 \<noteq> REC_OK \<or> gen_of r = - 1")
    case True
    then show ?thesis using rs assms(7,8) by (auto simp: rec_pair_write_def r split: if_splits)
  next
    case False
    then have cb: "commit_both T K (gen_of r + 1) pl p c1 = (st, p', c')"
      using rs assms(7) by (auto simp: rec_pair_write_def r)
    have "p' = mark_uncertain p"
      using commit_both_spec(5) [OF i1 assms(2,3) _ cb] False assms(8) by blast
    then show ?thesis by (simp add: mark_uncertain_def)
  qed
qed

lemma absent_read:
  assumes "inv c" and "rec_pair_read T K cap p c = (REC_ABSENT, out, p', c')"
  shows "view c (slot_a p) = []" and "view c (slot_b p) = []"
proof -
  obtain a c1 where 1: "read_copy T K p (slot_a p) c = (a, c1)" by fastforce
  obtain b c2 where 2: "read_copy T K p (slot_b p) c1 = (b, c2)" by fastforce
  note s1 = read_copy_spec [OF assms(1) 1]
  note s2 = read_copy_spec [OF s1(1) 2]
  have ne: "a \<noteq> COPY_ERR" "b \<noteq> COPY_ERR" and ch: "rec_choose p a b = Inl REC_ABSENT"
    using assms(2)
    by (auto simp: rec_pair_read_def 1 2 split: if_splits sum.splits option.splits prod.splits)
  have "a = COPY_EMPTY \<and> b = COPY_EMPTY"
    using ch ne by (auto simp: rec_choose_def Let_def split: copy.splits if_splits)
  then show "view c (slot_a p) = []" and "view c (slot_b p) = []"
    using s1 s2 by (auto simp: classify_def split: if_splits)
qed

end

text \<open>
  A client that keeps a copy of the payload in RAM needs more than \<open>rec_store\<close>: after a
  failed write the pair either says so (it is stuck until a reboot) or still holds what
  it held.
\<close>

locale cached_store = rec_store ok content rd wr ini clr
  for ok :: "'s \<Rightarrow> bool" and content :: "'s \<Rightarrow> bytes option"
    and rd :: "nat option \<Rightarrow> 's \<Rightarrow> rec_status \<times> (bytes \<times> u32) option \<times> 's"
    and wr :: "bytes \<Rightarrow> 's \<Rightarrow> rec_status \<times> 's"
    and ini :: "bytes \<Rightarrow> 's \<Rightarrow> rec_status \<times> 's"
    and clr :: "'s \<Rightarrow> rec_status \<times> 's" +
  fixes stuck :: "'s \<Rightarrow> bool"
  assumes wr_fail: "ok s \<Longrightarrow> content s = Some x \<Longrightarrow> wr pl s = (st, s') \<Longrightarrow> st \<noteq> REC_OK \<Longrightarrow>
      stuck s' \<or> content s' = Some x"
begin

text \<open>So a cache that is taken over only on success is right whenever the pair is not stuck.\<close>

lemma cache_after_write:
  assumes "ok s" and "content s = Some x" and "wr pl s = (st, s')" and "\<not> stuck s'"
  shows "content s' = Some (if st = REC_OK then pl else x)"
proof (cases "st = REC_OK")
  case True
  then show ?thesis using wr_content assms(1,3) by simp
next
  case False
  then show ?thesis using wr_fail [OF assms(1-3) False] assms(4) by simp
qed

end

interpretation pair_cached: cached_store "pair_ok T K I view" "pair_content K view"
  "\<lambda>n (p, c). rec_pair_read T K n p c" "\<lambda>pl (p, c). rec_pair_write T K pl p c"
  "\<lambda>pl (p, c). rec_pair_init T K pl p c" "\<lambda>(p, c). rec_pair_clear T p c" "\<lambda>(p, c). uncertain p"
  for T K I view
proof (unfold_locales, goal_cases)
  case (1 s x pl st s')
  obtain p c p' c' where s: "s = (p, c)" "s' = (p', c')" by fastforce
  have "valid K p (view c (slot_a p))" "view c (slot_b p) = view c (slot_a p)"
    using 1(2) s by (auto elim!: pair_contentE)
  then show ?case
    using rmem_chip.write_failed [of T I view c p K "view c (slot_a p)" pl st p' c'] 1 s
    by (auto simp: pair_ok_def pair_content_def)
qed

section \<open>Records at rest\<close>

definition at_rest ::
  "crypto \<Rightarrow> ('c \<Rightarrow> nat \<Rightarrow> bytes) \<Rightarrow> rec_pair \<Rightarrow> u32 \<Rightarrow> bytes \<Rightarrow> 'c \<Rightarrow> bool" where
  "at_rest K view p g pl c \<longleftrightarrow>
     view c (slot_a p) = encode K p g pl \<and> view c (slot_b p) = encode K p g pl"

definition pair_usable :: "rec_pair \<Rightarrow> bool" where
  "pair_usable p \<longleftrightarrow> slot_a p < 512 \<and> slot_b p < 512 \<and> slot_a p \<noteq> slot_b p \<and> \<not> uncertain p"

context live_rmem
begin

lemma rest_choose:
  assumes "crypto_ok K" and "at_rest K view p g pl c" and "g \<noteq> 0" and "\<not> bad_args pl"
  shows "rec_choose p (classify K p (view c (slot_a p))) (classify K p (view c (slot_b p)))
      = Inr (encode K p g pl, None)"
    and "valid K p (encode K p g pl)" and "payload_of (encode K p g pl) = pl"
    and "gen_of (encode K p g pl) = g" and "len_of_rec (encode K p g pl) = length pl"
proof -
  have l: "length pl \<le> REC_PAYLOAD_MAX" using assms(4) by (simp add: bad_args_def)
  show v: "valid K p (encode K p g pl)" by (rule valid_encode [OF assms(1,3) l])
  show "rec_choose p (classify K p (view c (slot_a p))) (classify K p (view c (slot_b p)))
      = Inr (encode K p g pl, None)"
    using v assms(2) by (simp add: at_rest_def rec_choose_def)
  show "payload_of (encode K p g pl) = pl" "gen_of (encode K p g pl) = g"
    "len_of_rec (encode K p g pl) = length pl"
    using l by (simp_all add: encode_fields payload_of_encode rec_consts)
qed

lemma rest_read:
  assumes "good c" and "crypto_ok K" and "pair_usable p" and "at_rest K view p g pl c"
    and "g \<noteq> 0" and "\<not> bad_args pl" and "\<And>m. cap = Some m \<Longrightarrow> length pl \<le> m"
  obtains c' where "rec_pair_read T K cap p c = (REC_OK, Some (pl, g), p, c')" and "good c'"
    and "view c' = view c"
proof -
  note ch = rest_choose [OF assms(2,4,5,6)]
  obtain c' where r: "rec_pair_read T K cap p c = (REC_OK, Some (payload_of (encode K p g pl),
      gen_of (encode K p g pl)), p, c')" and g: "good c'"
    by (rule rec_pair_read_live [OF assms(1) _ _ _ ch(1), where cap = cap])
       (use assms(3,7) ch in \<open>auto simp: pair_usable_def\<close>)
  have "view c' = view c"
    by (rule read_settled(1) [OF good_inv [OF assms(1)] _ ch(2) _ _ r])
       (use assms(3,4) in \<open>simp_all add: pair_usable_def at_rest_def\<close>)
  then show thesis using that r g ch by simp
qed

lemma rest_write:
  assumes "good c" and "crypto_ok K" and "pair_usable p" and "at_rest K view p g pl c"
    and "g \<noteq> 0" and "g \<noteq> - 1" and "\<not> bad_args pl" and "\<not> bad_args new"
  obtains c' where "rec_pair_write T K new p c = (REC_OK, p, c')" and "good c'"
    and "at_rest K view p (g + 1) new c'"
proof -
  obtain c1 where r: "rec_pair_read T K None p c = (REC_OK, Some (pl, g), p, c1)" and g1: "good c1"
    and v1: "view c1 = view c" by (rule rest_read [OF assms(1-5,7)]) auto
  obtain c2 where w: "commit_both T K (g + 1) new p c1 = (REC_OK, p, c2)" and g2: "good c2"
    by (rule commit_both_live [OF g1 _ _ assms(2,8)]) (use assms(3) in \<open>auto simp: pair_usable_def\<close>)
  have "at_rest K view p (g + 1) new c2"
    using commit_both_spec(4) [OF good_inv [OF g1] _ assms(2,8) w] assms(3)
    by (simp add: pair_usable_def at_rest_def)
  then show thesis using that [of c2] g2 w assms(6,8) by (simp add: rec_pair_write_def r)
qed

lemma rest_init:
  assumes "good c" and "crypto_ok K" and "pair_usable p" and "\<not> bad_args pl"
  obtains c' where "rec_pair_init T K pl p c = (REC_OK, p, c')" and "good c'"
    and "at_rest K view p 1 pl c'"
proof -
  obtain c' where w: "rec_pair_init T K pl p c = (REC_OK, p, c')" and g: "good c'"
    by (rule rec_pair_init_live [OF assms(1)]) (use assms in \<open>auto simp: pair_usable_def\<close>)
  then show thesis
    using that [of c'] init_spec(4) [OF good_inv [OF assms(1)] _ assms(2) w] assms(3)
    by (simp add: pair_usable_def at_rest_def)
qed

end

end
