(* ===== verification/Openpgp_State.thy ===== *)
theory Openpgp_State
  imports Rec_Client
begin

text \<open>
  The persistent OpenPGP state O3, \<^verbatim>\<open>firmware/src/openpgp/openpgp_state.c\<close>: one record pair
  with the card's lifecycle, its data objects and the wrapped decryption key, and a copy of it
  in RAM.  The abstract card is a record of fields; the lemmas show that a successful setter
  changes exactly the field it names, that the RAM copy is what both chip copies hold, and
  that the permanent touch policy survives failures and power cuts.
\<close>

section \<open>Layout\<close>

definition OPENPGP_NAME_MAX :: nat where "OPENPGP_NAME_MAX = 39"
definition OPENPGP_LANG_LEN :: nat where "OPENPGP_LANG_LEN = 2"
definition OPENPGP_FPR_LEN :: nat where "OPENPGP_FPR_LEN = 20"
definition OPENPGP_GENTIME_LEN :: nat where "OPENPGP_GENTIME_LEN = 4"
definition OPENPGP_SIG_COUNTER_LEN :: nat where "OPENPGP_SIG_COUNTER_LEN = 3"
definition OPENPGP_STATE_O3_OBJ :: u8 where "OPENPGP_STATE_O3_OBJ = 3"
definition OPENPGP_STATE_O3_SCHEMA :: u8 where "OPENPGP_STATE_O3_SCHEMA = 2"
definition OPENPGP_DEC_PUB_LEN :: nat where "OPENPGP_DEC_PUB_LEN = 32"
definition OPENPGP_DEC_NONCE_LEN :: nat where "OPENPGP_DEC_NONCE_LEN = 12"
definition OPENPGP_DEC_CT_LEN :: nat where "OPENPGP_DEC_CT_LEN = 32"
definition OPENPGP_DEC_TAG_LEN :: nat where "OPENPGP_DEC_TAG_LEN = 16"

definition OFF_LC :: nat where "OFF_LC = 0"
definition OFF_RC_SET :: nat where "OFF_RC_SET = 1"
definition OFF_C4 :: nat where "OFF_C4 = 2"
definition OFF_UIF :: nat where "OFF_UIF = 3"
definition OFF_NAME_LEN :: nat where "OFF_NAME_LEN = 4"
definition OFF_NAME :: nat where "OFF_NAME = 5"
definition OFF_LANG :: nat where "OFF_LANG = 44"
definition OFF_SEX :: nat where "OFF_SEX = 46"
definition OFF_FPR :: nat where "OFF_FPR = 47"
definition OFF_GENTIME :: nat where "OFF_GENTIME = 107"
definition OFF_SIGCNT :: nat where "OFF_SIGCNT = 119"
definition OFF_DEC_PUB :: nat where "OFF_DEC_PUB = 122"
definition OFF_DEC_NONCE :: nat where "OFF_DEC_NONCE = 154"
definition OFF_DEC_CT :: nat where "OFF_DEC_CT = 166"
definition OFF_DEC_TAG :: nat where "OFF_DEC_TAG = 198"
definition O3_LEN :: nat where "O3_LEN = 214"
definition SEX_NA :: u8 where "SEX_NA = 0x39"

lemmas o3_layout = OPENPGP_NAME_MAX_def OPENPGP_LANG_LEN_def OPENPGP_FPR_LEN_def OPENPGP_GENTIME_LEN_def
  OPENPGP_SIG_COUNTER_LEN_def OPENPGP_DEC_PUB_LEN_def OPENPGP_DEC_NONCE_LEN_def OPENPGP_DEC_CT_LEN_def
  OPENPGP_DEC_TAG_LEN_def OFF_LC_def OFF_RC_SET_def OFF_C4_def OFF_UIF_def OFF_NAME_LEN_def OFF_NAME_def
  OFF_LANG_def OFF_SEX_def OFF_FPR_def OFF_GENTIME_def OFF_SIGCNT_def OFF_DEC_PUB_def OFF_DEC_NONCE_def
  OFF_DEC_CT_def OFF_DEC_TAG_def O3_LEN_def

definition PGP_LC_ERROR :: u8 where "PGP_LC_ERROR = 0"
definition PGP_LC_OPERATIONAL :: u8 where "PGP_LC_OPERATIONAL = 1"
definition PGP_LC_TERMINATED :: u8 where "PGP_LC_TERMINATED = 2"

lemmas pgp_lcs = PGP_LC_ERROR_def PGP_LC_OPERATIONAL_def PGP_LC_TERMINATED_def

record openpgp_dec_rec =
  d_pub :: bytes
  d_nonce :: bytes
  d_ct :: bytes
  d_tag :: bytes

text \<open>The statics: the pair, the committed record (valid while loaded) and the flag.\<close>

record pgp_state =
  s_o3 :: rec_pair
  s_cur :: bytes
  s_loaded :: bool

definition O3_START :: rec_pair where
  "O3_START = \<lparr>slot_a = 33, slot_b = 43, obj = OPENPGP_STATE_O3_OBJ, schema = OPENPGP_STATE_O3_SCHEMA, uncertain = False\<rparr>"

definition pgp_start :: pgp_state where
  "pgp_start = \<lparr>s_o3 = O3_START, s_cur = replicate O3_LEN 0, s_loaded = False\<rparr>"

section \<open>Records\<close>

definition pgp_usable :: "pgp_state \<Rightarrow> bool" where
  "pgp_usable s \<longleftrightarrow> s_loaded s \<and> \<not> uncertain (s_o3 s)"

definition sex_ok :: "u8 \<Rightarrow> bool" where
  "sex_ok v \<longleftrightarrow> v = 0x31 \<or> v = 0x32 \<or> v = SEX_NA"

definition all_zero :: "bytes \<Rightarrow> bool" where
  "all_zero bs \<longleftrightarrow> fold (OR) bs 0 = 0"

text \<open>\<open>n\<close> bytes from \<open>off\<close>, and a copy of \<open>v\<close> to \<open>off\<close>.\<close>

definition field :: "nat \<Rightarrow> nat \<Rightarrow> bytes \<Rightarrow> bytes" where
  "field off n b = take n (drop off b)"

definition put_at :: "nat \<Rightarrow> bytes \<Rightarrow> bytes \<Rightarrow> bytes" where
  "put_at off v b = take off b @ v @ drop (off + length v) b"

definition dec_ok :: "bytes \<Rightarrow> bool" where
  "dec_ok b = (let no_pub = all_zero (field OFF_DEC_PUB OPENPGP_DEC_PUB_LEN b);
                   no_seal = all_zero (field OFF_DEC_CT (OPENPGP_DEC_CT_LEN + OPENPGP_DEC_TAG_LEN) b)
     in if no_pub then no_seal \<and> all_zero (field OFF_DEC_NONCE OPENPGP_DEC_NONCE_LEN b) else \<not> no_seal)"

definition fields_ok :: "bytes \<Rightarrow> bool" where
  "fields_ok b \<longleftrightarrow> (b ! OFF_LC = PGP_LC_OPERATIONAL \<or> b ! OFF_LC = PGP_LC_TERMINATED) \<and>
     b ! OFF_RC_SET \<le> 1 \<and> b ! OFF_C4 \<le> 1 \<and> b ! OFF_UIF \<le> 2 \<and>
     unat (b ! OFF_NAME_LEN) \<le> OPENPGP_NAME_MAX \<and>
     (b ! OFF_LC = PGP_LC_TERMINATED \<or> sex_ok (b ! OFF_SEX)) \<and> dec_ok b"

definition defaults :: "u8 \<Rightarrow> bytes" where
  "defaults lc = (let out = (replicate O3_LEN 0)[OFF_LC := lc] in
     if lc \<noteq> PGP_LC_OPERATIONAL then out
     else out[OFF_C4 := 1, OFF_UIF := 1, OFF_LANG := 0x65, OFF_LANG + 1 := 0x6E, OFF_SEX := SEX_NA])"

definition commit ::
  "'c tropic \<Rightarrow> crypto \<Rightarrow> bytes \<Rightarrow> pgp_state \<Rightarrow> 'c \<Rightarrow> int \<times> pgp_state \<times> 'c" where
  "commit T K nxt s c =
     (if \<not> (pgp_usable s \<and> s_cur s ! OFF_LC = PGP_LC_OPERATIONAL) then (- 1, s, c)
      else case rec_pair_write T K nxt (s_o3 s) c of (st, p, c1) \<Rightarrow>
        if st = REC_OK then (0, s\<lparr>s_o3 := p, s_cur := nxt\<rparr>, c1) else (- 1, s\<lparr>s_o3 := p\<rparr>, c1))"

definition openpgp_state_load :: "'c tropic \<Rightarrow> crypto \<Rightarrow> pgp_state \<Rightarrow> 'c \<Rightarrow> int \<times> pgp_state \<times> 'c" where
  "openpgp_state_load T K s c =
     (case rec_pair_read T K (Some REC_PAYLOAD_MAX) (s_o3 s) c of (st, res, p, c1) \<Rightarrow>
      let s1 = s\<lparr>s_loaded := False, s_o3 := p\<rparr> in
      if st = REC_ABSENT then (1, s1, c1)
      else case (st, res) of
        (REC_OK, Some (buf, _)) \<Rightarrow>
          (if length buf = O3_LEN \<and> fields_ok buf then (0, s1\<lparr>s_cur := buf, s_loaded := True\<rparr>, c1)
           else (- 1, s1, c1))
      | _ \<Rightarrow> (- 1, s1, c1))"

definition openpgp_state_lifecycle :: "pgp_state \<Rightarrow> u8" where
  "openpgp_state_lifecycle s = (if pgp_usable s then s_cur s ! OFF_LC else PGP_LC_ERROR)"

definition openpgp_state_loaded :: "pgp_state \<Rightarrow> bool" where
  "openpgp_state_loaded s = s_loaded s"

definition openpgp_state_clear :: "'c tropic \<Rightarrow> pgp_state \<Rightarrow> 'c \<Rightarrow> int \<times> pgp_state \<times> 'c" where
  "openpgp_state_clear T s c =
     (case rec_pair_clear T ((s_o3 s)\<lparr>uncertain := False\<rparr>) c of (st, p, c1) \<Rightarrow>
        (if st = REC_OK then 0 else - 1, s\<lparr>s_loaded := False, s_cur := replicate O3_LEN 0, s_o3 := p\<rparr>, c1))"

definition openpgp_state_init :: "'c tropic \<Rightarrow> crypto \<Rightarrow> u8 \<Rightarrow> pgp_state \<Rightarrow> 'c \<Rightarrow> int \<times> pgp_state \<times> 'c" where
  "openpgp_state_init T K lc s c =
     (let s1 = s\<lparr>s_loaded := False, s_o3 := (s_o3 s)\<lparr>uncertain := False\<rparr>\<rparr> in
      if lc = PGP_LC_ERROR then (- 1, s1, c)
      else case rec_pair_init T K (defaults lc) (s_o3 s1) c of (st, p, c1) \<Rightarrow>
        if st = REC_OK then (0, s1\<lparr>s_o3 := p, s_cur := defaults lc, s_loaded := True\<rparr>, c1)
        else (- 1, s1\<lparr>s_o3 := p\<rparr>, c1))"

definition openpgp_state_activate :: "'c tropic \<Rightarrow> crypto \<Rightarrow> pgp_state \<Rightarrow> 'c \<Rightarrow> int \<times> pgp_state \<times> 'c" where
  "openpgp_state_activate T K s c =
     (if \<not> (pgp_usable s \<and> s_cur s ! OFF_LC = PGP_LC_TERMINATED) then (- 1, s, c)
      else case rec_pair_write T K (defaults PGP_LC_OPERATIONAL) (s_o3 s) c of (st, p, c1) \<Rightarrow>
        if st = REC_OK then (0, s\<lparr>s_o3 := p, s_cur := defaults PGP_LC_OPERATIONAL\<rparr>, c1)
        else (- 1, s\<lparr>s_o3 := p\<rparr>, c1))"

section \<open>Getters\<close>

definition byte_at :: "nat \<Rightarrow> pgp_state \<Rightarrow> u8" where
  "byte_at off s = (if pgp_usable s then s_cur s ! off else 0)"

definition copy_out :: "nat \<Rightarrow> nat \<Rightarrow> pgp_state \<Rightarrow> bytes" where
  "copy_out off len s = (if pgp_usable s then field off len (s_cur s) else replicate len 0)"

definition key_ok :: "int \<Rightarrow> bool" where
  "key_ok key \<longleftrightarrow> key \<ge> 0 \<and> key \<le> 2"

definition openpgp_state_rc_set :: "pgp_state \<Rightarrow> u8" where "openpgp_state_rc_set = byte_at OFF_RC_SET"
definition openpgp_state_c4_multi :: "pgp_state \<Rightarrow> u8" where "openpgp_state_c4_multi = byte_at OFF_C4"

definition openpgp_state_uif :: "pgp_state \<Rightarrow> u8" where
  "openpgp_state_uif s = (if pgp_usable s then s_cur s ! OFF_UIF else 1)"

definition openpgp_state_name :: "pgp_state \<Rightarrow> bytes" where
  "openpgp_state_name s = copy_out OFF_NAME (unat (byte_at OFF_NAME_LEN s)) s"

definition openpgp_state_lang :: "pgp_state \<Rightarrow> bytes" where
  "openpgp_state_lang = copy_out OFF_LANG OPENPGP_LANG_LEN"

definition openpgp_state_sex :: "pgp_state \<Rightarrow> u8" where
  "openpgp_state_sex s = (if pgp_usable s then s_cur s ! OFF_SEX else SEX_NA)"

definition openpgp_state_fingerprint :: "int \<Rightarrow> pgp_state \<Rightarrow> bytes" where
  "openpgp_state_fingerprint key s =
     (if \<not> key_ok key then replicate OPENPGP_FPR_LEN 0
      else copy_out (OFF_FPR + nat key * OPENPGP_FPR_LEN) OPENPGP_FPR_LEN s)"

definition openpgp_state_gentime :: "int \<Rightarrow> pgp_state \<Rightarrow> bytes" where
  "openpgp_state_gentime key s =
     (if \<not> key_ok key then replicate OPENPGP_GENTIME_LEN 0
      else copy_out (OFF_GENTIME + nat key * OPENPGP_GENTIME_LEN) OPENPGP_GENTIME_LEN s)"

definition openpgp_state_sig_counter :: "pgp_state \<Rightarrow> bytes" where
  "openpgp_state_sig_counter = copy_out OFF_SIGCNT OPENPGP_SIG_COUNTER_LEN"

text \<open>\<open>None\<close> is -1.\<close>

definition openpgp_state_dec_get :: "pgp_state \<Rightarrow> openpgp_dec_rec option" where
  "openpgp_state_dec_get s =
     (if \<not> pgp_usable s \<or> all_zero (field OFF_DEC_PUB OPENPGP_DEC_PUB_LEN (s_cur s)) then None
      else Some \<lparr>d_pub = field OFF_DEC_PUB OPENPGP_DEC_PUB_LEN (s_cur s),
             d_nonce = field OFF_DEC_NONCE OPENPGP_DEC_NONCE_LEN (s_cur s),
             d_ct = field OFF_DEC_CT OPENPGP_DEC_CT_LEN (s_cur s),
             d_tag = field OFF_DEC_TAG OPENPGP_DEC_TAG_LEN (s_cur s)\<rparr>)"

section \<open>Setters\<close>

definition set_byte ::
  "'c tropic \<Rightarrow> crypto \<Rightarrow> nat \<Rightarrow> u8 \<Rightarrow> pgp_state \<Rightarrow> 'c \<Rightarrow> int \<times> pgp_state \<times> 'c" where
  "set_byte T K off v s = commit T K ((s_cur s)[off := v]) s"

definition set_bytes ::
  "'c tropic \<Rightarrow> crypto \<Rightarrow> nat \<Rightarrow> bytes \<Rightarrow> pgp_state \<Rightarrow> 'c \<Rightarrow> int \<times> pgp_state \<times> 'c" where
  "set_bytes T K off v s = commit T K (put_at off v (s_cur s)) s"

definition openpgp_state_set_rc_set ::
  "'c tropic \<Rightarrow> crypto \<Rightarrow> u8 \<Rightarrow> pgp_state \<Rightarrow> 'c \<Rightarrow> int \<times> pgp_state \<times> 'c" where
  "openpgp_state_set_rc_set T K v s c = (if v \<le> 1 then set_byte T K OFF_RC_SET v s c else (- 1, s, c))"

definition openpgp_state_set_c4_multi ::
  "'c tropic \<Rightarrow> crypto \<Rightarrow> u8 \<Rightarrow> pgp_state \<Rightarrow> 'c \<Rightarrow> int \<times> pgp_state \<times> 'c" where
  "openpgp_state_set_c4_multi T K v s c = (if v \<le> 1 then set_byte T K OFF_C4 v s c else (- 1, s, c))"

definition openpgp_state_set_uif ::
  "'c tropic \<Rightarrow> crypto \<Rightarrow> u8 \<Rightarrow> pgp_state \<Rightarrow> 'c \<Rightarrow> int \<times> pgp_state \<times> 'c" where
  "openpgp_state_set_uif T K v s c =
     (if v > 2 then (- 1, s, c)
      else if pgp_usable s \<and> s_cur s ! OFF_UIF = 2 \<and> v \<noteq> 2 then (- 3, s, c)
      else set_byte T K OFF_UIF v s c)"

definition openpgp_state_set_name ::
  "'c tropic \<Rightarrow> crypto \<Rightarrow> bytes \<Rightarrow> pgp_state \<Rightarrow> 'c \<Rightarrow> int \<times> pgp_state \<times> 'c" where
  "openpgp_state_set_name T K data s c =
     (if length data > OPENPGP_NAME_MAX then (- 1, s, c)
      else commit T K (put_at OFF_NAME (data @ replicate (OPENPGP_NAME_MAX - length data) 0)
             ((s_cur s)[OFF_NAME_LEN := of_nat (length data)])) s c)"

definition openpgp_state_set_lang ::
  "'c tropic \<Rightarrow> crypto \<Rightarrow> bytes \<Rightarrow> pgp_state \<Rightarrow> 'c \<Rightarrow> int \<times> pgp_state \<times> 'c" where
  "openpgp_state_set_lang T K data = set_bytes T K OFF_LANG data"

definition openpgp_state_set_sex ::
  "'c tropic \<Rightarrow> crypto \<Rightarrow> u8 \<Rightarrow> pgp_state \<Rightarrow> 'c \<Rightarrow> int \<times> pgp_state \<times> 'c" where
  "openpgp_state_set_sex T K v s c = (if sex_ok v then set_byte T K OFF_SEX v s c else (- 1, s, c))"

definition openpgp_state_set_fingerprint ::
  "'c tropic \<Rightarrow> crypto \<Rightarrow> int \<Rightarrow> bytes \<Rightarrow> pgp_state \<Rightarrow> 'c \<Rightarrow> int \<times> pgp_state \<times> 'c" where
  "openpgp_state_set_fingerprint T K key fpr s c =
     (if \<not> key_ok key then (- 1, s, c) else set_bytes T K (OFF_FPR + nat key * OPENPGP_FPR_LEN) fpr s c)"

definition openpgp_state_set_gentime ::
  "'c tropic \<Rightarrow> crypto \<Rightarrow> int \<Rightarrow> bytes \<Rightarrow> pgp_state \<Rightarrow> 'c \<Rightarrow> int \<times> pgp_state \<times> 'c" where
  "openpgp_state_set_gentime T K key gt s c =
     (if \<not> key_ok key then (- 1, s, c) else set_bytes T K (OFF_GENTIME + nat key * OPENPGP_GENTIME_LEN) gt s c)"

definition count_up :: "bytes \<Rightarrow> bytes" where
  "count_up b =
     (let n = push_bit 16 (ucast (b ! OFF_SIGCNT)) OR push_bit 8 (ucast (b ! (OFF_SIGCNT + 1)))
                OR ucast (b ! (OFF_SIGCNT + 2)) :: u32;
          m = (n + 1) AND 0x00FFFFFF
      in b[OFF_SIGCNT := ucast (drop_bit 16 m), OFF_SIGCNT + 1 := ucast (drop_bit 8 m), OFF_SIGCNT + 2 := ucast m])"

definition openpgp_state_sig_counter_increment ::
  "'c tropic \<Rightarrow> crypto \<Rightarrow> pgp_state \<Rightarrow> 'c \<Rightarrow> int \<times> pgp_state \<times> 'c" where
  "openpgp_state_sig_counter_increment T K s = commit T K (count_up (s_cur s)) s"

definition openpgp_state_dec_set ::
  "'c tropic \<Rightarrow> crypto \<Rightarrow> openpgp_dec_rec \<Rightarrow> pgp_state \<Rightarrow> 'c \<Rightarrow> int \<times> pgp_state \<times> 'c" where
  "openpgp_state_dec_set T K r s c =
     (if all_zero (d_pub r) \<or> all_zero (d_ct r) \<and> all_zero (d_tag r) then (- 1, s, c)
      else commit T K (put_at OFF_DEC_TAG (d_tag r) (put_at OFF_DEC_CT (d_ct r)
             (put_at OFF_DEC_NONCE (d_nonce r) (put_at OFF_DEC_PUB (d_pub r) (s_cur s))))) s c)"

definition openpgp_state_dec_destroy ::
  "'c tropic \<Rightarrow> crypto \<Rightarrow> pgp_state \<Rightarrow> 'c \<Rightarrow> int \<times> pgp_state \<times> 'c" where
  "openpgp_state_dec_destroy T K s c =
     (let fpr = OFF_FPR + OPENPGP_FPR_LEN; gt = OFF_GENTIME + OPENPGP_GENTIME_LEN; cur = s_cur s in
      if \<not> pgp_usable s then (- 1, s, c)
      else if all_zero (field OFF_DEC_PUB (O3_LEN - OFF_DEC_PUB) cur) \<and>
          all_zero (field fpr OPENPGP_FPR_LEN cur) \<and> all_zero (field gt OPENPGP_GENTIME_LEN cur)
      then (0, s, c)
      else commit T K (put_at gt (replicate OPENPGP_GENTIME_LEN 0) (put_at fpr (replicate OPENPGP_FPR_LEN 0)
             (put_at OFF_DEC_PUB (replicate (O3_LEN - OFF_DEC_PUB) 0) cur))) s c)"

definition openpgp_state_test_reboot :: "pgp_state \<Rightarrow> pgp_state" where
  "openpgp_state_test_reboot s = s\<lparr>s_loaded := False, s_cur := replicate O3_LEN 0,
     s_o3 := (s_o3 s)\<lparr>uncertain := False\<rparr>\<rparr>"

section \<open>Fields of a byte list\<close>

lemma all_zero_iff: "all_zero bs \<longleftrightarrow> (\<forall>b \<in> set bs. b = 0)"
proof -
  have "fold (OR) bs a = 0 \<longleftrightarrow> a = 0 \<and> (\<forall>b \<in> set bs. b = 0)" for a :: u8
    by (induction bs arbitrary: a) (auto simp: or_eq_0_iff)
  then show ?thesis by (simp add: all_zero_def)
qed

lemma all_zero_append: "all_zero (a @ b) \<longleftrightarrow> all_zero a \<and> all_zero b"
  by (auto simp: all_zero_iff)

lemma all_zero_replicate [simp]: "all_zero (replicate n 0)"
  by (simp add: all_zero_iff)

lemma all_zero_eq: "all_zero bs \<longleftrightarrow> bs = replicate (length bs) 0"
  by (auto simp: all_zero_iff intro: replicate_eqI dest: arg_cong [where f = set] split: if_splits)

lemma put_at_length [simp]: "off + length v \<le> length b \<Longrightarrow> length (put_at off v b) = length b"
  by (simp add: put_at_def)

lemma field_length [simp]: "off + n \<le> length b \<Longrightarrow> length (field off n b) = n"
  by (simp add: field_def)

lemma nth_put_at:
  "off + length v \<le> length b \<Longrightarrow> i < length b \<Longrightarrow>
    put_at off v b ! i = (if off \<le> i \<and> i < off + length v then v ! (i - off) else b ! i)"
  by (auto simp: put_at_def nth_append)

lemma nth_field: "off + n \<le> length b \<Longrightarrow> i < n \<Longrightarrow> field off n b ! i = b ! (off + i)"
  by (simp add: field_def)

lemma field_put_same: "off + length v \<le> length b \<Longrightarrow> n = length v \<Longrightarrow> field off n (put_at off v b) = v"
  by (simp add: field_def put_at_def)

lemma field_put_other:
  "off + length v \<le> length b \<Longrightarrow> o' + n \<le> length b \<Longrightarrow> o' + n \<le> off \<or> off + length v \<le> o' \<Longrightarrow>
    field o' n (put_at off v b) = field o' n b"
  by (rule nth_equalityI) (auto simp: nth_field nth_put_at)

lemma field_upd_other: "i < off \<or> off + n \<le> i \<Longrightarrow> field off n (b[i := v]) = field off n b"
  by (auto simp: field_def take_update_swap drop_update_swap list_update_beyond)

lemma field_replicate: "a + n \<le> m \<Longrightarrow> field a n (replicate m x) = replicate n x"
  by (simp add: field_def min_def)

lemma field_put_inside:
  "off + length v \<le> length b \<Longrightarrow> off \<le> o' \<Longrightarrow> o' + n \<le> off + length v \<Longrightarrow>
    field o' n (put_at off v b) = field (o' - off) n v"
  by (rule nth_equalityI) (auto simp: nth_field nth_put_at)

lemma field_split: "field off (m + n) b = field off m b @ field (off + m) n b"
  by (simp add: field_def take_add add.commute)

lemma field_field: "o' + n' \<le> n \<Longrightarrow> field o' n' (field off n b) = field (off + o') n' b"
  by (simp add: field_def drop_take min_absorb1 add.commute)

lemmas field_simps' = field_put_same field_put_other field_upd_other nth_put_at

section \<open>The abstract card\<close>

record card =
  c_lc :: u8
  c_rc_set :: u8
  c_c4 :: u8
  c_uif :: u8
  c_name :: bytes
  c_lang :: bytes
  c_sex :: u8
  c_fprs :: "bytes list"
  c_gentimes :: "bytes list"
  c_signatures :: nat
  c_dec :: "openpgp_dec_rec option"

definition sig_word :: "bytes \<Rightarrow> u32" where
  "sig_word b = be32_load 0 (b ! OFF_SIGCNT) (b ! (OFF_SIGCNT + 1)) (b ! (OFF_SIGCNT + 2))"

definition card_of :: "bytes \<Rightarrow> card" where
  "card_of b = \<lparr>c_lc = b ! OFF_LC, c_rc_set = b ! OFF_RC_SET, c_c4 = b ! OFF_C4, c_uif = b ! OFF_UIF,
     c_name = field OFF_NAME (unat (b ! OFF_NAME_LEN)) b, c_lang = field OFF_LANG OPENPGP_LANG_LEN b,
     c_sex = b ! OFF_SEX,
     c_fprs = map (\<lambda>i. field (OFF_FPR + i * OPENPGP_FPR_LEN) OPENPGP_FPR_LEN b) [0, 1, 2],
     c_gentimes = map (\<lambda>i. field (OFF_GENTIME + i * OPENPGP_GENTIME_LEN) OPENPGP_GENTIME_LEN b) [0, 1, 2],
     c_signatures = unat (sig_word b),
     c_dec = (if all_zero (field OFF_DEC_PUB OPENPGP_DEC_PUB_LEN b) then None
       else Some \<lparr>d_pub = field OFF_DEC_PUB OPENPGP_DEC_PUB_LEN b, d_nonce = field OFF_DEC_NONCE OPENPGP_DEC_NONCE_LEN b,
              d_ct = field OFF_DEC_CT OPENPGP_DEC_CT_LEN b, d_tag = field OFF_DEC_TAG OPENPGP_DEC_TAG_LEN b\<rparr>)\<rparr>"

text \<open>The setters as commands, with their arguments; \<open>o3_typed\<close> is what their C types say.\<close>

datatype o3_cmd = SetRc u8 | SetC4 u8 | SetUif u8 | SetName bytes | SetLang bytes | SetSex u8
  | SetFpr int bytes | SetGentime int bytes | CountSignature | SetDec openpgp_dec_rec | DestroyDec

fun o3_typed :: "o3_cmd \<Rightarrow> bool" where
  "o3_typed (SetLang v) = (length v = OPENPGP_LANG_LEN)"
| "o3_typed (SetFpr k v) = (length v = OPENPGP_FPR_LEN)"
| "o3_typed (SetGentime k v) = (length v = OPENPGP_GENTIME_LEN)"
| "o3_typed (SetDec r) = (length (d_pub r) = OPENPGP_DEC_PUB_LEN \<and> length (d_nonce r) = OPENPGP_DEC_NONCE_LEN \<and>
     length (d_ct r) = OPENPGP_DEC_CT_LEN \<and> length (d_tag r) = OPENPGP_DEC_TAG_LEN)"
| "o3_typed _ = True"

fun o3_run :: "'c tropic \<Rightarrow> crypto \<Rightarrow> o3_cmd \<Rightarrow> pgp_state \<Rightarrow> 'c \<Rightarrow> int \<times> pgp_state \<times> 'c" where
  "o3_run T K (SetRc v) = openpgp_state_set_rc_set T K v"
| "o3_run T K (SetC4 v) = openpgp_state_set_c4_multi T K v"
| "o3_run T K (SetUif v) = openpgp_state_set_uif T K v"
| "o3_run T K (SetName v) = openpgp_state_set_name T K v"
| "o3_run T K (SetLang v) = openpgp_state_set_lang T K v"
| "o3_run T K (SetSex v) = openpgp_state_set_sex T K v"
| "o3_run T K (SetFpr k v) = openpgp_state_set_fingerprint T K k v"
| "o3_run T K (SetGentime k v) = openpgp_state_set_gentime T K k v"
| "o3_run T K CountSignature = openpgp_state_sig_counter_increment T K"
| "o3_run T K (SetDec r) = openpgp_state_dec_set T K r"
| "o3_run T K DestroyDec = openpgp_state_dec_destroy T K"

text \<open>What each means on the card, and which ones the card takes.\<close>

fun card_step :: "o3_cmd \<Rightarrow> card \<Rightarrow> card" where
  "card_step (SetRc v) k = k\<lparr>c_rc_set := v\<rparr>"
| "card_step (SetC4 v) k = k\<lparr>c_c4 := v\<rparr>"
| "card_step (SetUif v) k = k\<lparr>c_uif := v\<rparr>"
| "card_step (SetName v) k = k\<lparr>c_name := v\<rparr>"
| "card_step (SetLang v) k = k\<lparr>c_lang := v\<rparr>"
| "card_step (SetSex v) k = k\<lparr>c_sex := v\<rparr>"
| "card_step (SetFpr i v) k = k\<lparr>c_fprs := (c_fprs k)[nat i := v]\<rparr>"
| "card_step (SetGentime i v) k = k\<lparr>c_gentimes := (c_gentimes k)[nat i := v]\<rparr>"
| "card_step CountSignature k = k\<lparr>c_signatures := (c_signatures k + 1) mod 2 ^ 24\<rparr>"
| "card_step (SetDec r) k = k\<lparr>c_dec := Some r\<rparr>"
| "card_step DestroyDec k = k\<lparr>c_dec := None, c_fprs := (c_fprs k)[1 := replicate OPENPGP_FPR_LEN 0],
     c_gentimes := (c_gentimes k)[1 := replicate OPENPGP_GENTIME_LEN 0]\<rparr>"

fun card_takes :: "o3_cmd \<Rightarrow> card \<Rightarrow> bool" where
  "card_takes (SetRc v) k \<longleftrightarrow> v \<le> 1"
| "card_takes (SetC4 v) k \<longleftrightarrow> v \<le> 1"
| "card_takes (SetUif v) k \<longleftrightarrow> v \<le> 2 \<and> (c_uif k = 2 \<longrightarrow> v = 2)"
| "card_takes (SetName v) k \<longleftrightarrow> length v \<le> OPENPGP_NAME_MAX"
| "card_takes (SetSex v) k \<longleftrightarrow> sex_ok v"
| "card_takes (SetFpr i v) k \<longleftrightarrow> key_ok i"
| "card_takes (SetGentime i v) k \<longleftrightarrow> key_ok i"
| "card_takes (SetDec r) k \<longleftrightarrow> \<not> all_zero (d_pub r) \<and> \<not> (all_zero (d_ct r) \<and> all_zero (d_tag r))"
| "card_takes _ k \<longleftrightarrow> True"

text \<open>The record a setter proposes; \<open>None\<close> when there is nothing to write.\<close>

fun o3_next :: "o3_cmd \<Rightarrow> bytes \<Rightarrow> bytes" where
  "o3_next (SetRc v) b = b[OFF_RC_SET := v]"
| "o3_next (SetC4 v) b = b[OFF_C4 := v]"
| "o3_next (SetUif v) b = b[OFF_UIF := v]"
| "o3_next (SetName v) b = put_at OFF_NAME (v @ replicate (OPENPGP_NAME_MAX - length v) 0) (b[OFF_NAME_LEN := of_nat (length v)])"
| "o3_next (SetLang v) b = put_at OFF_LANG v b"
| "o3_next (SetSex v) b = b[OFF_SEX := v]"
| "o3_next (SetFpr i v) b = put_at (OFF_FPR + nat i * OPENPGP_FPR_LEN) v b"
| "o3_next (SetGentime i v) b = put_at (OFF_GENTIME + nat i * OPENPGP_GENTIME_LEN) v b"
| "o3_next CountSignature b = count_up b"
| "o3_next (SetDec r) b = put_at OFF_DEC_TAG (d_tag r) (put_at OFF_DEC_CT (d_ct r)
     (put_at OFF_DEC_NONCE (d_nonce r) (put_at OFF_DEC_PUB (d_pub r) b)))"
| "o3_next DestroyDec b = put_at (OFF_GENTIME + OPENPGP_GENTIME_LEN) (replicate OPENPGP_GENTIME_LEN 0)
     (put_at (OFF_FPR + OPENPGP_FPR_LEN) (replicate OPENPGP_FPR_LEN 0)
     (put_at OFF_DEC_PUB (replicate (O3_LEN - OFF_DEC_PUB) 0) b))"

lemma key_cases: "key_ok i \<Longrightarrow> i = 0 \<or> i = 1 \<or> i = 2"
  by (auto simp: key_ok_def)

lemma next_length:
  "length b = O3_LEN \<Longrightarrow> o3_typed cmd \<Longrightarrow> card_takes cmd (card_of b) \<Longrightarrow> length (o3_next cmd b) = O3_LEN"
  by (cases cmd) (auto simp: o3_layout count_up_def Let_def key_ok_def)

lemma next_head:
  assumes "length b = O3_LEN" and "o3_typed cmd" and "card_takes cmd (card_of b)"
  shows "o3_next cmd b ! OFF_LC = b ! OFF_LC"
  using assms by (cases cmd) (auto simp: o3_layout count_up_def Let_def nth_put_at key_ok_def)

lemma count_word:
  assumes "length b = O3_LEN"
  shows "unat (sig_word (count_up b)) = (unat (sig_word b) + 1) mod 2 ^ 24"
proof -
  let ?n = "sig_word b" and ?m = "(sig_word b + 1) AND 0x00FFFFFF"
  have n: "push_bit 16 (ucast (b ! OFF_SIGCNT)) OR push_bit 8 (ucast (b ! (OFF_SIGCNT + 1)))
      OR ucast (b ! (OFF_SIGCNT + 2)) = ?n"
    by (simp add: sig_word_def be32_load_def)
  have top: "ucast (drop_bit 24 ?m) = (0 :: u8)"
    by (rule bit_word_eqI) (auto simp: bit_simps mask_eq_exp_minus_1 [symmetric] intro: ccontr)
  have "sig_word (count_up b) = be32_load 0 (ucast (drop_bit 16 ?m)) (ucast (drop_bit 8 ?m)) (ucast ?m)"
    using assms n by (simp add: sig_word_def count_up_def Let_def o3_layout)
  also have "\<dots> = ?m" using be32_load_store [of ?m] top by simp
  finally have t: "sig_word (count_up b) = take_bit 24 (?n + 1)" by (simp add: take_bit_eq_mask mask_numeral)
  have "unat (sig_word (count_up b)) = take_bit 24 (unat (?n + 1))" unfolding t by (rule unsigned_take_bit_eq)
  then have "unat (sig_word (count_up b)) = unat (?n + 1) mod 2 ^ 24" by (simp only: take_bit_eq_mod)
  moreover have "unat (?n + 1) mod 2 ^ 24 = (unat ?n + 1) mod 2 ^ 24"
    by (simp add: unat_word_ariths mod_mod_cancel)
  ultimately show ?thesis by simp
qed

text \<open>Every setter's record means what the abstract step says.\<close>

lemmas o3_fields = field_put_same field_put_other field_upd_other nth_put_at

lemma next_card:
  assumes l: "length b = O3_LEN" and t: "o3_typed cmd" and k: "card_takes cmd (card_of b)" and f: "fields_ok b"
  shows "card_of (o3_next cmd b) = card_step cmd (card_of b)"
proof -
  note s = card_of_def sig_word_def o3_layout o3_fields
  have n: "unat (b ! 4) \<le> 39" using f by (simp add: fields_ok_def o3_layout)
  show ?thesis
  proof (cases cmd)
    case (SetName v)
    have "field 5 (length v) (put_at 5 (v @ replicate (39 - length v) 0) (b[4 := of_nat (length v)])) = v"
      using l k SetName by (simp add: field_def put_at_def o3_layout)
    then show ?thesis using l k SetName by (simp add: s unat_of_nat take_bit_nat_eq_self)
  next
    case (SetFpr i v)
    then have "i = 0 \<or> i = 1 \<or> i = 2" using k key_cases by simp
    then show ?thesis using l t SetFpr n by (elim disjE) (simp_all add: s)
  next
    case (SetGentime i v)
    then have "i = 0 \<or> i = 1 \<or> i = 2" using k key_cases by simp
    then show ?thesis using l t SetGentime n by (elim disjE) (simp_all add: s)
  next
    case CountSignature
    have u: "count_up b = b[119 := x, 120 := y, 121 := z]" if "x = count_up b ! 119" "y = count_up b ! 120" "z = count_up b ! 121" for x y z
      using that l by (simp add: count_up_def Let_def o3_layout)
    obtain x y z where e: "count_up b = b[119 := x, 120 := y, 121 := z]" using u by blast
    have "card_of (count_up b) = (card_of b)\<lparr>c_signatures := unat (sig_word (count_up b))\<rparr>"
      unfolding e using l n by (simp add: s)
    then show ?thesis using count_word [OF l] CountSignature by (simp add: card_of_def)
  next
    case (SetDec r)
    then show ?thesis using l t k n by (simp add: s)
  next
    case DestroyDec
    then show ?thesis using l n by (simp add: s field_put_inside field_replicate)
  qed (use l t n in \<open>simp_all add: s\<close>)
qed

lemma fields_iff:
  "fields_ok b \<longleftrightarrow> (b ! 0 = PGP_LC_OPERATIONAL \<or> b ! 0 = PGP_LC_TERMINATED) \<and> b ! 1 \<le> 1 \<and> b ! 2 \<le> 1 \<and>
     b ! 3 \<le> 2 \<and> unat (b ! 4) \<le> 39 \<and> (b ! 0 = PGP_LC_TERMINATED \<or> sex_ok (b ! 46)) \<and>
     (all_zero (field 122 32 b) \<longrightarrow> all_zero (field 154 12 b)) \<and>
     (all_zero (field 122 32 b) \<longleftrightarrow> all_zero (field 166 48 b))"
  unfolding fields_ok_def dec_ok_def Let_def o3_layout by auto

lemma next_fields:
  assumes l: "length b = O3_LEN" and t: "o3_typed cmd" and k: "card_takes cmd (card_of b)" and f: "fields_ok b"
  shows "fields_ok (o3_next cmd b)"
proof -
  note s = fields_iff o3_layout o3_fields
  have n: "unat (b ! 4) \<le> 39" using f by (simp add: fields_iff)
  show ?thesis
  proof (cases cmd)
    case (SetName v)
    then have "unat (of_nat (length v) :: u8) \<le> 39" using k by (simp add: o3_layout)
    then show ?thesis using l k f SetName by (simp add: s)
  next
    case (SetFpr i v)
    then have "i = 0 \<or> i = 1 \<or> i = 2" using k key_cases by simp
    then show ?thesis using l t SetFpr f by (elim disjE) (simp_all add: s)
  next
    case (SetGentime i v)
    then have "i = 0 \<or> i = 1 \<or> i = 2" using k key_cases by simp
    then show ?thesis using l t SetGentime f by (elim disjE) (simp_all add: s)
  next
    case (SetDec r)
    have sp: "field 166 48 x = field 166 32 x @ field 198 16 x" for x using field_split [of 166 32 16 x] by simp
    show ?thesis using SetDec l t k f unfolding s by (simp add: s sp all_zero_append)
  next
    case DestroyDec
    then show ?thesis using l f by (simp add: s field_put_inside field_replicate)
  qed (use l t f k in \<open>simp_all add: s card_of_def count_up_def Let_def\<close>)
qed

text \<open>Each setter refuses, has nothing to do, or commits that record.\<close>

lemma run_cases:
  assumes "o3_run T K cmd s c = (rc, s', c')"
  obtains (refused) "s' = s" "c' = c" "rc \<noteq> 0"
    | (blank) "s' = s" "c' = c" "cmd = DestroyDec" "pgp_usable s"
        "all_zero (field OFF_DEC_PUB (O3_LEN - OFF_DEC_PUB) (s_cur s))"
        "all_zero (field (OFF_FPR + OPENPGP_FPR_LEN) OPENPGP_FPR_LEN (s_cur s))"
        "all_zero (field (OFF_GENTIME + OPENPGP_GENTIME_LEN) OPENPGP_GENTIME_LEN (s_cur s))"
    | (committed) "commit T K (o3_next cmd (s_cur s)) s c = (rc, s', c')"
        "pgp_usable s \<Longrightarrow> card_takes cmd (card_of (s_cur s))"
proof (cases cmd)
  case (SetUif v)
  then show ?thesis using assms refused committed
    by (auto simp: openpgp_state_set_uif_def set_byte_def card_of_def split: if_splits)
next
  case DestroyDec
  let ?blank = "all_zero (field OFF_DEC_PUB (O3_LEN - OFF_DEC_PUB) (s_cur s)) \<and>
      all_zero (field (OFF_FPR + OPENPGP_FPR_LEN) OPENPGP_FPR_LEN (s_cur s)) \<and>
      all_zero (field (OFF_GENTIME + OPENPGP_GENTIME_LEN) OPENPGP_GENTIME_LEN (s_cur s))"
  consider "\<not> pgp_usable s" | "pgp_usable s" "?blank" | "pgp_usable s" "\<not> ?blank" by blast
  then show ?thesis
  proof cases
    case 1
    show ?thesis by (rule refused) (use 1 assms DestroyDec in \<open>simp_all add: openpgp_state_dec_destroy_def Let_def\<close>)
  next
    case 2
    show ?thesis by (rule blank) (use 2 assms DestroyDec in \<open>simp_all add: openpgp_state_dec_destroy_def Let_def\<close>)
  next
    case 3
    show ?thesis by (rule committed) (use 3 assms DestroyDec in \<open>auto simp: openpgp_state_dec_destroy_def Let_def\<close>)
  qed
qed (use assms refused committed in \<open>auto simp: openpgp_state_set_rc_set_def openpgp_state_set_c4_multi_def set_byte_def
  openpgp_state_set_name_def openpgp_state_set_lang_def set_bytes_def openpgp_state_set_sex_def
  openpgp_state_set_fingerprint_def openpgp_state_set_gentime_def openpgp_state_sig_counter_increment_def
  openpgp_state_dec_set_def split: if_splits\<close>)

section \<open>The RAM copy and the chip\<close>

definition o3_ok ::
  "'c tropic \<Rightarrow> crypto \<Rightarrow> ('c \<Rightarrow> bool) \<Rightarrow> ('c \<Rightarrow> nat \<Rightarrow> bytes) \<Rightarrow> pgp_state \<Rightarrow> 'c \<Rightarrow> bool" where
  "o3_ok T K I view s c \<longleftrightarrow> pair_ok T K I view (s_o3 s, c) \<and>
     (pgp_usable s \<longrightarrow> length (s_cur s) = O3_LEN \<and> fields_ok (s_cur s) \<and>
       pair_content K view (s_o3 s, c) = Some (s_cur s))"

lemma defaults_length [simp]: "length (defaults lc) = O3_LEN"
  by (simp add: defaults_def Let_def)

lemma defaults_fields: "lc = PGP_LC_OPERATIONAL \<or> lc = PGP_LC_TERMINATED \<Longrightarrow> fields_ok (defaults lc)"
  by (auto simp: fields_iff defaults_def Let_def o3_layout pgp_lcs sex_ok_def SEX_NA_def
      field_upd_other field_replicate nth_list_update)

text \<open>One write of the pair, with the RAM copy following it.\<close>

lemma write_follows:
  assumes ok: "o3_ok T K I view s c" and u: "pgp_usable s"
    and w: "rec_pair_write T K nxt (s_o3 s) c = (st, p, c')"
    and n: "length nxt = O3_LEN" "fields_ok nxt"
  shows "o3_ok T K I view (if st = REC_OK then s\<lparr>s_o3 := p, s_cur := nxt\<rparr> else s\<lparr>s_o3 := p\<rparr>) c'"
    and "st = REC_OK \<Longrightarrow> \<not> uncertain p"
proof -
  have po: "pair_ok T K I view (s_o3 s, c)" and pc: "pair_content K view (s_o3 s, c) = Some (s_cur s)"
    and cur: "length (s_cur s) = O3_LEN" "fields_ok (s_cur s)"
    using ok u by (simp_all add: o3_ok_def)
  have w2: "(\<lambda>(p, c). rec_pair_write T K nxt p c) (s_o3 s, c) = (st, p, c')" using w by simp
  have inv: "pair_ok T K I view (p, c')" by (rule pair.wr_inv [OF po w2])
  have cache: "\<not> uncertain p \<Longrightarrow> pair_content K view (p, c') = Some (if st = REC_OK then nxt else s_cur s)"
    using pair_cached.cache_after_write [OF po pc w2] by simp
  show "o3_ok T K I view (if st = REC_OK then s\<lparr>s_o3 := p, s_cur := nxt\<rparr> else s\<lparr>s_o3 := p\<rparr>) c'"
    using inv cache n cur by (auto simp: o3_ok_def pgp_usable_def)
  show "\<not> uncertain p" if "st = REC_OK"
    using rmem_chip.write_spec(4) [of T I view c "s_o3 s" K nxt st p c'] po w u that
    by (auto simp: pair_ok_def pgp_usable_def)
qed

lemma commit_ok:
  assumes "o3_ok T K I view s c" and "commit T K nxt s c = (rc, s', c')"
    and "pgp_usable s \<Longrightarrow> length nxt = O3_LEN \<and> fields_ok nxt"
  shows "o3_ok T K I view s' c'"
    and "rc = 0 \<Longrightarrow> pgp_usable s \<and> s_cur s ! OFF_LC = PGP_LC_OPERATIONAL \<and> pgp_usable s' \<and> s_cur s' = nxt"
    and "rc \<noteq> 0 \<Longrightarrow> rc = - 1 \<and> s_cur s' = s_cur s \<and> (pgp_usable s' \<longrightarrow> pgp_usable s)"
proof -
  obtain st p c1 where w: "rec_pair_write T K nxt (s_o3 s) c = (st, p, c1)" by (metis prod_cases3)
  note f = write_follows [OF assms(1) _ w]
  have "o3_ok T K I view s' c' \<and>
    (rc = 0 \<longrightarrow> pgp_usable s \<and> s_cur s ! OFF_LC = PGP_LC_OPERATIONAL \<and> pgp_usable s' \<and> s_cur s' = nxt) \<and>
    (rc \<noteq> 0 \<longrightarrow> rc = - 1 \<and> s_cur s' = s_cur s \<and> (pgp_usable s' \<longrightarrow> pgp_usable s))"
  proof (cases "pgp_usable s \<and> s_cur s ! OFF_LC = PGP_LC_OPERATIONAL")
    case True
    then show ?thesis
      using assms(2,3) f by (auto simp: commit_def w pgp_usable_def split: if_splits)
  next
    case False
    then show ?thesis using assms by (auto simp: commit_def)
  qed
  then show "o3_ok T K I view s' c'"
    and "rc = 0 \<Longrightarrow> pgp_usable s \<and> s_cur s ! OFF_LC = PGP_LC_OPERATIONAL \<and> pgp_usable s' \<and> s_cur s' = nxt"
    and "rc \<noteq> 0 \<Longrightarrow> rc = - 1 \<and> s_cur s' = s_cur s \<and> (pgp_usable s' \<longrightarrow> pgp_usable s)"
    by blast+
qed

text \<open>So every setter, whatever it answers.\<close>

lemma blank_step:
  assumes l: "length b = O3_LEN" and f: "fields_ok b"
    and z: "all_zero (field OFF_DEC_PUB (O3_LEN - OFF_DEC_PUB) b)"
      "all_zero (field (OFF_FPR + OPENPGP_FPR_LEN) OPENPGP_FPR_LEN b)"
      "all_zero (field (OFF_GENTIME + OPENPGP_GENTIME_LEN) OPENPGP_GENTIME_LEN b)"
  shows "card_step DestroyDec (card_of b) = card_of b"
proof -
  have "field 122 32 b = field 0 32 (field 122 92 b)" by (simp add: field_field)
  moreover have "field 122 92 b = replicate 92 0" using z(1) l by (simp add: o3_layout all_zero_eq)
  ultimately have "all_zero (field 122 32 b)" by (simp add: field_replicate)
  moreover have "field 67 20 b = replicate 20 0" "field 111 4 b = replicate 4 0"
    using z(2,3) l by (simp_all add: o3_layout all_zero_eq)
  ultimately show ?thesis by (simp add: card_of_def o3_layout)
qed

lemma run_ok:
  assumes ok: "o3_ok T K I view s c" and t: "o3_typed cmd" and r: "o3_run T K cmd s c = (rc, s', c')"
  shows "o3_ok T K I view s' c'"
    and "rc = 0 \<Longrightarrow> pgp_usable s \<and> card_takes cmd (card_of (s_cur s)) \<and> pgp_usable s' \<and>
      card_of (s_cur s') = card_step cmd (card_of (s_cur s))"
    and "rc \<noteq> 0 \<Longrightarrow> s_cur s' = s_cur s \<and> (pgp_usable s' \<longrightarrow> pgp_usable s)"
proof -
  have cur: "pgp_usable s \<Longrightarrow> length (s_cur s) = O3_LEN \<and> fields_ok (s_cur s)" using ok by (simp add: o3_ok_def)
  have "o3_ok T K I view s' c' \<and>
    (rc = 0 \<longrightarrow> pgp_usable s \<and> card_takes cmd (card_of (s_cur s)) \<and> pgp_usable s' \<and>
      card_of (s_cur s') = card_step cmd (card_of (s_cur s))) \<and>
    (rc \<noteq> 0 \<longrightarrow> s_cur s' = s_cur s \<and> (pgp_usable s' \<longrightarrow> pgp_usable s))"
    using r
  proof (cases rule: run_cases)
    case refused
    then show ?thesis using ok by simp
  next
    case blank
    then have "card_step cmd (card_of (s_cur s)) = card_of (s_cur s)" using cur blank_step by blast
    moreover have "card_takes cmd (card_of (s_cur s))" unfolding blank(3) by simp
    ultimately show ?thesis unfolding blank(1,2) using blank(4) ok by argo
  next
    case committed
    have n: "pgp_usable s \<Longrightarrow> length (o3_next cmd (s_cur s)) = O3_LEN \<and> fields_ok (o3_next cmd (s_cur s))"
      using committed(2) cur t next_length next_fields by blast
    note k = commit_ok [OF ok committed(1) n]
    show ?thesis
    proof (cases "rc = 0")
      case True
      then have u: "pgp_usable s" "pgp_usable s'" "s_cur s' = o3_next cmd (s_cur s)" using k(2) by blast+
      then show ?thesis using k(1) True committed(2) cur next_card [OF _ t] by simp
    next
      case False
      then show ?thesis using k(1,3) by blast
    qed
  qed
  then show "o3_ok T K I view s' c'"
    and "rc = 0 \<Longrightarrow> pgp_usable s \<and> card_takes cmd (card_of (s_cur s)) \<and> pgp_usable s' \<and>
      card_of (s_cur s') = card_step cmd (card_of (s_cur s))"
    and "rc \<noteq> 0 \<Longrightarrow> s_cur s' = s_cur s \<and> (pgp_usable s' \<longrightarrow> pgp_usable s)"
    by blast+
qed

text \<open>And the operations on the whole record.\<close>

lemma pair_ok_mark [simp]: "pair_ok T K I view (p\<lparr>uncertain := u\<rparr>, c) = pair_ok T K I view (p, c)"
  by (simp add: pair_ok_def)

lemma pair_content_mark [simp]: "pair_content K view (p\<lparr>uncertain := u\<rparr>, c) = pair_content K view (p, c)"
  by (auto simp: pair_content_def Let_def)

lemma load_ok:
  assumes ok: "pair_ok T K I view (s_o3 s, c)" and r: "openpgp_state_load T K s c = (rc, s', c')"
  shows "o3_ok T K I view s' c'"
    and "rc = 0 \<Longrightarrow> s_loaded s'" and "rc \<noteq> 0 \<Longrightarrow> \<not> s_loaded s'"
    and "rc = 1 \<Longrightarrow> view c (slot_a (s_o3 s)) = [] \<and> view c (slot_b (s_o3 s)) = []"
proof -
  obtain st res p c1 where rd: "rec_pair_read T K (Some REC_PAYLOAD_MAX) (s_o3 s) c = (st, res, p, c1)"
    by (metis prod_cases4)
  have rd2: "(\<lambda>n (p, c). rec_pair_read T K n p c) (Some REC_PAYLOAD_MAX) (s_o3 s, c) = (st, res, p, c1)"
    using rd by simp
  have po: "pair_ok T K I view (p, c1)" by (rule pair.rd_inv [OF ok rd2])
  have ct: "\<exists>pl g. res = Some (pl, g) \<and> pair_content K view (p, c1) = Some pl" if "st = REC_OK"
    using pair.rd_content [OF ok] rd2 that by simp
  have ab: "view c (slot_a (s_o3 s)) = [] \<and> view c (slot_b (s_o3 s)) = []" if "st = REC_ABSENT"
    using rmem_chip.absent_read [of T I view c K] ok rd that by (auto simp: pair_ok_def)
  show "o3_ok T K I view s' c'"
    and "rc = 0 \<Longrightarrow> s_loaded s'" and "rc \<noteq> 0 \<Longrightarrow> \<not> s_loaded s'"
    and "rc = 1 \<Longrightarrow> view c (slot_a (s_o3 s)) = [] \<and> view c (slot_b (s_o3 s)) = []"
    using r po ct ab
    by (auto simp: openpgp_state_load_def rd Let_def o3_ok_def pgp_usable_def
        split: if_splits rec_status.splits option.splits)
qed

lemma clear_ok:
  assumes ok: "pair_ok T K I view (s_o3 s, c)" and r: "openpgp_state_clear T s c = (rc, s', c')"
  shows "o3_ok T K I view s' c'" and "\<not> s_loaded s'"
    and "rc = 0 \<Longrightarrow> view c' (slot_a (s_o3 s)) = [] \<and> view c' (slot_b (s_o3 s)) = []"
proof -
  let ?p = "(s_o3 s)\<lparr>uncertain := False\<rparr>"
  obtain st p c1 where cl: "rec_pair_clear T ?p c = (st, p, c1)" by (metis prod_cases3)
  have po: "pair_ok T K I view (p, c1)"
    using pair.clr_inv [of T K I view "(?p, c)" st "(p, c1)"] ok cl by simp
  have bl: "st = REC_OK \<Longrightarrow> view c1 (slot_a (s_o3 s)) = [] \<and> view c1 (slot_b (s_o3 s)) = []"
    using rmem_chip.clear_spec(4) [of T I view c ?p st p c1] ok cl by (simp add: pair_ok_def)
  show "o3_ok T K I view s' c'" and "\<not> s_loaded s'"
    and "rc = 0 \<Longrightarrow> view c' (slot_a (s_o3 s)) = [] \<and> view c' (slot_b (s_o3 s)) = []"
    using r po bl by (auto simp: openpgp_state_clear_def cl o3_ok_def pgp_usable_def split: if_splits)
qed

lemma init_ok:
  assumes ok: "pair_ok T K I view (s_o3 s, c)" and lc: "lc \<le> 2"
    and r: "openpgp_state_init T K lc s c = (rc, s', c')"
  shows "o3_ok T K I view s' c'"
    and "rc = 0 \<Longrightarrow> pgp_usable s' \<and> s_cur s' = defaults lc" and "rc \<noteq> 0 \<Longrightarrow> \<not> s_loaded s'"
proof -
  let ?p = "(s_o3 s)\<lparr>uncertain := False\<rparr>"
  obtain st p c1 where ini: "rec_pair_init T K (defaults lc) ?p c = (st, p, c1)" by (metis prod_cases3)
  have ini2: "(\<lambda>pl (p, c). rec_pair_init T K pl p c) (defaults lc) (?p, c) = (st, p, c1)" using ini by simp
  have ok': "pair_ok T K I view (?p, c)" using ok by simp
  have po: "pair_ok T K I view (p, c1)" by (rule pair.ini_inv [OF ok' ini2])
  have ct: "st = REC_OK \<Longrightarrow> pair_content K view (p, c1) = Some (defaults lc)"
    using pair.ini_content [OF ok'] ini2 by simp
  have un: "st = REC_OK \<Longrightarrow> \<not> uncertain p"
    using rmem_chip.init_spec(4) [of T I view c ?p K "defaults lc" st p c1] ok ini by (simp add: pair_ok_def)
  have "lc = PGP_LC_ERROR \<or> lc = PGP_LC_OPERATIONAL \<or> lc = PGP_LC_TERMINATED"
  proof -
    have "unat lc = 0 \<or> unat lc = 1 \<or> unat lc = 2" using lc by (auto simp: word_le_nat_alt)
    then show ?thesis by (auto simp: pgp_lcs word_unat_eq_iff)
  qed
  then have fi: "lc \<noteq> PGP_LC_ERROR \<Longrightarrow> fields_ok (defaults lc)" using defaults_fields by blast
  show "o3_ok T K I view s' c'"
    and "rc = 0 \<Longrightarrow> pgp_usable s' \<and> s_cur s' = defaults lc" and "rc \<noteq> 0 \<Longrightarrow> \<not> s_loaded s'"
    using r po ct un fi ok
    by (auto simp: openpgp_state_init_def Let_def ini o3_ok_def pgp_usable_def split: if_splits)
qed

lemma activate_ok:
  assumes ok: "o3_ok T K I view s c" and r: "openpgp_state_activate T K s c = (rc, s', c')"
  shows "o3_ok T K I view s' c'"
    and "rc = 0 \<Longrightarrow> pgp_usable s \<and> s_cur s ! OFF_LC = PGP_LC_TERMINATED \<and> pgp_usable s' \<and>
      s_cur s' = defaults PGP_LC_OPERATIONAL"
    and "rc \<noteq> 0 \<Longrightarrow> s_cur s' = s_cur s \<and> (pgp_usable s' \<longrightarrow> pgp_usable s)"
proof -
  obtain st p c1 where w: "rec_pair_write T K (defaults PGP_LC_OPERATIONAL) (s_o3 s) c = (st, p, c1)"
    by (metis prod_cases3)
  have d: "fields_ok (defaults PGP_LC_OPERATIONAL)" by (rule defaults_fields) simp
  note f = write_follows [OF ok _ w defaults_length d]
  have "o3_ok T K I view s' c' \<and>
    (rc = 0 \<longrightarrow> pgp_usable s \<and> s_cur s ! OFF_LC = PGP_LC_TERMINATED \<and> pgp_usable s' \<and>
      s_cur s' = defaults PGP_LC_OPERATIONAL) \<and>
    (rc \<noteq> 0 \<longrightarrow> s_cur s' = s_cur s \<and> (pgp_usable s' \<longrightarrow> pgp_usable s))"
    using r f ok by (auto simp: openpgp_state_activate_def w pgp_usable_def split: if_splits)
  then show "o3_ok T K I view s' c'"
    and "rc = 0 \<Longrightarrow> pgp_usable s \<and> s_cur s ! OFF_LC = PGP_LC_TERMINATED \<and> pgp_usable s' \<and>
      s_cur s' = defaults PGP_LC_OPERATIONAL"
    and "rc \<noteq> 0 \<Longrightarrow> s_cur s' = s_cur s \<and> (pgp_usable s' \<longrightarrow> pgp_usable s)"
    by blast+
qed

section \<open>Sequences of operations\<close>

text \<open>What a session does to the state, with power cycles; \<open>Reboot f\<close> is one whose effect on
  the chip is \<open>f\<close>.\<close>

datatype 'c o3_op = Setter o3_cmd | Load | Activate | Clear | Init u8 | Reboot "'c \<Rightarrow> 'c"

fun o3_do :: "'c tropic \<Rightarrow> crypto \<Rightarrow> 'c o3_op \<Rightarrow> pgp_state \<times> 'c \<Rightarrow> pgp_state \<times> 'c" where
  "o3_do T K (Setter cmd) (s, c) = snd (o3_run T K cmd s c)"
| "o3_do T K Load (s, c) = snd (openpgp_state_load T K s c)"
| "o3_do T K Activate (s, c) = snd (openpgp_state_activate T K s c)"
| "o3_do T K Clear (s, c) = snd (openpgp_state_clear T s c)"
| "o3_do T K (Init lc) (s, c) = snd (openpgp_state_init T K lc s c)"
| "o3_do T K (Reboot f) (s, c) = (openpgp_state_test_reboot s, f c)"

fun op_typed :: "('c \<Rightarrow> bool) \<Rightarrow> ('c \<Rightarrow> nat \<Rightarrow> bytes) \<Rightarrow> 'c o3_op \<Rightarrow> bool" where
  "op_typed I view (Setter cmd) = o3_typed cmd"
| "op_typed I view (Init lc) = (lc \<le> 2)"
| "op_typed I view (Reboot f) = power_cycle I view f"
| "op_typed I view _ = True"

lemma o3_pair: "o3_ok T K I view s c \<Longrightarrow> pair_ok T K I view (s_o3 s, c)"
  by (simp add: o3_ok_def)

lemma do_ok:
  assumes "o3_ok T K I view s c" and "op_typed I view op" and "o3_do T K op (s, c) = (s', c')"
  shows "o3_ok T K I view s' c'"
proof (cases op)
  case (Setter cmd)
  obtain rc where "o3_run T K cmd s c = (rc, s', c')" using assms(3) Setter by (metis o3_do.simps(1) prod.collapse)
  then show ?thesis using run_ok(1) assms(1,2) Setter by simp
next
  case Load
  obtain rc where "openpgp_state_load T K s c = (rc, s', c')" using assms(3) Load by (metis o3_do.simps(2) prod.collapse)
  then show ?thesis by (rule load_ok(1) [OF o3_pair [OF assms(1)]])
next
  case Activate
  obtain rc where "openpgp_state_activate T K s c = (rc, s', c')"
    using assms(3) Activate by (metis o3_do.simps(3) prod.collapse)
  then show ?thesis by (rule activate_ok(1) [OF assms(1)])
next
  case Clear
  obtain rc where "openpgp_state_clear T s c = (rc, s', c')" using assms(3) Clear by (metis o3_do.simps(4) prod.collapse)
  then show ?thesis by (rule clear_ok(1) [OF o3_pair [OF assms(1)]])
next
  case (Init lc)
  obtain rc where "openpgp_state_init T K lc s c = (rc, s', c')"
    using assms(3) Init by (metis o3_do.simps(5) prod.collapse)
  then show ?thesis using init_ok(1) [OF o3_pair [OF assms(1)]] assms(2) Init by simp
next
  case (Reboot f)
  then show ?thesis using assms
    by (auto simp: o3_ok_def openpgp_state_test_reboot_def pgp_usable_def pair_ok_def power_cycle_def)
qed

lemma fold_ok:
  assumes "o3_ok T K I view s c" and "\<forall>op \<in> set ops. op_typed I view op"
    and "fold (o3_do T K) ops (s, c) = (s', c')"
  shows "o3_ok T K I view s' c'"
  using assms
proof (induction ops arbitrary: s c)
  case (Cons op ops)
  obtain s1 c1 where o: "o3_do T K op (s, c) = (s1, c1)" by fastforce
  then have "o3_ok T K I view s1 c1" using do_ok Cons.prems(1,2) by fastforce
  then show ?case using Cons.IH [of s1 c1] Cons.prems(2,3) o by simp
qed simp

end
