(* ===== verification/Openpgp_Card.thy ===== *)
theory Openpgp_Card
  imports Openpgp_State
begin

text \<open>
  What the OpenPGP state promises its callers, over the operations of \<^verbatim>\<open>Openpgp_State\<close>: the
  getters show a card, a setter that succeeds performs its abstract step on it and one that
  fails leaves it (or the state says that it does not know), a working chip carries out
  every command the card takes, and the permanent touch policy stays through setters,
  failures, power cuts and reboots.
\<close>

section \<open>The card the getters show\<close>

definition presents :: "pgp_state \<Rightarrow> card \<Rightarrow> bool" where
  "presents s k \<longleftrightarrow> openpgp_state_lifecycle s = c_lc k \<and> openpgp_state_rc_set s = c_rc_set k \<and>
     openpgp_state_c4_multi s = c_c4 k \<and> openpgp_state_uif s = c_uif k \<and> openpgp_state_name s = c_name k \<and>
     openpgp_state_lang s = c_lang k \<and> openpgp_state_sex s = c_sex k \<and>
     map (\<lambda>i. openpgp_state_fingerprint i s) [0, 1, 2] = c_fprs k \<and>
     map (\<lambda>i. openpgp_state_gentime i s) [0, 1, 2] = c_gentimes k \<and>
     (let n = openpgp_state_sig_counter s in unat (be32_load 0 (n ! 0) (n ! 1) (n ! 2))) = c_signatures k \<and>
     openpgp_state_dec_get s = c_dec k"

lemma presents_cur:
  assumes "pgp_usable s" and "length (s_cur s) = O3_LEN"
  shows "presents s k \<longleftrightarrow> k = card_of (s_cur s)"
proof -
  have n: "field 119 3 (s_cur s) ! 0 = s_cur s ! 119" "field 119 3 (s_cur s) ! Suc 0 = s_cur s ! 120"
    "field 119 3 (s_cur s) ! 2 = s_cur s ! 121"
    using assms(2) by (simp_all add: nth_field o3_layout)
  have "presents s (card_of (s_cur s))"
    using assms(1) n
    by (simp add: presents_def card_of_def openpgp_state_lifecycle_def openpgp_state_rc_set_def
        openpgp_state_c4_multi_def openpgp_state_uif_def openpgp_state_name_def openpgp_state_lang_def
        openpgp_state_sex_def openpgp_state_fingerprint_def openpgp_state_gentime_def openpgp_state_sig_counter_def
        openpgp_state_dec_get_def byte_at_def copy_out_def key_ok_def sig_word_def o3_layout Let_def)
  moreover have "k = k'" if "presents s k" "presents s k'" for k'
    using that by (intro card.equality) (auto simp: presents_def)
  ultimately show ?thesis by blast
qed

lemma unusable_shows: "\<not> pgp_usable s \<Longrightarrow> openpgp_state_lifecycle s = PGP_LC_ERROR \<and> openpgp_state_uif s = 1"
  by (simp add: openpgp_state_lifecycle_def openpgp_state_uif_def)

lemma cur_facts:
  "o3_ok T K I view s c \<Longrightarrow> pgp_usable s \<Longrightarrow> length (s_cur s) = O3_LEN \<and> fields_ok (s_cur s) \<and>
     pair_content K view (s_o3 s, c) = Some (s_cur s)"
  by (simp add: o3_ok_def)

lemma run_operational:
  assumes "o3_run T K cmd s c = (0, s', c')"
  shows "s_cur s ! OFF_LC = PGP_LC_OPERATIONAL \<or> s' = s"
  using assms by (cases rule: run_cases) (auto simp: commit_def split: if_splits prod.splits)

section \<open>On a chip that works\<close>

lemma run_taken:
  assumes "pgp_usable s" and "card_takes cmd (card_of (s_cur s))"
  shows "o3_run T K cmd s c = commit T K (o3_next cmd (s_cur s)) s c \<or> o3_run T K cmd s c = (0, s, c)"
  using assms
  by (cases cmd) (auto simp: openpgp_state_set_rc_set_def openpgp_state_set_c4_multi_def set_byte_def
    openpgp_state_set_uif_def openpgp_state_set_name_def openpgp_state_set_lang_def set_bytes_def
    openpgp_state_set_sex_def openpgp_state_set_fingerprint_def openpgp_state_set_gentime_def
    openpgp_state_sig_counter_increment_def openpgp_state_dec_set_def openpgp_state_dec_destroy_def
    card_of_def Let_def)

context live_rmem
begin

lemma run_live:
  assumes g: "good c" and ok: "o3_ok T K inv view s c" and u: "pgp_usable s"
    and sl: "slot_a (s_o3 s) < 512" "slot_b (s_o3 s) < 512"
    and gen: "gen_of (view c (slot_a (s_o3 s))) \<noteq> - 1"
    and lc: "s_cur s ! OFF_LC = PGP_LC_OPERATIONAL"
    and t: "o3_typed cmd" and k: "card_takes cmd (card_of (s_cur s))"
  obtains s' c' where "o3_run T K cmd s c = (0, s', c')" and "good c'"
proof -
  let ?p = "s_o3 s" and ?r = "view c (slot_a (s_o3 s))" and ?n = "o3_next cmd (s_cur s)"
  note cf = cur_facts [OF ok u]
  have ck: "crypto_ok K" and ne: "slot_a ?p \<noteq> slot_b ?p" using ok by (simp_all add: o3_ok_def pair_ok_def)
  from cf have pc: "pair_content K view (?p, c) = Some (s_cur s)" by simp
  have v: "valid K ?p ?r" and b: "view c (slot_b ?p) = ?r" and pl: "s_cur s = payload_of ?r"
    using pc by (auto elim: pair_contentE)
  have rest: "at_rest K view ?p (gen_of ?r) (s_cur s) c"
    using b pl valid_is_encode [OF v] by (simp add: at_rest_def)
  have ba: "\<not> bad_args (s_cur s)" "\<not> bad_args ?n"
    using cf next_length [OF _ t k] by (simp_all add: bad_args_def rec_consts o3_layout)
  have pu: "pair_usable ?p" using sl ne u by (simp add: pair_usable_def pgp_usable_def)
  obtain c' where w: "rec_pair_write T K ?n ?p c = (REC_OK, ?p, c')" and g': "good c'"
    by (rule rest_write [OF g ck pu rest valid_gen [OF v] gen ba])
  have "commit T K ?n s c = (0, s\<lparr>s_o3 := ?p, s_cur := ?n\<rparr>, c')" using u lc by (simp add: commit_def w)
  then show thesis using run_taken [OF u k, of T K c] that g g' by metis
qed

end

section \<open>The permanent touch policy\<close>

definition uif_locked :: "bytes \<Rightarrow> bool" where
  "uif_locked b \<longleftrightarrow> length b = O3_LEN \<and> fields_ok b \<and> b ! OFF_LC = PGP_LC_OPERATIONAL \<and> b ! OFF_UIF = 2"

text \<open>Not only the RAM copy: whatever a later boot may read from the chip is locked.\<close>

definition card_locked ::
  "'c tropic \<Rightarrow> crypto \<Rightarrow> ('c \<Rightarrow> bool) \<Rightarrow> ('c \<Rightarrow> nat \<Rightarrow> bytes) \<Rightarrow> pgp_state \<Rightarrow> 'c \<Rightarrow> bool" where
  "card_locked T K I view s c \<longleftrightarrow> torn_chip T I view K \<and> o3_ok T K I view s c \<and>
     pair_may K view uif_locked (s_o3 s, c) \<and> (pgp_usable s \<longrightarrow> uif_locked (s_cur s))"

lemma locked_safe: "card_locked T K I view s c \<Longrightarrow> pair_safe T K I view (s_o3 s, c)"
  by (simp add: card_locked_def pair_safe_def o3_ok_def)

fun destroys :: "'c o3_op \<Rightarrow> bool" where
  "destroys Clear = True"
| "destroys (Init lc) = True"
| "destroys _ = False"

lemma next_locked:
  assumes "uif_locked b" and "o3_typed cmd" and "card_takes cmd (card_of b)"
  shows "uif_locked (o3_next cmd b)"
proof -
  have l: "length b = O3_LEN" and f: "fields_ok b" and u: "b ! OFF_LC = PGP_LC_OPERATIONAL" "b ! OFF_UIF = 2"
    using assms(1) by (simp_all add: uif_locked_def)
  have "c_uif (card_step cmd (card_of b)) = 2" using assms(3) u by (cases cmd) (simp_all add: card_of_def)
  then have "o3_next cmd b ! OFF_UIF = 2"
    unfolding next_card [OF l assms(2,3) f, symmetric] by (simp add: card_of_def)
  then show ?thesis
    using next_length [OF l assms(2,3)] next_fields [OF l assms(2,3) f] next_head [OF l assms(2,3)] u
    by (simp add: uif_locked_def)
qed

lemma commit_locked:
  assumes lk: "card_locked T K I view s c" and r: "commit T K nxt s c = (rc, s', c')"
    and n: "pgp_usable s \<Longrightarrow> uif_locked nxt"
  shows "card_locked T K I view s' c'"
proof (cases "pgp_usable s \<and> s_cur s ! OFF_LC = PGP_LC_OPERATIONAL")
  case False
  then show ?thesis using lk r by (auto simp: commit_def)
next
  case True
  have ok: "o3_ok T K I view s c" and cur: "uif_locked (s_cur s)"
    using lk True by (simp_all add: card_locked_def)
  have ok': "o3_ok T K I view s' c'"
    by (rule commit_ok(1) [OF ok r]) (use n in \<open>simp add: uif_locked_def\<close>)
  obtain st p c1 where w: "rec_pair_write T K nxt (s_o3 s) c = (st, p, c1)" by (metis prod_cases3)
  have m: "pair_may K view uif_locked (p, c1)"
    using pair_crash.may_wr [OF locked_safe [OF lk], of uif_locked nxt st "(p, c1)"] lk n True w
    by (simp add: card_locked_def)
  have "s_o3 s' = p \<and> c' = c1 \<and> s_cur s' \<in> {nxt, s_cur s}"
    using r True by (auto simp: commit_def w split: if_splits)
  then show ?thesis using lk ok' m n True cur by (auto simp: card_locked_def)
qed

lemma load_locked:
  assumes lk: "card_locked T K I view s c" and r: "openpgp_state_load T K s c = (rc, s', c')"
  shows "card_locked T K I view s' c'"
proof -
  obtain st res p c1 where rd: "rec_pair_read T K (Some REC_PAYLOAD_MAX) (s_o3 s) c = (st, res, p, c1)"
    by (metis prod_cases4)
  have rd2: "(\<lambda>n (p, c). rec_pair_read T K n p c) (Some REC_PAYLOAD_MAX) (s_o3 s, c) = (st, res, p, c1)"
    using rd by simp
  have may: "pair_may K view uif_locked (s_o3 s, c)" using lk by (simp add: card_locked_def)
  have m: "pair_may K view uif_locked (p, c1)" by (rule pair_crash.may_rd [OF locked_safe [OF lk] may rd2])
  have P: "uif_locked pl" if "st = REC_OK" "res = Some (pl, g)" for pl g
    using pair_crash.may_rd_ok [OF locked_safe [OF lk] may, of "Some REC_PAYLOAD_MAX" pl g "(p, c1)"] rd that by simp
  have "pair_ok T K I view (s_o3 s, c)" using lk by (simp add: card_locked_def o3_ok_def)
  then have ok': "o3_ok T K I view s' c'" by (rule load_ok(1) [OF _ r])
  have "s_o3 s' = p \<and> c' = c1 \<and> (s_loaded s' \<longrightarrow> (\<exists>g. st = REC_OK \<and> res = Some (s_cur s', g)))"
    using r by (auto simp: openpgp_state_load_def rd Let_def split: if_splits rec_status.splits option.splits)
  then show ?thesis using lk ok' m P by (auto simp: card_locked_def pgp_usable_def)
qed

lemma do_locked:
  assumes lk: "card_locked T K I view s c" and op: "op_typed I view op" "\<not> destroys op"
    and r: "o3_do T K op (s, c) = (s', c')"
  shows "card_locked T K I view s' c'"
proof (cases op)
  case (Setter cmd)
  then obtain rc where run: "o3_run T K cmd s c = (rc, s', c')" using r by (metis o3_do.simps(1) prod.collapse)
  then show ?thesis
  proof (cases rule: run_cases)
    case committed
    show ?thesis
      by (rule commit_locked [OF lk committed(1)])
         (use committed(2) lk op(1) Setter next_locked in \<open>simp add: card_locked_def\<close>)
  qed (use lk in simp_all)
next
  case Load
  then obtain rc where "openpgp_state_load T K s c = (rc, s', c')" using r by (metis o3_do.simps(2) prod.collapse)
  then show ?thesis by (rule load_locked [OF lk])
next
  case Activate
  have "\<not> (pgp_usable s \<and> s_cur s ! OFF_LC = PGP_LC_TERMINATED)"
    using lk by (auto simp: card_locked_def uif_locked_def pgp_lcs)
  then show ?thesis using lk r Activate by (auto simp: openpgp_state_activate_def)
next
  case (Reboot f)
  have ok: "o3_ok T K I view s' c'" using do_ok [OF _ op(1) r] lk by (simp add: card_locked_def)
  have "view c' = view c" "s' = openpgp_state_test_reboot s"
    using r op lk Reboot by (auto simp: power_cycle_def card_locked_def o3_ok_def pair_ok_def)
  then show ?thesis using lk ok
    by (simp add: card_locked_def pair_may_def may_hold_def openpgp_state_test_reboot_def pgp_usable_def)
qed (use op in simp_all)

lemma fold_locked:
  assumes "card_locked T K I view s c" and "\<forall>op \<in> set ops. op_typed I view op \<and> \<not> destroys op"
    and "fold (o3_do T K) ops (s, c) = (s', c')"
  shows "card_locked T K I view s' c'"
  using assms
proof (induction ops arbitrary: s c)
  case (Cons op ops)
  obtain s1 c1 where o: "o3_do T K op (s, c) = (s1, c1)" by fastforce
  then have "card_locked T K I view s1 c1" using do_locked Cons.prems(1,2) by fastforce
  then show ?case using Cons.IH [of s1 c1] Cons.prems(2,3) o by simp
qed simp

lemma locked_start:
  assumes "torn_chip T I view K" and "o3_ok T K I view s c" and "pgp_usable s"
    and "openpgp_state_lifecycle s = PGP_LC_OPERATIONAL" and "openpgp_state_uif s = 2"
  shows "card_locked T K I view s c"
proof -
  note cf = cur_facts [OF assms(2,3)]
  have u: "uif_locked (s_cur s)"
    using assms(3-5) cf by (simp add: uif_locked_def openpgp_state_lifecycle_def openpgp_state_uif_def)
  have "pair_safe T K I view (s_o3 s, c)" using assms(1,2) by (simp add: pair_safe_def o3_ok_def)
  then have "pair_may K view uif_locked (s_o3 s, c)" using pair_crash.may_rest cf u by blast
  then show ?thesis using assms(1,2) u by (simp add: card_locked_def)
qed

section \<open>Properties\<close>

text \<open>
  C24. The state refines the abstract card.  If its getters show card \<open>k\<close> before a setter,
  then after one that answers 0 they show exactly the setter's step on \<open>k\<close>, a step the card
  takes, and only an operational card is changed; after one that answers anything else they
  show \<open>k\<close> or the lifecycle reads ERROR.  The RAM copy stays what both chip copies hold.
\<close>

theorem openpgp_state_refines:
  assumes "o3_ok T K I view s c" and "pgp_usable s" and "presents s k" and "o3_typed cmd"
    and "o3_run T K cmd s c = (rc, s', c')"
  shows "(rc = 0 \<longrightarrow> card_takes cmd k \<and> presents s' (card_step cmd k) \<and>
      (c_lc k = PGP_LC_OPERATIONAL \<or> card_step cmd k = k)) \<and>
    (rc \<noteq> 0 \<longrightarrow> presents s' k \<or> openpgp_state_lifecycle s' = PGP_LC_ERROR) \<and>
    o3_ok T K I view s' c'"
proof -
  have l: "length (s_cur s) = O3_LEN" using cur_facts [OF assms(1,2)] by blast
  have k: "k = card_of (s_cur s)" using presents_cur [OF assms(2) l] assms(3) by blast
  note ro = run_ok [OF assms(1,4,5)]
  have l': "pgp_usable s' \<Longrightarrow> length (s_cur s') = O3_LEN" using cur_facts [OF ro(1)] by blast
  have shown: "pgp_usable s' \<Longrightarrow> presents s' (card_of (s_cur s'))" using presents_cur l' by blast
  show ?thesis
  proof (cases "rc = 0")
    case True
    note dn = ro(2) [OF True]
    have "c_lc k = PGP_LC_OPERATIONAL \<or> card_step cmd k = k"
      using run_operational [of T K cmd s c s' c'] assms(5) True dn by (auto simp: k card_of_def [of "s_cur s"])
    then show ?thesis using True dn shown ro(1) k by auto
  next
    case False
    then show ?thesis using ro(1,3) shown unusable_shows [of s'] k by auto
  qed
qed

text \<open>
  C26. On a working chip the card carries out every command it takes: an operational card
  whose record can still be rewritten answers 0 exactly to the commands \<open>card_takes\<close> names,
  whichever they are.
\<close>

theorem openpgp_state_live:
  assumes "live_rmem T I view good" and "good c" and "o3_ok T K I view s c" and "presents s k"
    and "c_lc k = PGP_LC_OPERATIONAL" and "slot_a (s_o3 s) < 512" and "slot_b (s_o3 s) < 512"
    and "gen_of (view c (slot_a (s_o3 s))) \<noteq> - 1" and "o3_typed cmd"
  shows "fst (o3_run T K cmd s c) = 0 \<longleftrightarrow> card_takes cmd k"
proof -
  have u: "pgp_usable s"
    using assms(4,5) unusable_shows [of s] by (auto simp: presents_def pgp_lcs)
  have l: "length (s_cur s) = O3_LEN" using cur_facts [OF assms(3) u] by blast
  have k: "k = card_of (s_cur s)" using presents_cur [OF u l] assms(4) by blast
  have lc: "s_cur s ! OFF_LC = PGP_LC_OPERATIONAL" using assms(5) k by (simp add: card_of_def)
  obtain rc s' c' where r: "o3_run T K cmd s c = (rc, s', c')" by (metis prod_cases3)
  have "card_takes cmd k \<Longrightarrow> rc = 0"
    using live_rmem.run_live [OF assms(1,2,3) u assms(6-8) lc assms(9)] r k by (metis fst_conv)
  then show ?thesis using run_ok(2) [OF assms(3,9) r] r k by auto
qed

text \<open>
  C25. The permanent touch policy is permanent.  Once a usable, operational state has
  UIF 2, then after any sequence of setters, loads, activations and power cuts, each of
  which may fail in any way, the policy reads 2 whenever the state is usable and 1 when
  it is not: only the operations that destroy the card clear it.
\<close>

theorem openpgp_uif_permanent:
  assumes "torn_chip T I view K" and "o3_ok T K I view s c" and "pgp_usable s"
    and "openpgp_state_lifecycle s = PGP_LC_OPERATIONAL" and "openpgp_state_uif s = 2"
    and "\<forall>op \<in> set ops. op_typed I view op \<and> \<not> destroys op"
    and "fold (o3_do T K) ops (s, c) = (s', c')"
  shows "openpgp_state_uif s' = (if pgp_usable s' then 2 else 1)"
  using fold_locked [OF locked_start [OF assms(1-5)] assms(6,7)]
  by (simp add: card_locked_def uif_locked_def openpgp_state_uif_def)

section \<open>Witnesses\<close>

text \<open>A fresh operational card on the demo chip.\<close>

lemma demo_card:
  obtains s c where "o3_ok demo_chip demo_crypto mock_inv mock_view s c" and "pgp_usable s"
    and "s_cur s = defaults PGP_LC_OPERATIONAL" and "mock_good c" and "s_o3 s = O3_START"
    and "gen_of (mock_view c 33) = 1"
proof -
  let ?d = "defaults PGP_LC_OPERATIONAL"
  have p: "O3_START\<lparr>uncertain := False\<rparr> = O3_START" by (simp add: O3_START_def)
  have ba: "\<not> bad_args ?d" by (simp add: bad_args_def rec_consts o3_layout)
  obtain c where w: "rec_pair_init demo_chip demo_crypto ?d O3_START demo_mock = (REC_OK, O3_START, c)"
    and g: "mock_good c" and r: "at_rest demo_crypto mock_view O3_START 1 ?d c"
    by (rule live_rmem.rest_init [OF demo_chip_live mock_good_start crypto_ok_demo _ ba, of O3_START])
       (auto simp: pair_usable_def O3_START_def)
  let ?s = "pgp_start\<lparr>s_loaded := True, s_cur := ?d\<rparr>"
  have i: "openpgp_state_init demo_chip demo_crypto PGP_LC_OPERATIONAL pgp_start demo_mock = (0, ?s, c)"
    using w p by (simp add: openpgp_state_init_def Let_def pgp_start_def pgp_lcs)
  have po: "pair_ok demo_chip demo_crypto mock_inv mock_view (s_o3 pgp_start, demo_mock)"
    by (simp add: pair_ok_def demo_chip_rmem pgp_start_def O3_START_def)
  have "o3_ok demo_chip demo_crypto mock_inv mock_view ?s c"
    using init_ok(1) [OF po _ i] by (simp add: pgp_lcs)
  then show thesis
    by (rule that) (use g r in \<open>simp_all add: pgp_usable_def pgp_start_def O3_START_def at_rest_def encode_fields\<close>)
qed

lemma demo_defaults:
  "card_of (defaults PGP_LC_OPERATIONAL) = \<lparr>c_lc = PGP_LC_OPERATIONAL, c_rc_set = 0, c_c4 = 1, c_uif = 1, c_name = [],
     c_lang = [0x65, 0x6E], c_sex = 0x39, c_fprs = replicate 3 (replicate 20 0),
     c_gentimes = replicate 3 (replicate 4 0), c_signatures = 0, c_dec = None\<rparr>"
  by code_simp

text \<open>The same card after UIF was set to 2.\<close>

lemma demo_permanent:
  obtains s c where "o3_ok demo_chip demo_crypto mock_inv mock_view s c" and "pgp_usable s"
    and "openpgp_state_lifecycle s = PGP_LC_OPERATIONAL" and "openpgp_state_uif s = 2"
proof -
  obtain s c where ok: "o3_ok demo_chip demo_crypto mock_inv mock_view s c" and u: "pgp_usable s"
    and d: "s_cur s = defaults PGP_LC_OPERATIONAL" and g: "mock_good c" and o: "s_o3 s = O3_START"
    and gen: "gen_of (mock_view c 33) = 1" by (rule demo_card)
  obtain s' c' where r: "o3_run demo_chip demo_crypto (SetUif 2) s c = (0, s', c')"
    by (rule live_rmem.run_live [OF demo_chip_live g ok u, of "SetUif 2"])
       (use o gen in \<open>simp_all add: d demo_defaults O3_START_def, simp add: defaults_def Let_def o3_layout pgp_lcs\<close>)
  have t: "o3_typed (SetUif 2)" by simp
  note ro = run_ok [OF ok t r]
  have u': "pgp_usable s'" using ro(2) by simp
  have "presents s' (card_step (SetUif 2) (card_of (s_cur s)))"
    using ro(2) presents_cur [OF u'] cur_facts [OF ro(1) u'] by metis
  then show thesis using that [OF ro(1) u'] by (simp add: presents_def d demo_defaults)
qed

theorem openpgp_state_refines_witness:
  "\<exists>s c s' c'. o3_run demo_chip demo_crypto (SetUif 2) s c = (0, s', c') \<and> openpgp_state_uif s = 1 \<and>
     openpgp_state_uif s' = 2"
proof -
  obtain s c where ok: "o3_ok demo_chip demo_crypto mock_inv mock_view s c" and u: "pgp_usable s"
    and d: "s_cur s = defaults PGP_LC_OPERATIONAL" and g: "mock_good c" and o: "s_o3 s = O3_START"
    and gen: "gen_of (mock_view c 33) = 1" by (rule demo_card)
  obtain s' c' where r: "o3_run demo_chip demo_crypto (SetUif 2) s c = (0, s', c')"
    by (rule live_rmem.run_live [OF demo_chip_live g ok u, of "SetUif 2"])
       (use o gen in \<open>simp_all add: d demo_defaults O3_START_def, simp add: defaults_def Let_def o3_layout pgp_lcs\<close>)
  have p: "presents s (card_of (defaults PGP_LC_OPERATIONAL))" using presents_cur [OF u] d by simp
  have "presents s' (card_step (SetUif 2) (card_of (defaults PGP_LC_OPERATIONAL)))"
    using openpgp_state_refines [OF ok u p _ r] by simp
  then show ?thesis using r p by (auto simp: presents_def demo_defaults)
qed

theorem openpgp_state_live_witness:
  "\<exists>s c. fst (o3_run demo_chip demo_crypto (SetName [74, 97, 110]) s c) = 0 \<and>
     fst (o3_run demo_chip demo_crypto (SetName (replicate 40 74)) s c) \<noteq> 0"
proof -
  obtain s c where ok: "o3_ok demo_chip demo_crypto mock_inv mock_view s c" and u: "pgp_usable s"
    and d: "s_cur s = defaults PGP_LC_OPERATIONAL" and g: "mock_good c" and o: "s_o3 s = O3_START"
    and gen: "gen_of (mock_view c 33) = 1" by (rule demo_card)
  have p: "presents s (card_of (defaults PGP_LC_OPERATIONAL))" using presents_cur [OF u] d by simp
  have "fst (o3_run demo_chip demo_crypto (SetName n) s c) = 0 \<longleftrightarrow> length n \<le> 39" for n
    using openpgp_state_live [OF demo_chip_live g ok p, of "SetName n"] o gen
    by (simp add: demo_defaults O3_START_def OPENPGP_NAME_MAX_def)
  then show ?thesis by (intro exI [of _ s] exI [of _ c]) (simp del: o3_run.simps)
qed

theorem openpgp_uif_permanent_witness:
  "\<exists>s c. openpgp_state_uif s = 2 \<and>
     openpgp_state_uif (fst (fold (o3_do demo_chip demo_crypto) [Setter (SetUif 0), Reboot mock_disarm, Load] (s, c))) \<noteq> 0"
proof -
  obtain s c where ok: "o3_ok demo_chip demo_crypto mock_inv mock_view s c" and u: "pgp_usable s"
    and lc: "openpgp_state_lifecycle s = PGP_LC_OPERATIONAL" and two: "openpgp_state_uif s = 2"
    by (rule demo_permanent)
  let ?ops = "[Setter (SetUif 0), Reboot mock_disarm, Load]"
  obtain s' c' where f: "fold (o3_do demo_chip demo_crypto) ?ops (s, c) = (s', c')" by fastforce
  have t: "torn_chip demo_chip mock_inv mock_view demo_crypto"
    unfolding demo_chip_def by (rule mock_torn.torn_chip_axioms)
  have "power_cycle mock_inv mock_view mock_disarm"
    by (simp add: power_cycle_def mock_disarm_def mock_inv_def mock_view_def no_fault_def
        TROPIC_ERR_RMEM_SLOT_EMPTY_def fun_eq_iff)
  then have "\<forall>op \<in> set ?ops. op_typed mock_inv mock_view op \<and> \<not> destroys op" by simp
  then have "openpgp_state_uif s' = (if pgp_usable s' then 2 else 1)"
    by (rule openpgp_uif_permanent [OF t ok u lc two _ f])
  then have "openpgp_state_uif (fst (fold (o3_do demo_chip demo_crypto) ?ops (s, c))) \<noteq> 0" unfolding f by simp
  then show ?thesis using two by blast
qed

end
