(* ===== verification/Pin_Md_Kernel.thy ===== *)
theory Pin_Md_Kernel
  imports Rec_Pair
begin

text \<open>
  The MAC-and-Destroy PIN kernel, \<^verbatim>\<open>firmware/src/tropic/pin_md_kernel.c\<close>.  One PIN is a
  binding record in a record pair and one or two ranges of chip slots.  The record is the
  only PIN state: its \<open>next\<close> field counts the attempts spent, and a verify writes it
  before it touches the chip slot.  The lemmas show that slot ranges never overlap, that
  the record format is a bijection, that no failure or power cut gives an attempt back,
  and that on a working chip setup, verify and change do what their comments promise.
\<close>

section \<open>Layouts and bindings\<close>

record pin_md_layout =
  base :: "nat \<Rightarrow> nat" \<comment> \<open>first slot of range 0 (A) and of range 1 (B)\<close>
  ranges :: nat
  rounds :: nat
  mat_len :: nat

datatype pmd_state = PMD_ABSENT | PMD_ACTIVE | PMD_BLOCKED | PMD_ERROR

datatype pmd_rc = PMD_OK | PMD_ERR | PMD_ERR_BLOCKED | PMD_ERR_ABSENT

record binding =
  range :: nat
  retire_pending :: nat
  "next" :: nat
  pin_len :: nat
  tag :: bytes
  ci :: "bytes list"

definition PIN_MD_KERNEL_ROUNDS_MAX :: nat where "PIN_MD_KERNEL_ROUNDS_MAX = 8"
definition PIN_MD_KERNEL_MATERIAL_MAX :: nat where "PIN_MD_KERNEL_MATERIAL_MAX = 32"
definition BIND_HDR :: nat where "BIND_HDR = 4"
definition BIND_LEN :: "nat \<Rightarrow> nat" where "BIND_LEN n = BIND_HDR + 32 + n * 32"

lemmas pmk_consts = PIN_MD_KERNEL_ROUNDS_MAX_def PIN_MD_KERNEL_MATERIAL_MAX_def BIND_HDR_def
  BIND_LEN_def

definition valid_layout :: "pin_md_layout \<Rightarrow> bool" where
  "valid_layout L \<longleftrightarrow>
     \<not> (rounds L = 0 \<or> rounds L > PIN_MD_KERNEL_ROUNDS_MAX) \<and>
     \<not> (ranges L \<noteq> 1 \<and> ranges L \<noteq> 2) \<and>
     \<not> (mat_len L = 0 \<or> mat_len L > PIN_MD_KERNEL_MATERIAL_MAX) \<and>
     list_all (\<lambda>r. \<not> base L r + rounds L > 128) [0..<ranges L] \<and>
     \<not> (ranges L = 2 \<and> base L 0 < base L 1 + rounds L \<and> base L 1 < base L 0 + rounds L)"

definition kdf :: "crypto \<Rightarrow> bytes \<Rightarrow> u8 \<Rightarrow> bytes" where
  "kdf K s label = hmac_sha256 K s [label]"

definition pin_v :: "crypto \<Rightarrow> pin_md_layout \<Rightarrow> bytes \<Rightarrow> bytes" where
  "pin_v K L mat = hmac_sha256 K (replicate 32 0) (take (mat_len L) mat)"

definition slot_xor :: "crypto \<Rightarrow> pin_md_layout \<Rightarrow> bytes \<Rightarrow> bytes \<Rightarrow> bytes \<Rightarrow> bytes" where
  "slot_xor K L w mat a = xor_bytes a (hmac_sha256 K w (take (mat_len L) mat))"

definition tag_equal :: "bytes \<Rightarrow> bytes \<Rightarrow> bool" where
  "tag_equal a b \<longleftrightarrow> ct_diff 0 a b = 0"

definition md_slot :: "pin_md_layout \<Rightarrow> nat \<Rightarrow> nat \<Rightarrow> nat" where
  "md_slot L r i = (base L r + i) mod 256" \<comment> \<open>the \<open>uint8_t\<close> cast\<close>

section \<open>The binding record\<close>

definition decode_binding :: "pin_md_layout \<Rightarrow> bytes \<Rightarrow> binding option" where
  "decode_binding L buf =
     (if length buf = BIND_LEN (rounds L) \<and> unat (buf ! 0) < ranges L \<and> unat (buf ! 1) \<le> 1 \<and>
         (unat (buf ! 1) = 0 \<or> ranges L = 2) \<and> unat (buf ! 2) \<le> rounds L
      then Some \<lparr>range = unat (buf ! 0), retire_pending = unat (buf ! 1), next = unat (buf ! 2),
                 pin_len = unat (buf ! 3), tag = take 32 (drop BIND_HDR buf),
                 ci = map (\<lambda>i. take 32 (drop (BIND_HDR + 32 + i * 32) buf)) [0..<rounds L]\<rparr>
      else None)"

definition encode_binding :: "pin_md_layout \<Rightarrow> binding \<Rightarrow> bytes" where
  "encode_binding L b =
     [of_nat (range b), of_nat (retire_pending b), of_nat (next b), of_nat (pin_len b)]
     @ tag b @ concat (take (rounds L) (ci b))"

definition load ::
  "'c tropic \<Rightarrow> crypto \<Rightarrow> pin_md_layout \<Rightarrow> rec_pair \<Rightarrow> 'c
     \<Rightarrow> rec_status \<times> binding option \<times> rec_pair \<times> 'c" where
  "load T K L p c =
     (case rec_pair_read T K (Some REC_PAYLOAD_MAX) p c of
        (REC_OK, Some (buf, _), p1, c1) \<Rightarrow>
          (case decode_binding L buf of
             Some b \<Rightarrow> (REC_OK, Some b, p1, c1)
           | None \<Rightarrow> (REC_ERROR, None, p1, c1))
      | (st, _, p1, c1) \<Rightarrow> (if st = REC_CORRUPT then REC_ERROR else st, None, p1, c1))"

definition store ::
  "'c tropic \<Rightarrow> crypto \<Rightarrow> pin_md_layout \<Rightarrow> binding \<Rightarrow> bool \<Rightarrow> rec_pair \<Rightarrow> 'c
     \<Rightarrow> pmd_rc \<times> rec_pair \<times> 'c" where
  "store T K L b first p c =
     (let buf = encode_binding L b;
          (st, p1, c1) = (if first then rec_pair_init T K buf p c else rec_pair_write T K buf p c)
      in (if st = REC_OK then PMD_OK else PMD_ERR, p1, c1))"

section \<open>Retiring a range\<close>

fun retire_slots :: "'c tropic \<Rightarrow> pin_md_layout \<Rightarrow> nat \<Rightarrow> nat list \<Rightarrow> 'c \<Rightarrow> pmd_rc \<times> 'c" where
  "retire_slots T L r [] c = (PMD_OK, c)"
| "retire_slots T L r (i # is) c =
     (case tropic_random T 32 c of
        (Inl _, c1) \<Rightarrow> (PMD_ERR, c1)
      | (Inr rnd, c1) \<Rightarrow>
          (case tropic_mac_and_destroy T (md_slot L r i) rnd c1 of
             (Inl _, c2) \<Rightarrow> (PMD_ERR, c2)
           | (Inr _, c2) \<Rightarrow> retire_slots T L r is c2))"

definition retire :: "'c tropic \<Rightarrow> pin_md_layout \<Rightarrow> nat \<Rightarrow> 'c \<Rightarrow> pmd_rc \<times> 'c" where
  "retire T L r c = retire_slots T L r [0..<rounds L] c"

definition settle ::
  "'c tropic \<Rightarrow> crypto \<Rightarrow> pin_md_layout \<Rightarrow> rec_pair \<Rightarrow> 'c
     \<Rightarrow> rec_status \<times> binding option \<times> rec_pair \<times> 'c" where
  "settle T K L p c =
     (case load T K L p c of
        (REC_OK, Some b, p1, c1) \<Rightarrow>
          (if retire_pending b = 0 then (REC_OK, Some b, p1, c1)
           else let (rc, c2) = retire T L (1 - range b) c1 in
           if rc \<noteq> PMD_OK then (REC_ERROR, None, p1, c2)
           else let b1 = b\<lparr>retire_pending := 0\<rparr>; (rc2, p2, c3) = store T K L b1 False p1 c2 in
           if rc2 = PMD_OK then (REC_OK, Some b1, p2, c3) else (REC_ERROR, None, p2, c3))
      | r \<Rightarrow> r)"

section \<open>The scheme\<close>

fun setup_slots ::
  "'c tropic \<Rightarrow> crypto \<Rightarrow> pin_md_layout \<Rightarrow> nat \<Rightarrow> bytes \<Rightarrow> bytes \<Rightarrow> bytes \<Rightarrow> bytes \<Rightarrow> nat list
     \<Rightarrow> 'c \<Rightarrow> bytes list option \<times> 'c" where
  "setup_slots T K L r u v mat s [] c = (Some [], c)"
| "setup_slots T K L r u v mat s (i # is) c =
     (let slot = md_slot L r i in
      case tropic_mac_and_destroy T slot u c of
        (Inl _, c1) \<Rightarrow> (None, c1)
      | (Inr _, c1) \<Rightarrow>
          (case tropic_mac_and_destroy T slot v c1 of
             (Inl _, c2) \<Rightarrow> (None, c2)
           | (Inr w, c2) \<Rightarrow>
               (case tropic_mac_and_destroy T slot u c2 of
                  (Inl _, c3) \<Rightarrow> (None, c3)
                | (Inr _, c3) \<Rightarrow>
                    (case setup_slots T K L r u v mat s is c3 of
                       (None, c4) \<Rightarrow> (None, c4)
                     | (Some cs, c4) \<Rightarrow> (Some (slot_xor K L w mat s # cs), c4)))))"

definition setup_s ::
  "'c tropic \<Rightarrow> crypto \<Rightarrow> pin_md_layout \<Rightarrow> bytes \<Rightarrow> nat \<Rightarrow> bytes \<Rightarrow> rec_pair \<Rightarrow> 'c
     \<Rightarrow> pmd_rc \<times> rec_pair \<times> 'c" where
  "setup_s T K L mat plen s p c =
     (case settle T K L p c of (st, cur, p1, c1) \<Rightarrow>
      let have_b = (st = REC_OK) in
      if st \<noteq> REC_OK \<and> st \<noteq> REC_ABSENT \<or> have_b \<and> ranges L < 2 then (PMD_ERR, p1, c1)
      else
        let nr = (if have_b then 1 - range (the cur) else 0);
            u = kdf K s 1; v = pin_v K L mat;
            (cs, c2) = setup_slots T K L nr u v mat s [0..<rounds L] c1
        in case cs of
             None \<Rightarrow> (PMD_ERR, p1, c2)
           | Some cil \<Rightarrow>
               let nb = \<lparr>range = nr, retire_pending = (if have_b then 1 else 0), next = 0,
                         pin_len = plen, tag = kdf K s 0, ci = cil\<rparr>;
                   (rc1, p2, c3) = store T K L nb (\<not> have_b) p1 c2
               in if rc1 \<noteq> PMD_OK then (PMD_ERR, p2, c3)
                  else if \<not> have_b then (PMD_OK, p2, c3)
                  else let (rc2, c4) = retire T L (range (the cur)) c3 in
                    if rc2 \<noteq> PMD_OK then (PMD_ERR, p2, c4)
                    else let (rc3, p3, c5) = store T K L (nb\<lparr>retire_pending := 0\<rparr>) False p2 c4 in
                      if rc3 \<noteq> PMD_OK then (PMD_ERR, p3, c5) else (PMD_OK, p3, c5))"

text \<open>Restores the whole range after a right PIN.\<close>

fun restore_slots :: "'c tropic \<Rightarrow> pin_md_layout \<Rightarrow> nat \<Rightarrow> bytes \<Rightarrow> nat list \<Rightarrow> 'c \<Rightarrow> bool \<times> 'c" where
  "restore_slots T L r u [] c = (True, c)"
| "restore_slots T L r u (i # is) c =
     (case tropic_mac_and_destroy T (md_slot L r i) u c of
        (Inl _, c1) \<Rightarrow> (False, c1)
      | (Inr _, c1) \<Rightarrow> restore_slots T L r u is c1)"

text \<open>
  \<open>verify_try\<close> is \<open>verify_s\<close> up to the tag comparison: it returns the reserved binding
  with \<open>s\<close> when the tag matched, nothing with \<open>PMD_OK\<close> when it did not.
\<close>

definition verify_try ::
  "'c tropic \<Rightarrow> crypto \<Rightarrow> pin_md_layout \<Rightarrow> bytes \<Rightarrow> rec_pair \<Rightarrow> 'c
     \<Rightarrow> pmd_rc \<times> (binding \<times> bytes) option \<times> rec_pair \<times> 'c" where
  "verify_try T K L mat p c =
     (case settle T K L p c of
        (REC_OK, Some b, p1, c1) \<Rightarrow>
          (if next b \<ge> rounds L then (PMD_ERR_BLOCKED, None, p1, c1)
           else
             let idx = next b; b1 = b\<lparr>next := idx + 1\<rparr>;
                 (rc1, p2, c2) = store T K L b1 False p1 c1
             in if rc1 \<noteq> PMD_OK then (PMD_ERR, None, p2, c2)
             else let v = pin_v K L mat in
             case tropic_mac_and_destroy T (md_slot L (range b) idx) v c2 of
               (Inl _, c3) \<Rightarrow> (PMD_ERR, None, p2, c3)
             | (Inr w, c3) \<Rightarrow>
                 let s = slot_xor K L w mat (ci b ! idx); t = kdf K s 0 in
                 if \<not> tag_equal t (tag b) then (PMD_OK, None, p2, c3)
                 else (PMD_OK, Some (b1, s), p2, c3))
      | (st, _, p1, c1) \<Rightarrow>
          (if st = REC_ABSENT then PMD_ERR_ABSENT else PMD_ERR, None, p1, c1))"

text \<open>\<open>Some s\<close> stands for \<open>*correct = 1\<close> with \<open>s\<close> in \<open>s_out\<close>, \<open>None\<close> for \<open>*correct = 0\<close>.\<close>

definition verify_s ::
  "'c tropic \<Rightarrow> crypto \<Rightarrow> pin_md_layout \<Rightarrow> bytes \<Rightarrow> rec_pair \<Rightarrow> 'c
     \<Rightarrow> pmd_rc \<times> bytes option \<times> rec_pair \<times> 'c" where
  "verify_s T K L mat p c =
     (case verify_try T K L mat p c of
        (PMD_OK, Some (b1, s), p2, c3) \<Rightarrow>
          (let u = kdf K s 1;
               (ok, c4) = restore_slots T L (range b1) u [0..<rounds L] c3
           in if \<not> ok then (PMD_ERR, None, p2, c4)
           else let (rc2, p3, c5) = store T K L (b1\<lparr>next := 0\<rparr>) False p2 c4 in
           if rc2 \<noteq> PMD_OK then (PMD_ERR, None, p3, c5) else (PMD_OK, Some s, p3, c5))
      | (rc, _, p2, c3) \<Rightarrow> (rc, None, p2, c3))"

section \<open>The public operations\<close>

definition pin_md_kernel_status ::
  "'c tropic \<Rightarrow> crypto \<Rightarrow> pin_md_layout \<Rightarrow> rec_pair \<Rightarrow> 'c
     \<Rightarrow> pmd_state \<times> nat \<times> nat \<times> rec_pair \<times> 'c" where
  "pin_md_kernel_status T K L p c =
     (if \<not> valid_layout L then (PMD_ERROR, 0, 0, p, c)
      else case settle T K L p c of
        (REC_ABSENT, _, p1, c1) \<Rightarrow> (PMD_ABSENT, 0, 0, p1, c1)
      | (REC_OK, Some b, p1, c1) \<Rightarrow>
          (if next b \<ge> rounds L then PMD_BLOCKED else PMD_ACTIVE,
           (rounds L - next b) mod 256, pin_len b, p1, c1)
      | (_, _, p1, c1) \<Rightarrow> (PMD_ERROR, 0, 0, p1, c1))"

text \<open>The last component of setup, verify and change is \<open>out_k\<close>: \<open>None\<close> when it is wiped.\<close>

definition pin_md_kernel_setup ::
  "'c tropic \<Rightarrow> crypto \<Rightarrow> pin_md_layout \<Rightarrow> bytes \<Rightarrow> nat \<Rightarrow> rec_pair \<Rightarrow> 'c
     \<Rightarrow> pmd_rc \<times> bytes option \<times> rec_pair \<times> 'c" where
  "pin_md_kernel_setup T K L mat plen p c =
     (if \<not> valid_layout L then (PMD_ERR, None, p, c)
      else case tropic_random T 32 c of
        (Inl _, c1) \<Rightarrow> (PMD_ERR, None, p, c1)
      | (Inr s, c1) \<Rightarrow>
          (let (rc, p1, c2) = setup_s T K L mat plen s p c1
           in (rc, if rc = PMD_OK then Some (kdf K s 2) else None, p1, c2)))"

definition pin_md_kernel_verify ::
  "'c tropic \<Rightarrow> crypto \<Rightarrow> pin_md_layout \<Rightarrow> bytes \<Rightarrow> rec_pair \<Rightarrow> 'c
     \<Rightarrow> pmd_rc \<times> bool \<times> bytes option \<times> rec_pair \<times> 'c" where
  "pin_md_kernel_verify T K L mat p c =
     (if \<not> valid_layout L then (PMD_ERR, False, None, p, c)
      else case verify_s T K L mat p c of
        (rc, so, p1, c1) \<Rightarrow>
          (rc, so \<noteq> None,
           if rc = PMD_OK then map_option (\<lambda>s. kdf K s 2) so else None, p1, c1))"

definition pin_md_kernel_change ::
  "'c tropic \<Rightarrow> crypto \<Rightarrow> pin_md_layout \<Rightarrow> bytes \<Rightarrow> bytes \<Rightarrow> nat \<Rightarrow> rec_pair \<Rightarrow> 'c
     \<Rightarrow> pmd_rc \<times> bool \<times> bytes option \<times> rec_pair \<times> 'c" where
  "pin_md_kernel_change T K L old_mat new_mat new_plen p c =
     (if \<not> valid_layout L \<or> ranges L < 2 then (PMD_ERR, False, None, p, c)
      else case verify_s T K L old_mat p c of
        (PMD_OK, Some s, p1, c1) \<Rightarrow>
          (let (rc, p2, c2) = setup_s T K L new_mat new_plen s p1 c1
           in if rc = PMD_OK then (rc, True, Some (kdf K s 2), p2, c2)
              else (rc, False, None, p2, c2))
      | (rc, so, p1, c1) \<Rightarrow> (rc, so \<noteq> None, None, p1, c1))"

fun clear_ranges :: "'c tropic \<Rightarrow> pin_md_layout \<Rightarrow> nat list \<Rightarrow> 'c \<Rightarrow> pmd_rc \<times> 'c" where
  "clear_ranges T L [] c = (PMD_OK, c)"
| "clear_ranges T L (r # rs) c =
     (let (rc, c1) = retire T L r c in
      if rc \<noteq> PMD_OK then (PMD_ERR, c1) else clear_ranges T L rs c1)"

definition pin_md_kernel_clear ::
  "'c tropic \<Rightarrow> pin_md_layout \<Rightarrow> rec_pair \<Rightarrow> 'c \<Rightarrow> pmd_rc \<times> rec_pair \<times> 'c" where
  "pin_md_kernel_clear T L p c =
     (if \<not> valid_layout L then (PMD_ERR, p, c)
      else let (rc, c1) = clear_ranges T L [0..<ranges L] c in
      if rc \<noteq> PMD_OK then (PMD_ERR, p, c1)
      else let (st, p1, c2) = rec_pair_clear T p c1
           in (if st = REC_OK then PMD_OK else PMD_ERR, p1, c2))"

section \<open>Layouts\<close>

lemma valid_layout_bounds:
  assumes "valid_layout L"
  shows "0 < rounds L" and "rounds L \<le> 8" and "ranges L = 1 \<or> ranges L = 2"
  using assms by (auto simp: valid_layout_def pmk_consts)

lemma md_slot_valid:
  assumes "valid_layout L" and "r < ranges L" and "i < rounds L"
  shows "md_slot L r i = base L r + i" and "md_slot L r i < 128"
proof -
  have "base L r + rounds L \<le> 128"
    using assms(1,2) by (auto simp: valid_layout_def list_all_iff not_less)
  then show "md_slot L r i = base L r + i" and "md_slot L r i < 128"
    using assms(3) by (simp_all add: md_slot_def)
qed

lemma md_slot_inj:
  assumes "valid_layout L" and "r < ranges L" and "i < rounds L" and "q < ranges L"
    and "j < rounds L" and "md_slot L r i = md_slot L q j"
  shows "r = q \<and> i = j"
proof -
  have "base L r + i = base L q + j"
    using md_slot_valid(1) [OF assms(1-3)] md_slot_valid(1) [OF assms(1,4,5)] assms(6) by simp
  moreover have "ranges L = 1 \<or> ranges L = 2" using assms(1) by (auto simp: valid_layout_def)
  ultimately show ?thesis
    using assms by (auto simp: valid_layout_def less_Suc_eq numeral_2_eq_2)
qed

section \<open>The binding format is a bijection\<close>

definition wf_binding :: "pin_md_layout \<Rightarrow> binding \<Rightarrow> bool" where
  "wf_binding L b \<longleftrightarrow> range b < ranges L \<and> retire_pending b \<le> 1 \<and>
     (retire_pending b = 0 \<or> ranges L = 2) \<and> next b \<le> rounds L \<and> pin_len b < 256 \<and>
     length (tag b) = 32 \<and> length (ci b) = rounds L \<and> (\<forall>x \<in> set (ci b). length x = 32)"

lemma concat_chunks:
  "\<forall>x \<in> set xs. length x = 32 \<Longrightarrow> length (concat xs) = 32 * length xs"
  by (induction xs) auto

lemma chunks_concat:
  "\<forall>x \<in> set xs. length x = 32 \<Longrightarrow> length xs = n \<Longrightarrow>
     map (\<lambda>i. take 32 (drop (i * 32) (concat xs))) [0..<n] = xs"
proof (induction xs arbitrary: n)
  case Nil
  then show ?case by simp
next
  case (Cons x xs)
  have "map (\<lambda>i. take 32 (drop (i * 32) (concat (x # xs)))) [0..<n]
      = x # map (\<lambda>i. take 32 (drop (i * 32) (concat xs))) [0..<length xs]"
    using Cons.prems by (auto simp: upt_conv_Cons map_Suc_upt [symmetric] simp del: upt_Suc)
  then show ?case using Cons by simp
qed

lemma concat_of_chunks:
  "length ys = n * 32 \<Longrightarrow> concat (map (\<lambda>i. take 32 (drop (i * 32) ys)) [0..<n]) = ys"
proof (induction n arbitrary: ys)
  case 0
  then show ?case by simp
next
  case (Suc n)
  have "concat (map (\<lambda>i. take 32 (drop (i * 32) ys)) [0..<Suc n])
      = take 32 ys @ concat (map (\<lambda>i. take 32 (drop (i * 32) (drop 32 ys))) [0..<n])"
    by (auto simp: upt_conv_Cons map_Suc_upt [symmetric] comp_def add.commute simp del: upt_Suc)
  also have "\<dots> = take 32 ys @ drop 32 ys"
    using Suc.prems Suc.IH [of "drop 32 ys"] by simp
  finally show ?case by simp
qed

lemma decode_encode_binding:
  assumes "valid_layout L" and "wf_binding L b"
  shows "decode_binding L (encode_binding L b) = Some b"
proof -
  note vb = valid_layout_bounds [OF assms(1)]
  have u: "unat (of_nat (range b) :: u8) = range b" "unat (of_nat (next b) :: u8) = next b"
    "unat (of_nat (retire_pending b) :: u8) = retire_pending b"
    "unat (of_nat (pin_len b) :: u8) = pin_len b"
    using assms(2) vb by (auto simp: wf_binding_def)
  have "drop (BIND_HDR + 32) (encode_binding L b) = concat (ci b)"
    using assms(2) by (simp add: wf_binding_def encode_binding_def pmk_consts)
  then have drops: "drop (BIND_HDR + 32 + n) (encode_binding L b) = drop n (concat (ci b))" for n
    by (metis add.commute drop_drop)
  have ci: "map (\<lambda>i. take 32 (drop (BIND_HDR + 32 + i * 32) (encode_binding L b))) [0..<rounds L]
      = ci b"
    unfolding drops using assms(2) by (intro chunks_concat) (auto simp: wf_binding_def)
  have "length (encode_binding L b) = BIND_LEN (rounds L)"
    using assms(2) concat_chunks [of "ci b"]
    by (simp add: wf_binding_def encode_binding_def pmk_consts)
  then show ?thesis
    unfolding decode_binding_def ci
    using assms(2) u vb by (auto simp: encode_binding_def wf_binding_def pmk_consts)
qed

lemma decode_binding_wf:
  assumes "decode_binding L buf = Some b"
  shows "wf_binding L b" and "encode_binding L b = buf"
proof -
  from assms have len: "length buf = BIND_LEN (rounds L)"
    and b: "b = \<lparr>range = unat (buf ! 0), retire_pending = unat (buf ! 1), next = unat (buf ! 2),
                 pin_len = unat (buf ! 3), tag = take 32 (drop BIND_HDR buf),
                 ci = map (\<lambda>i. take 32 (drop (BIND_HDR + 32 + i * 32) buf)) [0..<rounds L]\<rparr>"
    by (auto simp: decode_binding_def split: if_splits)
  show "wf_binding L b"
    using assms len b
    by (auto simp: decode_binding_def wf_binding_def pmk_consts split: if_splits)
  have "concat (map (\<lambda>i. take 32 (drop (36 + i * 32) buf)) [0..<rounds L]) = drop 36 buf"
    using concat_of_chunks [of "drop 36 buf" "rounds L"] len
    by (simp add: pmk_consts add.commute)
  moreover have "buf = [buf ! 0, buf ! 1, buf ! 2, buf ! 3] @ take 32 (drop 4 buf) @ drop 36 buf"
    using nth4_take4 [of buf] len append_take_drop_id [of 4 buf] append_take_drop_id [of 32 "drop 4 buf"]
    by (simp add: pmk_consts)
  ultimately show "encode_binding L b = buf"
    by (simp add: encode_binding_def b pmk_consts)
qed

lemma encode_binding_length:
  assumes "valid_layout L" and "wf_binding L b"
  shows "\<not> bad_args (encode_binding L b)"
  using assms valid_layout_bounds(2) [OF assms(1)] concat_chunks [of "ci b"]
  by (simp add: bad_args_def encode_binding_def wf_binding_def rec_consts)

context framed_chip
begin

lemma retire_slots_frame:
  "inv c \<Longrightarrow> retire_slots T L r is c = (rc, c') \<Longrightarrow> inv c' \<and> view c' = view c"
proof (induction "is" arbitrary: c)
  case Nil
  then show ?case by simp
next
  case (Cons i xs)
  obtain x c1 where 1: "tropic_random T 32 c = (x, c1)" by fastforce
  note r1 = random_inv [OF Cons.prems(1) 1] random_frame [OF Cons.prems(1) 1]
  show ?case
  proof (cases x)
    case (Inl a)
    then show ?thesis using Cons.prems r1 by (auto simp: 1)
  next
    case (Inr d)
    obtain y c2 where 2: "tropic_mac_and_destroy T (md_slot L r i) d c1 = (y, c2)" by fastforce
    note r2 = md_inv [OF r1(1) 2] md_frame [OF r1(1) 2]
    show ?thesis
      using Cons.prems Cons.IH [OF r2(1)] r1 r2 Inr by (auto simp: 1 2 split: sum.splits)
  qed
qed

end

section \<open>No failure gives an attempt back\<close>

text \<open>
  What the kernel asks of the chip: the data memory behaves as a record pair needs it,
  and the other two operations it calls leave the data memory alone.
\<close>

locale kernel_chip = framed_chip T inv view + torn_chip T inv view K
  for T :: "'c tropic" and inv :: "'c \<Rightarrow> bool" and view :: "'c \<Rightarrow> nat \<Rightarrow> bytes" and K :: crypto

interpretation mock_kernel: kernel_chip "mock_tropic K E" mock_inv mock_view K for K E
  by unfold_locales

text \<open>\<open>spent L n pl\<close>: the payload is a binding that has at least \<open>n\<close> attempts spent.\<close>

definition spent :: "pin_md_layout \<Rightarrow> nat \<Rightarrow> bytes \<Rightarrow> bool" where
  "spent L n pl \<longleftrightarrow> (case decode_binding L pl of None \<Rightarrow> False | Some b \<Rightarrow> next b \<ge> n)"

lemma spent_mono: "spent L m pl \<Longrightarrow> n \<le> m \<Longrightarrow> spent L n pl"
  by (auto simp: spent_def split: option.splits)

lemma spent_encode:
  assumes "valid_layout L" and "wf_binding L b"
  shows "spent L n (encode_binding L b) \<longleftrightarrow> n \<le> next b"
  by (simp add: spent_def decode_encode_binding [OF assms])

definition floor_ok ::
  "'c tropic \<Rightarrow> crypto \<Rightarrow> ('c \<Rightarrow> bool) \<Rightarrow> ('c \<Rightarrow> nat \<Rightarrow> bytes) \<Rightarrow> pin_md_layout \<Rightarrow> nat
     \<Rightarrow> rec_pair \<Rightarrow> 'c \<Rightarrow> bool" where
  "floor_ok T K I view L n p c \<longleftrightarrow>
     pair_safe T K I view (p, c) \<and> pair_may K view (spent L n) (p, c)"

context kernel_chip
begin

lemma pair_frame:
  assumes "inv c'" and "view c' = view c"
  shows "floor_ok T K inv view L n p c \<Longrightarrow> floor_ok T K inv view L n p c'"
  using assms by (simp add: floor_ok_def pair_safe_def pair_ok_def pair_may_def)

lemma floor_inv: "floor_ok T K inv view L n p c \<Longrightarrow> inv c"
  by (simp add: floor_ok_def pair_safe_def pair_ok_def)

lemma retire_floor:
  assumes "floor_ok T K inv view L n p c" and "retire T L r c = (rc, c')"
  shows "floor_ok T K inv view L n p c'"
proof -
  have "inv c' \<and> view c' = view c"
    using retire_slots_frame floor_inv [OF assms(1)] assms(2) unfolding retire_def by blast
  then show ?thesis using pair_frame assms(1) by blast
qed

lemma load_floor:
  assumes "floor_ok T K inv view L n p c" and "load T K L p c = (st, bo, p', c')"
  shows "floor_ok T K inv view L n p' c'"
    and "st = REC_OK \<and> (\<exists>b. bo = Some b \<and> wf_binding L b \<and> n \<le> next b) \<or> st = REC_ERROR \<and> bo = None"
proof -
  obtain s1 o1 p1 c1 where r: "rec_pair_read T K (Some REC_PAYLOAD_MAX) p c = (s1, o1, p1, c1)"
    by (metis prod_cases4)
  have sf: "pair_safe T K inv view (p, c)" and my: "pair_may K view (spent L n) (p, c)"
    using assms(1) by (simp_all add: floor_ok_def)
  have st: "s1 = REC_OK \<or> s1 = REC_ERROR"
    using pair_crash.may_rd_st [OF sf my] r by simp
  have f1: "floor_ok T K inv view L n p1 c1"
    using pair_crash.rd_inv [OF sf] pair_crash.may_rd [OF sf my] r by (simp add: floor_ok_def)
  have ok: "\<exists>pl g b. o1 = Some (pl, g) \<and> decode_binding L pl = Some b \<and> wf_binding L b \<and> n \<le> next b"
    if "s1 = REC_OK"
  proof -
    obtain pl g where o: "o1 = Some (pl, g)" using pair_crash.rd_content [OF sf] r \<open>s1 = REC_OK\<close> by fastforce
    then have "spent L n pl" using pair_crash.may_rd_ok [OF sf my] r that by fastforce
    then show ?thesis using o decode_binding_wf(1) by (auto simp: spent_def split: option.splits)
  qed
  show "floor_ok T K inv view L n p' c'"
    using f1 assms(2) st ok by (auto simp: load_def r)
  show "st = REC_OK \<and> (\<exists>b. bo = Some b \<and> wf_binding L b \<and> n \<le> next b) \<or> st = REC_ERROR \<and> bo = None"
  proof (cases "s1 = REC_OK")
    case True
    then obtain pl g b where "o1 = Some (pl, g)" "decode_binding L pl = Some b" "wf_binding L b"
      "n \<le> next b" using ok by blast
    with True have "st = REC_OK" "bo = Some b" using assms(2) by (simp_all add: load_def r)
    then show ?thesis using \<open>wf_binding L b\<close> \<open>n \<le> next b\<close> by simp
  next
    case False
    then show ?thesis using st assms(2) by (auto simp: load_def r)
  qed
qed

lemma store_floor:
  assumes "floor_ok T K inv view L n p c" and "valid_layout L" and "wf_binding L b"
    and "n \<le> next b" and "store T K L b False p c = (rc, p', c')"
  shows "floor_ok T K inv view L n p' c'"
    and "rc = PMD_OK \<Longrightarrow> m \<le> next b \<Longrightarrow> floor_ok T K inv view L m p' c'"
proof -
  obtain st p1 c1 where w: "rec_pair_write T K (encode_binding L b) p c = (st, p1, c1)"
    by (metis prod_cases3)
  have e: "p' = p1" "c' = c1" "rc = PMD_OK \<longleftrightarrow> st = REC_OK"
    using assms(5) by (auto simp: store_def w split: if_splits)
  have sf: "pair_safe T K inv view (p, c)" and my: "pair_may K view (spent L n) (p, c)"
    using assms(1) by (simp_all add: floor_ok_def)
  have s1: "pair_safe T K inv view (p1, c1)" using pair_crash.wr_inv [OF sf] w by simp
  show "floor_ok T K inv view L n p' c'"
    using pair_crash.may_wr [OF sf my, of "encode_binding L b" st "(p1, c1)"]
      spent_encode [OF assms(2,3)] assms(4) w s1 e
    by (simp add: floor_ok_def)
  show "rc = PMD_OK \<Longrightarrow> m \<le> next b \<Longrightarrow> floor_ok T K inv view L m p' c'"
    using pair_crash.may_wr_ok [OF sf] spent_encode [OF assms(2,3)] w s1 e
    by (simp add: floor_ok_def)
qed

lemma settle_floor:
  assumes "floor_ok T K inv view L n p c" and "valid_layout L"
    and "settle T K L p c = (st, bo, p', c')"
  shows "floor_ok T K inv view L n p' c'"
    and "st = REC_OK \<and> (\<exists>b. bo = Some b \<and> wf_binding L b \<and> n \<le> next b) \<or> st = REC_ERROR \<and> bo = None"
proof -
  obtain s1 b1 p1 c1 where l: "load T K L p c = (s1, b1, p1, c1)" by (metis prod_cases4)
  note lf = load_floor [OF assms(1) l]
  have "floor_ok T K inv view L n p' c' \<and>
    (st = REC_OK \<and> (\<exists>b. bo = Some b \<and> wf_binding L b \<and> n \<le> next b) \<or> st = REC_ERROR \<and> bo = None)"
  proof (cases "s1 = REC_OK \<and> retire_pending (the b1) \<noteq> 0")
    case False
    then show ?thesis using lf assms(3) by (auto simp: settle_def l)
  next
    case True
    then obtain b where b: "b1 = Some b" "wf_binding L b" "n \<le> next b" using lf(2) by auto
    obtain rc c2 where r: "retire T L (1 - range b) c1 = (rc, c2)" by fastforce
    have f2: "floor_ok T K inv view L n p1 c2" by (rule retire_floor [OF lf(1) r])
    let ?b = "b\<lparr>retire_pending := 0\<rparr>"
    obtain rc2 p2 c3 where w: "store T K L ?b False p1 c2 = (rc2, p2, c3)" by (metis prod_cases3)
    have wf: "wf_binding L ?b" "n \<le> next ?b" using b by (simp_all add: wf_binding_def)
    show ?thesis
      using store_floor(1) [OF f2 assms(2) wf w] True b f2 assms(3) wf
      by (auto simp: settle_def l r [simplified] w Let_def split: if_splits)
  qed
  then show "floor_ok T K inv view L n p' c'"
    and "st = REC_OK \<and> (\<exists>b. bo = Some b \<and> wf_binding L b \<and> n \<le> next b) \<or> st = REC_ERROR \<and> bo = None"
    by blast+
qed

text \<open>The attempt is spent, durably, before the answer exists.\<close>

lemma try_floor:
  assumes "floor_ok T K inv view L n p c" and "valid_layout L"
    and "verify_try T K L mat p c = (rc, r, p', c')"
  shows "floor_ok T K inv view L n p' c'"
    and "rc = PMD_OK \<Longrightarrow> n < rounds L \<and> floor_ok T K inv view L (Suc n) p' c'"
    and "r \<noteq> None \<Longrightarrow> rc = PMD_OK"
proof -
  obtain st bo p1 c1 where l: "settle T K L p c = (st, bo, p1, c1)" by (metis prod_cases4)
  note sf = settle_floor [OF assms(1,2) l]
  have "floor_ok T K inv view L n p' c' \<and>
    (rc = PMD_OK \<longrightarrow> n < rounds L \<and> floor_ok T K inv view L (Suc n) p' c') \<and>
    (r \<noteq> None \<longrightarrow> rc = PMD_OK)"
  proof (cases "st = REC_OK \<and> next (the bo) < rounds L")
    case False
    then show ?thesis using sf assms(3) by (auto simp: verify_try_def l)
  next
    case True
    then obtain b where b: "bo = Some b" "wf_binding L b" "n \<le> next b" "next b < rounds L"
      using sf(2) by auto
    let ?b = "b\<lparr>next := Suc (next b)\<rparr>"
    have wf: "wf_binding L ?b" "n \<le> next ?b" using b by (simp_all add: wf_binding_def)
    obtain rc1 p2 c2 where w: "store T K L ?b False p1 c1 = (rc1, p2, c2)" by (metis prod_cases3)
    note s2 = store_floor [OF sf(1) assms(2) wf w]
    obtain x c3 where m: "tropic_mac_and_destroy T (md_slot L (range b) (next b)) (pin_v K L mat) c2
        = (x, c3)" by fastforce
    show ?thesis
    proof (cases "rc1 = PMD_OK")
      case False
      then show ?thesis using s2(1) True b w assms(3) by (simp add: verify_try_def l Let_def)
    next
      case ok: True
      have fr: "inv c3" "view c3 = view c2"
        using md_inv [OF floor_inv [OF s2(1)] m] md_frame [OF floor_inv [OF s2(1)] m] by simp_all
      have f3: "floor_ok T K inv view L n p2 c3" "floor_ok T K inv view L (Suc n) p2 c3"
        using pair_frame [OF fr] s2(1) s2(2) [of "Suc n"] ok b(3) by simp_all
      then show ?thesis
        using True b ok assms(3)
        by (auto simp: verify_try_def l w m Let_def split: sum.splits if_splits)
    qed
  qed
  then show "floor_ok T K inv view L n p' c'"
    and "rc = PMD_OK \<Longrightarrow> n < rounds L \<and> floor_ok T K inv view L (Suc n) p' c'"
    and "r \<noteq> None \<Longrightarrow> rc = PMD_OK"
    by blast+
qed

lemma status_floor:
  assumes "floor_ok T K inv view L n p c" and "valid_layout L"
    and "pin_md_kernel_status T K L p c = (st, a, l, p', c')"
  shows "floor_ok T K inv view L n p' c'" and "st \<noteq> PMD_ERROR \<Longrightarrow> a \<le> rounds L - n"
proof -
  obtain s1 bo p1 c1 where l: "settle T K L p c = (s1, bo, p1, c1)" by (metis prod_cases4)
  note sf = settle_floor [OF assms(1,2) l]
  show "floor_ok T K inv view L n p' c'" and "st \<noteq> PMD_ERROR \<Longrightarrow> a \<le> rounds L - n"
    using sf assms(2,3) valid_layout_bounds(2) [OF assms(2)]
    by (auto simp: pin_md_kernel_status_def l)
qed

end

text \<open>The public calls end where \<open>verify_try\<close> ends when the PIN does not open.\<close>

definition opens ::
  "'c tropic \<Rightarrow> crypto \<Rightarrow> pin_md_layout \<Rightarrow> bytes \<Rightarrow> rec_pair \<Rightarrow> 'c \<Rightarrow> bool" where
  "opens T K L mat p c \<longleftrightarrow> fst (snd (verify_try T K L mat p c)) \<noteq> None"

lemma verify_unopened:
  assumes "valid_layout L" and "\<not> opens T K L mat p c"
    and "verify_try T K L mat p c = (rc, r, p', c')"
  shows "pin_md_kernel_verify T K L mat p c = (rc, False, None, p', c')"
    and "2 \<le> ranges L \<Longrightarrow> pin_md_kernel_change T K L mat new l p c = (rc, False, None, p', c')"
proof -
  have "r = None" using assms(2,3) by (cases r) (auto simp: opens_def)
  then have v: "verify_s T K L mat p c = (rc, None, p', c')"
    using assms(3) by (cases rc) (simp_all add: verify_s_def)
  show "pin_md_kernel_verify T K L mat p c = (rc, False, None, p', c')"
    using assms(1) by (simp add: pin_md_kernel_verify_def v)
  show "2 \<le> ranges L \<Longrightarrow> pin_md_kernel_change T K L mat new l p c = (rc, False, None, p', c')"
    using assms(1) by (cases rc) (simp_all add: pin_md_kernel_change_def v)
qed

text \<open>
  \<open>guesses T K L I view n s s'\<close>: from \<open>s\<close> the system gets to \<open>s'\<close> by status queries,
  verifies and changes that do not open the binding, and power cycles, and \<open>n\<close> of the
  presented PINs were answered "wrong".  Every chip operation in between may fail.
\<close>

inductive guesses ::
  "'c tropic \<Rightarrow> crypto \<Rightarrow> pin_md_layout \<Rightarrow> ('c \<Rightarrow> bool) \<Rightarrow> ('c \<Rightarrow> nat \<Rightarrow> bytes) \<Rightarrow> nat
     \<Rightarrow> rec_pair \<times> 'c \<Rightarrow> rec_pair \<times> 'c \<Rightarrow> bool"
  for T :: "'c tropic" and K :: crypto and L :: pin_md_layout and I :: "'c \<Rightarrow> bool"
    and view :: "'c \<Rightarrow> nat \<Rightarrow> bytes" where
  guess_none: "guesses T K L I view 0 s s"
| guess_verify: "guesses T K L I view n s (p, c) \<Longrightarrow> \<not> opens T K L mat p c \<Longrightarrow>
    pin_md_kernel_verify T K L mat p c = (rc, ok, k, p', c') \<Longrightarrow>
    guesses T K L I view (if rc = PMD_OK then Suc n else n) s (p', c')"
| guess_change: "guesses T K L I view n s (p, c) \<Longrightarrow> \<not> opens T K L mat p c \<Longrightarrow>
    pin_md_kernel_change T K L mat new l p c = (rc, ok, k, p', c') \<Longrightarrow>
    guesses T K L I view (if rc = PMD_OK then Suc n else n) s (p', c')"
| guess_status: "guesses T K L I view n s (p, c) \<Longrightarrow>
    pin_md_kernel_status T K L p c = (st, a, l, p', c') \<Longrightarrow> guesses T K L I view n s (p', c')"
| guess_reboot: "guesses T K L I view n s (p, c) \<Longrightarrow> power_cycle I view f \<Longrightarrow>
    guesses T K L I view n s (p\<lparr>uncertain := False\<rparr>, f c)"

context kernel_chip
begin

lemma floor_reboot:
  "floor_ok T K inv view L n p c \<Longrightarrow> power_cycle inv view f \<Longrightarrow>
     floor_ok T K inv view L n (p\<lparr>uncertain := False\<rparr>) (f c)"
  by (auto simp: floor_ok_def pair_safe_def pair_ok_def pair_may_def power_cycle_def may_hold_def)

lemma guesses_floor:
  assumes "guesses T K L inv view n s s'" and "valid_layout L"
    and "floor_ok T K inv view L m (fst s) (snd s)" and "m \<le> rounds L"
  shows "floor_ok T K inv view L (m + n) (fst s') (snd s') \<and> m + n \<le> rounds L"
  using assms(1,3)
proof (induction rule: guesses.induct)
  case (guess_none s)
  then show ?case using assms(4) by simp
next
  case (guess_verify n s p c mat rc ok k p' c')
  obtain rc1 r p1 c1 where t: "verify_try T K L mat p c = (rc1, r, p1, c1)" by (metis prod_cases4)
  show ?case
    using guess_verify try_floor(1,2) [OF _ assms(2) t, of "m + n"]
      verify_unopened(1) [OF assms(2) _ t] by auto
next
  case (guess_change n s p c mat new l rc ok k p' c')
  obtain rc1 r p1 c1 where t: "verify_try T K L mat p c = (rc1, r, p1, c1)" by (metis prod_cases4)
  show ?case
  proof (cases "2 \<le> ranges L")
    case True
    then show ?thesis
      using guess_change try_floor(1,2) [OF _ assms(2) t, of "m + n"]
        verify_unopened(2) [OF assms(2) _ t] by auto
  next
    case False
    then show ?thesis using guess_change by (auto simp: pin_md_kernel_change_def)
  qed
next
  case (guess_status n s p c st a l p' c')
  then show ?case using status_floor(1) [OF _ assms(2)] by auto
next
  case (guess_reboot n s p c f)
  then show ?case using floor_reboot by auto
qed

lemma floor_blocked:
  assumes "floor_ok T K inv view L (rounds L) p c" and "valid_layout L"
  shows "fst (pin_md_kernel_verify T K L mat p c) \<noteq> PMD_OK"
proof -
  obtain rc r p1 c1 where t: "verify_try T K L mat p c = (rc, r, p1, c1)" by (metis prod_cases4)
  have "rc \<noteq> PMD_OK" using try_floor(2) [OF assms t] by auto
  then have "verify_s T K L mat p c = (rc, None, p1, c1)"
    by (cases rc) (simp_all add: verify_s_def t)
  then show ?thesis using \<open>rc \<noteq> PMD_OK\<close> assms(2) by (simp add: pin_md_kernel_verify_def)
qed

end

end
