(* ===== verification/Pin_Md_Frame.thy ===== *)
theory Pin_Md_Frame
  imports Pin_Md_Kernel Rec_Client
begin

text \<open>
  Which data-memory slots the PIN kernel of \<^verbatim>\<open>pin_md_kernel.c\<close> may touch: whatever it does and
  whatever fails, only the two copies of the binding's own record change, and the pair is
  the one it was or is marked uncertain.
\<close>

section \<open>The record of a binding, and nothing else\<close>

definition pair_only ::
  "('c \<Rightarrow> bool) \<Rightarrow> ('c \<Rightarrow> nat \<Rightarrow> bytes) \<Rightarrow> rec_pair \<Rightarrow> 'c \<Rightarrow> rec_pair \<Rightarrow> 'c \<Rightarrow> bool" where
  "pair_only I view p c p' c' \<longleftrightarrow> I c' \<and> (\<forall>t. t \<noteq> slot_a p \<longrightarrow> t \<noteq> slot_b p \<longrightarrow> view c' t = view c t) \<and>
     (p' = p \<or> p' = mark_uncertain p)"

lemma pair_only_refl: "I c \<Longrightarrow> pair_only I view p c p c"
  by (simp add: pair_only_def)

lemma pair_only_slots: "pair_only I view p c p' c' \<Longrightarrow> slot_a p' = slot_a p \<and> slot_b p' = slot_b p"
  by (auto simp: pair_only_def)

lemma pair_only_inv: "pair_only I view p c p' c' \<Longrightarrow> I c'"
  by (simp add: pair_only_def)

lemma pair_only_trans:
  "pair_only I view p c p1 c1 \<Longrightarrow> pair_only I view p1 c1 p2 c2 \<Longrightarrow> pair_only I view p c p2 c2"
  by (auto simp: pair_only_def mark_uncertain_def)

lemma pair_only_same: "I c1 \<and> view c1 = view c \<Longrightarrow> pair_only I view p c p c1"
  by (simp add: pair_only_def)

context framed_chip
begin

lemma clear_ranges_frame:
  "inv c \<Longrightarrow> clear_ranges T L rs c = (rc, c') \<Longrightarrow> inv c' \<and> view c' = view c"
proof (induction rs arbitrary: c)
  case Nil
  then show ?case by simp
next
  case (Cons r rs)
  obtain rc1 c1 where 1: "retire T L r c = (rc1, c1)" by fastforce
  have "inv c1 \<and> view c1 = view c"
    using retire_slots_frame [OF Cons.prems(1)] 1 unfolding retire_def by blast
  then show ?case using Cons.prems Cons.IH [of c1] by (auto simp: 1 split: if_splits)
qed

lemma store_frame:
  assumes "inv c" and "slot_a p \<noteq> slot_b p" and "crypto_ok K"
    and "store T K L b False p c = (rc, p', c')"
  shows "inv c' \<and> (\<forall>t. t \<noteq> slot_a p \<longrightarrow> t \<noteq> slot_b p \<longrightarrow> view c' t = view c t)"
    and "p' = p \<or> p' = mark_uncertain p"
proof -
  obtain st p1 c1 where w: "rec_pair_write T K (encode_binding L b) p c = (st, p1, c1)"
    by (metis prod_cases3)
  have e: "p' = p1" "c' = c1" using assms(4) by (simp_all add: store_def w)
  note ws = write_spec [OF assms(1-3) w]
  show "inv c' \<and> (\<forall>t. t \<noteq> slot_a p \<longrightarrow> t \<noteq> slot_b p \<longrightarrow> view c' t = view c t)"
    and "p' = p \<or> p' = mark_uncertain p"
    using ws e by auto
qed

lemma settle_frame:
  assumes "inv c" and "slot_a p \<noteq> slot_b p" and "crypto_ok K"
    and "settle T K L p c = (st, bo, p', c')"
  shows "inv c'" and "t \<noteq> slot_a p \<Longrightarrow> t \<noteq> slot_b p \<Longrightarrow> view c' t = view c t"
    and "p' = p \<or> p' = mark_uncertain p"
    and "st = REC_ABSENT \<Longrightarrow> view c (slot_a p) = [] \<and> view c (slot_b p) = []"
    and "st = REC_OK \<Longrightarrow> bo \<noteq> None"
proof -
  obtain s1 o1 p1 c1 where r: "rec_pair_read T K (Some REC_PAYLOAD_MAX) p c = (s1, o1, p1, c1)"
    by (metis prod_cases4)
  note rf = rec_pair_read_frame [OF assms(1) r]
  obtain sl bl px cx where lx: "load T K L p c = (sl, bl, px, cx)" by (metis prod_cases4)
  then have l: "load T K L p c = (sl, bl, p1, c1)"
    by (auto simp: load_def r split: rec_status.splits option.splits prod.splits if_splits)
  have o1: "o1 \<noteq> None" if "s1 = REC_OK"
    by (rule rec_pair_read_ok [OF assms(1,2), of K "Some REC_PAYLOAD_MAX" o1 p1 c1])
       (use r that in auto)
  have la: "sl = REC_ABSENT \<Longrightarrow> s1 = REC_ABSENT"
    using l by (auto simp: load_def r split: rec_status.splits option.splits prod.splits if_splits)
  have lo: "sl = REC_OK \<Longrightarrow> bl \<noteq> None"
  proof (cases "s1 = REC_OK")
    case True
    then obtain x g where "o1 = Some (x, g)" using o1 by fastforce
    then show "sl = REC_OK \<Longrightarrow> bl \<noteq> None"
      using l r True by (cases "decode_binding L x") (auto simp: load_def)
  next
    case False
    then show "sl = REC_OK \<Longrightarrow> bl \<noteq> None"
      using l r by (cases s1) (auto simp: load_def)
  qed
  have p1: "slot_a p1 = slot_a p" "slot_b p1 = slot_b p" using rf(3) by auto
  have *: "inv c' \<and> (\<forall>t. t \<noteq> slot_a p \<longrightarrow> t \<noteq> slot_b p \<longrightarrow> view c' t = view c t) \<and>
    (p' = p \<or> p' = mark_uncertain p) \<and> (st = REC_ABSENT \<longrightarrow> sl = REC_ABSENT) \<and>
    (st = REC_OK \<longrightarrow> bo \<noteq> None)"
  proof (cases "sl = REC_OK \<and> retire_pending (the bl) \<noteq> 0")
    case False
    then show ?thesis using assms(4) rf la lo by (auto simp: settle_def l split: rec_status.splits option.splits)
  next
    case True
    then obtain b where b: "bl = Some b" using lo by auto
    obtain rc c2 where 2: "retire T L (1 - range b) c1 = (rc, c2)" by fastforce
    have f2: "inv c2 \<and> view c2 = view c1"
      using retire_slots_frame [OF rf(1)] 2 unfolding retire_def by blast
    obtain rc2 p2 c3 where 3: "store T K L (b\<lparr>retire_pending := 0\<rparr>) False p1 c2 = (rc2, p2, c3)"
      by (metis prod_cases3)
    have ne: "slot_a p1 \<noteq> slot_b p1" using p1 assms(2) by simp
    note sf = store_frame [OF conjunct1 [OF f2] ne assms(3) 3]
    have p2: "p2 = p \<or> p2 = mark_uncertain p"
      using sf(2) rf(3) by (auto simp: mark_uncertain_def)
    show ?thesis
      using assms(4) True b rf f2 sf p1 p2
      by (auto simp: settle_def l 2 [simplified] 3 Let_def split: if_splits)
  qed
  then show "inv c'" and "t \<noteq> slot_a p \<Longrightarrow> t \<noteq> slot_b p \<Longrightarrow> view c' t = view c t"
    and "p' = p \<or> p' = mark_uncertain p"
    and "st = REC_ABSENT \<Longrightarrow> view c (slot_a p) = [] \<and> view c (slot_b p) = []"
    and "st = REC_OK \<Longrightarrow> bo \<noteq> None"
    using absent_read [OF assms(1)] r la by blast+
qed

lemma status_frame:
  assumes "inv c" and "slot_a p \<noteq> slot_b p" and "crypto_ok K"
    and "pin_md_kernel_status T K L p c = (st, a, l, p', c')"
  shows "inv c'" and "t \<noteq> slot_a p \<Longrightarrow> t \<noteq> slot_b p \<Longrightarrow> view c' t = view c t"
    and "p' = p \<or> p' = mark_uncertain p"
    and "st = PMD_ABSENT \<Longrightarrow> view c (slot_a p) = [] \<and> view c (slot_b p) = []"
proof -
  obtain s1 bo p1 c1 where l: "settle T K L p c = (s1, bo, p1, c1)" by (metis prod_cases4)
  note sf = settle_frame [OF assms(1-3) l]
  show "inv c'" and "t \<noteq> slot_a p \<Longrightarrow> t \<noteq> slot_b p \<Longrightarrow> view c' t = view c t"
    and "p' = p \<or> p' = mark_uncertain p"
    and "st = PMD_ABSENT \<Longrightarrow> view c (slot_a p) = [] \<and> view c (slot_b p) = []"
    using assms(1,4) sf
    by (auto simp: pin_md_kernel_status_def l split: if_splits rec_status.splits option.splits)
qed

lemma store_only:
  assumes "inv c" and "slot_a p \<noteq> slot_b p" and "crypto_ok K" and "store T K L b first p c = (rc, p', c')"
  shows "pair_only inv view p c p' c'"
proof -
  obtain st p1 c1 where w: "(if first then rec_pair_init T K (encode_binding L b) p c
      else rec_pair_write T K (encode_binding L b) p c) = (st, p1, c1)" by (metis prod_cases3)
  have e: "p' = p1" "c' = c1" using assms(4) by (simp_all add: store_def Let_def w)
  show ?thesis
    using w e write_spec(1-3) [OF assms(1-3)] init_spec(1-3) [OF assms(1-3)]
    by (auto simp: pair_only_def split: if_splits)
qed

lemma settle_only:
  assumes "inv c" and "slot_a p \<noteq> slot_b p" and "crypto_ok K" and "settle T K L p c = (st, bo, p', c')"
  shows "pair_only inv view p c p' c'"
  using settle_frame(1-3) [OF assms] by (auto simp: pair_only_def)

lemma setup_slots_frame:
  "inv c \<Longrightarrow> setup_slots T K L r u v mat s is c = (x, c') \<Longrightarrow> inv c' \<and> view c' = view c"
proof (induction "is" arbitrary: c x c')
  case Nil
  then show ?case by simp
next
  case (Cons i xs)
  obtain r1 c1 where 1: "tropic_mac_and_destroy T (md_slot L r i) u c = (r1, c1)" by fastforce
  obtain r2 c2 where 2: "tropic_mac_and_destroy T (md_slot L r i) v c1 = (r2, c2)" by fastforce
  obtain r3 c3 where 3: "tropic_mac_and_destroy T (md_slot L r i) u c2 = (r3, c3)" by fastforce
  obtain y c4 where 4: "setup_slots T K L r u v mat s xs c3 = (y, c4)" by fastforce
  note i1 = md_inv [OF Cons.prems(1) 1] and f1 = md_frame [OF Cons.prems(1) 1]
  note i2 = md_inv [OF i1 2] and f2 = md_frame [OF i1 2]
  note i3 = md_inv [OF i2 3] and f3 = md_frame [OF i2 3]
  note ih = Cons.IH [OF i3 4]
  show ?case
    using Cons.prems(2) i1 i2 i3 f1 f2 f3 ih by (auto simp: 1 2 3 4 Let_def split: sum.splits option.splits)
qed

lemma restore_slots_frame:
  "inv c \<Longrightarrow> restore_slots T L r u is c = (ok, c') \<Longrightarrow> inv c' \<and> view c' = view c"
proof (induction "is" arbitrary: c c' ok)
  case Nil
  then show ?case by simp
next
  case (Cons i xs)
  obtain r1 c1 where 1: "tropic_mac_and_destroy T (md_slot L r i) u c = (r1, c1)" by fastforce
  note i1 = md_inv [OF Cons.prems(1) 1] and f1 = md_frame [OF Cons.prems(1) 1]
  show ?case using Cons.prems(2) i1 f1 Cons.IH [OF i1] by (auto simp: 1 split: sum.splits)
qed

lemma retire_frame: "inv c \<Longrightarrow> retire T L r c = (rc, c') \<Longrightarrow> inv c' \<and> view c' = view c"
  unfolding retire_def by (rule retire_slots_frame)

lemma setup_s_only:
  assumes "inv c" and "slot_a p \<noteq> slot_b p" and "crypto_ok K" and "setup_s T K L mat plen s p c = (rc, p', c')"
  shows "pair_only inv view p c p' c'"
proof -
  obtain st cur p1 c1 where 1: "settle T K L p c = (st, cur, p1, c1)" by (metis prod_cases4)
  let ?hb = "st = REC_OK" let ?nr = "if ?hb then 1 - range (the cur) else 0"
  have s1: "pair_only inv view p c p1 c1" by (rule settle_only [OF assms(1-3) 1])
  obtain cs c2 where 2: "setup_slots T K L ?nr (kdf K s 1) (pin_v K L mat) mat s [0..<rounds L] c1 = (cs, c2)"
    by fastforce
  have s2: "pair_only inv view p c p1 c2"
    by (rule pair_only_trans [OF s1 pair_only_same]) (rule setup_slots_frame [OF pair_only_inv [OF s1] 2])
  have ne: "slot_a p1 \<noteq> slot_b p1" using pair_only_slots [OF s1] assms(2) by simp
  show ?thesis
  proof (cases "st \<noteq> REC_OK \<and> st \<noteq> REC_ABSENT \<or> ?hb \<and> ranges L < 2 \<or> cs = None")
    case True
    then show ?thesis using assms(4) s1 s2 by (auto simp: setup_s_def 1 2 Let_def split: if_splits)
  next
    case False
    then obtain cil where cs: "cs = Some cil" by auto
    let ?nb = "\<lparr>range = ?nr, retire_pending = (if ?hb then 1 else 0), next = 0, pin_len = plen, tag = kdf K s 0, ci = cil\<rparr>"
    obtain rc1 p2 c3 where 3: "store T K L ?nb (\<not> ?hb) p1 c2 = (rc1, p2, c3)" by (metis prod_cases3)
    have s3: "pair_only inv view p c p2 c3"
      by (rule pair_only_trans [OF s2]) (rule store_only [OF pair_only_inv [OF s2] ne assms(3) 3])
    have ne2: "slot_a p2 \<noteq> slot_b p2" using pair_only_slots [OF s3] assms(2) by simp
    obtain rc2 c4 where 4: "retire T L (range (the cur)) c3 = (rc2, c4)" by fastforce
    have s4: "pair_only inv view p c p2 c4"
      by (rule pair_only_trans [OF s3 pair_only_same]) (rule retire_frame [OF pair_only_inv [OF s3] 4])
    obtain rc3 p3 c5 where 5: "store T K L (?nb\<lparr>retire_pending := 0\<rparr>) False p2 c4 = (rc3, p3, c5)"
      by (metis prod_cases3)
    have s5: "pair_only inv view p c p3 c5"
      by (rule pair_only_trans [OF s4]) (rule store_only [OF pair_only_inv [OF s4] ne2 assms(3) 5])
    have "(p', c') \<in> {(p2, c3), (p2, c4), (p3, c5)}"
      using assms(4) False cs 3 4 5
      by (simp add: setup_s_def 1 2 [simplified] cs Let_def split: if_splits)
    then show ?thesis using s3 s4 s5 by auto
  qed
qed

lemma verify_try_only:
  assumes "inv c" and "slot_a p \<noteq> slot_b p" and "crypto_ok K" and "verify_try T K L mat p c = (rc, o1, p', c')"
  shows "pair_only inv view p c p' c'"
proof -
  obtain st bo p1 c1 where 1: "settle T K L p c = (st, bo, p1, c1)" by (metis prod_cases4)
  have s1: "pair_only inv view p c p1 c1" by (rule settle_only [OF assms(1-3) 1])
  have ne: "slot_a p1 \<noteq> slot_b p1" using pair_only_slots [OF s1] assms(2) by simp
  show ?thesis
  proof (cases "st = REC_OK \<and> bo \<noteq> None \<and> next (the bo) < rounds L")
    case False
    then show ?thesis using assms(4) s1
      by (auto simp: verify_try_def 1 split: rec_status.splits option.splits if_splits)
  next
    case True
    then obtain b where b: "st = REC_OK" "bo = Some b" "\<not> next b \<ge> rounds L" by auto
    obtain rc1 p2 c2 where 2: "store T K L (b\<lparr>next := next b + 1\<rparr>) False p1 c1 = (rc1, p2, c2)" by (metis prod_cases3)
    have s2: "pair_only inv view p c p2 c2"
      by (rule pair_only_trans [OF s1]) (rule store_only [OF pair_only_inv [OF s1] ne assms(3) 2])
    obtain w c3 where 3: "tropic_mac_and_destroy T (md_slot L (range b) (next b)) (pin_v K L mat) c2 = (w, c3)"
      by fastforce
    have s3: "pair_only inv view p c p2 c3"
      by (rule pair_only_trans [OF s2 pair_only_same])
         (use md_inv [OF pair_only_inv [OF s2] 3] md_frame [OF pair_only_inv [OF s2] 3] in simp)
    have "(p', c') \<in> {(p2, c2), (p2, c3)}"
      using assms(4) b by (auto simp: verify_try_def 1 2 [simplified] 3 Let_def split: if_splits sum.splits)
    then show ?thesis using s2 s3 by auto
  qed
qed

lemma verify_s_only:
  assumes "inv c" and "slot_a p \<noteq> slot_b p" and "crypto_ok K" and "verify_s T K L mat p c = (rc, so, p', c')"
  shows "pair_only inv view p c p' c'"
proof -
  obtain r1 o1 p2 c3 where 1: "verify_try T K L mat p c = (r1, o1, p2, c3)" by (metis prod_cases4)
  have s1: "pair_only inv view p c p2 c3" by (rule verify_try_only [OF assms(1-3) 1])
  have ne: "slot_a p2 \<noteq> slot_b p2" using pair_only_slots [OF s1] assms(2) by simp
  show ?thesis
  proof (cases "r1 = PMD_OK \<and> o1 \<noteq> None")
    case False
    then show ?thesis using assms(4) s1
      by (auto simp: verify_s_def 1 split: pmd_rc.splits option.splits prod.splits)
  next
    case True
    then obtain b1 s where o: "r1 = PMD_OK" "o1 = Some (b1, s)" by auto
    obtain ok c4 where 2: "restore_slots T L (range b1) (kdf K s 1) [0..<rounds L] c3 = (ok, c4)" by fastforce
    have s2: "pair_only inv view p c p2 c4"
      by (rule pair_only_trans [OF s1 pair_only_same]) (rule restore_slots_frame [OF pair_only_inv [OF s1] 2])
    obtain rc2 p3 c5 where 3: "store T K L (b1\<lparr>next := 0\<rparr>) False p2 c4 = (rc2, p3, c5)" by (metis prod_cases3)
    have s3: "pair_only inv view p c p3 c5"
      by (rule pair_only_trans [OF s2]) (rule store_only [OF pair_only_inv [OF s2] ne assms(3) 3])
    have "(p', c') \<in> {(p2, c4), (p3, c5)}"
      using assms(4) o by (auto simp: verify_s_def 1 2 3 Let_def split: if_splits)
    then show ?thesis using s2 s3 by auto
  qed
qed

text \<open>The public operations.\<close>

lemma kernel_status_only:
  assumes "inv c" and "slot_a p \<noteq> slot_b p" and "crypto_ok K"
    and "pin_md_kernel_status T K L p c = (st, a, l, p', c')"
  shows "pair_only inv view p c p' c'"
  using status_frame(1-3) [OF assms] by (auto simp: pair_only_def)

lemma kernel_setup_only:
  assumes "inv c" and "slot_a p \<noteq> slot_b p" and "crypto_ok K"
    and "pin_md_kernel_setup T K L mat plen p c = (rc, ko, p', c')"
  shows "pair_only inv view p c p' c'"
proof -
  obtain x c1 where 1: "tropic_random T 32 c = (x, c1)" by fastforce
  have s1: "pair_only inv view p c p c1"
    by (rule pair_only_same) (use random_inv [OF assms(1) 1] random_frame [OF assms(1) 1] in simp)
  show ?thesis
  proof (cases "valid_layout L \<and> (\<exists>s. x = Inr s)")
    case False
    then show ?thesis using assms(1,4) s1 by (auto simp: pin_md_kernel_setup_def 1 pair_only_refl split: if_splits sum.splits)
  next
    case True
    then obtain s where x: "x = Inr s" by auto
    obtain r2 p1 c2 where 2: "setup_s T K L mat plen s p c1 = (r2, p1, c2)" by (metis prod_cases3)
    have "p' = p1" "c' = c2" using assms(4) True by (simp_all add: pin_md_kernel_setup_def 1 x 2)
    then show ?thesis
      using pair_only_trans [OF s1] setup_s_only [OF pair_only_inv [OF s1] assms(2,3) 2] by simp
  qed
qed

lemma kernel_verify_only:
  assumes "inv c" and "slot_a p \<noteq> slot_b p" and "crypto_ok K"
    and "pin_md_kernel_verify T K L mat p c = (rc, ok, ko, p', c')"
  shows "pair_only inv view p c p' c'"
  using assms(4) verify_s_only [OF assms(1-3)] pair_only_refl [of inv c] assms(1)
  by (auto simp: pin_md_kernel_verify_def split: if_splits prod.splits)

lemma kernel_change_only:
  assumes "inv c" and "slot_a p \<noteq> slot_b p" and "crypto_ok K"
    and "pin_md_kernel_change T K L old new plen p c = (rc, ok, ko, p', c')"
  shows "pair_only inv view p c p' c'"
proof -
  obtain r1 so p1 c1 where 1: "verify_s T K L old p c = (r1, so, p1, c1)" by (metis prod_cases4)
  have s1: "pair_only inv view p c p1 c1" by (rule verify_s_only [OF assms(1-3) 1])
  have ne: "slot_a p1 \<noteq> slot_b p1" using pair_only_slots [OF s1] assms(2) by simp
  show ?thesis
  proof (cases "valid_layout L \<and> \<not> ranges L < 2 \<and> r1 = PMD_OK \<and> so \<noteq> None")
    case False
    then show ?thesis using assms(1,4) s1
      by (auto simp: pin_md_kernel_change_def 1 pair_only_refl split: if_splits pmd_rc.splits option.splits)
  next
    case True
    then obtain s where so: "r1 = PMD_OK" "so = Some s" by auto
    obtain r2 p2 c2 where 2: "setup_s T K L new plen s p1 c1 = (r2, p2, c2)" by (metis prod_cases3)
    have "p' = p2" "c' = c2" using assms(4) True so by (auto simp: pin_md_kernel_change_def 1 2 split: if_splits)
    then show ?thesis
      using pair_only_trans [OF s1] setup_s_only [OF pair_only_inv [OF s1] ne assms(3) 2] by simp
  qed
qed

lemma kernel_clear_only:
  assumes "inv c" and "slot_a p \<noteq> slot_b p" and "pin_md_kernel_clear T L p c = (rc, p', c')"
  shows "pair_only inv view p c p' c'"
    and "rc = PMD_OK \<Longrightarrow> view c' (slot_a p) = [] \<and> view c' (slot_b p) = [] \<and> p' = p"
proof -
  obtain r1 c1 where 1: "clear_ranges T L [0..<ranges L] c = (r1, c1)" by fastforce
  have s1: "pair_only inv view p c p c1" by (rule pair_only_same) (rule clear_ranges_frame [OF assms(1) 1])
  obtain st p1 c2 where 2: "rec_pair_clear T p c1 = (st, p1, c2)" by (metis prod_cases3)
  note cs = clear_spec [OF pair_only_inv [OF s1] assms(2) 2]
  have s2: "pair_only inv view p c p1 c2"
    by (rule pair_only_trans [OF s1]) (use cs(1-3) in \<open>auto simp: pair_only_def\<close>)
  show "pair_only inv view p c p' c'"
    and "rc = PMD_OK \<Longrightarrow> view c' (slot_a p) = [] \<and> view c' (slot_b p) = [] \<and> p' = p"
    using assms(1,3) s1 s2 cs(4) by (auto simp: pin_md_kernel_clear_def 1 2 pair_only_refl split: if_splits)
qed

end

end
