(* ===== verification/Pgp_Pin.thy ===== *)
theory Pgp_Pin
  imports Openpgp_Card Pin_Md_Frame
begin

text \<open>
  The OpenPGP PINs PW1, PW3 and the resetting code (RC), \<^verbatim>\<open>firmware/src/openpgp/pgp_pin.c\<close>: each is
  one binding of the PIN kernel, and O3 holds the guard that says whether there is an RC.
  The lemmas say which chip slots each operation can touch.
\<close>

section \<open>PINs, their records and their layouts\<close>

definition OPENPGP_PIN_PW1 :: nat where "OPENPGP_PIN_PW1 = 0"
definition OPENPGP_PIN_PW3 :: nat where "OPENPGP_PIN_PW3 = 1"
definition OPENPGP_PIN_RC :: nat where "OPENPGP_PIN_RC = 2"
definition OPENPGP_PIN_ROUNDS :: nat where "OPENPGP_PIN_ROUNDS = 3"
definition OPENPGP_PW1_MIN_LEN :: nat where "OPENPGP_PW1_MIN_LEN = 6"
definition OPENPGP_PW3_MIN_LEN :: nat where "OPENPGP_PW3_MIN_LEN = 8"
definition OPENPGP_RC_MIN_LEN :: nat where "OPENPGP_RC_MIN_LEN = 8"
definition OPENPGP_PIN_MAX_LEN :: nat where "OPENPGP_PIN_MAX_LEN = 64"
definition MAT_LEN :: nat where "MAT_LEN = 32"

lemmas pgp_pins = OPENPGP_PIN_PW1_def OPENPGP_PIN_PW3_def OPENPGP_PIN_RC_def
lemmas pgp_pin_lens = OPENPGP_PW1_MIN_LEN_def OPENPGP_PW3_MIN_LEN_def OPENPGP_RC_MIN_LEN_def OPENPGP_PIN_MAX_LEN_def

datatype pgp_pin_state = PGP_PIN_ACTIVE | PGP_PIN_BLOCKED | PGP_PIN_NOT_SET | PGP_PIN_ERROR

definition PGP_PIN_OK :: int where "PGP_PIN_OK = 0"
definition PGP_PIN_WRONG :: int where "PGP_PIN_WRONG = - 1"
definition PGP_PIN_BLK :: int where "PGP_PIN_BLK = - 2"
definition PGP_PIN_UNSET :: int where "PGP_PIN_UNSET = - 3"
definition PGP_PIN_BAD_LEN :: int where "PGP_PIN_BAD_LEN = - 4"
definition PGP_PIN_ERR :: int where "PGP_PIN_ERR = - 5"

lemmas pgp_pin_codes = PGP_PIN_OK_def PGP_PIN_WRONG_def PGP_PIN_BLK_def PGP_PIN_UNSET_def PGP_PIN_BAD_LEN_def
  PGP_PIN_ERR_def

text \<open>
  The RAM state of the OpenPGP side: the state O3, the pairs O4, O5, O6 by PIN, and the boot
  counter of \<^verbatim>\<open>pgp_lifecycle.c\<close>.
\<close>

record pgp =
  p_o3 :: pgp_state
  p_rec :: "nat \<Rightarrow> rec_pair"
  s_boot_tries :: u8

definition PIN_REC :: "nat \<Rightarrow> rec_pair" where
  "PIN_REC which = \<lparr>slot_a = 50 + which, slot_b = 53 + which, obj = 4 + of_nat which, schema = 1, uncertain = False\<rparr>"

definition PGP_LAYOUT :: "nat \<Rightarrow> pin_md_layout" where
  "PGP_LAYOUT which =
     (if which = OPENPGP_PIN_PW1 then \<lparr>base = (\<lambda>r. if r = 0 then 16 else 19), ranges = 2, rounds = OPENPGP_PIN_ROUNDS, mat_len = MAT_LEN\<rparr>
      else if which = OPENPGP_PIN_PW3 then \<lparr>base = (\<lambda>r. if r = 0 then 22 else 25), ranges = 2, rounds = OPENPGP_PIN_ROUNDS, mat_len = MAT_LEN\<rparr>
      else \<lparr>base = (\<lambda>r. if r = 0 then 28 else 0), ranges = 1, rounds = OPENPGP_PIN_ROUNDS, mat_len = MAT_LEN\<rparr>)"

definition pgp_pin_start :: pgp where
  "pgp_pin_start = \<lparr>p_o3 = pgp_start, p_rec = PIN_REC, s_boot_tries = 0\<rparr>"

definition FACTORY_PW1 :: bytes where "FACTORY_PW1 = [0x31, 0x32, 0x33, 0x34, 0x35, 0x36]"
definition FACTORY_PW3 :: bytes where "FACTORY_PW3 = [0x31, 0x32, 0x33, 0x34, 0x35, 0x36, 0x37, 0x38]"

section \<open>Operations\<close>

definition pin_which_ok :: "nat \<Rightarrow> bool" where
  "pin_which_ok which \<longleftrightarrow> which \<ge> OPENPGP_PIN_PW1 \<and> which \<le> OPENPGP_PIN_RC"

definition pin_min_len :: "nat \<Rightarrow> nat" where
  "pin_min_len which = (if which = OPENPGP_PIN_PW1 then OPENPGP_PW1_MIN_LEN
     else if which = OPENPGP_PIN_PW3 then OPENPGP_PW3_MIN_LEN else OPENPGP_RC_MIN_LEN)"

definition pin_len_ok :: "nat \<Rightarrow> bytes \<Rightarrow> bool" where
  "pin_len_ok which pin \<longleftrightarrow> length pin \<ge> pin_min_len which \<and> length pin \<le> OPENPGP_PIN_MAX_LEN"

definition material :: "crypto \<Rightarrow> bytes \<Rightarrow> bytes" where
  "material K pin = sha256 K pin"

definition put_rec :: "nat \<Rightarrow> rec_pair \<Rightarrow> pgp \<Rightarrow> pgp" where
  "put_rec which q p = p\<lparr>p_rec := (p_rec p)(which := q)\<rparr>"

text \<open>The state with the attempts left and the PIN length.\<close>

definition pgp_pin_status ::
  "'c tropic \<Rightarrow> crypto \<Rightarrow> nat \<Rightarrow> pgp \<Rightarrow> 'c \<Rightarrow> pgp_pin_state \<times> nat \<times> nat \<times> pgp \<times> 'c" where
  "pgp_pin_status T K which p c =
     (let lc = openpgp_state_lifecycle (p_o3 p) in
      if \<not> pin_which_ok which then (PGP_PIN_ERROR, 0, 0, p, c)
      else if which = OPENPGP_PIN_RC \<and> lc \<noteq> PGP_LC_OPERATIONAL then (PGP_PIN_ERROR, 0, 0, p, c)
      else if which = OPENPGP_PIN_RC \<and> openpgp_state_rc_set (p_o3 p) = 0 then (PGP_PIN_NOT_SET, 0, 0, p, c)
      else case pin_md_kernel_status T K (PGP_LAYOUT which) (p_rec p which) c of (st, att, plen, q, c1) \<Rightarrow>
        let p1 = put_rec which q p in
        case st of
          PMD_ACTIVE \<Rightarrow> (PGP_PIN_ACTIVE, att, plen, p1, c1)
        | PMD_BLOCKED \<Rightarrow> (PGP_PIN_BLOCKED, att, plen, p1, c1)
        | PMD_ABSENT \<Rightarrow> (if which \<noteq> OPENPGP_PIN_RC \<and> lc = PGP_LC_TERMINATED then PGP_PIN_NOT_SET else PGP_PIN_ERROR, 0, 0, p1, c1)
        | PMD_ERROR \<Rightarrow> (PGP_PIN_ERROR, 0, 0, p1, c1))"

definition pin_map_rc :: "pmd_rc \<Rightarrow> bool \<Rightarrow> int" where
  "pin_map_rc rc correct = (if rc = PMD_OK then (if correct then PGP_PIN_OK else PGP_PIN_WRONG)
     else if rc = PMD_ERR_BLOCKED then PGP_PIN_BLK else PGP_PIN_ERR)"

text \<open>The second component is \<open>out_k\<close>, zero unless the PIN was right.\<close>

definition pgp_pin_verify ::
  "'c tropic \<Rightarrow> crypto \<Rightarrow> nat \<Rightarrow> bytes \<Rightarrow> pgp \<Rightarrow> 'c \<Rightarrow> int \<times> bytes \<times> pgp \<times> 'c" where
  "pgp_pin_verify T K which pin p c =
     (let no_k = replicate 32 0 in
      if \<not> pin_which_ok which \<or> \<not> pin_len_ok which pin then (PGP_PIN_BAD_LEN, no_k, p, c)
      else if which = OPENPGP_PIN_RC \<and> openpgp_state_lifecycle (p_o3 p) \<noteq> PGP_LC_OPERATIONAL then (PGP_PIN_ERR, no_k, p, c)
      else if which = OPENPGP_PIN_RC \<and> openpgp_state_rc_set (p_o3 p) = 0 then (PGP_PIN_UNSET, no_k, p, c)
      else case pin_md_kernel_verify T K (PGP_LAYOUT which) (material K pin) (p_rec p which) c of (rc, correct, ko, q, c1) \<Rightarrow>
        (pin_map_rc rc correct, case ko of Some k \<Rightarrow> k | None \<Rightarrow> no_k, put_rec which q p, c1))"

definition pgp_pin_change ::
  "'c tropic \<Rightarrow> crypto \<Rightarrow> nat \<Rightarrow> bytes \<Rightarrow> bytes \<Rightarrow> pgp \<Rightarrow> 'c \<Rightarrow> int \<times> pgp \<times> 'c" where
  "pgp_pin_change T K which old new p c =
     (if which \<noteq> OPENPGP_PIN_PW1 \<and> which \<noteq> OPENPGP_PIN_PW3 then (PGP_PIN_ERR, p, c)
      else if \<not> pin_len_ok which old \<or> \<not> pin_len_ok which new then (PGP_PIN_BAD_LEN, p, c)
      else case pin_md_kernel_change T K (PGP_LAYOUT which) (material K old) (material K new) (length new mod 256)
          (p_rec p which) c of (rc, correct, _, q, c1) \<Rightarrow>
        (pin_map_rc rc correct, put_rec which q p, c1))"

definition bind_pin :: "'c tropic \<Rightarrow> crypto \<Rightarrow> nat \<Rightarrow> bytes \<Rightarrow> pgp \<Rightarrow> 'c \<Rightarrow> int \<times> pgp \<times> 'c" where
  "bind_pin T K which pin p c =
     (case pin_md_kernel_setup T K (PGP_LAYOUT which) (material K pin) (length pin mod 256) (p_rec p which) c of
        (rc, _, q, c1) \<Rightarrow> (if rc = PMD_OK then PGP_PIN_OK else PGP_PIN_ERR, put_rec which q p, c1))"

definition pgp_pin_reset_pw1_check :: "'c tropic \<Rightarrow> crypto \<Rightarrow> bytes \<Rightarrow> pgp \<Rightarrow> 'c \<Rightarrow> int \<times> pgp \<times> 'c" where
  "pgp_pin_reset_pw1_check T K pin p c =
     (if \<not> pin_len_ok OPENPGP_PIN_PW1 pin then (PGP_PIN_BAD_LEN, p, c)
      else if openpgp_state_lifecycle (p_o3 p) \<noteq> PGP_LC_OPERATIONAL then (PGP_PIN_ERR, p, c)
      else case pgp_pin_status T K OPENPGP_PIN_PW1 p c of (st, _, _, p1, c1) \<Rightarrow>
        (if st = PGP_PIN_ERROR then PGP_PIN_ERR else PGP_PIN_OK, p1, c1))"

definition pgp_pin_reset_pw1 :: "'c tropic \<Rightarrow> crypto \<Rightarrow> bytes \<Rightarrow> pgp \<Rightarrow> 'c \<Rightarrow> int \<times> pgp \<times> 'c" where
  "pgp_pin_reset_pw1 T K pin p c =
     (if \<not> pin_len_ok OPENPGP_PIN_PW1 pin then (PGP_PIN_BAD_LEN, p, c)
      else if openpgp_state_lifecycle (p_o3 p) \<noteq> PGP_LC_OPERATIONAL then (PGP_PIN_ERR, p, c)
      else bind_pin T K OPENPGP_PIN_PW1 pin p c)"

definition set_rc_guard :: "'c tropic \<Rightarrow> crypto \<Rightarrow> u8 \<Rightarrow> pgp \<Rightarrow> 'c \<Rightarrow> int \<times> pgp \<times> 'c" where
  "set_rc_guard T K v p c =
     (case openpgp_state_set_rc_set T K v (p_o3 p) c of (rc, s, c1) \<Rightarrow> (rc, p\<lparr>p_o3 := s\<rparr>, c1))"

text \<open>Cleared first, the guard after it; set again with the guard last.\<close>

definition pgp_pin_set_rc :: "'c tropic \<Rightarrow> crypto \<Rightarrow> bytes \<Rightarrow> pgp \<Rightarrow> 'c \<Rightarrow> int \<times> pgp \<times> 'c" where
  "pgp_pin_set_rc T K rc p c =
     (if rc \<noteq> [] \<and> \<not> pin_len_ok OPENPGP_PIN_RC rc then (PGP_PIN_BAD_LEN, p, c)
      else if openpgp_state_lifecycle (p_o3 p) \<noteq> PGP_LC_OPERATIONAL then (PGP_PIN_ERR, p, c)
      else case pin_md_kernel_clear T (PGP_LAYOUT OPENPGP_PIN_RC) ((p_rec p OPENPGP_PIN_RC)\<lparr>uncertain := False\<rparr>) c of (r1, q, c1) \<Rightarrow>
      let p1 = put_rec OPENPGP_PIN_RC q p in
      if r1 \<noteq> PMD_OK then (PGP_PIN_ERR, p1, c1)
      else case (if openpgp_state_rc_set (p_o3 p1) \<noteq> 0 then set_rc_guard T K 0 p1 c1 else (0, p1, c1)) of (r2, p2, c2) \<Rightarrow>
      if r2 \<noteq> 0 then (PGP_PIN_ERR, p2, c2)
      else if rc = [] then (PGP_PIN_OK, p2, c2)
      else case bind_pin T K OPENPGP_PIN_RC rc p2 c2 of (r3, p3, c3) \<Rightarrow>
      if r3 \<noteq> PGP_PIN_OK then (PGP_PIN_ERR, p3, c3)
      else case set_rc_guard T K 1 p3 c3 of (r4, p4, c4) \<Rightarrow>
        (if r4 = 0 then PGP_PIN_OK else PGP_PIN_ERR, p4, c4))"

definition pgp_pin_bind_factory :: "'c tropic \<Rightarrow> crypto \<Rightarrow> pgp \<Rightarrow> 'c \<Rightarrow> int \<times> pgp \<times> 'c" where
  "pgp_pin_bind_factory T K p c =
     (case bind_pin T K OPENPGP_PIN_PW1 FACTORY_PW1 p c of (r1, p1, c1) \<Rightarrow>
      if r1 \<noteq> 0 then (PGP_PIN_ERR, p1, c1) else bind_pin T K OPENPGP_PIN_PW3 FACTORY_PW3 p1 c1)"

fun clear_pins :: "'c tropic \<Rightarrow> nat list \<Rightarrow> pgp \<Rightarrow> 'c \<Rightarrow> int \<times> pgp \<times> 'c" where
  "clear_pins T [] p c = (PGP_PIN_OK, p, c)"
| "clear_pins T (w # ws) p c =
     (case pin_md_kernel_clear T (PGP_LAYOUT w) ((p_rec p w)\<lparr>uncertain := False\<rparr>) c of (r, q, c1) \<Rightarrow>
      if r \<noteq> PMD_OK then (PGP_PIN_ERR, put_rec w q p, c1) else clear_pins T ws (put_rec w q p) c1)"

definition pgp_pin_clear_all :: "'c tropic \<Rightarrow> pgp \<Rightarrow> 'c \<Rightarrow> int \<times> pgp \<times> 'c" where
  "pgp_pin_clear_all T p c = clear_pins T [OPENPGP_PIN_PW1..<Suc OPENPGP_PIN_RC] p c"

definition pgp_pin_test_reboot :: "pgp \<Rightarrow> pgp" where
  "pgp_pin_test_reboot p = p\<lparr>p_rec := \<lambda>w. (p_rec p w)\<lparr>uncertain := False\<rparr>\<rparr>"

section \<open>What each operation touches\<close>

lemma pgp_layout_valid:
  assumes "which \<le> 2"
  shows "valid_layout (PGP_LAYOUT which)"
proof -
  have "valid_layout (PGP_LAYOUT 0)" "valid_layout (PGP_LAYOUT 1)" "valid_layout (PGP_LAYOUT 2)" by code_simp+
  moreover have "which = 0 \<or> which = 1 \<or> which = 2" using assms by linarith
  ultimately show ?thesis by blast
qed

text \<open>Only the slots of \<open>A\<close>.\<close>

definition slots_only :: "('c \<Rightarrow> bool) \<Rightarrow> ('c \<Rightarrow> nat \<Rightarrow> bytes) \<Rightarrow> nat set \<Rightarrow> 'c \<Rightarrow> 'c \<Rightarrow> bool" where
  "slots_only I view A c c' \<longleftrightarrow> I c' \<and> (\<forall>t. t \<notin> A \<longrightarrow> view c' t = view c t)"

lemma slots_only_refl: "I c \<Longrightarrow> slots_only I view A c c"
  by (simp add: slots_only_def)

lemma slots_only_trans: "slots_only I view A c c1 \<Longrightarrow> slots_only I view A c1 c2 \<Longrightarrow> slots_only I view A c c2"
  by (simp add: slots_only_def)

lemma slots_only_mono: "slots_only I view A c c' \<Longrightarrow> A \<subseteq> B \<Longrightarrow> slots_only I view B c c'"
  by (auto simp: slots_only_def)

lemma pair_only_slots_only: "pair_only I view p c p' c' \<Longrightarrow> slots_only I view {slot_a p, slot_b p} c c'"
  by (simp add: pair_only_def slots_only_def)

definition same_slots :: "rec_pair \<Rightarrow> rec_pair \<Rightarrow> bool" where
  "same_slots p p' \<longleftrightarrow> slot_a p' = slot_a p \<and> slot_b p' = slot_b p"

text \<open>The operations of O3 touch its pair.\<close>

definition o3_only :: "('c \<Rightarrow> bool) \<Rightarrow> ('c \<Rightarrow> nat \<Rightarrow> bytes) \<Rightarrow> pgp_state \<Rightarrow> 'c \<Rightarrow> pgp_state \<Rightarrow> 'c \<Rightarrow> bool" where
  "o3_only I view s c s' c' \<longleftrightarrow> slots_only I view {slot_a (s_o3 s), slot_b (s_o3 s)} c c' \<and>
     same_slots (s_o3 s) (s_o3 s')"

lemma commit_only:
  assumes "pair_ok T K I view (s_o3 s, c)" and "commit T K nxt s c = (rc, s', c')"
  shows "o3_only I view s c s' c'"
proof -
  have i: "rmem_chip T I view" "I c" "slot_a (s_o3 s) \<noteq> slot_b (s_o3 s)" "crypto_ok K"
    using assms(1) by (simp_all add: pair_ok_def)
  obtain st p c1 where w: "rec_pair_write T K nxt (s_o3 s) c = (st, p, c1)" by (metis prod_cases3)
  note ws = rmem_chip.write_spec(1-3) [OF i w]
  show ?thesis
    using assms(2) ws i by (auto simp: commit_def w o3_only_def slots_only_def same_slots_def split: if_splits)
qed

lemma o3_run_only:
  assumes "pair_ok T K I view (s_o3 s, c)" and "o3_run T K cmd s c = (rc, s', c')"
  shows "o3_only I view s c s' c'"
  using assms(2)
proof (cases rule: run_cases)
  case committed
  show ?thesis by (rule commit_only [OF assms(1) committed(1)])
qed (use assms(1) in \<open>auto simp: o3_only_def slots_only_def same_slots_def pair_ok_def\<close>)

lemma o3_load_only:
  assumes "pair_ok T K I view (s_o3 s, c)" and "openpgp_state_load T K s c = (rc, s', c')"
  shows "o3_only I view s c s' c'"
proof -
  have i: "rmem_chip T I view" "I c" using assms(1) by (simp_all add: pair_ok_def)
  obtain st res p c1 where rd: "rec_pair_read T K (Some REC_PAYLOAD_MAX) (s_o3 s) c = (st, res, p, c1)"
    by (metis prod_cases4)
  have "s_o3 s' = p \<and> c' = c1"
    using assms(2) by (auto simp: openpgp_state_load_def rd Let_def split: if_splits rec_status.splits option.splits)
  then show ?thesis
    using rmem_chip.rec_pair_read_frame [OF i rd] by (auto simp: o3_only_def slots_only_def same_slots_def)
qed

lemma o3_clear_only:
  assumes "pair_ok T K I view (s_o3 s, c)" and "openpgp_state_clear T s c = (rc, s', c')"
  shows "o3_only I view s c s' c'"
proof -
  let ?p = "(s_o3 s)\<lparr>uncertain := False\<rparr>"
  have i: "rmem_chip T I view" "I c" "slot_a ?p \<noteq> slot_b ?p" using assms(1) by (simp_all add: pair_ok_def)
  obtain st p c1 where cl: "rec_pair_clear T ?p c = (st, p, c1)" by (metis prod_cases3)
  show ?thesis
    using assms(2) rmem_chip.clear_spec(1-3) [OF i cl]
    by (auto simp: openpgp_state_clear_def cl o3_only_def slots_only_def same_slots_def)
qed

lemma o3_init_only:
  assumes "pair_ok T K I view (s_o3 s, c)" and "openpgp_state_init T K lc s c = (rc, s', c')"
  shows "o3_only I view s c s' c'"
proof -
  let ?p = "(s_o3 s)\<lparr>uncertain := False\<rparr>"
  have i: "rmem_chip T I view" "I c" "slot_a ?p \<noteq> slot_b ?p" "crypto_ok K" using assms(1) by (simp_all add: pair_ok_def)
  obtain st p c1 where n: "rec_pair_init T K (defaults lc) ?p c = (st, p, c1)" by (metis prod_cases3)
  show ?thesis
    using assms(2) rmem_chip.init_spec(1-3) [OF i n] i
    by (auto simp: openpgp_state_init_def Let_def n o3_only_def slots_only_def same_slots_def split: if_splits)
qed

lemma o3_activate_only:
  assumes "pair_ok T K I view (s_o3 s, c)" and "openpgp_state_activate T K s c = (rc, s', c')"
  shows "o3_only I view s c s' c'"
proof -
  have i: "rmem_chip T I view" "I c" "slot_a (s_o3 s) \<noteq> slot_b (s_o3 s)" "crypto_ok K"
    using assms(1) by (simp_all add: pair_ok_def)
  obtain st p c1 where w: "rec_pair_write T K (defaults PGP_LC_OPERATIONAL) (s_o3 s) c = (st, p, c1)"
    by (metis prod_cases3)
  show ?thesis
    using assms(2) rmem_chip.write_spec(1-3) [OF i w] i
    by (auto simp: openpgp_state_activate_def w o3_only_def slots_only_def same_slots_def split: if_splits)
qed

section \<open>The invariant of the OpenPGP objects\<close>

text \<open>O3 in 33 / 43, and PIN \<open>w\<close> in 50 + w / 53 + w.\<close>

definition pgp_ok ::
  "'c tropic \<Rightarrow> crypto \<Rightarrow> ('c \<Rightarrow> bool) \<Rightarrow> ('c \<Rightarrow> nat \<Rightarrow> bytes) \<Rightarrow> pgp \<Rightarrow> 'c \<Rightarrow> bool" where
  "pgp_ok T K I view p c \<longleftrightarrow> framed_chip T I view \<and> o3_ok T K I view (p_o3 p) c \<and>
     slot_a (s_o3 (p_o3 p)) = 33 \<and> slot_b (s_o3 (p_o3 p)) = 43 \<and>
     (\<forall>w \<le> 2. slot_a (p_rec p w) = 50 + w \<and> slot_b (p_rec p w) = 53 + w)"

abbreviation O3_SLOTS :: "nat set" where "O3_SLOTS \<equiv> {33, 43}"
abbreviation pin_slots :: "nat \<Rightarrow> nat set" where "pin_slots w \<equiv> {50 + w, 53 + w}"

definition pgp_does ::
  "'c tropic \<Rightarrow> crypto \<Rightarrow> ('c \<Rightarrow> bool) \<Rightarrow> ('c \<Rightarrow> nat \<Rightarrow> bytes) \<Rightarrow> nat set \<Rightarrow> pgp \<Rightarrow> 'c \<Rightarrow> pgp \<Rightarrow> 'c \<Rightarrow> bool" where
  "pgp_does T K I view A p c p' c' \<longleftrightarrow> pgp_ok T K I view p' c' \<and> slots_only I view A c c'"

lemma pgp_okD:
  assumes "pgp_ok T K I view p c"
  shows "framed_chip T I view" and "rmem_chip T I view" and "I c" and "crypto_ok K"
    and "pair_ok T K I view (s_o3 (p_o3 p), c)" and "o3_ok T K I view (p_o3 p) c"
    and "w \<le> 2 \<Longrightarrow> slot_a (p_rec p w) = 50 + w" and "w \<le> 2 \<Longrightarrow> slot_b (p_rec p w) = 53 + w"
  using assms by (auto simp: pgp_ok_def o3_ok_def pair_ok_def)

lemma does_refl: "pgp_ok T K I view p c \<Longrightarrow> pgp_does T K I view A p c p c"
  by (simp add: pgp_does_def slots_only_refl pgp_okD)

lemma does_ok: "pgp_does T K I view A p c p' c' \<Longrightarrow> pgp_ok T K I view p' c'"
  by (simp add: pgp_does_def)

lemma does_view: "pgp_does T K I view A p c p' c' \<Longrightarrow> t \<notin> A \<Longrightarrow> view c' t = view c t"
  by (simp add: pgp_does_def slots_only_def)

lemma does_trans:
  "pgp_does T K I view A p c p1 c1 \<Longrightarrow> pgp_does T K I view A p1 c1 p2 c2 \<Longrightarrow> pgp_does T K I view A p c p2 c2"
  by (auto simp: pgp_does_def intro: slots_only_trans)

lemma does_mono: "pgp_does T K I view A p c p' c' \<Longrightarrow> A \<subseteq> B \<Longrightarrow> pgp_does T K I view B p c p' c'"
  by (auto simp: pgp_does_def intro: slots_only_mono)

lemma o3_ok_frame:
  assumes "o3_ok T K I view s c" and "I c'" and "view c' (slot_a (s_o3 s)) = view c (slot_a (s_o3 s))"
    and "view c' (slot_b (s_o3 s)) = view c (slot_b (s_o3 s))"
  shows "o3_ok T K I view s c'"
proof -
  have "pair_content K view (s_o3 s, c') = pair_content K view (s_o3 s, c)"
    using assms(3,4) by (simp add: pair_content_def)
  then show ?thesis using assms(1,2) by (auto simp: o3_ok_def pair_ok_def)
qed

lemma does_put:
  assumes "pgp_ok T K I view p c" and "which \<le> 2" and "pair_only I view q0 c q c'"
    and "same_slots (p_rec p which) q0"
  shows "pgp_does T K I view (pin_slots which) p c (put_rec which q p) c'"
proof -
  have sl: "slot_a q0 = 50 + which" "slot_b q0 = 53 + which"
    using assms(4) pgp_okD(7,8) [OF assms(1,2)] by (simp_all add: same_slots_def)
  have so: "slots_only I view (pin_slots which) c c'"
    using pair_only_slots_only [OF assms(3)] sl by simp
  have "o3_ok T K I view (p_o3 p) c'"
    by (rule o3_ok_frame [OF pgp_okD(6) [OF assms(1)]])
       (use so assms(1,2) in \<open>auto simp: slots_only_def pgp_ok_def\<close>)
  then show ?thesis
    using assms(1,2) so sl pair_only_slots [OF assms(3)] by (auto simp: pgp_does_def pgp_ok_def put_rec_def)
qed

lemma does_o3:
  assumes "pgp_ok T K I view p c" and "o3_ok T K I view s c'" and "o3_only I view (p_o3 p) c s c'"
  shows "pgp_does T K I view O3_SLOTS p c (p\<lparr>p_o3 := s\<rparr>) c'"
  using assms by (auto simp: pgp_does_def pgp_ok_def o3_only_def same_slots_def)

lemma same_slots_simps [simp]: "same_slots p p" "same_slots p (p\<lparr>uncertain := u\<rparr>)"
  by (simp_all add: same_slots_def)

text \<open>Each PIN operation touches the record of its PIN; setting the RC also O3.\<close>

lemma status_does:
  assumes "pgp_ok T K I view p c" and "pgp_pin_status T K which p c = (st, a, l, p', c')"
  shows "pgp_does T K I view (pin_slots which) p c p' c'" and "p_o3 p' = p_o3 p"
    and "st = PGP_PIN_NOT_SET \<Longrightarrow> which = OPENPGP_PIN_RC \<or> openpgp_state_lifecycle (p_o3 p) = PGP_LC_TERMINATED"
proof -
  obtain s1 a1 l1 q c1 where k: "pin_md_kernel_status T K (PGP_LAYOUT which) (p_rec p which) c = (s1, a1, l1, q, c1)"
    by (metis prod_cases5)
  note d = pgp_okD [OF assms(1)]
  have po: "pair_only I view (p_rec p which) c q c1" if "which \<le> 2"
    by (rule framed_chip.kernel_status_only [OF d(1,3) _ d(4) k]) (use d(7,8) [OF that] in simp)
  have pd: "pgp_does T K I view (pin_slots which) p c (put_rec which q p) c1" if "which \<le> 2"
    by (rule does_put [OF assms(1) that po [OF that]]) simp
  show "pgp_does T K I view (pin_slots which) p c p' c'" and "p_o3 p' = p_o3 p"
    and "st = PGP_PIN_NOT_SET \<Longrightarrow> which = OPENPGP_PIN_RC \<or> openpgp_state_lifecycle (p_o3 p) = PGP_LC_TERMINATED"
    using assms pd
    by (auto simp: pgp_pin_status_def Let_def k put_rec_def pin_which_ok_def pgp_pins does_refl
        split: if_splits pmd_state.splits)
qed

lemma verify_does:
  assumes "pgp_ok T K I view p c" and "pgp_pin_verify T K which pin p c = (rc, k, p', c')"
  shows "pgp_does T K I view (pin_slots which) p c p' c'" and "p_o3 p' = p_o3 p"
proof -
  obtain s1 a1 ko q c1 where v: "pin_md_kernel_verify T K (PGP_LAYOUT which) (material K pin) (p_rec p which) c
      = (s1, a1, ko, q, c1)" by (metis prod_cases5)
  note d = pgp_okD [OF assms(1)]
  have po: "pair_only I view (p_rec p which) c q c1" if "which \<le> 2"
    by (rule framed_chip.kernel_verify_only [OF d(1,3) _ d(4) v]) (use d(7,8) [OF that] in simp)
  have pd: "pgp_does T K I view (pin_slots which) p c (put_rec which q p) c1" if "which \<le> 2"
    by (rule does_put [OF assms(1) that po [OF that]]) simp
  show "pgp_does T K I view (pin_slots which) p c p' c'" and "p_o3 p' = p_o3 p"
    using assms pd
    by (auto simp: pgp_pin_verify_def Let_def v put_rec_def pin_which_ok_def pgp_pins does_refl split: if_splits)
qed

lemma change_does:
  assumes "pgp_ok T K I view p c" and "pgp_pin_change T K which old new p c = (rc, p', c')"
  shows "pgp_does T K I view (pin_slots which) p c p' c'" and "p_o3 p' = p_o3 p"
proof -
  obtain s1 a1 ko q c1 where v: "pin_md_kernel_change T K (PGP_LAYOUT which) (material K old) (material K new)
      (length new mod 256) (p_rec p which) c = (s1, a1, ko, q, c1)" by (metis prod_cases5)
  note d = pgp_okD [OF assms(1)]
  have po: "pair_only I view (p_rec p which) c q c1" if "which \<le> 2"
    by (rule framed_chip.kernel_change_only [OF d(1,3) _ d(4) v]) (use d(7,8) [OF that] in simp)
  have pd: "pgp_does T K I view (pin_slots which) p c (put_rec which q p) c1" if "which \<le> 2"
    by (rule does_put [OF assms(1) that po [OF that]]) simp
  show "pgp_does T K I view (pin_slots which) p c p' c'" and "p_o3 p' = p_o3 p"
    using assms pd
    by (auto simp: pgp_pin_change_def v put_rec_def pgp_pins does_refl split: if_splits)
qed

lemma bind_does:
  assumes "pgp_ok T K I view p c" and "which \<le> 2" and "bind_pin T K which pin p c = (rc, p', c')"
  shows "pgp_does T K I view (pin_slots which) p c p' c'" and "p_o3 p' = p_o3 p"
proof -
  obtain s1 ko q c1 where v: "pin_md_kernel_setup T K (PGP_LAYOUT which) (material K pin) (length pin mod 256)
      (p_rec p which) c = (s1, ko, q, c1)" by (metis prod_cases4)
  note d = pgp_okD [OF assms(1)]
  have po: "pair_only I view (p_rec p which) c q c1"
    by (rule framed_chip.kernel_setup_only [OF d(1,3) _ d(4) v]) (use d(7,8) [OF assms(2)] in simp)
  have "p' = put_rec which q p" "c' = c1" using assms(3) by (auto simp: bind_pin_def v)
  then show "pgp_does T K I view (pin_slots which) p c p' c'" and "p_o3 p' = p_o3 p"
    using does_put [OF assms(1,2) po] by (simp_all add: put_rec_def)
qed

lemma clear_pin_does:
  assumes "pgp_ok T K I view p c" and "w \<le> 2"
    and "pin_md_kernel_clear T (PGP_LAYOUT w) ((p_rec p w)\<lparr>uncertain := False\<rparr>) c = (rc, q, c')"
  shows "pgp_does T K I view (pin_slots w) p c (put_rec w q p) c'"
    and "rc = PMD_OK \<Longrightarrow> view c' (50 + w) = [] \<and> view c' (53 + w) = []"
proof -
  note d = pgp_okD [OF assms(1)]
  have ne: "slot_a ((p_rec p w)\<lparr>uncertain := False\<rparr>) \<noteq> slot_b ((p_rec p w)\<lparr>uncertain := False\<rparr>)"
    using d(7,8) [OF assms(2)] by simp
  note kc = framed_chip.kernel_clear_only [OF d(1,3) ne assms(3)]
  show "pgp_does T K I view (pin_slots w) p c (put_rec w q p) c'"
    by (rule does_put [OF assms(1,2) kc(1)]) simp
  show "rc = PMD_OK \<Longrightarrow> view c' (50 + w) = [] \<and> view c' (53 + w) = []"
    using kc(2) d(7,8) [OF assms(2)] by simp
qed

lemma clear_pins_does:
  assumes "pgp_ok T K I view p c" and "\<forall>w \<in> set ws. w \<le> 2" and "distinct ws" and "clear_pins T ws p c = (rc, p', c')"
  shows "pgp_does T K I view {50..55} p c p' c' \<and> p_o3 p' = p_o3 p \<and>
    (rc = PGP_PIN_OK \<longrightarrow> (\<forall>w \<in> set ws. view c' (50 + w) = [] \<and> view c' (53 + w) = [])) \<and>
    (\<forall>t. (\<forall>w \<in> set ws. t \<noteq> 50 + w \<and> t \<noteq> 53 + w) \<longrightarrow> view c' t = view c t)"
  using assms
proof (induction ws arbitrary: p c)
  case Nil
  then show ?case by (simp add: does_refl)
next
  case (Cons w ws)
  obtain r q c1 where k: "pin_md_kernel_clear T (PGP_LAYOUT w) ((p_rec p w)\<lparr>uncertain := False\<rparr>) c = (r, q, c1)"
    by (metis prod_cases3)
  have w: "w \<le> 2" using Cons.prems(2) by simp
  note cp = clear_pin_does [OF Cons.prems(1) w k]
  have A: "pgp_does T K I view {50..55} p c (put_rec w q p) c1"
    by (rule does_mono [OF cp(1)]) (use w in auto)
  show ?case
  proof (cases "r = PMD_OK")
    case False
    then have "p' = put_rec w q p" "c' = c1" "rc = PGP_PIN_ERR" using Cons.prems(4) by (simp_all add: k)
    then show ?thesis using A cp(1) by (auto simp: pgp_pin_codes put_rec_def dest: does_view)
  next
    case True
    then have rest: "clear_pins T ws (put_rec w q p) c1 = (rc, p', c')" using Cons.prems(4) by (simp add: k)
    have ih: "pgp_does T K I view {50..55} (put_rec w q p) c1 p' c' \<and> p_o3 p' = p_o3 (put_rec w q p) \<and>
      (rc = PGP_PIN_OK \<longrightarrow> (\<forall>w \<in> set ws. view c' (50 + w) = [] \<and> view c' (53 + w) = [])) \<and>
      (\<forall>t. (\<forall>w \<in> set ws. t \<noteq> 50 + w \<and> t \<noteq> 53 + w) \<longrightarrow> view c' t = view c1 t)"
      by (rule Cons.IH [OF does_ok [OF cp(1)] _ _ rest]) (use Cons.prems in auto)
    have "\<forall>v \<in> set ws. 50 + w \<noteq> 50 + v \<and> 50 + w \<noteq> 53 + v \<and> 53 + w \<noteq> 50 + v \<and> 53 + w \<noteq> 53 + v"
    proof
      fix v assume v: "v \<in> set ws"
      then have "v \<le> 2" "v \<noteq> w" using Cons.prems(2,3) by auto
      then show "50 + w \<noteq> 50 + v \<and> 50 + w \<noteq> 53 + v \<and> 53 + w \<noteq> 50 + v \<and> 53 + w \<noteq> 53 + v" using w by linarith
    qed
    then have "view c' (50 + w) = view c1 (50 + w)" "view c' (53 + w) = view c1 (53 + w)" using ih by blast+
    then show ?thesis
      using ih does_trans [OF A] cp(2) [OF True] does_view [OF cp(1)] by (auto simp: put_rec_def)
  qed
qed

lemma clear_all_does:
  assumes "pgp_ok T K I view p c" and "pgp_pin_clear_all T p c = (rc, p', c')"
  shows "pgp_does T K I view {50..55} p c p' c'" and "p_o3 p' = p_o3 p"
    and "rc = PGP_PIN_OK \<Longrightarrow> t \<in> {50..55} \<Longrightarrow> view c' t = []"
proof -
  have s: "[OPENPGP_PIN_PW1..<Suc OPENPGP_PIN_RC] = [0, 1, 2]" by (simp add: pgp_pins upt_rec)
  have "clear_pins T [0, 1, 2] p c = (rc, p', c')" using assms(2) unfolding pgp_pin_clear_all_def s .
  from clear_pins_does [OF assms(1) _ _ this]
  have *: "pgp_does T K I view {50..55} p c p' c' \<and> p_o3 p' = p_o3 p \<and>
    (rc = PGP_PIN_OK \<longrightarrow> (\<forall>w \<in> {0, 1, 2}. view c' (50 + w) = [] \<and> view c' (53 + w) = []))" by simp
  then show "pgp_does T K I view {50..55} p c p' c'" and "p_o3 p' = p_o3 p" by blast+
  assume "rc = PGP_PIN_OK" and "t \<in> {50..55}"
  moreover from this(2) have "t = 50 \<or> t = 51 \<or> t = 52 \<or> t = 53 \<or> t = 54 \<or> t = 55" by auto
  ultimately show "view c' t = []" using * by auto
qed

lemma factory_does:
  assumes "pgp_ok T K I view p c" and "pgp_pin_bind_factory T K p c = (rc, p', c')"
  shows "pgp_does T K I view {50..55} p c p' c'" and "p_o3 p' = p_o3 p"
proof -
  obtain r1 p1 c1 where 1: "bind_pin T K OPENPGP_PIN_PW1 FACTORY_PW1 p c = (r1, p1, c1)" by (metis prod_cases3)
  obtain r2 p2 c2 where 2: "bind_pin T K OPENPGP_PIN_PW3 FACTORY_PW3 p1 c1 = (r2, p2, c2)" by (metis prod_cases3)
  have le: "OPENPGP_PIN_PW1 \<le> 2" "OPENPGP_PIN_PW3 \<le> 2" by (simp_all add: pgp_pins)
  note b1 = bind_does [OF assms(1) le(1) 1]
  note b2 = bind_does [OF does_ok [OF b1(1)] le(2) 2]
  have A1: "pgp_does T K I view {50..55} p c p1 c1" by (rule does_mono [OF b1(1)]) (auto simp: pgp_pins)
  have A2: "pgp_does T K I view {50..55} p1 c1 p2 c2" by (rule does_mono [OF b2(1)]) (auto simp: pgp_pins)
  show "pgp_does T K I view {50..55} p c p' c'" and "p_o3 p' = p_o3 p"
    using assms(2) A1 does_trans [OF A1 A2] b1(2) b2(2)
    by (auto simp: pgp_pin_bind_factory_def 1 2 split: if_splits)
qed

lemma guard_does:
  assumes "pgp_ok T K I view p c" and "set_rc_guard T K v p c = (rc, p', c')"
  shows "pgp_does T K I view O3_SLOTS p c p' c'"
proof -
  obtain r s c1 where g: "openpgp_state_set_rc_set T K v (p_o3 p) c = (r, s, c1)" by (metis prod_cases3)
  then have run: "o3_run T K (SetRc v) (p_o3 p) c = (r, s, c1)" by simp
  note d = pgp_okD [OF assms(1)]
  have "o3_ok T K I view s c1" by (rule run_ok(1) [OF d(6) _ run]) simp
  then have "pgp_does T K I view O3_SLOTS p c (p\<lparr>p_o3 := s\<rparr>) c1"
    by (rule does_o3 [OF assms(1) _ o3_run_only [OF d(5) run]])
  then show ?thesis using assms(2) by (simp add: set_rc_guard_def g)
qed

lemma set_rc_does:
  assumes "pgp_ok T K I view p c" and "pgp_pin_set_rc T K code p c = (rc, p', c')"
  shows "pgp_does T K I view {33, 43, 52, 55} p c p' c'"
proof -
  let ?A = "{33, 43, 52, 55}"
  obtain r1 q c1 where 1: "pin_md_kernel_clear T (PGP_LAYOUT OPENPGP_PIN_RC)
      ((p_rec p OPENPGP_PIN_RC)\<lparr>uncertain := False\<rparr>) c = (r1, q, c1)" by (metis prod_cases3)
  let ?p1 = "put_rec OPENPGP_PIN_RC q p"
  have rc2: "OPENPGP_PIN_RC \<le> 2" by (simp add: pgp_pins)
  have d1: "pgp_does T K I view ?A p c ?p1 c1"
    by (rule does_mono [OF clear_pin_does(1) [OF assms(1) rc2 1]]) (auto simp: pgp_pins)
  obtain r2 p2 c2 where 2: "(if openpgp_state_rc_set (p_o3 ?p1) \<noteq> 0 then set_rc_guard T K 0 ?p1 c1 else (0, ?p1, c1)) = (r2, p2, c2)"
    by (metis prod_cases3)
  have "pgp_does T K I view ?A ?p1 c1 p2 c2"
  proof (cases "openpgp_state_rc_set (p_o3 ?p1) \<noteq> 0")
    case True
    then have "set_rc_guard T K 0 ?p1 c1 = (r2, p2, c2)" using 2 by simp
    then show ?thesis by (rule does_mono [OF guard_does [OF does_ok [OF d1]]]) auto
  next
    case False
    then show ?thesis using 2 does_refl [OF does_ok [OF d1]] by simp
  qed
  then have d2: "pgp_does T K I view ?A p c p2 c2" by (rule does_trans [OF d1])
  obtain r3 p3 c3 where 3: "bind_pin T K OPENPGP_PIN_RC code p2 c2 = (r3, p3, c3)" by (metis prod_cases3)
  have d3: "pgp_does T K I view ?A p c p3 c3"
    by (rule does_trans [OF d2 does_mono [OF bind_does(1) [OF does_ok [OF d2] rc2 3]]]) (auto simp: pgp_pins)
  obtain r4 p4 c4 where 4: "set_rc_guard T K 1 p3 c3 = (r4, p4, c4)" by (metis prod_cases3)
  have d4: "pgp_does T K I view ?A p c p4 c4"
    by (rule does_trans [OF d3 does_mono [OF guard_does [OF does_ok [OF d3] 4]]]) auto
  have "(p', c') \<in> {(p, c), (?p1, c1), (p2, c2), (p3, c3), (p4, c4)}"
    using assms(2) by (simp add: pgp_pin_set_rc_def 1 2 [simplified] 3 4 Let_def split: if_splits)
  then show ?thesis using d1 d2 d3 d4 does_refl [OF assms(1)] by auto
qed

end
