(* ===== verification/Pin_Md_Scheme.thy ===== *)
theory Pin_Md_Scheme
  imports Pin_Md_Kernel Rec_Client
begin

text \<open>
  What the MAC-and-Destroy PIN kernel does on a chip that works: setup arms a range of
  slots, a wrong PIN spends exactly one of them, the right PIN opens the binding and
  arms every slot again, and a change keeps the derived key.  The chip enters as a
  locale that states the documented law of MAC-and-Destroy: the answer depends on the
  slot's state and on the input, and the new state on the input only.
\<close>

section \<open>The law of MAC-and-Destroy\<close>

text \<open>
  \<open>md c i\<close> is the secret state of slot \<open>i\<close>.  A call replaces it by \<open>load i d\<close>, a function
  of the input alone, and answers \<open>mix i st (load i d)\<close>, which needs the old state \<open>st\<close>:
  the same input gives the same answer only while the slot has not been used since it
  was armed.  The other operations leave the slots alone.
\<close>

locale live_kernel = live_dev T inv view good
  for T :: "'c tropic" and inv :: "'c \<Rightarrow> bool" and view :: "'c \<Rightarrow> nat \<Rightarrow> bytes"
    and good :: "'c \<Rightarrow> bool" +
  fixes md :: "'c \<Rightarrow> nat \<Rightarrow> bytes" and ld :: "nat \<Rightarrow> bytes \<Rightarrow> bytes"
    and mix :: "nat \<Rightarrow> bytes \<Rightarrow> bytes \<Rightarrow> bytes"
  assumes live_md: "good c \<Longrightarrow> i < 128 \<Longrightarrow> length d = 32 \<Longrightarrow>
      \<exists>c'. tropic_mac_and_destroy T i d c = (Inr (mix i (md c i) (ld i d)), c') \<and> good c'
        \<and> md c' = (md c)(i := ld i d)"
    and mix_length: "good c \<Longrightarrow> length (mix i st x) = 32"
    and random_md: "good c \<Longrightarrow> tropic_random T n c = (r2, c') \<Longrightarrow> md c' = md c"
    and read_md: "good c \<Longrightarrow> tropic_rmem_read T s m c = (r, c') \<Longrightarrow> md c' = md c"
    and write_md: "good c \<Longrightarrow> tropic_rmem_write T s d c = (rc, c') \<Longrightarrow> md c' = md c"
    and erase_md: "good c \<Longrightarrow> tropic_rmem_erase T s c = (rc, c') \<Longrightarrow> md c' = md c"

text \<open>So a record operation on a good chip also keeps the slots: a chip with slots \<open>m\<close> is good.\<close>

sublocale live_kernel \<subseteq> keep: live_rmem T inv view "\<lambda>c. good c \<and> md c = m" for m
proof (unfold_locales, goal_cases)
  case (1 c)
  then show ?case using good_inv by blast
next
  case (2 c s n)
  then show ?case using live_read [of c s n] read_md by metis
next
  case (3 c s n)
  then show ?case using live_empty [of c s n] read_md by metis
next
  case (4 c s)
  then show ?case using live_erase [of c s] erase_md by metis
next
  case (5 c s d)
  then show ?case using live_write [of c s d] write_md by metis
qed

text \<open>The mock obeys it: the new state is keyed with the chip's own secret \<open>kf\<close>.\<close>

definition mock_ld :: "crypto \<Rightarrow> bytes \<Rightarrow> nat \<Rightarrow> bytes \<Rightarrow> bytes" where
  "mock_ld K kf i d = hmac_sha256 K kf (take 32 d @ [of_nat i])"

definition mock_mix :: "crypto \<Rightarrow> nat \<Rightarrow> bytes \<Rightarrow> bytes \<Rightarrow> bytes" where
  "mock_mix K i st x = hmac_sha256 K st (x @ [of_nat i])"

definition mock_keyed :: "crypto \<Rightarrow> bytes \<Rightarrow> mock \<Rightarrow> bool" where
  "mock_keyed K kf m \<longleftrightarrow> crypto_ok K \<and> mock_good m \<and> s_kfa m = kf"

lemma tear_keeps: "s_mad (tear d s m) = s_mad m" "s_kfa (tear d s m) = s_kfa m"
  by (cases d; simp add: tear_def mock_rmem_damage_def Let_def)+

lemma mock_rmem_keeps:
  "mock_rmem_read s n m = (r, m') \<Longrightarrow> s_mad m' = s_mad m \<and> s_kfa m' = s_kfa m"
  "mock_rmem_write E s d m = (rc, m') \<Longrightarrow> s_mad m' = s_mad m \<and> s_kfa m' = s_kfa m"
  "mock_rmem_erase E s m = (rc, m') \<Longrightarrow> s_mad m' = s_mad m \<and> s_kfa m' = s_kfa m"
proof -
  obtain rc0 ex tr m1 where e: "enter MOCK_OP_RMEM_READ m = (rc0, ex, tr, m1)" by (metis prod_cases4)
  show "mock_rmem_read s n m = (r, m') \<Longrightarrow> s_mad m' = s_mad m \<and> s_kfa m' = s_kfa m"
    using enter_frame [OF e] by (auto simp: mock_rmem_read_def e Let_def split: if_splits)
next
  obtain rc0 ex tr m1 where e: "enter MOCK_OP_RMEM_WRITE m = (rc0, ex, tr, m1)" by (metis prod_cases4)
  show "mock_rmem_write E s d m = (rc, m') \<Longrightarrow> s_mad m' = s_mad m \<and> s_kfa m' = s_kfa m"
    using enter_frame [OF e]
    by (auto simp: mock_rmem_write_def e Let_def tear_keeps split: if_splits)
next
  obtain rc0 ex tr m1 where e: "enter MOCK_OP_RMEM_ERASE m = (rc0, ex, tr, m1)" by (metis prod_cases4)
  show "mock_rmem_erase E s m = (rc, m') \<Longrightarrow> s_mad m' = s_mad m \<and> s_kfa m' = s_kfa m"
    using enter_frame [OF e]
    by (auto simp: mock_rmem_erase_def e Let_def tear_keeps split: if_splits)
qed

interpretation mock_keyed: live_kernel "mock_tropic K E" mock_inv mock_view "mock_keyed K kf" s_mad
    "mock_ld K kf" "mock_mix K" for K E kf
proof (unfold_locales, goal_cases)
  case (1 c)
  then show ?case by (simp add: mock_keyed_def mock_good_def)
next
  case (2 c s n)
  then show ?case
    using mock_live.live_read [of c s n K E] mock_rmem_keeps(1) by (fastforce simp: mock_keyed_def)
next
  case (3 c s n)
  then show ?case
    using mock_live.live_empty [of c s n K E] mock_rmem_keeps(1) by (fastforce simp: mock_keyed_def)
next
  case (4 c s)
  then show ?case
    using mock_live.live_erase [of c s K E] mock_rmem_keeps(3) by (fastforce simp: mock_keyed_def)
next
  case (5 c s d)
  then show ?case
    using mock_live.live_write [of c s d K E] mock_rmem_keeps(2) by (fastforce simp: mock_keyed_def)
next
  case (6 c n)
  then obtain m1 where m1: "enter MOCK_OP_RANDOM c = (0, True, None, m1)" "mock_good m1"
    "s_kfa m1 = s_kfa c" by (auto simp: mock_keyed_def elim: enter_good)
  obtain bs s where "prng_bytes n (s_prng m1) = (bs, s)" by fastforce
  with 6 m1 show ?case
    by (auto simp: mock_random_def Let_def mock_keyed_def mock_good_def mock_inv_def)
next
  case (7 c i d)
  then obtain m1 where m1: "enter MOCK_OP_MAC_AND_DESTROY c = (0, True, None, m1)" "mock_good m1"
    "s_mad m1 = s_mad c" "s_kfa m1 = s_kfa c" by (auto simp: mock_keyed_def elim: enter_good)
  with 7 show ?case
    by (auto simp: mock_mac_and_destroy_def Let_def mock_consts mock_keyed_def mock_mix_def
        mock_ld_def mock_good_def mock_inv_def)
next
  case (8 c i st x)
  then show ?case by (simp add: mock_keyed_def mock_mix_def)
next
  case (9 c n r c')
  obtain rc ex tr m1 where e: "enter MOCK_OP_RANDOM c = (rc, ex, tr, m1)" by (metis prod_cases4)
  then show ?case
    using 9 enter_frame [OF e] by (auto simp: mock_random_def Let_def split: if_splits prod.splits)
next
  case (10 c s n r c')
  then show ?case using mock_rmem_keeps(1) by simp
next
  case (11 c s d rc c')
  then show ?case using mock_rmem_keeps(2) by simp
next
  case (12 c s rc c')
  then show ?case using mock_rmem_keeps(3) by simp
qed

section \<open>An armed PIN\<close>

text \<open>The answer slot \<open>i\<close> of range \<open>r\<close> gives for \<open>mat\<close> while it is armed for the seed \<open>s\<close>.\<close>

definition armed_answer ::
  "crypto \<Rightarrow> (nat \<Rightarrow> bytes \<Rightarrow> bytes) \<Rightarrow> (nat \<Rightarrow> bytes \<Rightarrow> bytes \<Rightarrow> bytes) \<Rightarrow> pin_md_layout \<Rightarrow> nat
     \<Rightarrow> bytes \<Rightarrow> bytes \<Rightarrow> nat \<Rightarrow> bytes" where
  "armed_answer K ld mix L r s mat i =
     (let t = md_slot L r i in mix t (ld t (kdf K s 1)) (ld t (pin_v K L mat)))"

text \<open>
  The binding \<open>b\<close> opens with \<open>mat\<close> to \<open>s\<close>: every share is \<open>s\<close> under its slot's answer, and
  every slot not yet spent is armed.
\<close>

definition armed ::
  "crypto \<Rightarrow> (nat \<Rightarrow> bytes \<Rightarrow> bytes) \<Rightarrow> (nat \<Rightarrow> bytes \<Rightarrow> bytes \<Rightarrow> bytes) \<Rightarrow> pin_md_layout
     \<Rightarrow> (nat \<Rightarrow> bytes) \<Rightarrow> binding \<Rightarrow> bytes \<Rightarrow> bytes \<Rightarrow> bool" where
  "armed K ld mix L m b mat s \<longleftrightarrow> length s = 32 \<and> tag b = kdf K s 0 \<and>
     (\<forall>i < rounds L. ci b ! i = slot_xor K L (armed_answer K ld mix L (range b) s mat i) mat s) \<and>
     (\<forall>i. next b \<le> i \<longrightarrow> i < rounds L \<longrightarrow> m (md_slot L (range b) i) = ld (md_slot L (range b) i) (kdf K s 1))"

definition pin_set ::
  "crypto \<Rightarrow> (nat \<Rightarrow> bytes \<Rightarrow> bytes) \<Rightarrow> (nat \<Rightarrow> bytes \<Rightarrow> bytes \<Rightarrow> bytes) \<Rightarrow> ('c \<Rightarrow> nat \<Rightarrow> bytes)
     \<Rightarrow> ('c \<Rightarrow> nat \<Rightarrow> bytes) \<Rightarrow> pin_md_layout \<Rightarrow> rec_pair \<Rightarrow> u32 \<Rightarrow> binding \<Rightarrow> bytes \<Rightarrow> bytes \<Rightarrow> 'c \<Rightarrow> bool" where
  "pin_set K ld mix md view L p g b mat s c \<longleftrightarrow>
     wf_binding L b \<and> retire_pending b = 0 \<and> g \<noteq> 0 \<and> at_rest K view p g (encode_binding L b) c \<and>
     armed K ld mix L (md c) b mat s"

lemma slot_xor_undo:
  assumes "crypto_ok K" and "length s = 32"
  shows "slot_xor K L w mat (slot_xor K L w mat s) = s"
  using assms by (simp add: slot_xor_def xor_bytes_cancel)

lemma tag_equal_iff: "length a = length b \<Longrightarrow> tag_equal a b \<longleftrightarrow> a = b"
  by (simp add: tag_equal_def ct_diff_zero_iff)

lemma kdf_length [simp]: "crypto_ok K \<Longrightarrow> length (kdf K s l) = 32"
  by (simp add: kdf_def)

lemma pin_v_length [simp]: "crypto_ok K \<Longrightarrow> length (pin_v K L mat) = 32"
  by (simp add: pin_v_def)

context live_kernel
begin

lemma settle_rest:
  assumes "good c" and "crypto_ok K" and "valid_layout L" and "pair_usable p"
    and "wf_binding L b" and "at_rest K view p g (encode_binding L b) c" and "g \<noteq> 0"
    and "retire_pending b = 0"
  obtains c' where "settle T K L p c = (REC_OK, Some b, p, c')" and "good c'"
    and "view c' = view c" and "md c' = md c"
proof -
  note na = encode_binding_length [OF assms(3,5)]
  obtain c' where r: "rec_pair_read T K (Some REC_PAYLOAD_MAX) p c
      = (REC_OK, Some (encode_binding L b, g), p, c')" and g: "good c' \<and> md c' = md c" "view c' = view c"
    by (rule keep.rest_read [OF _ assms(2,4,6,7) na, where cap = "Some REC_PAYLOAD_MAX" and m = "md c"])
       (use assms(1) na in \<open>auto simp: bad_args_def\<close>)
  then show thesis
    using that [of c'] assms(8)
    by (simp add: settle_def load_def r decode_encode_binding [OF assms(3,5)])
qed

lemma store_rest:
  assumes "good c" and "crypto_ok K" and "valid_layout L" and "pair_usable p"
    and "at_rest K view p g pl c" and "\<not> bad_args pl" and "g \<noteq> 0" and "g \<noteq> - 1" and "wf_binding L b"
  obtains c' where "store T K L b False p c = (PMD_OK, p, c')" and "good c'"
    and "at_rest K view p (g + 1) (encode_binding L b) c'" and "md c' = md c"
proof -
  obtain c' where "rec_pair_write T K (encode_binding L b) p c = (REC_OK, p, c')"
    "good c' \<and> md c' = md c" "at_rest K view p (g + 1) (encode_binding L b) c'"
    by (rule keep.rest_write [OF _ assms(2,4,5,7,8,6) encode_binding_length [OF assms(3,9)],
          where m = "md c"]) (use assms(1) in auto)
  then show thesis using that [of c'] by (simp add: store_def)
qed

lemma store_fresh:
  assumes "good c" and "crypto_ok K" and "valid_layout L" and "pair_usable p" and "wf_binding L b"
  obtains c' where "store T K L b True p c = (PMD_OK, p, c')" and "good c'"
    and "at_rest K view p 1 (encode_binding L b) c'" and "md c' = md c"
proof -
  obtain c' where "rec_pair_init T K (encode_binding L b) p c = (REC_OK, p, c')"
    "good c' \<and> md c' = md c" "at_rest K view p 1 (encode_binding L b) c'"
    by (rule keep.rest_init [OF _ assms(2,4) encode_binding_length [OF assms(3,5)], where m = "md c"])
       (use assms(1) in auto)
  then show thesis using that [of c'] by (simp add: store_def)
qed

text \<open>One call, with what it leaves alone.\<close>

lemma md_step:
  assumes "good c" and "i < 128" and "length d = 32"
  obtains c' where "tropic_mac_and_destroy T i d c = (Inr (mix i (md c i) (ld i d)), c')"
    and "good c'" and "md c' = (md c)(i := ld i d)" and "view c' = view c"
  using live_md [OF assms] md_frame good_inv assms(1) by blast

lemma restore_slots_live:
  assumes "valid_layout L" and "r < ranges L" and "length u = 32"
  shows "good c \<Longrightarrow> set is \<subseteq> {..<rounds L} \<Longrightarrow>
    \<exists>c'. restore_slots T L r u is c = (True, c') \<and> good c' \<and> view c' = view c \<and>
      md c' = (\<lambda>t. if t \<in> md_slot L r ` set is then ld t u else md c t)"
proof (induction "is" arbitrary: c)
  case Nil
  then show ?case by simp
next
  case (Cons i xs)
  have t: "md_slot L r i < 128" using md_slot_valid(2) [OF assms(1,2)] Cons.prems(2) by simp
  obtain c1 where c1: "tropic_mac_and_destroy T (md_slot L r i) u c
      = (Inr (mix (md_slot L r i) (md c (md_slot L r i)) (ld (md_slot L r i) u)), c1)"
    "good c1" "md c1 = (md c)(md_slot L r i := ld (md_slot L r i) u)" "view c1 = view c"
    by (rule md_step [OF Cons.prems(1) t assms(3)])
  obtain c2 where "restore_slots T L r u xs c1 = (True, c2)" "good c2" "view c2 = view c1"
    "md c2 = (\<lambda>t. if t \<in> md_slot L r ` set xs then ld t u else md c1 t)"
    using Cons.IH [OF c1(2)] Cons.prems(2) by auto
  then show ?case using c1 by (auto simp: fun_eq_iff)
qed

lemma retire_slots_live:
  assumes "valid_layout L" and "r < ranges L"
  shows "good c \<Longrightarrow> set is \<subseteq> {..<rounds L} \<Longrightarrow>
    \<exists>c'. retire_slots T L r is c = (PMD_OK, c') \<and> good c' \<and> view c' = view c \<and>
      (\<forall>t. t \<notin> md_slot L r ` set is \<longrightarrow> md c' t = md c t)"
proof (induction "is" arbitrary: c)
  case Nil
  then show ?case by simp
next
  case (Cons i xs)
  have t: "md_slot L r i < 128" using md_slot_valid(2) [OF assms(1,2)] Cons.prems(2) by simp
  obtain d c0 where c0: "tropic_random T 32 c = (Inr d, c0)" "good c0" "md c0 = md c"
    using dev_random [OF Cons.prems(1), of 32] random_md [OF Cons.prems(1)] by auto
  have d: "length d = 32" and v0: "view c0 = view c"
    using random_length random_frame good_inv Cons.prems(1) c0(1) by blast+
  obtain c1 where c1: "tropic_mac_and_destroy T (md_slot L r i) d c0
      = (Inr (mix (md_slot L r i) (md c0 (md_slot L r i)) (ld (md_slot L r i) d)), c1)"
    "good c1" "md c1 = (md c0)(md_slot L r i := ld (md_slot L r i) d)" "view c1 = view c0"
    by (rule md_step [OF c0(2) t d])
  obtain c2 where "retire_slots T L r xs c1 = (PMD_OK, c2)" "good c2" "view c2 = view c1"
    "\<forall>t. t \<notin> md_slot L r ` set xs \<longrightarrow> md c2 t = md c1 t"
    using Cons.IH [OF c1(2)] Cons.prems(2) by auto
  then show ?case using c0 c1 v0 by auto
qed

lemma setup_slots_live:
  assumes "valid_layout L" and "r < ranges L" and "crypto_ok K"
  shows "good c \<Longrightarrow> set is \<subseteq> {..<rounds L} \<Longrightarrow>
    \<exists>c'. setup_slots T K L r (kdf K s 1) (pin_v K L mat) mat s is c
        = (Some (map (\<lambda>i. slot_xor K L (armed_answer K ld mix L r s mat i) mat s) is), c')
      \<and> good c' \<and> view c' = view c \<and>
      md c' = (\<lambda>t. if t \<in> md_slot L r ` set is then ld t (kdf K s 1) else md c t)"
proof (induction "is" arbitrary: c)
  case Nil
  then show ?case by simp
next
  case (Cons i xs)
  let ?t = "md_slot L r i" and ?u = "kdf K s 1" and ?v = "pin_v K L mat"
  have t: "?t < 128" using md_slot_valid(2) [OF assms(1,2)] Cons.prems(2) by simp
  have lu: "length ?u = 32" and lv: "length ?v = 32" using assms(3) by simp_all
  obtain c1 where c1: "tropic_mac_and_destroy T ?t ?u c = (Inr (mix ?t (md c ?t) (ld ?t ?u)), c1)"
    "good c1" "md c1 = (md c)(?t := ld ?t ?u)" "view c1 = view c"
    by (rule md_step [OF Cons.prems(1) t lu])
  obtain c2 where c2: "tropic_mac_and_destroy T ?t ?v c1 = (Inr (mix ?t (md c1 ?t) (ld ?t ?v)), c2)"
    "good c2" "md c2 = (md c1)(?t := ld ?t ?v)" "view c2 = view c1"
    by (rule md_step [OF c1(2) t lv])
  obtain c3 where c3: "tropic_mac_and_destroy T ?t ?u c2 = (Inr (mix ?t (md c2 ?t) (ld ?t ?u)), c3)"
    "good c3" "md c3 = (md c2)(?t := ld ?t ?u)" "view c3 = view c2"
    by (rule md_step [OF c2(2) t lu])
  obtain c4 where c4: "setup_slots T K L r ?u ?v mat s xs c3
      = (Some (map (\<lambda>i. slot_xor K L (armed_answer K ld mix L r s mat i) mat s) xs), c4)"
    "good c4" "view c4 = view c3"
    "md c4 = (\<lambda>t. if t \<in> md_slot L r ` set xs then ld t ?u else md c3 t)"
    using Cons.IH [OF c3(2)] Cons.prems(2) by auto
  have "md c4 = (\<lambda>t. if t \<in> md_slot L r ` set (i # xs) then ld t ?u else md c t)"
    using c1(3) c2(3) c3(3) c4(4) by (auto simp: fun_eq_iff)
  moreover have "mix ?t (md c1 ?t) (ld ?t ?v) = armed_answer K ld mix L r s mat i"
    using c1(3) by (simp add: armed_answer_def Let_def)
  ultimately show ?case using c1(1,4) c2(1,4) c3(1,4) c4(1-3) by (simp add: Let_def)
qed

text \<open>An armed slot answers a presented \<open>mat'\<close> so that the right one gives \<open>s\<close> back.\<close>

lemma armed_opens:
  assumes "crypto_ok K" and "armed K ld mix L m b mat s" and "i < rounds L"
  shows "slot_xor K L (armed_answer K ld mix L (range b) s mat i) mat (ci b ! i) = s"
  using assms by (simp add: armed_def slot_xor_undo)

lemma try_rest:
  assumes "good c" and "crypto_ok K" and "valid_layout L" and "pair_usable p"
    and "pin_set K ld mix md view L p g b mat s c" and "g \<noteq> - 1" and "next b < rounds L"
    and "sx = slot_xor K L (armed_answer K ld mix L (range b) s mat' (next b)) mat' (ci b ! next b)"
  obtains c' where "verify_try T K L mat' p c
      = (PMD_OK, if kdf K sx 0 = tag b then Some (b\<lparr>next := Suc (next b)\<rparr>, sx) else None, p, c')"
    and "good c'" and "at_rest K view p (g + 1) (encode_binding L (b\<lparr>next := Suc (next b)\<rparr>)) c'"
    and "md c' = (md c)(md_slot L (range b) (next b) := ld (md_slot L (range b) (next b)) (pin_v K L mat'))"
proof -
  let ?b = "b\<lparr>next := Suc (next b)\<rparr>" and ?t = "md_slot L (range b) (next b)"
  from assms(5) have wf: "wf_binding L b" and rp: "retire_pending b = 0" and g0: "g \<noteq> 0"
    and r: "at_rest K view p g (encode_binding L b) c" and a: "armed K ld mix L (md c) b mat s"
    by (simp_all add: pin_set_def)
  obtain c1 where 1: "settle T K L p c = (REC_OK, Some b, p, c1)" "good c1" "view c1 = view c"
    "md c1 = md c" by (rule settle_rest [OF assms(1-4) wf r g0 rp])
  have wf': "wf_binding L ?b" using wf assms(7) by (simp add: wf_binding_def)
  have r1: "at_rest K view p g (encode_binding L b) c1" using r 1(3) by (simp add: at_rest_def)
  obtain c2 where 2: "store T K L ?b False p c1 = (PMD_OK, p, c2)" "good c2"
    "at_rest K view p (g + 1) (encode_binding L ?b) c2" "md c2 = md c1"
    by (rule store_rest [OF 1(2) assms(2-4) r1 encode_binding_length [OF assms(3) wf] g0 assms(6) wf'])
  have t: "?t < 128" using md_slot_valid(2) [OF assms(3) _ assms(7)] wf by (simp add: wf_binding_def)
  obtain c3 where 3: "tropic_mac_and_destroy T ?t (pin_v K L mat') c2
      = (Inr (mix ?t (md c2 ?t) (ld ?t (pin_v K L mat'))), c3)" "good c3"
    "md c3 = (md c2)(?t := ld ?t (pin_v K L mat'))" "view c3 = view c2"
    by (rule md_step [OF 2(2) t pin_v_length [OF assms(2)]])
  have "mix ?t (md c2 ?t) (ld ?t (pin_v K L mat')) = armed_answer K ld mix L (range b) s mat' (next b)"
    using a assms(7) 1(4) 2(4) by (simp add: armed_answer_def armed_def Let_def)
  moreover have "length (tag b) = 32" using wf by (simp add: wf_binding_def)
  ultimately have "verify_try T K L mat' p c
      = (PMD_OK, if kdf K sx 0 = tag b then Some (?b, sx) else None, p, c3)"
    using 1(1) 2(1) 3(1) assms(2,7,8) by (simp add: verify_try_def Let_def tag_equal_iff)
  then show thesis using that [of c3] 1(4) 2(3,4) 3 by (simp add: at_rest_def)
qed

lemma verify_right:
  assumes "good c" and "crypto_ok K" and "valid_layout L" and "pair_usable p"
    and "pin_set K ld mix md view L p g b mat s c" and "next b < rounds L"
    and "unat g < 2 ^ 32 - 2"
  obtains c' where "verify_s T K L mat p c = (PMD_OK, Some s, p, c')" and "good c'"
    and "pin_set K ld mix md view L p (g + 2) (b\<lparr>next := 0\<rparr>) mat s c'"
    and "\<forall>t. t \<notin> md_slot L (range b) ` {..<rounds L} \<longrightarrow> md c' t = md c t"
proof -
  let ?b = "b\<lparr>next := Suc (next b)\<rparr>" and ?z = "b\<lparr>next := 0\<rparr>"
  from assms(5) have wf: "wf_binding L b" and a: "armed K ld mix L (md c) b mat s"
    and g0: "g \<noteq> 0" by (simp_all add: pin_set_def)
  have wf': "wf_binding L ?b" "wf_binding L ?z" using wf assms(6) by (simp_all add: wf_binding_def)
  have g: "g \<noteq> - 1" "g + 1 \<noteq> 0" "g + 1 \<noteq> - 1" "g + 2 \<noteq> 0" "g + 1 + 1 = g + 2"
    using assms(7) by (auto simp: word_unat_eq_iff unat_word_ariths unsigned_minus_1_eq_mask mask_eq_exp_minus_1)
  have sx: "s = slot_xor K L (armed_answer K ld mix L (range b) s mat (next b)) mat (ci b ! next b)"
    using armed_opens [OF assms(2) a assms(6)] by simp
  have tg: "kdf K s 0 = tag b" using a by (simp add: armed_def)
  obtain c1 where 1: "verify_try T K L mat p c
      = (PMD_OK, if kdf K s 0 = tag b then Some (?b, s) else None, p, c1)" "good c1"
    "at_rest K view p (g + 1) (encode_binding L ?b) c1"
    "md c1 = (md c)(md_slot L (range b) (next b) := ld (md_slot L (range b) (next b)) (pin_v K L mat))"
    by (rule try_rest [OF assms(1-5) g(1) assms(6) sx])
  have rg: "range b < ranges L" using wf by (simp add: wf_binding_def)
  obtain c2 where 2: "restore_slots T L (range b) (kdf K s 1) [0..<rounds L] c1 = (True, c2)"
    "good c2" "view c2 = view c1"
    "md c2 = (\<lambda>t. if t \<in> md_slot L (range b) ` {..<rounds L} then ld t (kdf K s 1) else md c1 t)"
    using restore_slots_live [OF assms(3) rg kdf_length [OF assms(2)] 1(2), of "[0..<rounds L]" s 1]
    by (auto simp: atLeast0LessThan)
  have r2: "at_rest K view p (g + 1) (encode_binding L ?b) c2" using 1(3) 2(3) by (simp add: at_rest_def)
  obtain c3 where 3: "store T K L ?z False p c2 = (PMD_OK, p, c3)" "good c3"
    "at_rest K view p (g + 1 + 1) (encode_binding L ?z) c3" "md c3 = md c2"
    by (rule store_rest [OF 2(2) assms(2-4) r2 encode_binding_length [OF assms(3) wf'(1)] g(2,3) wf'(2)])
  have "verify_s T K L mat p c = (PMD_OK, Some s, p, c3)"
    using 1(1) 2(1) 3(1) tg by (simp add: verify_s_def)
  moreover have "armed K ld mix L (md c3) ?z mat s"
    using a 2(4) 3(4) by (auto simp: armed_def)
  moreover have "\<forall>t. t \<notin> md_slot L (range b) ` {..<rounds L} \<longrightarrow> md c3 t = md c t"
    using 1(4) 2(4) 3(4) assms(6) by auto
  moreover have "retire_pending b = 0" using assms(5) by (simp add: pin_set_def)
  ultimately show thesis
    using that [of c3] 3(2,3) wf'(2) g(4,5) by (simp add: pin_set_def)
qed

lemma verify_wrong:
  assumes "good c" and "crypto_ok K" and "valid_layout L" and "pair_usable p"
    and "pin_set K ld mix md view L p g b mat s c" and "next b < rounds L" and "g \<noteq> - 1"
    and "kdf K (slot_xor K L (armed_answer K ld mix L (range b) s mat' (next b)) mat' (ci b ! next b)) 0
      \<noteq> tag b"
  obtains c' where "verify_try T K L mat' p c = (PMD_OK, None, p, c')" and "good c'"
    and "pin_set K ld mix md view L p (g + 1) (b\<lparr>next := Suc (next b)\<rparr>) mat s c'"
proof -
  let ?b = "b\<lparr>next := Suc (next b)\<rparr>"
  from assms(5) have wf: "wf_binding L b" and a: "armed K ld mix L (md c) b mat s"
    and rp: "retire_pending b = 0" by (simp_all add: pin_set_def)
  have rg: "range b < ranges L" using wf by (simp add: wf_binding_def)
  obtain c1 where 1: "verify_try T K L mat' p c = (PMD_OK, None, p, c1)" "good c1"
    "at_rest K view p (g + 1) (encode_binding L ?b) c1"
    "md c1 = (md c)(md_slot L (range b) (next b) := ld (md_slot L (range b) (next b)) (pin_v K L mat'))"
    by (rule try_rest [OF assms(1-5,7,6) refl, of mat']) (use assms(8) in simp)
  have "md c1 (md_slot L (range b) i) = md c (md_slot L (range b) i)"
    if "Suc (next b) \<le> i" "i < rounds L" for i
    using md_slot_inj [OF assms(3) rg that(2) rg assms(6)] that 1(4) by auto
  then have "armed K ld mix L (md c1) ?b mat s" using a by (simp add: armed_def)
  moreover have "wf_binding L ?b" using wf assms(6) by (simp add: wf_binding_def)
  moreover have "g + 1 \<noteq> 0" using assms(7) by (metis add.right_cancel left_minus)
  ultimately show thesis using that [of c1] 1 rp by (simp add: pin_set_def)
qed

text \<open>A pair whose slots are both erased holds no binding.\<close>

lemma settle_blank:
  assumes "good c" and "pair_usable p" and "view c (slot_a p) = []" and "view c (slot_b p) = []"
  obtains c' where "settle T K L p c = (REC_ABSENT, None, p, c')" and "good c'" and "md c' = md c"
proof -
  let ?P = "\<lambda>c'. good c' \<and> md c' = md c"
  have g: "?P c" using assms(1) by simp
  obtain c1 where 1: "read_copy T K p (slot_a p) c = (classify K p (view c (slot_a p)), c1)" "?P c1"
    by (rule keep.read_copy_live [OF g, where K = K and p = p]) (use assms(2) in \<open>auto simp: pair_usable_def\<close>)
  have v1: "view c1 = view c" by (rule read_copy_spec(2) [OF good_inv [OF assms(1)] 1(1)])
  obtain c2 where 2: "read_copy T K p (slot_b p) c1 = (classify K p (view c1 (slot_b p)), c2)" "?P c2"
    by (rule keep.read_copy_live [OF 1(2), where K = K and p = p and s = "slot_b p"]) (use assms(2) in \<open>auto simp: pair_usable_def\<close>)
  have "rec_pair_read T K (Some REC_PAYLOAD_MAX) p c = (REC_ABSENT, None, p, c2)"
    using 1 2 v1 assms(2-4) by (simp add: rec_pair_read_def rec_choose_def pair_usable_def)
  then show thesis using that [of c2] 2(2) by (simp add: settle_def load_def)
qed

lemma setup_blank:
  assumes "good c" and "crypto_ok K" and "valid_layout L" and "pair_usable p"
    and "view c (slot_a p) = []" and "view c (slot_b p) = []" and "plen < 256" and "length s = 32"
  obtains b c' where "setup_s T K L mat plen s p c = (PMD_OK, p, c')" and "good c'"
    and "pin_set K ld mix md view L p 1 b mat s c'" and "next b = 0" and "pin_len b = plen"
proof -
  have r: "0 < ranges L" "0 < rounds L" using valid_layout_bounds [OF assms(3)] by auto
  obtain c1 where 1: "settle T K L p c = (REC_ABSENT, None, p, c1)" "good c1" "md c1 = md c"
    by (rule settle_blank [OF assms(1,4,5,6)])
  let ?cs = "map (\<lambda>i. slot_xor K L (armed_answer K ld mix L 0 s mat i) mat s) [0..<rounds L]"
  obtain c2 where 2: "setup_slots T K L 0 (kdf K s 1) (pin_v K L mat) mat s [0..<rounds L] c1
      = (Some ?cs, c2)" "good c2"
    "md c2 = (\<lambda>t. if t \<in> md_slot L 0 ` {..<rounds L} then ld t (kdf K s 1) else md c1 t)"
    using setup_slots_live [OF assms(3) r(1) assms(2) 1(2), of "[0..<rounds L]" s mat]
    by (auto simp: atLeast0LessThan)
  let ?b = "\<lparr>range = 0, retire_pending = 0, next = 0, pin_len = plen, tag = kdf K s 0, ci = ?cs\<rparr>"
  have wf: "wf_binding L ?b"
    using assms(2,7,8) r(1)
    by (auto simp: wf_binding_def slot_xor_def)
  obtain c3 where 3: "store T K L ?b True p c2 = (PMD_OK, p, c3)" "good c3"
    "at_rest K view p 1 (encode_binding L ?b) c3" "md c3 = md c2"
    by (rule store_fresh [OF 2(2) assms(2-4) wf])
  have "armed K ld mix L (md c3) ?b mat s"
    using 2(3) 3(4) assms(8) by (simp add: armed_def)
  then show thesis
    using that [of c3 ?b] 1(1) 2(1) 3(1-3) wf by (simp add: setup_s_def Let_def pin_set_def)
qed

text \<open>A new PIN for the same seed goes to the other range; then the old range is retired.\<close>

lemma setup_over:
  assumes "good c" and "crypto_ok K" and "valid_layout L" and "pair_usable p" and "ranges L = 2"
    and "pin_set K ld mix md view L p g b mat s c" and "plen < 256" and "length s' = 32"
    and "unat g < 2 ^ 32 - 2"
  obtains b' c' where "setup_s T K L new plen s' p c = (PMD_OK, p, c')" and "good c'"
    and "pin_set K ld mix md view L p (g + 2) b' new s' c'" and "next b' = 0" and "pin_len b' = plen"
    and "range b' = 1 - range b"
proof -
  from assms(6) have wf: "wf_binding L b" and g0: "g \<noteq> 0" and rp: "retire_pending b = 0"
    and r0: "at_rest K view p g (encode_binding L b) c" by (simp_all add: pin_set_def)
  have rg: "range b < ranges L" "1 - range b < ranges L" "1 - range b \<noteq> range b"
    using wf assms(5) by (auto simp: wf_binding_def less_2_cases_iff)
  have g: "g \<noteq> - 1" "g + 1 \<noteq> 0" "g + 1 \<noteq> - 1" "g + 2 \<noteq> 0" "g + 1 + 1 = g + 2"
    using assms(9) by (auto simp: word_unat_eq_iff unat_word_ariths unsigned_minus_1_eq_mask
        mask_eq_exp_minus_1)
  obtain c1 where 1: "settle T K L p c = (REC_OK, Some b, p, c1)" "good c1" "view c1 = view c"
    "md c1 = md c" by (rule settle_rest [OF assms(1-4) wf r0 g0 rp])
  let ?r = "1 - range b"
  let ?cs = "map (\<lambda>i. slot_xor K L (armed_answer K ld mix L ?r s' new i) new s') [0..<rounds L]"
  obtain c2 where 2: "setup_slots T K L ?r (kdf K s' 1) (pin_v K L new) new s' [0..<rounds L] c1
      = (Some ?cs, c2)" "good c2" "view c2 = view c1"
    "md c2 = (\<lambda>t. if t \<in> md_slot L ?r ` {..<rounds L} then ld t (kdf K s' 1) else md c1 t)"
    using setup_slots_live [OF assms(3) rg(2) assms(2) 1(2), of "[0..<rounds L]" s' new]
    by (auto simp: atLeast0LessThan)
  let ?n = "\<lparr>range = ?r, retire_pending = 1, next = 0, pin_len = plen, tag = kdf K s' 0, ci = ?cs\<rparr>"
  let ?m = "?n\<lparr>retire_pending := 0\<rparr>"
  have wn: "wf_binding L ?n" "wf_binding L ?m"
    using assms(2,5,7,8) by (auto simp: wf_binding_def slot_xor_def)
  have r2: "at_rest K view p g (encode_binding L b) c2" using r0 1(3) 2(3) by (simp add: at_rest_def)
  obtain c3 where 3: "store T K L ?n False p c2 = (PMD_OK, p, c3)" "good c3"
    "at_rest K view p (g + 1) (encode_binding L ?n) c3" "md c3 = md c2"
    by (rule store_rest [OF 2(2) assms(2-4) r2 encode_binding_length [OF assms(3) wf] g0 g(1) wn(1)])
  obtain c4 where 4: "retire T L (range b) c3 = (PMD_OK, c4)" "good c4" "view c4 = view c3"
    "\<forall>t. t \<notin> md_slot L (range b) ` {..<rounds L} \<longrightarrow> md c4 t = md c3 t"
    using retire_slots_live [OF assms(3) rg(1) 3(2), of "[0..<rounds L]"]
    by (auto simp: retire_def atLeast0LessThan)
  have r4: "at_rest K view p (g + 1) (encode_binding L ?n) c4" using 3(3) 4(3) by (simp add: at_rest_def)
  obtain c5 where 5: "store T K L ?m False p c4 = (PMD_OK, p, c5)" "good c5"
    "at_rest K view p (g + 1 + 1) (encode_binding L ?m) c5" "md c5 = md c4"
    by (rule store_rest [OF 4(2) assms(2-4) r4 encode_binding_length [OF assms(3) wn(1)] g(2,3) wn(2)])
  have "md c5 (md_slot L ?r i) = ld (md_slot L ?r i) (kdf K s' 1)" if "i < rounds L" for i
  proof -
    have "md_slot L ?r i \<notin> md_slot L (range b) ` {..<rounds L}"
      using md_slot_inj [OF assms(3) rg(2) that rg(1)] rg(3) by auto
    then show ?thesis using 2(4) 3(4) 4(4) 5(4) that by auto
  qed
  then have "armed K ld mix L (md c5) ?m new s'" using assms(8) by (simp add: armed_def)
  moreover have "setup_s T K L new plen s' p c = (PMD_OK, p, c5)"
    using 1(1) 2(1) 3(1) 4(1) 5(1) assms(5) by (simp add: setup_s_def Let_def)
  ultimately show thesis using that [of c5 ?m] 5(2,3) wn(2) g(4,5) by (simp add: pin_set_def)
qed

lemma opens_iff:
  assumes "good c" and "crypto_ok K" and "valid_layout L" and "pair_usable p"
    and "pin_set K ld mix md view L p g b mat s c" and "g \<noteq> - 1" and "next b < rounds L"
  shows "opens T K L mat' p c \<longleftrightarrow>
    kdf K (slot_xor K L (armed_answer K ld mix L (range b) s mat' (next b)) mat' (ci b ! next b)) 0 = tag b"
  by (rule try_rest [OF assms refl, of mat']) (auto simp: opens_def)

lemma verify_both:
  assumes "good c" and "crypto_ok K" and "valid_layout L" and "pair_usable p"
    and "pin_set K ld mix md view L p g b mat s c" and "next b < rounds L" and "unat g < 2 ^ 32 - 2"
  shows "\<exists>c'. pin_md_kernel_verify T K L mat p c = (PMD_OK, True, Some (kdf K s 2), p, c') \<and> good c'
      \<and> pin_set K ld mix md view L p (g + 2) (b\<lparr>next := 0\<rparr>) mat s c'"
    and "\<not> opens T K L mat' p c \<Longrightarrow>
      \<exists>c'. pin_md_kernel_verify T K L mat' p c = (PMD_OK, False, None, p, c') \<and> good c'
        \<and> pin_set K ld mix md view L p (g + 1) (b\<lparr>next := Suc (next b)\<rparr>) mat s c'"
proof -
  show "\<exists>c'. pin_md_kernel_verify T K L mat p c = (PMD_OK, True, Some (kdf K s 2), p, c') \<and> good c'
      \<and> pin_set K ld mix md view L p (g + 2) (b\<lparr>next := 0\<rparr>) mat s c'"
    by (rule verify_right [OF assms]) (auto simp: pin_md_kernel_verify_def assms(3))
next
  assume no: "\<not> opens T K L mat' p c"
  have g: "g \<noteq> - 1" using assms(7) by (auto simp: unsigned_minus_1_eq_mask mask_eq_exp_minus_1)
  show "\<exists>c'. pin_md_kernel_verify T K L mat' p c = (PMD_OK, False, None, p, c') \<and> good c'
        \<and> pin_set K ld mix md view L p (g + 1) (b\<lparr>next := Suc (next b)\<rparr>) mat s c'"
    by (rule verify_wrong [OF assms(1-6) g, of mat'])
       (use no opens_iff [OF assms(1-5) g assms(6)] verify_unopened(1) [OF assms(3) no] in auto)
qed

end

section \<open>Properties\<close>

text \<open>
  Slots of a layout the kernel accepts never wrap, stay below 128, and no two
  (range, round) pairs share a slot, so retiring one range cannot touch the live one.
\<close>

theorem pin_slots_disjoint:
  assumes "valid_layout L" and "r < ranges L" and "i < rounds L" and "q < ranges L" and "j < rounds L"
  shows "md_slot L r i = base L r + i \<and> md_slot L r i < 128 \<and>
    (md_slot L r i = md_slot L q j \<longrightarrow> r = q \<and> i = j)"
  using md_slot_valid [OF assms(1-3)] md_slot_inj [OF assms] by blast

definition demo_layout :: pin_md_layout where
  "demo_layout = \<lparr>base = (\<lambda>r. 8 * r), ranges = 2, rounds = 8, mat_len = 32\<rparr>"

lemma demo_layout_valid: "valid_layout demo_layout"
  by (simp add: valid_layout_def demo_layout_def pmk_consts list_all_iff)

theorem pin_slots_disjoint_witness:
  "md_slot demo_layout 1 7 = 15 \<and> md_slot demo_layout 1 7 \<noteq> md_slot demo_layout 0 7"
  using pin_slots_disjoint [OF demo_layout_valid, of 1 7 0 7]
  by (simp add: demo_layout_def)

text \<open>
  The binding record is a bijection between well-formed bindings and the payloads
  that decode: anything else stored there is an error, never a binding.
\<close>

theorem pin_binding_roundtrip:
  assumes "valid_layout L"
  shows "(wf_binding L b \<longleftrightarrow> decode_binding L (encode_binding L b) = Some b) \<and>
    (decode_binding L buf = Some b \<longrightarrow> encode_binding L b = buf \<and> wf_binding L b)"
  using decode_encode_binding [OF assms] decode_binding_wf by blast

definition demo_binding :: binding where
  "demo_binding = \<lparr>range = 0, retire_pending = 0, next = 3, pin_len = 6, tag = replicate 32 1,
     ci = replicate 8 (replicate 32 2)\<rparr>"

theorem pin_binding_roundtrip_witness:
  "decode_binding demo_layout (encode_binding demo_layout demo_binding) = Some demo_binding"
  using pin_binding_roundtrip [OF demo_layout_valid, of demo_binding]
  by (simp add: wf_binding_def demo_binding_def demo_layout_def)

text \<open>
  C8. No failure and no power cut gives an attempt back.  Start from a stored binding with
  at least \<open>m\<close> attempts spent and let an attacker who does not know the PIN verify, change,
  query and cut the power in any order, with any chip operation failing anywhere: the
  wrong answers never exceed the attempts that were left, a status report never claims
  more than remain, and after the last one no PIN is answered at all, not even the right one.
\<close>

theorem pin_retry_limit:
  assumes "kernel_chip T I view K" and "valid_layout L" and "m \<le> rounds L"
    and "floor_ok T K I view L m p c" and "guesses T K L I view n (p, c) (p', c')"
  shows "m + n \<le> rounds L \<and>
    (fst (pin_md_kernel_status T K L p' c') \<noteq> PMD_ERROR \<longrightarrow>
      fst (snd (pin_md_kernel_status T K L p' c')) \<le> rounds L - (m + n)) \<and>
    (m + n = rounds L \<longrightarrow> (\<forall>mat. fst (pin_md_kernel_verify T K L mat p' c') \<noteq> PMD_OK))"
proof -
  have f: "floor_ok T K I view L (m + n) p' c'" and le: "m + n \<le> rounds L"
    using kernel_chip.guesses_floor [OF assms(1,5,2) _ assms(3)] assms(4) by simp_all
  obtain st a l p2 c2 where "pin_md_kernel_status T K L p' c' = (st, a, l, p2, c2)"
    by (metis prod_cases5)
  then show ?thesis
    using le kernel_chip.status_floor(2) [OF assms(1) f assms(2)]
      kernel_chip.floor_blocked [OF assms(1) _ assms(2)] f by auto
qed

text \<open>A demo chip whose pair 41 / 42 is blank, and a seed.\<close>

definition demo_seed :: bytes where "demo_seed = replicate 32 0"

lemma demo_keyed: "mock_keyed demo_crypto (replicate 32 7) demo_mock"
  by (simp add: mock_keyed_def) (simp add: demo_mock_def)

lemma demo_blank: "mock_view demo_mock s = []"
  by (simp add: mock_view_def demo_mock_def mock_empty_def)

lemma demo_usable: "pair_usable demo_pair"
  by (simp add: pair_usable_def)

lemma demo_live_kernel:
  "live_kernel demo_chip mock_inv mock_view (mock_keyed demo_crypto (replicate 32 7)) s_mad
     (mock_ld demo_crypto (replicate 32 7)) (mock_mix demo_crypto)"
  unfolding demo_chip_def by (rule mock_keyed.live_kernel_axioms)

abbreviation demo_set :: "u32 \<Rightarrow> binding \<Rightarrow> bytes \<Rightarrow> bytes \<Rightarrow> mock \<Rightarrow> bool" where
  "demo_set \<equiv> pin_set demo_crypto (mock_ld demo_crypto (replicate 32 7)) (mock_mix demo_crypto)
     s_mad mock_view demo_layout demo_pair"

text \<open>After a set-up with the PIN [1], the binding is armed and [2] does not open it.\<close>

lemma demo_setup:
  obtains b c' where "mock_keyed demo_crypto (replicate 32 7) c'"
    and "demo_set 1 b [1] demo_seed c'" and "next b = 0" and "pin_len b = 6"
  by (rule live_kernel.setup_blank [OF demo_live_kernel demo_keyed crypto_ok_demo demo_layout_valid
        demo_usable demo_blank demo_blank, of 6 demo_seed "[1]"]) (auto simp: demo_seed_def)

lemma odd_times_160: "odd (y :: u8) \<Longrightarrow> 160 * y \<noteq> 0"
proof
  assume o: "odd y" and z: "160 * y = 0"
  have "160 * unat y mod 256 = 0"
    using arg_cong [OF z, of unat] by (simp add: unat_word_ariths)
  then have "256 dvd 160 * unat y" by (simp add: mod_eq_0_iff_dvd)
  then obtain q where "160 * unat y = 256 * q" by (rule dvdE)
  then have "5 * unat y = 2 * (4 * q)" by linarith
  then have "even (5 * unat y)" by (metis dvd_triv_left)
  then have "even (unat y)" by simp
  moreover have "odd (unat y)"
    using o by (simp add: bit_0 [symmetric] bit_unsigned_iff del: bit_0)
  ultimately show False by simp
qed

text \<open>Every answer of the demo chip repeats one byte.\<close>

lemma demo_hmac: "hmac_sha256 demo_crypto k m = replicate 32 (5 * sum_list k + 3 * sum_list m + 1)"
  by (simp add: demo_crypto_def)

lemma sum_list_replicate_u8 [simp]: "sum_list (replicate n x) = of_nat n * (x :: u8)"
  by (induction n) (simp_all add: algebra_simps)

lemma xor_bytes_replicate: "xor_bytes (replicate n x) (replicate n y) = replicate n (x XOR y)"
  by (simp add: xor_bytes_def zip_replicate)

lemma demo_wrong:
  "kdf demo_crypto (slot_xor demo_crypto demo_layout (replicate 32 x) [2]
     (slot_xor demo_crypto demo_layout (replicate 32 y) [1] demo_seed)) 0 \<noteq> kdf demo_crypto demo_seed 0"
proof -
  define z where "z = (160 * y + 4) XOR (160 * x + 7)"
  have "odd z"
    by (simp add: z_def bit_0 [symmetric] bit_xor_iff del: bit_0) (simp add: bit_0)
  then have "160 * z \<noteq> 0" by (rule odd_times_160)
  then show ?thesis
    by (simp add: kdf_def slot_xor_def demo_hmac demo_layout_def demo_seed_def xor_bytes_replicate
        z_def add.commute)
qed

lemma demo_not_opens:
  assumes "mock_keyed demo_crypto (replicate 32 7) c" and "demo_set 1 b [1] demo_seed c"
    and "next b = 0"
  shows "\<not> opens demo_chip demo_crypto demo_layout [2] demo_pair c"
proof -
  have "ci b ! 0 = slot_xor demo_crypto demo_layout (armed_answer demo_crypto
      (mock_ld demo_crypto (replicate 32 7)) (mock_mix demo_crypto) demo_layout (range b) demo_seed [1] 0)
      [1] demo_seed" and "tag b = kdf demo_crypto demo_seed 0"
    using assms(2) by (simp_all add: pin_set_def armed_def demo_layout_def)
  then show ?thesis
    using live_kernel.opens_iff [OF demo_live_kernel assms(1) crypto_ok_demo demo_layout_valid
        demo_usable assms(2), of "[2]"] assms(3) demo_wrong
    by (simp add: armed_answer_def mock_mix_def demo_hmac Let_def) (simp add: demo_layout_def)
qed

lemma demo_kernel: "kernel_chip demo_chip mock_inv mock_view demo_crypto"
  unfolding demo_chip_def by (rule mock_kernel.kernel_chip_axioms)

lemma demo_floor:
  assumes "mock_keyed demo_crypto (replicate 32 7) c" and "demo_set 1 b [1] demo_seed c"
  shows "floor_ok demo_chip demo_crypto mock_inv mock_view demo_layout 0 demo_pair c"
proof -
  have "torn_chip demo_chip mock_inv mock_view demo_crypto"
    unfolding demo_chip_def by (rule mock_torn.torn_chip_axioms)
  then have sf: "pair_safe demo_chip demo_crypto mock_inv mock_view (demo_pair, c)"
    using assms(1) by (simp add: pair_safe_def pair_ok_def demo_chip_rmem mock_keyed_def mock_good_def)
  have wf: "wf_binding demo_layout b" using assms(2) by (simp add: pin_set_def)
  have "pair_content demo_crypto mock_view (demo_pair, c) = Some (encode_binding demo_layout b)"
    by (rule pair_content_encode [OF crypto_ok_demo, of 1])
       (use assms(2) encode_binding_length [OF demo_layout_valid wf] in
         \<open>simp_all add: pin_set_def at_rest_def\<close>)
  then show ?thesis
    using pair_crash.may_rest [OF sf] sf spent_encode [OF demo_layout_valid wf]
    by (simp add: floor_ok_def)
qed

theorem pin_retry_limit_witness:
  "\<exists>c p' c'. guesses demo_chip demo_crypto demo_layout mock_inv mock_view 1 (demo_pair, c) (p', c') \<and>
     0 + 1 \<le> rounds demo_layout"
proof -
  obtain b c where c: "mock_keyed demo_crypto (replicate 32 7) c" "demo_set 1 b [1] demo_seed c"
    "next b = 0" using demo_setup by blast
  note no = demo_not_opens [OF c]
  obtain c' where v: "pin_md_kernel_verify demo_chip demo_crypto demo_layout [2] demo_pair c
      = (PMD_OK, False, None, demo_pair, c')"
    using live_kernel.verify_both(2) [OF demo_live_kernel c(1) crypto_ok_demo demo_layout_valid
        demo_usable c(2) _ _ no] c(3) by (auto simp: demo_layout_def)
  have g: "guesses demo_chip demo_crypto demo_layout mock_inv mock_view 1 (demo_pair, c) (demo_pair, c')"
    using guess_verify [OF guess_none no v] by simp
  show ?thesis
    using pin_retry_limit [OF demo_kernel demo_layout_valid _ demo_floor [OF c(1,2)] g] g by blast
qed

text \<open>
  On a working chip, setting a PIN on a blank pair succeeds, hands out the key \<open>k\<close> of a
  fresh seed, and leaves a binding at rest that is armed for that PIN with no attempt spent.
\<close>

theorem pin_setup_arms:
  assumes "live_kernel T I view good md ld mix" and "crypto_ok K" and "valid_layout L"
    and "pair_usable p" and "good c" and "view c (slot_a p) = []" and "view c (slot_b p) = []"
    and "plen < 256"
  shows "\<exists>s b c'. pin_md_kernel_setup T K L mat plen p c = (PMD_OK, Some (kdf K s 2), p, c') \<and>
    good c' \<and> pin_set K ld mix md view L p 1 b mat s c' \<and> next b = 0 \<and> pin_len b = plen"
proof -
  have ld: "live_dev T I view good" using assms(1) by (simp add: live_kernel_def)
  then have rm: "framed_chip T I view" and li: "live_rmem T I view good"
    by (simp_all add: live_dev_def)
  obtain s c1 where r: "tropic_random T 32 c = (Inr s, c1)" and g: "good c1"
    using live_dev.dev_random [OF ld assms(5), of 32] by auto
  have i: "I c" by (rule live_rmem.good_inv [OF li assms(5)])
  have l: "length s = 32" and v: "view c1 = view c"
    using framed_chip.random_length [OF rm i r] framed_chip.random_frame [OF rm i r] by auto
  obtain b c' where "setup_s T K L mat plen s p c1 = (PMD_OK, p, c')" "good c'"
    "pin_set K ld mix md view L p 1 b mat s c'" "next b = 0" "pin_len b = plen"
    by (rule live_kernel.setup_blank [OF assms(1) g assms(2,3,4) _ _ assms(8) l, of mat])
       (use assms(6,7) v in auto)
  then show ?thesis using assms(3) r by (auto simp: pin_md_kernel_setup_def)
qed

theorem pin_setup_arms_witness:
  "\<exists>s b c'. pin_md_kernel_setup demo_chip demo_crypto demo_layout [1, 2] 6 demo_pair demo_mock
      = (PMD_OK, Some (kdf demo_crypto s 2), demo_pair, c') \<and> demo_set 1 b [1, 2] s c'"
  using pin_setup_arms [OF demo_live_kernel crypto_ok_demo demo_layout_valid demo_usable demo_keyed
      demo_blank demo_blank, of 6 "[1, 2]"] by auto

text \<open>
  C9. On a working chip, while attempts remain, the right PIN opens the binding: the
  answer is the key of the seed and every attempt is back.  A PIN that does not open it is
  answered "wrong", spends exactly one attempt, and leaves the binding armed for the right one.
\<close>

theorem pin_verify_answers:
  assumes "live_kernel T I view good md ld mix" and "crypto_ok K" and "valid_layout L"
    and "pair_usable p" and "good c" and "pin_set K ld mix md view L p g b mat s c"
    and "next b < rounds L" and "unat g < 2 ^ 32 - 2"
  shows "(\<exists>c'. pin_md_kernel_verify T K L mat p c = (PMD_OK, True, Some (kdf K s 2), p, c') \<and>
      good c' \<and> pin_set K ld mix md view L p (g + 2) (b\<lparr>next := 0\<rparr>) mat s c') \<and>
    (\<forall>mat'. \<not> opens T K L mat' p c \<longrightarrow>
      (\<exists>c'. pin_md_kernel_verify T K L mat' p c = (PMD_OK, False, None, p, c') \<and> good c' \<and>
        pin_set K ld mix md view L p (g + 1) (b\<lparr>next := Suc (next b)\<rparr>) mat s c'))"
  using live_kernel.verify_both [OF assms(1,5,2,3,4,6,7,8)] by blast

theorem pin_verify_answers_witness:
  "\<exists>b c c'. demo_set 1 b [1] demo_seed c \<and>
     pin_md_kernel_verify demo_chip demo_crypto demo_layout [1] demo_pair c
       = (PMD_OK, True, Some (kdf demo_crypto demo_seed 2), demo_pair, c') \<and>
     fst (snd (pin_md_kernel_verify demo_chip demo_crypto demo_layout [2] demo_pair c)) = False"
proof -
  obtain b c where c: "mock_keyed demo_crypto (replicate 32 7) c" "demo_set 1 b [1] demo_seed c"
    "next b = 0" using demo_setup by blast
  have "next b < rounds demo_layout" using c(3) by (simp add: demo_layout_def)
  then show ?thesis
    using pin_verify_answers [OF demo_live_kernel crypto_ok_demo demo_layout_valid demo_usable
        c(1,2)] c(2) demo_not_opens [OF c] by fastforce
qed

text \<open>
  On a working chip a change of PIN keeps the key: it answers with the same \<open>k\<close>, moves
  the binding to the other slot range, armed for the new PIN, and gives every attempt back.
\<close>

theorem pin_change_keeps_key:
  assumes "live_kernel T I view good md ld mix" and "crypto_ok K" and "valid_layout L"
    and "pair_usable p" and "good c" and "pin_set K ld mix md view L p g b mat s c"
    and "next b < rounds L" and "unat g < 2 ^ 32 - 4" and "ranges L = 2" and "plen < 256"
  shows "\<exists>b' c'. pin_md_kernel_change T K L mat new plen p c = (PMD_OK, True, Some (kdf K s 2), p, c') \<and>
    good c' \<and> pin_set K ld mix md view L p (g + 2 + 2) b' new s c' \<and> next b' = 0 \<and>
    pin_len b' = plen \<and> range b' = 1 - range b"
proof -
  obtain c1 where 1: "verify_s T K L mat p c = (PMD_OK, Some s, p, c1)" "good c1"
    "pin_set K ld mix md view L p (g + 2) (b\<lparr>next := 0\<rparr>) mat s c1"
    by (rule live_kernel.verify_right [OF assms(1,5,2,3,4,6,7)]) (use assms(8) in auto)
  have l: "length s = 32" using assms(6) by (simp add: pin_set_def armed_def)
  have g: "unat (g + 2) < 2 ^ 32 - 2" using assms(8) by (simp add: unat_word_ariths)
  obtain b' c' where "setup_s T K L new plen s p c1 = (PMD_OK, p, c')" "good c'"
    "pin_set K ld mix md view L p (g + 2 + 2) b' new s c'" "next b' = 0" "pin_len b' = plen"
    "range b' = 1 - range (b\<lparr>next := 0\<rparr>)"
    by (rule live_kernel.setup_over [OF assms(1) 1(2) assms(2,3,4,9) 1(3) assms(10) l g, of new])
  then show ?thesis using 1(1) assms(3,9) by (auto simp: pin_md_kernel_change_def)
qed

theorem pin_change_keeps_key_witness:
  "\<exists>b c b' c'. demo_set 1 b [1] demo_seed c \<and>
     pin_md_kernel_change demo_chip demo_crypto demo_layout [1] [9] 6 demo_pair c
       = (PMD_OK, True, Some (kdf demo_crypto demo_seed 2), demo_pair, c') \<and>
     demo_set (1 + 2 + 2) b' [9] demo_seed c'"
proof -
  obtain b c where c: "mock_keyed demo_crypto (replicate 32 7) c" "demo_set 1 b [1] demo_seed c"
    "next b = 0" using demo_setup by blast
  have "next b < rounds demo_layout" "ranges demo_layout = 2" using c(3) by (simp_all add: demo_layout_def)
  then show ?thesis
    using pin_change_keeps_key [OF demo_live_kernel crypto_ok_demo demo_layout_valid demo_usable
        c(1,2), of 6 "[9]"] c(2) by fastforce
qed

end
