(* ===== verification/Slots.thy ===== *)
theory Slots
  imports Rec_Client
begin

text \<open>
  The credential slot manager, \<^verbatim>\<open>firmware/src/fido_hid/slots.c\<close>: the FIDO global state O1
  (allocation bitmap, Force-UV flag, PIN guard) in a record pair, with a copy in RAM, and
  one metadata record per credential in chip slots 1 to 29.  The lemmas show that the RAM
  copy never disagrees with the chip while it may be used, whatever fails, that a
  credential ID only resolves to the slot that carries its nonce, that a new credential
  resolves to what was stored, and that a completed wipe leaves nothing readable.

  An \<open>int\<close> result is the C return code; an operation that also fills out-parameters
  returns \<open>Inr\<close> of them on 0 and \<open>Inl\<close> of the code otherwise.
\<close>

section \<open>State\<close>

definition SLOTS_USER_HANDLE_MAX :: nat where "SLOTS_USER_HANDLE_MAX = 64"
definition FIDO_SLOTS_MAX :: nat where "FIDO_SLOTS_MAX = 29"
definition SLOTS_RMEM_PER_CRED_SIZE :: nat where "SLOTS_RMEM_PER_CRED_SIZE = 256"
definition SLOTS_CRED_ID_LEN :: nat where "SLOTS_CRED_ID_LEN = 18"
definition SLOTS_CRED_ID_NONCE_LEN :: nat where "SLOTS_CRED_ID_NONCE_LEN = 16"
definition O1_LEN :: nat where "O1_LEN = 6"

lemmas slot_consts = SLOTS_USER_HANDLE_MAX_def FIDO_SLOTS_MAX_def SLOTS_RMEM_PER_CRED_SIZE_def
  SLOTS_CRED_ID_LEN_def SLOTS_CRED_ID_NONCE_LEN_def O1_LEN_def

text \<open>\<open>user_handle\<close> holds the first \<open>user_handle_len\<close> bytes; the rest of the C array is zero.\<close>

record slot_meta =
  alg :: u8
  flags :: u8
  rp_id_hash :: bytes
  cred_id_nonce :: bytes
  user_handle :: bytes
  created :: u32

record slot_mgr =
  s_o1 :: rec_pair
  s_initted :: bool
  s_bitmap :: u32
  s_force_uv :: u8
  s_pin_bound :: u8

definition slots_start :: slot_mgr where
  "slots_start = \<lparr>s_o1 = \<lparr>slot_a = 0, slot_b = 40, obj = 1, schema = 1, uncertain = False\<rparr>,
     s_initted = False, s_bitmap = 0, s_force_uv = 0, s_pin_bound = 0\<rparr>"

definition CRED_MAGIC :: bytes where "CRED_MAGIC = [0x4E, 0x58, 0x43, 0x52]"

section \<open>Helpers\<close>

definition slot_bit :: "u32 \<Rightarrow> nat \<Rightarrow> bool" where
  "slot_bit bm i \<longleftrightarrow> bm AND push_bit i 1 \<noteq> 0"

definition rmem_slot_for :: "nat \<Rightarrow> nat" where
  "rmem_slot_for i = i + 1"

definition slots_usable :: "slot_mgr \<Rightarrow> bool" where
  "slots_usable s \<longleftrightarrow> s_initted s \<and> \<not> uncertain (s_o1 s)"

definition o1_encode :: "u32 \<Rightarrow> u8 \<Rightarrow> u8 \<Rightarrow> bytes" where
  "o1_encode bm uv bound = be32_store bm @ [uv, bound]"

definition write_global ::
  "'c tropic \<Rightarrow> crypto \<Rightarrow> u32 \<Rightarrow> u8 \<Rightarrow> u8 \<Rightarrow> slot_mgr \<Rightarrow> 'c \<Rightarrow> int \<times> slot_mgr \<times> 'c" where
  "write_global T K bm uv bound s c =
     (if \<not> slots_usable s then (- 1, s, c)
      else case rec_pair_write T K (o1_encode bm uv bound) (s_o1 s) c of
        (st, p1, c1) \<Rightarrow>
          (if st \<noteq> REC_OK then (- 1, s\<lparr>s_o1 := p1\<rparr>, c1)
           else (0, s\<lparr>s_o1 := p1, s_bitmap := bm, s_force_uv := uv, s_pin_bound := bound\<rparr>, c1)))"

definition cred_bytes :: "u8 \<Rightarrow> u8 \<Rightarrow> bytes \<Rightarrow> bytes \<Rightarrow> bytes \<Rightarrow> u32 \<Rightarrow> bytes" where
  "cred_bytes al fl rp nonce uh cr =
     (let h = take SLOTS_USER_HANDLE_MAX uh in
      CRED_MAGIC @ [4, al, fl, 0] @ rp @ nonce @ [of_nat (length h)] @ h
        @ replicate (SLOTS_USER_HANDLE_MAX - length h) 0 @ be32_store cr @ replicate 131 0)"

definition write_cred ::
  "'c tropic \<Rightarrow> nat \<Rightarrow> u8 \<Rightarrow> u8 \<Rightarrow> bytes \<Rightarrow> bytes \<Rightarrow> bytes \<Rightarrow> u32 \<Rightarrow> 'c \<Rightarrow> int \<times> 'c" where
  "write_cred T idx al fl rp nonce uh cr c =
     (let buf = cred_bytes al fl rp nonce uh cr; rs = rmem_slot_for idx in
      case tropic_rmem_erase T rs c of
        (rc, c1) \<Rightarrow> (if rc \<noteq> 0 then (- 1, c1) else tropic_rmem_write T rs buf c1))"

definition parse_cred :: "bytes \<Rightarrow> slot_meta" where
  "parse_cred d =
     (let got = length d;
          uh = (if got > 56 then
                  let len = unat (d ! 56) in
                  if len > 0 \<and> len \<le> SLOTS_USER_HANDLE_MAX \<and> got \<ge> 57 + len
                  then take len (drop 57 d) else []
                else []);
          cr = (if got \<ge> 121 + 4 then be32_load (d ! 121) (d ! 122) (d ! 123) (d ! 124) else 0)
      in \<lparr>alg = d ! 5, flags = d ! 6, rp_id_hash = take 32 (drop 8 d),
          cred_id_nonce = take SLOTS_CRED_ID_NONCE_LEN (drop 40 d), user_handle = uh, created = cr\<rparr>)"

text \<open>\<open>Inl (- 3)\<close>: the slot reads empty.  \<open>Inl (- 2)\<close>: chip error or short.  \<open>Inl (- 1)\<close>: bad magic.\<close>

definition read_cred :: "'c tropic \<Rightarrow> nat \<Rightarrow> 'c \<Rightarrow> (int + slot_meta) \<times> 'c" where
  "read_cred T idx c =
     (case tropic_rmem_read T (rmem_slot_for idx) SLOTS_RMEM_PER_CRED_SIZE c of
        (Inl rc, c1) \<Rightarrow> (Inl (if rc = TROPIC_ERR_RMEM_SLOT_EMPTY then - 3 else - 2), c1)
      | (Inr d, c1) \<Rightarrow>
          (if length d = 0 then (Inl (- 3), c1)
           else if length d < 40 + SLOTS_CRED_ID_NONCE_LEN then (Inl (- 2), c1)
           else if take 4 d \<noteq> CRED_MAGIC then (Inl (- 1), c1)
           else (Inr (parse_cred d), c1)))"

fun scrub_from :: "'c tropic \<Rightarrow> nat list \<Rightarrow> u32 \<Rightarrow> 'c \<Rightarrow> u32 \<times> 'c" where
  "scrub_from T [] bm c = (bm, c)"
| "scrub_from T (i # is) bm c =
     (if slot_bit bm i then
        (case read_cred T i c of (r, c1) \<Rightarrow>
           scrub_from T is (if r = Inl (- 3) then bm AND NOT (push_bit i 1) else bm) c1)
      else scrub_from T is bm c)"

definition orphan_scrub :: "'c tropic \<Rightarrow> u32 \<Rightarrow> 'c \<Rightarrow> u32 \<times> 'c" where
  "orphan_scrub T bm c = scrub_from T [0..<FIDO_SLOTS_MAX] bm c"

section \<open>The public operations\<close>

definition SLOTS_INIT_ABSENT :: int where "SLOTS_INIT_ABSENT = 1"

definition o1_decode :: "bytes \<Rightarrow> (u32 \<times> u8 \<times> u8) option" where
  "o1_decode d =
     (if length d \<noteq> O1_LEN \<or> unat (d ! 4) > 1 \<or> unat (d ! 5) > 1
         \<or> drop_bit FIDO_SLOTS_MAX (be32_load (d ! 0) (d ! 1) (d ! 2) (d ! 3)) \<noteq> 0
      then None
      else Some (be32_load (d ! 0) (d ! 1) (d ! 2) (d ! 3), d ! 4, d ! 5))"

definition slots_init :: "'c tropic \<Rightarrow> crypto \<Rightarrow> slot_mgr \<Rightarrow> 'c \<Rightarrow> int \<times> slot_mgr \<times> 'c" where
  "slots_init T K s c =
     (if s_initted s then (if uncertain (s_o1 s) then - 1 else 0, s, c)
      else case tropic_l3_session_ensure T c of (rc0, c1) \<Rightarrow>
      if rc0 \<noteq> 0 then (- 1, s, c1)
      else case rec_pair_read T K (Some O1_LEN) (s_o1 s) c1 of (st, out, p1, c2) \<Rightarrow>
      let s1 = s\<lparr>s_o1 := p1\<rparr> in
      if st = REC_ABSENT then (SLOTS_INIT_ABSENT, s1, c2)
      else case (if st = REC_OK then o1_decode (fst (the out)) else None) of
        None \<Rightarrow> (- 2, s1, c2)
      | Some (bm, uv, bound) \<Rightarrow>
          (let s2 = s1\<lparr>s_bitmap := bm, s_force_uv := uv, s_pin_bound := bound, s_initted := True\<rparr>;
               (scrubbed, c3) = orphan_scrub T bm c2
           in if scrubbed \<noteq> bm then
                (case write_global T K scrubbed uv bound s2 c3 of (rc, s3, c4) \<Rightarrow>
                   if rc \<noteq> 0 then (- 3, s3\<lparr>s_initted := False\<rparr>, c4) else (0, s3, c4))
              else (0, s2, c3)))"

definition slots_init_fresh :: "'c tropic \<Rightarrow> crypto \<Rightarrow> slot_mgr \<Rightarrow> 'c \<Rightarrow> int \<times> slot_mgr \<times> 'c" where
  "slots_init_fresh T K s c =
     (let s0 = s\<lparr>s_initted := False, s_o1 := (s_o1 s)\<lparr>uncertain := False\<rparr>\<rparr> in
      case rec_pair_init T K (o1_encode 0 0 0) (s_o1 s0) c of (st, p1, c1) \<Rightarrow>
        if st \<noteq> REC_OK then (- 1, s0\<lparr>s_o1 := p1\<rparr>, c1)
        else (0, s0\<lparr>s_o1 := p1, s_bitmap := 0, s_force_uv := 0, s_pin_bound := 0,
                    s_initted := True\<rparr>, c1))"

fun wipe_from :: "'c tropic \<Rightarrow> nat list \<Rightarrow> 'c \<Rightarrow> int \<times> 'c" where
  "wipe_from T [] c = (0, c)"
| "wipe_from T (i # is) c =
     (let rs = rmem_slot_for i; (rc, c1) = tropic_rmem_erase T rs c in
      if rc \<noteq> 0 then (- 1, c1)
      else case tropic_rmem_read T rs 8 c1 of (r, c2) \<Rightarrow>
        if r \<noteq> Inl TROPIC_ERR_RMEM_SLOT_EMPTY \<and> r \<noteq> Inr [] then (- 1, c2)
        else wipe_from T is c2)"

definition slots_wipe_meta :: "'c tropic \<Rightarrow> 'c \<Rightarrow> int \<times> 'c" where
  "slots_wipe_meta T c = wipe_from T [0..<FIDO_SLOTS_MAX] c"

definition make_cred_id :: "nat \<Rightarrow> bytes \<Rightarrow> bytes" where
  "make_cred_id idx nonce = [1, of_nat idx] @ nonce"

definition free_slot :: "u32 \<Rightarrow> nat option" where
  "free_slot bm = find (\<lambda>i. \<not> slot_bit bm i) [0..<FIDO_SLOTS_MAX]"

definition fido_mask :: u32 where
  "fido_mask = push_bit FIDO_SLOTS_MAX 1 - 1"

definition new_bitmap :: "u32 \<Rightarrow> nat \<Rightarrow> u32 \<Rightarrow> u32" where
  "new_bitmap bm idx replace_mask = (bm OR push_bit idx 1) AND NOT (replace_mask AND fido_mask)"

definition slots_alloc ::
  "'c tropic \<Rightarrow> crypto \<Rightarrow> bytes \<Rightarrow> u8 \<Rightarrow> u8 \<Rightarrow> bytes \<Rightarrow> u32 \<Rightarrow> u32 \<Rightarrow> slot_mgr \<Rightarrow> 'c
     \<Rightarrow> (int + nat \<times> bytes) \<times> slot_mgr \<times> 'c" where
  "slots_alloc T K rp al fl uh cr replace_mask s c =
     (if \<not> slots_usable s then (Inl (- 2), s, c)
      else if length uh > SLOTS_USER_HANDLE_MAX then (Inl (- 1), s, c)
      else case free_slot (s_bitmap s) of
        None \<Rightarrow> (Inl (- 1), s, c)
      | Some idx \<Rightarrow>
          (case tropic_random T SLOTS_CRED_ID_NONCE_LEN c of
             (Inl _, c1) \<Rightarrow> (Inl (- 2), s, c1)
           | (Inr nonce, c1) \<Rightarrow>
               (case write_cred T idx al fl rp nonce uh cr c1 of (rc, c2) \<Rightarrow>
                  if rc \<noteq> 0 then (Inl (- 2), s, c2)
                  else let bm = new_bitmap (s_bitmap s) idx replace_mask in
                  case write_global T K bm (s_force_uv s) (s_pin_bound s) s c2 of (rc2, s1, c3) \<Rightarrow>
                    if rc2 \<noteq> 0 then (Inl (- 3), s1, c3)
                    else (Inr (idx, make_cred_id idx nonce), s1, c3))))"

definition slots_lookup_by_credid ::
  "'c tropic \<Rightarrow> bytes \<Rightarrow> slot_mgr \<Rightarrow> 'c \<Rightarrow> (nat \<times> slot_meta) option \<times> 'c" where
  "slots_lookup_by_credid T cid s c =
     (if \<not> slots_usable s then (None, c)
      else if length cid \<noteq> SLOTS_CRED_ID_LEN then (None, c)
      else if cid ! 0 \<noteq> 1 then (None, c)
      else let idx = unat (cid ! 1) in
      if idx \<ge> FIDO_SLOTS_MAX then (None, c)
      else if \<not> slot_bit (s_bitmap s) idx then (None, c)
      else case read_cred T idx c of
        (Inl _, c1) \<Rightarrow> (None, c1)
      | (Inr m, c1) \<Rightarrow>
          (if ct_diff 0 (cred_id_nonce m) (take SLOTS_CRED_ID_NONCE_LEN (drop 2 cid)) \<noteq> 0 then (None, c1)
           else (Some (idx, m), c1)))"

definition slots_erase :: "'c tropic \<Rightarrow> crypto \<Rightarrow> int \<Rightarrow> slot_mgr \<Rightarrow> 'c \<Rightarrow> int \<times> slot_mgr \<times> 'c" where
  "slots_erase T K slot_idx s c =
     (if slot_idx < 0 \<or> slot_idx \<ge> int FIDO_SLOTS_MAX then (- 1, s, c)
      else if \<not> slots_usable s then (- 2, s, c)
      else let i = nat slot_idx; bm = s_bitmap s AND NOT (push_bit i 1);
               (rc, s1, c1) = (if bm \<noteq> s_bitmap s
                 then write_global T K bm (s_force_uv s) (s_pin_bound s) s c else (0, s, c))
      in if rc \<noteq> 0 then (- 2, s1, c1)
      else case tropic_rmem_erase T (rmem_slot_for i) c1 of (rc2, c2) \<Rightarrow>
        (if rc2 \<noteq> 0 then - 2 else 0, s1, c2))"

definition slots_bitmap :: "slot_mgr \<Rightarrow> u32" where
  "slots_bitmap s = (if slots_usable s then s_bitmap s else 0)"

function count_bits :: "u32 \<Rightarrow> nat" where
  "count_bits bm = (if bm = 0 then 0 else unat (bm AND 1) + count_bits (drop_bit 1 bm))"
  by pat_completeness auto
termination
proof (relation "measure unat")
  fix bm :: u32
  assume "bm \<noteq> 0"
  then have "unat bm div 2 < unat bm" by (simp add: unat_gt_0)
  then show "(drop_bit 1 bm, bm) \<in> measure unat"
    by (simp add: unsigned_drop_bit_eq drop_bit_eq_div [where ?'a = nat] take_bit_eq_mod)
qed simp

definition slots_count_used :: "slot_mgr \<Rightarrow> nat" where
  "slots_count_used s = count_bits (slots_bitmap s)"

definition slots_read_meta :: "'c tropic \<Rightarrow> int \<Rightarrow> slot_mgr \<Rightarrow> 'c \<Rightarrow> (int + slot_meta) \<times> 'c" where
  "slots_read_meta T slot_idx s c =
     (if \<not> slots_usable s then (Inl (- 2), c)
      else if slot_idx < 0 \<or> slot_idx \<ge> int FIDO_SLOTS_MAX then (Inl (- 1), c)
      else if \<not> slot_bit (s_bitmap s) (nat slot_idx) then (Inl (- 1), c)
      else case read_cred T (nat slot_idx) c of
        (Inr m, c1) \<Rightarrow> (Inr m, c1)
      | (Inl rc, c1) \<Rightarrow> (Inl (if rc = - 1 then - 1 else - 2), c1))"

definition slots_pin_bound :: "slot_mgr \<Rightarrow> int" where
  "slots_pin_bound s = (if slots_usable s then int (unat (s_pin_bound s)) else - 1)"

definition slots_set_pin_bound ::
  "'c tropic \<Rightarrow> crypto \<Rightarrow> bool \<Rightarrow> bool \<Rightarrow> slot_mgr \<Rightarrow> 'c \<Rightarrow> int \<times> slot_mgr \<times> 'c" where
  "slots_set_pin_bound T K bound force_uv_on s c =
     write_global T K (s_bitmap s) (if force_uv_on then 1 else s_force_uv s)
       (if bound then 1 else 0) s c"

definition slots_force_uv_get :: "slot_mgr \<Rightarrow> int" where
  "slots_force_uv_get s = (if slots_usable s then int (unat (s_force_uv s)) else 1)"

definition slots_force_uv_set ::
  "'c tropic \<Rightarrow> crypto \<Rightarrow> bool \<Rightarrow> slot_mgr \<Rightarrow> 'c \<Rightarrow> int \<times> slot_mgr \<times> 'c" where
  "slots_force_uv_set T K v s c = write_global T K (s_bitmap s) (if v then 1 else 0) (s_pin_bound s) s c"

definition slots_test_reboot :: "slot_mgr \<Rightarrow> slot_mgr" where
  "slots_test_reboot s = s\<lparr>s_initted := False, s_o1 := (s_o1 s)\<lparr>uncertain := False\<rparr>\<rparr>"

section \<open>Bits\<close>

lemma slot_bit_iff [simp]: "slot_bit bm i \<longleftrightarrow> bit bm i"
  by (simp add: slot_bit_def push_bit_of_1 and_exp_eq_0_iff_not_bit)

lemma clear_bit_iff: "bit (bm AND NOT (push_bit i 1) :: u32) j \<longleftrightarrow> bit bm j \<and> j \<noteq> i"
  by (auto simp: bit_simps dest: bit_imp_le_length)

lemma set_bit_iff: "i < 32 \<Longrightarrow> bit (bm OR push_bit i 1 :: u32) j \<longleftrightarrow> bit bm j \<or> j = i"
  by (auto simp: bit_simps)

lemma fido_mask_iff: "bit fido_mask j \<longleftrightarrow> j < 29"
proof -
  have m: "fido_mask = mask 29"
    by (simp add: fido_mask_def slot_consts mask_eq_exp_minus_1 push_bit_of_1)
  show ?thesis unfolding m by (auto simp: bit_mask_iff possible_bit_def)
qed

lemma fido_range_iff: "drop_bit 29 (bm :: u32) = 0 \<longleftrightarrow> (\<forall>i. bit bm i \<longrightarrow> i < 29)"
proof
  assume z: "drop_bit 29 bm = 0"
  show "\<forall>i. bit bm i \<longrightarrow> i < 29"
  proof (intro allI impI, rule ccontr)
    fix i assume "bit bm i" "\<not> i < 29"
    then have "bit (drop_bit 29 bm) (i - 29)" by (simp add: bit_drop_bit_eq)
    then show False using z by simp
  qed
next
  assume "\<forall>i. bit bm i \<longrightarrow> i < 29"
  then have "\<not> bit (drop_bit 29 bm) n" for n by (auto simp: bit_drop_bit_eq)
  then show "drop_bit 29 bm = 0" by (simp add: bit_eq_iff)
qed

lemma free_slot_some: "free_slot bm = Some i \<Longrightarrow> i < 29 \<and> \<not> bit bm i \<and> (\<forall>j < i. bit bm j)"
  by (auto simp: free_slot_def find_Some_iff slot_consts)

lemma free_slot_none: "free_slot bm = None \<longleftrightarrow> (\<forall>i < 29. bit bm i)"
  by (auto simp: free_slot_def find_None_iff slot_consts)

lemma alloc_bitmap:
  assumes "i < 29"
  shows "bit (new_bitmap bm i m) j
    \<longleftrightarrow> (bit bm j \<or> j = i) \<and> \<not> (bit m j \<and> j < 29)"
  using assms bit_imp_le_length [of bm j] by (auto simp: new_bitmap_def bit_simps fido_mask_iff)

section \<open>The RAM copy and O1\<close>

definition slots_ok ::
  "'c tropic \<Rightarrow> crypto \<Rightarrow> ('c \<Rightarrow> bool) \<Rightarrow> ('c \<Rightarrow> nat \<Rightarrow> bytes) \<Rightarrow> slot_mgr \<Rightarrow> 'c \<Rightarrow> bool" where
  "slots_ok T K I view s c \<longleftrightarrow>
     pair_ok T K I view (s_o1 s, c) \<and> slot_a (s_o1 s) = 0 \<and> slot_b (s_o1 s) = 40 \<and>
     (slots_usable s \<longrightarrow>
        pair_content K view (s_o1 s, c) = Some (o1_encode (s_bitmap s) (s_force_uv s) (s_pin_bound s)) \<and>
        drop_bit FIDO_SLOTS_MAX (s_bitmap s) = 0 \<and> unat (s_force_uv s) \<le> 1 \<and> unat (s_pin_bound s) \<le> 1)"

lemma o1_decode_encode:
  assumes "drop_bit FIDO_SLOTS_MAX bm = 0" and "unat uv \<le> 1" and "unat pb \<le> 1"
  shows "o1_decode (o1_encode bm uv pb) = Some (bm, uv, pb)"
  using assms be32_load_store [of bm] by (simp add: o1_decode_def o1_encode_def be32_store_def slot_consts)

lemma o1_decode_some:
  assumes "o1_decode d = Some (bm, uv, pb)"
  shows "d = o1_encode bm uv pb" and "drop_bit FIDO_SLOTS_MAX bm = 0" and "unat uv \<le> 1" and "unat pb \<le> 1"
proof -
  have l: "length d = 6" and b: "bm = be32_load (d ! 0) (d ! 1) (d ! 2) (d ! 3)" "uv = d ! 4" "pb = d ! 5"
    using assms by (auto simp: o1_decode_def slot_consts split: if_splits)
  have "d = [d ! 0, d ! 1, d ! 2, d ! 3, d ! 4, d ! 5]"
    using l by (auto simp: list_eq_iff_nth_eq less_Suc_eq numeral_eq_Suc)
  then show "d = o1_encode bm uv pb" by (simp add: o1_encode_def b be32_store_load)
  show "drop_bit FIDO_SLOTS_MAX bm = 0" and "unat uv \<le> 1" and "unat pb \<le> 1"
    using assms by (auto simp: o1_decode_def split: if_splits)
qed

context framed_chip
begin

abbreviation "ok K \<equiv> slots_ok T K inv view"

lemma ok_inv: "ok K s c \<Longrightarrow> inv c"
  by (simp add: slots_ok_def pair_ok_def)

lemma ok_frame:
  assumes "ok K s c" and "inv c'" and "view c' 0 = view c 0" and "view c' 40 = view c 40"
  shows "ok K s c'"
  using assms by (auto simp: slots_ok_def pair_ok_def pair_content_def)

lemma write_global_ok:
  assumes "ok K s c" and "drop_bit FIDO_SLOTS_MAX bm = 0" and "unat uv \<le> 1" and "unat pb \<le> 1"
    and "write_global T K bm uv pb s c = (rc, s', c')"
  shows "ok K s' c'" and "t \<noteq> 0 \<Longrightarrow> t \<noteq> 40 \<Longrightarrow> view c' t = view c t"
    and "rc = 0 \<Longrightarrow> slots_usable s' \<and> s_bitmap s' = bm \<and> s_force_uv s' = uv \<and> s_pin_bound s' = pb"
    and "rc = 0 \<or> rc = - 1" and "s_initted s' = s_initted s"
    and "rc \<noteq> 0 \<Longrightarrow> s_bitmap s' = s_bitmap s \<and> s_force_uv s' = s_force_uv s \<and> s_pin_bound s' = s_pin_bound s"
proof -
  have *: "ok K s' c' \<and> (t \<noteq> 0 \<longrightarrow> t \<noteq> 40 \<longrightarrow> view c' t = view c t) \<and>
    (rc = 0 \<longrightarrow> slots_usable s' \<and> s_bitmap s' = bm \<and> s_force_uv s' = uv \<and> s_pin_bound s' = pb) \<and>
    (rc = 0 \<or> rc = - 1) \<and> s_initted s' = s_initted s \<and>
    (rc \<noteq> 0 \<longrightarrow> s_bitmap s' = s_bitmap s \<and> s_force_uv s' = s_force_uv s \<and> s_pin_bound s' = s_pin_bound s)"
  proof (cases "slots_usable s")
    case False
    then show ?thesis using assms(1,5) by (auto simp: write_global_def)
  next
    case True
    let ?pl = "o1_encode bm uv pb"
    obtain st p1 c1 where w: "rec_pair_write T K ?pl (s_o1 s) c = (st, p1, c1)" by (metis prod_cases3)
    have pk: "pair_ok T K inv view (s_o1 s, c)" and sl: "slot_a (s_o1 s) = 0" "slot_b (s_o1 s) = 40"
      and ct: "pair_content K view (s_o1 s, c) = Some (o1_encode (s_bitmap s) (s_force_uv s) (s_pin_bound s))"
      using assms(1) True by (simp_all add: slots_ok_def)
    have ne: "slot_a (s_o1 s) \<noteq> slot_b (s_o1 s)" and ck: "crypto_ok K" and i: "inv c"
      using pk by (simp_all add: pair_ok_def)
    note ws = write_spec [OF i ne ck w]
    have s1: "slot_a p1 = 0" "slot_b p1 = 40" using ws(3) sl by auto
    have p1: "pair_ok T K inv view (p1, c1)" using pair.wr_inv [OF pk] w by simp
    have okc: "st = REC_OK \<Longrightarrow> pair_content K view (p1, c1) = Some ?pl \<and> \<not> uncertain p1"
      using pair.wr_content [OF pk] w ws(4) True by (auto simp: slots_usable_def)
    have flc: "st \<noteq> REC_OK \<Longrightarrow> \<not> uncertain p1 \<Longrightarrow> pair_content K view (p1, c1)
        = Some (o1_encode (s_bitmap s) (s_force_uv s) (s_pin_bound s))"
      using pair_cached.wr_fail [OF pk ct, of ?pl st "(p1, c1)"] w by simp
    have fr: "t \<noteq> 0 \<Longrightarrow> t \<noteq> 40 \<Longrightarrow> view c1 t = view c t" using ws(2) sl by simp
    show ?thesis
    proof (cases "st = REC_OK")
      case ok: True
      then show ?thesis
        using assms(2-5) True s1 p1 okc fr by (auto simp: write_global_def w slots_ok_def slots_usable_def)
    next
      case bad: False
      then show ?thesis
        using assms(1,5) True s1 p1 flc fr by (auto simp: write_global_def w slots_ok_def slots_usable_def)
    qed
  qed
  then show "ok K s' c'" and "t \<noteq> 0 \<Longrightarrow> t \<noteq> 40 \<Longrightarrow> view c' t = view c t"
    and "rc = 0 \<Longrightarrow> slots_usable s' \<and> s_bitmap s' = bm \<and> s_force_uv s' = uv \<and> s_pin_bound s' = pb"
    and "rc = 0 \<or> rc = - 1" and "s_initted s' = s_initted s"
    and "rc \<noteq> 0 \<Longrightarrow> s_bitmap s' = s_bitmap s \<and> s_force_uv s' = s_force_uv s \<and> s_pin_bound s' = s_pin_bound s"
    by blast+
qed

lemma read_cred_frame:
  assumes "inv c" and "read_cred T i c = (r, c')"
  shows "inv c' \<and> view c' = view c"
    and "r = Inl (- 3) \<Longrightarrow> view c (i + 1) = []"
    and "r = Inr m \<Longrightarrow> m = parse_cred (take 256 (view c (i + 1))) \<and> take 4 (view c (i + 1)) = CRED_MAGIC
           \<and> 56 \<le> length (view c (i + 1))"
proof -
  obtain x c1 where x: "tropic_rmem_read T (i + 1) 256 c = (x, c1)" by fastforce
  note f = read_inv [OF assms(1) x] read_frame [OF assms(1) x]
  have e: "x = Inl TROPIC_ERR_RMEM_SLOT_EMPTY \<Longrightarrow> view c (i + 1) = []"
    using read_empty [OF assms(1)] x by blast
  have d: "x = Inr d \<Longrightarrow> d = take 256 (view c (i + 1))" for d
    using read_data [OF assms(1)] x by blast
  show "inv c' \<and> view c' = view c"
    and "r = Inl (- 3) \<Longrightarrow> view c (i + 1) = []"
    and "r = Inr m \<Longrightarrow> m = parse_cred (take 256 (view c (i + 1))) \<and> take 4 (view c (i + 1)) = CRED_MAGIC
           \<and> 56 \<le> length (view c (i + 1))"
    using f assms(2) x e d
    by (cases x; auto simp: read_cred_def rmem_slot_for_def slot_consts min_def split: if_splits)+
qed

lemma scrub_from_spec:
  "inv c \<Longrightarrow> scrub_from T is bm c = (bm', c') \<Longrightarrow>
     inv c' \<and> view c' = view c \<and> (\<forall>j. bit bm' j \<longrightarrow> bit bm j) \<and>
     (\<forall>j. bit bm j \<longrightarrow> \<not> bit bm' j \<longrightarrow> j \<in> set is \<and> view c (j + 1) = [])"
proof (induction "is" arbitrary: bm c)
  case Nil
  then show ?case by simp
next
  case (Cons i xs)
  show ?case
  proof (cases "bit bm i")
    case False
    then show ?thesis using Cons by auto
  next
    case True
    obtain r c1 where r: "read_cred T i c = (r, c1)" by fastforce
    note rf = read_cred_frame [OF Cons.prems(1) r]
    let ?bm = "if r = Inl (- 3) then bm AND NOT (push_bit i 1) else bm"
    have sc: "scrub_from T xs ?bm c1 = (bm', c')" using Cons.prems(2) True r by simp
    have "(\<forall>j. bit ?bm j \<longrightarrow> bit bm j) \<and> (\<forall>j. bit bm j \<longrightarrow> \<not> bit ?bm j \<longrightarrow> j = i \<and> r = Inl (- 3))"
      using clear_bit_iff [of bm i] by auto
    then show ?thesis
      using Cons.IH [OF _ sc] rf(1,2) by (metis list.set_intros)
  qed
qed

lemma orphan_scrub_spec:
  assumes "inv c" and "orphan_scrub T bm c = (bm', c')"
  shows "inv c'" and "view c' = view c" and "bit bm' j \<Longrightarrow> bit bm j"
    and "bit bm j \<Longrightarrow> \<not> bit bm' j \<Longrightarrow> j < 29 \<and> view c (j + 1) = []"
  using scrub_from_spec [OF assms(1) assms(2) [unfolded orphan_scrub_def]]
  by (auto simp: slot_consts)

lemma slots_init_ok:
  assumes "ok K s c" and "slots_init T K s c = (rc, s', c')"
  shows "ok K s' c'" and "t \<noteq> 0 \<Longrightarrow> t \<noteq> 40 \<Longrightarrow> view c' t = view c t"
proof -
  obtain rc0 c1 where e: "tropic_l3_session_ensure T c = (rc0, c1)" by fastforce
  obtain st out p1 c2 where r: "rec_pair_read T K (Some O1_LEN) (s_o1 s) c1 = (st, out, p1, c2)"
    by (metis prod_cases4)
  have i: "inv c" by (rule ok_inv [OF assms(1)])
  have i1: "inv c1" and v1: "view c1 = view c"
    using session_inv [OF i e] session_frame [OF i e] by simp_all
  have ok1: "ok K s c1" by (rule ok_frame [OF assms(1) i1]) (simp_all add: v1)
  have pk: "pair_ok T K inv view (s_o1 s, c1)" and sl: "slot_a (s_o1 s) = 0" "slot_b (s_o1 s) = 40"
    using ok1 by (simp_all add: slots_ok_def)
  note rf = rec_pair_read_frame [OF i1 r]
  have pk2: "pair_ok T K inv view (p1, c2)" using pair.rd_inv [OF pk] r by simp
  have sl2: "slot_a p1 = 0" "slot_b p1 = 40" using rf(3) sl by auto
  have fr: "t \<noteq> 0 \<Longrightarrow> t \<noteq> 40 \<Longrightarrow> view c2 t = view c t" for t using rf(2) sl v1 by simp
  let ?s1 = "s\<lparr>s_o1 := p1\<rparr>"
  have *: "ok K s' c' \<and> (t \<noteq> 0 \<longrightarrow> t \<noteq> 40 \<longrightarrow> view c' t = view c t)"
    if ns: "\<not> s_initted s" and r0: "rc0 = 0"
  proof -
    have ok2: "ok K ?s1 c2" using pk2 sl2 ns by (simp add: slots_ok_def slots_usable_def)
    let ?d = "if st = REC_OK then o1_decode (fst (the out)) else None"
    show ?thesis
    proof (cases "st = REC_ABSENT \<or> ?d = None")
      case True
      then show ?thesis
        using assms(2) ns r0 ok2 fr by (auto simp: slots_init_def e r Let_def split: if_splits)
    next
      case False
      then obtain bm uv pb where d: "?d = Some (bm, uv, pb)" and st: "st = REC_OK"
        by (metis option.exhaust prod_cases3)
      then obtain pl g where o: "out = Some (pl, g)" "pair_content K view (p1, c2) = Some pl"
        using pair.rd_content [OF pk] r by fastforce
      have dec: "o1_decode pl = Some (bm, uv, pb)" using d st o by simp
      note od = o1_decode_some [OF dec]
      let ?s2 = "?s1\<lparr>s_bitmap := bm, s_force_uv := uv, s_pin_bound := pb, s_initted := True\<rparr>"
      have ok3: "ok K ?s2 c2" using pk2 sl2 o(2) od by (simp add: slots_ok_def)
      obtain sb c3 where sc: "orphan_scrub T bm c2 = (sb, c3)" by fastforce
      note ss = orphan_scrub_spec [OF rf(1) sc]
      have ok4: "ok K ?s2 c3" by (rule ok_frame [OF ok3 ss(1)]) (simp_all add: ss(2))
      obtain rc3 s3 c4 where w: "write_global T K sb uv pb ?s2 c3 = (rc3, s3, c4)" by (metis prod_cases3)
      have sb: "drop_bit FIDO_SLOTS_MAX sb = 0"
        using od(2) ss(3) fido_range_iff [of bm] fido_range_iff [of sb] by (auto simp: slot_consts)
      note wg = write_global_ok [OF ok4 sb od(3,4) w]
      have ok5: "ok K (s3\<lparr>s_initted := False\<rparr>) c4"
        using wg(1) by (simp add: slots_ok_def slots_usable_def)
      show ?thesis
        using assms(2) ns r0 st d ok4 ok5 wg(1,2) fr ss(2)
        by (auto simp: slots_init_def e r sc w Let_def split: if_splits)
    qed
  qed
  show "ok K s' c'" and "t \<noteq> 0 \<Longrightarrow> t \<noteq> 40 \<Longrightarrow> view c' t = view c t"
    using * assms ok1 v1 by (auto simp: slots_init_def e split: if_splits)
qed

lemma slots_init_fresh_ok:
  assumes "ok K s c" and "slots_init_fresh T K s c = (rc, s', c')"
  shows "ok K s' c'" and "t \<noteq> 0 \<Longrightarrow> t \<noteq> 40 \<Longrightarrow> view c' t = view c t"
    and "rc = 0 \<Longrightarrow> slots_usable s' \<and> s_bitmap s' = 0"
proof -
  let ?p = "(s_o1 s)\<lparr>uncertain := False\<rparr>" and ?pl = "o1_encode 0 0 0"
  obtain st p1 c1 where w: "rec_pair_init T K ?pl ?p c = (st, p1, c1)" by (metis prod_cases3)
  have pk: "pair_ok T K inv view (?p, c)" and sl: "slot_a ?p = 0" "slot_b ?p = 40"
    using assms(1) by (simp_all add: slots_ok_def pair_ok_def)
  have ne: "slot_a ?p \<noteq> slot_b ?p" and ck: "crypto_ok K" using pk by (simp_all add: pair_ok_def)
  note ws = init_spec [OF ok_inv [OF assms(1)] ne ck w]
  have s1: "slot_a p1 = 0" "slot_b p1 = 40" using ws(3) sl by auto
  have p1: "pair_ok T K inv view (p1, c1)" using pair.ini_inv [OF pk] w by simp
  have okc: "st = REC_OK \<Longrightarrow> pair_content K view (p1, c1) = Some ?pl \<and> \<not> uncertain p1"
    using pair.ini_content [OF pk] w ws(4) by auto
  show "ok K s' c'" and "t \<noteq> 0 \<Longrightarrow> t \<noteq> 40 \<Longrightarrow> view c' t = view c t"
    and "rc = 0 \<Longrightarrow> slots_usable s' \<and> s_bitmap s' = 0"
    using assms(2) s1 p1 okc ws(2) sl
    by (auto simp: slots_init_fresh_def w slots_ok_def slots_usable_def Let_def split: if_splits)
qed

lemma wipe_from_spec:
  "inv c \<Longrightarrow> wipe_from T is c = (rc, c') \<Longrightarrow> distinct is \<Longrightarrow>
     inv c' \<and> (\<forall>t. t \<notin> Suc ` set is \<longrightarrow> view c' t = view c t) \<and>
     (rc = 0 \<longrightarrow> (\<forall>i \<in> set is. view c' (Suc i) = []))"
proof (induction "is" arbitrary: c)
  case Nil
  then show ?case by simp
next
  case (Cons i xs)
  obtain rc1 c1 where 1: "tropic_rmem_erase T (Suc i) c = (rc1, c1)" by fastforce
  note e = erase_inv [OF Cons.prems(1) 1] erase_frame [OF Cons.prems(1) 1]
  obtain r c2 where 2: "tropic_rmem_read T (Suc i) 8 c1 = (r, c2)" by fastforce
  note rf = read_inv [OF e(1) 2] read_frame [OF e(1) 2]
  show ?case
  proof (cases "rc1 = 0 \<and> (r = Inl TROPIC_ERR_RMEM_SLOT_EMPTY \<or> r = Inr [])")
    case False
    then show ?thesis
      using Cons.prems(2) e rf by (auto simp: 1 2 rmem_slot_for_def split: if_splits)
  next
    case True
    then have "view c1 (Suc i) = []"
      using read_empty [OF e(1)] read_data [OF e(1)] 2 by fastforce
    moreover have "wipe_from T xs c2 = (rc, c')"
      using Cons.prems(2) True by (auto simp: 1 2 rmem_slot_for_def)
    ultimately have ih: "inv c' \<and> (\<forall>t. t \<notin> Suc ` set xs \<longrightarrow> view c' t = view c2 t) \<and>
        (rc = 0 \<longrightarrow> (\<forall>i \<in> set xs. view c' (Suc i) = []))"
      and ei: "view c2 (Suc i) = []" using Cons.IH [OF rf(1)] Cons.prems(3) rf by auto
    have "Suc i \<notin> Suc ` set xs" using Cons.prems(3) by auto
    then have "view c' (Suc i) = []" using ih ei by metis
    then show ?thesis using ih e rf by auto
  qed
qed

lemma slots_wipe_meta_spec:
  assumes "inv c" and "slots_wipe_meta T c = (rc, c')"
  shows "inv c'" and "t = 0 \<or> 29 < t \<Longrightarrow> view c' t = view c t"
    and "rc = 0 \<Longrightarrow> 0 < t \<Longrightarrow> t \<le> 29 \<Longrightarrow> view c' t = []"
proof -
  note w = wipe_from_spec [OF assms(1) assms(2) [unfolded slots_wipe_meta_def]]
  show "inv c'" and "t = 0 \<or> 29 < t \<Longrightarrow> view c' t = view c t"
    using w by (auto simp: slot_consts)
  assume "rc = 0" "0 < t" "t \<le> 29"
  then have "t - 1 \<in> set [0..<FIDO_SLOTS_MAX]" "Suc (t - 1) = t" by (auto simp: slot_consts)
  then show "view c' t = []" using w \<open>rc = 0\<close> by (metis distinct_upt)
qed

lemma slots_alloc_ok:
  assumes "ok K s c" and "slots_alloc T K rp al fl uh cr rm s c = (r, s', c')"
  shows "ok K s' c'"
    and "r \<noteq> Inl (- 3) \<Longrightarrow> \<not> isl r \<or> s' = s"
    and "free_slot (s_bitmap s) \<noteq> Some (t - 1) \<Longrightarrow> t \<noteq> 0 \<Longrightarrow> t \<noteq> 40 \<Longrightarrow> view c' t = view c t"
    and "r = Inr (i, cid) \<Longrightarrow> slots_usable s' \<and> free_slot (s_bitmap s) = Some i \<and>
       s_bitmap s' = new_bitmap (s_bitmap s) i rm"
proof -
  have *: "ok K s' c' \<and> (r \<noteq> Inl (- 3) \<longrightarrow> \<not> isl r \<or> s' = s) \<and>
     (free_slot (s_bitmap s) \<noteq> Some (t - 1) \<longrightarrow> t \<noteq> 0 \<longrightarrow> t \<noteq> 40 \<longrightarrow> view c' t = view c t) \<and>
     (r = Inr (i, cid) \<longrightarrow> slots_usable s' \<and> free_slot (s_bitmap s) = Some i \<and>
       s_bitmap s' = new_bitmap (s_bitmap s) i rm)"
  proof (cases "slots_usable s \<and> length uh \<le> SLOTS_USER_HANDLE_MAX \<and> free_slot (s_bitmap s) \<noteq> None")
    case False
    then show ?thesis using assms by (auto simp: slots_alloc_def split: if_splits)
  next
    case True
    then obtain idx where f: "free_slot (s_bitmap s) = Some idx" by blast
    note fs = free_slot_some [OF f]
    obtain x c1 where 1: "tropic_random T SLOTS_CRED_ID_NONCE_LEN c = (x, c1)" by fastforce
    have i: "inv c" by (rule ok_inv [OF assms(1)])
    note rr = random_inv [OF i 1] random_frame [OF i 1]
    have ok1: "ok K s c1" by (rule ok_frame [OF assms(1) rr(1)]) (simp_all add: rr(2))
    show ?thesis
    proof (cases x)
      case (Inl a)
      then show ?thesis using assms True f ok1 rr by (auto simp: slots_alloc_def 1)
    next
      case (Inr nonce)
      obtain rc c2 where 2: "write_cred T idx al fl rp nonce uh cr c1 = (rc, c2)" by fastforce
      obtain rce ce where er: "tropic_rmem_erase T (rmem_slot_for idx) c1 = (rce, ce)" by fastforce
      note ef = erase_inv [OF rr(1) er] erase_frame [OF rr(1) er]
      have w2: "inv c2 \<and> (\<forall>t. t \<noteq> Suc idx \<longrightarrow> view c2 t = view c1 t)"
      proof (cases "rce = 0")
        case True
        then have "tropic_rmem_write T (Suc idx) (cred_bytes al fl rp nonce uh cr) ce = (rc, c2)"
          using 2 er by (simp add: write_cred_def rmem_slot_for_def)
        then show ?thesis
          using ef write_inv [OF ef(1)] write_frame [OF ef(1)] by (auto simp: rmem_slot_for_def)
      next
        case False
        then show ?thesis using 2 ef er by (auto simp: write_cred_def rmem_slot_for_def)
      qed
      have ok2: "ok K s c2"
        by (rule ok_frame [OF ok1]) (use w2 fs in auto)
      let ?bm = "new_bitmap (s_bitmap s) idx rm"
      obtain rc2 s1 c3 where 3: "write_global T K ?bm (s_force_uv s) (s_pin_bound s) s c2 = (rc2, s1, c3)"
        by (metis prod_cases3)
      have dz: "drop_bit FIDO_SLOTS_MAX ?bm = 0"
        using assms(1) True fs alloc_bitmap [of idx] fido_range_iff [of ?bm] fido_range_iff [of "s_bitmap s"]
        by (auto simp: slots_ok_def slot_consts)
      have uv: "unat (s_force_uv s) \<le> 1" "unat (s_pin_bound s) \<le> 1"
        using assms(1) True by (simp_all add: slots_ok_def)
      note wg = write_global_ok [OF ok2 dz uv 3]
      have v3: "t \<noteq> 0 \<Longrightarrow> t \<noteq> 40 \<Longrightarrow> t \<noteq> Suc idx \<Longrightarrow> view c3 t = view c t"
        using wg(2) w2 rr(2) by simp
      show ?thesis
        using assms(2) True f Inr ok2 wg(1,3) v3 w2 rr(2)
        by (auto simp: slots_alloc_def 1 2 3 Let_def split: if_splits)
    qed
  qed
  then show "ok K s' c'"
    and "r \<noteq> Inl (- 3) \<Longrightarrow> \<not> isl r \<or> s' = s"
    and "free_slot (s_bitmap s) \<noteq> Some (t - 1) \<Longrightarrow> t \<noteq> 0 \<Longrightarrow> t \<noteq> 40 \<Longrightarrow> view c' t = view c t"
    and "r = Inr (i, cid) \<Longrightarrow> slots_usable s' \<and> free_slot (s_bitmap s) = Some i \<and>
       s_bitmap s' = new_bitmap (s_bitmap s) i rm"
    by blast+
qed

lemma slots_erase_ok:
  assumes "ok K s c" and "slots_erase T K k s c = (rc, s', c')"
  shows "ok K s' c'"
    and "rc = 0 \<Longrightarrow> slots_usable s' \<and> \<not> bit (s_bitmap s') (nat k)"
    and "t \<noteq> nat k + 1 \<Longrightarrow> t \<noteq> 0 \<Longrightarrow> t \<noteq> 40 \<Longrightarrow> view c' t = view c t"
proof -
  have *: "ok K s' c' \<and> (rc = 0 \<longrightarrow> slots_usable s' \<and> \<not> bit (s_bitmap s') (nat k)) \<and>
    (t \<noteq> nat k + 1 \<longrightarrow> t \<noteq> 0 \<longrightarrow> t \<noteq> 40 \<longrightarrow> view c' t = view c t)"
  proof (cases "0 \<le> k \<and> k < 29 \<and> slots_usable s")
    case False
    then show ?thesis using assms by (auto simp: slots_erase_def slot_consts split: if_splits)
  next
    case True
    let ?i = "nat k"
    let ?bm = "s_bitmap s AND NOT (push_bit ?i 1)"
    have dz: "drop_bit FIDO_SLOTS_MAX ?bm = 0"
      using assms(1) True clear_bit_iff [of "s_bitmap s" ?i] fido_range_iff [of ?bm]
        fido_range_iff [of "s_bitmap s"] by (auto simp: slots_ok_def slot_consts)
    have uv: "unat (s_force_uv s) \<le> 1" "unat (s_pin_bound s) \<le> 1"
      using assms(1) True by (simp_all add: slots_ok_def)
    obtain rc1 s1 c1 where 1: "(if ?bm \<noteq> s_bitmap s
        then write_global T K ?bm (s_force_uv s) (s_pin_bound s) s c else (0, s, c)) = (rc1, s1, c1)"
      by (metis prod_cases3)
    have s1: "ok K s1 c1 \<and> (\<forall>t. t \<noteq> 0 \<longrightarrow> t \<noteq> 40 \<longrightarrow> view c1 t = view c t) \<and>
      (rc1 = 0 \<longrightarrow> slots_usable s1 \<and> s_bitmap s1 = ?bm)"
    proof (cases "?bm = s_bitmap s")
      case same: True
      then show ?thesis using 1 assms(1) True by auto
    next
      case differ: False
      then have w: "write_global T K ?bm (s_force_uv s) (s_pin_bound s) s c = (rc1, s1, c1)" using 1 by simp
      show ?thesis using write_global_ok(1-3) [OF assms(1) dz uv w] by blast
    qed
    obtain rc2 c2 where 2: "tropic_rmem_erase T (rmem_slot_for ?i) c1 = (rc2, c2)" by fastforce
    have i1: "inv c1" using s1 ok_inv by blast
    note ef = erase_inv [OF i1 2] erase_frame [OF i1 2]
    have ok2: "ok K s1 c2"
      by (rule ok_frame [OF conjunct1 [OF s1] ef(1)]) (use ef(2) True in \<open>auto simp: rmem_slot_for_def\<close>)
    have sel: "slots_erase T K k s c = (if rc1 \<noteq> 0 then (- 2, s1, c1) else (if rc2 \<noteq> 0 then - 2 else 0, s1, c2))"
      by (cases "?bm = s_bitmap s") (use True 1 2 in \<open>auto simp: slots_erase_def slot_consts\<close>)
    show ?thesis
      using assms(2) s1 ok2 ef(2) clear_bit_iff [of "s_bitmap s" ?i]
      by (auto simp: sel rmem_slot_for_def split: if_splits)
  qed
  then show "ok K s' c'"
    and "rc = 0 \<Longrightarrow> slots_usable s' \<and> \<not> bit (s_bitmap s') (nat k)"
    and "t \<noteq> nat k + 1 \<Longrightarrow> t \<noteq> 0 \<Longrightarrow> t \<noteq> 40 \<Longrightarrow> view c' t = view c t"
    by blast+
qed

lemma lookup_sound:
  assumes "inv c" and "slots_lookup_by_credid T cid s c = (Some (i, m), c')"
  shows "slots_usable s" and "i < 29" and "bit (s_bitmap s) i" and "cid = make_cred_id i (cred_id_nonce m)"
    and "length (cred_id_nonce m) = 16" and "m = parse_cred (take 256 (view c (i + 1)))"
    and "take 4 (view c (i + 1)) = CRED_MAGIC"
proof -
  let ?i = "unat (cid ! 1)"
  have g: "slots_usable s" "length cid = 18" "cid ! 0 = 1" "?i < 29" "bit (s_bitmap s) ?i"
    using assms(2) by (auto simp: slots_lookup_by_credid_def slot_consts Let_def split: if_splits)
  obtain r c1 where r: "read_cred T ?i c = (r, c1)" by fastforce
  have m: "r = Inr m" "i = ?i" "ct_diff 0 (cred_id_nonce m) (take 16 (drop 2 cid)) = 0"
    using assms(2) g by (auto simp: slots_lookup_by_credid_def slot_consts Let_def r [simplified] split: sum.splits if_splits)
  note rf = read_cred_frame(3) [OF assms(1) r m(1)]
  then show l: "length (cred_id_nonce m) = 16"
    and "m = parse_cred (take 256 (view c (i + 1)))" and "take 4 (view c (i + 1)) = CRED_MAGIC"
    by (auto simp: parse_cred_def slot_consts Let_def m(2))
  have "cred_id_nonce m = take 16 (drop 2 cid)"
    using m(3) l g(2) by (simp add: ct_diff_zero_iff)
  moreover have "cid = [cid ! 0, cid ! 1] @ drop 2 cid"
    using g(2) append_take_drop_id [of 2 cid] by (simp add: take_Suc_conv_app_nth numeral_2_eq_2)
  ultimately show "cid = make_cred_id i (cred_id_nonce m)"
    using g(2,3) m(2) by (simp add: make_cred_id_def)
  show "slots_usable s" and "i < 29" and "bit (s_bitmap s) i" using g m(2) by simp_all
qed

lemma lookup_frame:
  assumes "inv c" and "slots_lookup_by_credid T cid s c = (r, c')"
  shows "inv c' \<and> view c' = view c"
proof -
  obtain x c1 where "read_cred T (unat (cid ! 1)) c = (x, c1)" by fastforce
  then show ?thesis
    using assms read_cred_frame(1) [OF assms(1), of "unat (cid ! 1)" x c1]
    by (auto simp: slots_lookup_by_credid_def Let_def split: if_splits sum.splits)
qed

lemma read_meta_frame:
  assumes "inv c" and "slots_read_meta T k s c = (r, c')"
  shows "inv c' \<and> view c' = view c"
proof -
  obtain x c1 where "read_cred T (nat k) c = (x, c1)" by fastforce
  then show ?thesis
    using assms read_cred_frame(1) [OF assms(1), of "nat k" x c1]
    by (auto simp: slots_read_meta_def split: if_splits sum.splits)
qed

end

text \<open>Any operation, in any order, each allowed to fail, and power cycles between them.\<close>

inductive slots_step ::
  "'c tropic \<Rightarrow> crypto \<Rightarrow> ('c \<Rightarrow> bool) \<Rightarrow> ('c \<Rightarrow> nat \<Rightarrow> bytes) \<Rightarrow> slot_mgr \<times> 'c \<Rightarrow> slot_mgr \<times> 'c \<Rightarrow> bool"
  for T :: "'c tropic" and K :: crypto and I :: "'c \<Rightarrow> bool" and view :: "'c \<Rightarrow> nat \<Rightarrow> bytes" where
  step_init: "slots_init T K s c = (rc, s', c') \<Longrightarrow> slots_step T K I view (s, c) (s', c')"
| step_fresh: "slots_init_fresh T K s c = (rc, s', c') \<Longrightarrow> slots_step T K I view (s, c) (s', c')"
| step_wipe: "slots_wipe_meta T c = (rc, c') \<Longrightarrow> slots_step T K I view (s, c) (s, c')"
| step_alloc: "slots_alloc T K rp al fl uh cr rm s c = (r, s', c') \<Longrightarrow>
    slots_step T K I view (s, c) (s', c')"
| step_lookup: "slots_lookup_by_credid T cid s c = (r, c') \<Longrightarrow> slots_step T K I view (s, c) (s, c')"
| step_erase: "slots_erase T K k s c = (rc, s', c') \<Longrightarrow> slots_step T K I view (s, c) (s', c')"
| step_meta: "slots_read_meta T k s c = (r, c') \<Longrightarrow> slots_step T K I view (s, c) (s, c')"
| step_bound: "slots_set_pin_bound T K b u s c = (rc, s', c') \<Longrightarrow> slots_step T K I view (s, c) (s', c')"
| step_uv: "slots_force_uv_set T K v s c = (rc, s', c') \<Longrightarrow> slots_step T K I view (s, c) (s', c')"
| step_reboot: "power_cycle I view f \<Longrightarrow> slots_step T K I view (s, c) (slots_test_reboot s, f c)"

inductive_cases slots_stepE: "slots_step T K I view x y"

context framed_chip
begin

lemma flags_ok:
  assumes "ok K s c" and "write_global T K (s_bitmap s) uv pb s c = (rc, s', c')"
    and "uv = s_force_uv s \<or> unat uv \<le> 1" and "pb = s_pin_bound s \<or> unat pb \<le> 1"
  shows "ok K s' c'"
proof (cases "slots_usable s")
  case True
  then have "drop_bit FIDO_SLOTS_MAX (s_bitmap s) = 0" "unat uv \<le> 1" "unat pb \<le> 1"
    using assms(1,3,4) by (auto simp: slots_ok_def)
  then show ?thesis using write_global_ok(1) assms(1,2) by blast
next
  case False
  then show ?thesis using assms(1,2) by (simp add: write_global_def)
qed

lemma slots_step_ok:
  assumes "slots_step T K inv view x y" and "ok K (fst x) (snd x)"
  shows "ok K (fst y) (snd y)"
  using assms(1)
proof cases
  case (step_init s c rc s' c')
  then show ?thesis using slots_init_ok(1) assms(2) by simp
next
  case (step_fresh s c rc s' c')
  then show ?thesis using slots_init_fresh_ok(1) assms(2) by simp
next
  case (step_wipe c rc c' s)
  have w: "ok K s c" using step_wipe assms(2) by simp
  note ws = slots_wipe_meta_spec [OF ok_inv [OF w] step_wipe(3)]
  show ?thesis using ok_frame [OF w ws(1)] ws(2) step_wipe by simp
next
  case (step_alloc rp al fl uh cr rm s c r s' c')
  then show ?thesis using slots_alloc_ok(1) assms(2) by simp
next
  case (step_lookup cid s c r c')
  then show ?thesis using lookup_frame [OF ok_inv] ok_frame assms(2) by (metis fst_conv snd_conv)
next
  case (step_erase k s c rc s' c')
  then show ?thesis using slots_erase_ok(1) assms(2) by simp
next
  case (step_meta k s c r c')
  then show ?thesis using read_meta_frame [OF ok_inv] ok_frame assms(2) by (metis fst_conv snd_conv)
next
  case (step_bound b u s c rc s' c')
  then show ?thesis using flags_ok [OF _ step_bound(3) [unfolded slots_set_pin_bound_def]] assms(2) by simp
next
  case (step_uv v s c rc s' c')
  then show ?thesis using flags_ok [OF _ step_uv(3) [unfolded slots_force_uv_set_def]] assms(2) by simp
next
  case (step_reboot f s c)
  then show ?thesis
    using assms(2) by (simp add: slots_ok_def pair_ok_def power_cycle_def slots_test_reboot_def slots_usable_def)
qed

lemma slots_steps_ok:
  assumes "(slots_step T K inv view)\<^sup>*\<^sup>* x y" and "ok K (fst x) (snd x)"
  shows "ok K (fst y) (snd y)"
  using assms by (induction rule: rtranclp_induct) (auto intro: slots_step_ok)

lemma slots_start_ok: "crypto_ok K \<Longrightarrow> inv c \<Longrightarrow> ok K slots_start c"
  using rmem_chip_axioms by (simp add: slots_ok_def slots_start_def pair_ok_def slots_usable_def)

end

section \<open>A stored credential reads back\<close>

lemma cred_bytes_length:
  "length rp = 32 \<Longrightarrow> length nonce = 16 \<Longrightarrow> length (cred_bytes al fl rp nonce uh cr) = 256"
  by (simp add: cred_bytes_def CRED_MAGIC_def slot_consts Let_def)

lemma parse_cred_bytes:
  assumes "length rp = 32" and "length nonce = 16" and "length uh \<le> 64"
  shows "parse_cred (cred_bytes al fl rp nonce uh cr)
    = \<lparr>alg = al, flags = fl, rp_id_hash = rp, cred_id_nonce = nonce, user_handle = uh, created = cr\<rparr>"
proof -
  define A where "A = CRED_MAGIC @ [4, al, fl, 0] @ rp @ nonce @ [of_nat (length uh)]"
  define Z where "Z = replicate (64 - length uh) (0 :: u8)"
  define B where "B = be32_store cr @ replicate 131 0"
  have d: "cred_bytes al fl rp nonce uh cr = A @ uh @ Z @ B"
    using assms(3) by (simp add: cred_bytes_def A_def Z_def B_def slot_consts Let_def)
  have lA: "length A = 57" and lZ: "length (uh @ Z) = 64" and lB: "length B = 135"
    using assms by (simp_all add: A_def Z_def B_def CRED_MAGIC_def)
  have a: "A ! 5 = al" "A ! 6 = fl" "take 32 (drop 8 A) = rp" "take 16 (drop 40 A) = nonce"
    "A ! 56 = of_nat (length uh)"
    using assms(1,2) by (simp_all add: A_def CRED_MAGIC_def nth_append)
  have p: "(A @ uh @ Z @ B) ! k = A ! k" if "k < 57" for k
    using that lA by (simp add: nth_append)
  have q: "(A @ uh @ Z @ B) ! (121 + k) = B ! k" for k
  proof -
    have "drop 121 (A @ uh @ Z @ B) = B" using lA lZ by simp
    moreover have "121 \<le> length (A @ uh @ Z @ B)" using lA lZ by simp
    ultimately show ?thesis by (metis nth_drop)
  qed
  have b: "be32_load ((A @ uh @ Z @ B) ! 121) ((A @ uh @ Z @ B) ! 122) ((A @ uh @ Z @ B) ! 123)
      ((A @ uh @ Z @ B) ! 124) = cr"
    using q [of 0] q [of 1] q [of 2] q [of 3] be32_load_store [of cr]
    by (simp add: B_def be32_store_def)
  have "length (A @ uh @ Z @ B) = 256" using lA lZ lB by simp
  then show ?thesis
    unfolding d parse_cred_def Let_def slot_consts
    using a p b assms(3) lA by (auto simp: drop_append)
qed

context live_dev
begin

lemma write_global_live:
  assumes "good c" and "slots_ok T K inv view s c"
    and "write_global T K bm uv pb s c = (0, s', c')"
  shows "good c'"
proof -
  have us: "slots_usable s"
    using assms(3) by (auto simp: write_global_def split: if_splits)
  let ?p = "s_o1 s" and ?x = "o1_encode (s_bitmap s) (s_force_uv s) (s_pin_bound s)"
  have pk: "crypto_ok K" and pu: "pair_usable ?p" and ct: "pair_content K view (?p, c) = Some ?x"
    using assms(2) us by (simp_all add: slots_ok_def pair_ok_def pair_usable_def slots_usable_def)
  have v: "valid K ?p (view c (slot_a ?p))" "view c (slot_b ?p) = view c (slot_a ?p)"
    "?x = payload_of (view c (slot_a ?p))"
    using ct by (auto elim!: pair_contentE)
  let ?g = "gen_of (view c (slot_a ?p))"
  have g: "?g \<noteq> 0" "view c (slot_a ?p) = encode K ?p ?g ?x"
    using valid_gen [OF v(1)] valid_is_encode [OF v(1)] v(3) by simp_all
  have ar: "at_rest K view ?p ?g ?x c" using g(2) v(2) by (simp add: at_rest_def)
  have nb: "\<not> bad_args ?x" "\<not> bad_args (o1_encode bm uv pb)"
    by (simp_all add: bad_args_def o1_encode_def rec_consts)
  obtain st p1 c0 where w0: "rec_pair_write T K (o1_encode bm uv pb) ?p c = (st, p1, c0)"
    by (metis prod_cases3)
  then have w: "rec_pair_write T K (o1_encode bm uv pb) ?p c = (st, p1, c')" "st = REC_OK"
    using assms(3) us by (simp_all add: write_global_def split: if_splits)
  show ?thesis
  proof (cases "?g = - 1")
    case True
    obtain c1 where r: "rec_pair_read T K None ?p c = (REC_OK, Some (?x, ?g), ?p, c1)"
      by (rule rest_read [OF assms(1) pk pu ar g(1) nb(1), where cap = None]) auto
    then show ?thesis using w nb(2) True by (simp add: rec_pair_write_def r)
  next
    case False
    obtain c1 where "rec_pair_write T K (o1_encode bm uv pb) ?p c = (REC_OK, ?p, c1)" "good c1"
      by (rule rest_write [OF assms(1) pk pu ar g(1) False nb])
    then show ?thesis using w by simp
  qed
qed

lemma alloc_lookup:
  assumes "good c" and "slots_ok T K inv view s c" and "length rp = 32" and "\<not> bit rm i"
    and "slots_alloc T K rp al fl uh cr rm s c = (Inr (i, cid), s', c')"
  shows "\<exists>nonce c''. length nonce = 16 \<and> cid = make_cred_id i nonce \<and>
    slots_lookup_by_credid T cid s' c' = (Some (i, \<lparr>alg = al, flags = fl, rp_id_hash = rp,
      cred_id_nonce = nonce, user_handle = uh, created = cr\<rparr>), c'')"
proof -
  have us: "slots_usable s" and ul: "length uh \<le> 64"
    using assms(5) by (auto simp: slots_alloc_def slot_consts split: if_splits)
  have i: "inv c" by (rule good_inv [OF assms(1)])
  note ao = slots_alloc_ok [OF assms(2,5)]
  have f: "free_slot (s_bitmap s) = Some i" using ao(4) by blast
  note fs = free_slot_some [OF f]
  obtain nonce c1 where 1: "tropic_random T 16 c = (Inr nonce, c1)" "good c1"
    using dev_random [OF assms(1), of 16] by auto
  have nl: "length nonce = 16" and v1: "view c1 = view c"
    using random_length [OF i 1(1)] random_frame [OF i 1(1)] by simp_all
  let ?buf = "cred_bytes al fl rp nonce uh cr"
  have lb: "length ?buf = 256" by (rule cred_bytes_length [OF assms(3) nl])
  obtain ce where e: "tropic_rmem_erase T (Suc i) c1 = (0, ce)" "good ce" "view ce (Suc i) = []"
    using live_erase [OF 1(2), of "Suc i"] fs by auto
  obtain c2 where w: "tropic_rmem_write T (Suc i) ?buf ce = (0, c2)" "good c2" "view c2 (Suc i) = ?buf"
    using live_write [OF e(2), of "Suc i" ?buf] fs e(3) lb by fastforce
  have wc: "write_cred T i al fl rp nonce uh cr c1 = (0, c2)"
    by (simp add: write_cred_def rmem_slot_for_def e(1) w(1))
  have v2: "t \<noteq> Suc i \<Longrightarrow> view c2 t = view c t" for t
    using erase_frame [OF good_inv [OF 1(2)] e(1)] write_frame [OF good_inv [OF e(2)] w(1)] v1 by simp
  have ok2: "slots_ok T K inv view s c2"
    by (rule ok_frame [OF assms(2) good_inv [OF w(2)]]) (use v2 fs in auto)
  let ?bm = "new_bitmap (s_bitmap s) i rm"
  obtain rc3 s3 c3 where g: "write_global T K ?bm (s_force_uv s) (s_pin_bound s) s c2 = (rc3, s3, c3)"
    by (metis prod_cases3)
  have res: "rc3 = 0" "s3 = s'" "c3 = c'" "cid = make_cred_id i nonce"
    using assms(5) us ul f 1(1) wc g
    by (auto simp: slots_alloc_def slot_consts Let_def split: if_splits)
  have g3: "good c'" using write_global_live [OF w(2) ok2] g res by simp
  have u3: "slots_usable s'" "s_bitmap s' = ?bm" using ao(4) by blast+
  have dz: "drop_bit FIDO_SLOTS_MAX ?bm = 0" "unat (s_force_uv s) \<le> 1" "unat (s_pin_bound s) \<le> 1"
    using assms(2) us fs alloc_bitmap [of i] fido_range_iff [of ?bm] fido_range_iff [of "s_bitmap s"]
    by (auto simp: slots_ok_def slot_consts)
  have v3: "view c' (Suc i) = ?buf"
    using write_global_ok(2) [OF ok2 dz g, of "Suc i"] fs w(3) res by simp
  obtain c4 where r: "tropic_rmem_read T (Suc i) 256 c' = (Inr ?buf, c4)"
    using live_read [OF g3, of "Suc i" 256] fs v3 lb by fastforce
  have "read_cred T i c' = (Inr (parse_cred ?buf), c4)"
    using lb r by (simp add: read_cred_def rmem_slot_for_def slot_consts cred_bytes_def CRED_MAGIC_def Let_def)
  moreover have "bit ?bm i" using alloc_bitmap [of i "s_bitmap s" rm i] fs assms(4) by simp
  ultimately have "slots_lookup_by_credid T cid s' c' = (Some (i, parse_cred ?buf), c4)"
    using u3 fs nl res(4)
    by (simp add: slots_lookup_by_credid_def slot_consts make_cred_id_def Let_def
        parse_cred_bytes [OF assms(3) nl ul] ct_diff_zero_iff)
  then show ?thesis using nl res(4) parse_cred_bytes [OF assms(3) nl ul] by auto
qed

end

section \<open>Properties\<close>

text \<open>
  C27. The RAM copy of the FIDO global state is never wrong while it may be used: after any
  sequence of slot operations, failures and reboots, if the manager says it is usable then
  both copies of O1 on the chip hold exactly the bitmap, Force-UV flag and PIN guard in RAM,
  and the bitmap only names FIDO slots.
\<close>

theorem slots_ram_matches_chip:
  assumes "framed_chip T I view" and "crypto_ok K" and "I c"
    and "(slots_step T K I view)\<^sup>*\<^sup>* (slots_start, c) (s', c')" and "slots_usable s'"
  shows "pair_content K view (s_o1 s', c') = Some (o1_encode (s_bitmap s') (s_force_uv s') (s_pin_bound s')) \<and>
    o1_decode (o1_encode (s_bitmap s') (s_force_uv s') (s_pin_bound s'))
      = Some (s_bitmap s', s_force_uv s', s_pin_bound s') \<and>
    (\<forall>i. bit (s_bitmap s') i \<longrightarrow> i < 29)"
proof -
  have ok: "slots_ok T K I view s' c'"
    using framed_chip.slots_steps_ok [OF assms(1,4)] framed_chip.slots_start_ok [OF assms(1-3)] by simp
  then have "drop_bit 29 (s_bitmap s') = 0" using assms(5) by (simp add: slots_ok_def slot_consts)
  then have "\<forall>i. bit (s_bitmap s') i \<longrightarrow> i < 29" by (simp only: fido_range_iff)
  then show ?thesis
    using ok assms(5) o1_decode_encode by (simp add: slots_ok_def)
qed

lemma demo_framed: "framed_chip demo_chip mock_inv mock_view"
  unfolding demo_chip_def by (rule mock.framed_chip_axioms)

lemma demo_dev: "live_dev demo_chip mock_inv mock_view mock_good"
  unfolding demo_chip_def by (rule mock_dev.live_dev_axioms)

text \<open>A freshly initialised manager on the demo chip.\<close>

lemma demo_fresh:
  obtains s c where "slots_init_fresh demo_chip demo_crypto slots_start demo_mock = (0, s, c)"
    and "mock_good c" and "slots_ok demo_chip demo_crypto mock_inv mock_view s c"
    and "slots_usable s" and "s_bitmap s = 0"
proof -
  let ?p = "(s_o1 slots_start)\<lparr>uncertain := False\<rparr>"
  have li: "live_rmem demo_chip mock_inv mock_view mock_good" using demo_dev by (simp add: live_dev_def)
  obtain c where w: "rec_pair_init demo_chip demo_crypto (o1_encode 0 0 0) ?p demo_mock = (REC_OK, ?p, c)"
    and g: "mock_good c"
    by (rule live_rmem.rest_init [OF li mock_good_start crypto_ok_demo, of ?p "o1_encode 0 0 0"])
       (auto simp: pair_usable_def slots_start_def bad_args_def o1_encode_def rec_consts)
  obtain s where f: "slots_init_fresh demo_chip demo_crypto slots_start demo_mock = (0, s, c)"
    using w by (simp add: slots_init_fresh_def)
  show thesis
    using that [OF f g] framed_chip.slots_init_fresh_ok(1,3)
      [OF demo_framed framed_chip.slots_start_ok [OF demo_framed crypto_ok_demo mock_inv_start(2)] f]
    by simp
qed

theorem slots_ram_matches_chip_witness:
  "\<exists>s c. (slots_step demo_chip demo_crypto mock_inv mock_view)\<^sup>*\<^sup>* (slots_start, demo_mock) (s, c) \<and>
     pair_content demo_crypto mock_view (s_o1 s, c) = Some (o1_encode (s_bitmap s) (s_force_uv s) (s_pin_bound s))"
proof -
  obtain s c where f: "slots_init_fresh demo_chip demo_crypto slots_start demo_mock = (0, s, c)"
    and u: "slots_usable s" using demo_fresh by blast
  have "(slots_step demo_chip demo_crypto mock_inv mock_view)\<^sup>*\<^sup>* (slots_start, demo_mock) (s, c)"
    by (rule r_into_rtranclp, rule step_fresh [OF f])
  then show ?thesis
    using slots_ram_matches_chip [OF demo_framed crypto_ok_demo mock_inv_start(2) _ u] by blast
qed

text \<open>
  A credential ID resolves only to the slot it names, only while that slot is
  allocated, and only if the slot's metadata carries the ID's nonce: the ID is exactly the
  one built from what the chip stores.  This holds whatever the chip does.
\<close>

theorem slots_lookup_sound:
  assumes "framed_chip T I view" and "I c"
    and "slots_lookup_by_credid T cid s c = (Some (i, m), c')"
  shows "slots_usable s \<and> i < 29 \<and> bit (s_bitmap s) i \<and> cid = make_cred_id i (cred_id_nonce m) \<and>
    length (cred_id_nonce m) = 16 \<and> m = parse_cred (take 256 (view c (i + 1))) \<and>
    take 4 (view c (i + 1)) = CRED_MAGIC"
  using framed_chip.lookup_sound [OF assms] by blast

lemma demo_alloc:
  obtains s c s' c' i cid where "slots_alloc demo_chip demo_crypto (replicate 32 3) 8 1 [5, 6] 1 0 s c
      = (Inr (i, cid), s', c')"
    and "mock_good c" and "slots_ok demo_chip demo_crypto mock_inv mock_view s c" and "s_bitmap s = 0"
proof -
  obtain s c where f: "mock_good c" "slots_ok demo_chip demo_crypto mock_inv mock_view s c"
    "slots_usable s" "s_bitmap s = 0"
    and ini: "slots_init_fresh demo_chip demo_crypto slots_start demo_mock = (0, s, c)"
    using demo_fresh by blast
  have li: "live_rmem demo_chip mock_inv mock_view mock_good" using demo_dev by (simp add: live_dev_def)
  obtain nonce c1 where 1: "tropic_random demo_chip 16 c = (Inr nonce, c1)" "mock_good c1"
    using live_dev.dev_random [OF demo_dev f(1), of 16] by auto
  let ?buf = "cred_bytes 8 1 (replicate 32 3) nonce [5, 6] 1"
  have nl: "length nonce = 16" and v1: "mock_view c1 = mock_view c"
    using framed_chip.random_length [OF demo_framed _ 1(1)] framed_chip.random_frame [OF demo_framed _ 1(1)]
      f(1) by (simp_all add: mock_good_def)
  have lb: "length ?buf = 256" by (rule cred_bytes_length) (simp_all add: nl)
  then have ne: "?buf \<noteq> []" by (metis list.size(3) zero_neq_numeral)
  obtain ce where e: "tropic_rmem_erase demo_chip 1 c1 = (0, ce)" "mock_good ce" "mock_view ce 1 = []"
    using live_rmem.live_erase [OF li 1(2), of 1] by auto
  obtain c2 where w: "tropic_rmem_write demo_chip 1 ?buf ce = (0, c2)" "mock_good c2"
    using live_rmem.live_write [OF li e(2) _ e(3), of ?buf] ne lb by auto
  have fr: "mock_view c2 t = mock_view c t" if "t \<noteq> 1" for t
    using rmem_chip.erase_frame [OF demo_chip_rmem _ e(1) that] rmem_chip.write_frame [OF demo_chip_rmem _ w(1) that]
      1(2) e(2) v1 by (simp add: mock_good_def)
  let ?p = "s_o1 s" and ?x = "o1_encode (s_bitmap s) (s_force_uv s) (s_pin_bound s)"
  have ar: "at_rest demo_crypto mock_view ?p 1 (o1_encode 0 0 0) c" and sl: "slot_a ?p = 0" "slot_b ?p = 40"
    and pu: "pair_usable ?p"
  proof -
    let ?q = "(s_o1 slots_start)\<lparr>uncertain := False\<rparr>"
    obtain c0 where w0: "rec_pair_init demo_chip demo_crypto (o1_encode 0 0 0) ?q demo_mock = (REC_OK, ?q, c0)"
      and a0: "at_rest demo_crypto mock_view ?q 1 (o1_encode 0 0 0) c0"
      by (rule live_rmem.rest_init [OF li mock_good_start crypto_ok_demo, of ?q "o1_encode 0 0 0"])
         (auto simp: pair_usable_def slots_start_def bad_args_def o1_encode_def rec_consts)
    have "?p = ?q" "c = c0" using ini w0 by (auto simp: slots_init_fresh_def)
    then show "at_rest demo_crypto mock_view ?p 1 (o1_encode 0 0 0) c" "slot_a ?p = 0" "slot_b ?p = 40"
      "pair_usable ?p" using a0 by (simp_all add: slots_start_def pair_usable_def)
  qed
  have ar2: "at_rest demo_crypto mock_view ?p 1 (o1_encode 0 0 0) c2"
    using ar fr sl by (simp add: at_rest_def)
  let ?bm = "new_bitmap (s_bitmap s) 0 0"
  obtain c3 where 3: "rec_pair_write demo_chip demo_crypto (o1_encode ?bm (s_force_uv s) (s_pin_bound s)) ?p c2
      = (REC_OK, ?p, c3)"
    by (rule live_rmem.rest_write [OF li w(2) crypto_ok_demo pu ar2])
       (auto simp: bad_args_def o1_encode_def rec_consts)
  have fs: "free_slot (s_bitmap s) = Some 0" by (simp add: f(4) free_slot_def slot_consts upt_rec)
  have "\<exists>s' cid. slots_alloc demo_chip demo_crypto (replicate 32 3) 8 1 [5, 6] 1 0 s c = (Inr (0, cid), s', c3)"
    using 1(1) e(1) w(1) 3 fs f(3)
    by (simp add: slots_alloc_def slot_consts write_cred_def rmem_slot_for_def write_global_def Let_def)
  then show thesis using that f by blast
qed

theorem slots_lookup_sound_witness:
  "\<exists>i m s c c' cid. slots_lookup_by_credid demo_chip cid s c = (Some (i, m), c') \<and>
     cid = make_cred_id i (cred_id_nonce m)"
proof -
  obtain s c s' c' i cid where a: "slots_alloc demo_chip demo_crypto (replicate 32 3) 8 1 [5, 6] 1 0 s c
      = (Inr (i, cid), s', c')" and g: "mock_good c"
    and ok: "slots_ok demo_chip demo_crypto mock_inv mock_view s c" and z: "s_bitmap s = 0"
    by (rule demo_alloc)
  have i': "mock_inv c'"
    using framed_chip.slots_alloc_ok(1) [OF demo_framed ok a] framed_chip.ok_inv [OF demo_framed] by blast
  obtain m c2 where l: "slots_lookup_by_credid demo_chip cid s' c' = (Some (i, m), c2)"
    using live_dev.alloc_lookup [OF demo_dev g ok _ _ a] by auto
  show ?thesis using l slots_lookup_sound [OF demo_framed i' l] by blast
qed

text \<open>
  On a working chip a new credential resolves: after an acknowledged allocation, its
  ID looks up to its slot with exactly the algorithm, flags, RP hash, user handle and
  creation sequence it was created with, and the nonce that is in the ID.
\<close>

theorem slots_alloc_lookup:
  assumes "live_dev T I view good" and "good c" and "slots_ok T K I view s c"
    and "length rp = 32" and "\<not> bit rm i"
    and "slots_alloc T K rp al fl uh cr rm s c = (Inr (i, cid), s', c')"
  shows "\<exists>nonce c''. length nonce = 16 \<and> cid = make_cred_id i nonce \<and>
    slots_lookup_by_credid T cid s' c' = (Some (i, \<lparr>alg = al, flags = fl, rp_id_hash = rp,
      cred_id_nonce = nonce, user_handle = uh, created = cr\<rparr>), c'')"
  by (rule live_dev.alloc_lookup [OF assms])

theorem slots_alloc_lookup_witness:
  "\<exists>s c i cid s' c' nonce c''.
     slots_alloc demo_chip demo_crypto (replicate 32 3) 8 1 [5, 6] 1 0 s c = (Inr (i, cid), s', c') \<and>
     slots_lookup_by_credid demo_chip cid s' c' = (Some (i, \<lparr>alg = 8, flags = 1,
       rp_id_hash = replicate 32 3, cred_id_nonce = nonce, user_handle = [5, 6], created = 1\<rparr>), c'')"
proof -
  obtain s c s' c' i cid where a: "slots_alloc demo_chip demo_crypto (replicate 32 3) 8 1 [5, 6] 1 0 s c
      = (Inr (i, cid), s', c')" and g: "mock_good c"
    and ok: "slots_ok demo_chip demo_crypto mock_inv mock_view s c" and z: "s_bitmap s = 0"
    by (rule demo_alloc)
  then show ?thesis using slots_alloc_lookup [OF demo_dev g ok _ _ a] by fastforce
qed

text \<open>
  Allocation takes the lowest free FIDO slot and disturbs nothing else, whatever the
  chip does: an acknowledged allocation leaves every other credential allocated that was
  not to be replaced, with its metadata as it was; with all 29 slots taken it is refused
  without touching the chip.
\<close>

theorem slots_alloc_frame:
  assumes "framed_chip T I view" and "slots_ok T K I view s c"
    and "slots_alloc T K rp al fl uh cr rm s c = (r, s', c')"
  shows "(\<forall>i cid. r = Inr (i, cid) \<longrightarrow>
      i < 29 \<and> \<not> bit (s_bitmap s) i \<and> (\<forall>j < i. bit (s_bitmap s) j) \<and>
      (\<forall>j. j \<noteq> i \<longrightarrow> (bit (s_bitmap s') j \<longleftrightarrow> bit (s_bitmap s) j \<and> \<not> bit rm j)) \<and>
      (\<forall>j < 29. j \<noteq> i \<longrightarrow> view c' (j + 1) = view c (j + 1))) \<and>
    (slots_usable s \<longrightarrow> (\<forall>i < 29. bit (s_bitmap s) i) \<longrightarrow> r = Inl (- 1) \<and> s' = s \<and> c' = c)"
proof (intro conjI allI impI)
  note ao = framed_chip.slots_alloc_ok [OF assms]
  fix i cid assume r: "r = Inr (i, cid)"
  have f: "free_slot (s_bitmap s) = Some i" and b: "s_bitmap s' = new_bitmap (s_bitmap s) i rm"
    using ao(4) [OF r] by simp_all
  have us: "slots_usable s" using assms(3) r by (auto simp: slots_alloc_def split: if_splits)
  then have hi: "bit (s_bitmap s) j \<Longrightarrow> j < 29" for j
    using assms(2) fido_range_iff [of "s_bitmap s"] by (auto simp: slots_ok_def slot_consts)
  note fs = free_slot_some [OF f]
  show "i < 29" "\<not> bit (s_bitmap s) i" using fs by simp_all
  show "bit (s_bitmap s) j" if "j < i" for j using fs that by simp
  show "bit (s_bitmap s') j \<longleftrightarrow> bit (s_bitmap s) j \<and> \<not> bit rm j" if "j \<noteq> i" for j
    using alloc_bitmap [of i "s_bitmap s" rm j] fs that b hi [of j] by auto
  show "view c' (j + 1) = view c (j + 1)" if "j < 29" "j \<noteq> i" for j
    using ao(3) [of "j + 1"] f that by simp
next
  assume "slots_usable s" "\<forall>i < 29. bit (s_bitmap s) i"
  then have "slots_alloc T K rp al fl uh cr rm s c = (Inl (- 1), s, c)"
    using free_slot_none [of "s_bitmap s"] by (simp add: slots_alloc_def)
  then show "r = Inl (- 1)" "s' = s" "c' = c" using assms(3) by simp_all
qed

theorem slots_alloc_frame_witness:
  "\<exists>s c i cid s' c'.
     slots_alloc demo_chip demo_crypto (replicate 32 3) 8 1 [5, 6] 1 0 s c = (Inr (i, cid), s', c') \<and>
     (\<forall>j. j \<noteq> i \<longrightarrow> \<not> bit (s_bitmap s') j)"
proof -
  obtain s c s' c' i cid where a: "slots_alloc demo_chip demo_crypto (replicate 32 3) 8 1 [5, 6] 1 0 s c
      = (Inr (i, cid), s', c')" and g: "mock_good c"
    and ok: "slots_ok demo_chip demo_crypto mock_inv mock_view s c" and z: "s_bitmap s = 0"
    by (rule demo_alloc)
  have "\<forall>j. j \<noteq> i \<longrightarrow> \<not> bit (s_bitmap s') j"
    using conjunct1 [OF slots_alloc_frame [OF demo_framed ok a], rule_format, OF refl] z by simp
  with a show ?thesis by (intro exI conjI)
qed

text \<open>
  The boot-time scrub never deletes a credential by mistake: it adds no bit, and
  drops one only when the metadata slot really reads empty, so a chip error keeps it.
\<close>

theorem slots_scrub_safe:
  assumes "framed_chip T I view" and "I c" and "orphan_scrub T bm c = (bm', c')"
  shows "(\<forall>i. bit bm' i \<longrightarrow> bit bm i) \<and> (\<forall>i. bit bm i \<and> \<not> bit bm' i \<longrightarrow> view c (i + 1) = []) \<and>
    view c' = view c"
  using framed_chip.orphan_scrub_spec [OF assms] by blast

theorem slots_scrub_safe_witness:
  "\<exists>bm c. orphan_scrub demo_chip 5 demo_mock = (bm, c) \<and> (\<forall>i. bit bm i \<longrightarrow> bit (5 :: u32) i)"
  using slots_scrub_safe [OF demo_framed mock_inv_start(2)] by (metis surj_pair)

text \<open>
  A completed wipe of the metadata leaves every one of the 29 slots reading empty,
  and touches neither copy of O1 nor any slot outside 1 to 29.
\<close>

theorem slots_wipe_complete:
  assumes "framed_chip T I view" and "I c" and "slots_wipe_meta T c = (rc, c')"
  shows "(rc = 0 \<longrightarrow> (\<forall>i < 29. view c' (i + 1) = [])) \<and> (\<forall>t. t = 0 \<or> 29 < t \<longrightarrow> view c' t = view c t)"
  using framed_chip.slots_wipe_meta_spec [OF assms] by auto

theorem slots_wipe_complete_witness:
  "\<exists>rc c. slots_wipe_meta demo_chip demo_stored = (rc, c) \<and> mock_view c 41 = mock_view demo_stored 41"
proof -
  obtain rc c where w: "slots_wipe_meta demo_chip demo_stored = (rc, c)" by fastforce
  then show ?thesis using slots_wipe_complete [OF demo_framed demo_inv(2) w] by auto
qed

text \<open>
  A failed O1 write whose own read of the pair failed leaves the manager usable: no copy
  was touched, so nothing is uncertain.
\<close>

lemma o1_read_failure_keeps_usable:
  assumes "slots_usable s" and "\<not> bad_args (o1_encode bm uv pb)"
    and "rec_pair_read T K None (s_o1 s) c = (REC_ERROR, None, s_o1 s, c1)"
  shows "write_global T K bm uv pb s c = (- 1, s, c1)"
  using assms by (simp add: write_global_def rec_pair_write_def)

end
