(* ===== verification/Fido_State.thy ===== *)
theory Fido_State
  imports Pin_Md_Scheme Pin_Md_Frame Slots
begin

text \<open>
  The FIDO PIN object and the persistent state at boot and reset: \<^verbatim>\<open>pin_md.c\<close> and
  \<^verbatim>\<open>fido_state.c\<close> of \<^verbatim>\<open>firmware/src/fido_hid\<close>.  The PIN is a MAC-and-Destroy binding (O2)
  guarded by a flag in O1; boot repairs or refuses, and a wipe erases keys, metadata, PIN
  and global state in that order.  The lemmas show which chip slots each step can touch
  and, from that, that the PIN record outlives the credentials it protects.
\<close>

section \<open>The PIN object\<close>

text \<open>The RAM state of the FIDO side: the slot manager and the record pair O2.\<close>

record fido =
  f_slots :: slot_mgr
  f_o2 :: rec_pair

definition PIN_MD_MATERIAL_LEN :: nat where "PIN_MD_MATERIAL_LEN = 16"
definition FIDO_PIN_ROUNDS :: nat where "FIDO_PIN_ROUNDS = 8"

definition O2_START :: rec_pair where
  "O2_START = \<lparr>slot_a = 41, slot_b = 42, obj = 2, schema = 1, uncertain = False\<rparr>"

definition FIDO_LAYOUT :: pin_md_layout where
  "FIDO_LAYOUT = \<lparr>base = (\<lambda>r. if r = 0 then 0 else 8), ranges = 2, rounds = FIDO_PIN_ROUNDS,
     mat_len = PIN_MD_MATERIAL_LEN\<rparr>"

datatype fido_pin_state = FPIN_NOT_SET | FPIN_SET | FPIN_BLOCKED | FPIN_ERROR

definition fido_start :: fido where
  "fido_start = \<lparr>f_slots = slots_start, f_o2 = O2_START\<rparr>"

definition fido_pin_state ::
  "'c tropic \<Rightarrow> crypto \<Rightarrow> fido \<Rightarrow> 'c \<Rightarrow> fido_pin_state \<times> nat \<times> fido \<times> 'c" where
  "fido_pin_state T K f c =
     (let bound = slots_pin_bound (f_slots f) in
      if bound < 0 then (FPIN_ERROR, 0, f, c)
      else case pin_md_kernel_status T K FIDO_LAYOUT (f_o2 f) c of (st, att, _, p, c1) \<Rightarrow>
        let f1 = f\<lparr>f_o2 := p\<rparr> in
        case st of
          PMD_ABSENT \<Rightarrow> (if bound \<noteq> 0 then FPIN_ERROR else FPIN_NOT_SET, 0, f1, c1)
        | PMD_ACTIVE \<Rightarrow> (FPIN_SET, att, f1, c1)
        | PMD_BLOCKED \<Rightarrow> (FPIN_BLOCKED, 0, f1, c1)
        | PMD_ERROR \<Rightarrow> (FPIN_ERROR, 0, f1, c1))"

definition fido_pin_set ::
  "'c tropic \<Rightarrow> crypto \<Rightarrow> bytes \<Rightarrow> nat \<Rightarrow> fido \<Rightarrow> 'c \<Rightarrow> int \<times> fido \<times> 'c" where
  "fido_pin_set T K mat plen f c =
     (case fido_pin_state T K f c of (st, _, f1, c1) \<Rightarrow>
      if st \<noteq> FPIN_NOT_SET then (- 1, f1, c1)
      else case pin_md_kernel_setup T K FIDO_LAYOUT mat plen (f_o2 f1) c1 of (rc, _, p, c2) \<Rightarrow>
      let f2 = f1\<lparr>f_o2 := p\<rparr> in
      if rc \<noteq> PMD_OK then (- 1, f2, c2)
      else case slots_set_pin_bound T K True True (f_slots f2) c2 of (rc2, s, c3) \<Rightarrow>
        (rc2, f2\<lparr>f_slots := s\<rparr>, c3))"

definition map_rc :: "pmd_rc \<Rightarrow> int" where
  "map_rc rc = (if rc = PMD_OK then 0 else if rc = PMD_ERR_BLOCKED then - 2 else - 1)"

definition fido_pin_verify ::
  "'c tropic \<Rightarrow> crypto \<Rightarrow> bytes \<Rightarrow> fido \<Rightarrow> 'c \<Rightarrow> int \<times> bool \<times> fido \<times> 'c" where
  "fido_pin_verify T K mat f c =
     (case pin_md_kernel_verify T K FIDO_LAYOUT mat (f_o2 f) c of (rc, ok, _, p, c1) \<Rightarrow>
        (map_rc rc, ok, f\<lparr>f_o2 := p\<rparr>, c1))"

definition fido_pin_change ::
  "'c tropic \<Rightarrow> crypto \<Rightarrow> bytes \<Rightarrow> bytes \<Rightarrow> nat \<Rightarrow> fido \<Rightarrow> 'c \<Rightarrow> int \<times> bool \<times> fido \<times> 'c" where
  "fido_pin_change T K old_mat new_mat new_plen f c =
     (case pin_md_kernel_change T K FIDO_LAYOUT old_mat new_mat new_plen (f_o2 f) c of
        (rc, ok, _, p, c1) \<Rightarrow> (map_rc rc, ok, f\<lparr>f_o2 := p\<rparr>, c1))"

definition fido_pin_usable :: "fido \<Rightarrow> bool" where
  "fido_pin_usable f \<longleftrightarrow> \<not> uncertain (f_o2 f)"

definition fido_pin_clear :: "'c tropic \<Rightarrow> fido \<Rightarrow> 'c \<Rightarrow> int \<times> fido \<times> 'c" where
  "fido_pin_clear T f c =
     (case pin_md_kernel_clear T FIDO_LAYOUT ((f_o2 f)\<lparr>uncertain := False\<rparr>) c of (rc, p, c1) \<Rightarrow>
        (if rc = PMD_OK then 0 else - 1, f\<lparr>f_o2 := p\<rparr>, c1))"

definition fido_pin_boot :: "'c tropic \<Rightarrow> crypto \<Rightarrow> fido \<Rightarrow> 'c \<Rightarrow> int \<times> fido \<times> 'c" where
  "fido_pin_boot T K f c =
     (let bound = slots_pin_bound (f_slots f) in
      if bound < 0 then (- 1, f, c)
      else case pin_md_kernel_status T K FIDO_LAYOUT (f_o2 f) c of (st, _, _, p, c1) \<Rightarrow>
      let f1 = f\<lparr>f_o2 := p\<rparr> in
      if st = PMD_ERROR then (- 1, f1, c1)
      else if st = PMD_ABSENT then (if bound \<noteq> 0 then - 1 else 0, f1, c1)
      else if bound \<noteq> 0 then (0, f1, c1)
      else case slots_set_pin_bound T K True True (f_slots f1) c1 of (rc, s, c2) \<Rightarrow>
        (rc, f1\<lparr>f_slots := s\<rparr>, c2))"

definition fido_pin_test_reboot :: "fido \<Rightarrow> fido" where
  "fido_pin_test_reboot f = f\<lparr>f_o2 := (f_o2 f)\<lparr>uncertain := False\<rparr>\<rparr>"

section \<open>Boot and wipe\<close>

definition FIDO_SIGNCOUNT_MCOUNTER :: nat where "FIDO_SIGNCOUNT_MCOUNTER = 0"
definition FIDO_MCOUNTER_MAX :: u32 where "FIDO_MCOUNTER_MAX = 0xFFFFFFFE"

fun erase_keys :: "'c tropic \<Rightarrow> nat list \<Rightarrow> 'c \<Rightarrow> int \<times> 'c" where
  "erase_keys T [] c = (0, c)"
| "erase_keys T (i # is) c =
     (let (rc, c1) = tropic_ecc_erase T i c in if rc \<noteq> 0 then (- 1, c1) else erase_keys T is c1)"

definition fido_state_wipe :: "'c tropic \<Rightarrow> crypto \<Rightarrow> fido \<Rightarrow> 'c \<Rightarrow> int \<times> fido \<times> 'c" where
  "fido_state_wipe T K f c =
     (case erase_keys T [0..<FIDO_SLOTS_MAX] c of (rc1, c1) \<Rightarrow>
      if rc1 \<noteq> 0 then (- 1, f, c1)
      else case slots_wipe_meta T c1 of (rc2, c2) \<Rightarrow>
      if rc2 \<noteq> 0 then (- 2, f, c2)
      else case fido_pin_clear T f c2 of (rc3, f3, c3) \<Rightarrow>
      if rc3 \<noteq> 0 then (- 3, f3, c3)
      else case slots_init_fresh T K (f_slots f3) c3 of (rc4, s, c4) \<Rightarrow>
      let f4 = f3\<lparr>f_slots := s\<rparr> in
      if rc4 \<noteq> 0 then (- 4, f4, c4)
      else case tropic_mcounter_init T FIDO_SIGNCOUNT_MCOUNTER FIDO_MCOUNTER_MAX c4 of (rc5, c5) \<Rightarrow>
      if rc5 \<noteq> 0 then (- 5, f4, c5) else (0, f4, c5))"

definition fido_state_boot :: "'c tropic \<Rightarrow> crypto \<Rightarrow> fido \<Rightarrow> 'c \<Rightarrow> int \<times> fido \<times> 'c" where
  "fido_state_boot T K f c =
     (case slots_init T K (f_slots f) c of (rc, s, c1) \<Rightarrow>
      let f1 = f\<lparr>f_slots := s\<rparr> in
      if rc = SLOTS_INIT_ABSENT then fido_state_wipe T K f1 c1
      else if rc \<noteq> 0 then (- 10, f1, c1)
      else case fido_pin_boot T K f1 c1 of (rc2, f2, c2) \<Rightarrow>
      if rc2 \<noteq> 0 then (- 11, f2, c2)
      else case tropic_mcounter_get T FIDO_SIGNCOUNT_MCOUNTER c2 of
        (Inl _, c3) \<Rightarrow> (- 12, f2, c3)
      | (Inr v, c3) \<Rightarrow> (if v > FIDO_MCOUNTER_MAX then - 12 else 0, f2, c3))"

section \<open>What each step touches\<close>

context framed_chip
begin

lemma erase_keys_frame:
  "inv c \<Longrightarrow> erase_keys T is c = (rc, c') \<Longrightarrow> inv c' \<and> view c' = view c"
proof (induction "is" arbitrary: c)
  case Nil
  then show ?case by simp
next
  case (Cons i xs)
  obtain rc1 c1 where 1: "tropic_ecc_erase T i c = (rc1, c1)" by fastforce
  show ?case
    using Cons.prems Cons.IH [of c1] ecc_erase_rest [OF Cons.prems(1) 1] by (auto simp: 1 split: if_splits)
qed

lemma fido_pin_clear_spec:
  assumes "inv c" and "slot_a (f_o2 f) \<noteq> slot_b (f_o2 f)" and "fido_pin_clear T f c = (rc, f', c')"
  shows "inv c'" and "f_slots f' = f_slots f"
    and "t \<noteq> slot_a (f_o2 f) \<Longrightarrow> t \<noteq> slot_b (f_o2 f) \<Longrightarrow> view c' t = view c t"
    and "rc = 0 \<Longrightarrow> view c' (slot_a (f_o2 f)) = [] \<and> view c' (slot_b (f_o2 f)) = []"
    and "slot_a (f_o2 f') = slot_a (f_o2 f) \<and> slot_b (f_o2 f') = slot_b (f_o2 f)"
proof -
  let ?p = "(f_o2 f)\<lparr>uncertain := False\<rparr>"
  have v: "valid_layout FIDO_LAYOUT"
    by (simp add: valid_layout_def FIDO_LAYOUT_def pmk_consts FIDO_PIN_ROUNDS_def
        PIN_MD_MATERIAL_LEN_def list_all_iff upt_rec)
  obtain r1 c1 where 1: "clear_ranges T FIDO_LAYOUT [0..<ranges FIDO_LAYOUT] c = (r1, c1)" by fastforce
  note cf = clear_ranges_frame [OF assms(1) 1]
  obtain st p1 c2 where 2: "rec_pair_clear T ?p c1 = (st, p1, c2)" by (metis prod_cases3)
  have ne: "slot_a ?p \<noteq> slot_b ?p" using assms(2) by simp
  note cs = clear_spec [OF conjunct1 [OF cf] ne 2]
  show "inv c'" and "f_slots f' = f_slots f"
    and "t \<noteq> slot_a (f_o2 f) \<Longrightarrow> t \<noteq> slot_b (f_o2 f) \<Longrightarrow> view c' t = view c t"
    and "rc = 0 \<Longrightarrow> view c' (slot_a (f_o2 f)) = [] \<and> view c' (slot_b (f_o2 f)) = []"
    and "slot_a (f_o2 f') = slot_a (f_o2 f) \<and> slot_b (f_o2 f') = slot_b (f_o2 f)"
    using assms(3) cf cs v
    by (auto simp: fido_pin_clear_def pin_md_kernel_clear_def 1 2 mark_uncertain_def split: if_splits)
qed

end

text \<open>The invariant of the two objects: O1 in 0 / 40, O2 in 41 / 42.\<close>

definition fido_ok ::
  "'c tropic \<Rightarrow> crypto \<Rightarrow> ('c \<Rightarrow> bool) \<Rightarrow> ('c \<Rightarrow> nat \<Rightarrow> bytes) \<Rightarrow> fido \<Rightarrow> 'c \<Rightarrow> bool" where
  "fido_ok T K I view f c \<longleftrightarrow>
     slots_ok T K I view (f_slots f) c \<and> slot_a (f_o2 f) = 41 \<and> slot_b (f_o2 f) = 42"

text \<open>What a wipe that stopped at \<open>rc\<close> may have changed, and what a completed one leaves.\<close>

definition wiped_to :: "int \<Rightarrow> ('c \<Rightarrow> nat \<Rightarrow> bytes) \<Rightarrow> 'c \<Rightarrow> 'c \<Rightarrow> bool" where
  "wiped_to rc view c c' \<longleftrightarrow>
     (rc = - 1 \<longrightarrow> view c' = view c) \<and>
     (rc = - 2 \<longrightarrow> (\<forall>t. t = 0 \<or> 29 < t \<longrightarrow> view c' t = view c t)) \<and>
     (rc \<noteq> - 1 \<and> rc \<noteq> - 2 \<longrightarrow> (\<forall>t. 0 < t \<and> t \<le> 29 \<longrightarrow> view c' t = [])) \<and>
     (rc = - 3 \<longrightarrow> view c' 0 = view c 0 \<and> view c' 40 = view c 40) \<and>
     (rc = 0 \<or> rc = - 4 \<or> rc = - 5 \<longrightarrow> view c' 41 = [] \<and> view c' 42 = [])"

context framed_chip
begin

lemma wipe_spec:
  assumes "fido_ok T K inv view f c" and "fido_state_wipe T K f c = (rc, f', c')"
  shows "wiped_to rc view c c'" and "fido_ok T K inv view f' c'"
    and "rc \<in> {0, - 1, - 2, - 3, - 4, - 5}"
    and "rc = 0 \<Longrightarrow> slots_usable (f_slots f') \<and> s_bitmap (f_slots f') = 0"
proof -
  have ok: "slots_ok T K inv view (f_slots f) c" and o2: "slot_a (f_o2 f) = 41" "slot_b (f_o2 f) = 42"
    using assms(1) by (simp_all add: fido_ok_def)
  have i: "inv c" by (rule ok_inv [OF ok])
  obtain rc1 c1 where 1: "erase_keys T [0..<FIDO_SLOTS_MAX] c = (rc1, c1)" by fastforce
  note e = erase_keys_frame [OF i 1]
  have ok1: "slots_ok T K inv view (f_slots f) c1" using ok_frame [OF ok] e by simp
  obtain rc2 c2 where 2: "slots_wipe_meta T c1 = (rc2, c2)" by fastforce
  note w = slots_wipe_meta_spec [OF conjunct1 [OF e] 2]
  have ok2: "slots_ok T K inv view (f_slots f) c2" using ok_frame [OF ok1 w(1)] w(2) by simp
  obtain rc3 f3 c3 where 3: "fido_pin_clear T f c2 = (rc3, f3, c3)" by (metis prod_cases3)
  have ne: "slot_a (f_o2 f) \<noteq> slot_b (f_o2 f)" using o2 by simp
  note p = fido_pin_clear_spec [OF w(1) ne 3, unfolded o2]
  have ok3: "slots_ok T K inv view (f_slots f3) c3" using ok_frame [OF ok2 p(1)] p(2,3) by simp
  obtain rc4 s c4 where 4: "slots_init_fresh T K (f_slots f3) c3 = (rc4, s, c4)" by (metis prod_cases3)
  note n = slots_init_fresh_ok [OF ok3 4]
  obtain rc5 c5 where 5: "tropic_mcounter_init T FIDO_SIGNCOUNT_MCOUNTER FIDO_MCOUNTER_MAX c4 = (rc5, c5)"
    by fastforce
  note m = mc_init_rest [OF ok_inv [OF n(1)] 5]
  have ok5: "slots_ok T K inv view s c5" using ok_frame [OF n(1)] m by simp
  consider (a) "rc1 \<noteq> 0" | (b) "rc1 = 0" "rc2 \<noteq> 0" | (d) "rc1 = 0" "rc2 = 0" "rc3 \<noteq> 0"
    | (g) "rc1 = 0" "rc2 = 0" "rc3 = 0" by blast
  then have "wiped_to rc view c c' \<and> fido_ok T K inv view f' c' \<and> rc \<in> {0, - 1, - 2, - 3, - 4, - 5} \<and>
    (rc = 0 \<longrightarrow> slots_usable (f_slots f') \<and> s_bitmap (f_slots f') = 0)"
  proof cases
    case a
    then have "rc = - 1" "f' = f" "c' = c1" using assms(2) by (simp_all add: fido_state_wipe_def 1)
    then show ?thesis using e ok1 o2 by (simp add: wiped_to_def fido_ok_def)
  next
    case b
    then have "rc = - 2" "f' = f" "c' = c2" using assms(2) by (simp_all add: fido_state_wipe_def 1 2)
    then show ?thesis using e w ok2 o2 by (simp add: wiped_to_def fido_ok_def)
  next
    case d
    then have "rc = - 3" "f' = f3" "c' = c3" using assms(2) by (simp_all add: fido_state_wipe_def 1 2 3)
    then show ?thesis using d e w p ok3 o2 by (simp add: wiped_to_def fido_ok_def)
  next
    case g
    then have r: "f' = f3\<lparr>f_slots := s\<rparr>"
      "rc = (if rc4 \<noteq> 0 then - 4 else if rc5 \<noteq> 0 then - 5 else 0) \<and> c' = (if rc4 \<noteq> 0 then c4 else c5)"
      using assms(2) by (auto simp: fido_state_wipe_def 1 2 3 4 5 Let_def split: if_splits)
    have v: "view c' t = view c4 t" for t using r(2) m by simp
    have z: "view c' t = view c2 t" if "t \<noteq> 0" "t \<noteq> 40" "t \<noteq> 41" "t \<noteq> 42" for t
      using v n(2) p(3) that by simp
    have y: "view c' 41 = []" "view c' 42 = []" using v n(2) p(4) g by simp_all
    have x: "view c' t = []" if "0 < t" "t \<le> 29" for t using z [of t] w(3) g(2) that by simp
    have "fido_ok T K inv view f' c'"
      using r n(1) ok5 p(5) o2 by (simp add: fido_ok_def)
    then show ?thesis using r n(3) x y by (auto simp: wiped_to_def split: if_splits)
  qed
  then show "wiped_to rc view c c'" and "fido_ok T K inv view f' c'"
    and "rc \<in> {0, - 1, - 2, - 3, - 4, - 5}"
    and "rc = 0 \<Longrightarrow> slots_usable (f_slots f') \<and> s_bitmap (f_slots f') = 0"
    by blast+
qed

text \<open>"No PIN" is never a guess.\<close>

lemma pin_state_spec:
  assumes "fido_ok T K inv view f c" and "fido_pin_state T K f c = (st, att, f', c')"
  shows "fido_ok T K inv view f' c'" and "f_slots f' = f_slots f"
    and "st = FPIN_NOT_SET \<Longrightarrow> view c 41 = [] \<and> view c 42 = [] \<and> slots_pin_bound (f_slots f) = 0"
    and "\<not> slots_usable (f_slots f) \<Longrightarrow> st = FPIN_ERROR"
proof -
  have ok: "slots_ok T K inv view (f_slots f) c" and o2: "slot_a (f_o2 f) = 41" "slot_b (f_o2 f) = 42"
    using assms(1) by (simp_all add: fido_ok_def)
  have i: "inv c" and ck: "crypto_ok K" using ok by (simp_all add: slots_ok_def pair_ok_def)
  obtain s1 a l p c1 where s: "pin_md_kernel_status T K FIDO_LAYOUT (f_o2 f) c = (s1, a, l, p, c1)"
    by (metis prod_cases5)
  have ne: "slot_a (f_o2 f) \<noteq> slot_b (f_o2 f)" using o2 by simp
  note sf = status_frame [OF i ne ck s, unfolded o2]
  have ok1: "slots_ok T K inv view (f_slots f) c1" using ok_frame [OF ok sf(1)] sf(2) by simp
  have p: "slot_a p = 41" "slot_b p = 42" using sf(3) o2 by auto
  show "fido_ok T K inv view f' c'" and "f_slots f' = f_slots f"
    and "st = FPIN_NOT_SET \<Longrightarrow> view c 41 = [] \<and> view c 42 = [] \<and> slots_pin_bound (f_slots f) = 0"
    and "\<not> slots_usable (f_slots f) \<Longrightarrow> st = FPIN_ERROR"
    using assms ok1 p sf(4)
    by (auto simp: fido_pin_state_def Let_def s fido_ok_def slots_pin_bound_def split: if_splits pmd_state.splits)
qed

lemma pin_boot_spec:
  assumes "fido_ok T K inv view f c" and "fido_pin_boot T K f c = (rc, f', c')"
  shows "fido_ok T K inv view f' c'"
    and "rc = 0 \<Longrightarrow> slots_usable (f_slots f') \<and>
      (slots_pin_bound (f_slots f') = 0 \<longrightarrow> view c 41 = [] \<and> view c 42 = []) \<and>
      (slots_pin_bound (f_slots f') = 1 \<and> slots_pin_bound (f_slots f) = 0 \<longrightarrow> slots_force_uv_get (f_slots f') = 1)"
proof -
  have ok: "slots_ok T K inv view (f_slots f) c" and o2: "slot_a (f_o2 f) = 41" "slot_b (f_o2 f) = 42"
    using assms(1) by (simp_all add: fido_ok_def)
  have i: "inv c" and ck: "crypto_ok K" using ok by (simp_all add: slots_ok_def pair_ok_def)
  obtain s1 a l p c1 where s: "pin_md_kernel_status T K FIDO_LAYOUT (f_o2 f) c = (s1, a, l, p, c1)"
    by (metis prod_cases5)
  have ne: "slot_a (f_o2 f) \<noteq> slot_b (f_o2 f)" using o2 by simp
  note sf = status_frame [OF i ne ck s, unfolded o2]
  have ok1: "slots_ok T K inv view (f_slots f) c1" using ok_frame [OF ok sf(1)] sf(2) by simp
  have p: "slot_a p = 41" "slot_b p = 42" using sf(3) o2 by auto
  obtain rc2 s2 c2 where w: "slots_set_pin_bound T K True True (f_slots f) c1 = (rc2, s2, c2)"
    by (metis prod_cases3)
  have ok2: "slots_ok T K inv view s2 c2"
    using flags_ok [OF ok1] w by (simp add: slots_set_pin_bound_def)
  have w0: "slots_usable s2 \<and> s_pin_bound s2 = 1 \<and> s_force_uv s2 = 1" if "rc2 = 0"
  proof -
    have wg: "write_global T K (s_bitmap (f_slots f)) 1 1 (f_slots f) c1 = (rc2, s2, c2)"
      using w by (simp add: slots_set_pin_bound_def)
    then have "slots_usable (f_slots f)" using that by (auto simp: write_global_def split: if_splits)
    then have "drop_bit FIDO_SLOTS_MAX (s_bitmap (f_slots f)) = 0" using ok1 by (simp add: slots_ok_def)
    then show ?thesis using write_global_ok(3) [OF ok1 _ _ _ wg] that by simp
  qed
  show "fido_ok T K inv view f' c'"
    and "rc = 0 \<Longrightarrow> slots_usable (f_slots f') \<and>
      (slots_pin_bound (f_slots f') = 0 \<longrightarrow> view c 41 = [] \<and> view c 42 = []) \<and>
      (slots_pin_bound (f_slots f') = 1 \<and> slots_pin_bound (f_slots f) = 0 \<longrightarrow> slots_force_uv_get (f_slots f') = 1)"
    using assms ok1 ok2 w0 p sf(4)
    by (auto simp: fido_pin_boot_def Let_def s w fido_ok_def slots_pin_bound_def slots_force_uv_get_def
        split: if_splits)
qed

lemma boot_spec:
  assumes "fido_ok T K inv view f c" and "fido_state_boot T K f c = (rc, f', c')"
  shows "fido_ok T K inv view f' c'"
    and "rc = 0 \<Longrightarrow> slots_usable (f_slots f') \<and> (slots_pin_bound (f_slots f') = 0 \<longrightarrow>
      view c 41 = [] \<and> view c 42 = [] \<or> view c' 41 = [] \<and> view c' 42 = [])"
proof -
  have ok: "slots_ok T K inv view (f_slots f) c" and o2: "slot_a (f_o2 f) = 41" "slot_b (f_o2 f) = 42"
    using assms(1) by (simp_all add: fido_ok_def)
  obtain r1 s c1 where 1: "slots_init T K (f_slots f) c = (r1, s, c1)" by (metis prod_cases3)
  note si = slots_init_ok [OF ok 1]
  let ?f = "f\<lparr>f_slots := s\<rparr>"
  have f1: "fido_ok T K inv view ?f c1" using si(1) o2 by (simp add: fido_ok_def)
  have v1: "view c1 41 = view c 41" "view c1 42 = view c 42" using si(2) by simp_all
  obtain r2 f2 c2 where 2: "fido_pin_boot T K ?f c1 = (r2, f2, c2)" by (metis prod_cases3)
  note pb = pin_boot_spec [OF f1 2]
  obtain x c3 where 3: "tropic_mcounter_get T FIDO_SIGNCOUNT_MCOUNTER c2 = (x, c3)" by fastforce
  have i2: "inv c2" using pb(1) ok_inv by (auto simp: fido_ok_def)
  have f3: "fido_ok T K inv view f2 c3"
    using pb(1) mc_get_rest [OF i2 3] ok_frame by (auto simp: fido_ok_def)
  have *: "fido_ok T K inv view f' c' \<and> (rc = 0 \<longrightarrow> slots_usable (f_slots f') \<and> (slots_pin_bound (f_slots f') = 0 \<longrightarrow>
      view c 41 = [] \<and> view c 42 = [] \<or> view c' 41 = [] \<and> view c' 42 = []))"
  proof (cases "r1 = SLOTS_INIT_ABSENT")
    case True
    then have w: "fido_state_wipe T K ?f c1 = (rc, f', c')"
      using assms(2) by (simp add: fido_state_boot_def 1)
    show ?thesis using wipe_spec [OF f1 w] by (auto simp: wiped_to_def)
  next
    case False
    then show ?thesis
      using assms(2) f1 pb f3 v1 by (auto simp: fido_state_boot_def 1 2 3 Let_def split: if_splits sum.splits)
  qed
  then show "fido_ok T K inv view f' c'"
    and "rc = 0 \<Longrightarrow> slots_usable (f_slots f') \<and> (slots_pin_bound (f_slots f') = 0 \<longrightarrow>
      view c 41 = [] \<and> view c 42 = [] \<or> view c' 41 = [] \<and> view c' 42 = [])"
    by blast+
qed

lemma fido_start_ok: "crypto_ok K \<Longrightarrow> inv c \<Longrightarrow> fido_ok T K inv view fido_start c"
  using slots_start_ok by (simp add: fido_ok_def fido_start_def O2_START_def)

end

section \<open>Properties\<close>

text \<open>
  A FIDO wipe keeps its barriers whatever fails: while a key erase or a metadata erase
  has not succeeded, neither the PIN record (slots 41, 42) nor the global state (slots 0, 40)
  has changed; once it is past them every metadata slot reads empty; the global state is
  rewritten only after both PIN copies read empty; and only a wipe that reports 0 leaves
  the authenticator usable, with no credential.
\<close>

theorem fido_wipe_order:
  assumes "framed_chip T I view" and "fido_ok T K I view f c"
    and "fido_state_wipe T K f c = (rc, f', c')"
  shows "(rc = - 1 \<longrightarrow> view c' = view c) \<and>
    (rc = - 2 \<longrightarrow> (\<forall>t \<in> {0, 40, 41, 42}. view c' t = view c t)) \<and>
    (rc \<notin> {- 1, - 2} \<longrightarrow> (\<forall>i < 29. view c' (i + 1) = [])) \<and>
    (rc = - 3 \<longrightarrow> view c' 0 = view c 0 \<and> view c' 40 = view c 40) \<and>
    (rc \<in> {0, - 4, - 5} \<longrightarrow> view c' 41 = [] \<and> view c' 42 = []) \<and>
    rc \<in> {0, - 1, - 2, - 3, - 4, - 5} \<and>
    (rc = 0 \<longrightarrow> slots_usable (f_slots f') \<and> s_bitmap (f_slots f') = 0)"
  using framed_chip.wipe_spec [OF assms] by (auto simp: wiped_to_def)

lemma demo_fido: "fido_ok demo_chip demo_crypto mock_inv mock_view fido_start demo_mock"
  by (rule framed_chip.fido_start_ok [OF demo_framed crypto_ok_demo mock_inv_start(2)])

theorem fido_wipe_order_witness:
  "\<exists>rc f c. fido_state_wipe demo_chip demo_crypto fido_start demo_mock = (rc, f, c) \<and>
     rc \<in> {0, - 1, - 2, - 3, - 4, - 5}"
  using fido_wipe_order [OF demo_framed demo_fido] by (metis prod_cases3)

text \<open>
  "No PIN" is never a guess: the PIN state reads as not set only if both copies of the
  PIN record read empty and the guard in O1 is clear; with O1 unusable it is always an error.
\<close>

theorem fido_not_set_is_certain:
  assumes "framed_chip T I view" and "fido_ok T K I view f c"
    and "fido_pin_state T K f c = (st, att, f', c')"
  shows "(st = FPIN_NOT_SET \<longrightarrow>
      view c 41 = [] \<and> view c 42 = [] \<and> slots_usable (f_slots f) \<and> s_pin_bound (f_slots f) = 0) \<and>
    (\<not> slots_usable (f_slots f) \<longrightarrow> st = FPIN_ERROR)"
  using framed_chip.pin_state_spec(3,4) [OF assms]
  by (auto simp: slots_pin_bound_def unsigned_eq_0_iff split: if_splits)

theorem fido_not_set_is_certain_witness:
  "fst (fido_pin_state demo_chip demo_crypto fido_start demo_mock) = FPIN_ERROR"
proof -
  obtain st att f c where s: "fido_pin_state demo_chip demo_crypto fido_start demo_mock = (st, att, f, c)"
    by (metis prod_cases4)
  show ?thesis
    using fido_not_set_is_certain [OF demo_framed demo_fido s] s
    by (simp add: fido_start_def slots_usable_def slots_start_def)
qed

text \<open>
  A boot that succeeds leaves the state usable and never leaves a PIN binding
  unguarded: if the guard is clear afterwards then the PIN record read empty before the
  boot, or the boot wiped it.
\<close>

theorem fido_boot_guards_pin:
  assumes "framed_chip T I view" and "fido_ok T K I view f c"
    and "fido_state_boot T K f c = (0, f', c')"
  shows "slots_usable (f_slots f') \<and> (slots_pin_bound (f_slots f') = 0 \<longrightarrow>
      view c 41 = [] \<and> view c 42 = [] \<or> view c' 41 = [] \<and> view c' 42 = [])"
  using framed_chip.boot_spec(2) [OF assms] by simp

lemma mock_read_copy_counter:
  assumes "read_copy demo_chip K p s c = (x, c')"
  shows "s_mcounter c' = s_mcounter c"
proof -
  obtain r c1 where r: "mock_rmem_read s SLOT_MAX c = (r, c1)" by fastforce
  have "c1 = c'" using assms by (cases r) (simp_all add: read_copy_def demo_chip_def r split: if_split_asm)
  then have "mock_rmem_read s SLOT_MAX c = (r, c')" using r by simp
  moreover obtain rc ex tr m1 where e: "enter MOCK_OP_RMEM_READ c = (rc, ex, tr, m1)"
    by (metis prod_cases4)
  moreover note enter_counter [OF e]
  ultimately show ?thesis by (auto simp: mock_rmem_read_def Let_def split: if_splits)
qed

lemma mock_absent_counter:
  assumes "settle demo_chip K L p c = (REC_ABSENT, None, p', c')"
  shows "s_mcounter c' = s_mcounter c"
proof -
  obtain sl bl px cx where l: "load demo_chip K L p c = (sl, bl, px, cx)" by (metis prod_cases4)
  have l2: "load demo_chip K L p c = (REC_ABSENT, None, p', c')"
  proof (cases "sl = REC_OK")
    case True
    then show ?thesis
      using assms by (cases bl) (simp_all add: settle_def l Let_def split: if_split_asm prod.split_asm)
  next
    case False
    then show ?thesis using assms by (cases sl) (simp_all add: settle_def l)
  qed
  obtain s1 o1 p1 c1 where r: "rec_pair_read demo_chip K (Some REC_PAYLOAD_MAX) p c = (s1, o1, p1, c1)"
    by (metis prod_cases4)
  have "s1 = REC_ABSENT" "c1 = c'"
    using l2 r by (auto simp: load_def split: rec_status.splits option.splits prod.splits if_splits)
  moreover obtain a ca where 1: "read_copy demo_chip K p (slot_a p) c = (a, ca)" by fastforce
  moreover obtain b cb where 2: "read_copy demo_chip K p (slot_b p) ca = (b, cb)" by fastforce
  ultimately have "c' = cb"
    using r by (auto simp: rec_pair_read_def split: if_splits sum.splits prod.splits)
  then show ?thesis using mock_read_copy_counter [OF 1] mock_read_copy_counter [OF 2] by simp
qed

text \<open>A fresh slot manager, no PIN, and a signature counter that reads.\<close>

lemma demo_bootable:
  obtains f c f' c' where "fido_ok demo_chip demo_crypto mock_inv mock_view f c"
    and "fido_state_boot demo_chip demo_crypto f c = (0, f', c')"
proof -
  obtain s c where fr: "slots_init_fresh demo_chip demo_crypto slots_start demo_mock = (0, s, c)"
    and g: "mock_good c" and ok: "slots_ok demo_chip demo_crypto mock_inv mock_view s c"
    and u: "slots_usable s" and bm: "s_bitmap s = 0" by (rule demo_fresh)
  let ?c = "c\<lparr>s_mcounter := Some 5\<rparr>" and ?f = "\<lparr>f_slots = s, f_o2 = O2_START\<rparr>"
  have g2: "mock_good ?c" using g by (simp add: mock_good_def mock_inv_def)
  have vw: "mock_view ?c = mock_view c" by (simp add: mock_view_def fun_eq_iff)
  have ok2: "slots_ok demo_chip demo_crypto mock_inv mock_view s ?c"
    using framed_chip.ok_frame [OF demo_framed ok, of ?c] g2 vw by (simp add: mock_good_def)
  have pb: "s_pin_bound s = 0" using fr by (auto simp: slots_init_fresh_def Let_def split: prod.splits if_splits)
  have bl: "mock_view ?c 41 = []" "mock_view ?c 42 = []"
    using framed_chip.slots_init_fresh_ok(2)
      [OF demo_framed framed_chip.slots_start_ok [OF demo_framed crypto_ok_demo mock_inv_start(2)] fr]
      vw demo_blank by simp_all
  have lk: "live_kernel demo_chip mock_inv mock_view (mock_keyed demo_crypto (s_kfa c)) s_mad
      (mock_ld demo_crypto (s_kfa c)) (mock_mix demo_crypto)"
    unfolding demo_chip_def by (rule mock_keyed.live_kernel_axioms)
  obtain c1 where st: "settle demo_chip demo_crypto FIDO_LAYOUT O2_START ?c = (REC_ABSENT, None, O2_START, c1)"
    and g1: "mock_keyed demo_crypto (s_kfa c) c1"
  proof (rule live_kernel.settle_blank [OF lk, of ?c O2_START demo_crypto FIDO_LAYOUT])
    show "mock_keyed demo_crypto (s_kfa c) ?c" using g2 by (simp add: mock_keyed_def)
  qed (use bl in \<open>auto simp: pair_usable_def O2_START_def\<close>)
  have mc: "s_mcounter c1 = Some 5" using mock_absent_counter [OF st] by simp
  have vl: "valid_layout FIDO_LAYOUT"
    by (simp add: valid_layout_def FIDO_LAYOUT_def pmk_consts FIDO_PIN_ROUNDS_def
        PIN_MD_MATERIAL_LEN_def list_all_iff upt_rec)
  have pin: "fido_pin_boot demo_chip demo_crypto ?f ?c = (0, ?f, c1)"
    using st vl u pb by (simp add: fido_pin_boot_def slots_pin_bound_def pin_md_kernel_status_def)
  obtain m2 where e: "enter MOCK_OP_MCOUNTER c1 = (0, True, None, m2)" and m2: "s_mcounter m2 = Some 5"
  proof -
    have "mock_good c1" using g1 by (simp add: mock_keyed_def)
    then obtain m2 where m: "enter MOCK_OP_MCOUNTER c1 = (0, True, None, m2)" by (rule enter_good)
    have "s_mcounter m2 = Some 5" using mc enter_counter [OF m] by simp
    with m show thesis by (rule that)
  qed
  have "tropic_mcounter_get demo_chip FIDO_SIGNCOUNT_MCOUNTER c1 = (Inr 5, m2)"
    using e m2 by (simp add: demo_chip_def mock_mcounter_get_def FIDO_SIGNCOUNT_MCOUNTER_def Let_def)
  moreover have "slots_init demo_chip demo_crypto s ?c = (0, s, ?c)"
    using u by (simp add: slots_init_def slots_usable_def)
  ultimately have b: "fido_state_boot demo_chip demo_crypto ?f ?c = (0, ?f, m2)"
    using pin by (simp add: fido_state_boot_def SLOTS_INIT_ABSENT_def FIDO_MCOUNTER_MAX_def)
  have "fido_ok demo_chip demo_crypto mock_inv mock_view ?f ?c"
    using ok2 by (simp add: fido_ok_def O2_START_def)
  then show thesis using b by (rule that)
qed

theorem fido_boot_guards_pin_witness:
  "\<exists>f c f' c'. fido_state_boot demo_chip demo_crypto f c = (0, f', c') \<and> slots_usable (f_slots f')"
proof -
  obtain f c f' c' where ok: "fido_ok demo_chip demo_crypto mock_inv mock_view f c"
    and b: "fido_state_boot demo_chip demo_crypto f c = (0, f', c')" by (rule demo_bootable)
  then show ?thesis using fido_boot_guards_pin [OF demo_framed ok b] by blast
qed

end
