(* ===== verification/Pgp_Lifecycle.thy ===== *)
theory Pgp_Lifecycle
  imports Pgp_Pin Fido_State
begin

text \<open>
  The lifecycle of the OpenPGP side, \<^verbatim>\<open>firmware/src/openpgp/pgp_lifecycle.c\<close>: the wipe with its
  barriers, boot with a bootstrap of a blank chip, TERMINATE and ACTIVATE.  The lemmas show
  what each step can have destroyed when it stops, that factory PINs are never bound over a
  state that was not read as absent, and that boot runs at most three times.
\<close>

section \<open>Operations\<close>

definition PGP_KEYS_SIG_SLOT :: nat where "PGP_KEYS_SIG_SLOT = 29"
definition PGP_KEYS_DEC_SLOT :: nat where "PGP_KEYS_DEC_SLOT = 30"
definition PGP_KEYS_AUT_SLOT :: nat where "PGP_KEYS_AUT_SLOT = 31"
definition PGP_BOOT_TRIES :: u8 where "PGP_BOOT_TRIES = 3"

definition on_o3 :: "(pgp_state \<Rightarrow> 'c \<Rightarrow> int \<times> pgp_state \<times> 'c) \<Rightarrow> pgp \<Rightarrow> 'c \<Rightarrow> int \<times> pgp \<times> 'c" where
  "on_o3 f p c = (case f (p_o3 p) c of (rc, s, c1) \<Rightarrow> (rc, p\<lparr>p_o3 := s\<rparr>, c1))"

definition pgp_lifecycle_wipe :: "'c tropic \<Rightarrow> pgp \<Rightarrow> 'c \<Rightarrow> int \<times> pgp \<times> 'c" where
  "pgp_lifecycle_wipe T p c =
     (case erase_keys T [PGP_KEYS_SIG_SLOT, PGP_KEYS_DEC_SLOT, PGP_KEYS_AUT_SLOT] c of (r1, c1) \<Rightarrow>
      if r1 \<noteq> 0 then (- 1, p, c1)
      else case on_o3 (openpgp_state_clear T) p c1 of (r2, p2, c2) \<Rightarrow>
      if r2 \<noteq> 0 then (- 2, p2, c2)
      else case pgp_pin_clear_all T p2 c2 of (r3, p3, c3) \<Rightarrow>
      if r3 \<noteq> PGP_PIN_OK then (- 3, p3, c3) else (0, p3, c3))"

definition pgp_lifecycle_boot :: "'c tropic \<Rightarrow> crypto \<Rightarrow> pgp \<Rightarrow> 'c \<Rightarrow> int \<times> pgp \<times> 'c" where
  "pgp_lifecycle_boot T K p c =
     (case tropic_l3_session_ensure T c of (r0, c0) \<Rightarrow>
      if r0 \<noteq> 0 then (- 1, p, c0)
      else case on_o3 (openpgp_state_load T K) p c0 of (st, p1, c1) \<Rightarrow>
      if st = 0 then (0, p1, c1)
      else if st < 0 then (- 2, p1, c1)
      else case pgp_lifecycle_wipe T p1 c1 of (r2, p2, c2) \<Rightarrow>
      if r2 \<noteq> 0 then (- 3, p2, c2)
      else case pgp_pin_bind_factory T K p2 c2 of (r3, p3, c3) \<Rightarrow>
      if r3 \<noteq> PGP_PIN_OK then (- 4, p3, c3)
      else case on_o3 (openpgp_state_init T K PGP_LC_OPERATIONAL) p3 c3 of (r4, p4, c4) \<Rightarrow>
        (if r4 = 0 then 0 else - 5, p4, c4))"

definition pgp_lifecycle_terminate :: "'c tropic \<Rightarrow> crypto \<Rightarrow> pgp \<Rightarrow> 'c \<Rightarrow> int \<times> pgp \<times> 'c" where
  "pgp_lifecycle_terminate T K p c =
     (case pgp_lifecycle_wipe T p c of (r1, p1, c1) \<Rightarrow>
      if r1 \<noteq> 0 then (- 1, p1, c1)
      else case on_o3 (openpgp_state_init T K PGP_LC_TERMINATED) p1 c1 of (r2, p2, c2) \<Rightarrow>
        (if r2 = 0 then 0 else - 2, p2, c2))"

definition pgp_lifecycle_activate :: "'c tropic \<Rightarrow> crypto \<Rightarrow> pgp \<Rightarrow> 'c \<Rightarrow> int \<times> pgp \<times> 'c" where
  "pgp_lifecycle_activate T K p c =
     (if openpgp_state_lifecycle (p_o3 p) \<noteq> PGP_LC_TERMINATED then (- 1, p, c)
      else case pgp_pin_clear_all T p c of (r1, p1, c1) \<Rightarrow>
      if r1 \<noteq> PGP_PIN_OK then (- 2, p1, c1)
      else case pgp_pin_bind_factory T K p1 c1 of (r2, p2, c2) \<Rightarrow>
      if r2 \<noteq> PGP_PIN_OK then (- 2, p2, c2)
      else case on_o3 (openpgp_state_activate T K) p2 c2 of (r3, p3, c3) \<Rightarrow>
        (if r3 = 0 then 0 else - 2, p3, c3))"

definition pgp_lifecycle_ensure :: "'c tropic \<Rightarrow> crypto \<Rightarrow> pgp \<Rightarrow> 'c \<Rightarrow> pgp \<times> 'c" where
  "pgp_lifecycle_ensure T K p c =
     (if openpgp_state_loaded (p_o3 p) \<or> s_boot_tries p \<ge> PGP_BOOT_TRIES then (p, c)
      else snd (pgp_lifecycle_boot T K (p\<lparr>s_boot_tries := s_boot_tries p + 1\<rparr>) c))"

definition pgp_lifecycle_test_reboot :: "pgp \<Rightarrow> pgp" where
  "pgp_lifecycle_test_reboot p = p\<lparr>s_boot_tries := 0\<rparr>"

section \<open>What each step leaves\<close>

lemma does_chip:
  assumes "pgp_ok T K I view p c" and "I c' \<and> view c' = view c"
  shows "pgp_does T K I view A p c p c'"
proof -
  have "o3_ok T K I view (p_o3 p) c'" by (rule o3_ok_frame [OF pgp_okD(6) [OF assms(1)]]) (use assms(2) in auto)
  then show ?thesis using assms by (auto simp: pgp_does_def pgp_ok_def slots_only_def)
qed

lemma clear_o3_does:
  assumes "pgp_ok T K I view p c" and "on_o3 (openpgp_state_clear T) p c = (rc, p', c')"
  shows "pgp_does T K I view O3_SLOTS p c p' c'" and "rc = 0 \<Longrightarrow> view c' 33 = [] \<and> view c' 43 = []"
    and "\<not> s_loaded (p_o3 p')"
proof -
  note d = pgp_okD [OF assms(1)]
  obtain r s c1 where 1: "openpgp_state_clear T (p_o3 p) c = (r, s, c1)" by (metis prod_cases3)
  note ck = clear_ok [OF d(5) 1]
  have e: "p' = p\<lparr>p_o3 := s\<rparr>" "c' = c1" "rc = r" using assms(2) by (simp_all add: on_o3_def 1)
  show "pgp_does T K I view O3_SLOTS p c p' c'"
    unfolding e by (rule does_o3 [OF assms(1) ck(1) o3_clear_only [OF d(5) 1]])
  show "rc = 0 \<Longrightarrow> view c' 33 = [] \<and> view c' 43 = []" using ck(3) e assms(1) by (simp add: pgp_ok_def)
  show "\<not> s_loaded (p_o3 p')" using ck(2) e by simp
qed

lemma init_o3_does:
  assumes "pgp_ok T K I view p c" and "lc \<le> 2" and "on_o3 (openpgp_state_init T K lc) p c = (rc, p', c')"
  shows "pgp_does T K I view O3_SLOTS p c p' c'"
    and "rc = 0 \<Longrightarrow> pgp_usable (p_o3 p') \<and> s_cur (p_o3 p') = defaults lc"
proof -
  note d = pgp_okD [OF assms(1)]
  obtain r s c1 where 1: "openpgp_state_init T K lc (p_o3 p) c = (r, s, c1)" by (metis prod_cases3)
  note ik = init_ok [OF d(5) assms(2) 1]
  have e: "p' = p\<lparr>p_o3 := s\<rparr>" "c' = c1" "rc = r" using assms(3) by (simp_all add: on_o3_def 1)
  show "pgp_does T K I view O3_SLOTS p c p' c'"
    unfolding e by (rule does_o3 [OF assms(1) ik(1) o3_init_only [OF d(5) 1]])
  show "rc = 0 \<Longrightarrow> pgp_usable (p_o3 p') \<and> s_cur (p_o3 p') = defaults lc" using ik(2) e by simp
qed

lemma load_o3_does:
  assumes "pgp_ok T K I view p c" and "on_o3 (openpgp_state_load T K) p c = (rc, p', c')"
  shows "pgp_does T K I view O3_SLOTS p c p' c'" and "rc = 1 \<Longrightarrow> view c 33 = [] \<and> view c 43 = []"
    and "rc = 0 \<Longrightarrow> pgp_usable (p_o3 p')" and "rc \<in> {0, 1, - 1}"
proof -
  note d = pgp_okD [OF assms(1)]
  obtain r s c1 where 1: "openpgp_state_load T K (p_o3 p) c = (r, s, c1)" by (metis prod_cases3)
  note lk = load_ok [OF d(5) 1]
  have e: "p' = p\<lparr>p_o3 := s\<rparr>" "c' = c1" "rc = r" using assms(2) by (simp_all add: on_o3_def 1)
  show "pgp_does T K I view O3_SLOTS p c p' c'"
    unfolding e by (rule does_o3 [OF assms(1) lk(1) o3_load_only [OF d(5) 1]])
  show "rc = 1 \<Longrightarrow> view c 33 = [] \<and> view c 43 = []" using lk(4) e assms(1) by (simp add: pgp_ok_def)
  obtain st res q c2 where rd: "rec_pair_read T K (Some REC_PAYLOAD_MAX) (s_o3 (p_o3 p)) c = (st, res, q, c2)"
    by (metis prod_cases4)
  have u: "\<not> uncertain q" if "st = REC_OK"
    by (rule rmem_chip.rec_pair_read_ok [OF d(2,3), of "s_o3 (p_o3 p)" K "Some REC_PAYLOAD_MAX" res q c2])
       (use rd that d(5) in \<open>auto simp: pair_ok_def\<close>)
  show "rc = 0 \<Longrightarrow> pgp_usable (p_o3 p')" and "rc \<in> {0, 1, - 1}"
    using 1 e u
    by (auto simp: openpgp_state_load_def rd Let_def pgp_usable_def split: if_splits rec_status.splits option.splits)
qed

lemma activate_o3_does:
  assumes "pgp_ok T K I view p c" and "on_o3 (openpgp_state_activate T K) p c = (rc, p', c')"
  shows "pgp_does T K I view O3_SLOTS p c p' c'"
    and "rc = 0 \<Longrightarrow> pgp_usable (p_o3 p') \<and> s_cur (p_o3 p') = defaults PGP_LC_OPERATIONAL"
proof -
  note d = pgp_okD [OF assms(1)]
  obtain r s c1 where 1: "openpgp_state_activate T K (p_o3 p) c = (r, s, c1)" by (metis prod_cases3)
  note ak = activate_ok [OF d(6) 1]
  have e: "p' = p\<lparr>p_o3 := s\<rparr>" "c' = c1" "rc = r" using assms(2) by (simp_all add: on_o3_def 1)
  show "pgp_does T K I view O3_SLOTS p c p' c'"
    unfolding e by (rule does_o3 [OF assms(1) ak(1) o3_activate_only [OF d(5) 1]])
  show "rc = 0 \<Longrightarrow> pgp_usable (p_o3 p') \<and> s_cur (p_o3 p') = defaults PGP_LC_OPERATIONAL" using ak(2) e by simp
qed

text \<open>All data-memory slots OpenPGP owns.\<close>

abbreviation PGP_SLOTS :: "nat set" where "PGP_SLOTS \<equiv> {33, 43} \<union> {50..55}"

lemma keys_frame:
  assumes "pgp_ok T K I view p c" and "erase_keys T ks c = (rc, c')"
  shows "pgp_does T K I view A p c p c'" and "view c' = view c"
  using framed_chip.erase_keys_frame [OF pgp_okD(1,3) [OF assms(1)] assms(2)] does_chip [OF assms(1)] by auto

lemma pgp_wipe_spec:
  assumes "pgp_ok T K I view p c" and "pgp_lifecycle_wipe T p c = (rc, p', c')"
  shows "pgp_does T K I view PGP_SLOTS p c p' c'" and "rc \<in> {0, - 1, - 2, - 3}"
    and "rc = - 1 \<Longrightarrow> view c' = view c \<and> p' = p"
    and "rc = - 2 \<Longrightarrow> t \<in> {50..55} \<Longrightarrow> view c' t = view c t"
    and "rc \<noteq> - 1 \<Longrightarrow> \<not> s_loaded (p_o3 p')"
    and "rc = 0 \<or> rc = - 3 \<Longrightarrow> view c' 33 = [] \<and> view c' 43 = []"
    and "rc = 0 \<Longrightarrow> t \<in> {50..55} \<Longrightarrow> view c' t = []"
proof -
  obtain r1 c1 where 1: "erase_keys T [PGP_KEYS_SIG_SLOT, PGP_KEYS_DEC_SLOT, PGP_KEYS_AUT_SLOT] c = (r1, c1)"
    by fastforce
  note k = keys_frame [OF assms(1) 1]
  obtain r2 p2 c2 where 2: "on_o3 (openpgp_state_clear T) p c1 = (r2, p2, c2)" by (metis prod_cases3)
  note o = clear_o3_does [OF does_ok [OF k(1)] 2]
  obtain r3 p3 c3 where 3: "pgp_pin_clear_all T p2 c2 = (r3, p3, c3)" by (metis prod_cases3)
  note z = clear_all_does [OF does_ok [OF o(1)] 3]
  have s1: "pgp_does T K I view PGP_SLOTS p c p c1" by (rule k(1))
  have s2: "pgp_does T K I view PGP_SLOTS p c p2 c2"
    by (rule does_trans [OF s1 does_mono [OF o(1)]]) auto
  have s3: "pgp_does T K I view PGP_SLOTS p c p3 c3"
    by (rule does_trans [OF s2 does_mono [OF z(1)]]) auto
  consider (a) "r1 \<noteq> 0" | (b) "r1 = 0" "r2 \<noteq> 0" | (d) "r1 = 0" "r2 = 0" by blast
  then have "pgp_does T K I view PGP_SLOTS p c p' c' \<and> rc \<in> {0, - 1, - 2, - 3} \<and>
    (rc = - 1 \<longrightarrow> view c' = view c \<and> p' = p) \<and> (rc = - 2 \<longrightarrow> (\<forall>t \<in> {50..55}. view c' t = view c t)) \<and>
    (rc \<noteq> - 1 \<longrightarrow> \<not> s_loaded (p_o3 p')) \<and> (rc = 0 \<or> rc = - 3 \<longrightarrow> view c' 33 = [] \<and> view c' 43 = []) \<and>
    (rc = 0 \<longrightarrow> (\<forall>t \<in> {50..55}. view c' t = []))"
  proof cases
    case a
    then have "rc = - 1" "p' = p" "c' = c1" using assms(2) by (simp_all add: pgp_lifecycle_wipe_def 1 del: erase_keys.simps)
    then show ?thesis using s1 k(2) by simp
  next
    case b
    then have e: "rc = - 2" "p' = p2" "c' = c2" using assms(2) by (simp_all add: pgp_lifecycle_wipe_def 1 2 del: erase_keys.simps)
    have "view c2 t = view c t" if "t \<in> {50..55}" for t using does_view [OF o(1)] k(2) that by auto
    then show ?thesis using e s2 o(3) by simp
  next
    case d
    then have e: "rc = (if r3 \<noteq> PGP_PIN_OK then - 3 else 0)" "p' = p3" "c' = c3"
      using assms(2) by (auto simp: pgp_lifecycle_wipe_def 1 2 3 simp del: erase_keys.simps split: if_splits)
    have "view c3 33 = []" "view c3 43 = []" using does_view [OF z(1)] o(2) d by auto
    then show ?thesis using e s3 o(3) z(2,3) by (simp split: if_splits)
  qed
  then show "pgp_does T K I view PGP_SLOTS p c p' c'" and "rc \<in> {0, - 1, - 2, - 3}"
    and "rc = - 1 \<Longrightarrow> view c' = view c \<and> p' = p"
    and "rc = - 2 \<Longrightarrow> t \<in> {50..55} \<Longrightarrow> view c' t = view c t"
    and "rc \<noteq> - 1 \<Longrightarrow> \<not> s_loaded (p_o3 p')"
    and "rc = 0 \<or> rc = - 3 \<Longrightarrow> view c' 33 = [] \<and> view c' 43 = []"
    and "rc = 0 \<Longrightarrow> t \<in> {50..55} \<Longrightarrow> view c' t = []"
    by blast+
qed

lemma boot_does:
  assumes "pgp_ok T K I view p c" and "pgp_lifecycle_boot T K p c = (rc, p', c')"
  shows "pgp_does T K I view PGP_SLOTS p c p' c'"
    and "t \<in> {50..55} \<Longrightarrow> view c' t \<noteq> view c t \<Longrightarrow> view c 33 = [] \<and> view c 43 = []"
    and "rc = 0 \<Longrightarrow> pgp_usable (p_o3 p')" and "rc \<in> {0, - 1, - 2, - 3, - 4, - 5}"
proof -
  note d = pgp_okD [OF assms(1)]
  obtain r0 c0 where 0: "tropic_l3_session_ensure T c = (r0, c0)" by fastforce
  have se: "I c0 \<and> view c0 = view c"
    using framed_chip.session_inv [OF d(1,3) 0] framed_chip.session_frame [OF d(1,3) 0] by simp
  have s0: "pgp_does T K I view PGP_SLOTS p c p c0" by (rule does_chip [OF assms(1) se])
  obtain st p1 c1 where 1: "on_o3 (openpgp_state_load T K) p c0 = (st, p1, c1)" by (metis prod_cases3)
  note l = load_o3_does [OF does_ok [OF s0] 1]
  have s1: "pgp_does T K I view PGP_SLOTS p c p1 c1" by (rule does_trans [OF s0 does_mono [OF l(1)]]) auto
  obtain r2 p2 c2 where 2: "pgp_lifecycle_wipe T p1 c1 = (r2, p2, c2)" by (metis prod_cases3)
  have s2: "pgp_does T K I view PGP_SLOTS p c p2 c2"
    by (rule does_trans [OF s1 pgp_wipe_spec(1) [OF does_ok [OF s1] 2]])
  obtain r3 p3 c3 where 3: "pgp_pin_bind_factory T K p2 c2 = (r3, p3, c3)" by (metis prod_cases3)
  have s3: "pgp_does T K I view PGP_SLOTS p c p3 c3"
    by (rule does_trans [OF s2 does_mono [OF factory_does(1) [OF does_ok [OF s2] 3]]]) auto
  obtain r4 p4 c4 where 4: "on_o3 (openpgp_state_init T K PGP_LC_OPERATIONAL) p3 c3 = (r4, p4, c4)"
    by (metis prod_cases3)
  have lc: "PGP_LC_OPERATIONAL \<le> 2" by (simp add: pgp_lcs)
  note i4 = init_o3_does [OF does_ok [OF s3] lc 4]
  have s4: "pgp_does T K I view PGP_SLOTS p c p4 c4" by (rule does_trans [OF s3 does_mono [OF i4(1)]]) auto
  have same: "view c1 t = view c t" if "t \<in> {50..55}" for t
    using does_view [OF l(1), of t] se that by auto
  have "pgp_does T K I view PGP_SLOTS p c p' c' \<and>
    ((\<exists>t \<in> {50..55}. view c' t \<noteq> view c t) \<longrightarrow> view c 33 = [] \<and> view c 43 = []) \<and>
    (rc = 0 \<longrightarrow> pgp_usable (p_o3 p')) \<and> rc \<in> {0, - 1, - 2, - 3, - 4, - 5}"
  proof (cases "r0 = 0 \<and> st = 1")
    case True
    then have "view c 33 = [] \<and> view c 43 = []" using l(2) se by simp
    moreover have "pgp_does T K I view PGP_SLOTS p c p' c' \<and> (rc = 0 \<longrightarrow> pgp_usable (p_o3 p')) \<and>
        rc \<in> {0, - 1, - 2, - 3, - 4, - 5}"
      using assms(2) True s2 s3 s4 i4(2)
      by (auto simp: pgp_lifecycle_boot_def 0 1 2 3 4 split: if_splits)
    ultimately show ?thesis by blast
  next
    case False
    then have "(rc, p', c') \<in> {(- 1, p, c0), (0, p1, c1), (- 2, p1, c1)}" and "rc = 0 \<longrightarrow> st = 0 \<and> p' = p1"
      using assms(2) l(4) by (auto simp: pgp_lifecycle_boot_def 0 1 split: if_splits)
    then show ?thesis using s0 s1 same se l(3) by auto
  qed
  then show "pgp_does T K I view PGP_SLOTS p c p' c'"
    and "t \<in> {50..55} \<Longrightarrow> view c' t \<noteq> view c t \<Longrightarrow> view c 33 = [] \<and> view c 43 = []"
    and "rc = 0 \<Longrightarrow> pgp_usable (p_o3 p')" and "rc \<in> {0, - 1, - 2, - 3, - 4, - 5}"
    by auto
qed

lemma boot_stops:
  assumes "pgp_ok T K I view p c" and "pgp_lifecycle_boot T K p c = (rc, p', c')" and "rc \<in> {- 1, - 2}"
  shows "\<forall>t \<in> {50..55}. view c' t = view c t"
proof -
  note d = pgp_okD [OF assms(1)]
  obtain r0 c0 where 0: "tropic_l3_session_ensure T c = (r0, c0)" by fastforce
  have se: "I c0 \<and> view c0 = view c"
    using framed_chip.session_inv [OF d(1,3) 0] framed_chip.session_frame [OF d(1,3) 0] by simp
  obtain st p1 c1 where 1: "on_o3 (openpgp_state_load T K) p c0 = (st, p1, c1)" by (metis prod_cases3)
  note l = load_o3_does [OF does_ok [OF does_chip [OF assms(1) se]] 1]
  have "c' = c0 \<or> c' = c1"
    using assms(2,3) by (auto simp: pgp_lifecycle_boot_def 0 1 split: if_splits prod.splits)
  then show ?thesis using se does_view [OF l(1)] by auto
qed

lemma terminate_does:
  assumes "pgp_ok T K I view p c" and "pgp_lifecycle_terminate T K p c = (rc, p', c')"
  shows "pgp_does T K I view PGP_SLOTS p c p' c'" and "rc \<in> {0, - 1, - 2}"
    and "rc = 0 \<Longrightarrow> pgp_usable (p_o3 p') \<and> s_cur (p_o3 p') = defaults PGP_LC_TERMINATED"
    and "rc \<noteq> - 1 \<Longrightarrow> t \<in> {50..55} \<Longrightarrow> view c' t = []"
proof -
  obtain r1 p1 c1 where 1: "pgp_lifecycle_wipe T p c = (r1, p1, c1)" by (metis prod_cases3)
  note w = pgp_wipe_spec [OF assms(1) 1]
  obtain r2 p2 c2 where 2: "on_o3 (openpgp_state_init T K PGP_LC_TERMINATED) p1 c1 = (r2, p2, c2)"
    by (metis prod_cases3)
  have lc: "PGP_LC_TERMINATED \<le> 2" by (simp add: pgp_lcs)
  note i = init_o3_does [OF does_ok [OF w(1)] lc 2]
  have s2: "pgp_does T K I view PGP_SLOTS p c p2 c2" by (rule does_trans [OF w(1) does_mono [OF i(1)]]) auto
  have "view c2 t = []" if "r1 = 0" "t \<in> {50..55}" for t
    using does_view [OF i(1), of t] w(7) that by auto
  then show "pgp_does T K I view PGP_SLOTS p c p' c'" and "rc \<in> {0, - 1, - 2}"
    and "rc = 0 \<Longrightarrow> pgp_usable (p_o3 p') \<and> s_cur (p_o3 p') = defaults PGP_LC_TERMINATED"
    and "rc \<noteq> - 1 \<Longrightarrow> t \<in> {50..55} \<Longrightarrow> view c' t = []"
    using assms(2) w(1) s2 i(2) by (auto simp: pgp_lifecycle_terminate_def 1 2 split: if_splits)
qed

lemma activate_does:
  assumes "pgp_ok T K I view p c" and "pgp_lifecycle_activate T K p c = (rc, p', c')"
  shows "pgp_does T K I view PGP_SLOTS p c p' c'" and "rc \<in> {0, - 1, - 2}"
    and "rc = 0 \<Longrightarrow> pgp_usable (p_o3 p') \<and> s_cur (p_o3 p') = defaults PGP_LC_OPERATIONAL"
    and "rc = - 1 \<longleftrightarrow> openpgp_state_lifecycle (p_o3 p) \<noteq> PGP_LC_TERMINATED"
    and "rc = - 1 \<Longrightarrow> p' = p \<and> c' = c"
proof -
  obtain r1 p1 c1 where 1: "pgp_pin_clear_all T p c = (r1, p1, c1)" by (metis prod_cases3)
  have s1: "pgp_does T K I view PGP_SLOTS p c p1 c1" by (rule does_mono [OF clear_all_does(1) [OF assms(1) 1]]) auto
  obtain r2 p2 c2 where 2: "pgp_pin_bind_factory T K p1 c1 = (r2, p2, c2)" by (metis prod_cases3)
  have s2: "pgp_does T K I view PGP_SLOTS p c p2 c2"
    by (rule does_trans [OF s1 does_mono [OF factory_does(1) [OF does_ok [OF s1] 2]]]) auto
  obtain r3 p3 c3 where 3: "on_o3 (openpgp_state_activate T K) p2 c2 = (r3, p3, c3)" by (metis prod_cases3)
  note a = activate_o3_does [OF does_ok [OF s2] 3]
  have s3: "pgp_does T K I view PGP_SLOTS p c p3 c3" by (rule does_trans [OF s2 does_mono [OF a(1)]]) auto
  show "pgp_does T K I view PGP_SLOTS p c p' c'" and "rc \<in> {0, - 1, - 2}"
    and "rc = 0 \<Longrightarrow> pgp_usable (p_o3 p') \<and> s_cur (p_o3 p') = defaults PGP_LC_OPERATIONAL"
    and "rc = - 1 \<longleftrightarrow> openpgp_state_lifecycle (p_o3 p) \<noteq> PGP_LC_TERMINATED"
    and "rc = - 1 \<Longrightarrow> p' = p \<and> c' = c"
    using assms s1 s2 s3 a(2) does_refl [OF assms(1)]
    by (auto simp: pgp_lifecycle_activate_def 1 2 3 split: if_splits)
qed

text \<open>The boot counter is the ensure's own.\<close>

lemma clear_pins_tries: "clear_pins T ws p c = (rc, p', c') \<Longrightarrow> s_boot_tries p' = s_boot_tries p"
  by (induction ws arbitrary: p c) (auto simp: put_rec_def split: prod.splits if_splits)

lemma wipe_tries:
  assumes "pgp_lifecycle_wipe T p c = (rc, p', c')"
  shows "s_boot_tries p' = s_boot_tries p"
proof -
  obtain r1 c1 where 1: "erase_keys T [PGP_KEYS_SIG_SLOT, PGP_KEYS_DEC_SLOT, PGP_KEYS_AUT_SLOT] c = (r1, c1)"
    by fastforce
  obtain r2 s c2 where 2: "openpgp_state_clear T (p_o3 p) c1 = (r2, s, c2)" by (metis prod_cases3)
  obtain r3 p3 c3 where 3: "pgp_pin_clear_all T (p\<lparr>p_o3 := s\<rparr>) c2 = (r3, p3, c3)" by (metis prod_cases3)
  have "s_boot_tries p3 = s_boot_tries p" using clear_pins_tries 3 by (fastforce simp: pgp_pin_clear_all_def)
  then show ?thesis
    using assms by (auto simp: pgp_lifecycle_wipe_def on_o3_def 1 2 3 simp del: erase_keys.simps split: if_splits)
qed

lemma factory_tries: "pgp_pin_bind_factory T K p c = (rc, p', c') \<Longrightarrow> s_boot_tries p' = s_boot_tries p"
  by (auto simp: pgp_pin_bind_factory_def bind_pin_def put_rec_def split: prod.splits if_splits)

lemma boot_tries:
  assumes "pgp_lifecycle_boot T K p c = (rc, p', c')"
  shows "s_boot_tries p' = s_boot_tries p"
proof -
  obtain r0 c0 where 0: "tropic_l3_session_ensure T c = (r0, c0)" by fastforce
  obtain st p1 c1 where 1: "on_o3 (openpgp_state_load T K) p c0 = (st, p1, c1)" by (metis prod_cases3)
  obtain r2 p2 c2 where 2: "pgp_lifecycle_wipe T p1 c1 = (r2, p2, c2)" by (metis prod_cases3)
  obtain r3 p3 c3 where 3: "pgp_pin_bind_factory T K p2 c2 = (r3, p3, c3)" by (metis prod_cases3)
  obtain r4 p4 c4 where 4: "on_o3 (openpgp_state_init T K PGP_LC_OPERATIONAL) p3 c3 = (r4, p4, c4)"
    by (metis prod_cases3)
  have "s_boot_tries p1 = s_boot_tries p" "s_boot_tries p4 = s_boot_tries p3"
    using 1 4 by (auto simp: on_o3_def split: prod.splits)
  then show ?thesis
    using assms wipe_tries [OF 2] factory_tries [OF 3]
    by (auto simp: pgp_lifecycle_boot_def 0 1 2 3 4 split: if_splits)
qed

lemma ensure_does:
  assumes "pgp_ok T K I view p c" and "pgp_lifecycle_ensure T K p c = (p', c')"
  shows "pgp_does T K I view PGP_SLOTS p c p' c'"
proof (cases "openpgp_state_loaded (p_o3 p) \<or> s_boot_tries p \<ge> PGP_BOOT_TRIES")
  case True
  then show ?thesis using assms does_refl by (auto simp: pgp_lifecycle_ensure_def)
next
  case False
  let ?q = "p\<lparr>s_boot_tries := s_boot_tries p + 1\<rparr>"
  obtain rc where b: "pgp_lifecycle_boot T K ?q c = (rc, p', c')"
    using assms(2) False by (auto simp: pgp_lifecycle_ensure_def) (metis prod.collapse)
  have "pgp_ok T K I view ?q c" using assms(1) by (simp add: pgp_ok_def)
  then show ?thesis using boot_does(1) [OF _ b] by (auto simp: pgp_does_def)
qed

section \<open>Properties\<close>


lemma demo_pgp: "pgp_ok demo_chip demo_crypto mock_inv mock_view pgp_pin_start demo_mock"
  using demo_framed
  by (simp add: pgp_ok_def o3_ok_def pair_ok_def pgp_pin_start_def pgp_start_def O3_START_def PIN_REC_def
      pgp_usable_def framed_chip_def)


text \<open>
  Factory PINs are never bound over an existing card: a boot changes a PIN record only if
  both copies of O3 read empty before it, a damaged or unreadable state answers an error
  with every PIN record as it was, and a boot that answers 0 leaves a usable state.
\<close>

theorem pgp_boot_only_absent:
  assumes "pgp_ok T K I view p c" and "pgp_lifecycle_boot T K p c = (rc, p', c')"
  shows "((\<exists>t \<in> {50..55}. view c' t \<noteq> view c t) \<longrightarrow> view c 33 = [] \<and> view c 43 = []) \<and>
    (rc = 0 \<longrightarrow> openpgp_state_lifecycle (p_o3 p') \<noteq> PGP_LC_ERROR) \<and>
    (rc \<in> {- 1, - 2} \<or> view c 33 \<noteq> [] \<longrightarrow> (\<forall>t \<in> {50..55}. view c' t = view c t)) \<and>
    rc \<in> {0, - 1, - 2, - 3, - 4, - 5}"
proof -
  note b = boot_does [OF assms]
  have u: "openpgp_state_lifecycle (p_o3 p') \<noteq> PGP_LC_ERROR" if "rc = 0"
    using cur_facts [OF pgp_okD(6) [OF does_ok [OF b(1)]] b(3) [OF that]] b(3) [OF that]
    by (auto simp: openpgp_state_lifecycle_def fields_ok_def pgp_lcs)
  have "\<forall>t \<in> {50..55}. view c' t = view c t" if "rc \<in> {- 1, - 2}"
    using boot_stops [OF assms that] .
  then show ?thesis using u b(2,4) by blast
qed

theorem pgp_boot_only_absent_witness:
  "\<exists>rc p' c'. pgp_lifecycle_boot demo_chip demo_crypto pgp_pin_start demo_mock = (rc, p', c') \<and>
     rc \<in> {0, - 1, - 2, - 3, - 4, - 5} \<and> (rc = 0 \<longrightarrow> openpgp_state_lifecycle (p_o3 p') \<noteq> PGP_LC_ERROR)"
proof -
  obtain rc p' c' where b: "pgp_lifecycle_boot demo_chip demo_crypto pgp_pin_start demo_mock = (rc, p', c')"
    by (metis prod_cases3)
  note k = pgp_boot_only_absent [OF demo_pgp b]
  show ?thesis
    by (intro exI conjI, rule b, rule conjunct2 [OF conjunct2 [OF conjunct2 [OF k]]], rule conjunct1 [OF conjunct2 [OF k]])
qed

text \<open>
  TERMINATE and ACTIVATE: a TERMINATE that answers 0 leaves the card terminated, with every
  data object of the default and every PIN record empty; ACTIVATE answers -1, and does
  nothing at all, exactly unless the state was read as terminated, and when it answers 0
  the card shows the operational defaults.
\<close>

theorem pgp_terminate_activate:
  assumes "pgp_ok T K I view p c"
    and "pgp_lifecycle_terminate T K p c = (rt, pt, ct)" and "pgp_lifecycle_activate T K p c = (ra, pa, ca)"
  shows "(rt = 0 \<longrightarrow> presents (p_o3 pt) (card_of (defaults PGP_LC_TERMINATED)) \<and>
      (\<forall>t \<in> {50..55}. view ct t = [])) \<and>
    (ra = - 1 \<longleftrightarrow> openpgp_state_lifecycle (p_o3 p) \<noteq> PGP_LC_TERMINATED) \<and>
    (ra = - 1 \<longrightarrow> pa = p \<and> ca = c) \<and>
    (ra = 0 \<longrightarrow> presents (p_o3 pa) (card_of (defaults PGP_LC_OPERATIONAL)))"
proof -
  note t = terminate_does [OF assms(1,2)] and a = activate_does [OF assms(1,3)]
  have "presents (p_o3 pt) (card_of (defaults PGP_LC_TERMINATED))" if "rt = 0"
    using presents_cur t(3) [OF that] by simp
  moreover have "presents (p_o3 pa) (card_of (defaults PGP_LC_OPERATIONAL))" if "ra = 0"
    using presents_cur a(3) [OF that] by simp
  ultimately show ?thesis using t(4) a(4,5) by auto
qed

theorem pgp_terminate_activate_witness:
  "pgp_lifecycle_activate demo_chip demo_crypto pgp_pin_start demo_mock = (- 1, pgp_pin_start, demo_mock)"
proof -
  obtain rt pt ct where t: "pgp_lifecycle_terminate demo_chip demo_crypto pgp_pin_start demo_mock = (rt, pt, ct)"
    by (metis prod_cases3)
  obtain ra pa ca where a: "pgp_lifecycle_activate demo_chip demo_crypto pgp_pin_start demo_mock = (ra, pa, ca)"
    by (metis prod_cases3)
  have "openpgp_state_lifecycle (p_o3 pgp_pin_start) \<noteq> PGP_LC_TERMINATED"
    by (simp add: openpgp_state_lifecycle_def pgp_usable_def pgp_pin_start_def pgp_start_def pgp_lcs)
  then show ?thesis using pgp_terminate_activate [OF demo_pgp t a] a by simp
qed

text \<open>A call that does not boot changes nothing, now and later; a call that boots counts.\<close>

definition settled_card :: "pgp \<Rightarrow> bool" where
  "settled_card p \<longleftrightarrow> openpgp_state_loaded (p_o3 p) \<or> s_boot_tries p \<ge> PGP_BOOT_TRIES"

lemma ensure_settled: "settled_card p \<Longrightarrow> pgp_lifecycle_ensure T K p c = (p, c)"
  by (simp add: pgp_lifecycle_ensure_def settled_card_def)

lemma ensure_counts:
  assumes "\<not> settled_card p" and "pgp_lifecycle_ensure T K p c = (p', c')"
  shows "s_boot_tries p' = s_boot_tries p + 1"
proof -
  let ?q = "p\<lparr>s_boot_tries := s_boot_tries p + 1\<rparr>"
  obtain rc p1 c1 where b: "pgp_lifecycle_boot T K ?q c = (rc, p1, c1)" by (metis prod_cases3)
  then show ?thesis using assms boot_tries [OF b] by (simp add: pgp_lifecycle_ensure_def settled_card_def)
qed

definition ensure_times :: "'c tropic \<Rightarrow> crypto \<Rightarrow> nat \<Rightarrow> pgp \<times> 'c \<Rightarrow> pgp \<times> 'c" where
  "ensure_times T K n = (\<lambda>(p, c). pgp_lifecycle_ensure T K p c) ^^ n"

lemma ensure_progress:
  assumes "s_boot_tries p = 0" and "n \<le> 3" and "ensure_times T K n (p, c) = (p', c')"
  shows "settled_card p' \<and> s_boot_tries p' \<le> 3 \<or> s_boot_tries p' = of_nat n"
  using assms(2,3)
proof (induction n arbitrary: p' c')
  case 0
  then show ?case using assms(1) by (simp add: ensure_times_def)
next
  case (Suc n)
  obtain p1 c1 where n: "ensure_times T K n (p, c) = (p1, c1)" by fastforce
  then have e: "pgp_lifecycle_ensure T K p1 c1 = (p', c')" using Suc.prems(2) by (simp add: ensure_times_def)
  show ?case
  proof (cases "settled_card p1")
    case True
    have "n = 0 \<or> n = 1 \<or> n = 2" using Suc.prems(1) by linarith
    then have "s_boot_tries p1 \<le> 3" using Suc.IH [OF _ n] Suc.prems(1) by (auto simp: word_le_nat_alt)
    then show ?thesis using True e ensure_settled [OF True, of T K c1] by simp
  next
    case False
    then have "s_boot_tries p1 = of_nat n" using Suc.IH [OF _ n] Suc.prems(1) by simp
    then show ?thesis using ensure_counts [OF False e] by simp
  qed
qed

text \<open>
  C22. Boot is bounded: in one power cycle, however many commands arrive, at most three of
  them run it.  From the fourth call on nothing changes any more, and the counter never
  passes three.
\<close>

theorem pgp_boot_bounded:
  assumes "s_boot_tries p = 0" and "n \<ge> 3"
  shows "ensure_times T K n (p, c) = ensure_times T K 3 (p, c) \<and>
    s_boot_tries (fst (ensure_times T K n (p, c))) \<le> 3"
proof -
  obtain p3 c3 where 3: "ensure_times T K 3 (p, c) = (p3, c3)" by fastforce
  have s: "settled_card p3" "s_boot_tries p3 \<le> 3"
    using ensure_progress [OF assms(1) _ 3] by (auto simp: settled_card_def PGP_BOOT_TRIES_def)
  have "ensure_times T K (k + 3) (p, c) = (p3, c3)" for k
  proof (induction k)
    case (Suc k)
    have "ensure_times T K (Suc (k + 3)) (p, c) = (\<lambda>(p, c). pgp_lifecycle_ensure T K p c) (ensure_times T K (k + 3) (p, c))"
      unfolding ensure_times_def funpow.simps(2) by simp
    then show ?case using Suc ensure_settled [OF s(1), of T K c3] by simp
  qed (simp add: 3)
  from this [of "n - 3"] show ?thesis using assms(2) s(2) 3 by simp
qed

theorem pgp_boot_bounded_witness:
  "ensure_times demo_chip demo_crypto 1000 (pgp_pin_start, demo_mock) =
   ensure_times demo_chip demo_crypto 3 (pgp_pin_start, demo_mock)"
proof -
  have "s_boot_tries pgp_pin_start = 0" by (simp add: pgp_pin_start_def)
  then show ?thesis using pgp_boot_bounded [of pgp_pin_start 1000 demo_chip demo_crypto demo_mock] by simp
qed

end
