(* ===== verification/Pgp_Keys.thy ===== *)
theory Pgp_Keys
  imports Pgp_Lifecycle
begin

text \<open>
  The OpenPGP keys: the Ed25519 keys in the chip, \<^verbatim>\<open>firmware/src/openpgp/pgp_keys.c\<close>, and the X25519
  decryption key that is computed outside it and stored wrapped, \<^verbatim>\<open>firmware/src/openpgp/pgp_dec.c\<close>.
  AES-GCM and X25519 belong to trezor-crypto and are parameters.  The lemmas show that a
  generated key opens under the KEK it was sealed under and computes the secret of its own
  public key, and that nothing is decrypted before the tag of the stored wrap matched.
\<close>

section \<open>Keys in the chip\<close>

definition CURVE_ED25519 :: nat where "CURVE_ED25519 = 0"
definition PGP_KEYS_PUBKEY_LEN :: nat where "PGP_KEYS_PUBKEY_LEN = 32"
definition PGP_KEYS_SIG_LEN :: nat where "PGP_KEYS_SIG_LEN = 64"
definition PGP_KEYS_OK :: int where "PGP_KEYS_OK = 0"
definition PGP_KEYS_NO_KEY :: int where "PGP_KEYS_NO_KEY = - 1"
definition PGP_KEYS_CHIP_ERR :: int where "PGP_KEYS_CHIP_ERR = - 2"
definition PGP_KEYS_BAD_PARAM :: int where "PGP_KEYS_BAD_PARAM = - 3"

lemmas pgp_keys_codes = PGP_KEYS_OK_def PGP_KEYS_NO_KEY_def PGP_KEYS_CHIP_ERR_def PGP_KEYS_BAD_PARAM_def

text \<open>The diagnostic globals.\<close>

record key_diag =
  pgp_keys_last_chip_rc :: int
  pgp_keys_last_chip_stage :: int

definition no_diag :: key_diag where
  "no_diag = \<lparr>pgp_keys_last_chip_rc = 0, pgp_keys_last_chip_stage = 0\<rparr>"

definition failed_at :: "int \<Rightarrow> int \<Rightarrow> key_diag \<Rightarrow> key_diag" where
  "failed_at rc stage g = g\<lparr>pgp_keys_last_chip_rc := rc, pgp_keys_last_chip_stage := stage\<rparr>"

text \<open>\<open>Inl\<close> is the return code, \<open>Inr\<close> what was written for \<open>PGP_KEYS_OK\<close>.\<close>

definition pgp_keys_generate_sig :: "'c tropic \<Rightarrow> key_diag \<Rightarrow> 'c \<Rightarrow> (int + bytes) \<times> key_diag \<times> 'c" where
  "pgp_keys_generate_sig T g c =
     (case tropic_ecc_erase T PGP_KEYS_SIG_SLOT c of (r1, c1) \<Rightarrow>
      if r1 \<noteq> 0 then (Inl PGP_KEYS_CHIP_ERR, failed_at r1 3 g, c1)
      else case tropic_ecc_generate T PGP_KEYS_SIG_SLOT CURVE_ED25519 c1 of (r2, c2) \<Rightarrow>
      if r2 \<noteq> 0 then (Inl PGP_KEYS_CHIP_ERR, failed_at r2 1 g, c2)
      else case tropic_ecc_pubkey_read T PGP_KEYS_SIG_SLOT PGP_KEYS_PUBKEY_LEN c2 of
        (Inl r3, c3) \<Rightarrow> (Inl PGP_KEYS_CHIP_ERR, failed_at r3 2 g, c3)
      | (Inr pub, c3) \<Rightarrow> (Inr pub, failed_at 0 0 g, c3))"

definition pgp_keys_read_sig_pubkey :: "'c tropic \<Rightarrow> 'c \<Rightarrow> (int + bytes) \<times> 'c" where
  "pgp_keys_read_sig_pubkey T c =
     (case tropic_ecc_pubkey_read T PGP_KEYS_SIG_SLOT PGP_KEYS_PUBKEY_LEN c of
        (Inl _, c1) \<Rightarrow> (Inl PGP_KEYS_NO_KEY, c1) | (Inr pub, c1) \<Rightarrow> (Inr pub, c1))"

definition pgp_keys_sign_with_sig :: "'c tropic \<Rightarrow> bytes \<Rightarrow> 'c \<Rightarrow> (int + bytes) \<times> 'c" where
  "pgp_keys_sign_with_sig T msg c =
     (if msg = [] then (Inl PGP_KEYS_BAD_PARAM, c)
      else case tropic_ecc_eddsa_sign T PGP_KEYS_SIG_SLOT msg c of
        (Inl _, c1) \<Rightarrow> (Inl PGP_KEYS_CHIP_ERR, c1)
      | (Inr s, c1) \<Rightarrow> (if length s \<noteq> PGP_KEYS_SIG_LEN then Inl PGP_KEYS_CHIP_ERR else Inr s, c1))"

definition pgp_keys_generate_aut :: "'c tropic \<Rightarrow> key_diag \<Rightarrow> 'c \<Rightarrow> (int + bytes) \<times> key_diag \<times> 'c" where
  "pgp_keys_generate_aut T g c =
     (case tropic_ecc_erase T PGP_KEYS_AUT_SLOT c of (r1, c1) \<Rightarrow>
      if r1 \<noteq> 0 then (Inl PGP_KEYS_CHIP_ERR, failed_at r1 3 g, c1)
      else case tropic_ecc_generate T PGP_KEYS_AUT_SLOT CURVE_ED25519 c1 of (r2, c2) \<Rightarrow>
      if r2 \<noteq> 0 then (Inl PGP_KEYS_CHIP_ERR, failed_at r2 1 g, c2)
      else case tropic_ecc_pubkey_read T PGP_KEYS_AUT_SLOT PGP_KEYS_PUBKEY_LEN c2 of
        (Inl r3, c3) \<Rightarrow> (Inl PGP_KEYS_CHIP_ERR, failed_at r3 2 g, c3)
      | (Inr pub, c3) \<Rightarrow> (Inr pub, g, c3))"

definition pgp_keys_read_aut_pubkey :: "'c tropic \<Rightarrow> 'c \<Rightarrow> (int + bytes) \<times> 'c" where
  "pgp_keys_read_aut_pubkey T c =
     (case tropic_ecc_pubkey_read T PGP_KEYS_AUT_SLOT PGP_KEYS_PUBKEY_LEN c of
        (Inl _, c1) \<Rightarrow> (Inl PGP_KEYS_NO_KEY, c1) | (Inr pub, c1) \<Rightarrow> (Inr pub, c1))"

definition pgp_keys_sign_with_aut :: "'c tropic \<Rightarrow> bytes \<Rightarrow> 'c \<Rightarrow> (int + bytes) \<times> 'c" where
  "pgp_keys_sign_with_aut T msg c =
     (if msg = [] then (Inl PGP_KEYS_BAD_PARAM, c)
      else case tropic_ecc_eddsa_sign T PGP_KEYS_AUT_SLOT msg c of
        (Inl _, c1) \<Rightarrow> (Inl PGP_KEYS_CHIP_ERR, c1)
      | (Inr s, c1) \<Rightarrow> (if length s \<noteq> PGP_KEYS_SIG_LEN then Inl PGP_KEYS_CHIP_ERR else Inr s, c1))"

section \<open>The wrapped decryption key\<close>

text \<open>
  AES-256-GCM and X25519.  \<open>gcm_seal\<close> is a fresh context and \<open>gcm_encrypt_message\<close>: ciphertext and
  tag from key, nonce, header and text; \<open>gcm_tag\<close> is pass one of \<open>open_wrap\<close>, up to a
  \<open>gcm_compute_tag\<close> that answers \<open>RETURN_WARN\<close>; \<open>gcm_crypt\<close> is pass two.  \<open>None\<close> is any other answer.
\<close>

record pgp_crypto =
  gcm_seal :: "bytes \<Rightarrow> bytes \<Rightarrow> bytes \<Rightarrow> bytes \<Rightarrow> (bytes \<times> bytes) option"
  gcm_tag :: "bytes \<Rightarrow> bytes \<Rightarrow> bytes \<Rightarrow> bytes \<Rightarrow> bytes option"
  gcm_crypt :: "bytes \<Rightarrow> bytes \<Rightarrow> bytes \<Rightarrow> bytes option"
  x25519_base :: "bytes \<Rightarrow> bytes"
  x25519 :: "bytes \<Rightarrow> bytes \<Rightarrow> bytes"

text \<open>What is documented of them: the passes undo a seal, and the lengths.\<close>

definition pgp_crypto_ok :: "pgp_crypto \<Rightarrow> bool" where
  "pgp_crypto_ok G \<longleftrightarrow>
     (\<forall>k n a pt ct t. gcm_seal G k n a pt = Some (ct, t) \<longrightarrow>
        gcm_tag G k n a ct = Some t \<and> gcm_crypt G k n ct = Some pt \<and> length ct = length pt \<and> length t = 16) \<and>
     (\<forall>k. length (x25519_base G k) = 32)"

definition PGP_DEC_KEY_LEN :: nat where "PGP_DEC_KEY_LEN = 32"
definition PGP_DEC_OK :: int where "PGP_DEC_OK = 0"
definition PGP_DEC_NO_KEY :: int where "PGP_DEC_NO_KEY = - 1"
definition PGP_DEC_ERR :: int where "PGP_DEC_ERR = - 2"
definition PGP_DEC_BAD_WRAP :: int where "PGP_DEC_BAD_WRAP = - 5"

lemmas pgp_dec_codes = PGP_DEC_OK_def PGP_DEC_NO_KEY_def PGP_DEC_ERR_def PGP_DEC_BAD_WRAP_def

definition KEK_LABEL :: bytes where "KEK_LABEL = ascii ''nixtropic/openpgp/dec-kek/v1''"

definition pgp_dec_kek :: "crypto \<Rightarrow> bytes \<Rightarrow> bytes" where
  "pgp_dec_kek K k = hmac_sha256 K k KEK_LABEL"

definition aad_of :: "bytes \<Rightarrow> bytes" where
  "aad_of pub = ascii ''NXDW'' @ [OPENPGP_STATE_O3_OBJ, OPENPGP_STATE_O3_SCHEMA] @ pub"

text \<open>The private key in, the record with nonce, ciphertext and tag out.\<close>

definition seal :: "'c tropic \<Rightarrow> pgp_crypto \<Rightarrow> bytes \<Rightarrow> bytes \<Rightarrow> bytes \<Rightarrow> 'c \<Rightarrow> openpgp_dec_rec option \<times> 'c" where
  "seal T G kek priv pub c =
     (case tropic_random T OPENPGP_DEC_NONCE_LEN c of
        (Inl _, c1) \<Rightarrow> (None, c1)
      | (Inr nonce, c1) \<Rightarrow>
          (case gcm_seal G kek nonce (aad_of pub) priv of
             None \<Rightarrow> (None, c1)
           | Some (ct, t) \<Rightarrow> (Some \<lparr>d_pub = pub, d_nonce = nonce, d_ct = ct, d_tag = t\<rparr>, c1)))"

definition open_wrap :: "pgp_crypto \<Rightarrow> bytes \<Rightarrow> openpgp_dec_rec \<Rightarrow> int + bytes" where
  "open_wrap G kek r =
     (case gcm_tag G kek (d_nonce r) (aad_of (d_pub r)) (d_ct r) of
        None \<Rightarrow> Inl PGP_DEC_ERR
      | Some t \<Rightarrow>
          if \<not> tag_equal t (d_tag r) then Inl PGP_DEC_BAD_WRAP
          else (case gcm_crypt G kek (d_nonce r) (d_ct r) of None \<Rightarrow> Inl PGP_DEC_ERR | Some priv \<Rightarrow> Inr priv))"

text \<open>RFC 7748 clamping.\<close>

definition clamp :: "bytes \<Rightarrow> bytes" where
  "clamp k = k[0 := k ! 0 AND 248, 31 := (k ! 31 AND 127) OR 64]"

definition pgp_dec_generate ::
  "'c tropic \<Rightarrow> crypto \<Rightarrow> pgp_crypto \<Rightarrow> bytes \<Rightarrow> pgp \<Rightarrow> 'c \<Rightarrow> (int + bytes) \<times> pgp \<times> 'c" where
  "pgp_dec_generate T K G kek p c =
     (case tropic_random T PGP_DEC_KEY_LEN c of
        (Inl _, c1) \<Rightarrow> (Inl PGP_DEC_ERR, p, c1)
      | (Inr rnd, c1) \<Rightarrow>
          (let priv = clamp rnd; pub = x25519_base G priv in
           case seal T G kek priv pub c1 of
             (None, c2) \<Rightarrow> (Inl PGP_DEC_ERR, p, c2)
           | (Some r, c2) \<Rightarrow>
               (case on_o3 (openpgp_state_dec_set T K r) p c2 of (rc, p3, c3) \<Rightarrow>
                  (if rc = 0 then Inr pub else Inl PGP_DEC_ERR, p3, c3))))"

text \<open>What \<open>pub_out\<close> and \<open>shared_out\<close> hold comes with the return code.\<close>

definition pgp_dec_read_pubkey :: "pgp \<Rightarrow> int \<times> bytes" where
  "pgp_dec_read_pubkey p =
     (case openpgp_state_dec_get (p_o3 p) of
        None \<Rightarrow> (PGP_DEC_NO_KEY, replicate PGP_DEC_KEY_LEN 0)
      | Some r \<Rightarrow> (PGP_DEC_OK, d_pub r))"

definition pgp_dec_ecdh :: "pgp_crypto \<Rightarrow> bytes \<Rightarrow> bytes \<Rightarrow> pgp \<Rightarrow> int \<times> bytes" where
  "pgp_dec_ecdh G kek peer p =
     (case openpgp_state_dec_get (p_o3 p) of
        None \<Rightarrow> (PGP_DEC_NO_KEY, replicate PGP_DEC_KEY_LEN 0)
      | Some r \<Rightarrow>
          (case open_wrap G kek r of
             Inl e \<Rightarrow> (e, replicate PGP_DEC_KEY_LEN 0)
           | Inr priv \<Rightarrow> (PGP_DEC_OK, x25519 G priv peer)))"

section \<open>What they touch\<close>

lemma keys_ops_frame:
  assumes "pgp_ok T K I view p c"
  shows "pgp_keys_generate_sig T g c = (x, g', c') \<Longrightarrow> pgp_does T K I view A p c p c'"
    and "pgp_keys_generate_aut T g c = (x, g', c') \<Longrightarrow> pgp_does T K I view A p c p c'"
    and "pgp_keys_read_sig_pubkey T c = (x, c') \<Longrightarrow> pgp_does T K I view A p c p c'"
    and "pgp_keys_read_aut_pubkey T c = (x, c') \<Longrightarrow> pgp_does T K I view A p c p c'"
    and "pgp_keys_sign_with_sig T m c = (x, c') \<Longrightarrow> pgp_does T K I view A p c p c'"
    and "pgp_keys_sign_with_aut T m c = (x, c') \<Longrightarrow> pgp_does T K I view A p c p c'"
proof -
  note d = pgp_okD(1,3) [OF assms]
  have e: "I c1 \<Longrightarrow> tropic_ecc_erase T i c1 = (r, c2) \<Longrightarrow> I c2 \<and> view c2 = view c1"
    and n: "I c1 \<Longrightarrow> tropic_ecc_generate T i k c1 = (r, c2) \<Longrightarrow> I c2 \<and> view c2 = view c1"
    and u: "I c1 \<Longrightarrow> tropic_ecc_pubkey_read T i k c1 = (q, c2) \<Longrightarrow> I c2 \<and> view c2 = view c1"
    and w: "I c1 \<Longrightarrow> tropic_ecc_eddsa_sign T i mm c1 = (q, c2) \<Longrightarrow> I c2 \<and> view c2 = view c1"
    for i k r q mm c1 c2
    using framed_chip.ecc_erase_rest [OF d(1)] framed_chip.ecc_gen_rest [OF d(1)]
      framed_chip.ecc_pub_rest [OF d(1)] framed_chip.eddsa_rest [OF d(1)] by blast+
  have gen: "I c' \<and> view c' = view c"
    if g: "(case tropic_ecc_erase T s c of (r1, c1) \<Rightarrow> if r1 \<noteq> 0 then (Inl PGP_KEYS_CHIP_ERR, failed_at r1 3 g, c1)
      else case tropic_ecc_generate T s CURVE_ED25519 c1 of (r2, c2) \<Rightarrow>
      if r2 \<noteq> 0 then (Inl PGP_KEYS_CHIP_ERR, failed_at r2 1 g, c2)
      else case tropic_ecc_pubkey_read T s PGP_KEYS_PUBKEY_LEN c2 of
        (Inl r3, c3) \<Rightarrow> (Inl PGP_KEYS_CHIP_ERR, failed_at r3 2 g, c3)
      | (Inr pub, c3) \<Rightarrow> (Inr pub, h g, c3)) = (x, g', c')" for s h
  proof -
    obtain r1 c1 where 1: "tropic_ecc_erase T s c = (r1, c1)" by fastforce
    obtain r2 c2 where 2: "tropic_ecc_generate T s CURVE_ED25519 c1 = (r2, c2)" by fastforce
    obtain r3 c3 where 3: "tropic_ecc_pubkey_read T s PGP_KEYS_PUBKEY_LEN c2 = (r3, c3)" by fastforce
    note f1 = e [OF d(2) 1]
    note f2 = n [OF conjunct1 [OF f1] 2]
    note f3 = u [OF conjunct1 [OF f2] 3]
    show ?thesis using g f1 f2 f3 by (auto simp: 1 2 3 split: if_splits sum.splits)
  qed
  show "pgp_keys_generate_sig T g c = (x, g', c') \<Longrightarrow> pgp_does T K I view A p c p c'"
    unfolding pgp_keys_generate_sig_def by (rule does_chip [OF assms gen]) assumption
  show "pgp_keys_generate_aut T g c = (x, g', c') \<Longrightarrow> pgp_does T K I view A p c p c'"
    unfolding pgp_keys_generate_aut_def by (rule does_chip [OF assms gen [where h = "\<lambda>g. g"]]) assumption
  have rd: "pgp_does T K I view A p c p c1" if "tropic_ecc_pubkey_read T i k c = (q, c1)" for i k q c1
    by (rule does_chip [OF assms u [OF d(2) that]])
  have sg: "pgp_does T K I view A p c p c1" if "tropic_ecc_eddsa_sign T i mm c = (q, c1)" for i mm q c1
    by (rule does_chip [OF assms w [OF d(2) that]])
  show "pgp_keys_read_sig_pubkey T c = (x, c') \<Longrightarrow> pgp_does T K I view A p c p c'"
    and "pgp_keys_read_aut_pubkey T c = (x, c') \<Longrightarrow> pgp_does T K I view A p c p c'"
    by (auto simp: pgp_keys_read_sig_pubkey_def pgp_keys_read_aut_pubkey_def split: prod.splits sum.splits dest: rd)
  show "pgp_keys_sign_with_sig T m c = (x, c') \<Longrightarrow> pgp_does T K I view A p c p c'"
    and "pgp_keys_sign_with_aut T m c = (x, c') \<Longrightarrow> pgp_does T K I view A p c p c'"
    using does_refl [OF assms]
    by (auto simp: pgp_keys_sign_with_sig_def pgp_keys_sign_with_aut_def split: prod.splits sum.splits if_splits dest: sg)
qed

lemma setter_does:
  assumes "pgp_ok T K I view p c" and "o3_typed cmd" and "on_o3 (o3_run T K cmd) p c = (rc, p', c')"
  shows "pgp_does T K I view O3_SLOTS p c p' c'"
proof -
  note d = pgp_okD [OF assms(1)]
  obtain r s c1 where 1: "o3_run T K cmd (p_o3 p) c = (r, s, c1)" by (metis prod_cases3)
  have e: "p' = p\<lparr>p_o3 := s\<rparr>" "c' = c1" using assms(3) by (simp_all add: on_o3_def 1)
  show ?thesis
    unfolding e by (rule does_o3 [OF assms(1) run_ok(1) [OF d(6) assms(2) 1] o3_run_only [OF d(5) 1]])
qed

lemma clamp_length [simp]: "length (clamp k) = length k"
  by (simp add: clamp_def)

lemma clamp_idem:
  assumes "length k = 32"
  shows "clamp (clamp k) = clamp k"
proof -
  have "(x AND 248) AND 248 = x AND 248" "(((x AND 127) OR 64) AND 127) OR 64 = (x AND 127) OR 64" for x :: u8
    by (rule bit_word_eqI, auto simp: bit_simps)+
  then show ?thesis using assms by (simp add: clamp_def list_update_swap)
qed

lemma random_does:
  assumes "pgp_ok T K I view p c" and "tropic_random T n c = (x, c')"
  shows "pgp_does T K I view A p c p c'" and "x = Inr r \<Longrightarrow> length r = n"
  using does_chip [OF assms(1)] framed_chip.random_inv [OF pgp_okD(1,3) [OF assms(1)] assms(2)]
    framed_chip.random_frame [OF pgp_okD(1,3) [OF assms(1)] assms(2)]
    framed_chip.random_length [OF pgp_okD(1,3) [OF assms(1)]] assms(2) by auto

lemma seal_spec:
  assumes "pgp_ok T K I view p c" and "pgp_crypto_ok G" and "length pub = 32" and "length priv = 32"
    and "seal T G kek priv pub c = (x, c')"
  shows "pgp_does T K I view A p c p c'"
    and "x = Some r \<Longrightarrow> o3_typed (SetDec r) \<and> d_pub r = pub \<and> open_wrap G kek r = Inr priv"
proof -
  obtain y c1 where 1: "tropic_random T OPENPGP_DEC_NONCE_LEN c = (y, c1)" by fastforce
  note rd = random_does [OF assms(1) 1]
  have c': "c' = c1" using assms(5) by (auto simp: seal_def 1 split: sum.splits option.splits)
  then show "pgp_does T K I view A p c p c'" using rd(1) by simp
  assume "x = Some r"
  then obtain nonce ct t where y: "y = Inr nonce" and g: "gcm_seal G kek nonce (aad_of pub) priv = Some (ct, t)"
    and r: "r = \<lparr>d_pub = pub, d_nonce = nonce, d_ct = ct, d_tag = t\<rparr>"
    using assms(5) by (auto simp: seal_def 1 split: sum.splits option.splits)
  have "gcm_tag G kek nonce (aad_of pub) ct = Some t" "gcm_crypt G kek nonce ct = Some priv"
    "length ct = length priv" "length t = 16"
    using assms(2) g by (auto simp: pgp_crypto_ok_def)
  then show "o3_typed (SetDec r) \<and> d_pub r = pub \<and> open_wrap G kek r = Inr priv"
    using rd(2) [OF y] assms(3,4) r by (simp add: open_wrap_def tag_equal_iff o3_layout)
qed

lemma dec_generate_spec:
  assumes ok: "pgp_ok T K I view p c" and G: "pgp_crypto_ok G"
    and run: "pgp_dec_generate T K G kek p c = (x, p', c')"
  shows "pgp_does T K I view O3_SLOTS p c p' c'"
    and "x = Inr pub \<Longrightarrow> \<exists>priv. length priv = 32 \<and> priv = clamp priv \<and> pub = x25519_base G priv \<and>
      (\<exists>r. openpgp_state_dec_get (p_o3 p') = Some r \<and> d_pub r = pub \<and> open_wrap G kek r = Inr priv)"
proof -
  obtain y c1 where 1: "tropic_random T PGP_DEC_KEY_LEN c = (y, c1)" by fastforce
  note rd = random_does [OF ok 1]
  have "pgp_does T K I view O3_SLOTS p c p' c' \<and> (\<forall>pub. x = Inr pub \<longrightarrow>
      (\<exists>priv. length priv = 32 \<and> priv = clamp priv \<and> pub = x25519_base G priv \<and>
      (\<exists>r. openpgp_state_dec_get (p_o3 p') = Some r \<and> d_pub r = pub \<and> open_wrap G kek r = Inr priv)))"
  proof (cases y)
    case (Inl e)
    then show ?thesis using run rd(1) by (auto simp: pgp_dec_generate_def 1)
  next
    case (Inr rnd)
    let ?priv = "clamp rnd" and ?pub = "x25519_base G (clamp rnd)"
    have lp: "length ?priv = 32" using rd(2) [OF Inr] by (simp add: PGP_DEC_KEY_LEN_def)
    have lq: "length ?pub = 32" using G by (simp add: pgp_crypto_ok_def)
    obtain so c2 where 2: "seal T G kek ?priv ?pub c1 = (so, c2)" by fastforce
    have o1: "pgp_ok T K I view p c1" by (rule does_ok [OF rd(1)])
    note s = seal_spec [OF o1 G lq lp 2]
    have s2: "pgp_does T K I view O3_SLOTS p c p c2" by (rule does_trans [OF rd(1) s(1)])
    show ?thesis
    proof (cases so)
      case None
      then show ?thesis using run s2 by (auto simp: pgp_dec_generate_def 1 Inr Let_def 2)
    next
      case (Some r)
      note sr = s(2) [OF Some]
      obtain rc p3 c3 where 3: "on_o3 (openpgp_state_dec_set T K r) p c2 = (rc, p3, c3)" by (metis prod_cases3)
      have dr: "on_o3 (o3_run T K (SetDec r)) p c2 = (rc, p3, c3)" using 3 by simp
      have s3: "pgp_does T K I view O3_SLOTS p c p3 c3"
        by (rule does_trans [OF s2 setter_does [OF does_ok [OF s2] conjunct1 [OF sr] dr]])
      have e: "p' = p3" "c' = c3" "x = (if rc = 0 then Inr ?pub else Inl PGP_DEC_ERR)"
        using run by (simp_all add: pgp_dec_generate_def 1 Inr Let_def 2 Some 3)
      have "openpgp_state_dec_get (p_o3 p3) = Some r" if z: "rc = 0"
      proof -
        obtain st where st: "o3_run T K (SetDec r) (p_o3 p) c2 = (0, st, c3)" "p3 = p\<lparr>p_o3 := st\<rparr>"
          using dr z by (auto simp: on_o3_def split: prod.splits)
        note ro = run_ok [OF pgp_okD(6) [OF does_ok [OF s2]] conjunct1 [OF sr] st(1)]
        have us: "pgp_usable st" and cd: "card_of (s_cur st) = card_step (SetDec r) (card_of (s_cur (p_o3 p)))"
          using ro(2) by simp_all
        have "presents st (card_of (s_cur st))" using presents_cur [OF us] cur_facts [OF ro(1) us] by blast
        then show ?thesis using st(2) cd by (simp add: presents_def)
      qed
      moreover have "clamp (clamp rnd) = clamp rnd"
        by (rule clamp_idem) (use lp in simp)
      ultimately show ?thesis using e s3 sr lp by (auto split: if_splits)
    qed
  qed
  then show "pgp_does T K I view O3_SLOTS p c p' c'"
    and "x = Inr pub \<Longrightarrow> \<exists>priv. length priv = 32 \<and> priv = clamp priv \<and> pub = x25519_base G priv \<and>
      (\<exists>r. openpgp_state_dec_get (p_o3 p') = Some r \<and> d_pub r = pub \<and> open_wrap G kek r = Inr priv)"
    by blast+
qed

section \<open>Properties\<close>

text \<open>
  C23. A decryption key that was generated under a KEK works under that KEK: the public key it
  answered is that of a clamped private key, it is the one read back, and every ECDH with
  the KEK answers the secret of that private key and the peer.
\<close>

theorem pgp_dec_roundtrip:
  assumes "pgp_ok T K I view p c" and "pgp_crypto_ok G" and "pgp_dec_generate T K G kek p c = (Inr pub, p', c')"
  shows "pgp_dec_read_pubkey p' = (PGP_DEC_OK, pub) \<and>
    (\<exists>priv. length priv = 32 \<and> priv = clamp priv \<and> pub = x25519_base G priv \<and>
      (\<forall>peer. pgp_dec_ecdh G kek peer p' = (PGP_DEC_OK, x25519 G priv peer)))"
  using dec_generate_spec(2) [OF assms refl] by (auto simp: pgp_dec_read_pubkey_def pgp_dec_ecdh_def)

text \<open>
  Nothing is decrypted before the tag matched: an ECDH that answers 0 has computed, under the
  KEK it was given and over the stored public key, exactly the stored tag; every other
  answer leaves 32 zero bytes.
\<close>

theorem pgp_dec_checked:
  "(fst (pgp_dec_ecdh G kek peer p) = PGP_DEC_OK \<longleftrightarrow>
      (\<exists>r priv. openpgp_state_dec_get (p_o3 p) = Some r \<and>
         gcm_tag G kek (d_nonce r) (aad_of (d_pub r)) (d_ct r) \<noteq> None \<and>
         tag_equal (the (gcm_tag G kek (d_nonce r) (aad_of (d_pub r)) (d_ct r))) (d_tag r) \<and>
         gcm_crypt G kek (d_nonce r) (d_ct r) = Some priv \<and>
         pgp_dec_ecdh G kek peer p = (PGP_DEC_OK, x25519 G priv peer))) \<and>
   (fst (pgp_dec_ecdh G kek peer p) \<noteq> PGP_DEC_OK \<longrightarrow> snd (pgp_dec_ecdh G kek peer p) = replicate 32 0)"
  by (auto simp: pgp_dec_ecdh_def open_wrap_def pgp_dec_codes PGP_DEC_KEY_LEN_def split: option.splits if_splits)

text \<open>A cipher that only tags, to run the model with.\<close>

definition demo_gcm :: pgp_crypto where
  "demo_gcm = \<lparr>gcm_seal = (\<lambda>k n a pt. Some (pt, take 16 (k @ replicate 16 1))), gcm_tag = (\<lambda>k n a ct. Some (take 16 (k @ replicate 16 1))),
     gcm_crypt = (\<lambda>k n d. Some d), x25519_base = (\<lambda>k. take 32 (k @ replicate 32 0)), x25519 = (\<lambda>k u. map2 (+) k u)\<rparr>"

lemma demo_gcm_ok: "pgp_crypto_ok demo_gcm"
  by (auto simp: pgp_crypto_ok_def demo_gcm_def min_def)

lemma clamp_nonzero:
  assumes "length k = 32"
  shows "\<not> all_zero (clamp k)"
proof -
  have "bit (clamp k ! 31) 6" using assms by (simp add: clamp_def bit_simps)
  then have "clamp k ! 31 \<noteq> 0" by auto
  moreover have "clamp k ! 31 \<in> set (clamp k)" using assms by simp
  ultimately show ?thesis by (auto simp: all_zero_iff)
qed

lemma demo_generate:
  obtains p c pub p' c' where "pgp_ok demo_chip demo_crypto mock_inv mock_view p c"
    and "pgp_dec_generate demo_chip demo_crypto demo_gcm (replicate 32 9) p c = (Inr pub, p', c')"
proof -
  obtain s c where ok: "o3_ok demo_chip demo_crypto mock_inv mock_view s c" and u: "pgp_usable s"
    and df: "s_cur s = defaults PGP_LC_OPERATIONAL" and g: "mock_good c" and o: "s_o3 s = O3_START"
    and gen: "gen_of (mock_view c 33) = 1" by (rule demo_card)
  let ?p = "pgp_pin_start\<lparr>p_o3 := s\<rparr>" and ?kek = "replicate 32 9 :: bytes"
  have pok: "pgp_ok demo_chip demo_crypto mock_inv mock_view ?p c"
    using ok o demo_framed by (simp add: pgp_ok_def pgp_pin_start_def O3_START_def PIN_REC_def)
  obtain rnd c1 where 1: "tropic_random demo_chip PGP_DEC_KEY_LEN c = (Inr rnd, c1)" and g1: "mock_good c1"
    using live_dev.dev_random [OF demo_dev g, of PGP_DEC_KEY_LEN] by (auto simp: PGP_DEC_KEY_LEN_def)
  note r1 = random_does [OF pok 1]
  have lr: "length rnd = 32" using r1(2) [OF refl] by (simp add: PGP_DEC_KEY_LEN_def)
  obtain nonce c2 where 2: "tropic_random demo_chip OPENPGP_DEC_NONCE_LEN c1 = (Inr nonce, c2)" and g2: "mock_good c2"
    using live_dev.dev_random [OF demo_dev g1, of OPENPGP_DEC_NONCE_LEN] by (auto simp: OPENPGP_DEC_NONCE_LEN_def)
  note r2 = random_does [OF does_ok [OF r1(1)] 2]
  have ln: "length nonce = 12" using r2(2) [OF refl] by (simp add: OPENPGP_DEC_NONCE_LEN_def)
  let ?r = "\<lparr>d_pub = clamp rnd, d_nonce = nonce, d_ct = clamp rnd, d_tag = replicate 16 9\<rparr>"
  have sl: "seal demo_chip demo_gcm ?kek (clamp rnd) (x25519_base demo_gcm (clamp rnd)) c1 = (Some ?r, c2)"
    using lr by (simp add: seal_def 2 demo_gcm_def)
  have v: "mock_view c2 = mock_view c"
    using framed_chip.random_frame [OF demo_framed _ 1] framed_chip.random_frame [OF demo_framed _ 2] g g1
    by (simp add: mock_good_def)
  have ok2: "o3_ok demo_chip demo_crypto mock_inv mock_view s c2"
    using pgp_okD(6) [OF does_ok [OF r2(1)]] by simp
  have t: "o3_typed (SetDec ?r)" using lr ln by (simp add: o3_layout)
  have k: "card_takes (SetDec ?r) (card_of (s_cur s))" using clamp_nonzero [OF lr] by simp
  have lc: "s_cur s ! OFF_LC = PGP_LC_OPERATIONAL" by (simp add: df defaults_def Let_def o3_layout pgp_lcs)
  obtain s' c' where st: "o3_run demo_chip demo_crypto (SetDec ?r) s c2 = (0, s', c')"
    by (rule live_rmem.run_live [OF demo_chip_live g2 ok2 u _ _ _ lc t k]) (simp_all add: o O3_START_def v gen)
  have "pgp_dec_generate demo_chip demo_crypto demo_gcm ?kek ?p c = (Inr (x25519_base demo_gcm (clamp rnd)), ?p\<lparr>p_o3 := s'\<rparr>, c')"
    using st by (simp add: pgp_dec_generate_def 1 Let_def sl on_o3_def)
  with pok show thesis by (rule that)
qed

theorem pgp_dec_roundtrip_witness:
  "\<exists>p c pub p' c'. pgp_dec_generate demo_chip demo_crypto demo_gcm (replicate 32 9) p c = (Inr pub, p', c') \<and>
     pgp_dec_read_pubkey p' = (PGP_DEC_OK, pub) \<and> fst (pgp_dec_ecdh demo_gcm (replicate 32 9) pub p') = PGP_DEC_OK"
proof -
  obtain p c pub p' c' where ok: "pgp_ok demo_chip demo_crypto mock_inv mock_view p c"
    and g: "pgp_dec_generate demo_chip demo_crypto demo_gcm (replicate 32 9) p c = (Inr pub, p', c')"
    by (rule demo_generate)
  show ?thesis using g pgp_dec_roundtrip [OF ok demo_gcm_ok g] by force
qed

theorem pgp_dec_checked_witness:
  "snd (pgp_dec_ecdh demo_gcm (replicate 32 9) (replicate 32 1) pgp_pin_start) = replicate 32 0"
proof -
  have "fst (pgp_dec_ecdh demo_gcm (replicate 32 9) (replicate 32 1) pgp_pin_start) \<noteq> PGP_DEC_OK"
    by (simp add: pgp_dec_ecdh_def openpgp_state_dec_get_def pgp_usable_def pgp_pin_start_def pgp_start_def pgp_dec_codes)
  then show ?thesis using pgp_dec_checked [of demo_gcm "replicate 32 9" "replicate 32 1" pgp_pin_start] by blast
qed

end
