(* ===== verification/User_Presence.thy ===== *)
theory User_Presence
  imports Prelude "HOL-Library.Sublist"
begin

text \<open>
  The touch button, \<^verbatim>\<open>firmware/src/fido_hid/user_presence.c\<close>: the debouncer that
  SysTick steps every millisecond and the blocking check.  What happens during the check
  (samples, the pump, a cancel) is an explicit list of rounds of its loop.  The lemmas
  relate the debounced level to the sample history, show that only a press of ten
  milliseconds within the wait confirms, and that the check ends.
\<close>

section \<open>The debouncer\<close>

definition DEBOUNCE_THRESHOLD_MS :: u8 where "DEBOUNCE_THRESHOLD_MS = 10"

datatype deb_state = DEB_UP | DEB_GOING_DOWN | DEB_DOWN | DEB_GOING_UP

datatype led = LED_IDLE | LED_HEARTBEAT | LED_AWAITING_TOUCH | LED_CONFIRMED | LED_ERROR

record up =
  s_deb_state :: deb_state
  s_stable_count :: u8
  s_pressed :: bool
  s_awaiting :: bool
  s_cancel :: bool
  s_led :: led

definition up_start :: up where
  "up_start = \<lparr>s_deb_state = DEB_UP, s_stable_count = 0, s_pressed = False, s_awaiting = False,
     s_cancel = False, s_led = LED_IDLE\<rparr>"

definition user_presence_systick_tick :: "bool \<Rightarrow> up \<Rightarrow> up" where
  "user_presence_systick_tick raw s =
     (case s_deb_state s of
        DEB_UP \<Rightarrow> if raw then s\<lparr>s_deb_state := DEB_GOING_DOWN, s_stable_count := 1\<rparr> else s
      | DEB_GOING_DOWN \<Rightarrow>
          if raw then
            let s1 = s\<lparr>s_stable_count := s_stable_count s + 1\<rparr>
            in if s_stable_count s1 \<ge> DEBOUNCE_THRESHOLD_MS then s1\<lparr>s_deb_state := DEB_DOWN, s_pressed := True\<rparr>
               else s1
          else s\<lparr>s_deb_state := DEB_UP, s_stable_count := 0\<rparr>
      | DEB_DOWN \<Rightarrow> if \<not> raw then s\<lparr>s_deb_state := DEB_GOING_UP, s_stable_count := 1\<rparr> else s
      | DEB_GOING_UP \<Rightarrow>
          if \<not> raw then
            let s1 = s\<lparr>s_stable_count := s_stable_count s + 1\<rparr>
            in if s_stable_count s1 \<ge> DEBOUNCE_THRESHOLD_MS then s1\<lparr>s_deb_state := DEB_UP, s_pressed := False\<rparr>
               else s1
          else s\<lparr>s_deb_state := DEB_DOWN, s_stable_count := 0\<rparr>)"

definition user_presence_is_pressed :: "up \<Rightarrow> bool" where
  "user_presence_is_pressed s = s_pressed s"

definition user_presence_is_awaiting :: "up \<Rightarrow> bool" where
  "user_presence_is_awaiting s = s_awaiting s"

definition user_presence_cancel :: "up \<Rightarrow> up" where
  "user_presence_cancel s = s\<lparr>s_cancel := True\<rparr>"

definition user_presence_clear_cancel :: "up \<Rightarrow> up" where
  "user_presence_clear_cancel s = s\<lparr>s_cancel := False\<rparr>"

section \<open>The blocking check\<close>

datatype up_result = UP_OK | UP_FAIL | UP_CANCEL

text \<open>
  What reaches the module while the main loop waits: a SysTick sample, or a cancel that
  the pumped USB callbacks issue.
\<close>

datatype up_event = Sample bool | Cancel

fun up_apply :: "up_event \<Rightarrow> up \<Rightarrow> up" where
  "up_apply (Sample raw) s = user_presence_systick_tick raw s"
| "up_apply Cancel s = user_presence_cancel s"

definition up_applies :: "up_event list \<Rightarrow> up \<Rightarrow> up" where
  "up_applies es s = fold up_apply es s"

text \<open>
  One round: the tick its loop test reads and the events from that test to the tests of
  \<open>s_cancel\<close> and \<open>s_pressed\<close> (the pump), and those of the delay after them.
\<close>

record up_round =
  u_now :: u32
  u_pump :: "up_event list"
  u_delay :: "up_event list"

text \<open>How the loop was left, \<open>None\<close> while it runs.\<close>

datatype wait_end = Timed_Out | Cancelled | Pressed

fun wait_loop :: "u32 \<Rightarrow> u32 \<Rightarrow> up_round list \<Rightarrow> up \<Rightarrow> wait_end option \<times> up" where
  "wait_loop start timeout [] s = (None, s)"
| "wait_loop start timeout (r # rs) s =
     (if \<not> u_now r - start < timeout then (Some Timed_Out, s)
      else let s1 = up_applies (u_pump r) s
           in if s_cancel s1 then (Some Cancelled, s1)
              else if s_pressed s1 then (Some Pressed, s1)
              else wait_loop start timeout rs (up_applies (u_delay r) s1))"

definition user_presence_check :: "u32 \<Rightarrow> u32 \<Rightarrow> up_round list \<Rightarrow> up \<Rightarrow> up_result option \<times> up" where
  "user_presence_check timeout start rounds s =
     (if s_awaiting s then (Some UP_FAIL, s)
      else if s_cancel s then (Some UP_CANCEL, s\<lparr>s_led := LED_ERROR\<rparr>)
      else if s_pressed s then (Some UP_FAIL, s\<lparr>s_led := LED_ERROR\<rparr>)
      else
        case wait_loop start timeout rounds (s\<lparr>s_awaiting := True, s_led := LED_AWAITING_TOUCH\<rparr>) of
          (None, s1) \<Rightarrow> (None, s1)
        | (Some e, s1) \<Rightarrow>
            let s2 = s1\<lparr>s_awaiting := False\<rparr>
            in if e = Pressed then (Some UP_OK, s2\<lparr>s_led := LED_CONFIRMED\<rparr>)
               else if s_cancel s2 then (Some UP_CANCEL, s2\<lparr>s_led := LED_ERROR\<rparr>)
               else (Some UP_FAIL, s2\<lparr>s_led := LED_ERROR\<rparr>))"

section \<open>The debounced level and the samples\<close>

fun samples :: "up_event list \<Rightarrow> bool list" where
  "samples [] = []"
| "samples (Sample b # es) = b # samples es"
| "samples (Cancel # es) = samples es"

lemma samples_append [simp]: "samples (a @ b) = samples a @ samples b"
  by (induction a rule: samples.induct) auto

definition run_of :: "nat \<Rightarrow> bool \<Rightarrow> bool list \<Rightarrow> bool" where
  "run_of n b hs \<longleftrightarrow> suffix (replicate n b) hs"

text \<open>\<open>deb_inv hs s\<close>: \<open>s\<close> is a debouncer state after the samples \<open>hs\<close>.\<close>

definition deb_inv :: "bool list \<Rightarrow> up \<Rightarrow> bool" where
  "deb_inv hs s \<longleftrightarrow>
     (s_pressed s \<longleftrightarrow> s_deb_state s \<in> {DEB_DOWN, DEB_GOING_UP}) \<and>
     (s_deb_state s = DEB_GOING_DOWN \<longrightarrow>
        s_stable_count s < DEBOUNCE_THRESHOLD_MS \<and> run_of (unat (s_stable_count s)) True hs) \<and>
     (s_deb_state s = DEB_GOING_UP \<longrightarrow>
        s_stable_count s < DEBOUNCE_THRESHOLD_MS \<and> run_of (unat (s_stable_count s)) False hs)"

lemma deb_inv_start: "deb_inv [] up_start"
  by (simp add: deb_inv_def up_start_def)

lemma run_of_snoc: "run_of n b hs \<Longrightarrow> run_of (Suc n) b (hs @ [b])"
  by (auto simp: run_of_def suffix_def replicate_append_same simp flip: replicate_Suc)

lemma run_of_one: "run_of (Suc 0) b (hs @ [b])"
  by (simp add: run_of_def suffix_def)

lemma count_step:
  assumes "s_stable_count s < DEBOUNCE_THRESHOLD_MS"
  shows "unat (s_stable_count s + 1) = Suc (unat (s_stable_count s))"
    "DEBOUNCE_THRESHOLD_MS \<le> s_stable_count s + 1 \<Longrightarrow> Suc (unat (s_stable_count s)) = 10"
proof -
  have "unat (s_stable_count s) < 10"
    using assms by (simp add: DEBOUNCE_THRESHOLD_MS_def word_less_nat_alt)
  then show u: "unat (s_stable_count s + 1) = Suc (unat (s_stable_count s))"
    by (simp add: unat_word_ariths)
  show "DEBOUNCE_THRESHOLD_MS \<le> s_stable_count s + 1 \<Longrightarrow> Suc (unat (s_stable_count s)) = 10"
    using \<open>unat (s_stable_count s) < 10\<close> by (simp add: word_le_nat_alt u DEBOUNCE_THRESHOLD_MS_def)
qed

lemma tick_step:
  assumes "deb_inv hs s"
  shows "deb_inv (hs @ [b]) (user_presence_systick_tick b s)"
    "s_pressed (user_presence_systick_tick b s) \<noteq> s_pressed s \<Longrightarrow>
       b \<noteq> s_pressed s \<and> run_of 10 b (hs @ [b])"
proof -
  note t = user_presence_systick_tick_def
  have one: "1 < DEBOUNCE_THRESHOLD_MS" by (simp add: DEBOUNCE_THRESHOLD_MS_def)
  show "deb_inv (hs @ [b]) (user_presence_systick_tick b s)"
    using assms one run_of_snoc [of "unat (s_stable_count s)" _ hs] run_of_one [of _ hs] count_step(1) [of s]
    by (cases "s_deb_state s"; cases b) (auto simp: t deb_inv_def Let_def not_le)
  show "s_pressed (user_presence_systick_tick b s) \<noteq> s_pressed s \<Longrightarrow>
       b \<noteq> s_pressed s \<and> run_of 10 b (hs @ [b])"
    using assms run_of_snoc [of "unat (s_stable_count s)" _ hs] count_step(2) [of s]
    by (cases "s_deb_state s"; cases b) (auto simp: t deb_inv_def Let_def split: if_splits)
qed

lemma tick_keeps [simp]: "s_cancel (user_presence_systick_tick b s) = s_cancel s"
  "s_awaiting (user_presence_systick_tick b s) = s_awaiting s"
  by (simp_all add: user_presence_systick_tick_def Let_def split: deb_state.splits)

lemma deb_inv_cancel [simp]: "deb_inv hs (user_presence_cancel s) \<longleftrightarrow> deb_inv hs s"
  "s_pressed (user_presence_cancel s) = s_pressed s" "s_awaiting (user_presence_cancel s) = s_awaiting s"
  by (simp_all add: deb_inv_def user_presence_cancel_def)

lemma applies_simps [simp]: "up_applies [] s = s"
  "up_applies (e # es) s = up_applies es (up_apply e s)"
  "up_applies (a @ b) s = up_applies b (up_applies a s)"
  by (simp_all add: up_applies_def)

lemma applies_inv:
  assumes "deb_inv hs s"
  shows "deb_inv (hs @ samples es) (up_applies es s)" "s_awaiting (up_applies es s) = s_awaiting s"
  using assms
proof (induction es arbitrary: hs s)
  case (Cons e es)
  { case 1
    then show ?case using Cons.IH(1) [of "hs @ [b]" for b] Cons.IH(1) [of hs] tick_step(1)
      by (cases e) fastforce+ }
  { case 2
    then show ?case using Cons.IH(2) tick_step(1) by (cases e) fastforce+ }
qed simp_all

text \<open>Between two different levels there is a run of ten samples of the new one.\<close>

lemma applies_edge:
  assumes "deb_inv hs s" and "s_pressed (up_applies es s) \<noteq> s_pressed s"
  shows "\<exists>w. prefix w (samples es) \<and> w \<noteq> [] \<and> run_of 10 (\<not> s_pressed s) (hs @ w)"
  using assms
proof (induction es arbitrary: hs s)
  case (Cons e es)
  show ?case
  proof (cases e)
    case (Sample b)
    let ?s = "user_presence_systick_tick b s"
    show ?thesis
    proof (cases "s_pressed ?s = s_pressed s")
      case True
      then obtain w where "prefix w (samples es)" "run_of 10 (\<not> s_pressed s) ((hs @ [b]) @ w)"
        using Cons.IH [OF tick_step(1) [OF Cons.prems(1)], of b] Cons.prems(2) Sample by auto
      then show ?thesis by (intro exI [of _ "b # w"]) (simp add: Sample)
    next
      case False
      from tick_step(2) [OF Cons.prems(1) False] show ?thesis
        by (intro exI [of _ "[b]"]) (auto simp: Sample)
    qed
  next
    case Cancel
    then show ?thesis using Cons.IH [of hs "user_presence_cancel s"] Cons.prems by simp
  qed
qed simp

section \<open>The check\<close>

definition wait_events :: "up_round list \<Rightarrow> up_event list" where
  "wait_events rs = concat (map (\<lambda>r. u_pump r @ u_delay r) rs)"

lemma wait_loop_events:
  "wait_loop start timeout rs s = (Some e, s') \<Longrightarrow>
     \<exists>es. prefix es (wait_events rs) \<and> s' = up_applies es s \<and>
       (e = Pressed \<longrightarrow> s_pressed s' \<and> \<not> s_cancel s') \<and> (e = Cancelled \<longrightarrow> s_cancel s')"
proof (induction rs arbitrary: s)
  case (Cons r rs)
  show ?case
  proof (cases "u_now r - start < timeout \<and> \<not> s_cancel (up_applies (u_pump r) s) \<and> \<not> s_pressed (up_applies (u_pump r) s)")
    case True
    then have "wait_loop start timeout rs (up_applies (u_delay r) (up_applies (u_pump r) s)) = (Some e, s')"
      using Cons.prems by (simp add: Let_def)
    from Cons.IH [OF this] obtain es where
      "prefix es (wait_events rs)" "s' = up_applies es (up_applies (u_delay r) (up_applies (u_pump r) s))"
      "e = Pressed \<longrightarrow> s_pressed s' \<and> \<not> s_cancel s'" "e = Cancelled \<longrightarrow> s_cancel s'" by blast
    then show ?thesis
      by (intro exI [of _ "u_pump r @ u_delay r @ es"]) (simp add: wait_events_def)
  next
    case False
    then consider "e = Timed_Out" "s' = s" | "e \<noteq> Timed_Out" "s' = up_applies (u_pump r) s"
        "e = Pressed \<longrightarrow> s_pressed s' \<and> \<not> s_cancel s'" "e = Cancelled \<longrightarrow> s_cancel s'"
      using Cons.prems by (auto simp: Let_def split: if_splits)
    then show ?thesis
    proof cases
      case 1
      then show ?thesis by (intro exI [of _ "[]"]) simp
    next
      case 2
      then show ?thesis by (intro exI [of _ "u_pump r"]) (simp add: wait_events_def)
    qed
  qed
qed simp

text \<open>What a confirmed check went through.\<close>

lemma check_okD:
  assumes "user_presence_check timeout start rs s = (Some UP_OK, s')"
  obtains es where "\<not> s_awaiting s" "\<not> s_cancel s" "\<not> s_pressed s" "prefix es (wait_events rs)"
    "s' = (up_applies es (s\<lparr>s_awaiting := True, s_led := LED_AWAITING_TOUCH\<rparr>))
       \<lparr>s_awaiting := False, s_led := LED_CONFIRMED\<rparr>"
    "s_pressed s'" "\<not> s_cancel s'"
proof -
  let ?s = "s\<lparr>s_awaiting := True, s_led := LED_AWAITING_TOUCH\<rparr>"
  have pre: "\<not> s_awaiting s" "\<not> s_cancel s" "\<not> s_pressed s"
    using assms by (auto simp: user_presence_check_def split: if_splits)
  obtain w s1 where w: "wait_loop start timeout rs ?s = (w, s1)" by fastforce
  then have wp: "w = Some Pressed" and s': "s' = s1\<lparr>s_awaiting := False, s_led := LED_CONFIRMED\<rparr>"
    using assms pre by (auto simp: user_presence_check_def Let_def split: option.splits if_splits)
  obtain es where "prefix es (wait_events rs)" "s1 = up_applies es ?s" "s_pressed s1" "\<not> s_cancel s1"
    using wait_loop_events [OF w [unfolded wp]] by auto
  then show ?thesis using that pre s' by simp
qed

lemma deb_inv_upd [simp]: "deb_inv hs (s\<lparr>s_awaiting := a\<rparr>) \<longleftrightarrow> deb_inv hs s"
  "deb_inv hs (s\<lparr>s_led := l\<rparr>) \<longleftrightarrow> deb_inv hs s"
  by (simp_all add: deb_inv_def)

lemma samples_prefix: "prefix a b \<Longrightarrow> prefix (samples a) (samples b)"
  by (auto simp: prefix_def)


abbreviation demo_press :: "up_round list" where
  "demo_press \<equiv> [\<lparr>u_now = 5, u_pump = replicate 3 (Sample True), u_delay = [Sample True]\<rparr>,
     \<lparr>u_now = 9, u_pump = replicate 6 (Sample True), u_delay = []\<rparr>]"


text \<open>One press confirms one request: after a confirmation, whatever happens until the next
  check that confirms, the button is seen released in between, by ten LOW samples in a
  row of which the last comes after the first confirmation.
\<close>

theorem up_one_press_one_consent:
  assumes "deb_inv hs s" and "user_presence_check t1 b1 rs1 s = (Some UP_OK, s1)"
    and "user_presence_check t2 b2 rs2 (up_applies es s1) = (Some UP_OK, s2)"
  shows "\<exists>v w. prefix v (samples (wait_events rs1)) \<and> prefix w (samples es) \<and> w \<noteq> [] \<and>
    run_of 10 False (hs @ v @ w)"
proof -
  let ?s = "s\<lparr>s_awaiting := True, s_led := LED_AWAITING_TOUCH\<rparr>"
  obtain es1 where es1: "prefix es1 (wait_events rs1)" "s_pressed s1"
    "s1 = (up_applies es1 ?s)\<lparr>s_awaiting := False, s_led := LED_CONFIRMED\<rparr>"
    by (rule check_okD [OF assms(2)])
  have "deb_inv (hs @ samples es1) (up_applies es1 ?s)" by (rule applies_inv(1)) (use assms(1) in simp)
  then have inv: "deb_inv (hs @ samples es1) s1" by (simp add: es1(3))
  have "\<not> s_pressed (up_applies es s1)" by (rule check_okD [OF assms(3)])
  with applies_edge [OF inv, of es] es1(2) obtain w where
    "prefix w (samples es)" "w \<noteq> []" "run_of 10 False ((hs @ samples es1) @ w)" by auto
  then show ?thesis using samples_prefix [OF es1(1)] by (intro exI [of _ "samples es1"] exI [of _ w]) simp
qed

lemma up_one_press_one_consent_witness:
  "\<exists>v w. prefix v (replicate 10 True) \<and> prefix w (replicate 10 False) \<and> w \<noteq> [] \<and> run_of 10 False (v @ w)"
proof -
  let ?c1 = "user_presence_check 100 5 demo_press up_start"
  let ?es = "replicate 10 (Sample False)"
  have one: "fst ?c1 = Some UP_OK" by code_simp
  have two: "fst (user_presence_check 100 50 [\<lparr>u_now = 60, u_pump = replicate 10 (Sample True), u_delay = []\<rparr>]
      (up_applies ?es (snd ?c1))) = Some UP_OK"
    by code_simp
  have w: "samples (wait_events demo_press) = replicate 10 True" "samples ?es = replicate 10 False"
    by code_simp+
  have "?c1 = (Some UP_OK, snd ?c1)" using one by (metis prod.collapse)
  from up_one_press_one_consent [OF deb_inv_start this] two prod.collapse
  have "\<exists>v w. prefix v (samples (wait_events demo_press)) \<and> prefix w (samples ?es) \<and> w \<noteq> [] \<and>
      run_of 10 False ([] @ v @ w)" by metis
  then show ?thesis unfolding w by simp
qed

text \<open>
  The tick of the \<open>i\<close>-th loop test is at least \<open>i\<close> milliseconds after the start: every round
  delays for a millisecond.
\<close>

definition ticking :: "u32 \<Rightarrow> up_round list \<Rightarrow> bool" where
  "ticking start rs \<longleftrightarrow> (\<forall>i < length rs. i \<le> unat (u_now (rs ! i) - start))"

lemma wait_loop_ends:
  assumes "\<forall>i < length rs. i + k \<le> unat (u_now (rs ! i) - start)" and "unat timeout < length rs + k"
    and "rs = [] \<Longrightarrow> unat timeout < k \<Longrightarrow> False"
  shows "\<exists>e s'. wait_loop start timeout rs s = (Some e, s')"
  using assms
proof (induction rs arbitrary: k s)
  case (Cons r rs)
  show ?case
  proof (cases "unat timeout \<le> k")
    case True
    moreover have "k \<le> unat (u_now r - start)" using Cons.prems(1) by force
    ultimately have "\<not> u_now r - start < timeout" by (simp add: word_less_nat_alt)
    then show ?thesis by simp
  next
    case False
    have "\<exists>e s'. wait_loop start timeout rs s1 = (Some e, s')" for s1
    proof (rule Cons.IH [of "Suc k"])
      show "\<forall>i<length rs. i + Suc k \<le> unat (u_now (rs ! i) - start)"
        using Cons.prems(1) by (metis (no_types) Suc_less_eq add_Suc_shift length_Cons nth_Cons_Suc)
    qed (use Cons.prems(2) False in auto)
    then show ?thesis by (simp add: Let_def)
  qed
qed auto

text \<open>C35.
  The check always comes back: with the delay of a millisecond in every round it returns
  within \<open>timeout_ms + 1\<close> rounds, also across a wrap of the tick counter, with one of its
  three results, and no wait is left behind.  A wait, a cancel or a press that was there
  before refuses at once.
\<close>

theorem up_check_returns:
  assumes "ticking start rs" and "unat timeout < length rs"
  shows "\<exists>r s'. user_presence_check timeout start rs s = (Some r, s') \<and>
    (\<not> s_awaiting s \<longrightarrow> \<not> s_awaiting s') \<and>
    (s_awaiting s \<longrightarrow> r = UP_FAIL \<and> s' = s) \<and>
    (\<not> s_awaiting s \<and> s_cancel s \<longrightarrow> r = UP_CANCEL) \<and>
    (\<not> s_awaiting s \<and> \<not> s_cancel s \<and> s_pressed s \<longrightarrow> r = UP_FAIL)"
proof -
  obtain e s1 where "wait_loop start timeout rs (s\<lparr>s_awaiting := True, s_led := LED_AWAITING_TOUCH\<rparr>) = (Some e, s1)"
    using wait_loop_ends [of rs 0 start timeout] assms by (fastforce simp: ticking_def)
  then show ?thesis by (auto simp: user_presence_check_def Let_def)
qed

lemma up_check_returns_witness:
  "\<exists>r s'. user_presence_check 1 5 [\<lparr>u_now = 5, u_pump = [], u_delay = []\<rparr>, \<lparr>u_now = 6, u_pump = [], u_delay = []\<rparr>]
     up_start = (Some r, s')"
proof -
  let ?rs = "[\<lparr>u_now = 5, u_pump = [], u_delay = []\<rparr>, \<lparr>u_now = 6, u_pump = [], u_delay = []\<rparr>]"
  have "ticking 5 ?rs" by (auto simp: ticking_def nth_Cons split: nat.splits)
  moreover have "unat (1 :: u32) < length ?rs" by simp
  ultimately show ?thesis using up_check_returns [of 5 ?rs 1 up_start] by blast
qed

end
