(* ===== verification/Usb_Events.thy ===== *)
theory Usb_Events
  imports Prelude
begin

text \<open>
  What TinyUSB can call in the CCID class driver while its task runs: from the main loop, and from inside a
  touch wait, which keeps USB alive.
\<close>

text \<open>
  \<open>Usb_Reset\<close> is a bus reset; \<open>Usb_Open\<close> a configuration, with the port, the bytes from the interface
  descriptor on, their number, and what \<open>usbd_edpt_open\<close> answers for each endpoint;
  \<open>Usb_Out\<close> the end of a receive, with its result and bytes; \<open>Usb_In\<close> the end
  of a transmission.
\<close>

datatype usb_event = Usb_Reset | Usb_Open u8 bytes nat "bool list" | Usb_Out bool bytes | Usb_In

end
