(* ===== verification/Openpgp_Applet.thy ===== *)
theory Openpgp_Applet
  imports Op_Monad Pgp_Keys User_Presence Usb_Events
begin

text \<open>
  The OpenPGP card applet, \<^verbatim>\<open>firmware/src/openpgp/openpgp_applet.c\<close>: the session's access status with the
  KEK of the decryption key, the data objects of GET DATA, every command handler and the
  dispatcher.  A handler either gives response data (status 9000), or fails with a status
  word, or is still waiting for a touch.
\<close>

section \<open>Constants\<close>

definition SW_OK :: nat where "SW_OK = 0x9000"
definition SW_WRONG_LENGTH :: nat where "SW_WRONG_LENGTH = 0x6700"
definition SW_SECURITY_NOT_SATISFIED :: nat where "SW_SECURITY_NOT_SATISFIED = 0x6982"
definition SW_AUTH_BLOCKED :: nat where "SW_AUTH_BLOCKED = 0x6983"
definition SW_CONDITIONS_NOT_SATISFIED :: nat where "SW_CONDITIONS_NOT_SATISFIED = 0x6985"
definition SW_INCORRECT_DATA :: nat where "SW_INCORRECT_DATA = 0x6A80"
definition SW_FILE_NOT_FOUND :: nat where "SW_FILE_NOT_FOUND = 0x6A82"
definition SW_INCORRECT_P1P2 :: nat where "SW_INCORRECT_P1P2 = 0x6A86"
definition SW_REF_DATA_NOT_FOUND :: nat where "SW_REF_DATA_NOT_FOUND = 0x6A88"
definition SW_INS_NOT_SUPPORTED :: nat where "SW_INS_NOT_SUPPORTED = 0x6D00"
definition SW_CLA_NOT_SUPPORTED :: nat where "SW_CLA_NOT_SUPPORTED = 0x6E00"
definition SW_UNKNOWN_ERROR :: nat where "SW_UNKNOWN_ERROR = 0x6F00"
definition SW_TERMINATED :: nat where "SW_TERMINATED = 0x6285"

lemmas sws = SW_OK_def SW_WRONG_LENGTH_def SW_SECURITY_NOT_SATISFIED_def SW_AUTH_BLOCKED_def
  SW_CONDITIONS_NOT_SATISFIED_def SW_INCORRECT_DATA_def SW_FILE_NOT_FOUND_def SW_INCORRECT_P1P2_def
  SW_REF_DATA_NOT_FOUND_def SW_INS_NOT_SUPPORTED_def SW_CLA_NOT_SUPPORTED_def SW_UNKNOWN_ERROR_def SW_TERMINATED_def

definition INS_SELECT :: u8 where "INS_SELECT = 0xA4"
definition INS_GET_DATA :: u8 where "INS_GET_DATA = 0xCA"
definition INS_VERIFY :: u8 where "INS_VERIFY = 0x20"
definition INS_CHANGE_REF :: u8 where "INS_CHANGE_REF = 0x24"
definition INS_RESET_RC :: u8 where "INS_RESET_RC = 0x2C"
definition INS_PUT_DATA :: u8 where "INS_PUT_DATA = 0xDA"
definition INS_TERMINATE_DF :: u8 where "INS_TERMINATE_DF = 0xE6"
definition INS_ACTIVATE_FILE :: u8 where "INS_ACTIVATE_FILE = 0x44"
definition INS_GENERATE :: u8 where "INS_GENERATE = 0x47"
definition INS_PSO :: u8 where "INS_PSO = 0x2A"
definition INS_INTERNAL_AUT :: u8 where "INS_INTERNAL_AUT = 0x88"

lemmas inss = INS_SELECT_def INS_GET_DATA_def INS_VERIFY_def INS_CHANGE_REF_def INS_RESET_RC_def INS_PUT_DATA_def
  INS_TERMINATE_DF_def INS_ACTIVATE_FILE_def INS_GENERATE_def INS_PSO_def INS_INTERNAL_AUT_def

definition OPENPGP_AID :: bytes where
  "OPENPGP_AID = [0xD2, 0x76, 0x00, 0x01, 0x24, 0x01, 0x03, 0x04, 0x4E, 0x58, 0x00, 0x00, 0x00, 0x01, 0x00, 0x00]"
definition OPENPGP_AID_PREFIX :: bytes where
  "OPENPGP_AID_PREFIX = [0xD2, 0x76, 0x00, 0x01, 0x24, 0x01]"
definition ALGO_ED25519 :: bytes where
  "ALGO_ED25519 = [0x16, 0x2B, 0x06, 0x01, 0x04, 0x01, 0xDA, 0x47, 0x0F, 0x01]"
definition ALGO_CV25519 :: bytes where
  "ALGO_CV25519 = [0x12, 0x2B, 0x06, 0x01, 0x04, 0x01, 0x97, 0x55, 0x01, 0x05, 0x01]"
definition EXT_CAPS :: bytes where
  "EXT_CAPS = [0x70, 0x00, 0x00, 0x00, 0x00, 0x00, 0x00, 0x00, 0x00, 0x00]"
definition HISTORICAL_BYTES :: bytes where "HISTORICAL_BYTES = [0x00, 0x73, 0x80, 0x90, 0x00]"
definition GEN_FEATURES :: bytes where "GEN_FEATURES = [0x81, 0x01, 0x20]"

definition AUTH_81 :: u8 where "AUTH_81 = 1"
definition AUTH_82 :: u8 where "AUTH_82 = 2"
definition AUTH_83 :: u8 where "AUTH_83 = 4"
definition AUTH_PW1 :: u8 where "AUTH_PW1 = AUTH_81 OR AUTH_82"
definition AUTH_ALL :: u8 where "AUTH_ALL = AUTH_81 OR AUTH_82 OR AUTH_83"

lemmas auths = AUTH_81_def AUTH_82_def AUTH_83_def AUTH_PW1_def AUTH_ALL_def

definition OPENPGP_TOUCH_TIMEOUT_MS :: u32 where "OPENPGP_TOUCH_TIMEOUT_MS = 15000"

section \<open>State\<close>

text \<open>
  The objects of the OpenPGP side, the diagnostics of the key operations, \<open>s_auth\<close> and
  \<open>s_kek\<close>, the touch button with its oracle (what each wait sees), what USB did during each wait,
  and the chip.
\<close>

record 'c applet =
  ap_pgp :: pgp
  ap_diag :: key_diag
  s_auth :: u8
  s_kek :: bytes
  ap_up :: up
  ap_touch :: "nat \<Rightarrow> u32 \<times> up_round list"
  ap_touches :: nat
  ap_usb :: "nat \<Rightarrow> usb_event list"
  ap_chip :: 'c

type_synonym ('c, 'a) ap_op = "('c applet, 'a) st_op"

abbreviation ap_o3 :: "'c applet \<Rightarrow> pgp_state" where "ap_o3 s \<equiv> p_o3 (ap_pgp s)"

definition auth_drop :: "u8 \<Rightarrow> 'c applet \<Rightarrow> 'c applet" where
  "auth_drop m s =
     (let a = s_auth s AND NOT m in
      s\<lparr>s_auth := a, s_kek := (if a AND AUTH_PW1 = 0 then replicate 32 0 else s_kek s)\<rparr>)"

definition openpgp_applet_card_reset :: "'c applet \<Rightarrow> 'c applet" where
  "openpgp_applet_card_reset = auth_drop AUTH_ALL"

definition on_pgp :: "(pgp \<Rightarrow> 'c \<Rightarrow> 'a \<times> pgp \<times> 'c) \<Rightarrow> ('c, 'a) ap_op" where
  "on_pgp f s = (case f (ap_pgp s) (ap_chip s) of (x, p, c) \<Rightarrow> (Val x, s\<lparr>ap_pgp := p, ap_chip := c\<rparr>))"

definition on_key :: "('c \<Rightarrow> 'a \<times> 'c) \<Rightarrow> ('c, 'a) ap_op" where
  "on_key f s = (case f (ap_chip s) of (x, c) \<Rightarrow> (Val x, s\<lparr>ap_chip := c\<rparr>))"

definition on_new_key :: "(key_diag \<Rightarrow> 'c \<Rightarrow> 'a \<times> key_diag \<times> 'c) \<Rightarrow> ('c, 'a) ap_op" where
  "on_new_key f s = (case f (ap_diag s) (ap_chip s) of (x, g, c) \<Rightarrow> (Val x, s\<lparr>ap_diag := g, ap_chip := c\<rparr>))"

definition pin_status :: "'c tropic \<Rightarrow> crypto \<Rightarrow> nat \<Rightarrow> ('c, pgp_pin_state \<times> nat \<times> nat) ap_op" where
  "pin_status T K which = on_pgp (\<lambda>p c. case pgp_pin_status T K which p c of (st, a, l, p1, c1) \<Rightarrow> ((st, a, l), p1, c1))"

text \<open>A bus reset during the wait has already reset the card when the wait returns.\<close>

definition touch_wait :: "u32 \<Rightarrow> ('c, up_result) ap_op" where
  "touch_wait timeout s =
     (case ap_touch s (ap_touches s) of (start, rs) \<Rightarrow>
      case user_presence_check timeout start rs (ap_up s) of (r, u) \<Rightarrow>
        (case r of None \<Rightarrow> Waits | Some x \<Rightarrow> Val x,
         (if Usb_Reset \<in> set (ap_usb s (ap_touches s)) then openpgp_applet_card_reset else id)
           (s\<lparr>ap_up := u, ap_touches := Suc (ap_touches s)\<rparr>)))"

section \<open>Emitting\<close>

text \<open>The status word after the response data, or alone when there is no room for both.\<close>

definition emit_sw :: "nat \<Rightarrow> nat \<Rightarrow> bytes \<Rightarrow> bytes option" where
  "emit_sw mx sw out =
     (if mx < 2 then None
      else Some ((if length out + 2 > mx then [] else out) @ [of_nat (sw div 256), of_nat sw]))"

definition emit_tag :: "nat \<Rightarrow> nat \<Rightarrow> bytes \<Rightarrow> bytes option" where
  "emit_tag mx tg out =
     (if tg < 0x100 then (if length out + 1 > mx then None else Some (out @ [of_nat tg]))
      else if length out + 2 > mx then None else Some (out @ [of_nat (tg div 256), of_nat tg]))"

text \<open>The BER length bytes of \<open>emit_len\<close> and of \<open>emit_constructed\<close>.\<close>

definition ber_len :: "nat \<Rightarrow> bytes" where
  "ber_len n = (if n < 0x80 then [of_nat n] else if n \<le> 0xFF then [0x81, of_nat n]
     else [0x82, of_nat (n div 256), of_nat n])"

definition emit_len :: "nat \<Rightarrow> nat \<Rightarrow> bytes \<Rightarrow> bytes option" where
  "emit_len mx n out = (if length out + length (ber_len n) > mx then None else Some (out @ ber_len n))"

definition emit_tlv :: "nat \<Rightarrow> nat \<Rightarrow> bytes \<Rightarrow> bytes \<Rightarrow> bytes option" where
  "emit_tlv mx tg v out =
     (case emit_tag mx tg out of None \<Rightarrow> None
      | Some o1 \<Rightarrow> (case emit_len mx (length v) o1 of None \<Rightarrow> None
      | Some o2 \<Rightarrow> if length o2 + length v > mx then None else Some (o2 @ v)))"

text \<open>No room is the status 6700 in every caller.\<close>

definition room :: "bytes option \<Rightarrow> ('c, bytes) ap_op" where
  "room r = (case r of None \<Rightarrow> op_fail SW_WRONG_LENGTH | Some b \<Rightarrow> op_ret b)"

definition op_tlv :: "nat \<Rightarrow> nat \<Rightarrow> bytes \<Rightarrow> bytes \<Rightarrow> ('c, bytes) ap_op" where
  "op_tlv mx tg v out = room (emit_tlv mx tg v out)"

text \<open>Three bytes reserved for the length, which the content is moved down over.\<close>

definition emit_constructed ::
  "nat \<Rightarrow> nat \<Rightarrow> (bytes \<Rightarrow> ('c, bytes) ap_op) \<Rightarrow> bytes \<Rightarrow> ('c, bytes) ap_op" where
  "emit_constructed mx tg builder out =
     op_bind (room (emit_tag mx tg out)) (\<lambda>o1.
     op_bind (op_unless (length o1 + 3 > mx) SW_WRONG_LENGTH) (\<lambda>_.
     op_bind (builder (o1 @ replicate 3 0)) (\<lambda>o2.
       let content = drop (length o1 + 3) o2 in op_ret (o1 @ ber_len (length content) @ content))))"

section \<open>Data objects\<close>

definition pin_attempts :: "'c tropic \<Rightarrow> crypto \<Rightarrow> nat \<Rightarrow> ('c, u8) ap_op" where
  "pin_attempts T K which = op_bind (pin_status T K which) (\<lambda>(_, att, _). op_ret (of_nat att))"

definition build_pw_status :: "'c tropic \<Rightarrow> crypto \<Rightarrow> ('c, bytes) ap_op" where
  "build_pw_status T K =
     op_bind (op_get (\<lambda>s. openpgp_state_c4_multi (ap_o3 s))) (\<lambda>m.
     op_bind (pin_attempts T K OPENPGP_PIN_PW1) (\<lambda>a1.
     op_bind (pin_attempts T K OPENPGP_PIN_RC) (\<lambda>ar.
     op_bind (pin_attempts T K OPENPGP_PIN_PW3) (\<lambda>a3.
       let mx = of_nat OPENPGP_PIN_MAX_LEN in op_ret [m, mx, mx, mx, a1, ar, a3]))))"

definition build_fingerprints :: "pgp_state \<Rightarrow> bytes" where
  "build_fingerprints s = openpgp_state_fingerprint 0 s @ openpgp_state_fingerprint 1 s @ openpgp_state_fingerprint 2 s"

definition build_gentimes :: "pgp_state \<Rightarrow> bytes" where
  "build_gentimes s = openpgp_state_gentime 0 s @ openpgp_state_gentime 1 s @ openpgp_state_gentime 2 s"

definition build_do_65 :: "nat \<Rightarrow> bytes \<Rightarrow> ('c, bytes) ap_op" where
  "build_do_65 mx out =
     op_bind (op_get ap_o3) (\<lambda>st.
     op_bind (op_tlv mx 0x005B (openpgp_state_name st) out) (\<lambda>o1.
     op_bind (op_tlv mx 0x5F2D (openpgp_state_lang st) o1) (\<lambda>o2.
       op_tlv mx 0x5F35 [openpgp_state_sex st] o2)))"

definition build_do_73 :: "'c tropic \<Rightarrow> crypto \<Rightarrow> nat \<Rightarrow> bytes \<Rightarrow> ('c, bytes) ap_op" where
  "build_do_73 T K mx out =
     op_bind (op_tlv mx 0x00C0 EXT_CAPS out) (\<lambda>o1.
     op_bind (op_tlv mx 0x00C1 ALGO_ED25519 o1) (\<lambda>o2.
     op_bind (op_tlv mx 0x00C2 ALGO_CV25519 o2) (\<lambda>o3.
     op_bind (op_tlv mx 0x00C3 ALGO_ED25519 o3) (\<lambda>o4.
     op_bind (build_pw_status T K) (\<lambda>pw.
     op_bind (op_tlv mx 0x00C4 pw o4) (\<lambda>o5.
     op_bind (op_get (\<lambda>s. build_fingerprints (ap_o3 s))) (\<lambda>fprs.
     op_bind (op_tlv mx 0x00C5 fprs o5) (\<lambda>o6.
     op_bind (op_tlv mx 0x00C6 (replicate 60 0) o6) (\<lambda>o7.
     op_bind (op_get (\<lambda>s. build_gentimes (ap_o3 s))) (\<lambda>times.
       op_tlv mx 0x00CD times o7))))))))))"

definition build_do_6e :: "'c tropic \<Rightarrow> crypto \<Rightarrow> nat \<Rightarrow> bytes \<Rightarrow> ('c, bytes) ap_op" where
  "build_do_6e T K mx out =
     op_bind (op_tlv mx 0x004F OPENPGP_AID out) (\<lambda>o1.
     op_bind (op_tlv mx 0x5F52 HISTORICAL_BYTES o1) (\<lambda>o2.
     op_bind (op_tlv mx 0x7F74 GEN_FEATURES o2) (\<lambda>o3.
       emit_constructed mx 0x0073 (build_do_73 T K mx) o3)))"

definition build_do_7a :: "nat \<Rightarrow> bytes \<Rightarrow> ('c, bytes) ap_op" where
  "build_do_7a mx out = op_bind (op_get ap_o3) (\<lambda>st. op_tlv mx 0x0093 (openpgp_state_sig_counter st) out)"

text \<open>A primitive object: its value, if it fits.\<close>

definition raw_do :: "nat \<Rightarrow> bytes \<Rightarrow> ('c, bytes) ap_op" where
  "raw_do mx v = (if length v > mx then op_fail SW_WRONG_LENGTH else op_ret v)"

definition state_do :: "nat \<Rightarrow> (pgp_state \<Rightarrow> bytes) \<Rightarrow> ('c, bytes) ap_op" where
  "state_do mx f = op_bind (op_get ap_o3) (\<lambda>st. raw_do mx (f st))"

definition handle_get_data :: "'c tropic \<Rightarrow> crypto \<Rightarrow> nat \<Rightarrow> nat \<Rightarrow> ('c, bytes) ap_op" where
  "handle_get_data T K mx tg =
     (if tg = 0x004F then raw_do mx OPENPGP_AID
      else if tg = 0x005E \<or> tg = 0x5F50 then op_ret []
      else if tg = 0x5F52 then raw_do mx HISTORICAL_BYTES
      else if tg = 0x0065 then emit_constructed mx 0x0065 (build_do_65 mx) []
      else if tg = 0x006E then emit_constructed mx 0x006E (build_do_6e T K mx) []
      else if tg = 0x007A then emit_constructed mx 0x007A (build_do_7a mx) []
      else if tg = 0x7F74 then raw_do mx GEN_FEATURES
      else if tg = 0x00C0 then raw_do mx EXT_CAPS
      else if tg = 0x00C1 \<or> tg = 0x00C3 then raw_do mx ALGO_ED25519
      else if tg = 0x00C2 then raw_do mx ALGO_CV25519
      else if tg = 0x00C4 then op_bind (build_pw_status T K) (raw_do mx)
      else if tg = 0x00C5 then state_do mx build_fingerprints
      else if tg = 0x00C6 then raw_do mx (replicate 60 0)
      else if tg = 0x00C7 \<or> tg = 0x00C8 \<or> tg = 0x00C9 then state_do mx (openpgp_state_fingerprint (int tg - 0x00C7))
      else if tg = 0x00CD then state_do mx build_gentimes
      else if tg = 0x00CE \<or> tg = 0x00CF \<or> tg = 0x00D0 then state_do mx (openpgp_state_gentime (int tg - 0x00CE))
      else if tg = 0x0093 then state_do mx openpgp_state_sig_counter
      else if tg = 0x005B then state_do mx openpgp_state_name
      else if tg = 0x5F2D then state_do mx openpgp_state_lang
      else if tg = 0x5F35 then state_do mx (\<lambda>st. [openpgp_state_sex st])
      else if tg = 0x00D6 \<or> tg = 0x00D7 \<or> tg = 0x00D8 then state_do mx (\<lambda>st. [openpgp_state_uif st, 0x20])
      else op_fail SW_REF_DATA_NOT_FOUND)"

section \<open>The access status\<close>

definition auth_grant :: "crypto \<Rightarrow> u8 \<Rightarrow> bytes \<Rightarrow> 'c applet \<Rightarrow> 'c applet" where
  "auth_grant K flag k s =
     s\<lparr>s_kek := (if flag AND AUTH_PW1 \<noteq> 0 then pgp_dec_kek K k else s_kek s), s_auth := s_auth s OR flag\<rparr>"

definition op_upd :: "('c applet \<Rightarrow> 'c applet) \<Rightarrow> ('c, unit) ap_op" where
  "op_upd f s = (Val (), f s)"

definition openpgp_applet_test_kek_zero :: "'c applet \<Rightarrow> bool" where
  "openpgp_applet_test_kek_zero s \<longleftrightarrow> all_zero (s_kek s)"

definition auth_flag :: "u8 \<Rightarrow> u8" where
  "auth_flag p2 = (if p2 = 0x81 then AUTH_81 else if p2 = 0x82 then AUTH_82 else if p2 = 0x83 then AUTH_83 else 0)"

definition pin_of :: "u8 \<Rightarrow> nat" where
  "pin_of flag = (if flag = AUTH_83 then OPENPGP_PIN_PW3 else OPENPGP_PIN_PW1)"

definition flags_of :: "nat \<Rightarrow> u8" where
  "flags_of which = (if which = OPENPGP_PIN_PW1 then AUTH_81 OR AUTH_82 else if which = OPENPGP_PIN_PW3 then AUTH_83 else 0)"

definition has_auth :: "u8 \<Rightarrow> 'c applet \<Rightarrow> bool" where
  "has_auth flag s \<longleftrightarrow> s_auth s AND flag \<noteq> 0"

definition retries_sw :: "'c tropic \<Rightarrow> crypto \<Rightarrow> nat \<Rightarrow> ('c, nat) ap_op" where
  "retries_sw T K which = op_bind (pin_attempts T K which) (\<lambda>a. op_ret (0x63C0 + unat (a AND 0x0F)))"

definition pin_sw :: "'c tropic \<Rightarrow> crypto \<Rightarrow> int \<Rightarrow> nat \<Rightarrow> ('c, nat) ap_op" where
  "pin_sw T K rc which =
     (if rc = PGP_PIN_OK then op_ret SW_OK
      else if rc = PGP_PIN_WRONG then retries_sw T K which
      else if rc = PGP_PIN_BLK then op_ret SW_AUTH_BLOCKED
      else if rc = PGP_PIN_UNSET then op_ret SW_CONDITIONS_NOT_SATISFIED
      else if rc = PGP_PIN_BAD_LEN then op_ret SW_WRONG_LENGTH
      else op_ret SW_UNKNOWN_ERROR)"

text \<open>A status word without response data.\<close>

definition sw_only :: "nat \<Rightarrow> ('c, bytes) ap_op" where
  "sw_only sw = (if sw = SW_OK then op_ret [] else op_fail sw)"

definition pin_answer :: "'c tropic \<Rightarrow> crypto \<Rightarrow> int \<Rightarrow> nat \<Rightarrow> ('c, bytes) ap_op" where
  "pin_answer T K rc which = op_bind (pin_sw T K rc which) sw_only"

text \<open>A condition of the state that a handler tests.\<close>

definition need :: "('c applet \<Rightarrow> bool) \<Rightarrow> nat \<Rightarrow> ('c, unit) ap_op" where
  "need P sw = op_bind (op_get P) (\<lambda>b. op_unless (\<not> b) sw)"

section \<open>PIN commands\<close>

definition verify_pin :: "'c tropic \<Rightarrow> crypto \<Rightarrow> nat \<Rightarrow> bytes \<Rightarrow> ('c, int \<times> bytes) ap_op" where
  "verify_pin T K which pin =
     on_pgp (\<lambda>p c. case pgp_pin_verify T K which pin p c of (rc, k, p1, c1) \<Rightarrow> ((rc, k), p1, c1))"

definition handle_verify :: "'c tropic \<Rightarrow> crypto \<Rightarrow> u8 \<Rightarrow> u8 \<Rightarrow> bytes \<Rightarrow> ('c, bytes) ap_op" where
  "handle_verify T K p1 p2 body =
     (let flag = auth_flag p2; which = pin_of flag in
      op_bind (op_unless (flag = 0 \<or> (p1 \<noteq> 0x00 \<and> p1 \<noteq> 0xFF)) SW_INCORRECT_P1P2) (\<lambda>_.
      if p1 = 0xFF then
        op_bind (op_unless (body \<noteq> []) SW_WRONG_LENGTH) (\<lambda>_.
        op_bind (op_upd (auth_drop flag)) (\<lambda>_. sw_only SW_OK))
      else if body = [] then
        op_bind (op_get (has_auth flag)) (\<lambda>v. if v then sw_only SW_OK else op_bind (retries_sw T K which) sw_only)
      else
        op_bind (verify_pin T K which body) (\<lambda>(rc, k).
        op_bind (op_upd (if rc = PGP_PIN_OK then auth_grant K flag k else auth_drop (flags_of which))) (\<lambda>_.
          pin_answer T K rc which))))"

definition handle_change_ref :: "'c tropic \<Rightarrow> crypto \<Rightarrow> u8 \<Rightarrow> u8 \<Rightarrow> bytes \<Rightarrow> ('c, bytes) ap_op" where
  "handle_change_ref T K p1 p2 body =
     (let flag = auth_flag p2; which = pin_of flag in
      op_bind (op_unless (p1 \<noteq> 0x00 \<or> (flag \<noteq> AUTH_81 \<and> flag \<noteq> AUTH_83)) SW_INCORRECT_P1P2) (\<lambda>_.
      op_bind (pin_status T K which) (\<lambda>(st, _, old_len).
      op_bind (op_unless (st = PGP_PIN_BLOCKED) SW_AUTH_BLOCKED) (\<lambda>_.
      op_bind (op_unless (st \<noteq> PGP_PIN_ACTIVE) SW_UNKNOWN_ERROR) (\<lambda>_.
      op_bind (op_unless (body = [] \<or> length body \<le> old_len) SW_WRONG_LENGTH) (\<lambda>_.
      op_bind (op_upd (auth_drop (flags_of which))) (\<lambda>_.
      op_bind (on_pgp (pgp_pin_change T K which (take old_len body) (drop old_len body))) (\<lambda>rc.
        pin_answer T K rc which))))))))"

text \<open>Where the new PW1 starts: after the Resetting Code, or at the start for an administrator.\<close>

definition reset_rc_split :: "'c tropic \<Rightarrow> crypto \<Rightarrow> u8 \<Rightarrow> bytes \<Rightarrow> ('c, nat) ap_op" where
  "reset_rc_split T K p1 body =
     (if p1 = 0x00 then
        op_bind (pin_status T K OPENPGP_PIN_RC) (\<lambda>(st, _, rc_len).
        op_bind (op_unless (st = PGP_PIN_NOT_SET) SW_CONDITIONS_NOT_SATISFIED) (\<lambda>_.
        op_bind (op_unless (st = PGP_PIN_BLOCKED) SW_AUTH_BLOCKED) (\<lambda>_.
        op_bind (op_unless (st \<noteq> PGP_PIN_ACTIVE) SW_UNKNOWN_ERROR) (\<lambda>_.
        op_bind (op_unless (body = [] \<or> length body < rc_len + OPENPGP_PW1_MIN_LEN
            \<or> length body - rc_len > OPENPGP_PIN_MAX_LEN) SW_WRONG_LENGTH) (\<lambda>_. op_ret rc_len)))))
      else op_bind (need (has_auth AUTH_83) SW_SECURITY_NOT_SATISFIED) (\<lambda>_. op_ret 0))"

text \<open>Go on after \<open>PGP_PIN_OK\<close>, otherwise answer for this PIN.\<close>

definition pin_must :: "'c tropic \<Rightarrow> crypto \<Rightarrow> int \<Rightarrow> nat \<Rightarrow> ('c, unit) ap_op" where
  "pin_must T K rc which = (if rc = PGP_PIN_OK then op_ret () else op_bind (pin_sw T K rc which) op_fail)"

definition handle_reset_rc :: "'c tropic \<Rightarrow> crypto \<Rightarrow> u8 \<Rightarrow> u8 \<Rightarrow> bytes \<Rightarrow> ('c, bytes) ap_op" where
  "handle_reset_rc T K p1 p2 body =
     op_bind (op_unless (p2 \<noteq> 0x81 \<or> (p1 \<noteq> 0x00 \<and> p1 \<noteq> 0x02)) SW_INCORRECT_P1P2) (\<lambda>_.
     op_bind (reset_rc_split T K p1 body) (\<lambda>rc_len.
       let pw1 = drop rc_len body in
       op_bind (on_pgp (pgp_pin_reset_pw1_check T K pw1)) (\<lambda>r1.
       op_bind (pin_must T K r1 OPENPGP_PIN_PW1) (\<lambda>_.
       op_bind (if p1 = 0x00 then op_bind (verify_pin T K OPENPGP_PIN_RC (take rc_len body))
                  (\<lambda>(r2, _). pin_must T K r2 OPENPGP_PIN_RC) else op_ret ()) (\<lambda>_.
       op_bind (op_upd (auth_drop AUTH_PW1)) (\<lambda>_.
       op_bind (on_pgp (on_o3 (openpgp_state_dec_destroy T K))) (\<lambda>r3.
       op_bind (op_unless (r3 \<noteq> 0) SW_UNKNOWN_ERROR) (\<lambda>_.
       op_bind (on_pgp (pgp_pin_reset_pw1 T K pw1)) (\<lambda>r4. pin_answer T K r4 OPENPGP_PIN_PW1)))))))))"

section \<open>PUT DATA\<close>

definition put_o3 :: "(pgp_state \<Rightarrow> 'c \<Rightarrow> int \<times> pgp_state \<times> 'c) \<Rightarrow> ('c, bytes) ap_op" where
  "put_o3 f = op_bind (on_pgp (on_o3 f)) (\<lambda>rc. sw_only (if rc = 0 then SW_OK else SW_UNKNOWN_ERROR))"

definition put_object :: "'c tropic \<Rightarrow> crypto \<Rightarrow> nat \<Rightarrow> bytes \<Rightarrow> ('c, bytes) ap_op" where
  "put_object T K tg body =
     (if tg = 0x005B then
        op_bind (op_unless (length body > OPENPGP_NAME_MAX) SW_WRONG_LENGTH) (\<lambda>_. put_o3 (openpgp_state_set_name T K body))
      else if tg = 0x5F2D then
        op_bind (op_unless (length body \<noteq> OPENPGP_LANG_LEN) SW_WRONG_LENGTH) (\<lambda>_. put_o3 (openpgp_state_set_lang T K body))
      else if tg = 0x5F35 then
        op_bind (op_unless (length body \<noteq> 1) SW_WRONG_LENGTH) (\<lambda>_.
        op_bind (op_unless (body ! 0 \<noteq> 0x31 \<and> body ! 0 \<noteq> 0x32 \<and> body ! 0 \<noteq> 0x39) SW_INCORRECT_DATA) (\<lambda>_.
          put_o3 (openpgp_state_set_sex T K (body ! 0))))
      else if tg = 0x00C4 then
        op_bind (op_unless (body = []) SW_WRONG_LENGTH) (\<lambda>_.
        op_bind (op_unless (body ! 0 > 1) SW_INCORRECT_DATA) (\<lambda>_.
          put_o3 (openpgp_state_set_c4_multi T K (body ! 0))))
      else if tg = 0x00D3 then
        op_bind (on_pgp (pgp_pin_set_rc T K body)) (\<lambda>rc. pin_answer T K rc OPENPGP_PIN_RC)
      else if tg = 0x00D6 \<or> tg = 0x00D7 \<or> tg = 0x00D8 then
        op_bind (op_unless (body = []) SW_WRONG_LENGTH) (\<lambda>_.
        op_bind (op_unless (body ! 0 > 2) SW_INCORRECT_DATA) (\<lambda>_.
        op_bind (on_pgp (on_o3 (openpgp_state_set_uif T K (body ! 0)))) (\<lambda>rc.
          if rc = - 3 then op_fail SW_CONDITIONS_NOT_SATISFIED
          else sw_only (if rc = 0 then SW_OK else SW_UNKNOWN_ERROR))))
      else if tg = 0x00C7 \<or> tg = 0x00C8 \<or> tg = 0x00C9 then
        op_bind (op_unless (length body \<noteq> OPENPGP_FPR_LEN) SW_WRONG_LENGTH) (\<lambda>_.
          put_o3 (openpgp_state_set_fingerprint T K (int tg - 0x00C7) body))
      else if tg = 0x00CE \<or> tg = 0x00CF \<or> tg = 0x00D0 then
        op_bind (op_unless (length body \<noteq> OPENPGP_GENTIME_LEN) SW_WRONG_LENGTH) (\<lambda>_.
          put_o3 (openpgp_state_set_gentime T K (int tg - 0x00CE) body))
      else op_fail SW_REF_DATA_NOT_FOUND)"

definition handle_put_data :: "'c tropic \<Rightarrow> crypto \<Rightarrow> nat \<Rightarrow> bytes \<Rightarrow> ('c, bytes) ap_op" where
  "handle_put_data T K tg body =
     op_bind (need (has_auth AUTH_83) SW_SECURITY_NOT_SATISFIED) (\<lambda>_. put_object T K tg body)"

section \<open>Keys\<close>

text \<open>What the results of the key operations answer.\<close>

definition key_result :: "int + bytes \<Rightarrow> ('c, bytes) ap_op" where
  "key_result r = (case r of Inr b \<Rightarrow> op_ret b
     | Inl rc \<Rightarrow> op_fail (if rc = PGP_KEYS_NO_KEY then SW_REF_DATA_NOT_FOUND else SW_UNKNOWN_ERROR))"

definition build_pubkey_response :: "nat \<Rightarrow> bytes \<Rightarrow> bytes option" where
  "build_pubkey_response mx pub =
     (if 37 > mx then None else Some ([0x7F, 0x49, 0x22, 0x86, of_nat PGP_KEYS_PUBKEY_LEN] @ pub))"

definition dec_read :: "('c, int + bytes) ap_op" where
  "dec_read = op_bind (op_get (\<lambda>s. pgp_dec_read_pubkey (ap_pgp s)))
     (\<lambda>(rc, pub). op_ret (if rc = PGP_DEC_OK then Inr pub else Inl rc))"

definition dec_generate :: "'c tropic \<Rightarrow> crypto \<Rightarrow> pgp_crypto \<Rightarrow> ('c, int + bytes) ap_op" where
  "dec_generate T K G =
     op_bind (need (has_auth AUTH_PW1) SW_SECURITY_NOT_SATISFIED) (\<lambda>_.
     op_bind (op_get s_kek) (\<lambda>kek.
     op_bind (on_pgp (pgp_dec_generate T K G kek)) (\<lambda>r.
     op_bind (case r of Inl _ \<Rightarrow> op_upd (auth_drop AUTH_PW1) | Inr _ \<Rightarrow> op_ret ()) (\<lambda>_. op_ret r))))"

definition handle_generate ::
  "'c tropic \<Rightarrow> crypto \<Rightarrow> pgp_crypto \<Rightarrow> nat \<Rightarrow> u8 \<Rightarrow> u8 \<Rightarrow> bytes \<Rightarrow> ('c, bytes) ap_op" where
  "handle_generate T K G mx p1 p2 body =
     op_bind (op_unless (p2 \<noteq> 0x00) SW_INCORRECT_P1P2) (\<lambda>_.
     op_bind (op_unless (p1 \<noteq> 0x80 \<and> p1 \<noteq> 0x81) SW_INCORRECT_P1P2) (\<lambda>_.
     let generate = (p1 = 0x80) in
     op_bind (op_unless (length body < 2) SW_WRONG_LENGTH) (\<lambda>_.
     let crt_tag = body ! 0 in
     op_bind (need (\<lambda>s. generate \<longrightarrow> has_auth AUTH_83 s) SW_SECURITY_NOT_SATISFIED) (\<lambda>_.
     op_bind (if crt_tag = 0xB6 then if generate then on_new_key (pgp_keys_generate_sig T) else on_key (pgp_keys_read_sig_pubkey T)
              else if crt_tag = 0xB8 then if generate then dec_generate T K G else dec_read
              else if crt_tag = 0xA4 then if generate then on_new_key (pgp_keys_generate_aut T) else on_key (pgp_keys_read_aut_pubkey T)
              else op_fail SW_REF_DATA_NOT_FOUND) (\<lambda>r.
     op_bind (key_result r) (\<lambda>pub. room (build_pubkey_response mx pub)))))))"

text \<open>A BER length at an offset inside the body, and the offset after it.\<close>

definition ber_len_at :: "bytes \<Rightarrow> nat \<Rightarrow> (nat \<times> nat) option" where
  "ber_len_at body off =
     (if body ! off < 0x80 then Some (unat (body ! off), off + 1)
      else if body ! off = 0x81 then
        (if length body < off + 2 then None else Some (unat (body ! (off + 1)), off + 2))
      else if body ! off = 0x82 then
        (if length body < off + 3 then None
         else Some (unat (body ! (off + 1)) * 256 + unat (body ! (off + 2)), off + 3))
      else None)"

definition parse_pso_dec_body :: "bytes \<Rightarrow> bytes option" where
  "parse_pso_dec_body body =
     (if length body < 5 \<or> body ! 0 \<noteq> 0xA6 then None
      else case ber_len_at body 1 of None \<Rightarrow> None | Some (a6_len, off) \<Rightarrow>
      if off + a6_len > length body then None
      else if off + 2 > length body then None
      else if body ! off \<noteq> 0x7F \<or> body ! (off + 1) \<noteq> 0x49 then None
      else if off + 2 \<ge> length body then None
      else case ber_len_at body (off + 2) of None \<Rightarrow> None | Some (inner_len, off2) \<Rightarrow>
      if off2 + inner_len > length body then None
      else if off2 + 2 > length body then None
      else if body ! off2 \<noteq> 0x86 then None
      else if body ! (off2 + 1) \<noteq> 0x20 then None
      else if off2 + 2 + 32 > length body then None
      else Some (take 32 (drop (off2 + 2) body)))"

definition require_touch_if_enabled :: "('c, bool) ap_op" where
  "require_touch_if_enabled =
     op_bind (op_get (\<lambda>s. openpgp_state_uif (ap_o3 s))) (\<lambda>uif.
     if uif = 0 then op_ret True
     else op_bind (touch_wait OPENPGP_TOUCH_TIMEOUT_MS) (\<lambda>r. op_ret (r = UP_OK)))"

definition touch_gate :: "('c, unit) ap_op" where
  "touch_gate = op_bind require_touch_if_enabled (\<lambda>ok. op_unless (\<not> ok) SW_SECURITY_NOT_SATISFIED)"

text \<open>PSO:DECIPHER.\<close>

definition pso_dec :: "pgp_crypto \<Rightarrow> nat \<Rightarrow> bytes \<Rightarrow> ('c, bytes) ap_op" where
  "pso_dec G mx body =
     op_bind (need (has_auth AUTH_82) SW_SECURITY_NOT_SATISFIED) (\<lambda>_.
     op_bind touch_gate (\<lambda>_.
     case parse_pso_dec_body body of None \<Rightarrow> op_fail SW_WRONG_LENGTH
     | Some peer \<Rightarrow>
         op_bind (op_get (\<lambda>s. pgp_dec_ecdh G (s_kek s) peer (ap_pgp s))) (\<lambda>(rc, shared).
         op_bind (op_unless (rc = PGP_DEC_NO_KEY) SW_REF_DATA_NOT_FOUND) (\<lambda>_.
         if rc \<noteq> PGP_DEC_OK then op_bind (op_upd (auth_drop AUTH_PW1)) (\<lambda>_. op_fail SW_UNKNOWN_ERROR)
         else op_bind (op_unless (mx < PGP_KEYS_PUBKEY_LEN + 2) SW_WRONG_LENGTH) (\<lambda>_. op_ret shared)))))"

text \<open>PSO:COMPUTE DIGITAL SIGNATURE.\<close>

definition pso_cds :: "'c tropic \<Rightarrow> crypto \<Rightarrow> nat \<Rightarrow> bytes \<Rightarrow> ('c, bytes) ap_op" where
  "pso_cds T K mx body =
     op_bind (need (has_auth AUTH_81) SW_SECURITY_NOT_SATISFIED) (\<lambda>_.
     op_bind (op_upd (\<lambda>s. if openpgp_state_c4_multi (ap_o3 s) = 0 then auth_drop AUTH_81 s else s)) (\<lambda>_.
     op_bind touch_gate (\<lambda>_.
     op_bind (op_unless (body = []) SW_WRONG_LENGTH) (\<lambda>_.
     op_bind (on_pgp (on_o3 (openpgp_state_sig_counter_increment T K))) (\<lambda>rc.
     op_bind (op_unless (rc \<noteq> 0) SW_UNKNOWN_ERROR) (\<lambda>_.
     op_bind (on_key (pgp_keys_sign_with_sig T body)) (\<lambda>r.
     op_bind (key_result r) (\<lambda>sig.
     op_bind (op_unless (mx < PGP_KEYS_SIG_LEN + 2) SW_WRONG_LENGTH) (\<lambda>_. op_ret sig)))))))))"

definition handle_pso :: "'c tropic \<Rightarrow> crypto \<Rightarrow> pgp_crypto \<Rightarrow> nat \<Rightarrow> u8 \<Rightarrow> u8 \<Rightarrow> bytes \<Rightarrow> ('c, bytes) ap_op" where
  "handle_pso T K G mx p1 p2 body =
     (if p1 = 0x80 \<and> p2 = 0x86 then pso_dec G mx body
      else if p1 \<noteq> 0x9E \<or> p2 \<noteq> 0x9A then op_fail SW_INCORRECT_P1P2
      else pso_cds T K mx body)"

definition handle_internal_auth :: "'c tropic \<Rightarrow> nat \<Rightarrow> u8 \<Rightarrow> u8 \<Rightarrow> bytes \<Rightarrow> ('c, bytes) ap_op" where
  "handle_internal_auth T mx p1 p2 body =
     op_bind (op_unless (p1 \<noteq> 0x00 \<or> p2 \<noteq> 0x00) SW_INCORRECT_P1P2) (\<lambda>_.
     op_bind (need (has_auth AUTH_82) SW_SECURITY_NOT_SATISFIED) (\<lambda>_.
     op_bind touch_gate (\<lambda>_.
     op_bind (op_unless (body = []) SW_WRONG_LENGTH) (\<lambda>_.
     op_bind (on_key (pgp_keys_sign_with_aut T body)) (\<lambda>r.
     op_bind (key_result r) (\<lambda>sig.
     op_bind (op_unless (mx < PGP_KEYS_SIG_LEN + 2) SW_WRONG_LENGTH) (\<lambda>_. op_ret sig)))))))"

section \<open>Life cycle and selection\<close>

definition handle_terminate_df :: "'c tropic \<Rightarrow> crypto \<Rightarrow> u8 \<Rightarrow> u8 \<Rightarrow> ('c, bytes) ap_op" where
  "handle_terminate_df T K p1 p2 =
     op_bind (op_unless (p1 \<noteq> 0x00 \<or> p2 \<noteq> 0x00) SW_INCORRECT_P1P2) (\<lambda>_.
     op_bind (pin_status T K OPENPGP_PIN_PW3) (\<lambda>(pw3, _, _).
     op_bind (need (\<lambda>s. has_auth AUTH_83 s \<or> pw3 = PGP_PIN_BLOCKED \<or> pw3 = PGP_PIN_ERROR) SW_SECURITY_NOT_SATISFIED) (\<lambda>_.
     op_bind (op_upd (auth_drop AUTH_ALL)) (\<lambda>_.
     op_bind (on_pgp (pgp_lifecycle_terminate T K)) (\<lambda>rc. sw_only (if rc = 0 then SW_OK else SW_UNKNOWN_ERROR))))))"

definition handle_activate_file :: "'c tropic \<Rightarrow> crypto \<Rightarrow> u8 \<Rightarrow> u8 \<Rightarrow> ('c, bytes) ap_op" where
  "handle_activate_file T K p1 p2 =
     op_bind (op_unless (p1 \<noteq> 0x00 \<or> p2 \<noteq> 0x00) SW_INCORRECT_P1P2) (\<lambda>_.
     op_bind (op_get (\<lambda>s. openpgp_state_lifecycle (ap_o3 s))) (\<lambda>lc.
     if lc = PGP_LC_OPERATIONAL then sw_only SW_OK
     else op_bind (op_upd (auth_drop AUTH_ALL)) (\<lambda>_.
       op_bind (on_pgp (pgp_lifecycle_activate T K)) (\<lambda>rc.
         sw_only (if rc = 0 then SW_OK else if rc = - 1 then SW_CONDITIONS_NOT_SATISFIED else SW_UNKNOWN_ERROR)))))"

definition handle_select :: "u8 \<Rightarrow> u8 \<Rightarrow> bytes \<Rightarrow> ('c, bytes) ap_op" where
  "handle_select p1 p2 aid =
     op_bind (op_unless (p1 \<noteq> 0x04 \<or> p2 \<noteq> 0x00) SW_INCORRECT_P1P2) (\<lambda>_.
     if aid = OPENPGP_AID \<or> (length aid \<ge> length OPENPGP_AID_PREFIX \<and> take (length OPENPGP_AID_PREFIX) aid = OPENPGP_AID_PREFIX)
     then op_ret []
     else op_bind (op_upd (auth_drop AUTH_ALL)) (\<lambda>_. op_fail SW_FILE_NOT_FOUND))"

section \<open>The dispatcher\<close>

text \<open>The command data after \<open>Lc\<close>; \<open>Le\<close> is ignored.\<close>

definition apdu_body :: "bytes \<Rightarrow> nat + bytes" where
  "apdu_body inp =
     (if length inp > 4 then
        let lc = unat (inp ! 4) in
        if length inp < 5 + lc then if length inp = 5 then Inr [] else Inl SW_WRONG_LENGTH
        else if lc = 0 \<and> length inp > 5 then Inl SW_WRONG_LENGTH
        else Inr (take lc (drop 5 inp))
      else Inr [])"

text \<open>What the life cycle refuses.\<close>

definition lifecycle_refuses :: "u8 \<Rightarrow> u8 \<Rightarrow> u8 \<Rightarrow> nat option" where
  "lifecycle_refuses lc ins p2 =
     (if lc = PGP_LC_OPERATIONAL then None
      else if lc = PGP_LC_TERMINATED then
        if ins \<noteq> INS_SELECT \<and> ins \<noteq> INS_ACTIVATE_FILE then Some SW_TERMINATED else None
      else if ins \<noteq> INS_SELECT \<and> ins \<noteq> INS_TERMINATE_DF \<and> \<not> (ins = INS_VERIFY \<and> p2 = 0x83)
        then Some SW_UNKNOWN_ERROR else None)"

definition handle_ins ::
  "'c tropic \<Rightarrow> crypto \<Rightarrow> pgp_crypto \<Rightarrow> nat \<Rightarrow> u8 \<Rightarrow> u8 \<Rightarrow> u8 \<Rightarrow> bytes \<Rightarrow> ('c, bytes) ap_op" where
  "handle_ins T K G mx ins p1 p2 body =
     (let tg = unat p1 * 256 + unat p2 in
      if ins = INS_SELECT then handle_select p1 p2 body
      else if ins = INS_GET_DATA then handle_get_data T K mx tg
      else if ins = INS_VERIFY then handle_verify T K p1 p2 body
      else if ins = INS_CHANGE_REF then handle_change_ref T K p1 p2 body
      else if ins = INS_RESET_RC then handle_reset_rc T K p1 p2 body
      else if ins = INS_PUT_DATA then handle_put_data T K tg body
      else if ins = INS_TERMINATE_DF then handle_terminate_df T K p1 p2
      else if ins = INS_ACTIVATE_FILE then handle_activate_file T K p1 p2
      else if ins = INS_GENERATE then handle_generate T K G mx p1 p2 body
      else if ins = INS_PSO then handle_pso T K G mx p1 p2 body
      else if ins = INS_INTERNAL_AUT then handle_internal_auth T mx p1 p2 body
      else op_fail SW_INS_NOT_SUPPORTED)"

text \<open>A card that was not read yet is read before any command.\<close>

definition ensure_card :: "'c tropic \<Rightarrow> crypto \<Rightarrow> ('c, unit) ap_op" where
  "ensure_card T K = on_pgp (\<lambda>p c. ((), pgp_lifecycle_ensure T K p c))"

definition openpgp_command :: "'c tropic \<Rightarrow> crypto \<Rightarrow> pgp_crypto \<Rightarrow> nat \<Rightarrow> bytes \<Rightarrow> ('c, bytes) ap_op" where
  "openpgp_command T K G mx inp =
     (if length inp < 4 then op_fail SW_WRONG_LENGTH
      else let cla = inp ! 0; ins = inp ! 1; p1 = inp ! 2; p2 = inp ! 3 in
      if cla \<noteq> 0x00 \<and> cla \<noteq> 0x10 then op_fail SW_CLA_NOT_SUPPORTED
      else case apdu_body inp of Inl sw \<Rightarrow> op_fail sw
      | Inr body \<Rightarrow>
          op_bind (ensure_card T K) (\<lambda>_.
          op_bind (op_get (\<lambda>s. openpgp_state_lifecycle (ap_o3 s))) (\<lambda>lc.
          case lifecycle_refuses lc ins p2 of Some sw \<Rightarrow> op_fail sw
          | None \<Rightarrow> handle_ins T K G mx ins p1 p2 body)))"

text \<open>The answer: \<open>Some None\<close> is the return value \<open>- 1\<close>, \<open>None\<close> a card still waiting for a touch.\<close>

definition answer :: "nat \<Rightarrow> bytes res \<Rightarrow> bytes option option" where
  "answer mx r = (case r of Val out \<Rightarrow> Some (emit_sw mx SW_OK out) | Fail sw \<Rightarrow> Some (emit_sw mx sw []) | Waits \<Rightarrow> None)"

definition openpgp_applet_dispatch ::
  "'c tropic \<Rightarrow> crypto \<Rightarrow> pgp_crypto \<Rightarrow> nat \<Rightarrow> bytes \<Rightarrow> 'c applet \<Rightarrow> bytes option option \<times> 'c applet" where
  "openpgp_applet_dispatch T K G mx inp s =
     (case openpgp_command T K G mx inp s of (r, s1) \<Rightarrow> (answer mx r, s1))"

end
