(* ===== verification/Openpgp_Access.thy ===== *)
theory Openpgp_Access
  imports Openpgp_Applet
begin

text \<open>
  What the OpenPGP commands can do to the access status, to the KEK and to the chip.  One relation
  between the states before and after a command, \<open>calm\<close>, holds of every command but VERIFY:
  no access is gained, the KEK is kept or wiped, and of the records only those of the OpenPGP
  objects change.  VERIFY is added by hand.
\<close>

section \<open>A calculus for calm commands\<close>

text \<open>The pair of the card state, and the pairs of the three PINs.\<close>

definition OPENPGP_SLOTS :: "nat set" where "OPENPGP_SLOTS = {33, 43} \<union> {50..55}"

definition kek_ok :: "'c applet \<Rightarrow> bool" where
  "kek_ok s \<longleftrightarrow> (s_auth s AND AUTH_PW1 = 0 \<longrightarrow> s_kek s = replicate 32 0)"

definition stays ::
  "'c tropic \<Rightarrow> crypto \<Rightarrow> ('c \<Rightarrow> bool) \<Rightarrow> ('c \<Rightarrow> nat \<Rightarrow> bytes) \<Rightarrow> 'c applet \<Rightarrow> 'c applet \<Rightarrow> bool" where
  "stays T K I view s s' \<longleftrightarrow> (kek_ok s \<longrightarrow> kek_ok s') \<and>
     (pgp_ok T K I view (ap_pgp s) (ap_chip s) \<longrightarrow>
        pgp_does T K I view OPENPGP_SLOTS (ap_pgp s) (ap_chip s) (ap_pgp s') (ap_chip s'))"

definition gains :: "'c applet \<Rightarrow> 'c applet \<Rightarrow> u8" where
  "gains s s' = s_auth s' AND NOT (s_auth s)"

definition calm ::
  "'c tropic \<Rightarrow> crypto \<Rightarrow> ('c \<Rightarrow> bool) \<Rightarrow> ('c \<Rightarrow> nat \<Rightarrow> bytes) \<Rightarrow> 'c applet \<Rightarrow> 'c applet \<Rightarrow> bool" where
  "calm T K I view s s' \<longleftrightarrow> stays T K I view s s' \<and> gains s s' = 0 \<and> (s_kek s' = s_kek s \<or> all_zero (s_kek s'))"

lemma zeros_zero [simp]: "all_zero (replicate n 0)"
  by (induction n) (simp_all add: all_zero_def)

lemma stays_trans: "stays T K I view s s1 \<Longrightarrow> stays T K I view s1 s2 \<Longrightarrow> stays T K I view s s2"
  unfolding stays_def by (blast intro: does_trans dest: does_ok)

lemma stays_refl: "stays T K I view s s"
  by (simp add: stays_def does_refl)

lemma gains_trans: "gains s s1 = 0 \<Longrightarrow> gains s1 s2 = 0 \<Longrightarrow> gains s s2 = 0"
  unfolding gains_def bit_eq_iff bit_simps by blast

lemma gains_le: "gains s s' = 0 \<Longrightarrow> s_auth s AND m = 0 \<Longrightarrow> s_auth s' AND m = 0"
  unfolding gains_def bit_eq_iff bit_simps by blast

lemma calm_transp: "transp (calm T K I view)"
  by (rule transpI) (auto simp: calm_def intro: stays_trans gains_trans)

lemma calm_reflp: "reflp (calm T K I view)"
  by (rule reflpI) (simp add: calm_def stays_refl gains_def)

lemma calm_chip:
  assumes "pgp_ok T K I view (ap_pgp s) (ap_chip s) \<Longrightarrow>
      pgp_does T K I view OPENPGP_SLOTS (ap_pgp s) (ap_chip s) (ap_pgp s') (ap_chip s')"
    and "s_auth s' = s_auth s" and "s_kek s' = s_kek s"
  shows "calm T K I view s s'"
  using assms by (simp add: calm_def stays_def kek_ok_def gains_def)

lemma calm_drop: "calm T K I view s (auth_drop m s)"
proof -
  have "gains s (auth_drop m s) = 0"
    unfolding gains_def bit_eq_iff by (simp add: auth_drop_def Let_def bit_simps)
  then show ?thesis
    by (auto simp: calm_def stays_def kek_ok_def auth_drop_def Let_def does_refl)
qed

named_theorems calm_intros \<open>commands that are calm\<close>

lemmas [calm_intros] = keeps_bind [OF calm_transp] keeps_pure [OF calm_reflp]

lemma calm_cases [calm_intros]:
  "(b \<Longrightarrow> keeps R m) \<Longrightarrow> (\<not> b \<Longrightarrow> keeps R m') \<Longrightarrow> keeps R (if b then m else m')"
  "(\<And>x y. keeps R (k x y)) \<Longrightarrow> keeps R (case v of (x, y) \<Rightarrow> k x y)"
  "(\<And>x. keeps R (g x)) \<Longrightarrow> keeps R h \<Longrightarrow> keeps R (case y of None \<Rightarrow> h | Some x \<Rightarrow> g x)"
  "(\<And>x. keeps R (f x)) \<Longrightarrow> (\<And>x. keeps R (g' x)) \<Longrightarrow> keeps R (case z of Inl x \<Rightarrow> f x | Inr x \<Rightarrow> g' x)"
  by (simp_all split: option.split sum.split prod.split)

lemma calm_upd [calm_intros]: "keeps (calm T K I view) (op_upd (auth_drop m))"
  by (simp add: keeps_def op_upd_def calm_drop)

lemma calm_on_pgp:
  fixes T :: "'c tropic"
  assumes "\<And>p c x p' c'. pgp_ok T K I view p c \<Longrightarrow> f p c = (x, p', c') \<Longrightarrow> pgp_does T K I view OPENPGP_SLOTS p c p' c'"
  shows "keeps (calm T K I view) (on_pgp f)"
  unfolding keeps_def
proof
  fix s :: "'c applet"
  obtain x p c where f: "f (ap_pgp s) (ap_chip s) = (x, p, c)" by (metis prod_cases3)
  show "calm T K I view s (snd (on_pgp f s))"
    by (rule calm_chip) (simp_all add: on_pgp_def f assms)
qed

lemma calm_on_key:
  fixes T :: "'c tropic"
  assumes "\<And>p c x c'. pgp_ok T K I view p c \<Longrightarrow> f c = (x, c') \<Longrightarrow> pgp_does T K I view OPENPGP_SLOTS p c p c'"
  shows "keeps (calm T K I view) (on_key f)"
  unfolding keeps_def
proof
  fix s :: "'c applet"
  obtain x c where f: "f (ap_chip s) = (x, c)" by fastforce
  show "calm T K I view s (snd (on_key f s))"
    by (rule calm_chip) (simp_all add: on_key_def f, rule assms [OF _ f])
qed

lemma calm_on_new_key:
  fixes T :: "'c tropic"
  assumes "\<And>p g c x g' c'. pgp_ok T K I view p c \<Longrightarrow> f g c = (x, g', c') \<Longrightarrow> pgp_does T K I view OPENPGP_SLOTS p c p c'"
  shows "keeps (calm T K I view) (on_new_key f)"
  unfolding keeps_def
proof
  fix s :: "'c applet"
  obtain x g c where f: "f (ap_diag s) (ap_chip s) = (x, g, c)" by (metis prod_cases3)
  show "calm T K I view s (snd (on_new_key f s))"
    by (rule calm_chip) (simp_all add: on_new_key_def f, rule assms [OF _ f])
qed

lemma calm_touch [calm_intros]:
  fixes T :: "'c tropic"
  shows "keeps (calm T K I view) (touch_wait t)"
  unfolding keeps_def
proof
  fix s :: "'c applet"
  obtain start rs where a: "ap_touch s (ap_touches s) = (start, rs)" by fastforce
  obtain r u where b: "user_presence_check t start rs (ap_up s) = (r, u)" by fastforce
  let ?s1 = "s\<lparr>ap_up := u, ap_touches := Suc (ap_touches s)\<rparr>"
  have "calm T K I view s ?s1" by (rule calm_chip) (simp_all add: does_refl)
  moreover from this have "calm T K I view s (auth_drop AUTH_ALL ?s1)" by (rule transpD [OF calm_transp _ calm_drop])
  ultimately show "calm T K I view s (snd (touch_wait t s))" by (simp add: touch_wait_def a b openpgp_applet_card_reset_def)
qed

section \<open>The operations they call\<close>

lemma calm_pins [calm_intros]:
  "keeps (calm T K I view) (pin_status T K w)" "keeps (calm T K I view) (verify_pin T K w pin)"
  "keeps (calm T K I view) (on_pgp (pgp_pin_change T K w' old new))"
  "keeps (calm T K I view) (on_pgp (pgp_pin_reset_pw1_check T K pin))"
  "keeps (calm T K I view) (on_pgp (pgp_pin_reset_pw1 T K pin))"
  "keeps (calm T K I view) (on_pgp (pgp_pin_set_rc T K pin))"
proof -
  have w: "pin_slots x \<subseteq> OPENPGP_SLOTS" if "x \<le> 2" for x using that by (auto simp: OPENPGP_SLOTS_def)
  note m = does_mono [OF _ w]
  have st: "pgp_does T K I view OPENPGP_SLOTS p c p' c'"
    if "pgp_ok T K I view p c" "pgp_pin_status T K x p c = (a, b, d, p', c')" for x p c a b d p' c'
  proof (cases "x \<le> 2")
    case True
    show ?thesis by (rule m [OF status_does(1) [OF that] True])
  next
    case False
    then have "\<not> pin_which_ok x" by (simp add: pin_which_ok_def pgp_pins)
    then show ?thesis using that(2) does_refl [OF that(1)] by (simp add: pgp_pin_status_def)
  qed
  have ve: "pgp_does T K I view OPENPGP_SLOTS p c p' c'"
    if "pgp_ok T K I view p c" "pgp_pin_verify T K x pin p c = (a, b, p', c')" for x pin p c a b p' c'
  proof (cases "x \<le> 2")
    case True
    show ?thesis by (rule m [OF verify_does(1) [OF that] True])
  next
    case False
    then have "\<not> pin_which_ok x" by (simp add: pin_which_ok_def pgp_pins)
    then show ?thesis using that(2) does_refl [OF that(1)] by (simp add: pgp_pin_verify_def Let_def)
  qed
  have ch: "pgp_does T K I view OPENPGP_SLOTS p c p' c'"
    if "pgp_ok T K I view p c" "pgp_pin_change T K x old new p c = (a, p', c')" for x p c a p' c'
  proof (cases "x = OPENPGP_PIN_PW1 \<or> x = OPENPGP_PIN_PW3")
    case True
    then show ?thesis by (intro m [OF change_does(1) [OF that]]) (auto simp: pgp_pins)
  next
    case False
    then show ?thesis using that(2) does_refl [OF that(1)] by (simp add: pgp_pin_change_def)
  qed
  show "keeps (calm T K I view) (pin_status T K w)" unfolding pin_status_def
    by (rule calm_on_pgp) (auto split: prod.splits intro: st)
  show "keeps (calm T K I view) (verify_pin T K w pin)" unfolding verify_pin_def
    by (rule calm_on_pgp) (auto split: prod.splits intro: ve)
  show "keeps (calm T K I view) (on_pgp (pgp_pin_change T K w' old new))"
    by (rule calm_on_pgp) (rule ch)
  show "keeps (calm T K I view) (on_pgp (pgp_pin_reset_pw1_check T K pin))"
    by (rule calm_on_pgp) (auto simp: pgp_pin_reset_pw1_check_def does_refl split: if_splits prod.splits intro: st)
  have bd: "pgp_does T K I view OPENPGP_SLOTS p c p' c'"
    if "pgp_ok T K I view p c" "bind_pin T K OPENPGP_PIN_PW1 pin p c = (a, p', c')" for p c a p' c'
    by (rule m [OF bind_does(1) [OF that(1) _ that(2)]]) (simp_all add: pgp_pins)
  show "keeps (calm T K I view) (on_pgp (pgp_pin_reset_pw1 T K pin))"
    by (rule calm_on_pgp) (auto simp: pgp_pin_reset_pw1_def does_refl split: if_splits intro: bd)
  show "keeps (calm T K I view) (on_pgp (pgp_pin_set_rc T K pin))"
    by (rule calm_on_pgp, rule does_mono [OF set_rc_does]) (auto simp: OPENPGP_SLOTS_def)
qed

lemma calm_o3:
  assumes "o3_typed cmd"
  shows "keeps (calm T K I view) (on_pgp (on_o3 (o3_run T K cmd)))"
  by (rule calm_on_pgp, rule does_mono [OF setter_does [OF _ assms]]) (auto simp: OPENPGP_SLOTS_def)

lemmas calm_setters [calm_intros] =
  calm_o3 [of "SetC4 v" for v, simplified] calm_o3 [of "SetUif v" for v, simplified]
  calm_o3 [of "SetName v" for v, simplified] calm_o3 [of "SetLang v" for v, simplified]
  calm_o3 [of "SetSex v" for v, simplified] calm_o3 [of "SetFpr k v" for k v, simplified]
  calm_o3 [of "SetGentime k v" for k v, simplified] calm_o3 [of CountSignature, simplified]
  calm_o3 [of DestroyDec, simplified]

lemmas life_does = terminate_does(1) [folded OPENPGP_SLOTS_def] activate_does(1) [folded OPENPGP_SLOTS_def]
  ensure_does [folded OPENPGP_SLOTS_def]

lemma calm_lifecycle [calm_intros]:
  "keeps (calm T K I view) (on_pgp (pgp_lifecycle_terminate T K))"
  "keeps (calm T K I view) (on_pgp (pgp_lifecycle_activate T K))"
  "keeps (calm T K I view) (ensure_card T K)"
  unfolding ensure_card_def
  by (rule calm_on_pgp, erule (1) life_does)+
     (rule calm_on_pgp, clarsimp, erule (1) life_does)

lemma calm_keys [calm_intros]:
  "keeps (calm T K I view) (on_new_key (pgp_keys_generate_sig T))"
  "keeps (calm T K I view) (on_new_key (pgp_keys_generate_aut T))"
  "keeps (calm T K I view) (on_key (pgp_keys_read_sig_pubkey T))"
  "keeps (calm T K I view) (on_key (pgp_keys_read_aut_pubkey T))"
  "keeps (calm T K I view) (on_key (pgp_keys_sign_with_sig T msg))"
  "keeps (calm T K I view) (on_key (pgp_keys_sign_with_aut T msg))"
  by (rule calm_on_new_key calm_on_key, erule (1) keys_ops_frame)+

lemma calm_dec [calm_intros]:
  assumes "pgp_crypto_ok G"
  shows "keeps (calm T K I view) (on_pgp (pgp_dec_generate T K G kek))"
  by (rule calm_on_pgp, rule does_mono [OF dec_generate_spec(1) [OF _ assms]]) (auto simp: OPENPGP_SLOTS_def)

section \<open>The handlers\<close>

lemma unless_bind: "op_bind (op_unless b e) f = (if b then op_fail e else f ())"
  by (simp add: op_unless_def op_bind_def op_fail_def op_ret_def fun_eq_iff)

lemma calm_status [calm_intros]:
  "keeps (calm T K I view) (pin_attempts T K w)" "keeps (calm T K I view) (retries_sw T K w)"
  "keeps (calm T K I view) (pin_sw T K rc w)" "keeps (calm T K I view) (sw_only sw)"
  "keeps (calm T K I view) (pin_answer T K rc w)" "keeps (calm T K I view) (pin_must T K rc w)"
  "keeps (calm T K I view) (need P sw)" "keeps (calm T K I view) (room x)" "keeps (calm T K I view) (key_result r)"
  "keeps (calm T K I view) (op_tlv mx tg v out)" "keeps (calm T K I view) (raw_do mx v)"
  "keeps (calm T K I view) (state_do mx g)" "keeps (calm T K I view) touch_gate"
  unfolding touch_gate_def require_touch_if_enabled_def pin_attempts_def retries_sw_def pin_sw_def sw_only_def
    pin_answer_def pin_must_def need_def room_def key_result_def op_tlv_def raw_do_def state_do_def
  by (intro calm_intros)+

lemma calm_constructed [calm_intros]:
  "(\<And>out. keeps (calm T K I view) (b out)) \<Longrightarrow> keeps (calm T K I view) (emit_constructed mx tg b out)"
  unfolding emit_constructed_def Let_def by (intro calm_intros)

lemma calm_get_data [calm_intros]: "keeps (calm T K I view) (handle_get_data T K mx tg)"
  unfolding handle_get_data_def build_pw_status_def build_do_65_def build_do_73_def build_do_6e_def build_do_7a_def Let_def
  by (intro calm_intros)

lemma calm_put_data [calm_intros]: "keeps (calm T K I view) (handle_put_data T K tg body)"
  unfolding handle_put_data_def put_object_def put_o3_def unless_bind
  by (intro calm_intros) simp_all

lemma calm_change_reset [calm_intros]:
  "keeps (calm T K I view) (handle_change_ref T K p1 p2 body)" "keeps (calm T K I view) (handle_reset_rc T K p1 p2 body)"
  unfolding handle_change_ref_def handle_reset_rc_def reset_rc_split_def Let_def by (intro calm_intros)+

lemma calm_generate [calm_intros]:
  assumes "pgp_crypto_ok G"
  shows "keeps (calm T K I view) (handle_generate T K G mx p1 p2 body)"
  unfolding handle_generate_def dec_generate_def dec_read_def Let_def by (intro calm_intros assms)

lemma calm_sign [calm_intros]:
  "keeps (calm T K I view) (handle_pso T K G mx p1 p2 body)" "keeps (calm T K I view) (handle_internal_auth T mx p1 p2 body)"
proof -
  have u: "keeps (calm T K I view) (op_upd (\<lambda>s. if b s then auth_drop AUTH_81 s else s))" for b
    using calm_drop reflpD [OF calm_reflp] by (auto simp: keeps_def op_upd_def)
  show "keeps (calm T K I view) (handle_pso T K G mx p1 p2 body)" "keeps (calm T K I view) (handle_internal_auth T mx p1 p2 body)"
    unfolding handle_pso_def pso_dec_def pso_cds_def handle_internal_auth_def by (intro calm_intros u)+
qed

lemma calm_life [calm_intros]:
  "keeps (calm T K I view) (handle_terminate_df T K p1 p2)" "keeps (calm T K I view) (handle_activate_file T K p1 p2)"
  "keeps (calm T K I view) (handle_select p1 p2 body)"
  unfolding handle_terminate_df_def handle_activate_file_def handle_select_def by (intro calm_intros)+

lemma calm_ins:
  assumes "pgp_crypto_ok G" and "ins \<noteq> INS_VERIFY"
  shows "keeps (calm T K I view) (handle_ins T K G mx ins p1 p2 body)"
  using assms(2) unfolding handle_ins_def Let_def
  by (simp only: if_False simp_thms) (intro calm_intros assms(1))

text \<open>VERIFY: what it gains, it gains for the right PIN.\<close>

definition pin_was_right ::
  "'c tropic \<Rightarrow> crypto \<Rightarrow> u8 \<Rightarrow> u8 \<Rightarrow> bytes \<Rightarrow> 'c applet \<Rightarrow> 'c applet \<Rightarrow> bool" where
  "pin_was_right T K p1 p2 body s s' \<longleftrightarrow> p1 = 0 \<and> body \<noteq> [] \<and> auth_flag p2 \<noteq> 0 \<and>
     s_auth s' = s_auth s OR auth_flag p2 \<and>
     (case pgp_pin_verify T K (pin_of (auth_flag p2)) body (ap_pgp s) (ap_chip s) of (rc, k, _, _) \<Rightarrow>
        rc = PGP_PIN_OK \<and> (auth_flag p2 AND AUTH_PW1 \<noteq> 0 \<longrightarrow> s_kek s' = pgp_dec_kek K k))"

lemma auth_flag_cases: "auth_flag p2 \<noteq> 0 \<Longrightarrow> auth_flag p2 \<in> {AUTH_81, AUTH_82, AUTH_83}"
  by (auto simp: auth_flag_def split: if_splits)

lemma grant_kek: "kek_ok s \<Longrightarrow> flag \<in> {AUTH_81, AUTH_82, AUTH_83} \<Longrightarrow> kek_ok (auth_grant K flag k s)"
  by (auto simp: kek_ok_def auth_grant_def auths bit_eq_iff bit_simps)

lemma verify_gains:
  assumes run: "handle_verify T K p1 p2 body s = (r, s')"
  shows "calm T K I view s s' \<or> stays T K I view s s' \<and> pin_was_right T K p1 p2 body s s'"
proof -
  let ?f = "auth_flag p2" and ?w = "pin_of (auth_flag p2)"
  obtain rc k p c where v: "pgp_pin_verify T K ?w body (ap_pgp s) (ap_chip s) = (rc, k, p, c)" by (metis prod_cases4)
  let ?s1 = "s\<lparr>ap_pgp := p, ap_chip := c\<rparr>"
  have vp: "verify_pin T K ?w body s = (Val (rc, k), ?s1)" by (simp add: verify_pin_def on_pgp_def v)
  have c1: "calm T K I view s ?s1" by (rule keepsD [OF calm_pins(2) vp])
  consider "?f = 0 \<or> (p1 \<noteq> 0x00 \<and> p1 \<noteq> 0xFF)" | "?f \<noteq> 0" "p1 = 0xFF" | "?f \<noteq> 0" "p1 = 0x00" "body = []"
    | "?f \<noteq> 0" "p1 = 0x00" "body \<noteq> []" "rc = PGP_PIN_OK" | "?f \<noteq> 0" "p1 = 0x00" "body \<noteq> []" "rc \<noteq> PGP_PIN_OK" by blast
  then show ?thesis
  proof cases
    case 1
    then have "s' = s" using run by (auto simp: handle_verify_def Let_def unless_bind op_fail_def)
    then show ?thesis using reflpD [OF calm_reflp] by blast
  next
    case 2
    then have "keeps (calm T K I view) (handle_verify T K p1 p2 body)"
      unfolding handle_verify_def Let_def unless_bind by simp (intro conjI impI calm_intros)
    from keepsD [OF this run] show ?thesis ..
  next
    case 3
    then have "keeps (calm T K I view) (handle_verify T K p1 p2 body)"
      unfolding handle_verify_def Let_def unless_bind by simp (intro calm_intros)
    from keepsD [OF this run] show ?thesis ..
  next
    case 4
    then have s': "s' = auth_grant K ?f k ?s1"
      using run by (simp add: handle_verify_def Let_def unless_bind op_bind_def vp op_upd_def pin_answer_def pin_sw_def
        op_ret_def sw_only_def)
    have pr: "pin_was_right T K p1 p2 body s s'"
      unfolding s' using 4 by (simp add: pin_was_right_def auth_grant_def v)
    have "kek_ok s \<longrightarrow> kek_ok s'"
      using grant_kek [OF _ auth_flag_cases [OF 4(1)]] c1 unfolding s' calm_def stays_def by blast
    moreover have "ap_pgp s' = p" "ap_chip s' = c" by (simp_all add: s' auth_grant_def)
    ultimately have "stays T K I view s s'" using c1 by (simp add: calm_def stays_def)
    with pr show ?thesis by blast
  next
    case 5
    then have s2: "op_bind (op_upd (auth_drop (flags_of ?w))) (\<lambda>_. pin_answer T K rc ?w) ?s1 = (r, s')"
      using run by (simp add: handle_verify_def Let_def unless_bind op_bind_def vp)
    have "keeps (calm T K I view) (op_bind (op_upd (auth_drop (flags_of ?w))) (\<lambda>_. pin_answer T K rc ?w))" by (intro calm_intros)
    from keepsD [OF this s2] show ?thesis using transpD [OF calm_transp c1] by blast
  qed
qed

text \<open>The state after the card was read.\<close>

definition ensured :: "'c tropic \<Rightarrow> crypto \<Rightarrow> 'c applet \<Rightarrow> 'c applet" where
  "ensured T K s = snd (ensure_card T K s)"

lemma ensured_calm: "calm T K I view s (ensured T K s)"
  unfolding ensured_def by (rule keepsD [OF calm_lifecycle(3) prod.collapse [symmetric]])

lemma ensure_val: "ensure_card T K s = (Val (), ensured T K s)"
  by (simp add: ensured_def ensure_card_def on_pgp_def split: prod.split)

lemma ensured_auth [simp]: "s_auth (ensured T K s) = s_auth s" "s_kek (ensured T K s) = s_kek s"
  by (simp_all add: ensured_def ensure_card_def on_pgp_def split: prod.split)

text \<open>A command is refused before it reaches its handler, or its handler runs.\<close>

lemma apdu_cases:
  assumes "openpgp_command T K G mx inp s = (r, s')"
  obtains (early) sw where "r = Fail sw" "s' = s"
  | (refused) sw where "r = Fail sw" "s' = ensured T K s"
      "lifecycle_refuses (openpgp_state_lifecycle (ap_o3 (ensured T K s))) (inp ! 1) (inp ! 3) = Some sw"
  | (handled) body where "length inp \<ge> 4" "apdu_body inp = Inr body"
      "lifecycle_refuses (openpgp_state_lifecycle (ap_o3 (ensured T K s))) (inp ! 1) (inp ! 3) = None"
      "handle_ins T K G mx (inp ! 1) (inp ! 2) (inp ! 3) body (ensured T K s) = (r, s')"
  using assms
  by (auto simp: openpgp_command_def Let_def op_bind_def ensure_val op_get_def op_fail_def split: if_splits sum.splits option.splits)

lemma dispatch_command:
  assumes "openpgp_applet_dispatch T K G mx inp s = (a, s')"
  obtains r where "openpgp_command T K G mx inp s = (r, s')" and "a = answer mx r"
  using assms by (auto simp: openpgp_applet_dispatch_def split: prod.splits)

lemma verify_ins: "handle_ins T K G mx INS_VERIFY p1 p2 body = handle_verify T K p1 p2 body"
  by (simp add: handle_ins_def Let_def inss)

lemma dispatch_gains:
  assumes G: "pgp_crypto_ok G" and run: "openpgp_applet_dispatch T K G mx inp s = (a, s')"
  shows "calm T K I view s s' \<or> stays T K I view s s' \<and> (\<exists>body. apdu_body inp = Inr body \<and> inp ! 1 = INS_VERIFY \<and>
    pin_was_right T K (inp ! 2) (inp ! 3) body (ensured T K s) s')"
proof -
  obtain r where "openpgp_command T K G mx inp s = (r, s')" by (rule dispatch_command [OF run])
  then show ?thesis
  proof (cases rule: apdu_cases)
    case early
    then show ?thesis using reflpD [OF calm_reflp] by blast
  next
    case refused
    then show ?thesis using ensured_calm by blast
  next
    case (handled body)
    note e = ensured_calm [of T K I view s]
    show ?thesis
    proof (cases "inp ! 1 = INS_VERIFY")
      case False
      have "calm T K I view (ensured T K s) s'" by (rule keepsD [OF calm_ins [OF G False] handled(4)])
      then show ?thesis using transpD [OF calm_transp e] by blast
    next
      case True
      have "handle_verify T K (inp ! 2) (inp ! 3) body (ensured T K s) = (r, s')"
        using handled(4) unfolding True verify_ins .
      from verify_gains [OF this, of I view] show ?thesis
      proof
        assume "calm T K I view (ensured T K s) s'"
        then show ?thesis using transpD [OF calm_transp e] by blast
      next
        assume "stays T K I view (ensured T K s) s' \<and> pin_was_right T K (inp ! 2) (inp ! 3) body (ensured T K s) s'"
        then show ?thesis using stays_trans [of T K I view s "ensured T K s" s'] e True handled(2) unfolding calm_def by blast
      qed
    qed
  qed
qed

section \<open>Sessions\<close>

text \<open>What a host can do to the applet: send APDUs, and reset the card.\<close>

datatype ap_event = Apdu nat bytes | Card_Reset

fun ap_event_do :: "'c tropic \<Rightarrow> crypto \<Rightarrow> pgp_crypto \<Rightarrow> ap_event \<Rightarrow> 'c applet \<Rightarrow> 'c applet" where
  "ap_event_do T K G (Apdu mx inp) s = snd (openpgp_applet_dispatch T K G mx inp s)"
| "ap_event_do T K G Card_Reset s = openpgp_applet_card_reset s"

definition ap_session :: "'c tropic \<Rightarrow> crypto \<Rightarrow> pgp_crypto \<Rightarrow> ap_event list \<Rightarrow> 'c applet \<Rightarrow> 'c applet" where
  "ap_session T K G evs s = fold (ap_event_do T K G) evs s"

text \<open>At power-on no access was granted and the KEK is zero.\<close>

definition ap_start :: "pgp \<Rightarrow> up \<Rightarrow> (nat \<Rightarrow> u32 \<times> up_round list) \<Rightarrow> (nat \<Rightarrow> usb_event list) \<Rightarrow> 'c \<Rightarrow> 'c applet" where
  "ap_start p u touches bus c = \<lparr>ap_pgp = p, ap_diag = no_diag, s_auth = 0, s_kek = replicate 32 0, ap_up = u,
     ap_touch = touches, ap_touches = 0, ap_usb = bus, ap_chip = c\<rparr>"

lemma event_stays:
  assumes "pgp_crypto_ok G"
  shows "stays T K I view s (ap_event_do T K G e s)"
proof (cases e)
  case (Apdu mx inp)
  show ?thesis
    using dispatch_gains [OF assms prod.collapse [symmetric], where T = T and K = K and I = I and view = view and mx = mx and inp = inp and s = s] by (auto simp: Apdu calm_def)
next
  case Card_Reset
  then show ?thesis using calm_drop [of T K I view s AUTH_ALL] by (simp add: openpgp_applet_card_reset_def calm_def)
qed

lemma session_stays:
  assumes "pgp_crypto_ok G"
  shows "stays T K I view s (ap_session T K G evs s)"
proof (induction evs arbitrary: s)
  case (Cons e evs)
  then show ?case
    using stays_trans [OF event_stays [OF assms, of T K I view s e] Cons.IH] by (simp add: ap_session_def)
qed (simp add: ap_session_def stays_refl)

section \<open>A working VERIFY\<close>

lemma ensured_settled: "settled_card (ap_pgp s) \<Longrightarrow> ensured T K s = s"
  by (simp add: ensured_def ensure_card_def on_pgp_def ensure_settled)

lemma apdu_body_of:
  assumes "length pin < 256" and "pin \<noteq> []"
  shows "apdu_body ([cla, ins, p1, p2, of_nat (length pin)] @ pin) = Inr pin"
  using assms by (simp add: apdu_body_def Let_def unat_of_nat)

lemma pin_len_bounds: "pin_len_ok w pin \<Longrightarrow> pin \<noteq> [] \<and> length pin \<le> 64"
  by (auto simp: pin_len_ok_def pin_min_len_def pgp_pin_lens split: if_splits)

text \<open>The chip, the record and the stored binding of a PIN that verifies.\<close>

definition pin_bound ::
  "'c tropic \<Rightarrow> crypto \<Rightarrow> ('c \<Rightarrow> bool) \<Rightarrow> ('c \<Rightarrow> nat \<Rightarrow> bytes) \<Rightarrow> nat \<Rightarrow> bytes \<Rightarrow> bytes \<Rightarrow> pgp \<Rightarrow> 'c \<Rightarrow> bool" where
  "pin_bound T K I view w pin sd p c \<longleftrightarrow> crypto_ok K \<and> w < OPENPGP_PIN_RC \<and> pin_len_ok w pin \<and> pair_usable (p_rec p w) \<and>
     (\<exists>good md ld mix g b. live_kernel T I view good md ld mix \<and> good c \<and> next b < OPENPGP_PIN_ROUNDS \<and> unat g < 2 ^ 32 - 2 \<and>
        pin_set K ld mix md view (PGP_LAYOUT w) (p_rec p w) g b (material K pin) sd c)"

lemma bound_verifies:
  assumes "pin_bound T K I view w pin sd p c"
  shows "\<exists>p' c'. pgp_pin_verify T K w pin p c = (PGP_PIN_OK, kdf K sd 2, p', c')"
proof -
  obtain good md ld mix g b where a: "crypto_ok K" "w < OPENPGP_PIN_RC" "pin_len_ok w pin" "pair_usable (p_rec p w)"
    "live_kernel T I view good md ld mix" "good c" "next b < OPENPGP_PIN_ROUNDS" "unat g < 2 ^ 32 - 2"
    "pin_set K ld mix md view (PGP_LAYOUT w) (p_rec p w) g b (material K pin) sd c"
    using assms by (auto simp: pin_bound_def)
  have w2: "w \<le> 2" using a(2) by (simp add: pgp_pins)
  have r: "next b < rounds (PGP_LAYOUT w)" using a(7) by (simp add: PGP_LAYOUT_def)
  show ?thesis
    using live_kernel.verify_both(1) [OF a(5,6,1) pgp_layout_valid [OF w2] a(4,9) r a(8)] a(2,3) w2
    by (auto simp: pgp_pin_verify_def pin_which_ok_def pin_map_rc_def pgp_pins Let_def)
qed

lemma verify_grants:
  assumes "pin_bound T K I view (pin_of (auth_flag p2)) pin sd (ap_pgp s) (ap_chip s)" and "auth_flag p2 \<noteq> 0"
    and "settled_card (ap_pgp s)" and "lifecycle_refuses (openpgp_state_lifecycle (ap_o3 s)) INS_VERIFY p2 = None"
  shows "\<exists>p c. openpgp_command T K G mx ([0, INS_VERIFY, 0, p2, of_nat (length pin)] @ pin) s =
     (Val [], auth_grant K (auth_flag p2) (kdf K sd 2) (s\<lparr>ap_pgp := p, ap_chip := c\<rparr>))"
proof -
  let ?f = "auth_flag p2" and ?inp = "[0, INS_VERIFY, 0, p2, of_nat (length pin)] @ pin"
  obtain p c where v: "pgp_pin_verify T K (pin_of ?f) pin (ap_pgp s) (ap_chip s) = (PGP_PIN_OK, kdf K sd 2, p, c)"
    using bound_verifies [OF assms(1)] by blast
  let ?s1 = "s\<lparr>ap_pgp := p, ap_chip := c\<rparr>"
  have vp: "verify_pin T K (pin_of ?f) pin s = (Val (PGP_PIN_OK, kdf K sd 2), ?s1)" by (simp add: verify_pin_def on_pgp_def v)
  have pl: "length pin < 256" "pin \<noteq> []" "4 \<le> length ?inp"
    using assms(1) pin_len_bounds [of "pin_of ?f" pin] by (auto simp: pin_bound_def)
  have "handle_verify T K 0 p2 pin s = (Val [], auth_grant K ?f (kdf K sd 2) ?s1)"
    using pl assms(2)
    by (simp add: handle_verify_def Let_def unless_bind op_bind_def vp op_upd_def pin_answer_def pin_sw_def op_ret_def sw_only_def)
  then show ?thesis
    using assms(4) ensured_settled [OF assms(3), of T K] apdu_body_of [OF pl(1,2), of 0 INS_VERIFY 0 p2]
    by (auto simp: openpgp_command_def op_bind_def ensure_val op_get_def verify_ins)
qed

text \<open>
  C18. VERIFY opens the session for the right PIN: on a working chip, with the PIN bound and attempts
  left, the command answers 9000 and grants exactly the access of its P2; after 81 or 82 the KEK
  is the one derived from the key \<open>k\<close> of the binding.
\<close>

theorem pgp_verify_opens:
  assumes "pin_bound T K I view (pin_of (auth_flag p2)) pin sd (ap_pgp s) (ap_chip s)" and "p2 \<in> {0x81, 0x82, 0x83}"
    and "settled_card (ap_pgp s)" and "lifecycle_refuses (openpgp_state_lifecycle (ap_o3 s)) INS_VERIFY p2 = None" and "2 \<le> mx"
    and "openpgp_applet_dispatch T K G mx ([0, INS_VERIFY, 0, p2, of_nat (length pin)] @ pin) s = (a, s')"
  shows "a = Some (Some [0x90, 0x00]) \<and> s_auth s' = s_auth s OR auth_flag p2 \<and>
    s_kek s' = (if p2 = 0x83 then s_kek s else pgp_dec_kek K (kdf K sd 2))"
proof -
  have "auth_flag p2 \<noteq> 0" using assms(2) by (auto simp: auth_flag_def auths)
  from verify_grants [OF assms(1) this assms(3,4), of G mx] show ?thesis
    using assms(2,5,6)
    by (auto simp: openpgp_applet_dispatch_def answer_def emit_sw_def SW_OK_def auth_grant_def auth_flag_def auths)
qed

text \<open>A bound PW3 on the demo chip.\<close>

abbreviation demo_pgp_unread :: pgp where "demo_pgp_unread \<equiv> pgp_pin_start\<lparr>s_boot_tries := 3\<rparr>"

lemma demo_bound:
  obtains c where "pin_bound demo_chip demo_crypto mock_inv mock_view OPENPGP_PIN_PW3 FACTORY_PW3 (replicate 32 1) demo_pgp_unread c"
proof -
  have u: "pair_usable (p_rec demo_pgp_unread OPENPGP_PIN_PW3)"
    by (simp add: pgp_pin_start_def PIN_REC_def pair_usable_def pgp_pins)
  obtain b c where "mock_keyed demo_crypto (replicate 32 7) c" and "next b = 0"
    and "pin_set demo_crypto (mock_ld demo_crypto (replicate 32 7)) (mock_mix demo_crypto) s_mad mock_view (PGP_LAYOUT OPENPGP_PIN_PW3)
       (p_rec demo_pgp_unread OPENPGP_PIN_PW3) 1 b (material demo_crypto FACTORY_PW3) (replicate 32 1) c"
    by (rule live_kernel.setup_blank [OF demo_live_kernel demo_keyed crypto_ok_demo pgp_layout_valid u demo_blank demo_blank,
        of OPENPGP_PIN_PW3 8 "replicate 32 1" "material demo_crypto FACTORY_PW3"]) (simp_all add: pgp_pins)
  then have "pin_bound demo_chip demo_crypto mock_inv mock_view OPENPGP_PIN_PW3 FACTORY_PW3 (replicate 32 1) demo_pgp_unread c"
    unfolding pin_bound_def using u crypto_ok_demo demo_live_kernel
    by (intro conjI exI [of _ "mock_keyed demo_crypto (replicate 32 7)"] exI [of _ s_mad] exI [of _ "mock_ld demo_crypto (replicate 32 7)"]
        exI [of _ "mock_mix demo_crypto"] exI [of _ "1 :: u32"] exI [of _ b])
       (simp_all add: pgp_pins pin_len_ok_def pin_min_len_def pgp_pin_lens OPENPGP_PIN_ROUNDS_def FACTORY_PW3_def)
  then show thesis by (rule that)
qed

text \<open>The demo card: O3 was given up on, PW3 is bound; the host may still verify 83.\<close>

definition demo_button :: up where
  "demo_button = up_start"

definition demo_verify83 :: bytes where
  "demo_verify83 = [0, INS_VERIFY, 0, 0x83, of_nat (length FACTORY_PW3)] @ FACTORY_PW3"

lemma demo_unread: "settled_card demo_pgp_unread"
  "lifecycle_refuses (openpgp_state_lifecycle (p_o3 demo_pgp_unread)) INS_VERIFY 0x83 = None"
  by (simp_all add: settled_card_def PGP_BOOT_TRIES_def lifecycle_refuses_def openpgp_state_lifecycle_def pgp_usable_def
      pgp_pin_start_def pgp_start_def pgp_lcs inss)

theorem pgp_verify_opens_witness:
  "\<exists>c. fst (openpgp_applet_dispatch demo_chip demo_crypto demo_gcm 256 demo_verify83
     (ap_start demo_pgp_unread demo_button (\<lambda>_. (0, [])) (\<lambda>_. []) c)) = Some (Some [0x90, 0x00])"
proof -
  obtain c where b: "pin_bound demo_chip demo_crypto mock_inv mock_view OPENPGP_PIN_PW3 FACTORY_PW3 (replicate 32 1) demo_pgp_unread c"
    by (rule demo_bound)
  let ?s = "ap_start demo_pgp_unread demo_button (\<lambda>_. (0, [])) (\<lambda>_. []) c"
  obtain a s' where d: "openpgp_applet_dispatch demo_chip demo_crypto demo_gcm 256 demo_verify83 ?s = (a, s')" by fastforce
  have f: "pin_of (auth_flag 0x83) = OPENPGP_PIN_PW3" by (simp add: pin_of_def auth_flag_def)
  have p: "ap_pgp ?s = demo_pgp_unread" "ap_chip ?s = c" by (simp_all add: ap_start_def)
  have b': "pin_bound demo_chip demo_crypto mock_inv mock_view (pin_of (auth_flag 0x83)) FACTORY_PW3 (replicate 32 1) (ap_pgp ?s) (ap_chip ?s)"
    unfolding f p by (rule b)
  have "a = Some (Some [0x90, 0x00])"
    using pgp_verify_opens [OF b' _ _ _ _ d [unfolded demo_verify83_def]] demo_unread unfolding p by simp
  then have "fst (openpgp_applet_dispatch demo_chip demo_crypto demo_gcm 256 demo_verify83 ?s) = Some (Some [0x90, 0x00])"
    by (simp add: d)
  then show ?thesis ..
qed

lemma demo_granted:
  obtains c a s' where "openpgp_applet_dispatch demo_chip demo_crypto demo_gcm 256 demo_verify83
     (ap_start demo_pgp_unread demo_button (\<lambda>_. (0, [])) (\<lambda>_. []) c) = (a, s')" and "s_auth s' = 4"
proof -
  obtain c where b: "pin_bound demo_chip demo_crypto mock_inv mock_view OPENPGP_PIN_PW3 FACTORY_PW3 (replicate 32 1) demo_pgp_unread c"
    by (rule demo_bound)
  let ?s = "ap_start demo_pgp_unread demo_button (\<lambda>_. (0, [])) (\<lambda>_. []) c"
  have f: "pin_of (auth_flag 0x83) = OPENPGP_PIN_PW3" and g: "auth_flag 0x83 = 4" by (simp_all add: pin_of_def auth_flag_def auths)
  have p: "ap_pgp ?s = demo_pgp_unread" "ap_chip ?s = c" by (simp_all add: ap_start_def)
  have b': "pin_bound demo_chip demo_crypto mock_inv mock_view (pin_of (auth_flag 0x83)) FACTORY_PW3 (replicate 32 1) (ap_pgp ?s) (ap_chip ?s)"
    unfolding f p by (rule b)
  obtain q d where "openpgp_command demo_chip demo_crypto demo_gcm 256 demo_verify83 ?s =
     (Val [], auth_grant demo_crypto 4 (kdf demo_crypto (replicate 32 1) 2) (?s\<lparr>ap_pgp := q, ap_chip := d\<rparr>))"
    using verify_grants [OF b', of demo_gcm 256] demo_unread unfolding p g demo_verify83_def by auto
  then show thesis
    using that [of c] by (simp add: openpgp_applet_dispatch_def auth_grant_def ap_start_def)
qed

section \<open>Properties\<close>



text \<open>
  C12. The KEK lives exactly as long as the access it belongs to: from power-on, after any
  sequence of commands and card resets, without the rights of 81 and 82 the KEK in memory is zero.
\<close>

theorem pgp_kek_session:
  assumes "pgp_crypto_ok G" and "s_auth (ap_session T K G evs (ap_start p u touches bus c)) AND AUTH_PW1 = 0"
  shows "openpgp_applet_test_kek_zero (ap_session T K G evs (ap_start p u touches bus c))"
proof -
  have "kek_ok (ap_start p u touches bus c)" by (simp add: kek_ok_def ap_start_def)
  then have "kek_ok (ap_session T K G evs (ap_start p u touches bus c))"
    using session_stays [OF assms(1), of T K "\<lambda>_. False" "\<lambda>_ _. []"] by (simp add: stays_def)
  then show ?thesis using assms(2) by (simp add: kek_ok_def openpgp_applet_test_kek_zero_def)
qed

theorem pgp_kek_session_witness:
  "openpgp_applet_test_kek_zero (ap_session demo_chip demo_crypto demo_gcm [Apdu 256 demo_verify83, Card_Reset]
     (ap_start demo_pgp_unread demo_button (\<lambda>_. (0, [])) (\<lambda>_. []) demo_mock))"
  by (rule pgp_kek_session [OF demo_gcm_ok])
     (simp add: ap_session_def openpgp_applet_card_reset_def auth_drop_def Let_def AUTH_ALL_def AUTH_PW1_def bit_eq_iff bit_simps, blast)

text \<open>
  C17. The OpenPGP applet stays in its own records: no sequence of commands, well formed or not,
  changes a data slot outside the pairs 33 / 43 and 50 to 55, so it never reaches what the FIDO
  side stored; and the objects of the applet stay consistent with the chip.
\<close>

theorem pgp_isolation:
  assumes "pgp_crypto_ok G" and "pgp_ok T K I view (ap_pgp s) (ap_chip s)"
  shows "pgp_ok T K I view (ap_pgp (ap_session T K G evs s)) (ap_chip (ap_session T K G evs s)) \<and>
    (\<forall>t. t \<notin> {33, 43} \<union> {50..55} \<longrightarrow> view (ap_chip (ap_session T K G evs s)) t = view (ap_chip s) t)"
  using session_stays [OF assms(1), of T K I view s evs] assms(2)
  by (auto simp: stays_def pgp_does_def slots_only_def OPENPGP_SLOTS_def)

theorem pgp_isolation_witness:
  "mock_view (ap_chip (ap_session demo_chip demo_crypto demo_gcm [Apdu 256 demo_verify83, Card_Reset, Apdu 9 [1, 2, 3]]
     (ap_start pgp_pin_start demo_button (\<lambda>_. (0, [])) (\<lambda>_. []) demo_mock))) 30 = mock_view demo_mock 30"
  using pgp_isolation [OF demo_gcm_ok, of demo_chip demo_crypto mock_inv mock_view "ap_start pgp_pin_start demo_button (\<lambda>_. (0, [])) (\<lambda>_. []) demo_mock"
      "[Apdu 256 demo_verify83, Card_Reset, Apdu 9 [1, 2, 3]]"] demo_pgp
  by (simp add: ap_start_def)

end
