(* ===== verification/Ccid.thy ===== *)
theory Ccid
  imports Openpgp_Secrets
begin

text \<open>
  The CCID driver between USB and the OpenPGP applet: the APDU dispatcher
  (\<^verbatim>\<open>firmware/src/ccid/apdu_dispatch.c\<close>) and the TinyUSB class driver with its task
  (\<^verbatim>\<open>firmware/src/usb/usb_ccid.c\<close>).  TinyUSB itself is third-party: what its calls answer and when it calls
  back are parameters.  Callbacks arrive between two runs of the task, and inside the touch wait of
  an APDU.
\<close>

section \<open>Constants\<close>

definition CCID_PC_TO_RDR_IccPowerOn :: u8 where "CCID_PC_TO_RDR_IccPowerOn = 0x62"
definition CCID_PC_TO_RDR_IccPowerOff :: u8 where "CCID_PC_TO_RDR_IccPowerOff = 0x63"
definition CCID_PC_TO_RDR_GetSlotStatus :: u8 where "CCID_PC_TO_RDR_GetSlotStatus = 0x65"
definition CCID_PC_TO_RDR_XfrBlock :: u8 where "CCID_PC_TO_RDR_XfrBlock = 0x6F"
definition CCID_PC_TO_RDR_GetParameters :: u8 where "CCID_PC_TO_RDR_GetParameters = 0x6C"
definition CCID_PC_TO_RDR_ResetParameters :: u8 where "CCID_PC_TO_RDR_ResetParameters = 0x6D"
definition CCID_PC_TO_RDR_SetParameters :: u8 where "CCID_PC_TO_RDR_SetParameters = 0x61"
definition CCID_RDR_TO_PC_DataBlock :: u8 where "CCID_RDR_TO_PC_DataBlock = 0x80"
definition CCID_RDR_TO_PC_SlotStatus :: u8 where "CCID_RDR_TO_PC_SlotStatus = 0x81"
definition CCID_RDR_TO_PC_Parameters :: u8 where "CCID_RDR_TO_PC_Parameters = 0x82"
definition CCID_ICC_STATUS_ACTIVE :: u8 where "CCID_ICC_STATUS_ACTIVE = 0x00"
definition CCID_ICC_STATUS_PRESENT_INACT :: u8 where "CCID_ICC_STATUS_PRESENT_INACT = 0x01"
definition CCID_CMD_STATUS_SUCCESS :: u8 where "CCID_CMD_STATUS_SUCCESS = 0x00"
definition CCID_CMD_STATUS_FAILED :: u8 where "CCID_CMD_STATUS_FAILED = 0x40"
definition CCID_ERROR_NONE :: u8 where "CCID_ERROR_NONE = 0x00"
definition CCID_ERROR_CMD_NOT_SUPPORTED :: u8 where "CCID_ERROR_CMD_NOT_SUPPORTED = 0x00"
definition CCID_ERROR_HW_ERROR :: u8 where "CCID_ERROR_HW_ERROR = 0xFB"
definition CCID_HDR_LEN :: nat where "CCID_HDR_LEN = 10"
definition APDU_MAX_LEN :: nat where "APDU_MAX_LEN = 4106"
definition CCID_MAX_MSG_LEN :: nat where "CCID_MAX_MSG_LEN = 4112"
definition s_atr :: bytes where "s_atr = [0x3B, 0x80, 0x01, 0x81]"
definition s_t1_params :: bytes where "s_t1_params = [0x11, 0x10, 0x00, 0x4D, 0x00, 0xFE, 0x00]"

section \<open>State\<close>

text \<open>
  The statics of the driver, the applet behind it, the calls made to \<open>usbd_edpt_xfer\<close> in order, and what
  each of them answers.
\<close>

datatype usb_call = Xfer_Out u8 | Xfer_In u8 bytes

record 'c ccid =
  cc_applet :: "'c applet"
  s_itf_num :: u8
  s_rx_buf :: bytes
  s_tx_buf :: bytes
  s_tx_len :: nat
  s_rhport :: u8
  s_rx_pending :: nat
  s_processing :: bool
  s_epoch :: u32
  cc_calls :: "usb_call list"
  cc_answers :: "nat \<Rightarrow> bool"

definition edpt_xfer :: "usb_call \<Rightarrow> 'c ccid \<Rightarrow> bool \<times> 'c ccid" where
  "edpt_xfer call s = (cc_answers s (length (cc_calls s)), s\<lparr>cc_calls := cc_calls s @ [call]\<rparr>)"

definition arm_rx :: "'c ccid \<Rightarrow> 'c ccid" where
  "arm_rx s = snd (edpt_xfer (Xfer_Out (s_rhport s)) s)"

section \<open>APDUs\<close>

definition apdu_dispatch_process ::
  "'c tropic \<Rightarrow> crypto \<Rightarrow> pgp_crypto \<Rightarrow> nat \<Rightarrow> bytes \<Rightarrow> 'c applet \<Rightarrow> bytes option option \<times> 'c applet" where
  "apdu_dispatch_process T K G mx inp s =
     (if length inp < 4 \<or> length inp > APDU_MAX_LEN then
        (Some (if mx < 2 then None else Some [of_nat (SW_WRONG_LENGTH div 256), of_nat SW_WRONG_LENGTH]), s)
      else openpgp_applet_dispatch T K G mx inp s)"

definition apdu_dispatch_card_reset :: "'c applet \<Rightarrow> 'c applet" where
  "apdu_dispatch_card_reset = openpgp_applet_card_reset"

section \<open>Answers\<close>

definition le32_load :: "bytes \<Rightarrow> u32" where
  "le32_load p = ucast (p ! 0) OR push_bit 8 (ucast (p ! 1)) OR push_bit 16 (ucast (p ! 2)) OR push_bit 24 (ucast (p ! 3))"

definition le32_store :: "u32 \<Rightarrow> bytes" where
  "le32_store v = [ucast v, ucast (drop_bit 8 v), ucast (drop_bit 16 v), ucast (drop_bit 24 v)]"

definition fill_bulk_in_hdr :: "u8 \<Rightarrow> nat \<Rightarrow> u8 \<Rightarrow> u8 \<Rightarrow> u8 \<Rightarrow> u8 \<Rightarrow> bytes" where
  "fill_bulk_in_hdr msg_type payload_len bSeq bStatus bError bRFU =
     [msg_type] @ le32_store (of_nat payload_len) @ [0, bSeq, bStatus, bError, bRFU]"

text \<open>A message at the start of the transmit buffer.\<close>

definition put_tx :: "bytes \<Rightarrow> 'c ccid \<Rightarrow> 'c ccid" where
  "put_tx msg s = s\<lparr>s_tx_buf := msg @ drop (length msg) (s_tx_buf s), s_tx_len := length msg\<rparr>"

definition resp_power_on :: "u8 \<Rightarrow> 'c ccid \<Rightarrow> 'c ccid" where
  "resp_power_on bSeq = put_tx (fill_bulk_in_hdr CCID_RDR_TO_PC_DataBlock (length s_atr) bSeq
     (CCID_ICC_STATUS_ACTIVE OR CCID_CMD_STATUS_SUCCESS) CCID_ERROR_NONE 0 @ s_atr)"

definition resp_slot_status :: "u8 \<Rightarrow> u8 \<Rightarrow> u8 \<Rightarrow> 'c ccid \<Rightarrow> 'c ccid" where
  "resp_slot_status bSeq bStatus bError = put_tx (fill_bulk_in_hdr CCID_RDR_TO_PC_SlotStatus 0 bSeq bStatus bError 0)"

definition resp_parameters :: "u8 \<Rightarrow> 'c ccid \<Rightarrow> 'c ccid" where
  "resp_parameters bSeq = put_tx (fill_bulk_in_hdr CCID_RDR_TO_PC_Parameters (length s_t1_params) bSeq
     (CCID_ICC_STATUS_ACTIVE OR CCID_CMD_STATUS_SUCCESS) CCID_ERROR_NONE 0x01 @ s_t1_params)"

section \<open>Callbacks\<close>

definition ccid_init :: "'c ccid \<Rightarrow> 'c ccid" where
  "ccid_init s = s\<lparr>s_epoch := s_epoch s + 1,
     s_rx_buf := (if s_processing s then s_rx_buf s else replicate CCID_MAX_MSG_LEN 0),
     s_tx_buf := (if s_processing s then s_tx_buf s else replicate CCID_MAX_MSG_LEN 0),
     s_tx_len := 0, s_rx_pending := 0, s_itf_num := 0xFF\<rparr>"

definition ccid_reset :: "'c ccid \<Rightarrow> 'c ccid" where
  "ccid_reset s = ccid_init (s\<lparr>cc_applet := apdu_dispatch_card_reset (cc_applet s)\<rparr>)"

text \<open>The endpoints of the interface, from offset \<open>p\<close>; \<open>None\<close> when one does not open.\<close>

fun open_endpoints :: "nat \<Rightarrow> nat \<Rightarrow> bytes \<Rightarrow> bool list \<Rightarrow> nat \<Rightarrow> nat \<Rightarrow> nat option" where
  "open_endpoints 0 max_len desc oks p consumed = Some consumed"
| "open_endpoints (Suc n) max_len desc oks p consumed =
     (if consumed \<ge> max_len \<or> desc ! (p + 1) \<noteq> 5 then Some consumed
      else if oks = [] \<or> \<not> hd oks then None
      else open_endpoints n max_len desc (tl oks) (p + unat (desc ! p)) ((consumed + unat (desc ! p)) mod 2 ^ 16))"

definition ccid_open :: "u8 \<Rightarrow> bytes \<Rightarrow> nat \<Rightarrow> bool list \<Rightarrow> 'c ccid \<Rightarrow> nat \<times> 'c ccid" where
  "ccid_open rhport desc max_len oks s =
     (if desc ! 5 \<noteq> 0x0B then (0, s)
      else let s1 = s\<lparr>s_itf_num := desc ! 2, s_rhport := rhport\<rparr>;
               p = unat (desc ! 0);
               skip = p < max_len \<and> desc ! (p + 1) = 0x21;
               p1 = (if skip then p + unat (desc ! p) else p) in
      case open_endpoints (unat (desc ! 4)) max_len desc oks p1 p1 of
        None \<Rightarrow> (0, s1)
      | Some consumed \<Rightarrow>
          if s_processing s1 then (consumed, s1)
          else case edpt_xfer (Xfer_Out rhport) s1 of (ok, s2) \<Rightarrow> (if ok then consumed else 0, s2))"

text \<open>A receive has put its bytes into the receive buffer.\<close>

definition ccid_xfer_out :: "bool \<Rightarrow> bytes \<Rightarrow> 'c ccid \<Rightarrow> 'c ccid" where
  "ccid_xfer_out ok data s =
     (let s1 = s\<lparr>s_rx_buf := data @ drop (length data) (s_rx_buf s)\<rparr> in
      if ok \<and> data \<noteq> [] then s1\<lparr>s_rx_pending := length data\<rparr> else arm_rx s1)"

text \<open>What a callback does to the driver; a bus reset also resets the card.\<close>

fun driver_event :: "usb_event \<Rightarrow> 'c ccid \<Rightarrow> 'c ccid" where
  "driver_event Usb_Reset s = ccid_init s"
| "driver_event (Usb_Open port desc max_len oks) s = snd (ccid_open port desc max_len oks s)"
| "driver_event (Usb_Out ok data) s = ccid_xfer_out ok data s"
| "driver_event Usb_In s = s\<lparr>s_tx_len := 0\<rparr>"

definition ccid_callback :: "usb_event \<Rightarrow> 'c ccid \<Rightarrow> 'c ccid" where
  "ccid_callback e s = (if e = Usb_Reset then ccid_reset s else driver_event e s)"

section \<open>The task\<close>

text \<open>What USB did while the applet went from one state to the other.\<close>

definition usb_during :: "'c applet \<Rightarrow> 'c applet \<Rightarrow> usb_event list" where
  "usb_during a a' = concat (map (ap_usb a) [ap_touches a..<ap_touches a'])"

text \<open>\<open>None\<close> as long as the APDU waits for a touch.\<close>

definition resp_xfr_block ::
  "'c tropic \<Rightarrow> crypto \<Rightarrow> pgp_crypto \<Rightarrow> u8 \<Rightarrow> bytes \<Rightarrow> 'c ccid \<Rightarrow> 'c ccid option" where
  "resp_xfr_block T K G bSeq apdu s =
     (case apdu_dispatch_process T K G APDU_MAX_LEN apdu (cc_applet s) of (r, a) \<Rightarrow>
      let s1 = fold driver_event (usb_during (cc_applet s) a) (s\<lparr>cc_applet := a\<rparr>);
          failed = resp_slot_status bSeq (CCID_ICC_STATUS_ACTIVE OR CCID_CMD_STATUS_FAILED) CCID_ERROR_HW_ERROR s1 in
      case r of
        None \<Rightarrow> None
      | Some None \<Rightarrow> Some failed
      | Some (Some out) \<Rightarrow>
          Some (if length out < 2 then failed
                else if CCID_HDR_LEN + length out > CCID_MAX_MSG_LEN then failed
                else put_tx (fill_bulk_in_hdr CCID_RDR_TO_PC_DataBlock (length out) bSeq
                  (CCID_ICC_STATUS_ACTIVE OR CCID_CMD_STATUS_SUCCESS) CCID_ERROR_NONE 0 @ out) s1))"

definition process_message :: "'c tropic \<Rightarrow> crypto \<Rightarrow> pgp_crypto \<Rightarrow> bytes \<Rightarrow> 'c ccid \<Rightarrow> 'c ccid option" where
  "process_message T K G msg s =
     (if length msg < CCID_HDR_LEN then Some (s\<lparr>s_tx_len := 0\<rparr>)
      else
        let msg_type = msg ! 0; payload_len = unat (le32_load (drop 1 msg)); bSeq = msg ! 6;
            reset = (\<lambda>s. s\<lparr>cc_applet := apdu_dispatch_card_reset (cc_applet s)\<rparr>);
            status = (\<lambda>st e. resp_slot_status bSeq st e) in
        if payload_len > length msg - CCID_HDR_LEN then
          Some (status (CCID_ICC_STATUS_ACTIVE OR CCID_CMD_STATUS_FAILED) CCID_ERROR_HW_ERROR s)
        else if msg_type = CCID_PC_TO_RDR_IccPowerOn then Some (resp_power_on bSeq (reset s))
        else if msg_type = CCID_PC_TO_RDR_IccPowerOff then
          Some (status (CCID_ICC_STATUS_PRESENT_INACT OR CCID_CMD_STATUS_SUCCESS) CCID_ERROR_NONE (reset s))
        else if msg_type = CCID_PC_TO_RDR_GetSlotStatus then
          Some (status (CCID_ICC_STATUS_ACTIVE OR CCID_CMD_STATUS_SUCCESS) CCID_ERROR_NONE s)
        else if msg_type = CCID_PC_TO_RDR_XfrBlock then
          resp_xfr_block T K G bSeq (take payload_len (drop CCID_HDR_LEN msg)) s
        else if msg_type = CCID_PC_TO_RDR_GetParameters \<or> msg_type = CCID_PC_TO_RDR_ResetParameters \<or>
          msg_type = CCID_PC_TO_RDR_SetParameters then Some (resp_parameters bSeq s)
        else Some (status (CCID_ICC_STATUS_ACTIVE OR CCID_CMD_STATUS_FAILED) CCID_ERROR_CMD_NOT_SUPPORTED s))"

definition usb_ccid_task :: "'c tropic \<Rightarrow> crypto \<Rightarrow> pgp_crypto \<Rightarrow> bool \<Rightarrow> 'c ccid \<Rightarrow> 'c ccid option" where
  "usb_ccid_task T K G in_busy s =
     (let len = s_rx_pending s in
      if len = 0 \<or> user_presence_is_awaiting (ap_up (cc_applet s)) \<or> in_busy then Some s
      else case process_message T K G (take len (s_rx_buf s)) (s\<lparr>s_rx_pending := 0, s_processing := True\<rparr>) of
        None \<Rightarrow> None
      | Some s1 \<Rightarrow>
          let s2 = s1\<lparr>s_processing := False, s_rx_buf := replicate len 0 @ drop len (s_rx_buf s1)\<rparr> in
          Some (if s_epoch s2 \<noteq> s_epoch s then
              let s3 = s2\<lparr>cc_applet := apdu_dispatch_card_reset (cc_applet s2), s_tx_len := 0\<rparr> in
              if s_itf_num s3 = 0xFF then s3 else arm_rx s3
            else if s_tx_len s2 = 0 then arm_rx s2
            else case edpt_xfer (Xfer_In (s_rhport s2) (take (s_tx_len s2) (s_tx_buf s2))) s2 of (ok, s3) \<Rightarrow>
              arm_rx (if ok then s3 else s3\<lparr>s_tx_len := 0\<rparr>)))"

section \<open>Messages in the transmit buffer\<close>

named_theorems ccid_consts

lemmas ccid_types [ccid_consts] = CCID_PC_TO_RDR_IccPowerOn_def CCID_PC_TO_RDR_IccPowerOff_def CCID_PC_TO_RDR_GetSlotStatus_def
  CCID_PC_TO_RDR_XfrBlock_def CCID_PC_TO_RDR_GetParameters_def CCID_PC_TO_RDR_ResetParameters_def CCID_PC_TO_RDR_SetParameters_def
  CCID_RDR_TO_PC_DataBlock_def CCID_RDR_TO_PC_SlotStatus_def CCID_RDR_TO_PC_Parameters_def

lemmas ccid_sizes [ccid_consts] = CCID_HDR_LEN_def CCID_MAX_MSG_LEN_def APDU_MAX_LEN_def s_atr_def s_t1_params_def

lemma le32_roundtrip: "le32_load (le32_store v) = v"
proof (rule bit_word_eqI)
  fix n assume "n < LENGTH(32)"
  moreover have "n < 24 \<or> 24 + (n - 24) = n" by arith
  ultimately show "bit (le32_load (le32_store v)) n = bit v n"
    by (auto simp: le32_load_def le32_store_def bit_simps)
qed

text \<open>A CCID message: its slot, sequence number and length field.\<close>

definition framed :: "u8 \<Rightarrow> bytes \<Rightarrow> bool" where
  "framed bSeq m \<longleftrightarrow> CCID_HDR_LEN \<le> length m \<and> length m \<le> CCID_MAX_MSG_LEN \<and> m ! 5 = 0 \<and> m ! 6 = bSeq \<and>
     unat (le32_load (take 4 (drop 1 m))) = length m - CCID_HDR_LEN \<and>
     m ! 0 \<in> {CCID_RDR_TO_PC_DataBlock, CCID_RDR_TO_PC_SlotStatus, CCID_RDR_TO_PC_Parameters}"

lemma hdr_len [simp]: "length (fill_bulk_in_hdr t n q st e r) = 10"
  by (simp add: fill_bulk_in_hdr_def le32_store_def)

lemma hdr_framed:
  assumes "length body \<le> 4102" and "t \<in> {CCID_RDR_TO_PC_DataBlock, CCID_RDR_TO_PC_SlotStatus, CCID_RDR_TO_PC_Parameters}"
  shows "framed q (fill_bulk_in_hdr t (length body) q st e r @ body)"
proof -
  have "take 4 (drop 1 (fill_bulk_in_hdr t (length body) q st e r @ body)) = le32_store (of_nat (length body))"
    by (simp add: fill_bulk_in_hdr_def le32_store_def)
  moreover have "unat (of_nat (length body) :: u32) = length body" using assms(1) by (simp add: unat_of_nat)
  ultimately show ?thesis using assms
    by (simp add: framed_def le32_roundtrip ccid_sizes) (simp add: fill_bulk_in_hdr_def le32_store_def)
qed

lemma hdr_alone_framed: "framed q (fill_bulk_in_hdr CCID_RDR_TO_PC_SlotStatus 0 q st e r)"
  using hdr_framed [of "[]" CCID_RDR_TO_PC_SlotStatus q st e r] by simp

text \<open>What the driver would send.\<close>

definition tx_msg :: "'c ccid \<Rightarrow> bytes" where
  "tx_msg s = take (s_tx_len s) (s_tx_buf s)"

lemma put_tx_msg [simp]: "tx_msg (put_tx m s) = m" "s_tx_len (put_tx m s) = length m"
  by (simp_all add: tx_msg_def put_tx_def)

text \<open>What answering changes: the applet, the transmit buffer and its length.\<close>

definition answers_only :: "'c ccid \<Rightarrow> 'c ccid \<Rightarrow> bool" where
  "answers_only s s' \<longleftrightarrow> (\<exists>a b n. s' = s\<lparr>cc_applet := a, s_tx_buf := b, s_tx_len := n\<rparr>)"

lemma put_tx_only: "answers_only s (put_tx m (s\<lparr>cc_applet := a\<rparr>))" "answers_only s (put_tx m s)"
  unfolding answers_only_def put_tx_def
   apply (rule exI [of _ a], rule exI [of _ "m @ drop (length m) (s_tx_buf s)"], rule exI [of _ "length m"], simp)
  apply (rule exI [of _ "cc_applet s"], rule exI [of _ "m @ drop (length m) (s_tx_buf s)"], rule exI [of _ "length m"], simp)
  done

section \<open>Callbacks and the card\<close>

lemma driver_event_applet [simp]: "cc_applet (driver_event e s) = cc_applet s"
  by (cases e) (auto simp: ccid_init_def ccid_open_def ccid_xfer_out_def arm_rx_def edpt_xfer_def Let_def split: option.splits prod.splits)

lemma driver_events_applet [simp]: "cc_applet (fold driver_event es s) = cc_applet s"
  by (induction es arbitrary: s) simp_all

lemma driver_event_processing [simp]: "s_processing (driver_event e s) = s_processing s"
  by (cases e) (auto simp: ccid_init_def ccid_open_def ccid_xfer_out_def arm_rx_def edpt_xfer_def Let_def split: option.splits prod.splits)

text \<open>Bus resets are counted; nothing is sent by a callback.\<close>

lemma driver_event_epoch: "s_epoch (driver_event e s) = s_epoch s + (if e = Usb_Reset then 1 else 0)"
  by (cases e) (auto simp: ccid_init_def ccid_open_def ccid_xfer_out_def arm_rx_def edpt_xfer_def Let_def split: option.splits prod.splits)

lemma driver_events_epoch: "s_epoch (fold driver_event es s) = s_epoch s + of_nat (count_list es Usb_Reset)"
  by (induction es arbitrary: s) (auto simp: driver_event_epoch)

fun is_send :: "usb_call \<Rightarrow> bool" where
  "is_send (Xfer_In port m) = True"
| "is_send (Xfer_Out port) = False"

definition sent :: "'c ccid \<Rightarrow> usb_call list" where "sent s = filter is_send (cc_calls s)"

lemma arm_rx_sent [simp]: "sent (arm_rx s) = sent s"
  by (simp add: arm_rx_def edpt_xfer_def sent_def)

lemma driver_event_sent [simp]: "sent (driver_event e s) = sent s"
  by (cases e) (auto simp: ccid_init_def ccid_open_def ccid_xfer_out_def edpt_xfer_def sent_def arm_rx_def Let_def
      split: option.splits prod.splits)

lemma driver_events_sent [simp]: "sent (fold driver_event es s) = sent s"
  by (induction es arbitrary: s) simp_all

section \<open>One message\<close>

lemma emit_sw_length: "2 \<le> mx \<Longrightarrow> \<exists>m. emit_sw mx sw out = Some m \<and> 2 \<le> length m"
  by (simp add: emit_sw_def)

lemma dispatch_answers:
  assumes "apdu_dispatch_process T K G APDU_MAX_LEN apdu a = (Some r, a')"
  shows "\<exists>m. r = Some m \<and> 2 \<le> length m"
  using assms emit_sw_length [of APDU_MAX_LEN]
  by (auto simp: apdu_dispatch_process_def openpgp_applet_dispatch_def answer_def ccid_sizes
      split: prod.splits if_splits res.splits)

text \<open>Without USB callbacks meanwhile a block is answered by a framed message, however the applet answers.\<close>

lemma xfr_block_framed:
  assumes "resp_xfr_block T K G q apdu s = Some s'" and "\<forall>i. ap_usb (cc_applet s) i = []"
  shows "framed q (tx_msg s') \<and> s_tx_len s' = length (tx_msg s') \<and> answers_only s s'"
proof -
  obtain r a where d: "apdu_dispatch_process T K G APDU_MAX_LEN apdu (cc_applet s) = (r, a)" by fastforce
  have quiet: "usb_during (cc_applet s) a = []" using assms(2) by (simp add: usb_during_def)
  show ?thesis using assms(1) unfolding resp_xfr_block_def d prod.case quiet Let_def
    by (auto simp: resp_slot_status_def put_tx_only hdr_alone_framed hdr_framed ccid_sizes split: option.splits if_splits)
qed

lemma process_framed:
  assumes "process_message T K G msg s = Some s'" and "CCID_HDR_LEN \<le> length msg" and "\<forall>i. ap_usb (cc_applet s) i = []"
  shows "framed (msg ! 6) (tx_msg s') \<and> s_tx_len s' = length (tx_msg s') \<and> answers_only s s'"
proof -
  let ?on = "\<lambda>s. resp_power_on (msg ! 6) s" and ?st = "\<lambda>st e. resp_slot_status (msg ! 6) st e"
  have on: "framed (msg ! 6) (tx_msg (?on s1)) \<and> s_tx_len (?on s1) = length (tx_msg (?on s1))" for s1 :: "'a ccid"
    using hdr_framed [of s_atr] by (simp add: resp_power_on_def s_atr_def)
  have par: "framed (msg ! 6) (tx_msg (resp_parameters (msg ! 6) s1)) \<and>
    s_tx_len (resp_parameters (msg ! 6) s1) = length (tx_msg (resp_parameters (msg ! 6) s1))" for s1 :: "'a ccid"
    using hdr_framed [of s_t1_params] by (simp add: resp_parameters_def s_t1_params_def)
  have st: "framed (msg ! 6) (tx_msg (?st v e s1)) \<and> s_tx_len (?st v e s1) = length (tx_msg (?st v e s1))" for v e and s1 :: "'a ccid"
    using hdr_alone_framed by (simp add: resp_slot_status_def)
  have only: "answers_only s (?on (s\<lparr>cc_applet := a\<rparr>))" "answers_only s (resp_parameters (msg ! 6) s)"
    "answers_only s (?st v e s)" "answers_only s (?st v e (s\<lparr>cc_applet := a\<rparr>))" for v e a
    by (simp_all add: resp_power_on_def resp_parameters_def resp_slot_status_def put_tx_only)
  note block = xfr_block_framed [OF _ assms(3)]
  show ?thesis using assms(1,2)
    unfolding process_message_def Let_def
    by (simp only: if_False if_True not_less [symmetric] option.inject split: if_split_asm)
       (use on par st only block in blast)+
qed

lemma process_None:
  "process_message T K G msg s = None \<longleftrightarrow> CCID_HDR_LEN \<le> length msg \<and> msg ! 0 = CCID_PC_TO_RDR_XfrBlock \<and>
     unat (le32_load (drop 1 msg)) \<le> length msg - CCID_HDR_LEN \<and>
     fst (apdu_dispatch_process T K G APDU_MAX_LEN (take (unat (le32_load (drop 1 msg))) (drop CCID_HDR_LEN msg)) (cc_applet s)) = None"
  by (auto simp: process_message_def resp_xfr_block_def Let_def ccid_types split: option.splits prod.splits)

text \<open>Each bus reset during a message moves the epoch by one, and nothing is sent meanwhile.\<close>

lemma put_tx_sel [simp]: "cc_applet (put_tx m s) = cc_applet s" "s_epoch (put_tx m s) = s_epoch s" "sent (put_tx m s) = sent s"
  by (simp_all add: put_tx_def sent_def)

lemma resp_sel [simp]:
  "cc_applet (resp_power_on q s) = cc_applet s" "s_epoch (resp_power_on q s) = s_epoch s" "sent (resp_power_on q s) = sent s"
  "cc_applet (resp_slot_status q v e s) = cc_applet s" "s_epoch (resp_slot_status q v e s) = s_epoch s"
  "sent (resp_slot_status q v e s) = sent s"
  "cc_applet (resp_parameters q s) = cc_applet s" "s_epoch (resp_parameters q s) = s_epoch s" "sent (resp_parameters q s) = sent s"
  by (simp_all add: resp_power_on_def resp_slot_status_def resp_parameters_def)

lemma sent_fields [simp]: "sent (s\<lparr>cc_applet := a\<rparr>) = sent s" "sent (s\<lparr>s_tx_len := n\<rparr>) = sent s"
  "sent (s\<lparr>s_rx_buf := b\<rparr>) = sent s" "sent (s\<lparr>s_rx_pending := n\<rparr>) = sent s" "sent (s\<lparr>s_processing := p\<rparr>) = sent s"
  by (simp_all add: sent_def)

lemma usb_during_none [simp]: "ap_touches a' = ap_touches a \<Longrightarrow> usb_during a a' = []"
  by (simp add: usb_during_def)

lemma card_reset_touches [simp]: "ap_touches (apdu_dispatch_card_reset a) = ap_touches a"
  by (simp add: apdu_dispatch_card_reset_def openpgp_applet_card_reset_def)

definition resets_during :: "'c applet \<Rightarrow> 'c applet \<Rightarrow> nat" where
  "resets_during a a' = count_list (usb_during a a') Usb_Reset"

lemma resets_none [simp]: "ap_touches a' = ap_touches a \<Longrightarrow> resets_during a a' = 0"
  by (simp add: resets_during_def)

lemma block_epoch:
  assumes "resp_xfr_block T K G q apdu s = Some s'"
  shows "s_epoch s' = s_epoch s + of_nat (resets_during (cc_applet s) (cc_applet s')) \<and> sent s' = sent s"
proof -
  obtain r a where d: "apdu_dispatch_process T K G APDU_MAX_LEN apdu (cc_applet s) = (r, a)" by fastforce
  show ?thesis using assms unfolding resp_xfr_block_def d prod.case Let_def
    by (auto simp: driver_events_epoch resets_during_def split: option.splits if_splits)
qed

lemma process_epoch:
  assumes "process_message T K G msg s = Some s'"
  shows "s_epoch s' = s_epoch s + of_nat (resets_during (cc_applet s) (cc_applet s')) \<and> sent s' = sent s"
proof -
  note block = block_epoch [of T K G]
  show ?thesis using assms unfolding process_message_def Let_def
    by (simp only: if_False if_True option.inject split: if_split_asm) (use block in \<open>auto\<close>)
qed

text \<open>After a card reset no access is left.\<close>

definition closed :: "'c applet \<Rightarrow> bool" where
  "closed a \<longleftrightarrow> s_auth a AND AUTH_ALL = 0 \<and> s_kek a = replicate 32 0"

lemma and_not_part: "(x AND NOT m) AND (m :: u8) = 0"
  by (simp add: bit_eq_iff bit_simps)

lemma reset_closes: "closed (apdu_dispatch_card_reset a)"
proof -
  have "(s_auth a AND NOT AUTH_ALL) AND AUTH_PW1 = 0"
    unfolding and.assoc by (simp add: auths)
  then show ?thesis
    by (simp add: closed_def apdu_dispatch_card_reset_def openpgp_applet_card_reset_def auth_drop_def Let_def and_not_part)
qed

text \<open>The task returns when its message does.\<close>

lemma task_runs:
  assumes "process_message T K G (take (s_rx_pending s) (s_rx_buf s)) (s\<lparr>s_rx_pending := 0, s_processing := True\<rparr>) = Some s1"
    and "s_rx_pending s \<noteq> 0" and "\<not> user_presence_is_awaiting (ap_up (cc_applet s))"
  shows "\<exists>s'. usb_ccid_task T K G False s = Some s' \<and> ap_touches (cc_applet s') = ap_touches (cc_applet s1)"
  using assms by (auto simp: usb_ccid_task_def Let_def arm_rx_def edpt_xfer_def split: if_splits prod.splits)

text \<open>A declared body of more than 4102 bytes never reaches the dispatcher: the message does not fit the buffer.\<close>

lemma long_block_refused:
  assumes "CCID_HDR_LEN \<le> length msg" and "length msg \<le> CCID_MAX_MSG_LEN" and "4102 < unat (le32_load (drop 1 msg))"
  shows "process_message T K G msg s =
    Some (resp_slot_status (msg ! 6) (CCID_ICC_STATUS_ACTIVE OR CCID_CMD_STATUS_FAILED) CCID_ERROR_HW_ERROR s)"
proof -
  have "\<not> length msg < CCID_HDR_LEN" and "length msg - CCID_HDR_LEN < unat (le32_load (drop 1 msg))"
    using assms by (simp_all add: ccid_sizes)
  then show ?thesis unfolding process_message_def Let_def by (simp only: if_True if_False)
qed

section \<open>Properties\<close>

text \<open>
  C20. Every command of the host gets one answer that belongs to it: when the task takes a message of
  10 to 4112 bytes from the receive buffer and USB stays quiet meanwhile, either the APDU of a block waits for a
  touch forever, or the driver sends exactly one message and then listens again; the message has slot 0, the sequence number of the
  command, a length field equal to its body, a type the host knows, and fits the buffer; and the received bytes are wiped.
\<close>

theorem ccid_answer_framed:
  assumes "CCID_HDR_LEN \<le> s_rx_pending s" and "s_rx_pending s \<le> CCID_MAX_MSG_LEN" and "length (s_rx_buf s) = CCID_MAX_MSG_LEN"
    and "\<not> user_presence_is_awaiting (ap_up (cc_applet s))" and "\<forall>i. ap_usb (cc_applet s) i = []"
  shows "case usb_ccid_task T K G False s of
      None \<Rightarrow> s_rx_buf s ! 0 = CCID_PC_TO_RDR_XfrBlock \<and> (\<exists>apdu. fst (openpgp_applet_dispatch T K G APDU_MAX_LEN apdu (cc_applet s)) = None)
    | Some s' \<Rightarrow> \<exists>m. cc_calls s' = cc_calls s @ [Xfer_In (s_rhport s) m, Xfer_Out (s_rhport s)] \<and>
        framed (s_rx_buf s ! 6) m \<and> s_rx_pending s' = 0 \<and> take (s_rx_pending s) (s_rx_buf s') = replicate (s_rx_pending s) 0"
proof -
  let ?n = "s_rx_pending s" and ?s0 = "s\<lparr>s_rx_pending := 0, s_processing := True\<rparr>"
  let ?msg = "take ?n (s_rx_buf s)"
  have hd: "?msg ! 0 = s_rx_buf s ! 0" "?msg ! 6 = s_rx_buf s ! 6" and len: "CCID_HDR_LEN \<le> length ?msg"
    using assms(1,2,3) by (simp_all add: ccid_sizes)
  show ?thesis
  proof (cases "process_message T K G ?msg ?s0")
    case None
    then have "?msg ! 0 = CCID_PC_TO_RDR_XfrBlock"
      and w: "fst (apdu_dispatch_process T K G APDU_MAX_LEN (take (unat (le32_load (drop 1 ?msg))) (drop CCID_HDR_LEN ?msg)) (cc_applet ?s0)) = None"
      unfolding process_None by blast+
    then show ?thesis using assms(1,4) None hd w
      by (auto simp: usb_ccid_task_def Let_def apdu_dispatch_process_def ccid_sizes split: if_splits)
  next
    case (Some s1)
    have f: "framed (s_rx_buf s ! 6) (tx_msg s1)" "s_tx_len s1 = length (tx_msg s1)" and "answers_only ?s0 s1"
      using process_framed [OF Some len] assms(5) hd by simp_all
    then obtain a b k where s1: "s1 = ?s0\<lparr>cc_applet := a, s_tx_buf := b, s_tx_len := k\<rparr>" unfolding answers_only_def by blast
    have "s_tx_len s1 \<noteq> 0" using f by (auto simp: framed_def ccid_sizes)
    then show ?thesis using assms(1,4) Some f
      by (simp add: usb_ccid_task_def Let_def ccid_sizes s1 edpt_xfer_def arm_rx_def tx_msg_def)
  qed
qed

text \<open>
  C19. A bus reset ends the session, even inside an APDU: when between 1 and 2^32 - 1 bus resets arrive
  while the task answers a message, then whatever the APDU verified or decrypted, after the task no access
  is left, the KEK is zero, the stale answer is never sent, and the received bytes are wiped.
\<close>

theorem ccid_bus_reset_closes:
  assumes "usb_ccid_task T K G busy s = Some s'"
    and "0 < resets_during (cc_applet s) (cc_applet s')" and "resets_during (cc_applet s) (cc_applet s') < 2 ^ 32"
  shows "closed (cc_applet s') \<and> sent s' = sent s \<and> s_tx_len s' = 0 \<and>
    take (s_rx_pending s) (s_rx_buf s') = replicate (s_rx_pending s) 0"
proof -
  let ?n = "s_rx_pending s" and ?s0 = "s\<lparr>s_rx_pending := 0, s_processing := True\<rparr>"
  have runs: "\<not> (?n = 0 \<or> user_presence_is_awaiting (ap_up (cc_applet s)) \<or> busy)"
  proof
    assume "?n = 0 \<or> user_presence_is_awaiting (ap_up (cc_applet s)) \<or> busy"
    then have "s' = s" using assms(1) by (simp add: usb_ccid_task_def Let_def)
    then show False using assms(2) by simp
  qed
  then obtain s1 where p: "process_message T K G (take ?n (s_rx_buf s)) ?s0 = Some s1"
    using assms(1) by (auto simp: usb_ccid_task_def Let_def split: option.splits)
  note e = process_epoch [OF p, simplified]
  have t: "ap_touches (cc_applet s') = ap_touches (cc_applet s1)"
    using assms(1) runs p by (auto simp: usb_ccid_task_def Let_def arm_rx_def edpt_xfer_def split: if_splits prod.splits)
  then have "resets_during (cc_applet s) (cc_applet s1) = resets_during (cc_applet s) (cc_applet s')"
    by (simp add: resets_during_def usb_during_def)
  then have "(of_nat (resets_during (cc_applet s) (cc_applet s1)) :: u32) \<noteq> 0"
    using assms(2,3) by (simp add: word_of_nat_eq_0_iff) (auto dest: nat_dvd_not_less)
  then have "s_epoch s1 \<noteq> s_epoch s" using e by simp
  then show ?thesis using assms(1) runs p e reset_closes
    by (auto simp: usb_ccid_task_def Let_def arm_rx_def edpt_xfer_def sent_def split: if_splits)
qed

section \<open>Witnesses\<close>

definition demo_ccid :: "bytes \<Rightarrow> 'c applet \<Rightarrow> 'c ccid" where
  "demo_ccid msg a = \<lparr>cc_applet = a, s_itf_num = 2, s_rx_buf = msg @ replicate (4112 - length msg) 0,
     s_tx_buf = replicate 4112 0, s_tx_len = 0, s_rhport = 0, s_rx_pending = length msg, s_processing = False,
     s_epoch = 0, cc_calls = [], cc_answers = (\<lambda>_. True)\<rparr>"

lemma demo_ccid_sel:
  "cc_applet (demo_ccid msg a) = a" "s_rx_pending (demo_ccid msg a) = length msg" "cc_calls (demo_ccid msg a) = []"
  "s_rhport (demo_ccid msg a) = 0" "take (length msg) (s_rx_buf (demo_ccid msg a)) = msg"
  by (simp_all add: demo_ccid_def)

lemma demo_waits: "\<not> user_presence_is_awaiting up_start"
  by code_simp

text \<open>Get slot status, sequence number 9.\<close>

theorem ccid_answer_framed_witness:
  "\<exists>s' m. usb_ccid_task demo_signer demo_crypto demo_gcm False (demo_ccid [0x65, 0, 0, 0, 0, 0, 9, 0, 0, 0] (demo_ready 0)) = Some s' \<and>
     cc_calls s' = [Xfer_In 0 m, Xfer_Out 0] \<and> framed 9 m"
proof -
  let ?s = "demo_ccid [0x65, 0, 0, 0, 0, 0, 9, 0, 0, 0] (demo_ready 0)"
  have rx: "s_rx_buf ?s ! 0 = 0x65" "s_rx_buf ?s ! 6 = 9" "length (s_rx_buf ?s) = 4112" by (simp_all add: demo_ccid_def)
  have "case usb_ccid_task demo_signer demo_crypto demo_gcm False ?s of
      None \<Rightarrow> s_rx_buf ?s ! 0 = CCID_PC_TO_RDR_XfrBlock \<and>
        (\<exists>apdu. fst (openpgp_applet_dispatch demo_signer demo_crypto demo_gcm APDU_MAX_LEN apdu (cc_applet ?s)) = None)
    | Some s' \<Rightarrow> \<exists>m. cc_calls s' = cc_calls ?s @ [Xfer_In (s_rhport ?s) m, Xfer_Out (s_rhport ?s)] \<and>
        framed (s_rx_buf ?s ! 6) m \<and> s_rx_pending s' = 0 \<and> take (s_rx_pending ?s) (s_rx_buf s') = replicate (s_rx_pending ?s) 0"
    by (rule ccid_answer_framed) (simp_all add: demo_ccid_sel ccid_sizes demo_fields demo_waits rx)
  then show ?thesis
    by (auto simp: demo_ccid_sel rx ccid_types split: option.splits)
qed

text \<open>A bus reset while INTERNAL AUTHENTICATE waits for its touch.\<close>

abbreviation demo_reset_applet :: "mock applet" where
  "demo_reset_applet \<equiv> (demo_ready 2)\<lparr>ap_usb := \<lambda>_. [Usb_Reset]\<rparr>"

lemma demo_reset_gate: "\<exists>s'. touch_gate demo_reset_applet = (Val (), s') \<and> ap_chip s' = demo_mock \<and> ap_touches s' = 1"
proof -
  obtain u where "user_presence_check OPENPGP_TOUCH_TIMEOUT_MS 5 demo_press up_start = (Some UP_OK, u)"
    using demo_pressed by (metis prod.collapse)
  moreover have "ap_touches (demo_ready 2) = 0" by (simp add: demo_ready_def ap_start_def)
  ultimately show ?thesis
    by (simp add: touch_gate_def require_touch_if_enabled_def op_bind_def op_get_def touch_wait_def demo_fields demo_card_facts
        op_ret_def op_unless_def openpgp_applet_card_reset_def)
qed

lemma demo_reset_command:
  "\<exists>s'. openpgp_command demo_signer demo_crypto demo_gcm APDU_MAX_LEN [0, 0x88, 0, 0, 1, 7] demo_reset_applet =
     (Val (replicate 64 31), s') \<and> ap_touches s' = 1"
proof -
  obtain s' where g: "touch_gate demo_reset_applet = (Val (), s')" "ap_chip s' = demo_mock" "ap_touches s' = 1"
    using demo_reset_gate by blast
  have e: "ensured T K demo_reset_applet = demo_reset_applet" for T :: "mock tropic" and K
    by (rule ensured_settled) (simp add: demo_fields demo_card_facts)
  have "\<exists>s'. handle_internal_auth demo_signer APDU_MAX_LEN 0 0 [7] demo_reset_applet = (Val (replicate 64 31), s') \<and> ap_touches s' = 1"
    using g by (simp add: handle_internal_auth_def unless_bind need_def op_bind_def op_get_def op_unless_def op_ret_def has_auth_def
        demo_fields AUTH_82_def on_key_def pgp_keys_sign_with_aut_def demo_signer_def PGP_KEYS_AUT_SLOT_def PGP_KEYS_SIG_LEN_def
        key_result_def ccid_sizes)
  then show ?thesis
    by (simp add: openpgp_command_def apdu_body_def Let_def op_bind_def ensure_val e op_get_def demo_fields demo_card_facts
        lifecycle_refuses_def handle_ins_def inss)
qed

lemma demo_reset_task:
  obtains s' where
    "usb_ccid_task demo_signer demo_crypto demo_gcm False (demo_ccid [0x6F, 6, 0, 0, 0, 0, 9, 0, 0, 0, 0, 0x88, 0, 0, 1, 7] demo_reset_applet)
      = Some s'" and "ap_touches (cc_applet s') = 1"
proof -
  let ?m = "[0x6F, 6, 0, 0, 0, 0, 9, 0, 0, 0, 0, 0x88, 0, 0, 1, 7] :: bytes"
  obtain a where c: "openpgp_command demo_signer demo_crypto demo_gcm APDU_MAX_LEN [0, 0x88, 0, 0, 1, 7] demo_reset_applet =
     (Val (replicate 64 31), a)" and t: "ap_touches a = 1" using demo_reset_command by blast
  have l: "le32_load [6, 0, 0, 0, 0, 9, 0, 0, 0, 0, 0x88, 0, 0, 1, 7] = 6" by (simp add: le32_load_def)
  have d: "apdu_dispatch_process demo_signer demo_crypto demo_gcm APDU_MAX_LEN [0, 0x88, 0, 0, 1, 7] demo_reset_applet =
     (Some (Some (replicate 64 31 @ [0x90, 0])), a)"
    using c by (simp add: apdu_dispatch_process_def openpgp_applet_dispatch_def answer_def emit_sw_def ccid_sizes SW_OK_def)
  have run: "\<exists>s1. process_message demo_signer demo_crypto demo_gcm ?m s = Some s1 \<and> cc_applet s1 = a"
    if "cc_applet s = demo_reset_applet" for s
    using d by (simp add: process_message_def l that resp_xfr_block_def ccid_consts Let_def)
  obtain s1 where p: "process_message demo_signer demo_crypto demo_gcm ?m
      ((demo_ccid ?m demo_reset_applet)\<lparr>s_rx_pending := 0, s_processing := True\<rparr>) = Some s1" and a: "cc_applet s1 = a"
    using run [of "(demo_ccid ?m demo_reset_applet)\<lparr>s_rx_pending := 0, s_processing := True\<rparr>"] by (auto simp: demo_ccid_sel)
  have "\<exists>s'. usb_ccid_task demo_signer demo_crypto demo_gcm False (demo_ccid ?m demo_reset_applet) = Some s' \<and>
      ap_touches (cc_applet s') = ap_touches (cc_applet s1)"
  proof (rule task_runs)
    show "process_message demo_signer demo_crypto demo_gcm
        (take (s_rx_pending (demo_ccid ?m demo_reset_applet)) (s_rx_buf (demo_ccid ?m demo_reset_applet)))
        ((demo_ccid ?m demo_reset_applet)\<lparr>s_rx_pending := 0, s_processing := True\<rparr>) = Some s1"
      unfolding demo_ccid_sel by (rule p)
  qed (simp_all add: demo_ccid_sel demo_fields demo_waits)
  then show thesis using that a t by auto
qed

theorem ccid_bus_reset_closes_witness:
  "\<exists>s'. usb_ccid_task demo_signer demo_crypto demo_gcm False (demo_ccid [0x6F, 6, 0, 0, 0, 0, 9, 0, 0, 0, 0, 0x88, 0, 0, 1, 7] demo_reset_applet)
      = Some s' \<and> closed (cc_applet s') \<and> sent s' = []"
proof -
  let ?s = "demo_ccid [0x6F, 6, 0, 0, 0, 0, 9, 0, 0, 0, 0, 0x88, 0, 0, 1, 7] demo_reset_applet"
  obtain s' where r: "usb_ccid_task demo_signer demo_crypto demo_gcm False ?s = Some s'" and t: "ap_touches (cc_applet s') = 1"
    by (rule demo_reset_task)
  have "ap_touches (demo_ready 2) = 0" by (simp add: demo_ready_def ap_start_def)
  then have "resets_during (cc_applet ?s) (cc_applet s') = 1"
    by (simp add: resets_during_def usb_during_def t demo_ccid_sel)
  then have "closed (cc_applet s') \<and> sent s' = sent ?s" using ccid_bus_reset_closes [OF r] by simp
  then show ?thesis using r by (simp add: sent_def demo_ccid_sel)
qed

end
