(* ===== verification/Openpgp_Effects.thy ===== *)
theory Openpgp_Effects
  imports Openpgp_Secrets
begin

text \<open>
  What single OpenPGP commands leave behind: a signature is counted before it is made and can use up
  its access, a reset of PW1 destroys the decryption key first, and the ECDH input form is parsed
  inside its bounds.
\<close>

section \<open>Steps of a handler\<close>

lemma pgp_okI_same: "pgp_ok T K I view p c \<Longrightarrow> p' = p \<Longrightarrow> c' = c \<Longrightarrow> pgp_ok T K I view p' c'"
  by simp

lemma on_pgp_val: "on_pgp f s = (Val x, s') \<longleftrightarrow> (\<exists>p c. f (ap_pgp s) (ap_chip s) = (x, p, c) \<and> s' = s\<lparr>ap_pgp := p, ap_chip := c\<rparr>)"
  by (auto simp: on_pgp_def split: prod.splits)

lemma on_key_val: "on_key f s = (Val x, s') \<longleftrightarrow> (\<exists>c. f (ap_chip s) = (x, c) \<and> s' = s\<lparr>ap_chip := c\<rparr>)"
  by (auto simp: on_key_def split: prod.splits)

lemma key_result_val: "key_result r s = (Val x, s') \<longleftrightarrow> r = Inr x \<and> s' = s"
  by (auto simp: key_result_def op_vals split: sum.splits)

text \<open>9000 without data is exactly \<open>PGP_PIN_OK\<close>.\<close>

lemma retries_not_ok: "0x63C0 + unat ((x :: u8) AND 0x0F) \<noteq> SW_OK"
proof -
  have "unat (x AND 0x0F) \<le> unat (0x0F :: u8)" unfolding word_le_nat_alt [symmetric] by (rule word_and_le1)
  then show ?thesis by (simp add: SW_OK_def)
qed

lemma pin_sw_val: "pin_sw T K rc w s = (Val SW_OK, s') \<Longrightarrow> rc = PGP_PIN_OK \<and> s' = s"
  using retries_not_ok by (fastforce simp: pin_sw_def retries_sw_def op_vals sws split: if_splits)

lemma pin_answer_val: "pin_answer T K rc w s = (Val out, s') \<longleftrightarrow> rc = PGP_PIN_OK \<and> out = [] \<and> s' = s"
proof
  assume "pin_answer T K rc w s = (Val out, s')"
  then obtain sw s1 where "pin_sw T K rc w s = (Val sw, s1)" "sw_only sw s1 = (Val out, s')"
    unfolding pin_answer_def op_bind_val by blast
  then show "rc = PGP_PIN_OK \<and> out = [] \<and> s' = s"
    using pin_sw_val by (fastforce simp: sw_only_def op_vals split: if_splits)
next
  assume "rc = PGP_PIN_OK \<and> out = [] \<and> s' = s"
  then show "pin_answer T K rc w s = (Val out, s')"
    by (simp add: pin_answer_def op_bind_def pin_sw_def op_ret_def sw_only_def)
qed

lemma pin_must_val: "pin_must T K rc w s = (Val u, s') \<longleftrightarrow> rc = PGP_PIN_OK \<and> s' = s"
  by (auto simp: pin_must_def op_vals)

text \<open>A setter that answered 0 has done its step on the card.\<close>

lemma o3_stepped:
  assumes "pgp_ok T K I view p c" and "o3_typed cmd" and "on_o3 (o3_run T K cmd) p c = (0, p', c')"
  shows "presents (p_o3 p) k \<longrightarrow> presents (p_o3 p') (card_step cmd k)" and "\<exists>k. presents (p_o3 p') (card_step cmd k)"
proof -
  obtain s where r: "o3_run T K cmd (p_o3 p) c = (0, s, c')" and p': "p' = p\<lparr>p_o3 := s\<rparr>"
    using assms(3) by (auto simp: on_o3_def split: prod.splits)
  note ro = run_ok [OF pgp_okD(6) [OF assms(1)] assms(2) r]
  have u: "pgp_usable (p_o3 p)" "pgp_usable s" and k: "card_of (s_cur s) = card_step cmd (card_of (s_cur (p_o3 p)))"
    using ro(2) by simp_all
  have l: "length (s_cur (p_o3 p)) = O3_LEN" "length (s_cur s) = O3_LEN"
    using cur_facts [OF pgp_okD(6) [OF assms(1)] u(1)] cur_facts [OF ro(1) u(2)] by blast+
  have "presents s (card_of (s_cur s))" using presents_cur [OF u(2) l(2)] by simp
  then show "presents (p_o3 p) k \<longrightarrow> presents (p_o3 p') (card_step cmd k)" "\<exists>k. presents (p_o3 p') (card_step cmd k)"
    using presents_cur [OF u(1) l(1)] p' k by auto
qed

section \<open>Signatures\<close>

lemma cds_after_check:
  assumes "has_auth AUTH_81 s" and "pso_cds T K mx body s = (r, s')"
  shows "gains (if openpgp_state_c4_multi (ap_o3 s) = 0 then auth_drop AUTH_81 s else s) s' = 0"
proof -
  let ?s1 = "if openpgp_state_c4_multi (ap_o3 s) = 0 then auth_drop AUTH_81 s else s"
  let ?tail = "op_bind touch_gate (\<lambda>_.
     op_bind (op_unless (body = []) SW_WRONG_LENGTH) (\<lambda>_.
     op_bind (on_pgp (on_o3 (openpgp_state_sig_counter_increment T K))) (\<lambda>rc.
     op_bind (op_unless (rc \<noteq> 0) SW_UNKNOWN_ERROR) (\<lambda>_.
     op_bind (on_key (pgp_keys_sign_with_sig T body)) (\<lambda>r.
     op_bind (key_result r) (\<lambda>sig.
     op_bind (op_unless (mx < PGP_KEYS_SIG_LEN + 2) SW_WRONG_LENGTH) (\<lambda>_. op_ret sig)))))))"
  have run: "?tail ?s1 = (r, s')"
    using assms by (simp add: pso_cds_def need_def op_bind_def op_get_def op_unless_def op_ret_def op_upd_def)
  have "keeps (calm T K (\<lambda>_. False) (\<lambda>_ _. [])) ?tail" by (intro calm_intros)
  from keepsD [OF this run] show ?thesis by (simp add: calm_def)
qed

text \<open>
  C14. A signature is counted and can be a single one: when PSO:CDS gives a signature, the card shows
  one signature more than before and nothing else changed on it.  If DO C4 says that PW1.81
  covers one signature, the access is gone after the command, whatever it answered, and the
  next one is refused without changing anything.
\<close>

theorem pgp_signature_counted:
  assumes "pgp_ok T K I view (ap_pgp s) (ap_chip s)" and "presents (ap_o3 s) k" and "pso_cds T K mx body s = (r, s')"
  shows "(\<forall>sig. r = Val sig \<longrightarrow> presents (ap_o3 s') (card_step CountSignature k)) \<and>
    (c_c4 k = 0 \<longrightarrow> \<not> has_auth AUTH_81 s' \<and> pso_cds T K mx' body' s' = (Fail SW_SECURITY_NOT_SATISFIED, s'))"
proof -
  let ?s1 = "if openpgp_state_c4_multi (ap_o3 s) = 0 then auth_drop AUTH_81 s else s"
  have "presents (ap_o3 s') (card_step CountSignature k)" if v: "r = Val sig" for sig
  proof -
    obtain u s2 s3 r5 c4 where g: "touch_gate ?s1 = (Val u, s2)"
      and n: "on_pgp (on_o3 (openpgp_state_sig_counter_increment T K)) s2 = (Val 0, s3)" and s': "s' = s3\<lparr>ap_chip := c4\<rparr>"
      and k5: "pgp_keys_sign_with_sig T body (ap_chip s3) = (r5, c4)"
      using assms(3) unfolding v pso_cds_def op_bind_val need_val upd_val op_unless_val on_key_val key_result_val op_ret_val by blast
    have e: "ap_pgp s2 = ap_pgp s" "ap_chip s2 = ap_chip s" using touch_gateD(2,3) [OF g] by (simp_all split: if_splits)
    obtain p c where o: "on_o3 (o3_run T K CountSignature) (ap_pgp s) (ap_chip s) = (0, p, c)" and s3: "s3 = s2\<lparr>ap_pgp := p, ap_chip := c\<rparr>"
      using n unfolding on_pgp_val e by auto
    show ?thesis using o3_stepped(1) [OF assms(1) _ o] assms(2) s' s3 by simp
  qed
  moreover have "\<not> has_auth AUTH_81 s'" if z: "c_c4 k = 0"
  proof (cases "has_auth AUTH_81 s")
    case True
    have "openpgp_state_c4_multi (ap_o3 s) = 0" using assms(2) z by (simp add: presents_def)
    then have "gains (auth_drop AUTH_81 s) s' = 0" using cds_after_check [OF True assms(3)] by simp
    moreover have "s_auth (auth_drop AUTH_81 s) AND AUTH_81 = 0"
      by (simp add: auth_drop_def Let_def bit_eq_iff bit_simps)
    ultimately show ?thesis using gains_le by (simp add: has_auth_def)
  next
    case False
    then show ?thesis using assms(3) by (simp add: pso_cds_def need_def op_bind_def op_get_def op_unless_def op_fail_def)
  qed
  moreover have "pso_cds T K mx' body' s' = (Fail SW_SECURITY_NOT_SATISFIED, s')" if "\<not> has_auth AUTH_81 s'"
    using that by (simp add: pso_cds_def need_def op_bind_def op_get_def op_unless_def op_fail_def)
  ultimately show ?thesis by blast
qed

section \<open>RESET RETRY COUNTER\<close>

text \<open>
  C15. A reset of PW1 leaves no decryption key behind: when RESET RETRY COUNTER answers 9000, it was
  authorised by PW3 (P1 = 02) or by a Resetting Code that was checked right (P1 = 00), the
  decryption key is gone from the card, both accesses of PW1 are dropped and the KEK is zero.
\<close>

theorem pgp_reset_destroys_key:
  assumes "pgp_ok T K I view (ap_pgp s) (ap_chip s)" and "handle_reset_rc T K p1 p2 body s = (Val out, s')"
  shows "openpgp_state_dec_get (ap_o3 s') = None \<and> s_auth s' AND AUTH_PW1 = 0 \<and> openpgp_applet_test_kek_zero s' \<and>
    (p1 = 0x02 \<and> has_auth AUTH_83 s \<or>
     p1 = 0x00 \<and> (\<exists>n p c k p' c'. pgp_pin_verify T K OPENPGP_PIN_RC (take n body) p c = (PGP_PIN_OK, k, p', c')))"
proof -
  obtain n s1 s2 s3 u where pq: "p1 = 0x00 \<or> p1 = 0x02" and sp: "reset_rc_split T K p1 body s = (Val n, s1)"
    and ck: "on_pgp (pgp_pin_reset_pw1_check T K (drop n body)) s1 = (Val PGP_PIN_OK, s2)"
    and vf: "(if p1 = 0x00 then op_bind (verify_pin T K OPENPGP_PIN_RC (take n body)) (\<lambda>(r2, _). pin_must T K r2 OPENPGP_PIN_RC)
        else op_ret ()) s2 = (Val u, s3)"
    and ds: "op_bind (on_pgp (on_o3 (openpgp_state_dec_destroy T K))) (\<lambda>r3. op_bind (op_unless (r3 \<noteq> 0) SW_UNKNOWN_ERROR) (\<lambda>_.
        op_bind (on_pgp (pgp_pin_reset_pw1 T K (drop n body))) (\<lambda>r4. pin_answer T K r4 OPENPGP_PIN_PW1)))
        (auth_drop AUTH_PW1 s3) = (Val out, s')"
    using assms(2) unfolding handle_reset_rc_def Let_def op_bind_val [of "op_unless _ _"] op_bind_val [of "reset_rc_split _ _ _ _"]
      op_bind_val [of "on_pgp (pgp_pin_reset_pw1_check _ _ _)"] op_bind_val [of "pin_must _ _ _ _"] op_unless_val pin_must_val
      op_bind_val [of "if _ then _ else _"] op_bind_val [of "op_upd _"] upd_val by blast
  have "keeps (calm T K I view) (reset_rc_split T K p1 body)" unfolding reset_rc_split_def by (intro calm_intros)
  note c1 = keepsD [OF this sp] and c2 = keepsD [OF calm_pins(4) ck]
  have "keeps (calm T K I view) (if p1 = 0x00 then op_bind (verify_pin T K OPENPGP_PIN_RC (take n body)) (\<lambda>(r2, _). pin_must T K r2 OPENPGP_PIN_RC)
        else op_ret ())" by (intro calm_intros)
  note c3 = keepsD [OF this vf]
  let ?d = "auth_drop AUTH_PW1 s3"
  have ok3: "pgp_ok T K I view (ap_pgp ?d) (ap_chip ?d)"
    using transpD [OF calm_transp transpD [OF calm_transp c1 c2] c3] assms(1)
    by (auto simp: calm_def stays_def dest: does_ok)
  obtain p4 c4 p5 c5 where d4: "on_o3 (o3_run T K DestroyDec) (ap_pgp ?d) (ap_chip ?d) = (0, p4, c4)"
    and r5: "pgp_pin_reset_pw1 T K (drop n body) p4 c4 = (PGP_PIN_OK, p5, c5)"
    and s': "s' = ?d\<lparr>ap_pgp := p5, ap_chip := c5\<rparr>"
    using ds unfolding op_bind_val on_pgp_val op_unless_val pin_answer_val by auto
  have ok4: "pgp_ok T K I view p4 c4" by (rule does_ok [OF setter_does [OF ok3 _ d4]]) simp
  have "p_o3 p5 = p_o3 p4"
  proof -
    have "bind_pin T K OPENPGP_PIN_PW1 (drop n body) p4 c4 = (PGP_PIN_OK, p5, c5)"
      using r5 by (simp add: pgp_pin_reset_pw1_def PGP_PIN_OK_def PGP_PIN_BAD_LEN_def PGP_PIN_ERR_def split: if_splits)
    from bind_does(2) [OF ok4 _ this] show ?thesis by (simp add: pgp_pins)
  qed
  then have dec: "openpgp_state_dec_get (ap_o3 s') = None"
    using o3_stepped(2) [OF ok3 _ d4] s' by (auto simp: presents_def)
  have au: "s_auth s' AND AUTH_PW1 = 0"
    by (simp add: s' auth_drop_def Let_def bit_eq_iff bit_simps)
  moreover have "s_auth s3 AND NOT AUTH_PW1 AND AUTH_PW1 = 0" by (simp add: bit_eq_iff bit_simps)
  ultimately have "openpgp_applet_test_kek_zero s'"
    by (simp add: s' openpgp_applet_test_kek_zero_def auth_drop_def Let_def)
  moreover have "has_auth AUTH_83 s" if "p1 = 0x02"
    using sp that by (auto simp: reset_rc_split_def op_vals)
  moreover have "\<exists>n p c k p' c'. pgp_pin_verify T K OPENPGP_PIN_RC (take n body) p c = (PGP_PIN_OK, k, p', c')" if z: "p1 = 0x00"
  proof -
    obtain rk s4 where "verify_pin T K OPENPGP_PIN_RC (take n body) s2 = (Val rk, s4)" and "fst rk = PGP_PIN_OK"
      using vf z by (auto simp: op_bind_val pin_must_val)
    then show ?thesis by (auto simp: verify_pin_def on_pgp_val split: prod.splits) blast
  qed
  ultimately show ?thesis using dec au pq by blast
qed

section \<open>Parsing the ECDH input\<close>

text \<open>One of the three BER forms of a length.\<close>

definition ber_form :: "nat \<Rightarrow> bytes \<Rightarrow> bool" where
  "ber_form n l \<longleftrightarrow> (n < 128 \<and> l = [of_nat n]) \<or> (n < 256 \<and> l = [0x81, of_nat n]) \<or>
     (n < 65536 \<and> l = [0x82, of_nat (n div 256), of_nat (n mod 256)])"

lemma ber_len_at_form:
  assumes "ber_form n l" and "drop off body = l @ post" and "off \<le> length body"
  shows "ber_len_at body off = Some (n, off + length l)"
proof -
  have n: "body ! (off + i) = (l @ post) ! i" if "i < length l" for i
    using assms(2,3) that by (metis nth_drop)
  have ln: "length body = off + length l + length post" using arg_cong [OF assms(2), of length] assms(3) by simp
  from assms(1) consider "n < 128" "l = [of_nat n]" | "n < 256" "l = [0x81, of_nat n]"
    | "n < 65536" "l = [0x82, of_nat (n div 256), of_nat (n mod 256)]" by (auto simp: ber_form_def)
  then show ?thesis
  proof cases
    case 1
    then show ?thesis using n [of 0] by (simp add: ber_len_at_def word_less_nat_alt unat_of_nat)
  next
    case 2
    then show ?thesis using n [of 0] n [of 1] ln by (simp add: ber_len_at_def word_less_nat_alt unat_of_nat)
  next
    case 3
    have "n div 256 < 256" using 3(1) by (simp add: less_mult_imp_div_less)
    moreover have "body ! off = 0x82" "body ! (off + 1) = of_nat (n div 256)" "body ! (off + 2) = of_nat (n mod 256)"
      using 3(2) n [of 0] n [of 1] n [of 2] by simp_all
    ultimately show ?thesis using 3 ln by (simp add: ber_len_at_def word_less_nat_alt unat_of_nat mult.commute)
  qed
qed

lemma two_at:
  assumes "drop m b = x # y # zs"
  shows "b ! m = x" and "b ! (m + 1) = y" and "drop (m + 2) b = zs"
proof -
  have l: "m \<le> length b" using assms by (cases "m \<le> length b") simp_all
  show "b ! m = x" "b ! (m + 1) = y" using nth_drop [OF l, of 0] nth_drop [OF l, of 1] assms by simp_all
  have "drop (m + 2) b = drop 2 (drop m b)" by (simp add: add.commute)
  then show "drop (m + 2) b = zs" unfolding assms by simp
qed

lemma parse_point:
  assumes "parse_pso_dec_body body = Some peer"
  shows "body ! 0 = 0xA6 \<and> (\<exists>n. n + 2 + 32 \<le> length body \<and> body ! n = 0x86 \<and> body ! (n + 1) = 0x20 \<and>
    peer = take 32 (drop (n + 2) body))"
proof -
  obtain a off b n where "body ! 0 = 0xA6" and "ber_len_at body 1 = Some (a, off)" and "ber_len_at body (off + 2) = Some (b, n)"
    and "\<not> n + 2 + 32 > length body" "body ! n = 0x86" "body ! (n + 1) = 0x20" "peer = take 32 (drop (n + 2) body)"
    using assms unfolding parse_pso_dec_body_def by (simp split: if_splits option.splits prod.splits)
  then show ?thesis by (intro conjI exI [of _ n]) (simp_all add: not_less)
qed

text \<open>
  C16. The ECDH input of PSO:DECIPHER is read inside the body and read back: whatever the host sends, a
  point that is accepted is 32 bytes of the body that follow the tag 86 20; and the nested form
  A6, 7F49, 86 around a 32-byte point is accepted with that point in each of the three BER forms
  of the two lengths, with anything after it.
\<close>

theorem pgp_ecdh_input_parsed:
  "(\<forall>peer. parse_pso_dec_body body = Some peer \<longrightarrow> length peer = 32 \<and> body ! 0 = 0xA6 \<and>
     (\<exists>pre post. body = pre @ [0x86, 0x20] @ peer @ post)) \<and>
   (\<forall>peer l1 l2 post. length peer = 32 \<longrightarrow> ber_form 34 l2 \<longrightarrow> ber_form (36 + length l2) l1 \<longrightarrow>
     parse_pso_dec_body ([0xA6] @ l1 @ [0x7F, 0x49] @ l2 @ [0x86, 0x20] @ peer @ post) = Some peer)"
proof (intro conjI allI impI)
  fix peer assume a: "parse_pso_dec_body body = Some peer"
  obtain n where n: "n + 2 + 32 \<le> length body" "body ! n = 0x86" "body ! (n + 1) = 0x20" "peer = take 32 (drop (n + 2) body)"
    and h: "body ! 0 = 0xA6"
    using parse_point [OF a] by blast
  show "length peer = 32" and "body ! 0 = 0xA6" using n h by simp_all
  have "body = take n body @ [body ! n, body ! (n + 1)] @ drop (n + 2) body"
    using n(1) by (simp add: Cons_nth_drop_Suc)
  then show "\<exists>pre post. body = pre @ [0x86, 0x20] @ peer @ post"
    using n by (metis append.assoc append_take_drop_id)
next
  fix peer l1 l2 post :: bytes
  assume p: "length peer = 32" and l2: "ber_form 34 l2" and l1: "ber_form (36 + length l2) l1"
  let ?b = "[0xA6] @ l1 @ [0x7F, 0x49] @ l2 @ [0x86, 0x20] @ peer @ post"
  have len: "1 \<le> length l1" "1 \<le> length l2" using l1 l2 by (auto simp: ber_form_def)
  have 1: "ber_len_at ?b 1 = Some (36 + length l2, 1 + length l1)"
    by (rule ber_len_at_form [OF l1]) simp_all
  have d2: "drop (1 + length l1 + 2) ?b = l2 @ [0x86, 0x20] @ peer @ post" by simp
  have 2: "ber_len_at ?b (1 + length l1 + 2) = Some (34, 1 + length l1 + 2 + length l2)"
    by (rule ber_len_at_form [OF l2 d2]) simp
  have d1: "drop (1 + length l1) ?b = 0x7F # 0x49 # l2 @ [0x86, 0x20] @ peer @ post"
    and d3: "drop (1 + length l1 + 2 + length l2) ?b = 0x86 # 0x20 # peer @ post" by simp_all
  have L: "length ?b = 1 + length l1 + 2 + length l2 + 2 + 32 + length post" using p by simp
  have b0: "?b ! 0 = 0xA6" by simp
  note b = b0 two_at(1,2) [OF d1] two_at(1,2) [OF d3] and e = two_at(3) [OF d3]
  show "parse_pso_dec_body ?b = Some peer"
    unfolding parse_pso_dec_body_def b 1 option.case prod.case 2 e L using len p by simp
qed

section \<open>Witnesses\<close>

theorem pgp_ecdh_input_parsed_witness:
  "parse_pso_dec_body ([0xA6, 38, 0x7F, 0x49, 0x81, 34, 0x86, 0x20] @ replicate 32 9) = Some (replicate 32 9)"
  using pgp_ecdh_input_parsed [THEN conjunct2, rule_format, of "replicate 32 9" "[0x81, 34]" "[38]" "[]"]
  by (simp add: ber_form_def)

text \<open>The chip of the mock that also signs keeps the laws.\<close>

lemma demo_signer_sel:
  "tropic_rmem_read demo_signer = tropic_rmem_read demo_chip" "tropic_rmem_write demo_signer = tropic_rmem_write demo_chip"
  "tropic_rmem_erase demo_signer = tropic_rmem_erase demo_chip" "tropic_mac_and_destroy demo_signer = tropic_mac_and_destroy demo_chip"
  "tropic_random demo_signer = tropic_random demo_chip" "tropic_l3_session_ensure demo_signer = tropic_l3_session_ensure demo_chip"
  "tropic_ecc_generate demo_signer = tropic_ecc_generate demo_chip" "tropic_ecc_pubkey_read demo_signer = tropic_ecc_pubkey_read demo_chip"
  "tropic_ecc_ecdsa_sign demo_signer = tropic_ecc_ecdsa_sign demo_chip" "tropic_ecc_erase demo_signer = tropic_ecc_erase demo_chip"
  "tropic_mcounter_init demo_signer = tropic_mcounter_init demo_chip" "tropic_mcounter_update demo_signer = tropic_mcounter_update demo_chip"
  "tropic_mcounter_get demo_signer = tropic_mcounter_get demo_chip"
  by (simp_all add: demo_signer_def)

lemma demo_signer_rmem: "rmem_chip demo_signer mock_inv mock_view"
  using demo_chip_rmem unfolding rmem_chip_def demo_signer_sel .

lemma demo_signer_live: "live_rmem demo_signer mock_inv mock_view mock_good"
  using demo_chip_live unfolding live_rmem_def live_rmem_axioms_def rmem_chip_def demo_signer_sel .

lemma demo_signer_framed: "framed_chip demo_signer mock_inv mock_view"
proof (rule framed_chip.intro [OF demo_signer_rmem])
  note laws = framed_chip.md_inv framed_chip.md_frame framed_chip.random_inv framed_chip.random_frame framed_chip.session_inv
    framed_chip.session_frame framed_chip.ecc_gen_rest framed_chip.ecc_pub_rest framed_chip.ecdsa_rest framed_chip.ecc_erase_rest
    framed_chip.mc_init_rest framed_chip.mc_update_rest framed_chip.mc_get_rest framed_chip.random_length
  have sign: "tropic_ecc_eddsa_sign demo_signer i d c = (r, c') \<Longrightarrow> c' = c" for i d c r c' by (simp add: demo_signer_def)
  show "framed_chip_axioms demo_signer mock_inv mock_view"
    by (rule framed_chip_axioms.intro, unfold demo_signer_sel; (rule laws [OF demo_framed], assumption, assumption | blast dest: sign))
qed

lemma demo_signed:
  obtains s sig s' where "pgp_ok demo_signer demo_crypto mock_inv mock_view (ap_pgp s) (ap_chip s)"
    and "presents (ap_o3 s) (card_of (defaults PGP_LC_OPERATIONAL))"
    and "pso_cds demo_signer demo_crypto 256 [7] s = (Val sig, s')"
proof -
  obtain o3 c where ok: "o3_ok demo_chip demo_crypto mock_inv mock_view o3 c" and u: "pgp_usable o3"
    and df: "s_cur o3 = defaults PGP_LC_OPERATIONAL" and g: "mock_good c" and o: "s_o3 o3 = O3_START"
    and gen: "gen_of (mock_view c 33) = 1" by (rule demo_card)
  have ok': "o3_ok demo_signer demo_crypto mock_inv mock_view o3 c"
    using ok demo_signer_rmem by (simp add: o3_ok_def pair_ok_def)
  let ?s = "(demo_ready 1)\<lparr>ap_pgp := pgp_pin_start\<lparr>p_o3 := o3\<rparr>, ap_chip := c\<rparr>"
  have pok: "pgp_ok demo_signer demo_crypto mock_inv mock_view (ap_pgp ?s) (ap_chip ?s)"
    using ok' o demo_signer_framed by (simp add: pgp_ok_def pgp_pin_start_def O3_START_def PIN_REC_def)
  have l: "length (s_cur o3) = O3_LEN" using cur_facts [OF ok' u] by blast
  have p: "presents o3 (card_of (defaults PGP_LC_OPERATIONAL))" using presents_cur [OF u l] df by simp
  obtain o3' c' where run: "o3_run demo_signer demo_crypto CountSignature o3 c = (0, o3', c')"
    by (rule live_rmem.run_live [OF demo_signer_live g ok' u, of CountSignature])
       (use o gen in \<open>simp_all add: df O3_START_def, simp add: defaults_def Let_def o3_layout pgp_lcs\<close>)
  obtain v where v: "user_presence_check OPENPGP_TOUCH_TIMEOUT_MS 5 demo_press up_start = (Some UP_OK, v)"
    using demo_pressed by (metis prod.collapse)
  have f: "openpgp_state_c4_multi o3 = 1" "openpgp_state_uif o3 = 1" using p by (simp_all add: presents_def demo_defaults)
  have "\<exists>s'. pso_cds demo_signer demo_crypto 256 [7] ?s = (Val (replicate 64 29), s')"
    using run v
    by (simp add: pso_cds_def need_def unless_bind op_bind_def op_get_def op_unless_def op_ret_def op_upd_def has_auth_def demo_fields auths f
        touch_gate_def require_touch_if_enabled_def touch_wait_def on_pgp_def on_o3_def on_key_def pgp_keys_sign_with_sig_def
        demo_signer_def PGP_KEYS_SIG_SLOT_def PGP_KEYS_SIG_LEN_def key_result_def)
  then show thesis using that [OF pok] p by auto
qed

theorem pgp_signature_counted_witness:
  "\<exists>s k sig s'. pso_cds demo_signer demo_crypto 256 [7] s = (Val sig, s') \<and> c_signatures k = 0 \<and> presents (ap_o3 s) k \<and>
     presents (ap_o3 s') (card_step CountSignature k)"
proof -
  obtain s sig s' where ok: "pgp_ok demo_signer demo_crypto mock_inv mock_view (ap_pgp s) (ap_chip s)"
    and p: "presents (ap_o3 s) (card_of (defaults PGP_LC_OPERATIONAL))"
    and r: "pso_cds demo_signer demo_crypto 256 [7] s = (Val sig, s')" by (rule demo_signed)
  have "presents (ap_o3 s') (card_step CountSignature (card_of (defaults PGP_LC_OPERATIONAL)))"
    using pgp_signature_counted [OF ok p r] by blast
  moreover have "c_signatures (card_of (defaults PGP_LC_OPERATIONAL)) = 0" by (simp add: demo_defaults)
  ultimately show ?thesis using r p by blast
qed

text \<open>An operational card and a bound PW1 on one chip.\<close>

abbreviation demo_keyed_chip :: "mock \<Rightarrow> bool" where "demo_keyed_chip \<equiv> mock_keyed demo_crypto (replicate 32 7)"

lemma demo_keyed_live: "live_rmem demo_chip mock_inv mock_view demo_keyed_chip"
  using demo_live_kernel by (simp add: live_kernel_def live_dev_def)

lemma demo_keyed_card:
  obtains s c where "o3_ok demo_chip demo_crypto mock_inv mock_view s c" and "pgp_usable s"
    and "s_cur s = defaults PGP_LC_OPERATIONAL" and "demo_keyed_chip c" and "s_o3 s = O3_START"
    and "\<forall>t. t \<notin> {33, 43} \<longrightarrow> mock_view c t = []"
proof -
  let ?d = "defaults PGP_LC_OPERATIONAL"
  have p: "O3_START\<lparr>uncertain := False\<rparr> = O3_START" by (simp add: O3_START_def)
  have ba: "\<not> bad_args ?d" by (simp add: bad_args_def rec_consts o3_layout)
  obtain c where w: "rec_pair_init demo_chip demo_crypto ?d O3_START demo_mock = (REC_OK, O3_START, c)"
    and g: "demo_keyed_chip c"
    by (rule live_rmem.rest_init [OF demo_keyed_live demo_keyed crypto_ok_demo _ ba, of O3_START])
       (auto simp: pair_usable_def O3_START_def)
  let ?s = "pgp_start\<lparr>s_loaded := True, s_cur := ?d\<rparr>"
  have i: "openpgp_state_init demo_chip demo_crypto PGP_LC_OPERATIONAL pgp_start demo_mock = (0, ?s, c)"
    using w p by (simp add: openpgp_state_init_def Let_def pgp_start_def pgp_lcs)
  have po: "pair_ok demo_chip demo_crypto mock_inv mock_view (s_o3 pgp_start, demo_mock)"
    by (simp add: pair_ok_def demo_chip_rmem pgp_start_def O3_START_def)
  have "o3_ok demo_chip demo_crypto mock_inv mock_view ?s c" using init_ok(1) [OF po _ i] by (simp add: pgp_lcs)
  moreover have "mock_view c t = []" if "t \<notin> {33, 43}" for t
    using o3_init_only [OF po i] that demo_blank by (auto simp: o3_only_def slots_only_def pgp_start_def O3_START_def)
  ultimately show thesis
    by (intro that [of ?s c]) (use g in \<open>simp_all add: pgp_usable_def pgp_start_def O3_START_def\<close>)
qed

lemma setup_again:
  assumes "live_kernel T I view good md ld mix" and "crypto_ok K" and "valid_layout L"
    and "pair_usable p" and "ranges L = 2" and "good c" and "pin_set K ld mix md view L p 1 b mat s c" and "plen < 256"
  shows "\<exists>k c'. pin_md_kernel_setup T K L new plen p c = (PMD_OK, k, p, c')"
proof -
  have ld: "live_dev T I view good" using assms(1) by (simp add: live_kernel_def)
  then have rm: "framed_chip T I view" and li: "live_rmem T I view good" by (simp_all add: live_dev_def)
  obtain s' c1 where r: "tropic_random T 32 c = (Inr s', c1)" and g: "good c1"
    using live_dev.dev_random [OF ld assms(6), of 32] by auto
  have i: "I c" by (rule live_rmem.good_inv [OF li assms(6)])
  have l: "length s' = 32" and v: "view c1 = view c"
    using framed_chip.random_length [OF rm i r] framed_chip.random_frame [OF rm i r] by auto
  have p1: "pin_set K ld mix md view L p 1 b mat s c1"
    using assms(7) v live_kernel.random_md [OF assms(1,6) r] by (simp add: pin_set_def at_rest_def)
  obtain b' c' where "setup_s T K L new plen s' p c1 = (PMD_OK, p, c')"
    by (rule live_kernel.setup_over [OF assms(1) g assms(2-5) p1 assms(8) l, where new = new]) simp_all
  then show ?thesis using assms(3) r by (auto simp: pin_md_kernel_setup_def)
qed

lemma demo_no_dec:
  "all_zero (field OFF_DEC_PUB (O3_LEN - OFF_DEC_PUB) (defaults PGP_LC_OPERATIONAL)) \<and>
   all_zero (field (OFF_FPR + OPENPGP_FPR_LEN) OPENPGP_FPR_LEN (defaults PGP_LC_OPERATIONAL)) \<and>
   all_zero (field (OFF_GENTIME + OPENPGP_GENTIME_LEN) OPENPGP_GENTIME_LEN (defaults PGP_LC_OPERATIONAL))"
  by code_simp

lemma demo_reset_done:
  obtains s s' where "pgp_ok demo_chip demo_crypto mock_inv mock_view (ap_pgp s) (ap_chip s)" and "s_auth s = 7"
    and "handle_reset_rc demo_chip demo_crypto 0x02 0x81 (replicate 6 0x35) s = (Val [], s')"
proof -
  let ?K = demo_crypto and ?T = demo_chip and ?w = OPENPGP_PIN_PW1
  let ?L = "PGP_LAYOUT ?w" and ?pin = "replicate 6 0x35 :: bytes"
  obtain o3 c0 where ok0: "o3_ok ?T ?K mock_inv mock_view o3 c0" and u: "pgp_usable o3" and df: "s_cur o3 = defaults PGP_LC_OPERATIONAL"
    and k0: "demo_keyed_chip c0" and st: "s_o3 o3 = O3_START" and bl: "\<forall>t. t \<notin> {33, 43} \<longrightarrow> mock_view c0 t = []"
    by (rule demo_keyed_card)
  let ?p = "pgp_pin_start\<lparr>p_o3 := o3\<rparr>"
  let ?q = "p_rec ?p ?w"
  have q: "?q = PIN_REC 0" by (simp add: pgp_pin_start_def pgp_pins)
  have pok0: "pgp_ok ?T ?K mock_inv mock_view ?p c0"
    using ok0 st demo_framed by (simp add: pgp_ok_def pgp_pin_start_def O3_START_def PIN_REC_def)
  have uq: "pair_usable ?q" unfolding q by (simp add: PIN_REC_def pair_usable_def)
  have vl: "valid_layout ?L" by (rule pgp_layout_valid) (simp add: pgp_pins)
  have rg: "ranges ?L = 2" by (simp add: PGP_LAYOUT_def)
  have lt: "?w \<le> 2" by (simp add: pgp_pins)
  have e: "mock_view c0 (slot_a ?q) = []" "mock_view c0 (slot_b ?q) = []" using bl unfolding q by (simp_all add: PIN_REC_def)
  obtain s b c1 where bind1: "pin_md_kernel_setup ?T ?K ?L (material ?K FACTORY_PW1) 6 ?q c0 = (PMD_OK, Some (kdf ?K s 2), ?q, c1)"
    and k1: "demo_keyed_chip c1"
    and set1: "pin_set ?K (mock_ld ?K (replicate 32 7)) (mock_mix ?K) s_mad mock_view ?L ?q 1 b (material ?K FACTORY_PW1) s c1"
    using pin_setup_arms [OF demo_live_kernel crypto_ok_demo vl uq k0 e, of 6 "material ?K FACTORY_PW1"] by auto
  have b1: "bind_pin ?T ?K ?w FACTORY_PW1 ?p c0 = (PGP_PIN_OK, put_rec ?w ?q ?p, c1)"
    using bind1 by (simp add: bind_pin_def FACTORY_PW1_def)
  have same: "put_rec ?w ?q ?p = ?p" by (simp add: put_rec_def)
  have pok1: "pgp_ok ?T ?K mock_inv mock_view ?p c1" using does_ok [OF bind_does(1) [OF pok0 lt b1]] unfolding same .
  have sp: "wf_binding ?L b" "at_rest ?K mock_view ?q 1 (encode_binding ?L b) c1" "retire_pending b = 0"
    using set1 by (simp_all add: pin_set_def)
  obtain c2 where 2: "settle ?T ?K ?L ?q c1 = (REC_OK, Some b, ?q, c2)" and k2: "demo_keyed_chip c2"
    and v2: "mock_view c2 = mock_view c1" "s_mad c2 = s_mad c1"
    by (rule live_kernel.settle_rest [OF demo_live_kernel k1 crypto_ok_demo vl uq sp(1,2) _ sp(3)]) simp_all
  have set2: "pin_set ?K (mock_ld ?K (replicate 32 7)) (mock_mix ?K) s_mad mock_view ?L ?q 1 b (material ?K FACTORY_PW1) s c2"
    using set1 v2 by (simp add: pin_set_def at_rest_def)
  obtain k3 c3 where 3: "pin_md_kernel_setup ?T ?K ?L (material ?K ?pin) 6 ?q c2 = (PMD_OK, k3, ?q, c3)"
    using setup_again [OF demo_live_kernel crypto_ok_demo vl uq rg k2 set2, of 6 "material ?K ?pin"] by auto
  let ?s = "(demo_ready 7)\<lparr>ap_pgp := ?p, ap_chip := c1\<rparr>"
  have lc: "openpgp_state_lifecycle o3 = PGP_LC_OPERATIONAL"
    using u df by (simp add: openpgp_state_lifecycle_def defaults_def Let_def o3_layout pgp_lcs)
  have ds: "openpgp_state_dec_destroy ?T ?K o3 c2 = (0, o3, c2)"
    unfolding openpgp_state_dec_destroy_def Let_def df using u demo_no_dec by simp
  have lp: "pin_len_ok ?w ?pin" by (simp add: pin_len_ok_def pin_min_len_def pgp_pin_lens pgp_pins)
  have stt: "pgp_pin_status ?T ?K ?w ?p c1 = (if next b \<ge> rounds ?L then PGP_PIN_BLOCKED else PGP_PIN_ACTIVE,
      (rounds ?L - next b) mod 256, pin_len b, ?p, c2)"
    using 2 vl same by (simp add: pgp_pin_status_def pin_md_kernel_status_def Let_def pin_which_ok_def pgp_pins)
  have ck: "pgp_pin_reset_pw1_check ?T ?K ?pin ?p c1 = (PGP_PIN_OK, ?p, c2)"
    using lp lc stt by (simp add: pgp_pin_reset_pw1_check_def)
  have rs: "pgp_pin_reset_pw1 ?T ?K ?pin ?p c2 = (PGP_PIN_OK, ?p, c3)"
    using lp lc 3 same by (simp add: pgp_pin_reset_pw1_def bind_pin_def)
  have "handle_reset_rc ?T ?K 0x02 0x81 ?pin ?s = (Val [], (auth_drop AUTH_PW1 ?s)\<lparr>ap_chip := c3\<rparr>)"
    by (simp add: handle_reset_rc_def Let_def unless_bind reset_rc_split_def need_def op_bind_def op_get_def op_unless_def op_ret_def
        has_auth_def demo_fields auths on_pgp_def ck pin_must_def op_upd_def on_o3_def ds rs pin_answer_def pin_sw_def sw_only_def
        auth_drop_def)
  then show thesis using that [of ?s] pok1 by (simp add: demo_fields)
qed

theorem pgp_reset_destroys_key_witness:
  "\<exists>s s'. handle_reset_rc demo_chip demo_crypto 0x02 0x81 (replicate 6 0x35) s = (Val [], s') \<and> s_auth s = 7 \<and>
     s_auth s' AND AUTH_PW1 = 0 \<and> openpgp_state_dec_get (ap_o3 s') = None"
proof -
  obtain s s' where "pgp_ok demo_chip demo_crypto mock_inv mock_view (ap_pgp s) (ap_chip s)" and a: "s_auth s = 7"
    and r: "handle_reset_rc demo_chip demo_crypto 0x02 0x81 (replicate 6 0x35) s = (Val [], s')" by (rule demo_reset_done)
  from pgp_reset_destroys_key [OF this(1) r] show ?thesis using a r by blast
qed

end
