(* ===== verification/Pin_Token.thy ===== *)
theory Pin_Token
  imports Chip
begin

text \<open>
  The pinUvAuthToken of CTAP 2.1, \<^verbatim>\<open>firmware/src/fido_hid/pin_token.c\<close>: one token with a
  permission set, an optional RP binding, a user-verified flag and two timers that are
  observed lazily.  The file keeps its state in static variables; here they are one record
  that every operation takes and returns.  The lemmas treat the token as a state machine:
  what it may still do only shrinks until a new token is issued.
\<close>

section \<open>State and operations\<close>

definition PUAT_PERMS_KNOWN :: u8 where "PUAT_PERMS_KNOWN = 0x3F"
definition PUAT_TOKEN_LEN :: nat where "PUAT_TOKEN_LEN = 32"
definition PUAT_PARAM_LEN :: nat where "PUAT_PARAM_LEN = 16"
definition PUAT_INITIAL_USE_MS :: u32 where "PUAT_INITIAL_USE_MS = 30000"
definition PUAT_MAX_LIFE_MS :: u32 where "PUAT_MAX_LIFE_MS = 600000"

record puat =
  t_token :: bytes
  t_in_use :: bool
  t_used :: bool
  t_uv :: bool
  t_perms :: u8
  t_has_rp :: bool
  t_rp_hash :: bytes
  t_issued_ms :: u32
  t_generation :: u32

definition ct_equal :: "bytes \<Rightarrow> bytes \<Rightarrow> nat \<Rightarrow> bool" where
  "ct_equal a b n \<longleftrightarrow> ct_diff 0 (take n a) (take n b) = 0"

definition puat_reset :: "puat \<Rightarrow> puat" where
  "puat_reset s = \<lparr>t_token = replicate PUAT_TOKEN_LEN 0, t_in_use = False, t_used = False, t_uv = False,
     t_perms = 0, t_has_rp = False, t_rp_hash = replicate 32 0, t_issued_ms = 0,
     t_generation = t_generation s + 1\<rparr>"

definition puat_begin :: "bytes \<Rightarrow> u8 \<Rightarrow> bytes option \<Rightarrow> u32 \<Rightarrow> puat \<Rightarrow> puat" where
  "puat_begin token perms rp now s =
     (let s1 = puat_reset s;
          s2 = s1\<lparr>t_token := token, t_perms := perms AND PUAT_PERMS_KNOWN\<rparr>;
          s3 = (case rp of None \<Rightarrow> s2 | Some h \<Rightarrow> s2\<lparr>t_rp_hash := h, t_has_rp := True\<rparr>)
      in s3\<lparr>t_uv := True, t_issued_ms := now, t_in_use := True, t_generation := t_generation s3 + 1\<rparr>)"

definition puat_expire :: "u32 \<Rightarrow> puat \<Rightarrow> puat" where
  "puat_expire now s =
     (if \<not> t_in_use s then s
      else let age = now - t_issued_ms s in
      if age > PUAT_MAX_LIFE_MS \<or> \<not> t_used s \<and> age > PUAT_INITIAL_USE_MS then puat_reset s else s)"

definition puat_verify :: "crypto \<Rightarrow> bytes option \<Rightarrow> bytes \<Rightarrow> u32 \<Rightarrow> puat \<Rightarrow> int \<times> puat" where
  "puat_verify K param msg now s =
     (let s1 = puat_expire now s in
      case param of
        None \<Rightarrow> (- 1, s1)
      | Some p \<Rightarrow>
          (if \<not> t_in_use s1 \<or> length p \<noteq> PUAT_PARAM_LEN then (- 1, s1)
           else let mac = hmac_sha256 K (t_token s1) msg in
           if \<not> ct_equal mac p PUAT_PARAM_LEN then (- 1, s1) else (0, s1\<lparr>t_used := True\<rparr>)))"

definition puat_in_use :: "u32 \<Rightarrow> puat \<Rightarrow> bool \<times> puat" where
  "puat_in_use now s = (let s1 = puat_expire now s in (t_in_use s1, s1))"

definition puat_generation :: "puat \<Rightarrow> u32" where
  "puat_generation p = t_generation p"

definition puat_token :: "puat \<Rightarrow> bytes option" where
  "puat_token s = (if t_in_use s then Some (t_token s) else None)"

definition puat_has_perm :: "u8 \<Rightarrow> puat \<Rightarrow> bool" where
  "puat_has_perm p s \<longleftrightarrow> t_in_use s \<and> t_perms s AND p = p \<and> p \<noteq> 0"

definition puat_user_verified :: "puat \<Rightarrow> bool" where
  "puat_user_verified s \<longleftrightarrow> t_in_use s \<and> t_uv s"

definition puat_has_rp :: "puat \<Rightarrow> bool" where
  "puat_has_rp s \<longleftrightarrow> t_in_use s \<and> t_has_rp s"

definition puat_rp_matches :: "bytes \<Rightarrow> puat \<Rightarrow> bool" where
  "puat_rp_matches h s \<longleftrightarrow> \<not> t_has_rp s \<or> t_rp_hash s = h"

definition puat_bind_rp :: "bytes \<Rightarrow> puat \<Rightarrow> puat" where
  "puat_bind_rp h s =
     (if \<not> t_in_use s \<or> t_has_rp s then s else s\<lparr>t_rp_hash := h, t_has_rp := True\<rparr>)"

definition puat_consume :: "puat \<Rightarrow> puat" where
  "puat_consume s = (if \<not> t_in_use s then s else s\<lparr>t_uv := False, t_perms := 0\<rparr>)"

section \<open>The token as a state machine\<close>

text \<open>Every operation but issuing a new token, with its arguments; \<open>puat_run\<close> runs a list.\<close>

datatype puat_op =
  OpReset | OpVerify "bytes option" bytes u32 | OpInUse u32 | OpBindRp bytes | OpConsume

fun puat_exec :: "crypto \<Rightarrow> puat_op \<Rightarrow> puat \<Rightarrow> puat" where
  "puat_exec K OpReset s = puat_reset s"
| "puat_exec K (OpVerify p m now) s = snd (puat_verify K p m now s)"
| "puat_exec K (OpInUse now) s = snd (puat_in_use now s)"
| "puat_exec K (OpBindRp h) s = puat_bind_rp h s"
| "puat_exec K OpConsume s = puat_consume s"

definition puat_run :: "crypto \<Rightarrow> puat_op list \<Rightarrow> puat \<Rightarrow> puat" where
  "puat_run K ops s = fold (puat_exec K) ops s"

text \<open>\<open>weaker s s'\<close>: whatever \<open>s'\<close> allows, \<open>s\<close> allowed, for the same token.\<close>

definition weaker :: "puat \<Rightarrow> puat \<Rightarrow> bool" where
  "weaker s s' \<longleftrightarrow>
     (t_in_use s' \<longrightarrow> t_in_use s \<and> t_token s' = t_token s \<and> t_issued_ms s' = t_issued_ms s \<and>
        t_generation s' = t_generation s \<and> (t_has_rp s \<longrightarrow> t_has_rp s' \<and> t_rp_hash s' = t_rp_hash s) \<and>
        (t_uv s' \<longrightarrow> t_uv s) \<and> (\<forall>i. bit (t_perms s') i \<longrightarrow> bit (t_perms s) i))"

lemma weaker_refl: "weaker s s"
  by (simp add: weaker_def)

lemma weaker_trans: "weaker a b \<Longrightarrow> weaker b c \<Longrightarrow> weaker a c"
  unfolding weaker_def by metis

lemma weaker_reset: "weaker s (puat_reset s)"
  by (simp add: weaker_def puat_reset_def)

lemma weaker_expire: "weaker s (puat_expire now s)"
  by (simp add: puat_expire_def Let_def weaker_refl weaker_reset)

lemma weaker_used: "weaker s s' \<Longrightarrow> weaker s (s'\<lparr>t_used := True\<rparr>)"
  by (simp add: weaker_def)

lemma weaker_bind: "weaker s (puat_bind_rp h s)"
  by (simp add: puat_bind_rp_def weaker_def)

lemma weaker_consume: "weaker s (puat_consume s)"
  by (simp add: puat_consume_def weaker_def)

lemma weaker_verify: "weaker s (snd (puat_verify K p m now s))"
proof (cases p)
  case None
  then show ?thesis by (simp add: puat_verify_def weaker_expire)
next
  case (Some a)
  then show ?thesis using weaker_expire weaker_used by (simp add: puat_verify_def Let_def)
qed

lemma weaker_exec: "weaker s (puat_exec K op s)"
  by (cases op)
     (simp_all add: weaker_reset weaker_verify puat_in_use_def weaker_expire weaker_bind weaker_consume
       Let_def)

lemma weaker_run: "weaker s (puat_run K ops s)"
  unfolding puat_run_def
proof (induction ops arbitrary: s)
  case Nil
  then show ?case by (simp add: weaker_refl)
next
  case (Cons op ops)
  then show ?case using weaker_exec weaker_trans by (metis fold_simps(2))
qed

lemma has_perm_bits: "puat_has_perm p s \<longleftrightarrow> t_in_use s \<and> (\<forall>i. bit p i \<longrightarrow> bit (t_perms s) i) \<and> p \<noteq> 0"
proof -
  have "a AND p = p \<longleftrightarrow> (\<forall>i. bit p i \<longrightarrow> bit a i)" for a :: u8
  proof
    assume "a AND p = p"
    then show "\<forall>i. bit p i \<longrightarrow> bit a i" by (metis bit_and_iff)
  next
    assume "\<forall>i. bit p i \<longrightarrow> bit a i"
    then show "a AND p = p" by (intro bit_word_eqI) (auto simp: bit_and_iff)
  qed
  then show ?thesis by (simp add: puat_has_perm_def conj_ac)
qed

lemma weaker_perm: "weaker s s' \<Longrightarrow> puat_has_perm p s' \<Longrightarrow> puat_has_perm p s"
  by (auto simp: has_perm_bits weaker_def)

lemma consumed_run: "\<not> t_in_use s \<or> t_perms s = 0 \<Longrightarrow> \<not> puat_has_perm p (puat_run K ops s)"
proof
  assume d: "\<not> t_in_use s \<or> t_perms s = 0" and "puat_has_perm p (puat_run K ops s)"
  then have "puat_has_perm p s" using weaker_perm [OF weaker_run] by blast
  then show False using d by (auto simp: puat_has_perm_def)
qed

section \<open>Properties\<close>

text \<open>
  Until a new token is issued, nothing gives a token anything back: after any sequence
  of other operations, a permission it has it had before, user verification it had before,
  it is the same token with the same RP binding, and a dead token stays dead.
\<close>

theorem puat_only_shrinks:
  "(puat_has_perm p (puat_run K ops s) \<longrightarrow> puat_has_perm p s) \<and>
   (puat_user_verified (puat_run K ops s) \<longrightarrow> puat_user_verified s) \<and>
   (puat_token (puat_run K ops s) \<noteq> None \<longrightarrow> puat_token (puat_run K ops s) = puat_token s \<and>
      t_generation (puat_run K ops s) = t_generation s) \<and>
   (\<forall>h. puat_has_rp s \<longrightarrow> t_in_use (puat_run K ops s) \<longrightarrow> puat_rp_matches h (puat_run K ops s) \<longrightarrow>
      puat_rp_matches h s)"
  using weaker_run [of s K ops] weaker_perm [OF weaker_run [of s K ops]]
  by (auto simp: puat_user_verified_def puat_token_def puat_has_rp_def puat_rp_matches_def weaker_def)

definition demo_puat :: puat where
  "demo_puat = \<lparr>t_token = [], t_in_use = False, t_used = False, t_uv = False, t_perms = 0,
     t_has_rp = False, t_rp_hash = [], t_issued_ms = 0, t_generation = 0\<rparr>"

definition demo_hmac_crypto :: crypto where
  "demo_hmac_crypto = \<lparr>sha256 = (\<lambda>_. []), hmac_sha256 = (\<lambda>_ _. replicate 32 7)\<rparr>"

theorem puat_only_shrinks_witness:
  "puat_has_perm 1 (puat_begin [1] 3 None 0 demo_puat)"
proof -
  have "puat_has_perm 1 (puat_run demo_hmac_crypto [OpInUse 5, OpBindRp [2]] (puat_begin [1] 3 None 0 demo_puat))"
    by (simp add: puat_run_def puat_in_use_def puat_expire_def puat_begin_def puat_bind_rp_def Let_def
        PUAT_MAX_LIFE_MS_def PUAT_INITIAL_USE_MS_def PUAT_PERMS_KNOWN_def puat_has_perm_def puat_reset_def)
  then show ?thesis
    using puat_only_shrinks [of 1 demo_hmac_crypto "[OpInUse 5, OpBindRp [2]]"] by blast
qed

text \<open>
  Once consumed, a token authorises nothing: after \<open>puat_consume\<close> no permission and no
  user verification can be obtained by any sequence of operations except issuing a new token.
\<close>

theorem puat_consumed_is_dead:
  "\<not> puat_has_perm p (puat_run K ops (puat_consume s)) \<and>
   \<not> puat_user_verified (puat_run K ops (puat_consume s))"
  using consumed_run [of "puat_consume s" p K ops] weaker_run [of "puat_consume s" K ops]
  by (auto simp: puat_consume_def puat_user_verified_def weaker_def split: if_splits)

text \<open>
  A verify that succeeds was presented with the 16-byte prefix of the token's MAC over
  the message, by a token that is in use and, on the 32-bit millisecond clock, at most ten
  minutes old and at most 30 seconds old unless it was used before; and such a verify
  succeeds.
\<close>

theorem puat_verify_sound:
  assumes "\<forall>k m. length (hmac_sha256 K k m) = 32"
  shows "fst (puat_verify K param msg now s) = 0 \<longleftrightarrow>
    t_in_use s \<and> param = Some (take 16 (hmac_sha256 K (t_token s) msg)) \<and>
    now - t_issued_ms s \<le> 600000 \<and> (t_used s \<or> now - t_issued_ms s \<le> 30000)"
proof -
  have *: "ct_diff 0 (take 16 (hmac_sha256 K k msg)) (take 16 p) = 0 \<longleftrightarrow> p = take 16 (hmac_sha256 K k msg)"
    if "length p = 16" for p k
    using that assms by (auto simp: ct_diff_zero_iff)
  have "param = Some p \<Longrightarrow> length p \<noteq> 16 \<Longrightarrow> p \<noteq> take 16 (hmac_sha256 K (t_token s) msg)" for p
    using assms by auto
  then show ?thesis
    using *
    by (cases param) (auto simp: puat_verify_def puat_expire_def puat_reset_def Let_def ct_equal_def
        PUAT_PARAM_LEN_def PUAT_MAX_LIFE_MS_def PUAT_INITIAL_USE_MS_def not_less split: if_splits)
qed

theorem puat_verify_sound_witness:
  "fst (puat_verify demo_hmac_crypto (Some (replicate 16 7)) [1] 20 (puat_begin [1] 3 None 0 demo_puat)) = 0"
  using puat_verify_sound [of demo_hmac_crypto "Some (replicate 16 7)" "[1]" 20
      "puat_begin [1] 3 None 0 demo_puat"]
  by (simp add: puat_begin_def Let_def demo_hmac_crypto_def)

text \<open>
  The clock is a 32-bit tick that is compared only when an operation looks: a token nobody
  touched since it was issued passes both timers again once the tick has come round.
\<close>

lemma puat_timer_wraps:
  "fst (puat_in_use (of_nat (unat now + 2 ^ 32)) (puat_begin tok perms rp now s))"
proof -
  have e: "(of_nat (unat now + 2 ^ 32) :: u32) = now" by (simp add: word_unat_eq_iff unsigned_of_nat take_bit_eq_mod
      del: of_nat_add)
  show ?thesis
    unfolding e by (cases rp) (simp_all add: puat_in_use_def puat_expire_def puat_begin_def Let_def)
qed

text \<open>
  Issuing a token starts from nothing: whatever the state before, the new token is in
  use and verified, has exactly the known requested permissions, is bound to the given RP
  or to none, and carries a new generation.
\<close>

theorem puat_begin_fresh:
  "puat_token (puat_begin tok perms rp now s) = Some tok \<and>
   puat_user_verified (puat_begin tok perms rp now s) \<and>
   (\<forall>p. puat_has_perm p (puat_begin tok perms rp now s) \<longleftrightarrow> perms AND PUAT_PERMS_KNOWN AND p = p \<and> p \<noteq> 0) \<and>
   (\<forall>h. puat_rp_matches h (puat_begin tok perms rp now s) \<longleftrightarrow> rp = None \<or> rp = Some h) \<and>
   t_generation (puat_begin tok perms rp now s) = t_generation s + 2"
  by (cases rp)
     (auto simp: puat_begin_def puat_reset_def Let_def puat_token_def puat_user_verified_def
       puat_has_perm_def puat_rp_matches_def and.assoc)

end
