(* ===== verification/Cbor.thy ===== *)
theory Cbor
  imports Prelude "HOL-Library.Sublist"
begin

text \<open>
  The CBOR writer and reader, \<^verbatim>\<open>firmware/src/fido_hid/cbor.c\<close>.  The writer appends to a
  buffer of fixed capacity with a sticky error; the reader walks a buffer with a position
  and a sticky error.  The lemmas show that neither leaves its buffer, that what the
  writer emits reads back, and that \<open>cbor_validate\<close> accepts exactly the well-formed items
  of a declarative grammar, nested at most four deep, all of which \<open>cbor_reader_skip\<close> skips.
\<close>

section \<open>The writer\<close>

definition CBOR_MT_UINT :: nat where "CBOR_MT_UINT = 0"
definition CBOR_MT_NEGINT :: nat where "CBOR_MT_NEGINT = 1"
definition CBOR_MT_BYTE_STR :: nat where "CBOR_MT_BYTE_STR = 2"
definition CBOR_MT_TEXT_STR :: nat where "CBOR_MT_TEXT_STR = 3"
definition CBOR_MT_ARRAY :: nat where "CBOR_MT_ARRAY = 4"
definition CBOR_MT_MAP :: nat where "CBOR_MT_MAP = 5"
definition CBOR_MT_SIMPLE :: nat where "CBOR_MT_SIMPLE = 7"
definition CBOR_SIMPLE_FALSE :: u8 where "CBOR_SIMPLE_FALSE = 20"
definition CBOR_SIMPLE_TRUE :: u8 where "CBOR_SIMPLE_TRUE = 21"
definition CBOR_SIMPLE_NULL :: u8 where "CBOR_SIMPLE_NULL = 22"

lemmas cbor_mts = CBOR_MT_UINT_def CBOR_MT_NEGINT_def CBOR_MT_BYTE_STR_def CBOR_MT_TEXT_STR_def
  CBOR_MT_ARRAY_def CBOR_MT_MAP_def CBOR_MT_SIMPLE_def

text \<open>\<open>w_out\<close> is the written part of the buffer: its length is \<open>pos\<close>.\<close>

record cbor_writer =
  w_out :: bytes
  w_cap :: nat
  w_err :: bool

definition cbor_writer_init :: "nat \<Rightarrow> cbor_writer" where
  "cbor_writer_init cap = \<lparr>w_out = [], w_cap = cap, w_err = False\<rparr>"

definition cbor_writer_len :: "cbor_writer \<Rightarrow> nat" where
  "cbor_writer_len w = length (w_out w)"

definition cbor_writer_error :: "cbor_writer \<Rightarrow> bool" where
  "cbor_writer_error w = w_err w"

definition put_byte :: "cbor_writer \<Rightarrow> u8 \<Rightarrow> bool \<times> cbor_writer" where
  "put_byte w b =
     (if w_err w then (False, w)
      else if length (w_out w) \<ge> w_cap w then (False, w\<lparr>w_err := True\<rparr>)
      else (True, w\<lparr>w_out := w_out w @ [b]\<rparr>))"

definition put_bytes :: "cbor_writer \<Rightarrow> bytes \<Rightarrow> bool \<times> cbor_writer" where
  "put_bytes w bs =
     (if w_err w then (False, w)
      else if length bs > w_cap w - length (w_out w) then (False, w\<lparr>w_err := True\<rparr>)
      else (True, w\<lparr>w_out := w_out w @ bs\<rparr>))"

definition mt_bits :: "nat \<Rightarrow> u8" where
  "mt_bits mt = push_bit 5 (of_nat mt)"

text \<open>The low \<open>n\<close> bytes of a value, most significant first.\<close>

definition be_bytes :: "nat \<Rightarrow> u64 \<Rightarrow> bytes" where
  "be_bytes n v = map (\<lambda>i. ucast (drop_bit (8 * (n - 1 - i)) v)) [0..<n]"

definition put_head :: "cbor_writer \<Rightarrow> nat \<Rightarrow> u64 \<Rightarrow> bool \<times> cbor_writer" where
  "put_head w mt v =
     (let m = mt_bits mt in
      if v < 24 then put_byte w (m OR ucast v)
      else if v \<le> 0xFF then
        (case put_byte w (m OR 24) of (ok, w1) \<Rightarrow> if \<not> ok then (False, w1) else put_byte w1 (ucast v))
      else if v \<le> 0xFFFF then
        (case put_byte w (m OR 25) of (ok, w1) \<Rightarrow> if \<not> ok then (False, w1) else put_bytes w1 (be_bytes 2 v))
      else if v \<le> 0xFFFFFFFF then
        (case put_byte w (m OR 26) of (ok, w1) \<Rightarrow> if \<not> ok then (False, w1) else put_bytes w1 (be_bytes 4 v))
      else
        (case put_byte w (m OR 27) of (ok, w1) \<Rightarrow> if \<not> ok then (False, w1) else put_bytes w1 (be_bytes 8 v)))"

definition cbor_write_uint :: "cbor_writer \<Rightarrow> u64 \<Rightarrow> bool \<times> cbor_writer" where
  "cbor_write_uint w v = put_head w CBOR_MT_UINT v"

definition cbor_write_negint :: "cbor_writer \<Rightarrow> int \<Rightarrow> bool \<times> cbor_writer" where
  "cbor_write_negint w v =
     (if v \<ge> 0 then (False, w\<lparr>w_err := True\<rparr>)
      else put_head w CBOR_MT_NEGINT (of_int (- (v + 1))))"

definition cbor_write_byte_string :: "cbor_writer \<Rightarrow> bytes \<Rightarrow> bool \<times> cbor_writer" where
  "cbor_write_byte_string w bs =
     (case put_head w CBOR_MT_BYTE_STR (of_nat (length bs)) of
        (ok, w1) \<Rightarrow> if \<not> ok then (False, w1) else put_bytes w1 bs)"

definition cbor_write_text :: "cbor_writer \<Rightarrow> bytes \<Rightarrow> bool \<times> cbor_writer" where
  "cbor_write_text w s =
     (case put_head w CBOR_MT_TEXT_STR (of_nat (length s)) of
        (ok, w1) \<Rightarrow> if \<not> ok then (False, w1) else put_bytes w1 s)"

definition cbor_write_array_header :: "cbor_writer \<Rightarrow> nat \<Rightarrow> bool \<times> cbor_writer" where
  "cbor_write_array_header w n = put_head w CBOR_MT_ARRAY (of_nat n)"

definition cbor_write_map_header :: "cbor_writer \<Rightarrow> nat \<Rightarrow> bool \<times> cbor_writer" where
  "cbor_write_map_header w n = put_head w CBOR_MT_MAP (of_nat n)"

definition cbor_write_bool :: "cbor_writer \<Rightarrow> bool \<Rightarrow> bool \<times> cbor_writer" where
  "cbor_write_bool w v =
     put_byte w (mt_bits CBOR_MT_SIMPLE OR (if v then CBOR_SIMPLE_TRUE else CBOR_SIMPLE_FALSE))"

definition cbor_write_null :: "cbor_writer \<Rightarrow> bool \<times> cbor_writer" where
  "cbor_write_null w = put_byte w (mt_bits CBOR_MT_SIMPLE OR CBOR_SIMPLE_NULL)"

section \<open>The reader\<close>

record cbor_reader =
  r_buf :: bytes
  r_pos :: nat
  r_err :: bool

text \<open>\<open>size_t\<close> of the Cortex-M33.\<close>

definition SIZE_MAX :: u64 where "SIZE_MAX = 0xFFFFFFFF"

definition cbor_reader_init :: "bytes \<Rightarrow> cbor_reader" where
  "cbor_reader_init buf = \<lparr>r_buf = buf, r_pos = 0, r_err = False\<rparr>"

definition cbor_reader_peek_major :: "cbor_reader \<Rightarrow> nat option" where
  "cbor_reader_peek_major r =
     (if r_pos r \<ge> length (r_buf r) then None
      else Some (unat (drop_bit 5 (r_buf r ! r_pos r) AND 7)))"

text \<open>The shifts and ORs of the 1, 2, 4 and 8 byte arguments.\<close>

definition be_load :: "bytes \<Rightarrow> u64" where
  "be_load bs = fold (\<lambda>b v. push_bit 8 v OR ucast b) bs 0"

definition read_arg :: "nat \<Rightarrow> nat \<Rightarrow> cbor_reader \<Rightarrow> (nat \<times> u64) option \<times> cbor_reader" where
  "read_arg n mt r =
     (if r_pos r + n > length (r_buf r) then (None, r\<lparr>r_err := True\<rparr>)
      else (Some (mt, be_load (take n (drop (r_pos r) (r_buf r)))), r\<lparr>r_pos := r_pos r + n\<rparr>))"

definition cbor_reader_read_head :: "cbor_reader \<Rightarrow> (nat \<times> u64) option \<times> cbor_reader" where
  "cbor_reader_read_head r =
     (if r_err r then (None, r)
      else if r_pos r \<ge> length (r_buf r) then (None, r\<lparr>r_err := True\<rparr>)
      else
        let ib = r_buf r ! r_pos r;
            r1 = r\<lparr>r_pos := r_pos r + 1\<rparr>;
            mt = unat (drop_bit 5 ib AND 7);
            ai = ib AND 0x1F
        in if ai < 24 then (Some (mt, ucast ai), r1)
           else if ai = 24 then read_arg 1 mt r1
           else if ai = 25 then read_arg 2 mt r1
           else if ai = 26 then read_arg 4 mt r1
           else if ai = 27 then
             (case read_arg 8 mt r1 of
                (None, r2) \<Rightarrow> (None, r2)
              | (Some (m, v), r2) \<Rightarrow>
                  if v > SIZE_MAX then (None, r2\<lparr>r_err := True\<rparr>) else (Some (m, v), r2))
           else (None, r1\<lparr>r_err := True\<rparr>))"

definition cbor_reader_read_uint :: "cbor_reader \<Rightarrow> u64 option \<times> cbor_reader" where
  "cbor_reader_read_uint r =
     (case cbor_reader_read_head r of
        (None, r1) \<Rightarrow> (None, r1)
      | (Some (mt, v), r1) \<Rightarrow> if mt \<noteq> CBOR_MT_UINT then (None, r1\<lparr>r_err := True\<rparr>) else (Some v, r1))"

text \<open>A pointer into the buffer with a length is the slice it designates.\<close>

definition read_byte_run :: "nat \<Rightarrow> cbor_reader \<Rightarrow> bytes option \<times> cbor_reader" where
  "read_byte_run want r =
     (case cbor_reader_read_head r of
        (None, r1) \<Rightarrow> (None, r1)
      | (Some (mt, v), r1) \<Rightarrow>
          if mt \<noteq> want then (None, r1\<lparr>r_err := True\<rparr>)
          else if unat v > length (r_buf r1) - r_pos r1 then (None, r1\<lparr>r_err := True\<rparr>)
          else (Some (take (unat v) (drop (r_pos r1) (r_buf r1))), r1\<lparr>r_pos := r_pos r1 + unat v\<rparr>))"

definition cbor_reader_read_bytes :: "cbor_reader \<Rightarrow> bytes option \<times> cbor_reader" where
  "cbor_reader_read_bytes r = read_byte_run CBOR_MT_BYTE_STR r"

definition cbor_reader_read_text :: "cbor_reader \<Rightarrow> bytes option \<times> cbor_reader" where
  "cbor_reader_read_text r = read_byte_run CBOR_MT_TEXT_STR r"

definition cbor_reader_read_array_header :: "cbor_reader \<Rightarrow> nat option \<times> cbor_reader" where
  "cbor_reader_read_array_header r =
     (case cbor_reader_read_head r of
        (None, r1) \<Rightarrow> (None, r1)
      | (Some (mt, v), r1) \<Rightarrow> if mt \<noteq> CBOR_MT_ARRAY then (None, r1\<lparr>r_err := True\<rparr>) else (Some (unat v), r1))"

definition cbor_reader_read_map_header :: "cbor_reader \<Rightarrow> nat option \<times> cbor_reader" where
  "cbor_reader_read_map_header r =
     (case cbor_reader_read_head r of
        (None, r1) \<Rightarrow> (None, r1)
      | (Some (mt, v), r1) \<Rightarrow> if mt \<noteq> CBOR_MT_MAP then (None, r1\<lparr>r_err := True\<rparr>) else (Some (unat v), r1))"

text \<open>
  \<open>skip_item k\<close> is the C function at depth \<open>CBOR_SKIP_MAX_DEPTH + 1 - k\<close>, \<open>skip_items n k\<close>
  its loop over \<open>n\<close> items of the next depth.
\<close>

definition CBOR_SKIP_MAX_DEPTH :: nat where "CBOR_SKIP_MAX_DEPTH = 16"

function (sequential) skip_item :: "nat \<Rightarrow> cbor_reader \<Rightarrow> bool \<times> cbor_reader"
  and skip_items :: "nat \<Rightarrow> nat \<Rightarrow> cbor_reader \<Rightarrow> bool \<times> cbor_reader" where
  "skip_item 0 r = (False, r\<lparr>r_err := True\<rparr>)"
| "skip_item (Suc k) r =
     (case cbor_reader_read_head r of
        (None, r1) \<Rightarrow> (False, r1)
      | (Some (mt, v), r1) \<Rightarrow>
          if mt = CBOR_MT_UINT \<or> mt = CBOR_MT_NEGINT then (True, r1)
          else if mt = CBOR_MT_BYTE_STR \<or> mt = CBOR_MT_TEXT_STR then
            (if unat v > length (r_buf r1) - r_pos r1 then (False, r1\<lparr>r_err := True\<rparr>)
             else (True, r1\<lparr>r_pos := r_pos r1 + unat v\<rparr>))
          else if mt = CBOR_MT_ARRAY then skip_items (unat v) k r1
          else if mt = CBOR_MT_MAP then skip_items (2 * unat v) k r1
          else if mt = CBOR_MT_SIMPLE then (True, r1)
          else (False, r1\<lparr>r_err := True\<rparr>))"
| "skip_items 0 k r = (True, r)"
| "skip_items (Suc n) k r =
     (case skip_item k r of (ok, r1) \<Rightarrow> if \<not> ok then (False, r1) else skip_items n k r1)"
  by pat_completeness auto
termination
  by (relation "inv_image (less_than <*lex*> less_than)
      (\<lambda>x. case x of Inl (k, r) \<Rightarrow> (k, 0) | Inr (n, k, r) \<Rightarrow> (k, Suc n))") auto

definition cbor_reader_skip :: "cbor_reader \<Rightarrow> bool \<times> cbor_reader" where
  "cbor_reader_skip r = skip_item (CBOR_SKIP_MAX_DEPTH + 1) r"

text \<open>\<open>validate_item k\<close> is the C function at depth \<open>CBOR_MAX_DEPTH - k\<close>.\<close>

definition CBOR_MAX_DEPTH :: nat where "CBOR_MAX_DEPTH = 4"

function (sequential) validate_item :: "nat \<Rightarrow> cbor_reader \<Rightarrow> bool \<times> cbor_reader"
  and validate_items :: "nat \<Rightarrow> nat \<Rightarrow> cbor_reader \<Rightarrow> bool \<times> cbor_reader" where
  "validate_item k r =
     (case cbor_reader_read_head r of
        (None, r1) \<Rightarrow> (False, r1)
      | (Some (mt, v), r1) \<Rightarrow>
          if mt = CBOR_MT_UINT \<or> mt = CBOR_MT_NEGINT \<or> mt = CBOR_MT_SIMPLE then (True, r1)
          else if mt = CBOR_MT_BYTE_STR \<or> mt = CBOR_MT_TEXT_STR then
            (if unat v > length (r_buf r1) - r_pos r1 then (False, r1\<lparr>r_err := True\<rparr>)
             else (True, r1\<lparr>r_pos := r_pos r1 + unat v\<rparr>))
          else if mt = CBOR_MT_ARRAY \<or> mt = CBOR_MT_MAP then
            (case k of
               0 \<Rightarrow> (False, r1\<lparr>r_err := True\<rparr>)
             | Suc k1 \<Rightarrow>
                 if unat v > length (r_buf r1) - r_pos r1 then (False, r1\<lparr>r_err := True\<rparr>)
                 else validate_items (if mt = CBOR_MT_MAP then 2 * unat v else unat v) k1 r1)
          else (False, r1\<lparr>r_err := True\<rparr>))"
| "validate_items 0 k r = (True, r)"
| "validate_items (Suc n) k r =
     (case validate_item k r of (ok, r1) \<Rightarrow> if \<not> ok then (False, r1) else validate_items n k r1)"
  by pat_completeness auto
termination
  by (relation "inv_image (less_than <*lex*> less_than)
      (\<lambda>x. case x of Inl (k, r) \<Rightarrow> (k, 0) | Inr (n, k, r) \<Rightarrow> (k, Suc n))") auto

declare validate_item.simps [simp del] skip_item.simps(2) [simp del]

definition cbor_validate :: "bytes \<Rightarrow> bool" where
  "cbor_validate buf =
     (case validate_item CBOR_MAX_DEPTH (cbor_reader_init buf) of
        (ok, r) \<Rightarrow> ok \<and> r_pos r = length (r_buf r))"

section \<open>Big-endian arguments\<close>

lemma be_load_snoc: "be_load (bs @ [b]) = push_bit 8 (be_load bs) OR ucast b"
  by (simp add: be_load_def)

lemma be_bytes_Suc: "be_bytes (Suc n) v = be_bytes n (drop_bit 8 v) @ [ucast v]"
proof -
  have "map (\<lambda>i. ucast (drop_bit (8 * (Suc n - 1 - i)) v) :: u8) [0..<n]
      = map (\<lambda>i. ucast (drop_bit (8 * (n - 1 - i)) (drop_bit 8 v))) [0..<n]"
  proof (rule map_cong [OF refl])
    fix i assume "i \<in> set [0..<n]"
    then have "8 * (Suc n - 1 - i) = 8 * (n - 1 - i) + 8" by auto
    then show "(ucast (drop_bit (8 * (Suc n - 1 - i)) v) :: u8)
        = ucast (drop_bit (8 * (n - 1 - i)) (drop_bit 8 v))"
      by (simp add: drop_bit_drop_bit)
  qed
  then show ?thesis by (simp add: be_bytes_def)
qed

lemma length_be_bytes [simp]: "length (be_bytes n v) = n"
  by (simp add: be_bytes_def)

lemma be_load_bytes: "be_load (be_bytes n v) = take_bit (8 * n) v"
proof (induction n arbitrary: v)
  case 0
  then show ?case by (simp add: be_bytes_def be_load_def)
next
  case (Suc n)
  have "be_load (be_bytes (Suc n) v) = push_bit 8 (take_bit (8 * n) (drop_bit 8 v)) OR ucast (ucast v :: u8)"
    by (simp add: be_bytes_Suc be_load_snoc Suc)
  also have "\<dots> = take_bit (8 * Suc n) v"
    by (rule bit_word_eqI) (auto simp: bit_simps)
  finally show ?case .
qed

section \<open>Heads\<close>

definition arg_len :: "u8 \<Rightarrow> nat option" where
  "arg_len ai = (if ai < 24 then Some 0 else if ai = 24 then Some 1 else if ai = 25 then Some 2
     else if ai = 26 then Some 4 else if ai = 27 then Some 8 else None)"

text \<open>The major type, the value and the length of the head a byte string starts with.\<close>

definition decode_head :: "bytes \<Rightarrow> (nat \<times> u64 \<times> nat) option" where
  "decode_head h =
     (case h of [] \<Rightarrow> None
      | ib # bs \<Rightarrow>
          let mt = unat (drop_bit 5 ib AND 7); ai = ib AND 0x1F
          in (case arg_len ai of
                None \<Rightarrow> None
              | Some n \<Rightarrow>
                  if n = 0 then Some (mt, ucast ai, 1)
                  else if length bs < n then None
                  else if n = 8 \<and> be_load (take n bs) > SIZE_MAX then None
                  else Some (mt, be_load (take n bs), Suc n)))"

lemma read_arg_suffix:
  assumes "r_pos r \<le> length (r_buf r)"
  shows "read_arg n mt r = (if length (drop (r_pos r) (r_buf r)) < n then (None, r\<lparr>r_err := True\<rparr>)
    else (Some (mt, be_load (take n (drop (r_pos r) (r_buf r)))), r\<lparr>r_pos := r_pos r + n\<rparr>))"
  using assms by (auto simp: read_arg_def)

lemma read_head_suffix:
  assumes "\<not> r_err r"
  shows "case decode_head (drop (r_pos r) (r_buf r)) of
      None \<Rightarrow> (\<exists>r'. cbor_reader_read_head r = (None, r') \<and> r_err r' \<and> r_buf r' = r_buf r)
    | Some (mt, v, n) \<Rightarrow> cbor_reader_read_head r = (Some (mt, v), r\<lparr>r_pos := r_pos r + n\<rparr>) \<and>
        r_pos r + n \<le> length (r_buf r) \<and> 0 < n"
proof (cases "r_pos r < length (r_buf r)")
  case False
  then show ?thesis using assms by (simp add: decode_head_def cbor_reader_read_head_def)
next
  case True
  define ib where "ib = r_buf r ! r_pos r"
  define bs where "bs = drop (Suc (r_pos r)) (r_buf r)"
  define ai where "ai = ib AND 0x1F"
  have d: "drop (r_pos r) (r_buf r) = ib # bs"
    using True by (simp add: ib_def bs_def Cons_nth_drop_Suc)
  have ra: "read_arg n mt (r\<lparr>r_pos := Suc (r_pos r)\<rparr>) =
      (if length bs < n then (None, r\<lparr>r_pos := Suc (r_pos r), r_err := True\<rparr>)
       else (Some (mt, be_load (take n bs)), r\<lparr>r_pos := Suc (r_pos r) + n\<rparr>))" for n mt
    using read_arg_suffix [of "r\<lparr>r_pos := Suc (r_pos r)\<rparr>" n mt] True by (simp add: bs_def)
  have lb: "length bs = length (r_buf r) - Suc (r_pos r)" by (simp add: bs_def)
  consider "ai < 24" | "ai = 24" | "ai = 25" | "ai = 26" | "ai = 27"
    | "\<not> ai < 24" "ai \<noteq> 24" "ai \<noteq> 25" "ai \<noteq> 26" "ai \<noteq> 27" by blast
  then show ?thesis
    unfolding d decode_head_def cbor_reader_read_head_def Let_def
    using True assms lb
    by cases (auto simp: ra ib_def [symmetric] ai_def [symmetric] arg_len_def simp flip: length_0_conv)
qed

lemma decode_head_length: "decode_head h = Some (mt, v, n) \<Longrightarrow> 0 < n \<and> n \<le> length h \<and> mt < 8"
proof -
  assume d: "decode_head h = Some (mt, v, n)"
  have "unat (x AND 7 :: u8) < 8" for x
    using word_and_le1 [of x 7] by (simp add: word_le_nat_alt)
  then show ?thesis using d
    by (cases h) (auto simp: decode_head_def Let_def split: if_splits option.splits)
qed

lemma decode_head_prefix:
  assumes "decode_head h = Some (mt, v, n)"
  shows "decode_head (take n h @ rest) = Some (mt, v, n)"
proof (cases h)
  case Nil
  then show ?thesis using assms by (simp add: decode_head_def)
next
  case (Cons ib bs)
  then obtain k where k: "arg_len (ib AND 0x1F) = Some k"
    using assms by (auto simp: decode_head_def Let_def split: option.splits)
  show ?thesis
  proof (cases "k = 0")
    case True
    then have "n = 1" using assms k by (simp add: decode_head_def Cons Let_def)
    then show ?thesis using True assms k by (simp add: decode_head_def Cons Let_def)
  next
    case False
    then have "\<not> length bs < k" "\<not> (k = 8 \<and> be_load (take k bs) > SIZE_MAX)"
      "v = be_load (take k bs)" "n = Suc k" "mt = unat (drop_bit 5 ib AND 7)"
      using assms k by (auto simp: decode_head_def Cons Let_def split: if_splits)
    then show ?thesis using k False by (simp add: decode_head_def Cons Let_def)
  qed
qed

text \<open>What the writer emits for a head.\<close>

definition head_bytes :: "nat \<Rightarrow> u64 \<Rightarrow> bytes" where
  "head_bytes mt v =
     (let m = mt_bits mt in
      if v < 24 then [m OR ucast v]
      else if v \<le> 0xFF then (m OR 24) # be_bytes 1 v
      else if v \<le> 0xFFFF then (m OR 25) # be_bytes 2 v
      else if v \<le> 0xFFFFFFFF then (m OR 26) # be_bytes 4 v
      else (m OR 27) # be_bytes 8 v)"

definition writes :: "cbor_writer \<Rightarrow> bytes \<Rightarrow> bool \<times> cbor_writer \<Rightarrow> bool" where
  "writes w bs x \<longleftrightarrow> (case x of (ok, w') \<Rightarrow>
     w_cap w' = w_cap w \<and> w_err w' = (\<not> ok) \<and>
     (if ok then w_out w' = w_out w @ bs \<and> length (w_out w') \<le> w_cap w
      else prefix (w_out w) (w_out w') \<and> (length (w_out w) \<le> w_cap w \<longrightarrow> length (w_out w') \<le> w_cap w)))"

lemma put_byte_writes: "writes w [b] (put_byte w b)"
  by (auto simp: writes_def put_byte_def)

lemma put_bytes_writes: "length (w_out w) \<le> w_cap w \<Longrightarrow> writes w bs (put_bytes w bs)"
  by (auto simp: writes_def put_bytes_def)

lemma writes_seq:
  assumes "writes w a (ok, w1)" and "\<And>w'. length (w_out w') \<le> w_cap w' \<Longrightarrow> writes w' b (f w')"
  shows "writes w (a @ b) (if \<not> ok then (False, w1) else f w1)"
proof (cases ok)
  case False
  then show ?thesis using assms(1) by (simp add: writes_def)
next
  case True
  then have "length (w_out w1) \<le> w_cap w1" using assms(1) by (auto simp: writes_def)
  then have "writes w1 b (f w1)" by (rule assms(2))
  then show ?thesis using assms(1) True
    by (cases "f w1") (auto simp: writes_def dest: append_prefixD split: if_splits)
qed

lemma put_head_writes: "length (w_out w) \<le> w_cap w \<Longrightarrow> writes w (head_bytes mt v) (put_head w mt v)"
proof -
  assume c: "length (w_out w) \<le> w_cap w"
  have two: "writes w (b # bs) (case put_byte w b of (ok, w1) \<Rightarrow> if \<not> ok then (False, w1) else put_bytes w1 bs)"
    for b bs
  proof (cases "put_byte w b")
    case (Pair ok w1)
    then have "writes w [b] (ok, w1)" using put_byte_writes [of w b] by simp
    from writes_seq [OF this, of bs "\<lambda>w'. put_bytes w' bs"] Pair show ?thesis
      by (simp add: put_bytes_writes)
  qed
  have one: "writes w (b # be_bytes 1 x) (case put_byte w b of (ok, w1) \<Rightarrow> if \<not> ok then (False, w1)
      else put_byte w1 (ucast x))" for b x
  proof (cases "put_byte w b")
    case (Pair ok w1)
    then have "writes w [b] (ok, w1)" using put_byte_writes [of w b] by simp
    from writes_seq [OF this, of "[ucast x]" "\<lambda>w'. put_byte w' (ucast x)"] Pair show ?thesis
      by (simp add: put_byte_writes be_bytes_def)
  qed
  show ?thesis
    unfolding put_head_def head_bytes_def Let_def
    using put_byte_writes two one by simp
qed

lemma length_head_bytes: "0 < length (head_bytes mt v) \<and> length (head_bytes mt v) \<le> 9"
  by (simp add: head_bytes_def Let_def)

lemma mt_head:
  assumes "mt < 8" and "x < 32"
  shows "drop_bit 5 (mt_bits mt OR x) AND 7 = of_nat mt" and "(mt_bits mt OR x) AND 0x1F = (x :: u8)"
proof -
  have m: "mt \<in> {0, 1, 2, 3, 4, 5, 6, 7}" using assms(1) by auto
  have xb: "\<not> bit x n" if "5 \<le> n" for n
  proof
    assume b: "bit x n"
    have "unat x < 2 ^ 5" using assms(2) by (simp add: word_less_nat_alt)
    then have "take_bit 5 (unat x) = unat x" by (simp only: take_bit_nat_eq_self)
    moreover have "bit (unat x) n" using b by (simp add: bit_unsigned_iff)
    ultimately have "bit (take_bit 5 (unat x)) n" by simp
    then show False using that by (simp add: bit_take_bit_iff)
  qed
  have m7: "(7 :: u8) = mask 3" and m31: "(31 :: u8) = mask 5" by (simp_all add: mask_eq_exp_minus_1)
  have xb5: "bit x n \<Longrightarrow> n < 5" for n
    using xb [of n] by (meson not_le)
  have mb: "n < 3" if b: "bit mt n" for n
  proof (rule ccontr)
    assume "\<not> n < 3"
    have "take_bit 3 mt = mt" by (rule take_bit_nat_eq_self) (use assms(1) in simp)
    then have "bit (take_bit 3 mt) n" using b by simp
    then show False using \<open>\<not> n < 3\<close> by (simp add: bit_take_bit_iff)
  qed
  show "drop_bit 5 (mt_bits mt OR x) AND 7 = of_nat mt"
    unfolding m7 by (rule bit_word_eqI) (use xb in \<open>auto simp: mt_bits_def bit_simps dest: mb\<close>)
  show "(mt_bits mt OR x) AND 0x1F = x"
    unfolding m31 by (rule bit_word_eqI) (use xb in \<open>auto simp: mt_bits_def bit_simps not_less dest: mb xb5\<close>)
qed

lemma decode_head_bytes:
  assumes "mt < 8" and "v \<le> SIZE_MAX"
  shows "decode_head (head_bytes mt v @ rest) = Some (mt, v, length (head_bytes mt v))"
proof -
  have mt: "unat (of_nat mt :: u8) = mt" using assms(1) by (simp add: unat_of_nat)
  have ld: "be_load (take n (be_bytes n v @ rest)) = take_bit (8 * n) v" for n
    by (simp add: be_load_bytes)
  have tb: "take_bit (8 * n) v = v" if "unat v < 2 ^ (8 * n)" for n
    using that by (intro word_unat_eq_iff [THEN iffD2]) (simp only: unsigned_take_bit_eq take_bit_nat_eq_self)
  have ne: "be_bytes (Suc 0) v \<noteq> []" by (metis length_be_bytes list.size(3) nat.distinct(1))
  note mh = mt_head [OF assms(1)]
  consider "v < 24" | "24 \<le> v" "v \<le> 0xFF" | "0xFF < v" "v \<le> 0xFFFF" | "0xFFFF < v" "v \<le> 0xFFFFFFFF"
    using assms(2) by (force simp: SIZE_MAX_def)
  then show ?thesis
  proof cases
    case 1
    then have c: "unat (ucast v :: u8) = unat v"
      by (simp add: word_less_nat_alt unsigned_ucast_eq take_bit_nat_eq_self)
    then have b: "(ucast v :: u8) < 24" using 1 by (simp add: word_less_nat_alt)
    then have "(ucast v :: u8) < 32" by (rule order_less_trans) simp
    from mh [OF this] b mt have "decode_head (head_bytes mt v @ rest) = Some (mt, ucast (ucast v :: u8), 1)"
      using 1 by (simp add: head_bytes_def decode_head_def Let_def arg_len_def)
    moreover have "ucast (ucast v :: u8) = (of_nat (unat (ucast v :: u8)) :: u64)" by simp
    then have "ucast (ucast v :: u8) = v" unfolding c by simp
    ultimately show ?thesis using 1 by (simp add: head_bytes_def)
  next
    case 2
    then have "\<not> v < 24" by (simp add: not_less)
    with 2 ne mh [of 24] mt ld [of 1] tb [of 1] show ?thesis
      by (simp add: head_bytes_def decode_head_def Let_def arg_len_def word_le_nat_alt)
  next
    case 3
    then have "\<not> v < 24" "\<not> v \<le> 0xFF" by (auto simp: not_less word_le_nat_alt word_less_nat_alt)
    with 3 mh [of 25] mt ld [of 2] tb [of 2] show ?thesis
      by (simp add: head_bytes_def decode_head_def Let_def arg_len_def word_le_nat_alt)
  next
    case 4
    then have "\<not> v < 24" "\<not> v \<le> 0xFF" "\<not> v \<le> 0xFFFF"
      by (auto simp: not_less word_le_nat_alt word_less_nat_alt)
    with 4 mh [of 26] mt ld [of 4] tb [of 4] show ?thesis
      by (simp add: head_bytes_def decode_head_def Let_def arg_len_def word_le_nat_alt)
  qed
qed

text \<open>No other head of the same value is shorter: the writer's form is the canonical one.\<close>

lemma head_bytes_shortest:
  assumes "decode_head h = Some (mt, v, n)"
  shows "length (head_bytes mt v) \<le> n"
proof (cases h)
  case Nil
  then show ?thesis using assms by (simp add: decode_head_def)
next
  case (Cons ib bs)
  let ?ai = "ib AND 0x1F"
  have small: "unat (be_load l) < 2 ^ (8 * length l)" if "length l < 8" for l
  proof -
    have "be_load l = take_bit (8 * length l) (be_load l)" for l
    proof (induction l rule: rev_induct)
      case Nil
      then show ?case by (simp add: be_load_def)
    next
      case (snoc b l)
      show ?case unfolding be_load_snoc
        by (subst snoc.IH, rule bit_word_eqI) (auto simp: bit_simps dest: bit_imp_le_length)
    qed
    then have "unat (be_load l) = take_bit (8 * length l) (unat (be_load l))"
      by (metis unsigned_take_bit_eq)
    then show ?thesis by (metis take_bit_nat_less_exp)
  qed
  obtain k where k: "arg_len ?ai = Some k"
    using assms by (auto simp: decode_head_def Cons Let_def split: option.splits)
  show ?thesis
  proof (cases "k = 0")
    case True
    then have ai: "?ai < 24" using k by (auto simp: arg_len_def split: if_splits)
    have "v = ucast ?ai" "n = 1" using assms k True by (auto simp: decode_head_def Cons Let_def)
    moreover have "unat (ucast ?ai :: u64) = unat ?ai"
      using ai by (simp add: word_less_nat_alt unsigned_ucast_eq take_bit_nat_eq_self)
    ultimately have "v < 24" using ai by (simp add: word_less_nat_alt)
    then show ?thesis using \<open>n = 1\<close> by (simp add: head_bytes_def)
  next
    case False
    then have n: "n = Suc k" "v = be_load (take k bs)" "\<not> length bs < k" "k = 8 \<longrightarrow> v \<le> SIZE_MAX"
      using assms k by (auto simp: decode_head_def Cons Let_def split: if_splits)
    have "k \<in> {1, 2, 4, 8}" using k False by (auto simp: arg_len_def split: if_splits)
    with n(3,4) n(2) small [of "take k bs"] show ?thesis unfolding n(1)
      by (auto simp: head_bytes_def Let_def word_le_nat_alt word_less_nat_alt SIZE_MAX_def not_le)
  qed
qed

section \<open>The grammar of well-formed items\<close>

text \<open>
  \<open>wf_item k bs\<close>: \<open>bs\<close> is one item whose arrays and maps nest at most \<open>k\<close> deep;
  \<open>wf_items k n bs\<close>: \<open>bs\<close> is \<open>n\<close> such items in a row.
\<close>

inductive wf_item :: "nat \<Rightarrow> bytes \<Rightarrow> bool" and wf_items :: "nat \<Rightarrow> nat \<Rightarrow> bytes \<Rightarrow> bool" where
  wf_scalar: "decode_head h = Some (mt, v, length h) \<Longrightarrow> mt \<in> {0, 1, 7} \<Longrightarrow> wf_item k h"
| wf_string: "decode_head h = Some (mt, v, length h) \<Longrightarrow> mt \<in> {2, 3} \<Longrightarrow> length s = unat v
    \<Longrightarrow> wf_item k (h @ s)"
| wf_array: "decode_head h = Some (4, v, length h) \<Longrightarrow> wf_items k (unat v) b \<Longrightarrow> wf_item (Suc k) (h @ b)"
| wf_map: "decode_head h = Some (5, v, length h) \<Longrightarrow> wf_items k (2 * unat v) b \<Longrightarrow> wf_item (Suc k) (h @ b)"
| wf_nil: "wf_items k 0 []"
| wf_cons: "wf_item k a \<Longrightarrow> wf_items k n b \<Longrightarrow> wf_items k (Suc n) (a @ b)"

lemma wf_length: "wf_item k bs \<Longrightarrow> 0 < length bs" "wf_items k n bs \<Longrightarrow> n \<le> length bs"
proof (induction rule: wf_item_wf_items.inducts)
  case (wf_cons k a n b)
  then show ?case by (cases a) auto
qed (auto dest: decode_head_length)

abbreviation advance :: "nat \<Rightarrow> cbor_reader \<Rightarrow> cbor_reader" where
  "advance n r \<equiv> r\<lparr>r_pos := r_pos r + n\<rparr>"

lemma read_head_at:
  assumes "\<not> r_err r" and "drop (r_pos r) (r_buf r) = h @ rest" and "decode_head h = Some (mt, v, length h)"
  shows "cbor_reader_read_head r = (Some (mt, v), advance (length h) r)"
proof -
  have "decode_head (drop (r_pos r) (r_buf r)) = Some (mt, v, length h)"
    using decode_head_prefix [OF assms(3), of rest] assms(2) by simp
  then show ?thesis using read_head_suffix [OF assms(1)] by simp
qed

lemma drop_advance: "drop p buf = a @ rest \<Longrightarrow> drop (p + length a) buf = rest"
  by (metis add.commute append_eq_conv_conj drop_drop)

lemma remaining: "drop p buf = a @ rest \<Longrightarrow> length a \<le> length buf - p"
  by (metis length_append length_drop le_add1)

lemma validate_complete:
  "wf_item k bs \<Longrightarrow> \<not> r_err r \<Longrightarrow> drop (r_pos r) (r_buf r) = bs @ rest \<Longrightarrow>
     validate_item k r = (True, advance (length bs) r)"
  "wf_items k n bs \<Longrightarrow> \<not> r_err r \<Longrightarrow> drop (r_pos r) (r_buf r) = bs @ rest \<Longrightarrow>
     validate_items n k r = (True, advance (length bs) r)"
proof (induction arbitrary: r rest and r rest rule: wf_item_wf_items.inducts)
  case (wf_scalar h mt v k)
  then show ?case by (auto simp: validate_item.simps read_head_at cbor_mts)
next
  case (wf_string h mt v s k)
  then have "cbor_reader_read_head r = (Some (mt, v), advance (length h) r)"
    by (intro read_head_at [of r h "s @ rest"]) simp_all
  moreover have "length s \<le> length (r_buf r) - (r_pos r + length h)"
    by (rule remaining [of _ _ _ rest]) (use wf_string drop_advance [of "r_pos r" "r_buf r" h] in simp)
  ultimately show ?case using wf_string by (auto simp: validate_item.simps cbor_mts add.assoc)
next
  case (wf_array h v k b)
  then have h: "cbor_reader_read_head r = (Some (4, v), advance (length h) r)"
    by (intro read_head_at [of r h "b @ rest"]) simp_all
  have d: "drop (r_pos r + length h) (r_buf r) = b @ rest"
    by (rule drop_advance) (use wf_array in simp)
  from wf_length(2) [OF wf_array(2)] remaining [OF d]
  have "unat v \<le> length (r_buf r) - (r_pos r + length h)" by simp
  with h wf_array.IH [of "advance (length h) r"] d wf_array.prems show ?case
    by (simp add: validate_item.simps cbor_mts add.assoc)
next
  case (wf_map h v k b)
  then have h: "cbor_reader_read_head r = (Some (5, v), advance (length h) r)"
    by (intro read_head_at [of r h "b @ rest"]) simp_all
  have d: "drop (r_pos r + length h) (r_buf r) = b @ rest"
    by (rule drop_advance) (use wf_map in simp)
  from wf_length(2) [OF wf_map(2)] remaining [OF d]
  have "unat v \<le> length (r_buf r) - (r_pos r + length h)" by simp
  with h wf_map.IH [of "advance (length h) r"] d wf_map.prems show ?case
    by (simp add: validate_item.simps cbor_mts add.assoc)
next
  case (wf_nil k)
  then show ?case by simp
next
  case (wf_cons k a n b)
  from wf_cons.prems have "validate_item k r = (True, advance (length a) r)"
    by (intro wf_cons.IH(1) [of r "b @ rest"]) simp_all
  moreover have "validate_items n k (advance (length a) r) = (True, advance (length b) (advance (length a) r))"
    by (rule wf_cons.IH(2) [of _ rest]) (use wf_cons.prems drop_advance [of "r_pos r" "r_buf r" a] in simp_all)
  ultimately show ?case by (simp add: add.assoc)
qed

lemma read_headD:
  assumes "\<not> r_err r" and "cbor_reader_read_head r = (Some (mt, v), r1)"
  obtains h rest where "drop (r_pos r) (r_buf r) = h @ rest" "decode_head h = Some (mt, v, length h)"
    "r1 = advance (length h) r"
proof -
  let ?d = "drop (r_pos r) (r_buf r)"
  obtain n where d: "decode_head ?d = Some (mt, v, n)" and r1: "r1 = advance n r"
    using read_head_suffix [OF assms(1)] assms(2) by (auto split: option.splits)
  have n: "n \<le> length ?d" using decode_head_length [OF d] by simp
  have "decode_head (take n ?d) = Some (mt, v, n)" using decode_head_prefix [OF d, of "[]"] by simp
  moreover have "length (take n ?d) = n" using n by simp
  ultimately show ?thesis using r1 by (intro that [of "take n ?d" "drop n ?d"]) (simp_all del: drop_drop)
qed

text \<open>What a successful run over the reader consumed.\<close>

definition consumed :: "(bytes \<Rightarrow> bool) \<Rightarrow> cbor_reader \<Rightarrow> cbor_reader \<Rightarrow> bool" where
  "consumed P r r' \<longleftrightarrow> (\<exists>bs rest. drop (r_pos r) (r_buf r) = bs @ rest \<and> P bs \<and> r' = advance (length bs) r)"

lemma consumed_prepend:
  assumes "drop (r_pos r) (r_buf r) = a @ rest" and "consumed P (advance (length a) r) r'"
    and "\<And>b. P b \<Longrightarrow> Q (a @ b)"
  shows "consumed Q r r'"
proof -
  obtain b rest' where b: "drop (r_pos r + length a) (r_buf r) = b @ rest'" "P b"
    "r' = advance (length b) (advance (length a) r)"
    using assms(2) by (auto simp: consumed_def)
  then have "rest = b @ rest'" using drop_advance [OF assms(1)] by simp
  then have "drop (r_pos r) (r_buf r) = (a @ b) @ rest'" using assms(1) by simp
  then show ?thesis using assms(3) b(2,3) unfolding consumed_def
    by (intro exI [of _ "a @ b"] exI [of _ rest']) (simp add: add.assoc)
qed

lemma validate_container:
  assumes "cbor_reader_read_head r = (Some (mt, v), r1)" and "mt = CBOR_MT_ARRAY \<or> mt = CBOR_MT_MAP"
    and "validate_item k r = (True, r')"
  obtains k1 where "k = Suc k1" "\<not> unat v > length (r_buf r1) - r_pos r1"
    "validate_items (if mt = CBOR_MT_MAP then 2 * unat v else unat v) k1 r1 = (True, r')"
proof (cases k)
  case 0
  then show ?thesis using assms by (auto simp: validate_item.simps cbor_mts)
next
  case (Suc k1)
  let ?n = "if mt = CBOR_MT_MAP then 2 * unat v else unat v"
  have "validate_item k r = (if unat v > length (r_buf r1) - r_pos r1 then (False, r1\<lparr>r_err := True\<rparr>)
      else validate_items ?n k1 r1)"
    using assms(1,2) by (subst validate_item.simps) (auto simp: Suc cbor_mts)
  then show ?thesis using that [OF Suc] assms(3)
    by (cases "unat v > length (r_buf r1) - r_pos r1") simp_all
qed

lemma validate_sound:
  "validate_item k r = (True, r') \<Longrightarrow> \<not> r_err r \<Longrightarrow> consumed (wf_item k) r r'"
  "validate_items n k r = (True, r') \<Longrightarrow> \<not> r_err r \<Longrightarrow> consumed (wf_items k n) r r'"
proof (induction k r and n k r arbitrary: r' and r' rule: validate_item_validate_items.induct)
  case (1 k r)
  then obtain mt v r1 where rh: "cbor_reader_read_head r = (Some (mt, v), r1)"
    by (auto simp: validate_item.simps split: prod.splits option.splits)
  obtain h rest where d: "drop (r_pos r) (r_buf r) = h @ rest"
      and dh: "decode_head h = Some (mt, v, length h)" and r1: "r1 = advance (length h) r"
    using read_headD [OF 1(3) rh] by blast
  consider "mt \<in> {0, 1, 7}" | "mt \<in> {2, 3}" | "mt = 4" | "mt = 5" | "mt = 6"
    using decode_head_length [OF dh] by force
  then show ?case
  proof cases
    case 1
    then show ?thesis using rh r1 \<open>validate_item k r = (True, r')\<close> d wf_scalar [OF dh]
      by (auto simp: validate_item.simps cbor_mts consumed_def)
  next
    case 2
    then have le: "unat v \<le> length (r_buf r) - (r_pos r + length h)"
        and r': "r' = advance (unat v) (advance (length h) r)"
      using rh r1 \<open>validate_item k r = (True, r')\<close> by (auto simp: validate_item.simps cbor_mts split: if_splits)
    have rest: "rest = drop (r_pos r + length h) (r_buf r)" using drop_advance [OF d] by simp
    have "consumed (\<lambda>s. length s = unat v) (advance (length h) r) r'"
      unfolding consumed_def
      by (rule exI [of _ "take (unat v) rest"], rule exI [of _ "drop (unat v) rest"]) (use le rest r' in \<open>simp del: drop_drop\<close>)
    then show ?thesis by (rule consumed_prepend [OF d]) (rule wf_string [OF dh 2])
  next
    case 3
    then have m: "mt = CBOR_MT_ARRAY \<or> mt = CBOR_MT_MAP" by (simp add: cbor_mts)
    obtain k1 where k: "k = Suc k1" and le: "\<not> unat v > length (r_buf r1) - r_pos r1"
        and run: "validate_items (if mt = CBOR_MT_MAP then 2 * unat v else unat v) k1 r1 = (True, r')"
      by (rule validate_container [OF rh m \<open>validate_item k r = (True, r')\<close>])
    have "consumed (wf_items k1 (if mt = CBOR_MT_MAP then 2 * unat v else unat v)) r1 r'"
      by (rule 1(1) [OF rh [symmetric] refl refl _ _ _ k le run])
         (use 3 \<open>\<not> r_err r\<close> r1 in \<open>simp_all add: cbor_mts\<close>)
    then have "consumed (wf_items k1 (unat v)) r1 r'" using 3 by (simp add: cbor_mts)
    then show ?thesis unfolding r1 k by (rule consumed_prepend [OF d]) (rule wf_array [OF dh [unfolded 3]])
  next
    case 4
    then have m: "mt = CBOR_MT_ARRAY \<or> mt = CBOR_MT_MAP" by (simp add: cbor_mts)
    obtain k1 where k: "k = Suc k1" and le: "\<not> unat v > length (r_buf r1) - r_pos r1"
        and run: "validate_items (if mt = CBOR_MT_MAP then 2 * unat v else unat v) k1 r1 = (True, r')"
      by (rule validate_container [OF rh m \<open>validate_item k r = (True, r')\<close>])
    have "consumed (wf_items k1 (if mt = CBOR_MT_MAP then 2 * unat v else unat v)) r1 r'"
      by (rule 1(1) [OF rh [symmetric] refl refl _ _ _ k le run])
         (use 4 \<open>\<not> r_err r\<close> r1 in \<open>simp_all add: cbor_mts\<close>)
    then have "consumed (wf_items k1 (2 * unat v)) r1 r'" using 4 by (simp add: cbor_mts)
    then show ?thesis unfolding r1 k by (rule consumed_prepend [OF d]) (rule wf_map [OF dh [unfolded 4]])
  next
    case 5
    then show ?thesis using rh \<open>validate_item k r = (True, r')\<close> by (simp add: validate_item.simps cbor_mts)
  qed
next
  case (2 k r)
  then show ?case unfolding consumed_def
    by (intro exI [of _ "[]"] exI [of _ "drop (r_pos r) (r_buf r)"]) (simp add: wf_nil)
next
  case (3 n k r)
  then obtain r1 where a: "validate_item k r = (True, r1)" and b: "validate_items n k r1 = (True, r')"
    by (auto split: prod.splits if_splits)
  have ca: "consumed (wf_item k) r r1" by (rule 3(1) [OF a 3(4)])
  then have "\<not> r_err r1" using 3(4) by (auto simp: consumed_def)
  then have cb: "consumed (wf_items k n) r1 r'" using 3(2) a b by auto
  from ca obtain x rest where x: "drop (r_pos r) (r_buf r) = x @ rest" "wf_item k x" "r1 = advance (length x) r"
    by (auto simp: consumed_def)
  show ?case by (rule consumed_prepend [OF x(1) cb [unfolded x(3)]]) (rule wf_cons [OF x(2)])
qed

lemma wf_validates: "wf_item CBOR_MAX_DEPTH buf \<Longrightarrow> cbor_validate buf"
proof -
  assume "wf_item CBOR_MAX_DEPTH buf"
  then have "validate_item CBOR_MAX_DEPTH (cbor_reader_init buf)
      = (True, advance (length buf) (cbor_reader_init buf))"
    by (rule validate_complete(1) [of _ _ _ "[]"]) (simp_all add: cbor_reader_init_def)
  then show "cbor_validate buf" by (simp add: cbor_validate_def cbor_reader_init_def)
qed

text \<open>C32.
  \<open>cbor_validate\<close> accepts a buffer exactly when the whole of it is one well-formed item
  nested at most \<open>CBOR_MAX_DEPTH\<close> deep: nothing malformed, truncated, over-nested or with
  trailing bytes passes, and nothing well-formed is refused.
\<close>

theorem cbor_validate_exact: "cbor_validate buf \<longleftrightarrow> wf_item CBOR_MAX_DEPTH buf"
proof
  assume "cbor_validate buf"
  then obtain r where v: "validate_item CBOR_MAX_DEPTH (cbor_reader_init buf) = (True, r)"
      and e: "r_pos r = length (r_buf r)"
    by (auto simp: cbor_validate_def split: prod.splits)
  from validate_sound(1) [OF v] e show "wf_item CBOR_MAX_DEPTH buf"
    by (auto simp: consumed_def cbor_reader_init_def)
next
  show "wf_item CBOR_MAX_DEPTH buf \<Longrightarrow> cbor_validate buf" by (rule wf_validates)
qed

section \<open>Skipping\<close>

lemma skip_complete:
  "wf_item k bs \<Longrightarrow> k \<le> j \<Longrightarrow> \<not> r_err r \<Longrightarrow> drop (r_pos r) (r_buf r) = bs @ rest \<Longrightarrow>
     skip_item (Suc j) r = (True, advance (length bs) r)"
  "wf_items k n bs \<Longrightarrow> k \<le> j \<Longrightarrow> \<not> r_err r \<Longrightarrow> drop (r_pos r) (r_buf r) = bs @ rest \<Longrightarrow>
     skip_items n (Suc j) r = (True, advance (length bs) r)"
proof (induction arbitrary: j r rest and j r rest rule: wf_item_wf_items.inducts)
  case (wf_scalar h mt v k)
  then show ?case by (auto simp: skip_item.simps(2) read_head_at cbor_mts)
next
  case (wf_string h mt v s k)
  then have "cbor_reader_read_head r = (Some (mt, v), advance (length h) r)"
    by (intro read_head_at [of r h "s @ rest"]) simp_all
  moreover have "length s \<le> length (r_buf r) - (r_pos r + length h)"
    by (rule remaining [of _ _ _ rest]) (use wf_string drop_advance [of "r_pos r" "r_buf r" h] in simp)
  ultimately show ?case using wf_string by (auto simp: skip_item.simps(2) cbor_mts add.assoc)
next
  case (wf_array h v k b)
  then have h: "cbor_reader_read_head r = (Some (4, v), advance (length h) r)"
    by (intro read_head_at [of r h "b @ rest"]) simp_all
  have d: "drop (r_pos r + length h) (r_buf r) = b @ rest"
    by (rule drop_advance) (use wf_array in simp)
  obtain i where j: "j = Suc i" "k \<le> i" using wf_array.prems(1) by (cases j) auto
  from h wf_array.IH [of i "advance (length h) r"] d wf_array.prems j show ?case
    by (simp add: skip_item.simps(2) cbor_mts add.assoc)
next
  case (wf_map h v k b)
  then have h: "cbor_reader_read_head r = (Some (5, v), advance (length h) r)"
    by (intro read_head_at [of r h "b @ rest"]) simp_all
  have d: "drop (r_pos r + length h) (r_buf r) = b @ rest"
    by (rule drop_advance) (use wf_map in simp)
  obtain i where j: "j = Suc i" "k \<le> i" using wf_map.prems(1) by (cases j) auto
  from h wf_map.IH [of i "advance (length h) r"] d wf_map.prems j show ?case
    by (simp add: skip_item.simps(2) cbor_mts add.assoc)
next
  case (wf_nil k)
  then show ?case by simp
next
  case (wf_cons k a n b)
  from wf_cons.prems have "skip_item (Suc j) r = (True, advance (length a) r)"
    by (intro wf_cons.IH(1) [of j r "b @ rest"]) simp_all
  moreover have "skip_items n (Suc j) (advance (length a) r) = (True, advance (length b) (advance (length a) r))"
    by (rule wf_cons.IH(2) [of _ _ rest]) (use wf_cons.prems drop_advance [of "r_pos r" "r_buf r" a] in simp_all)
  ultimately show ?case by (simp add: add.assoc)
qed

text \<open>Anything \<open>cbor_validate\<close> lets through can be walked without error: on an item it accepts,
  wherever the item sits in a message, \<open>cbor_reader_skip\<close> succeeds, lands exactly behind
  it and leaves the error flag clear.
\<close>

theorem cbor_skip_validated:
  assumes "cbor_validate bs" and "\<not> r_err r" and "drop (r_pos r) (r_buf r) = bs @ rest"
  shows "cbor_reader_skip r = (True, advance (length bs) r)"
  unfolding cbor_reader_skip_def add_Suc_right [of _ 0, simplified] plus_1_eq_Suc [symmetric]
  using skip_complete(1) [OF assms(1) [unfolded cbor_validate_exact] _ assms(2,3), of CBOR_SKIP_MAX_DEPTH]
  by (simp add: CBOR_MAX_DEPTH_def CBOR_SKIP_MAX_DEPTH_def)

lemma cbor_skip_validated_witness:
  "cbor_reader_skip \<lparr>r_buf = [0xA1, 0x01, 0x82, 0x00, 0x41, 0x07, 0xF6], r_pos = 2, r_err = False\<rparr>
     = (True, \<lparr>r_buf = [0xA1, 0x01, 0x82, 0x00, 0x41, 0x07, 0xF6], r_pos = 6, r_err = False\<rparr>)"
proof -
  have "cbor_validate [0x82, 0x00, 0x41, 0x07]" by code_simp
  from cbor_skip_validated [OF this,
      of "\<lparr>r_buf = [0xA1, 0x01, 0x82, 0x00, 0x41, 0x07, 0xF6], r_pos = 2, r_err = False\<rparr>" "[0xF6]"]
  show ?thesis by simp
qed

section \<open>Writing and reading back\<close>

abbreviation reader_at :: "bytes \<Rightarrow> nat \<Rightarrow> cbor_reader" where
  "reader_at buf pos \<equiv> \<lparr>r_buf = buf, r_pos = pos, r_err = False\<rparr>"

abbreviation writable :: "cbor_writer \<Rightarrow> bool" where
  "writable w \<equiv> length (w_out w) \<le> w_cap w"

lemma put_head_read:
  assumes "writable w" and "mt < 8" and "v \<le> SIZE_MAX" and "put_head w mt v = (True, w')"
  shows "writable w'"
    "cbor_reader_read_head (reader_at (w_out w' @ rest) (length (w_out w)))
       = (Some (mt, v), reader_at (w_out w' @ rest) (length (w_out w')))"
proof -
  have out: "w_out w' = w_out w @ head_bytes mt v" "w_cap w' = w_cap w" "length (w_out w') \<le> w_cap w"
    using put_head_writes [OF assms(1), of mt v] assms(4) by (auto simp: writes_def)
  then show "writable w'" by simp
  let ?r = "reader_at (w_out w' @ rest) (length (w_out w))"
  have "drop (r_pos ?r) (r_buf ?r) = head_bytes mt v @ rest" by (simp add: out)
  moreover have "decode_head (head_bytes mt v) = Some (mt, v, length (head_bytes mt v))"
    using decode_head_bytes [OF assms(2,3), of "[]"] by simp
  ultimately show "cbor_reader_read_head ?r = (Some (mt, v), reader_at (w_out w' @ rest) (length (w_out w')))"
    by (subst read_head_at [of ?r "head_bytes mt v" rest]) (simp_all add: out)
qed

lemma put_run_read:
  assumes "writable w" and "mt < 8" and "of_nat (length bs) \<le> SIZE_MAX" and "length bs < 2 ^ 64"
    and "(case put_head w mt (of_nat (length bs)) of (ok, w1) \<Rightarrow>
           if \<not> ok then (False, w1) else put_bytes w1 bs) = (True, w')"
  shows "writable w'"
    "read_byte_run mt (reader_at (w_out w' @ rest) (length (w_out w)))
       = (Some bs, reader_at (w_out w' @ rest) (length (w_out w')))"
proof -
  obtain w1 where h: "put_head w mt (of_nat (length bs)) = (True, w1)" and b: "put_bytes w1 bs = (True, w')"
    using assms(5) by (auto split: prod.splits if_splits)
  have wr: "writable w1" by (rule put_head_read(1) [OF assms(1,2,3) h])
  have out: "w_out w' = w_out w1 @ bs" "w_cap w' = w_cap w1" "length (w_out w') \<le> w_cap w1"
    using put_bytes_writes [OF wr, of bs] b by (auto simp: writes_def)
  then show "writable w'" by simp
  have "cbor_reader_read_head (reader_at (w_out w1 @ bs @ rest) (length (w_out w)))
      = (Some (mt, of_nat (length bs)), reader_at (w_out w1 @ bs @ rest) (length (w_out w1)))"
    by (rule put_head_read(2) [OF assms(1,2,3) h])
  moreover have "unat (of_nat (length bs) :: u64) = length bs"
    using assms(4) by (simp add: unat_of_nat take_bit_nat_eq_self)
  ultimately show "read_byte_run mt (reader_at (w_out w' @ rest) (length (w_out w)))
      = (Some bs, reader_at (w_out w' @ rest) (length (w_out w')))"
    by (simp add: read_byte_run_def out)
qed

lemma size_fits:
  assumes "n \<le> unat SIZE_MAX"
  shows "(of_nat n :: u64) \<le> SIZE_MAX" "n < 2 ^ 64" "unat (of_nat n :: u64) = n"
proof -
  have "n \<le> 4294967295" using assms by (simp add: SIZE_MAX_def)
  then show "n < 2 ^ 64" "unat (of_nat n :: u64) = n"
    by (simp_all add: unat_of_nat take_bit_nat_eq_self)
  then show "(of_nat n :: u64) \<le> SIZE_MAX" using assms by (simp add: word_le_nat_alt)
qed

text \<open>C33.
  What the writer appends, the reader reads back at that place, whatever surrounds it:
  unsigned integers, byte strings, text strings, and array and map headers; and the write
  stays within the capacity.
\<close>

theorem cbor_write_read:
  assumes "writable w" and "v \<le> SIZE_MAX" and "length bs \<le> unat SIZE_MAX" and "n \<le> unat SIZE_MAX"
  shows "\<forall>w' rest.
    (cbor_write_uint w v = (True, w') \<longrightarrow> writable w' \<and>
       cbor_reader_read_uint (reader_at (w_out w' @ rest) (length (w_out w)))
         = (Some v, reader_at (w_out w' @ rest) (length (w_out w')))) \<and>
    (cbor_write_byte_string w bs = (True, w') \<longrightarrow> writable w' \<and>
       cbor_reader_read_bytes (reader_at (w_out w' @ rest) (length (w_out w)))
         = (Some bs, reader_at (w_out w' @ rest) (length (w_out w')))) \<and>
    (cbor_write_text w bs = (True, w') \<longrightarrow> writable w' \<and>
       cbor_reader_read_text (reader_at (w_out w' @ rest) (length (w_out w)))
         = (Some bs, reader_at (w_out w' @ rest) (length (w_out w')))) \<and>
    (cbor_write_array_header w n = (True, w') \<longrightarrow> writable w' \<and>
       cbor_reader_read_array_header (reader_at (w_out w' @ rest) (length (w_out w)))
         = (Some n, reader_at (w_out w' @ rest) (length (w_out w')))) \<and>
    (cbor_write_map_header w n = (True, w') \<longrightarrow> writable w' \<and>
       cbor_reader_read_map_header (reader_at (w_out w' @ rest) (length (w_out w)))
         = (Some n, reader_at (w_out w' @ rest) (length (w_out w'))))"
proof -
  note hd = put_head_read [OF assms(1)] and run = put_run_read [OF assms(1)]
  note bs = size_fits [OF assms(3)] and n = size_fits [OF assms(4)]
  note defs = cbor_write_uint_def cbor_write_byte_string_def cbor_write_text_def
    cbor_write_array_header_def cbor_write_map_header_def cbor_mts
  have "writable w' \<and> cbor_reader_read_uint (reader_at (w_out w' @ rest) (length (w_out w)))
      = (Some v, reader_at (w_out w' @ rest) (length (w_out w')))"
    if "cbor_write_uint w v = (True, w')" for w' rest
    using hd [of 0 v w'] assms(2) that by (simp add: defs cbor_reader_read_uint_def)
  moreover have "writable w' \<and> cbor_reader_read_bytes (reader_at (w_out w' @ rest) (length (w_out w)))
      = (Some bs, reader_at (w_out w' @ rest) (length (w_out w')))"
    if "cbor_write_byte_string w bs = (True, w')" for w' rest
    using run [of 2 bs w', OF _ bs(1,2) that [unfolded defs]] by (simp add: defs cbor_reader_read_bytes_def)
  moreover have "writable w' \<and> cbor_reader_read_text (reader_at (w_out w' @ rest) (length (w_out w)))
      = (Some bs, reader_at (w_out w' @ rest) (length (w_out w')))"
    if "cbor_write_text w bs = (True, w')" for w' rest
    using run [of 3 bs w', OF _ bs(1,2) that [unfolded defs]] by (simp add: defs cbor_reader_read_text_def)
  moreover have "writable w' \<and> cbor_reader_read_array_header (reader_at (w_out w' @ rest) (length (w_out w)))
      = (Some n, reader_at (w_out w' @ rest) (length (w_out w')))"
    if "cbor_write_array_header w n = (True, w')" for w' rest
    using hd [of 4 "of_nat n" w'] n that by (simp add: defs cbor_reader_read_array_header_def)
  moreover have "writable w' \<and> cbor_reader_read_map_header (reader_at (w_out w' @ rest) (length (w_out w)))
      = (Some n, reader_at (w_out w' @ rest) (length (w_out w')))"
    if "cbor_write_map_header w n = (True, w')" for w' rest
    using hd [of 5 "of_nat n" w'] n that by (simp add: defs cbor_reader_read_map_header_def)
  ultimately show ?thesis by blast
qed

lemma cbor_write_read_witness:
  "cbor_reader_read_uint (reader_at [0x18, 0x64, 0xFF] 0) = (Some 100, reader_at [0x18, 0x64, 0xFF] 2)"
proof -
  have s: "(100 :: u64) \<le> SIZE_MAX" "length ([] :: bytes) \<le> unat SIZE_MAX" "(0 :: nat) \<le> unat SIZE_MAX"
    by (simp_all add: SIZE_MAX_def)
  have w: "cbor_write_uint (cbor_writer_init 4) 100 = (True, \<lparr>w_out = [0x18, 0x64], w_cap = 4, w_err = False\<rparr>)"
    by code_simp
  let ?w = "\<lparr>w_out = [0x18, 0x64], w_cap = 4, w_err = False\<rparr> :: cbor_writer"
  have "writable (cbor_writer_init 4)" by (simp add: cbor_writer_init_def)
  from cbor_write_read [OF this s, THEN spec [of _ ?w], THEN spec [of _ "[0xFF]"], THEN conjunct1] w
  show ?thesis by (simp add: cbor_writer_init_def)
qed

end
