(* ===== verification/Ctap2_Parse.thy ===== *)
theory Ctap2_Parse
  imports Cbor
begin

text \<open>
  CTAP2 request parsing, \<^verbatim>\<open>firmware/src/fido_hid/ctap2_parse.c\<close>.  A reader function of the
  source is a function of the reader state that returns its error code or its value; the
  \<open>TRY\<close> macro is \<open>bind_rd\<close>, and the \<open>for\<close> loops over map members are \<open>rd_loop\<close>.  What the
  source leaves in its out-parameters after an error is dropped with the error.
\<close>

section \<open>Status codes\<close>

definition CTAP1_ERR_INVALID_PARAMETER :: nat where "CTAP1_ERR_INVALID_PARAMETER = 0x02"
definition CTAP1_ERR_INVALID_LENGTH :: nat where "CTAP1_ERR_INVALID_LENGTH = 0x03"
definition CTAP2_ERR_CBOR_UNEXPECTED_TYPE :: nat where "CTAP2_ERR_CBOR_UNEXPECTED_TYPE = 0x11"
definition CTAP2_ERR_INVALID_CBOR :: nat where "CTAP2_ERR_INVALID_CBOR = 0x12"
definition CTAP2_ERR_MISSING_PARAMETER :: nat where "CTAP2_ERR_MISSING_PARAMETER = 0x14"
definition CTAP2_ERR_UNSUPPORTED_ALGORITHM :: nat where "CTAP2_ERR_UNSUPPORTED_ALGORITHM = 0x26"
definition CTAP2_OPT_ABSENT :: int where "CTAP2_OPT_ABSENT = - 1"
definition CTAP2_USER_ID_MAX :: nat where "CTAP2_USER_ID_MAX = 64"
definition CTAP2_COSE_ALG_EDDSA :: int where "CTAP2_COSE_ALG_EDDSA = - 8"
definition CTAP2_COSE_ALG_ES256 :: int where "CTAP2_COSE_ALG_ES256 = - 7"

lemmas ctap_errs = CTAP1_ERR_INVALID_PARAMETER_def CTAP1_ERR_INVALID_LENGTH_def
  CTAP2_ERR_CBOR_UNEXPECTED_TYPE_def CTAP2_ERR_INVALID_CBOR_def CTAP2_ERR_MISSING_PARAMETER_def
  CTAP2_ERR_UNSUPPORTED_ALGORITHM_def

section \<open>Reader functions\<close>

type_synonym 'a rd = "cbor_reader \<Rightarrow> (nat + 'a) \<times> cbor_reader"

definition ret_rd :: "'a \<Rightarrow> 'a rd" where
  "ret_rd x r = (Inr x, r)"

definition err_rd :: "nat \<Rightarrow> 'a rd" where
  "err_rd e r = (Inl e, r)"

definition bind_rd :: "'a rd \<Rightarrow> ('a \<Rightarrow> 'b rd) \<Rightarrow> 'b rd" where
  "bind_rd m f r = (case m r of (Inl e, r1) \<Rightarrow> (Inl e, r1) | (Inr x, r1) \<Rightarrow> f x r1)"

fun rd_loop :: "nat \<Rightarrow> ('s \<Rightarrow> 's rd) \<Rightarrow> 's \<Rightarrow> 's rd" where
  "rd_loop 0 f s = ret_rd s"
| "rd_loop (Suc n) f s = bind_rd (f s) (rd_loop n f)"

definition cbor_rd :: "(cbor_reader \<Rightarrow> 'a option \<times> cbor_reader) \<Rightarrow> 'a rd" where
  "cbor_rd m r = (case m r of (None, r1) \<Rightarrow> (Inl CTAP2_ERR_INVALID_CBOR, r1) | (Some x, r1) \<Rightarrow> (Inr x, r1))"

definition want :: "nat \<Rightarrow> unit rd" where
  "want mt r =
     (if cbor_reader_peek_major r = Some mt then (Inr (), r) else (Inl CTAP2_ERR_CBOR_UNEXPECTED_TYPE, r))"

definition rd_text :: "bytes rd" where
  "rd_text = bind_rd (want CBOR_MT_TEXT_STR) (\<lambda>_. cbor_rd cbor_reader_read_text)"

definition rd_bytes :: "bytes rd" where
  "rd_bytes = bind_rd (want CBOR_MT_BYTE_STR) (\<lambda>_. cbor_rd cbor_reader_read_bytes)"

definition rd_map :: "nat rd" where
  "rd_map = bind_rd (want CBOR_MT_MAP) (\<lambda>_. cbor_rd cbor_reader_read_map_header)"

definition rd_array :: "nat rd" where
  "rd_array = bind_rd (want CBOR_MT_ARRAY) (\<lambda>_. cbor_rd cbor_reader_read_array_header)"

definition rd_skip :: "unit rd" where
  "rd_skip = cbor_rd (\<lambda>r. case cbor_reader_skip r of (ok, r1) \<Rightarrow> (if ok then Some () else None, r1))"

definition rd_small_uint :: "int rd" where
  "rd_small_uint = bind_rd (want CBOR_MT_UINT) (\<lambda>_. bind_rd (cbor_rd cbor_reader_read_uint)
     (\<lambda>v. ret_rd (if v > 0xFFFF then 0xFFFF else uint v)))"

definition rd_int :: "int rd" where
  "rd_int r =
     (let peek = cbor_reader_peek_major r
      in if peek \<noteq> Some CBOR_MT_UINT \<and> peek \<noteq> Some CBOR_MT_NEGINT then (Inl CTAP2_ERR_CBOR_UNEXPECTED_TYPE, r)
         else bind_rd (cbor_rd cbor_reader_read_head)
           (\<lambda>(mt, v). ret_rd
              (if v > 0x7FFFFFFF then (if mt = CBOR_MT_UINT then 2147483647 else - 2147483648)
               else if mt = CBOR_MT_UINT then uint v else - 1 - uint v)) r)"

definition rd_bool :: "int rd" where
  "rd_bool = bind_rd (want CBOR_MT_SIMPLE) (\<lambda>_. bind_rd (cbor_rd cbor_reader_read_head)
     (\<lambda>(mt, v). if v = 20 then ret_rd 0 else if v = 21 then ret_rd 1
                else err_rd CTAP2_ERR_CBOR_UNEXPECTED_TYPE))"

definition rd_param_key :: "u64 rd" where
  "rd_param_key = bind_rd (want CBOR_MT_UINT) (\<lambda>_. cbor_rd cbor_reader_read_uint)"

text \<open>A key is compared as its ASCII bytes.\<close>

definition key_is :: "bytes \<Rightarrow> string \<Rightarrow> bool" where
  "key_is k s \<longleftrightarrow> k = ascii s"

section \<open>Members\<close>

definition rd_client_hash :: "bytes rd" where
  "rd_client_hash = bind_rd rd_bytes (\<lambda>p. if length p \<noteq> 32 then err_rd CTAP1_ERR_INVALID_LENGTH else ret_rd p)"

text \<open>\<open>None\<close> is \<open>got == 0\<close>.\<close>

definition rd_rp_member :: "bytes option \<Rightarrow> bytes option rd" where
  "rd_rp_member got = bind_rd rd_text (\<lambda>k.
     if key_is k ''id'' then bind_rd rd_text (\<lambda>v. ret_rd (Some v)) else bind_rd rd_skip (\<lambda>_. ret_rd got))"

definition rd_rp :: "bytes rd" where
  "rd_rp = bind_rd rd_map (\<lambda>m. bind_rd (rd_loop m rd_rp_member None)
     (\<lambda>got. case got of None \<Rightarrow> err_rd CTAP2_ERR_CBOR_UNEXPECTED_TYPE | Some v \<Rightarrow> ret_rd v))"

definition rd_user_member :: "bytes option \<Rightarrow> bytes option rd" where
  "rd_user_member got = bind_rd rd_text (\<lambda>k.
     if key_is k ''id'' then bind_rd rd_bytes (\<lambda>v. ret_rd (Some v)) else bind_rd rd_skip (\<lambda>_. ret_rd got))"

definition rd_user :: "bytes rd" where
  "rd_user = bind_rd rd_map (\<lambda>m. bind_rd (rd_loop m rd_user_member None)
     (\<lambda>got. case got of None \<Rightarrow> err_rd CTAP2_ERR_CBOR_UNEXPECTED_TYPE
        | Some v \<Rightarrow> if length v \<le> CTAP2_USER_ID_MAX then ret_rd v else err_rd CTAP1_ERR_INVALID_LENGTH))"

text \<open>\<open>(alg, public_key)\<close>: \<open>None\<close> is \<open>got_alg == 0\<close> and \<open>got_type == 0\<close>.\<close>

definition rd_param_member :: "int option \<times> bool option \<Rightarrow> (int option \<times> bool option) rd" where
  "rd_param_member s = bind_rd rd_text (\<lambda>k.
     if key_is k ''alg'' then bind_rd rd_int (\<lambda>a. ret_rd (Some a, snd s))
     else if key_is k ''type'' then bind_rd rd_text (\<lambda>t. ret_rd (fst s, Some (key_is t ''public-key'')))
     else bind_rd rd_skip (\<lambda>_. ret_rd s))"

definition rd_cred_param :: "int \<Rightarrow> int rd" where
  "rd_cred_param chosen = bind_rd rd_map (\<lambda>m. bind_rd (rd_loop m rd_param_member (None, None))
     (\<lambda>s. case s of
        (Some alg, Some public_key) \<Rightarrow>
          ret_rd (if chosen = 0 \<and> public_key \<and> (alg = CTAP2_COSE_ALG_EDDSA \<or> alg = CTAP2_COSE_ALG_ES256)
                  then alg else chosen)
      | _ \<Rightarrow> err_rd CTAP2_ERR_CBOR_UNEXPECTED_TYPE))"

definition rd_cred_params :: "int rd" where
  "rd_cred_params = bind_rd rd_array (\<lambda>n. rd_loop n rd_cred_param 0)"

definition rd_desc_member :: "bytes option \<times> bool option \<Rightarrow> (bytes option \<times> bool option) rd" where
  "rd_desc_member s = bind_rd rd_text (\<lambda>k.
     if key_is k ''id'' then bind_rd rd_bytes (\<lambda>v. ret_rd (Some v, snd s))
     else if key_is k ''type'' then bind_rd rd_text (\<lambda>t. ret_rd (fst s, Some (key_is t ''public-key'')))
     else bind_rd rd_skip (\<lambda>_. ret_rd s))"

definition rd_descriptor :: "(bytes \<times> bool) rd" where
  "rd_descriptor = bind_rd rd_map (\<lambda>m. bind_rd (rd_loop m rd_desc_member (None, None))
     (\<lambda>s. case s of
        (Some i, Some public_key) \<Rightarrow> ret_rd (i, public_key)
      | _ \<Rightarrow> err_rd CTAP2_ERR_CBOR_UNEXPECTED_TYPE))"

text \<open>A present list is the slice of the request it was read from.\<close>

definition rd_cred_list :: "bytes rd" where
  "rd_cred_list r =
     (case bind_rd rd_array (\<lambda>n. rd_loop n (\<lambda>_. bind_rd rd_descriptor (\<lambda>_. ret_rd ())) ()) r of
        (Inl e, r1) \<Rightarrow> (Inl e, r1)
      | (Inr _, r1) \<Rightarrow> (Inr (take (r_pos r1 - r_pos r) (drop (r_pos r) (r_buf r1))), r1))"

record ctap2_options =
  opt_rk :: int
  opt_up :: int
  opt_uv :: int

definition rd_option :: "ctap2_options \<Rightarrow> ctap2_options rd" where
  "rd_option opt = bind_rd rd_text (\<lambda>k.
     if key_is k ''rk'' then bind_rd rd_bool (\<lambda>b. ret_rd (opt\<lparr>opt_rk := b\<rparr>))
     else if key_is k ''up'' then bind_rd rd_bool (\<lambda>b. ret_rd (opt\<lparr>opt_up := b\<rparr>))
     else if key_is k ''uv'' then bind_rd rd_bool (\<lambda>b. ret_rd (opt\<lparr>opt_uv := b\<rparr>))
     else bind_rd rd_skip (\<lambda>_. ret_rd opt))"

definition rd_options :: "ctap2_options \<Rightarrow> ctap2_options rd" where
  "rd_options opt = bind_rd rd_map (\<lambda>m. rd_loop m rd_option opt)"

definition rd_extension :: "bool \<Rightarrow> bool rd" where
  "rd_extension want_props = bind_rd rd_text (\<lambda>k. bind_rd rd_skip (\<lambda>_.
     ret_rd (want_props \<or> key_is k ''credProps'')))"

definition rd_extensions :: "bool \<Rightarrow> bool rd" where
  "rd_extensions want_props = bind_rd rd_map (\<lambda>m. rd_loop m rd_extension want_props)"

section \<open>Requests\<close>

record ctap2_pin_uv =
  pu_has_param :: bool
  pu_param :: bytes
  pu_protocol :: int

definition rd_pin_uv_param :: "ctap2_pin_uv \<Rightarrow> ctap2_pin_uv rd" where
  "rd_pin_uv_param pu = bind_rd rd_bytes (\<lambda>p. ret_rd (pu\<lparr>pu_param := p, pu_has_param := True\<rparr>))"

definition no_options :: ctap2_options where
  "no_options = \<lparr>opt_rk = CTAP2_OPT_ABSENT, opt_up = CTAP2_OPT_ABSENT, opt_uv = CTAP2_OPT_ABSENT\<rparr>"

definition no_pin_uv :: ctap2_pin_uv where
  "no_pin_uv = \<lparr>pu_has_param = False, pu_param = [], pu_protocol = CTAP2_OPT_ABSENT\<rparr>"

text \<open>The \<open>got\<close> flags of the parser are fields behind those of the request.\<close>

record ctap2_mc_req =
  mc_client_hash :: bytes
  mc_rp_id :: bytes
  mc_user_id :: bytes
  mc_alg :: int
  mc_exclude :: "bytes option"
  mc_want_cred_props :: bool
  mc_opt :: ctap2_options
  mc_pin_uv :: ctap2_pin_uv
  mc_got_hash :: bool
  mc_got_rp :: bool
  mc_got_user :: bool
  mc_got_params :: bool

definition mc_start :: ctap2_mc_req where
  "mc_start = \<lparr>mc_client_hash = replicate 32 0, mc_rp_id = [], mc_user_id = [], mc_alg = 0,
     mc_exclude = None, mc_want_cred_props = False, mc_opt = no_options, mc_pin_uv = no_pin_uv,
     mc_got_hash = False, mc_got_rp = False, mc_got_user = False, mc_got_params = False\<rparr>"

definition mc_param :: "ctap2_mc_req \<Rightarrow> ctap2_mc_req rd" where
  "mc_param q = bind_rd rd_param_key (\<lambda>key.
     if key = 1 then bind_rd rd_client_hash (\<lambda>h. ret_rd (q\<lparr>mc_client_hash := h, mc_got_hash := True\<rparr>))
     else if key = 2 then bind_rd rd_rp (\<lambda>v. ret_rd (q\<lparr>mc_rp_id := v, mc_got_rp := True\<rparr>))
     else if key = 3 then bind_rd rd_user (\<lambda>v. ret_rd (q\<lparr>mc_user_id := v, mc_got_user := True\<rparr>))
     else if key = 4 then bind_rd rd_cred_params (\<lambda>a. ret_rd (q\<lparr>mc_alg := a, mc_got_params := True\<rparr>))
     else if key = 5 then bind_rd rd_cred_list (\<lambda>l. ret_rd (q\<lparr>mc_exclude := Some l\<rparr>))
     else if key = 6 then
       bind_rd (rd_extensions (mc_want_cred_props q)) (\<lambda>w. ret_rd (q\<lparr>mc_want_cred_props := w\<rparr>))
     else if key = 7 then bind_rd (rd_options (mc_opt q)) (\<lambda>opt. ret_rd (q\<lparr>mc_opt := opt\<rparr>))
     else if key = 8 then bind_rd (rd_pin_uv_param (mc_pin_uv q)) (\<lambda>pu. ret_rd (q\<lparr>mc_pin_uv := pu\<rparr>))
     else if key = 9 then
       bind_rd rd_small_uint (\<lambda>v. ret_rd (q\<lparr>mc_pin_uv := (mc_pin_uv q)\<lparr>pu_protocol := v\<rparr>\<rparr>))
     else if key = 10 then err_rd CTAP1_ERR_INVALID_PARAMETER
     else bind_rd rd_skip (\<lambda>_. ret_rd q))"

definition ctap2_parse_make_cred :: "bytes \<Rightarrow> nat + ctap2_mc_req" where
  "ctap2_parse_make_cred req =
     (case bind_rd rd_map (\<lambda>n. rd_loop n mc_param mc_start) (cbor_reader_init req) of
        (Inl e, r) \<Rightarrow> Inl e
      | (Inr q, r) \<Rightarrow>
          if \<not> mc_got_hash q \<or> \<not> mc_got_rp q \<or> \<not> mc_got_user q \<or> \<not> mc_got_params q then
            Inl CTAP2_ERR_MISSING_PARAMETER
          else if mc_alg q = 0 then Inl CTAP2_ERR_UNSUPPORTED_ALGORITHM
          else Inr q)"

record ctap2_ga_req =
  ga_rp_id :: bytes
  ga_client_hash :: bytes
  ga_allow :: "bytes option"
  ga_opt :: ctap2_options
  ga_pin_uv :: ctap2_pin_uv
  ga_got_rp :: bool
  ga_got_hash :: bool

definition ga_start :: ctap2_ga_req where
  "ga_start = \<lparr>ga_rp_id = [], ga_client_hash = replicate 32 0, ga_allow = None, ga_opt = no_options,
     ga_pin_uv = no_pin_uv, ga_got_rp = False, ga_got_hash = False\<rparr>"

definition ga_param :: "ctap2_ga_req \<Rightarrow> ctap2_ga_req rd" where
  "ga_param q = bind_rd rd_param_key (\<lambda>key.
     if key = 1 then bind_rd rd_text (\<lambda>v. ret_rd (q\<lparr>ga_rp_id := v, ga_got_rp := True\<rparr>))
     else if key = 2 then bind_rd rd_client_hash (\<lambda>h. ret_rd (q\<lparr>ga_client_hash := h, ga_got_hash := True\<rparr>))
     else if key = 3 then bind_rd rd_cred_list (\<lambda>l. ret_rd (q\<lparr>ga_allow := Some l\<rparr>))
     else if key = 5 then bind_rd (rd_options (ga_opt q)) (\<lambda>opt. ret_rd (q\<lparr>ga_opt := opt\<rparr>))
     else if key = 6 then bind_rd (rd_pin_uv_param (ga_pin_uv q)) (\<lambda>pu. ret_rd (q\<lparr>ga_pin_uv := pu\<rparr>))
     else if key = 7 then
       bind_rd rd_small_uint (\<lambda>v. ret_rd (q\<lparr>ga_pin_uv := (ga_pin_uv q)\<lparr>pu_protocol := v\<rparr>\<rparr>))
     else bind_rd rd_skip (\<lambda>_. ret_rd q))"

definition ctap2_parse_get_assertion :: "bytes \<Rightarrow> nat + ctap2_ga_req" where
  "ctap2_parse_get_assertion req =
     (case bind_rd rd_map (\<lambda>n. rd_loop n ga_param ga_start) (cbor_reader_init req) of
        (Inl e, r) \<Rightarrow> Inl e
      | (Inr q, r) \<Rightarrow>
          if \<not> ga_got_rp q \<or> \<not> ga_got_hash q then Inl CTAP2_ERR_MISSING_PARAMETER else Inr q)"

section \<open>Walking a list\<close>

record ctap2_cred_iter =
  it_r :: cbor_reader
  it_left :: nat

definition ctap2_cred_iter_init :: "bytes option \<Rightarrow> ctap2_cred_iter" where
  "ctap2_cred_iter_init l =
     (let r = cbor_reader_init (case l of None \<Rightarrow> [] | Some bs \<Rightarrow> bs)
      in if l = None then \<lparr>it_r = r, it_left = 0\<rparr>
         else case cbor_reader_read_array_header r of
           (None, r1) \<Rightarrow> \<lparr>it_r = r1, it_left = 0\<rparr>
         | (Some n, r1) \<Rightarrow> \<lparr>it_r = r1, it_left = n\<rparr>)"

function ctap2_cred_iter_next :: "ctap2_cred_iter \<Rightarrow> bytes option \<times> ctap2_cred_iter" where
  "ctap2_cred_iter_next it =
     (if it_left it = 0 then (None, it)
      else case rd_descriptor (it_r it) of
        (Inl e, r) \<Rightarrow> (None, \<lparr>it_r = r, it_left = 0\<rparr>)
      | (Inr (i, pk), r) \<Rightarrow>
          let it1 = \<lparr>it_r = r, it_left = it_left it - 1\<rparr>
          in if pk then (Some i, it1) else ctap2_cred_iter_next it1)"
  by pat_completeness auto
termination
  by (relation "measure it_left") auto

declare ctap2_cred_iter_next.simps [simp del]

section \<open>Readers are local\<close>

text \<open>
  \<open>reads m h x\<close>: at a reader in front of the bytes \<open>h\<close>, \<open>m\<close> returns \<open>x\<close> and moves behind
  them, whatever follows.  \<open>local_rd m\<close>: whenever \<open>m\<close> succeeds, that is what it did.
\<close>

definition reads :: "'a rd \<Rightarrow> bytes \<Rightarrow> 'a \<Rightarrow> bool" where
  "reads m h x \<longleftrightarrow> (\<forall>r rest. \<not> r_err r \<longrightarrow> drop (r_pos r) (r_buf r) = h @ rest \<longrightarrow>
     m r = (Inr x, advance (length h) r))"

definition local_rd :: "'a rd \<Rightarrow> bool" where
  "local_rd m \<longleftrightarrow> (\<forall>r x r1. \<not> r_err r \<longrightarrow> m r = (Inr x, r1) \<longrightarrow>
     (\<exists>h rest. drop (r_pos r) (r_buf r) = h @ rest \<and> r1 = advance (length h) r \<and> reads m h x))"

named_theorems local_rules

lemma localE:
  assumes "local_rd m" and "\<not> r_err r" and "m r = (Inr x, r1)"
  obtains h rest where "drop (r_pos r) (r_buf r) = h @ rest" "r1 = advance (length h) r" "reads m h x"
  using assms unfolding local_rd_def by blast

lemma localI:
  assumes "\<And>r x r1. \<not> r_err r \<Longrightarrow> m r = (Inr x, r1) \<Longrightarrow>
    \<exists>h rest. drop (r_pos r) (r_buf r) = h @ rest \<and> r1 = advance (length h) r \<and> reads m h x"
  shows "local_rd m"
  using assms unfolding local_rd_def by blast

lemma readsD: "reads m h x \<Longrightarrow> \<not> r_err r \<Longrightarrow> drop (r_pos r) (r_buf r) = h @ rest \<Longrightarrow>
    m r = (Inr x, advance (length h) r)"
  by (simp add: reads_def)

lemma reads_ret: "reads (ret_rd x) [] x"
  by (simp add: reads_def ret_rd_def)

lemma local_ret [local_rules]: "local_rd (ret_rd x)"
proof (rule localI)
  fix r :: cbor_reader and y r1 assume "ret_rd x r = (Inr y, r1)"
  then show "\<exists>h rest. drop (r_pos r) (r_buf r) = h @ rest \<and> r1 = advance (length h) r \<and> reads (ret_rd x) h y"
    by (intro exI [of _ "[]"] exI [of _ "drop (r_pos r) (r_buf r)"]) (auto simp: ret_rd_def reads_ret)
qed

lemma local_err [local_rules]: "local_rd (err_rd e)"
  by (rule localI) (simp add: err_rd_def)

lemma reads_bind:
  assumes "reads m h x" and "reads (f x) h' y"
  shows "reads (bind_rd m f) (h @ h') y"
  unfolding reads_def
proof (intro allI impI)
  fix r :: cbor_reader and rest assume e: "\<not> r_err r" and d: "drop (r_pos r) (r_buf r) = (h @ h') @ rest"
  have "m r = (Inr x, advance (length h) r)" by (rule readsD [OF assms(1) e, of "h' @ rest"]) (use d in simp)
  moreover have "f x (advance (length h) r) = (Inr y, advance (length h') (advance (length h) r))"
    by (rule readsD [OF assms(2), of _ rest]) (use e drop_advance [of "r_pos r" "r_buf r" h "h' @ rest"] d in simp_all)
  ultimately show "bind_rd m f r = (Inr y, advance (length (h @ h')) r)"
    by (simp add: bind_rd_def add.assoc)
qed

lemma local_bind [local_rules]:
  assumes "local_rd m" and "\<And>x. local_rd (f x)"
  shows "local_rd (bind_rd m f)"
proof (rule localI)
  fix r :: cbor_reader and y r2 assume e: "\<not> r_err r" and b: "bind_rd m f r = (Inr y, r2)"
  obtain x r1 where m: "m r = (Inr x, r1)" and f: "f x r1 = (Inr y, r2)"
    using b by (auto simp: bind_rd_def split: prod.splits sum.splits)
  obtain h rest where h: "drop (r_pos r) (r_buf r) = h @ rest" "r1 = advance (length h) r" "reads m h x"
    by (rule localE [OF assms(1) e m])
  have e1: "\<not> r_err r1" using e h(2) by simp
  obtain h' rest' where h': "drop (r_pos r1) (r_buf r1) = h' @ rest'" "r2 = advance (length h') r1" "reads (f x) h' y"
    by (rule localE [OF assms(2) e1 f])
  have "rest = h' @ rest'" using h'(1) drop_advance [OF h(1)] h(2) by simp
  then show "\<exists>h rest. drop (r_pos r) (r_buf r) = h @ rest \<and> r2 = advance (length h) r \<and> reads (bind_rd m f) h y"
    using h h' reads_bind [where m = m and f = f, OF h(3) h'(3)]
    by (intro exI [of _ "h @ h'"] exI [of _ rest']) (simp add: add.assoc)
qed

lemma local_loop [local_rules]: "(\<And>s. local_rd (f s)) \<Longrightarrow> local_rd (rd_loop n f s)"
  by (induction n arbitrary: s) (simp_all add: local_ret local_bind)

lemma local_if [local_rules]: "local_rd a \<Longrightarrow> local_rd b \<Longrightarrow> local_rd (if c then a else b)"
  by simp

definition moves :: "'a rd \<Rightarrow> bool" where
  "moves m \<longleftrightarrow> (\<forall>r x r1. \<not> r_err r \<longrightarrow> m r = (Inr x, r1) \<longrightarrow> r_pos r < r_pos r1)"

lemma moves_bind:
  assumes "moves m" and "local_rd m" and "\<And>x. local_rd (f x)"
  shows "moves (bind_rd m f)"
  unfolding moves_def
proof (intro allI impI)
  fix r :: cbor_reader and y r2 assume e: "\<not> r_err r" and b: "bind_rd m f r = (Inr y, r2)"
  obtain x r1 where m: "m r = (Inr x, r1)" and f: "f x r1 = (Inr y, r2)"
    using b by (auto simp: bind_rd_def split: prod.splits sum.splits)
  have p: "r_pos r < r_pos r1" using assms(1) e m unfolding moves_def by blast
  have "\<not> r_err r1" by (rule localE [OF assms(2) e m]) (use e in simp)
  then have "r_pos r1 \<le> r_pos r2" by (rule localE [OF assms(3) _ f]) simp
  with p show "r_pos r < r_pos r2" by simp
qed

text \<open>A look at the next byte before a reader that consumes it keeps it local.\<close>

lemma local_peek:
  assumes "local_rd m" and "moves m"
  shows "local_rd (\<lambda>r. if Q (cbor_reader_peek_major r) then m r else (Inl e, r))"
proof (rule localI)
  fix r :: cbor_reader and x r1
  assume err: "\<not> r_err r" and ok: "(if Q (cbor_reader_peek_major r) then m r else (Inl e, r)) = (Inr x, r1)"
  then have q: "Q (cbor_reader_peek_major r)" and m: "m r = (Inr x, r1)" by (simp_all split: if_splits)
  obtain h rest where h: "drop (r_pos r) (r_buf r) = h @ rest" "r1 = advance (length h) r" "reads m h x"
    by (rule localE [OF assms(1) err m])
  have "r_pos r < r_pos r1" using assms(2) err m unfolding moves_def by blast
  then obtain b bs where hb: "h = b # bs" using h(2) by (cases h) auto
  have pk: "cbor_reader_peek_major r' = Some (unat (drop_bit 5 b AND 7))"
    if d: "drop (r_pos r') (r_buf r') = h @ rest'" for r' :: cbor_reader and rest'
  proof -
    have "r_pos r' < length (r_buf r')" using d hb by (metis append_Cons drop_all list.discI not_le)
    moreover from this have "r_buf r' ! r_pos r' = b" using d hb by (metis append_Cons hd_drop_conv_nth list.sel(1))
    ultimately show ?thesis by (simp add: cbor_reader_peek_major_def)
  qed
  have "reads (\<lambda>r. if Q (cbor_reader_peek_major r) then m r else (Inl e, r)) h x"
    unfolding reads_def using readsD [OF h(3)] pk q pk [OF h(1)] by auto
  then show "\<exists>h rest. drop (r_pos r) (r_buf r) = h @ rest \<and> r1 = advance (length h) r \<and>
      reads (\<lambda>r. if Q (cbor_reader_peek_major r) then m r else (Inl e, r)) h x"
    using h by blast
qed

lemma want_eq: "bind_rd (want mt) (\<lambda>_. m)
    = (\<lambda>r. if cbor_reader_peek_major r = Some mt then m r else (Inl CTAP2_ERR_CBOR_UNEXPECTED_TYPE, r))"
  by (rule ext) (simp add: bind_rd_def want_def)

lemma local_want: "local_rd m \<Longrightarrow> moves m \<Longrightarrow> local_rd (bind_rd (want mt) (\<lambda>_. m))"
  unfolding want_eq by (rule local_peek)

definition fail_rd :: "'a rd" where
  "fail_rd r = (Inl CTAP2_ERR_INVALID_CBOR, r\<lparr>r_err := True\<rparr>)"

definition take_rd :: "nat \<Rightarrow> bytes rd" where
  "take_rd n r = (if n > length (r_buf r) - r_pos r then fail_rd r
     else (Inr (take n (drop (r_pos r) (r_buf r))), advance n r))"

definition head_rd :: "(nat \<times> u64) rd" where
  "head_rd = cbor_rd cbor_reader_read_head"

lemma local_fail [local_rules]: "local_rd fail_rd"
  by (rule localI) (simp add: fail_rd_def)

lemma local_take [local_rules]: "local_rd (take_rd n)"
proof (rule localI)
  fix r :: cbor_reader and x r1 assume "\<not> r_err r" "take_rd n r = (Inr x, r1)"
  then have n: "n \<le> length (r_buf r) - r_pos r" and x: "x = take n (drop (r_pos r) (r_buf r))" "r1 = advance n r"
    by (auto simp: take_rd_def fail_rd_def split: if_splits)
  have "length x = n" using n x by simp
  then have "reads (take_rd n) x x"
    unfolding reads_def take_rd_def using remaining by fastforce
  then show "\<exists>h rest. drop (r_pos r) (r_buf r) = h @ rest \<and> r1 = advance (length h) r \<and> reads (take_rd n) h x"
    using x \<open>length x = n\<close>
    by (intro exI [of _ x] exI [of _ "drop n (drop (r_pos r) (r_buf r))"]) (simp del: drop_drop)
qed

lemma reads_head: "decode_head h = Some (mt, v, length h) \<Longrightarrow> reads head_rd h (mt, v)"
  by (simp add: reads_def head_rd_def cbor_rd_def read_head_at)

lemma local_head [local_rules]: "local_rd head_rd" and moves_head: "moves head_rd"
proof -
  have e: "\<exists>h rest. drop (r_pos r) (r_buf r) = h @ rest \<and> r1 = advance (length h) r \<and> reads head_rd h x \<and> 0 < length h"
    if nerr: "\<not> r_err r" and hd: "head_rd r = (Inr x, r1)" for r :: cbor_reader and x r1
  proof -
    obtain mt v where x: "x = (mt, v)" by fastforce
    have rh: "cbor_reader_read_head r = (Some (mt, v), r1)"
      using hd x by (auto simp: head_rd_def cbor_rd_def split: prod.splits option.splits)
    obtain h rest where h: "drop (r_pos r) (r_buf r) = h @ rest" "decode_head h = Some (mt, v, length h)"
      "r1 = advance (length h) r" by (rule read_headD [OF nerr rh])
    then show ?thesis using reads_head [OF h(2)] decode_head_length [OF h(2)] x by blast
  qed
  then show "local_rd head_rd" by (intro localI) blast
  show "moves head_rd" unfolding moves_def using e by fastforce
qed

lemma cbor_rd_eqs:
  "cbor_rd cbor_reader_read_uint = bind_rd head_rd (\<lambda>(mt, v). if mt \<noteq> CBOR_MT_UINT then fail_rd else ret_rd v)"
  "cbor_rd cbor_reader_read_array_header
     = bind_rd head_rd (\<lambda>(mt, v). if mt \<noteq> CBOR_MT_ARRAY then fail_rd else ret_rd (unat v))"
  "cbor_rd cbor_reader_read_map_header
     = bind_rd head_rd (\<lambda>(mt, v). if mt \<noteq> CBOR_MT_MAP then fail_rd else ret_rd (unat v))"
  "cbor_rd (read_byte_run w) = bind_rd head_rd (\<lambda>(mt, v). if mt \<noteq> w then fail_rd else take_rd (unat v))"
  by (rule ext, simp add: cbor_rd_def bind_rd_def head_rd_def fail_rd_def ret_rd_def take_rd_def
      cbor_reader_read_uint_def cbor_reader_read_array_header_def cbor_reader_read_map_header_def
      read_byte_run_def split: prod.splits option.splits)+

lemma local_split [local_rules]: "(\<And>a b. local_rd (f a b)) \<Longrightarrow> local_rd (case x of (a, b) \<Rightarrow> f a b)"
  by (cases x) simp

lemma moves_split: "(\<And>a b. moves (f a b)) \<Longrightarrow> moves (case x of (a, b) \<Rightarrow> f a b)"
  by (cases x) simp

lemma typed_local:
  "local_rd (cbor_rd cbor_reader_read_uint) \<and> moves (cbor_rd cbor_reader_read_uint)"
  "local_rd (cbor_rd cbor_reader_read_array_header) \<and> moves (cbor_rd cbor_reader_read_array_header)"
  "local_rd (cbor_rd cbor_reader_read_map_header) \<and> moves (cbor_rd cbor_reader_read_map_header)"
  "local_rd (cbor_rd (read_byte_run w)) \<and> moves (cbor_rd (read_byte_run w))"
  unfolding cbor_rd_eqs by (intro conjI local_rules moves_bind moves_head)+

definition skip_rd :: "nat \<Rightarrow> unit rd" where
  "skip_rd k = cbor_rd (\<lambda>r. case skip_item k r of (ok, r1) \<Rightarrow> (if ok then Some () else None, r1))"

definition skips_rd :: "nat \<Rightarrow> nat \<Rightarrow> unit rd" where
  "skips_rd n k = cbor_rd (\<lambda>r. case skip_items n k r of (ok, r1) \<Rightarrow> (if ok then Some () else None, r1))"

lemma skip_rd_eqs:
  "skip_rd 0 = fail_rd"
  "skip_rd (Suc k) = bind_rd head_rd (\<lambda>(mt, v).
     if mt = CBOR_MT_UINT \<or> mt = CBOR_MT_NEGINT then ret_rd ()
     else if mt = CBOR_MT_BYTE_STR \<or> mt = CBOR_MT_TEXT_STR then bind_rd (take_rd (unat v)) (\<lambda>_. ret_rd ())
     else if mt = CBOR_MT_ARRAY then skips_rd (unat v) k
     else if mt = CBOR_MT_MAP then skips_rd (2 * unat v) k
     else if mt = CBOR_MT_SIMPLE then ret_rd () else fail_rd)"
  "skips_rd 0 k = ret_rd ()"
  "skips_rd (Suc n) k = bind_rd (skip_rd k) (\<lambda>_. skips_rd n k)"
  by (rule ext, simp add: skip_rd_def skips_rd_def cbor_rd_def bind_rd_def head_rd_def fail_rd_def ret_rd_def
      take_rd_def skip_item.simps(2) split: prod.splits option.splits)+

lemma local_skips: "local_rd (skip_rd k) \<Longrightarrow> local_rd (skips_rd n k)"
  by (induction n) (simp_all add: skip_rd_eqs local_rules)

lemma local_skip_rd: "local_rd (skip_rd k)"
proof (induction k)
  case (Suc k)
  show ?case unfolding skip_rd_eqs(2)
    by (intro local_rules local_skips Suc)
qed (simp add: skip_rd_eqs local_rules)

lemma rd_skip_eq: "rd_skip = skip_rd 17"
  by (rule ext) (simp add: rd_skip_def skip_rd_def cbor_reader_skip_def CBOR_SKIP_MAX_DEPTH_def)

lemma moves_skip: "moves rd_skip"
proof -
  have "17 = Suc 16" by simp
  then show ?thesis unfolding rd_skip_eq
    by (simp only: skip_rd_eqs(2)) (intro moves_bind moves_head local_rules local_skips local_skip_rd)
qed

lemma local_typed [local_rules]:
  "local_rd rd_text" "local_rd rd_bytes" "local_rd rd_map" "local_rd rd_array" "local_rd rd_param_key"
  "local_rd rd_small_uint" "local_rd rd_bool" "local_rd rd_int" "local_rd rd_skip"
proof -
  note l = typed_local [THEN conjunct1] and m = typed_local [THEN conjunct2]
  show "local_rd rd_text" "local_rd rd_bytes" "local_rd rd_map" "local_rd rd_array" "local_rd rd_param_key"
    unfolding rd_text_def rd_bytes_def rd_map_def rd_array_def rd_param_key_def
      cbor_reader_read_text_def [abs_def] cbor_reader_read_bytes_def [abs_def]
    by (intro local_want l m)+
  show "local_rd rd_small_uint" unfolding rd_small_uint_def
    by (intro local_want moves_bind local_rules l m)
  show "local_rd rd_bool" unfolding rd_bool_def head_rd_def [symmetric]
    by (intro local_want moves_bind local_rules moves_head)
  let ?i = "bind_rd (cbor_rd cbor_reader_read_head) (\<lambda>(mt, v). ret_rd
      (if v > 0x7FFFFFFF then (if mt = CBOR_MT_UINT then 2147483647 else - 2147483648)
       else if mt = CBOR_MT_UINT then uint v else - 1 - uint v))"
  have eq: "rd_int = (\<lambda>r. if (\<lambda>p. p = Some CBOR_MT_UINT \<or> p = Some CBOR_MT_NEGINT) (cbor_reader_peek_major r)
      then ?i r else (Inl CTAP2_ERR_CBOR_UNEXPECTED_TYPE, r))"
    by (rule ext) (simp add: rd_int_def Let_def)
  have "local_rd ?i" and "moves ?i"
    unfolding head_rd_def [symmetric] by (intro local_rules moves_bind moves_head)+
  then show "local_rd rd_int" unfolding eq by (rule local_peek)
  show "local_rd rd_skip" unfolding rd_skip_eq by (rule local_skip_rd)
qed

lemma local_case_option [local_rules]:
  "local_rd a \<Longrightarrow> (\<And>x. local_rd (f x)) \<Longrightarrow> local_rd (case y of None \<Rightarrow> a | Some x \<Rightarrow> f x)"
  by (cases y) simp_all

lemma local_desc [local_rules]: "local_rd rd_descriptor"
  unfolding rd_descriptor_def rd_desc_member_def by (intro local_rules)

section \<open>The lists a request carries\<close>

text \<open>A parsed list, as the descriptors in it.\<close>

definition descs_rd :: "nat \<Rightarrow> (bytes \<times> bool) list rd" where
  "descs_rd n = rd_loop n (\<lambda>ds. bind_rd rd_descriptor (\<lambda>d. ret_rd (ds @ [d]))) []"

definition list_of :: "bytes \<Rightarrow> (bytes \<times> bool) list \<Rightarrow> bool" where
  "list_of l ds \<longleftrightarrow> (\<exists>h t. l = h @ t \<and> reads rd_array h (length ds) \<and>
     (\<exists>hs. t = concat hs \<and> list_all2 (\<lambda>h d. reads rd_descriptor h d) hs ds))"

lemma bindE:
  assumes "bind_rd m f r = (Inr y, r2)"
  obtains x r1 where "m r = (Inr x, r1)" "f x r1 = (Inr y, r2)"
  using assms by (auto simp: bind_rd_def split: prod.splits sum.splits)

lemma desc_loop:
  "rd_loop n (\<lambda>_. bind_rd rd_descriptor (\<lambda>_. ret_rd ())) () r = (Inr u, r1) \<Longrightarrow> \<not> r_err r \<Longrightarrow>
     \<exists>hs ds rest. length ds = n \<and> drop (r_pos r) (r_buf r) = concat hs @ rest \<and>
       r1 = advance (length (concat hs)) r \<and> list_all2 (\<lambda>h d. reads rd_descriptor h d) hs ds"
proof (induction n arbitrary: r)
  case 0
  then show ?case
    by (intro exI [of _ "[]"] exI [of _ "drop (r_pos r) (r_buf r)"]) (simp add: ret_rd_def)
next
  case (Suc n)
  obtain d r0 where d: "rd_descriptor r = (Inr d, r0)"
      and rec: "rd_loop n (\<lambda>_. bind_rd rd_descriptor (\<lambda>_. ret_rd ())) () r0 = (Inr u, r1)"
    by (rule bindE [OF Suc.prems(1) [unfolded rd_loop.simps]], erule bindE) (simp add: ret_rd_def)
  obtain h rest where h: "drop (r_pos r) (r_buf r) = h @ rest" "r0 = advance (length h) r" "reads rd_descriptor h d"
    by (rule localE [OF local_desc Suc.prems(2) d])
  obtain hs ds rest' where i: "length ds = n" "drop (r_pos r0) (r_buf r0) = concat hs @ rest'"
      "r1 = advance (length (concat hs)) r0" "list_all2 (\<lambda>h d. reads rd_descriptor h d) hs ds"
    using Suc.IH [OF rec] Suc.prems(2) h(2) by auto
  have "rest = concat hs @ rest'" using i(2) drop_advance [OF h(1)] h(2) by simp
  then show ?case using h i
    by (intro exI [of _ "h # hs"] exI [of _ "d # ds"] exI [of _ rest']) (simp add: add.assoc)
qed

lemma cred_list_of:
  assumes "rd_cred_list r = (Inr l, r1)" and "\<not> r_err r"
  obtains ds where "list_of l ds"
proof -
  obtain n r0 u where a: "rd_array r = (Inr n, r0)"
      and lp: "rd_loop n (\<lambda>_. bind_rd rd_descriptor (\<lambda>_. ret_rd ())) () r0 = (Inr u, r1)"
      and l: "l = take (r_pos r1 - r_pos r) (drop (r_pos r) (r_buf r1))"
    using assms(1) by (auto simp: rd_cred_list_def bind_rd_def split: prod.splits sum.splits)
  obtain h rest where h: "drop (r_pos r) (r_buf r) = h @ rest" "r0 = advance (length h) r" "reads rd_array h n"
    by (rule localE [OF local_typed(4) assms(2) a])
  obtain hs ds rest' where i: "length ds = n" "drop (r_pos r0) (r_buf r0) = concat hs @ rest'"
      "r1 = advance (length (concat hs)) r0" "list_all2 (\<lambda>h d. reads rd_descriptor h d) hs ds"
    using desc_loop [OF lp] assms(2) h(2) by auto
  have "rest = concat hs @ rest'" using i(2) drop_advance [OF h(1)] h(2) by simp
  then have "l = h @ concat hs" using l h(1,2) i(3) by simp
  then show ?thesis using that h(3) i(1,4) unfolding list_of_def by blast
qed

fun iter_all :: "nat \<Rightarrow> ctap2_cred_iter \<Rightarrow> bytes list" where
  "iter_all 0 it = []"
| "iter_all (Suc n) it =
     (case ctap2_cred_iter_next it of (None, it1) \<Rightarrow> [] | (Some i, it1) \<Rightarrow> i # iter_all n it1)"

lemma iter_walk:
  assumes "list_all2 (\<lambda>h d. reads rd_descriptor h d) hs ds"
    and "drop (r_pos r) (r_buf r) = concat hs @ rest" and "\<not> r_err r" and "length ds \<le> m"
  shows "iter_all m \<lparr>it_r = r, it_left = length ds\<rparr> = map fst (filter snd ds)"
  using assms
proof (induction hs ds arbitrary: r m rule: list_all2_induct)
  case Nil
  then show ?case by (cases m) (simp_all add: ctap2_cred_iter_next.simps)
next
  case (Cons h hs d ds)
  obtain i pk where d: "d = (i, pk)" by fastforce
  obtain k where m: "m = Suc k" "length ds \<le> k" using Cons.prems(3) by (cases m) auto
  have rd: "rd_descriptor r = (Inr (i, pk), advance (length h) r)"
    by (rule readsD [OF Cons.hyps(1) [unfolded d] Cons.prems(2), of "concat hs @ rest"]) (use Cons.prems(1) in simp)
  have dr: "drop (r_pos (advance (length h) r)) (r_buf (advance (length h) r)) = concat hs @ rest"
    using drop_advance [of "r_pos r" "r_buf r" h "concat hs @ rest"] Cons.prems(1) by simp
  let ?it = "\<lparr>it_r = advance (length h) r, it_left = length ds\<rparr>"
  have step: "ctap2_cred_iter_next \<lparr>it_r = r, it_left = length (d # ds)\<rparr>
      = (if pk then (Some i, ?it) else ctap2_cred_iter_next ?it)"
    by (subst ctap2_cred_iter_next.simps) (simp add: rd)
  show ?case
  proof (cases pk)
    case True
    then show ?thesis using step m Cons.IH [OF dr _ m(2)] Cons.prems(2) d by simp
  next
    case False
    then have "iter_all m \<lparr>it_r = r, it_left = length (d # ds)\<rparr> = iter_all m ?it" using step m by simp
    then show ?thesis using Cons.IH [OF dr, of m] Cons.prems(2) m False d by simp
  qed
qed

text \<open>The iterator walks exactly what the parser accepted: for a list taken from anywhere in a
  request, repeated \<open>ctap2_cred_iter_next\<close> on its slice yields the ids of its public-key
  descriptors, all of them, in order, and never takes the path marked "cannot happen".
\<close>

theorem cred_iter_exact:
  assumes "rd_cred_list r = (Inr l, r1)" and "\<not> r_err r"
  shows "\<exists>ds. list_of l ds \<and> iter_all (length ds) (ctap2_cred_iter_init (Some l)) = map fst (filter snd ds)"
proof -
  obtain ds where l: "list_of l ds" by (rule cred_list_of [OF assms])
  then obtain h hs where h: "l = h @ concat hs" "reads rd_array h (length ds)"
      "list_all2 (\<lambda>h d. reads rd_descriptor h d) hs ds" by (auto simp: list_of_def)
  let ?r = "cbor_reader_init l"
  have "rd_array ?r = (Inr (length ds), advance (length h) ?r)"
    by (rule readsD [OF h(2), of _ "concat hs"]) (simp_all add: cbor_reader_init_def h(1))
  then have "cbor_reader_read_array_header ?r = (Some (length ds), advance (length h) ?r)"
    by (auto simp: rd_array_def want_eq cbor_rd_def split: if_splits prod.splits option.splits)
  then have "ctap2_cred_iter_init (Some l) = \<lparr>it_r = advance (length h) ?r, it_left = length ds\<rparr>"
    by (simp add: ctap2_cred_iter_init_def Let_def)
  moreover have "iter_all (length ds) \<lparr>it_r = advance (length h) ?r, it_left = length ds\<rparr> = map fst (filter snd ds)"
    by (rule iter_walk [OF h(3), of _ "[]"]) (simp_all add: cbor_reader_init_def h(1))
  ultimately show ?thesis using l by auto
qed

text \<open>A list of two descriptors, the first of an unknown type.\<close>

definition two_descriptors :: bytes where
  "two_descriptors = [0x82, 0xA2, 0x62] @ ascii ''id'' @ [0x41, 7, 0x64] @ ascii ''type'' @ [0x61, 0x78,
     0xA2, 0x62] @ ascii ''id'' @ [0x41, 9, 0x64] @ ascii ''type'' @ [0x6A] @ ascii ''public-key''"

lemma two_descriptors_read:
  "fst (rd_cred_list (cbor_reader_init two_descriptors)) = Inr two_descriptors"
  by code_simp

lemma two_descriptors_walk:
  "iter_all 2 (ctap2_cred_iter_init (Some two_descriptors)) = [[9]]"
  by code_simp

theorem cred_iter_exact_witness:
  "\<exists>ds. list_of two_descriptors ds \<and>
     iter_all (length ds) (ctap2_cred_iter_init (Some two_descriptors)) = map fst (filter snd ds)"
proof -
  obtain r1 where "rd_cred_list (cbor_reader_init two_descriptors) = (Inr two_descriptors, r1)"
    using two_descriptors_read by (cases "rd_cred_list (cbor_reader_init two_descriptors)") auto
  then show ?thesis by (rule cred_iter_exact) (simp add: cbor_reader_init_def)
qed

section \<open>What an accepted request satisfies\<close>

text \<open>\<open>gives m P\<close>: a successful \<open>m\<close> on a reader without error returns a value with \<open>P\<close>.\<close>

definition gives :: "'a rd \<Rightarrow> ('a \<Rightarrow> bool) \<Rightarrow> bool" where
  "gives m P \<longleftrightarrow> (\<forall>r x r1. \<not> r_err r \<longrightarrow> m r = (Inr x, r1) \<longrightarrow> P x \<and> \<not> r_err r1)"

lemma givesD: "gives m P \<Longrightarrow> \<not> r_err r \<Longrightarrow> m r = (Inr x, r1) \<Longrightarrow> P x \<and> \<not> r_err r1"
  unfolding gives_def by blast

lemma gives_local: "local_rd m \<Longrightarrow> gives m (\<lambda>_. True)"
  unfolding gives_def by (auto elim: localE)

lemma gives_ret: "P x \<Longrightarrow> gives (ret_rd x) P"
  by (simp add: gives_def ret_rd_def)

lemma gives_err: "gives (err_rd e) P"
  by (simp add: gives_def err_rd_def)

lemma gives_if: "(b \<Longrightarrow> gives m P) \<Longrightarrow> (\<not> b \<Longrightarrow> gives n P) \<Longrightarrow> gives (if b then m else n) P"
  by simp

lemma gives_bind:
  assumes "gives m Q" and "\<And>x. Q x \<Longrightarrow> gives (f x) P"
  shows "gives (bind_rd m f) P"
  unfolding gives_def by (blast elim: bindE dest: givesD [OF assms(1)] givesD [OF assms(2)])

lemma gives_loop: "(\<And>s. P s \<Longrightarrow> gives (f s) P) \<Longrightarrow> P s \<Longrightarrow> gives (rd_loop n f s) P"
  by (induction n arbitrary: s) (auto intro: gives_ret gives_bind)

lemmas gives_rules = gives_ret gives_err gives_if

lemma local_cred_list: "local_rd (bind_rd rd_array (\<lambda>n. rd_loop n (\<lambda>_. bind_rd rd_descriptor (\<lambda>_. ret_rd ())) ()))"
  by (intro local_rules)

lemma gives_cred_list: "gives rd_cred_list (\<lambda>l. \<exists>ds. list_of l ds)"
  unfolding gives_def
proof (intro allI impI conjI)
  fix r :: cbor_reader and l r1 assume e: "\<not> r_err r" and l: "rd_cred_list r = (Inr l, r1)"
  show "\<exists>ds. list_of l ds" using cred_list_of [OF l e] by blast
  obtain u where "bind_rd rd_array (\<lambda>n. rd_loop n (\<lambda>_. bind_rd rd_descriptor (\<lambda>_. ret_rd ())) ()) r = (Inr u, r1)"
    using l by (auto simp: rd_cred_list_def split: prod.splits sum.splits)
  then show "\<not> r_err r1" by (rule localE [OF local_cred_list e]) (use e in simp)
qed

lemmas gives_typed = local_typed [THEN gives_local]

lemma gives_by: "local_rd m \<Longrightarrow> (\<And>r x r1. m r = (Inr x, r1) \<Longrightarrow> P x) \<Longrightarrow> gives m P"
  unfolding gives_def by (blast dest: givesD [OF gives_local])

lemma gives_hash: "gives rd_client_hash (\<lambda>h. length h = 32)"
  unfolding rd_client_hash_def by (rule gives_bind [OF gives_typed(2)]) (simp_all add: gives_rules)

lemma gives_bool: "gives rd_bool (\<lambda>b. b = - 1 \<or> b = 0 \<or> b = 1)"
  by (rule gives_by [OF local_typed(7)])
    (auto simp: rd_bool_def ret_rd_def err_rd_def elim!: bindE split: if_splits)

lemma gives_small: "gives rd_small_uint (\<lambda>v. - 1 \<le> v \<and> v \<le> 0xFFFF)"
proof (rule gives_by [OF local_typed(6)])
  fix r :: cbor_reader and x r1 assume "rd_small_uint r = (Inr x, r1)"
  then obtain v :: u64 where x: "x = (if v > 0xFFFF then 0xFFFF else uint v)"
    by (auto simp: rd_small_uint_def ret_rd_def elim!: bindE)
  have "uint v \<le> 0xFFFF" if "\<not> v > 0xFFFF"
    using that by (simp add: word_less_def not_less)
  then show "- 1 \<le> x \<and> x \<le> 0xFFFF" unfolding x
    by (cases "v > 0xFFFF") (auto intro: order_trans [OF _ uint_ge_0])
qed

lemma gives_user: "gives rd_user (\<lambda>i. length i \<le> CTAP2_USER_ID_MAX)"
proof -
  have "local_rd rd_map" "local_rd (rd_loop m rd_user_member got)" for m got
    by (intro local_rules | simp only: rd_user_member_def)+
  then show ?thesis unfolding rd_user_def
    by (intro gives_bind [OF gives_local]) (auto intro: gives_rules split: option.split)
qed

definition alg_ok :: "int \<Rightarrow> bool" where
  "alg_ok a \<longleftrightarrow> a = 0 \<or> a = CTAP2_COSE_ALG_EDDSA \<or> a = CTAP2_COSE_ALG_ES256"

lemma gives_params: "gives rd_cred_params alg_ok"
proof -
  have "local_rd rd_map" "local_rd (rd_loop m rd_param_member got)" for m got
    by (intro local_rules | simp only: rd_param_member_def)+
  then have "gives (rd_cred_param a) alg_ok" if "alg_ok a" for a
    unfolding rd_cred_param_def using that
    by (intro gives_bind [OF gives_local]) (auto intro!: gives_ret gives_err simp: alg_ok_def split: option.split)
  then show ?thesis unfolding rd_cred_params_def
    by (intro gives_bind [OF gives_typed(4)] gives_loop) (simp add: alg_ok_def)+
qed

definition opt_ok :: "int \<Rightarrow> bool" where
  "opt_ok b \<longleftrightarrow> b = CTAP2_OPT_ABSENT \<or> b = 0 \<or> b = 1"

definition options_ok :: "ctap2_options \<Rightarrow> bool" where
  "options_ok opt \<longleftrightarrow> opt_ok (opt_rk opt) \<and> opt_ok (opt_up opt) \<and> opt_ok (opt_uv opt)"

lemma gives_options: "options_ok opt \<Longrightarrow> gives (rd_options opt) options_ok"
proof -
  have "gives (rd_option opt) options_ok" if "options_ok opt" for opt
    unfolding rd_option_def using that
    by (intro gives_bind [OF gives_typed(1)] gives_if gives_bind [OF gives_bool] gives_bind [OF gives_typed(9)])
      (auto intro!: gives_ret simp: options_ok_def opt_ok_def CTAP2_OPT_ABSENT_def)
  then show "options_ok opt \<Longrightarrow> gives (rd_options opt) options_ok" unfolding rd_options_def
    by (intro gives_bind [OF gives_typed(3)] gives_loop)
qed

definition pin_uv_ok :: "ctap2_pin_uv \<Rightarrow> bool" where
  "pin_uv_ok pu \<longleftrightarrow> - 1 \<le> pu_protocol pu \<and> pu_protocol pu \<le> 0xFFFF \<and> (\<not> pu_has_param pu \<longrightarrow> pu_param pu = [])"

definition list_ok :: "bytes option \<Rightarrow> bool" where
  "list_ok l \<longleftrightarrow> (case l of None \<Rightarrow> True | Some bs \<Rightarrow> \<exists>ds. list_of bs ds)"

definition mc_ok :: "ctap2_mc_req \<Rightarrow> bool" where
  "mc_ok q \<longleftrightarrow> length (mc_client_hash q) = 32 \<and> length (mc_user_id q) \<le> CTAP2_USER_ID_MAX
     \<and> alg_ok (mc_alg q) \<and> options_ok (mc_opt q) \<and> pin_uv_ok (mc_pin_uv q) \<and> list_ok (mc_exclude q)"

definition ga_ok :: "ctap2_ga_req \<Rightarrow> bool" where
  "ga_ok q \<longleftrightarrow> length (ga_client_hash q) = 32 \<and> options_ok (ga_opt q) \<and> pin_uv_ok (ga_pin_uv q)
     \<and> list_ok (ga_allow q)"

lemma pin_uv_param_ok: "pin_uv_ok pu \<Longrightarrow> gives (rd_pin_uv_param pu) pin_uv_ok"
  unfolding rd_pin_uv_param_def
  by (intro gives_bind [OF gives_typed(2)] gives_ret) (simp add: pin_uv_ok_def)

lemma gives_exts: "gives (rd_extensions w) (\<lambda>_. True)"
  unfolding rd_extensions_def rd_extension_def by (intro gives_local local_rules)

lemma local_rp: "local_rd rd_rp"
  unfolding rd_rp_def rd_rp_member_def by (intro local_rules)

lemma start_ok: "mc_ok mc_start" "ga_ok ga_start"
  by (simp_all add: mc_ok_def mc_start_def ga_ok_def ga_start_def alg_ok_def options_ok_def opt_ok_def
      no_options_def pin_uv_ok_def no_pin_uv_def list_ok_def CTAP2_USER_ID_MAX_def CTAP2_OPT_ABSENT_def)

lemma mc_param_ok: "mc_ok q \<Longrightarrow> gives (mc_param q) mc_ok"
  unfolding mc_param_def
  by (intro gives_bind [OF gives_typed(5)] gives_if gives_err
      gives_bind [OF gives_hash] gives_bind [OF gives_local [OF local_rp]] gives_bind [OF gives_user]
      gives_bind [OF gives_params] gives_bind [OF gives_cred_list] gives_bind [OF gives_exts]
      gives_bind [OF gives_options] gives_bind [OF pin_uv_param_ok] gives_bind [OF gives_small]
      gives_bind [OF gives_typed(9)] gives_ret)
    (simp_all add: mc_ok_def list_ok_def pin_uv_ok_def)

lemma ga_param_ok: "ga_ok q \<Longrightarrow> gives (ga_param q) ga_ok"
  unfolding ga_param_def
  by (intro gives_bind [OF gives_typed(5)] gives_if
      gives_bind [OF gives_hash] gives_bind [OF gives_typed(1)] gives_bind [OF gives_cred_list]
      gives_bind [OF gives_options] gives_bind [OF pin_uv_param_ok] gives_bind [OF gives_small]
      gives_bind [OF gives_typed(9)] gives_ret)
    (simp_all add: ga_ok_def list_ok_def pin_uv_ok_def)

text \<open>C39.
  Whatever \<open>ctap2_parse_make_cred\<close> and \<open>ctap2_parse_get_assertion\<close> accept, the handlers can use
  without checking again: the mandatory members were all read, the client data hash has 32
  bytes, the user id at most 64, the chosen algorithm is one the firmware implements, every
  option is absent, false or true, the protocol number fits an unsigned 16-bit value, a
  missing pinUvAuthParam is empty, and a present credential list is an array of well-formed
  descriptors.
\<close>

theorem parsed_request_ok:
  "(ctap2_parse_make_cred req = Inr q \<longrightarrow>
      mc_ok q \<and> mc_alg q \<noteq> 0 \<and> mc_got_hash q \<and> mc_got_rp q \<and> mc_got_user q \<and> mc_got_params q)
   \<and> (ctap2_parse_get_assertion req = Inr g \<longrightarrow> ga_ok g \<and> ga_got_rp g \<and> ga_got_hash g)"
proof -
  have m: "gives (bind_rd rd_map (\<lambda>n. rd_loop n mc_param mc_start)) mc_ok"
    and g: "gives (bind_rd rd_map (\<lambda>n. rd_loop n ga_param ga_start)) ga_ok"
    by (intro gives_bind [OF gives_typed(3)] gives_loop mc_param_ok ga_param_ok start_ok; assumption)+
  have e: "\<not> r_err (cbor_reader_init req)" by (simp add: cbor_reader_init_def)
  show ?thesis
    by (intro conjI impI; simp add: ctap2_parse_make_cred_def ctap2_parse_get_assertion_def
        split: prod.splits sum.splits if_splits)
      (use givesD [OF m e] givesD [OF g e] in blast)+
qed

text \<open>A MakeCredential and a GetAssertion request.\<close>

definition mc_request :: bytes where
  "mc_request = [0xA4, 1, 0x58, 32] @ replicate 32 5 @ [2, 0xA1, 0x62] @ ascii ''id'' @ [0x61, 0x72]
     @ [3, 0xA1, 0x62] @ ascii ''id'' @ [0x42, 1, 2] @ [4, 0x81, 0xA2, 0x63] @ ascii ''alg'' @ [0x26, 0x64]
     @ ascii ''type'' @ [0x6A] @ ascii ''public-key''"

definition ga_request :: bytes where
  "ga_request = [0xA2, 1, 0x61, 0x72, 2, 0x58, 32] @ replicate 32 5"

lemma requests_parse:
  "ctap2_parse_make_cred mc_request = Inr (mc_start\<lparr>mc_client_hash := replicate 32 5, mc_rp_id := [0x72],
     mc_user_id := [1, 2], mc_alg := - 7, mc_got_hash := True, mc_got_rp := True, mc_got_user := True,
     mc_got_params := True\<rparr>)"
  "ctap2_parse_get_assertion ga_request = Inr (ga_start\<lparr>ga_rp_id := [0x72], ga_client_hash := replicate 32 5,
     ga_got_rp := True, ga_got_hash := True\<rparr>)"
  by code_simp+

theorem parsed_request_ok_witness:
  "mc_ok (mc_start\<lparr>mc_client_hash := replicate 32 5, mc_rp_id := [0x72],
     mc_user_id := [1, 2], mc_alg := - 7, mc_got_hash := True, mc_got_rp := True, mc_got_user := True,
     mc_got_params := True\<rparr>)
   \<and> ga_ok (ga_start\<lparr>ga_rp_id := [0x72], ga_client_hash := replicate 32 5,
     ga_got_rp := True, ga_got_hash := True\<rparr>)"
  using parsed_request_ok [THEN conjunct1, rule_format, OF requests_parse(1)]
    parsed_request_ok [THEN conjunct2, rule_format, OF requests_parse(2)] by blast

end
