(* ===== verification/Cose.thy ===== *)
theory Cose
  imports Cbor
begin

text \<open>
  COSE public keys and DER signatures, \<^verbatim>\<open>firmware/src/fido_hid/cose.c\<close>.  The first section
  gives the writer calls of the CBOR module their exact effect (\<open>emits\<close>), so that a sequence
  of them can be read as the bytes it appends.
\<close>

section \<open>Sequences of writer calls\<close>

text \<open>Calls whose results are dropped: the error of the writer is sticky.\<close>

definition cbor_seq :: "(cbor_writer \<Rightarrow> bool \<times> cbor_writer) list \<Rightarrow> cbor_writer \<Rightarrow> cbor_writer" where
  "cbor_seq fs w = fold (\<lambda>f w. snd (f w)) fs w"

definition emits :: "(cbor_writer \<Rightarrow> bool \<times> cbor_writer) \<Rightarrow> bytes \<Rightarrow> bool" where
  "emits f bs \<longleftrightarrow> (\<forall>w. writable w \<longrightarrow>
     (if \<not> w_err w \<and> length (w_out w) + length bs \<le> w_cap w
      then f w = (True, w\<lparr>w_out := w_out w @ bs\<rparr>)
      else \<exists>w'. f w = (False, w') \<and> w_err w' \<and> writable w' \<and> w_cap w' = w_cap w))"

lemma emitsD:
  assumes "emits f bs" and "writable w"
  shows "\<not> w_err w \<Longrightarrow> length (w_out w) + length bs \<le> w_cap w \<Longrightarrow> f w = (True, w\<lparr>w_out := w_out w @ bs\<rparr>)"
    and "\<not> (\<not> w_err w \<and> length (w_out w) + length bs \<le> w_cap w) \<Longrightarrow>
      \<exists>w'. f w = (False, w') \<and> w_err w' \<and> writable w' \<and> w_cap w' = w_cap w"
  using assms unfolding emits_def by (auto split: if_split_asm)

lemma emits_put_byte: "emits (\<lambda>w. put_byte w b) [b]"
  by (auto simp: emits_def put_byte_def)

lemma emits_put_bytes: "emits (\<lambda>w. put_bytes w bs) bs"
  by (auto simp: emits_def put_bytes_def)

lemma emits_then:
  assumes "emits f a" and "emits g b"
  shows "emits (\<lambda>w. case f w of (ok, w1) \<Rightarrow> if \<not> ok then (False, w1) else g w1) (a @ b)"
  unfolding emits_def
proof (intro allI impI)
  fix w :: cbor_writer assume w: "writable w"
  consider "\<not> (\<not> w_err w \<and> length (w_out w) + length a \<le> w_cap w)"
    | "\<not> w_err w" "length (w_out w) + length a \<le> w_cap w" by blast
  then show "if \<not> w_err w \<and> length (w_out w) + length (a @ b) \<le> w_cap w
      then (case f w of (ok, w1) \<Rightarrow> if \<not> ok then (False, w1) else g w1) = (True, w\<lparr>w_out := w_out w @ a @ b\<rparr>)
      else \<exists>w'. (case f w of (ok, w1) \<Rightarrow> if \<not> ok then (False, w1) else g w1) = (False, w') \<and>
        w_err w' \<and> writable w' \<and> w_cap w' = w_cap w"
  proof cases
    case 1
    then show ?thesis using emitsD(2) [OF assms(1) w 1] by auto
  next
    case 2
    let ?w = "w\<lparr>w_out := w_out w @ a\<rparr>"
    have f: "f w = (True, ?w)" and wr: "writable ?w" using emitsD(1) [OF assms(1) w 2] 2 by simp_all
    show ?thesis
    proof (cases "length (w_out w) + length (a @ b) \<le> w_cap w")
      case True
      then show ?thesis using emitsD(1) [OF assms(2) wr] f 2 by simp
    next
      case False
      then have "\<exists>w'. g ?w = (False, w') \<and> w_err w' \<and> writable w' \<and> w_cap w' = w_cap ?w"
        by (intro emitsD(2) [OF assms(2) wr]) simp
      then show ?thesis using f False by simp
    qed
  qed
qed

lemma emits_head: "emits (\<lambda>w. put_head w mt v) (head_bytes mt v)"
proof -
  have byte: "emits (\<lambda>w. case put_byte w b of (ok, w1) \<Rightarrow> if \<not> ok then (False, w1) else put_byte w1 (ucast x))
      (b # be_bytes 1 x)" for b :: u8 and x :: u64
    using emits_then [OF emits_put_byte [of b] emits_put_byte [of "ucast x"]] by (simp add: be_bytes_def)
  have run: "emits (\<lambda>w. case put_byte w b of (ok, w1) \<Rightarrow> if \<not> ok then (False, w1) else put_bytes w1 bs) (b # bs)"
    for b :: u8 and bs
    using emits_then [OF emits_put_byte [of b] emits_put_bytes [of bs]] by simp
  consider "v < 24" | "\<not> v < 24" "v \<le> 0xFF" | "\<not> v < 24" "\<not> v \<le> 0xFF" "v \<le> 0xFFFF"
    | "\<not> v < 24" "\<not> v \<le> 0xFF" "\<not> v \<le> 0xFFFF" "v \<le> 0xFFFFFFFF"
    | "\<not> v < 24" "\<not> v \<le> 0xFF" "\<not> v \<le> 0xFFFF" "\<not> v \<le> 0xFFFFFFFF" by blast
  then show ?thesis
    using byte [where b = "mt_bits mt OR 24" and x = v]
    by cases (simp_all add: put_head_def head_bytes_def Let_def emits_put_byte run)
qed

lemma emits_uint: "emits (\<lambda>w. cbor_write_uint w v) (head_bytes CBOR_MT_UINT v)"
  unfolding cbor_write_uint_def by (rule emits_head)

lemma emits_negint: "v < 0 \<Longrightarrow> emits (\<lambda>w. cbor_write_negint w v) (head_bytes CBOR_MT_NEGINT (of_int (- (v + 1))))"
  unfolding cbor_write_negint_def using emits_head by simp

lemma emits_byte_string:
  "emits (\<lambda>w. cbor_write_byte_string w bs) (head_bytes CBOR_MT_BYTE_STR (of_nat (length bs)) @ bs)"
  unfolding cbor_write_byte_string_def by (rule emits_then [OF emits_head emits_put_bytes])

lemma emits_text: "emits (\<lambda>w. cbor_write_text w bs) (head_bytes CBOR_MT_TEXT_STR (of_nat (length bs)) @ bs)"
  unfolding cbor_write_text_def by (rule emits_then [OF emits_head emits_put_bytes])

lemma emits_array: "emits (\<lambda>w. cbor_write_array_header w n) (head_bytes CBOR_MT_ARRAY (of_nat n))"
  unfolding cbor_write_array_header_def by (rule emits_head)

lemma emits_map: "emits (\<lambda>w. cbor_write_map_header w n) (head_bytes CBOR_MT_MAP (of_nat n))"
  unfolding cbor_write_map_header_def by (rule emits_head)

lemma emits_bool: "emits (\<lambda>w. cbor_write_bool w v)
    [mt_bits CBOR_MT_SIMPLE OR (if v then CBOR_SIMPLE_TRUE else CBOR_SIMPLE_FALSE)]"
  unfolding cbor_write_bool_def by (rule emits_put_byte)

lemmas emits_writers = emits_uint emits_negint emits_byte_string emits_text emits_array emits_map emits_bool

text \<open>The whole sequence: it fails exactly when its bytes do not fit.\<close>

lemma emits_seq:
  assumes "list_all2 emits fs bss" and "writable w"
  shows "if \<not> w_err w \<and> length (w_out w) + length (concat bss) \<le> w_cap w
      then cbor_seq fs w = w\<lparr>w_out := w_out w @ concat bss\<rparr>
      else w_err (cbor_seq fs w) \<and> writable (cbor_seq fs w)"
  using assms
proof (induction fs bss arbitrary: w rule: list_all2_induct)
  case Nil
  then show ?case by (simp add: cbor_seq_def)
next
  case (Cons f fs bs bss)
  have step: "cbor_seq (f # fs) w = cbor_seq fs (snd (f w))" by (simp add: cbor_seq_def)
  show ?case
  proof (cases "\<not> w_err w \<and> length (w_out w) + length bs \<le> w_cap w")
    case True
    then have f: "f w = (True, w\<lparr>w_out := w_out w @ bs\<rparr>)" using emitsD(1) [OF Cons.hyps(1) Cons.prems] by blast
    show ?thesis unfolding step f using Cons.IH [of "w\<lparr>w_out := w_out w @ bs\<rparr>"] True
      by (simp add: add.assoc split: if_split_asm)
  next
    case False
    then obtain w' where f: "f w = (False, w')" "w_err w'" "writable w'"
      using emitsD(2) [OF Cons.hyps(1) Cons.prems False] by blast
    then show ?thesis unfolding step using Cons.IH [of w'] False by auto
  qed
qed

section \<open>Public keys\<close>

definition COSE_ALG_EDDSA :: int where "COSE_ALG_EDDSA = - 8"
definition COSE_ALG_ES256 :: int where "COSE_ALG_ES256 = - 7"
definition COSE_ED25519_PUB_LEN :: nat where "COSE_ED25519_PUB_LEN = 32"
definition COSE_P256_PUB_LEN :: nat where "COSE_P256_PUB_LEN = 64"
definition COSE_ES256_DER_MAX :: nat where "COSE_ES256_DER_MAX = 72"

definition cose_pub_len :: "int \<Rightarrow> nat" where
  "cose_pub_len alg =
     (if alg = COSE_ALG_EDDSA then COSE_ED25519_PUB_LEN
      else if alg = COSE_ALG_ES256 then COSE_P256_PUB_LEN else 0)"

definition cose_write_pubkey :: "cbor_writer \<Rightarrow> int \<Rightarrow> bytes \<Rightarrow> int \<times> cbor_writer" where
  "cose_write_pubkey w alg pub =
     (if length pub = 0 \<or> length pub \<noteq> cose_pub_len alg then (- 1, w)
      else
        let w1 =
          (if alg = COSE_ALG_EDDSA then
             cbor_seq [\<lambda>w. cbor_write_map_header w 4,
               \<lambda>w. cbor_write_uint w 1, \<lambda>w. cbor_write_uint w 1,
               \<lambda>w. cbor_write_uint w 3, \<lambda>w. cbor_write_negint w COSE_ALG_EDDSA,
               \<lambda>w. cbor_write_negint w (- 1), \<lambda>w. cbor_write_uint w 6,
               \<lambda>w. cbor_write_negint w (- 2), \<lambda>w. cbor_write_byte_string w (take 32 pub)] w
           else
             cbor_seq [\<lambda>w. cbor_write_map_header w 5,
               \<lambda>w. cbor_write_uint w 1, \<lambda>w. cbor_write_uint w 2,
               \<lambda>w. cbor_write_uint w 3, \<lambda>w. cbor_write_negint w COSE_ALG_ES256,
               \<lambda>w. cbor_write_negint w (- 1), \<lambda>w. cbor_write_uint w 1,
               \<lambda>w. cbor_write_negint w (- 2), \<lambda>w. cbor_write_byte_string w (take 32 pub),
               \<lambda>w. cbor_write_negint w (- 3), \<lambda>w. cbor_write_byte_string w (take 32 (drop 32 pub))] w)
        in (if cbor_writer_error w1 then - 1 else 0, w1))"

text \<open>The bytes of a \<open>COSE_Key\<close>, RFC 9053 sections 7.1 and 7.2.\<close>

definition cose_key :: "int \<Rightarrow> bytes \<Rightarrow> bytes" where
  "cose_key alg pub =
     (if alg = COSE_ALG_EDDSA then [0xA4, 0x01, 0x01, 0x03, 0x27, 0x20, 0x06, 0x21, 0x58, 0x20] @ pub
      else [0xA5, 0x01, 0x02, 0x03, 0x26, 0x20, 0x01, 0x21, 0x58, 0x20] @ take 32 pub
        @ [0x22, 0x58, 0x20] @ drop 32 pub)"

lemma head_values:
  "head_bytes CBOR_MT_MAP (of_nat 4) = [0xA4]" "head_bytes CBOR_MT_MAP (of_nat 5) = [0xA5]"
  "head_bytes CBOR_MT_UINT 1 = [1]" "head_bytes CBOR_MT_UINT 2 = [2]" "head_bytes CBOR_MT_UINT 3 = [3]"
  "head_bytes CBOR_MT_UINT 6 = [6]"
  "head_bytes CBOR_MT_NEGINT (of_int (- (COSE_ALG_EDDSA + 1))) = [0x27]"
  "head_bytes CBOR_MT_NEGINT (of_int (- (COSE_ALG_ES256 + 1))) = [0x26]"
  "head_bytes CBOR_MT_NEGINT (of_int (- (- 1 + 1))) = [0x20]"
  "head_bytes CBOR_MT_NEGINT (of_int (- (- 2 + 1))) = [0x21]"
  "head_bytes CBOR_MT_NEGINT (of_int (- (- 3 + 1))) = [0x22]"
  "length bs = 32 \<Longrightarrow> head_bytes CBOR_MT_BYTE_STR (of_nat (length bs)) = [0x58, 0x20]"
  by (simp_all add: head_bytes_def Let_def cbor_mts mt_bits_def be_bytes_def COSE_ALG_EDDSA_def COSE_ALG_ES256_def)

lemma emits_fixed:
  "emits (\<lambda>w. cbor_write_map_header w 4) [0xA4]" "emits (\<lambda>w. cbor_write_map_header w 5) [0xA5]"
  "emits (\<lambda>w. cbor_write_uint w 1) [1]" "emits (\<lambda>w. cbor_write_uint w 2) [2]"
  "emits (\<lambda>w. cbor_write_uint w 3) [3]" "emits (\<lambda>w. cbor_write_uint w 6) [6]"
  "emits (\<lambda>w. cbor_write_negint w COSE_ALG_EDDSA) [0x27]"
  "emits (\<lambda>w. cbor_write_negint w COSE_ALG_ES256) [0x26]"
  "emits (\<lambda>w. cbor_write_negint w (- 1)) [0x20]" "emits (\<lambda>w. cbor_write_negint w (- 2)) [0x21]"
  "emits (\<lambda>w. cbor_write_negint w (- 3)) [0x22]"
  "length bs = 32 \<Longrightarrow> emits (\<lambda>w. cbor_write_byte_string w bs) ([0x58, 0x20] @ bs)"
proof -
  have n: "COSE_ALG_EDDSA < 0" "COSE_ALG_ES256 < 0" "- 1 < (0 :: int)" "- 2 < (0 :: int)" "- 3 < (0 :: int)"
    by (simp_all add: COSE_ALG_EDDSA_def COSE_ALG_ES256_def)
  note u = emits_uint [of 1] emits_uint [of 2] emits_uint [of 3] emits_uint [of 6]
    and m = emits_map [of 4] emits_map [of 5] and g = n [THEN emits_negint]
  show "emits (\<lambda>w. cbor_write_map_header w 4) [0xA4]" "emits (\<lambda>w. cbor_write_map_header w 5) [0xA5]"
    "emits (\<lambda>w. cbor_write_uint w 1) [1]" "emits (\<lambda>w. cbor_write_uint w 2) [2]"
    "emits (\<lambda>w. cbor_write_uint w 3) [3]" "emits (\<lambda>w. cbor_write_uint w 6) [6]"
    "emits (\<lambda>w. cbor_write_negint w COSE_ALG_EDDSA) [0x27]"
    "emits (\<lambda>w. cbor_write_negint w COSE_ALG_ES256) [0x26]"
    "emits (\<lambda>w. cbor_write_negint w (- 1)) [0x20]" "emits (\<lambda>w. cbor_write_negint w (- 2)) [0x21]"
    "emits (\<lambda>w. cbor_write_negint w (- 3)) [0x22]"
    by (rule u [unfolded head_values] m [unfolded head_values] g [unfolded head_values])+
  show "length bs = 32 \<Longrightarrow> emits (\<lambda>w. cbor_write_byte_string w bs) ([0x58, 0x20] @ bs)"
    using emits_byte_string [of bs] head_values(12) [of bs] by metis
qed

lemma wf_byte32: "length p = 32 \<Longrightarrow> wf_item k ([0x58, 0x20] @ p)"
proof (rule wf_string)
  show "decode_head [0x58, 0x20] = Some (2, 32, length [0x58 :: u8, 0x20])" by code_simp
qed simp_all

lemma wf_small: "b \<in> {1, 2, 3, 6, 0x20, 0x21, 0x22, 0x26, 0x27} \<Longrightarrow> wf_item k [b]"
proof -
  assume b: "b \<in> {1, 2, 3, 6, 0x20, 0x21, 0x22, 0x26, 0x27}"
  have "decode_head [b] = Some (unat (drop_bit 5 b AND 7), ucast (b AND 0x1F), length [b])"
    and "unat (drop_bit 5 b AND 7) \<in> {0, 1, 7}"
    using b by (auto simp: decode_head_def Let_def arg_len_def)
  then show ?thesis by (rule wf_scalar)
qed

lemma wf_items_concat: "list_all (wf_item k) xs \<Longrightarrow> length xs = n \<Longrightarrow> wf_items k n (concat xs)"
  by (induction xs arbitrary: n) (auto intro: wf_nil wf_cons)

lemma cose_key_wf:
  assumes "length pub = cose_pub_len alg" and "pub \<noteq> []"
  shows "wf_item (Suc k) (cose_key alg pub)"
proof (cases "alg = COSE_ALG_EDDSA")
  case True
  then have l: "length pub = 32" using assms by (simp add: cose_pub_len_def COSE_ED25519_PUB_LEN_def)
  let ?is = "[[1], [1], [3], [0x27], [0x20], [6], [0x21], [0x58, 0x20] @ pub]"
  have "list_all (wf_item k) ?is" using wf_small [of _ k] wf_byte32 [OF l] by simp
  then have "wf_items k (2 * unat (4 :: u64)) (concat ?is)" by (rule wf_items_concat) code_simp
  then have "wf_item (Suc k) ([0xA4] @ concat ?is)" by (rule wf_map [rotated]) code_simp
  then show ?thesis using True by (simp add: cose_key_def)
next
  case False
  then have l: "length pub = 64" using assms by (simp add: cose_pub_len_def COSE_P256_PUB_LEN_def split: if_splits)
  let ?is = "[[1], [2], [3], [0x26], [0x20], [1], [0x21], [0x58, 0x20] @ take 32 pub, [0x22],
    [0x58, 0x20] @ drop 32 pub]"
  have "list_all (wf_item k) ?is"
    using wf_small [of _ k] wf_byte32 [of "take 32 pub"] wf_byte32 [of "drop 32 pub"] l by simp
  then have "wf_items k (2 * unat (5 :: u64)) (concat ?is)" by (rule wf_items_concat) code_simp
  then have "wf_item (Suc k) ([0xA5] @ concat ?is)" by (rule wf_map [rotated]) code_simp
  then show ?thesis using False by (simp add: cose_key_def)
qed

lemma seq_verdict:
  assumes "list_all2 emits fs bss" and "writable w" and "concat bss = bs"
  shows "if \<not> w_err w \<and> length (w_out w) + length bs \<le> w_cap w
      then (if w_err (cbor_seq fs w) then - 1 else (0 :: int), cbor_seq fs w) = (0, w\<lparr>w_out := w_out w @ bs\<rparr>)
      else fst (if w_err (cbor_seq fs w) then - 1 else (0 :: int), cbor_seq fs w) = - 1
        \<and> writable (snd (if w_err (cbor_seq fs w) then - 1 else (0 :: int), cbor_seq fs w))"
  using emits_seq [OF assms(1,2)] assms(3) by (simp split: if_split_asm)

text \<open>What the calls of \<open>cose_write_pubkey\<close> emit.\<close>

lemma cose_calls:
  assumes "writable w" and "length pub = cose_pub_len alg" and "pub \<noteq> []"
  shows "if \<not> w_err w \<and> length (w_out w) + length (cose_key alg pub) \<le> w_cap w
      then cose_write_pubkey w alg pub = (0, w\<lparr>w_out := w_out w @ cose_key alg pub\<rparr>)
      else fst (cose_write_pubkey w alg pub) = - 1 \<and> writable (snd (cose_write_pubkey w alg pub))"
proof (cases "alg = COSE_ALG_EDDSA")
  case True
  then have l: "length (take 32 pub) = 32" "take 32 pub = pub"
    using assms by (simp_all add: cose_pub_len_def COSE_ED25519_PUB_LEN_def)
  let ?fs = "[\<lambda>w. cbor_write_map_header w 4,
               \<lambda>w. cbor_write_uint w 1, \<lambda>w. cbor_write_uint w 1,
               \<lambda>w. cbor_write_uint w 3, \<lambda>w. cbor_write_negint w COSE_ALG_EDDSA,
               \<lambda>w. cbor_write_negint w (- 1), \<lambda>w. cbor_write_uint w 6,
               \<lambda>w. cbor_write_negint w (- 2), \<lambda>w. cbor_write_byte_string w (take 32 pub)]"
  let ?bs = "[[0xA4], [1], [1], [3], [0x27], [0x20], [6], [0x21], [0x58, 0x20] @ take 32 pub]"
  have e: "list_all2 emits ?fs ?bs" using emits_fixed emits_fixed(12) [OF l(1)] by simp
  have k: "concat ?bs = cose_key alg pub" using True l(2) by (simp add: cose_key_def)
  have w: "cose_write_pubkey w alg pub
      = (if w_err (cbor_seq ?fs w) then - 1 else 0, cbor_seq ?fs w)"
    using True assms(2,3) by (simp add: cose_write_pubkey_def cbor_writer_error_def Let_def cose_pub_len_def
        COSE_ED25519_PUB_LEN_def COSE_P256_PUB_LEN_def split: if_split_asm)
  show ?thesis unfolding w by (rule seq_verdict [OF e assms(1) k])
next
  case False
  then have l: "length (take 32 pub) = 32" "length (take 32 (drop 32 pub)) = 32" "take 32 (drop 32 pub) = drop 32 pub"
    using assms by (simp_all add: cose_pub_len_def COSE_P256_PUB_LEN_def split: if_splits)
  let ?fs = "[\<lambda>w. cbor_write_map_header w 5,
               \<lambda>w. cbor_write_uint w 1, \<lambda>w. cbor_write_uint w 2,
               \<lambda>w. cbor_write_uint w 3, \<lambda>w. cbor_write_negint w COSE_ALG_ES256,
               \<lambda>w. cbor_write_negint w (- 1), \<lambda>w. cbor_write_uint w 1,
               \<lambda>w. cbor_write_negint w (- 2), \<lambda>w. cbor_write_byte_string w (take 32 pub),
               \<lambda>w. cbor_write_negint w (- 3), \<lambda>w. cbor_write_byte_string w (take 32 (drop 32 pub))]"
  let ?bs = "[[0xA5], [1], [2], [3], [0x26], [0x20], [1], [0x21], [0x58, 0x20] @ take 32 pub, [0x22],
    [0x58, 0x20] @ take 32 (drop 32 pub)]"
  have e: "list_all2 emits ?fs ?bs"
    using emits_fixed emits_fixed(12) [OF l(1)] emits_fixed(12) [OF l(2)] by simp
  have k: "concat ?bs = cose_key alg pub" using False l(3) by (simp add: cose_key_def)
  have w: "cose_write_pubkey w alg pub
      = (if w_err (cbor_seq ?fs w) then - 1 else 0, cbor_seq ?fs w)"
    using False assms(2,3) by (simp add: cose_write_pubkey_def cbor_writer_error_def Let_def cose_pub_len_def
        COSE_ED25519_PUB_LEN_def COSE_P256_PUB_LEN_def split: if_split_asm)
  show ?thesis unfolding w by (rule seq_verdict [OF e assms(1) k])
qed

text \<open>\<open>cose_write_pubkey\<close> succeeds exactly for a supported algorithm, a key of its length and a
  writer with room; then it appends the COSE_Key of that key, which is one well-formed CBOR
  item, and in every other case reports -1 and stays within the writer's buffer.
\<close>

theorem cose_pubkey_exact:
  assumes "writable w" and "\<not> w_err w"
  shows "if length pub = cose_pub_len alg \<and> pub \<noteq> [] \<and> length (w_out w) + length (cose_key alg pub) \<le> w_cap w
      then cose_write_pubkey w alg pub = (0, w\<lparr>w_out := w_out w @ cose_key alg pub\<rparr>)
        \<and> cbor_validate (cose_key alg pub)
      else fst (cose_write_pubkey w alg pub) = - 1 \<and> writable (snd (cose_write_pubkey w alg pub))"
proof (cases "length pub = cose_pub_len alg \<and> pub \<noteq> []")
  case True
  then have "wf_item (Suc 3) (cose_key alg pub)" by (intro cose_key_wf) simp_all
  then have "cbor_validate (cose_key alg pub)" by (intro wf_validates) (simp add: CBOR_MAX_DEPTH_def)
  then show ?thesis using cose_calls [OF assms(1), of pub alg] True assms(2) by (auto split: if_split_asm)
next
  case False
  then have "cose_write_pubkey w alg pub = (- 1, w)" by (auto simp: cose_write_pubkey_def)
  then show ?thesis using False assms(1) by auto
qed

theorem cose_pubkey_exact_witness:
  "cose_write_pubkey (cbor_writer_init 42) COSE_ALG_EDDSA (replicate 32 7)
     = (0, (cbor_writer_init 42)\<lparr>w_out := cose_key COSE_ALG_EDDSA (replicate 32 7)\<rparr>)"
proof -
  have "writable (cbor_writer_init 42)" "\<not> w_err (cbor_writer_init 42)"
    by (simp_all add: cbor_writer_init_def)
  from cose_pubkey_exact [OF this, of "replicate 32 7" COSE_ALG_EDDSA] show ?thesis
    by (simp add: cose_pub_len_def COSE_ED25519_PUB_LEN_def cose_key_def cbor_writer_init_def)
qed

section \<open>DER signatures\<close>

text \<open>The \<open>while\<close> loop of \<open>der_int\<close>.\<close>

function der_start :: "bytes \<Rightarrow> nat \<Rightarrow> nat" where
  "der_start v i = (if i < 31 \<and> v ! i = 0 then der_start v (i + 1) else i)"
  by pat_completeness auto
termination
  by (relation "measure (\<lambda>(v, i). 31 - i)") auto

declare der_start.simps [simp del]

definition der_int :: "bytes \<Rightarrow> bytes" where
  "der_int v =
     (let i = der_start v 0;
          n = 32 - i;
          pad = (if v ! i AND 0x80 \<noteq> 0 then 1 else 0)
      in [0x02, of_nat (n + pad)] @ replicate pad 0 @ take n (drop i v))"

definition cose_es256_der :: "bytes \<Rightarrow> nat \<Rightarrow> bytes option" where
  "cose_es256_der rs out_max =
     (let body = der_int (take 32 rs) @ der_int (take 32 (drop 32 rs))
      in if length body + 2 > out_max then None
         else Some ([0x30, of_nat (length body)] @ body))"

section \<open>A reference DER reader\<close>

text \<open>
  ECDSA-Sig-Value in DER (X.690): definite short lengths, each INTEGER non-negative and with
  the fewest bytes, nothing after the SEQUENCE.
\<close>

definition be_val :: "bytes \<Rightarrow> nat" where
  "be_val bs = foldl (\<lambda>a b. 256 * a + unat b) 0 bs"

definition der_read_int :: "bytes \<Rightarrow> (nat \<times> bytes) option" where
  "der_read_int bs =
     (case bs of t # l # rest \<Rightarrow>
        let c = take (unat l) rest
        in if t \<noteq> 0x02 \<or> l = 0 \<or> l \<ge> 0x80 \<or> length rest < unat l then None
           else if hd c \<ge> 0x80 then None
           else if length c > 1 \<and> hd c = 0 \<and> c ! 1 < 0x80 then None
           else Some (be_val c, drop (unat l) rest)
      | _ \<Rightarrow> None)"

definition der_read_sig :: "bytes \<Rightarrow> (nat \<times> nat) option" where
  "der_read_sig bs =
     (case bs of t # l # rest \<Rightarrow>
        if t \<noteq> 0x30 \<or> l \<ge> 0x80 \<or> length rest \<noteq> unat l then None
        else (case der_read_int rest of None \<Rightarrow> None
              | Some (r, rest1) \<Rightarrow>
                 (case der_read_int rest1 of None \<Rightarrow> None
                  | Some (s, rest2) \<Rightarrow> if rest2 = [] then Some (r, s) else None))
      | _ \<Rightarrow> None)"

lemma foldl_zeros: "foldl (\<lambda>a b. 256 * a + unat b) 0 (replicate n (0 :: u8)) = (0 :: nat)"
  by (induction n) simp_all

lemma be_val_zeros: "be_val (replicate n 0 @ bs) = be_val bs"
  by (simp add: be_val_def foldl_zeros)

lemma der_start_spec:
  assumes "length v = 32" and "i \<le> 31"
  shows "i \<le> der_start v i \<and> der_start v i \<le> 31 \<and> (\<forall>j. i \<le> j \<longrightarrow> j < der_start v i \<longrightarrow> v ! j = 0)
    \<and> (der_start v i < 31 \<longrightarrow> v ! der_start v i \<noteq> 0)"
  using assms(2)
proof (induction v i rule: der_start.induct)
  case (1 v i)
  show ?case
  proof (cases "i < 31 \<and> v ! i = 0")
    case True
    then have "der_start v i = der_start v (i + 1)" by (subst der_start.simps) simp
    moreover have "v ! j = 0" if "i \<le> j" "j < der_start v (i + 1)" for j
      using 1 True that by (cases "j = i") (auto simp: Suc_le_eq)
    ultimately show ?thesis using 1 True by auto
  next
    case False
    then have "der_start v i = i" by (subst der_start.simps) (simp only: if_False)
    with False 1(2) show ?thesis by auto
  qed
qed

lemma top_bit: "(x :: u8) AND 0x80 = 0 \<longleftrightarrow> x < 0x80"
proof -
  have e: "x AND push_bit n 1 = 0 \<longleftrightarrow> \<not> bit x n" if "n < 8" for n
    using that by (auto intro!: bit_word_eqI simp: bit_simps dest: arg_cong [where f = "\<lambda>y. bit y n"])
  have "x AND 0x80 = 0 \<longleftrightarrow> \<not> bit x 7" using e [of 7] by simp
  also have "bit x 7 \<longleftrightarrow> bit (unat x) 7" by (simp add: bit_unsigned_iff)
  also have "bit (unat x) 7 \<longleftrightarrow> odd (unat x div 128)" by (simp add: bit_iff_odd)
  also have "\<dots> \<longleftrightarrow> 128 \<le> unat x"
  proof -
    have "unat x div 128 = 1" if "128 \<le> unat x"
      by (rule div_nat_eqI) (use that u8_lt [of x] in simp_all)
    then show ?thesis by (cases "unat x < 128") auto
  qed
  finally show ?thesis by (simp add: word_less_nat_alt not_le)
qed

lemma nat_u8: "k \<le> 33 \<Longrightarrow> k \<noteq> 0 \<Longrightarrow>
    unat (of_nat k :: u8) = k \<and> (of_nat k :: u8) \<noteq> 0 \<and> \<not> (of_nat k :: u8) \<ge> 0x80"
  by (auto simp: word_le_nat_alt unat_eq_0 [symmetric])

lemma der_int_read:
  assumes "length v = 32"
  shows "der_read_int (der_int v @ rest) = Some (be_val v, rest) \<and> length (der_int v) \<le> 35"
proof -
  define i where "i = der_start v 0"
  have i: "i \<le> 31" "\<forall>j < i. v ! j = 0" "i < 31 \<longrightarrow> v ! i \<noteq> 0"
    using der_start_spec [OF assms, of 0] by (auto simp: i_def)
  have "take i v = replicate i 0" using i assms by (intro nth_equalityI) auto
  then have v: "be_val (drop i v) = be_val v"
    by (metis append_take_drop_id be_val_zeros)
  obtain b bs where d: "drop i v = b # bs" using i(1) assms by (cases "drop i v") auto
  have b: "v ! i = b" using hd_drop_conv_nth [of i v] d i(1) assms by simp
  have l: "32 - i = Suc (length bs)" using arg_cong [OF d, of length] assms by simp
  have lb: "length bs \<le> 31" using l by simp
  show ?thesis
  proof (cases "b AND 0x80 = 0")
    case True
    have d1: "der_int v = [0x02, of_nat (Suc (length bs))] @ b # bs"
      unfolding der_int_def Let_def i_def [symmetric] b l using True d by simp
    have "bs = [] \<or> b \<noteq> 0" using l i(1,3) b by (cases "i < 31") auto
    moreover have "\<not> b \<ge> 0x80" using True by (simp add: top_bit not_le)
    ultimately show ?thesis unfolding d1 v [symmetric] d
      using nat_u8 [of "Suc (length bs)"] lb by (auto simp: der_read_int_def Let_def simp del: of_nat_Suc)
  next
    case False
    have d1: "der_int v = [0x02, of_nat (Suc (Suc (length bs)))] @ 0 # b # bs"
      unfolding der_int_def Let_def i_def [symmetric] b l using False d by simp
    have "\<not> b < 0x80" using False by (simp add: top_bit)
    moreover have "be_val (0 # b # bs) = be_val (b # bs)" using be_val_zeros [of 1] by simp
    ultimately show ?thesis unfolding d1 v [symmetric] d
      using nat_u8 [of "Suc (Suc (length bs))"] lb by (simp add: der_read_int_def Let_def del: of_nat_Suc)
  qed
qed

text \<open>An ES256 signature is converted without loss and in strict DER: the SEQUENCE of two minimal
  INTEGERs that \<open>cose_es256_der\<close> writes reads back as exactly the \<open>r\<close> and \<open>s\<close> the chip
  produced, it never exceeds 72 bytes (so the 70-byte body buffer is never overrun), and it is
  refused only if the caller's buffer is too small.
\<close>

theorem cose_der_roundtrip:
  assumes "length rs = 64"
  shows "(case cose_es256_der rs out_max of
      Some der \<Rightarrow> der_read_sig der = Some (be_val (take 32 rs), be_val (drop 32 rs))
        \<and> length der \<le> out_max \<and> length der \<le> COSE_ES256_DER_MAX
    | None \<Rightarrow> out_max < COSE_ES256_DER_MAX)"
proof -
  let ?r = "take 32 rs" and ?s = "drop 32 rs"
  have s: "take 32 ?s = ?s" "length ?r = 32" "length ?s = 32" using assms by simp_all
  let ?b = "der_int ?r @ der_int ?s"
  have r1: "der_read_int ?b = Some (be_val ?r, der_int ?s)" "length (der_int ?r) \<le> 35"
    using der_int_read [OF s(2)] by blast+
  have r2: "der_read_int (der_int ?s) = Some (be_val ?s, [])" "length (der_int ?s) \<le> 35"
    using der_int_read [OF s(3), of "[]"] by simp_all
  have lb: "length ?b \<le> 70" using r1(2) r2(2) by simp
  then have n: "unat (of_nat (length ?b) :: u8) = length ?b" by (intro unat_of_nat_u8) simp
  then have "\<not> (of_nat (length ?b) :: u8) \<ge> 0x80" using lb by (simp only: word_le_nat_alt) simp
  then have "der_read_sig ([0x30, of_nat (length ?b)] @ ?b) = Some (be_val ?r, be_val ?s)"
    using n r1(1) r2(1) by (simp add: der_read_sig_def del: of_nat_add length_append)
  then show ?thesis
    using lb unfolding cose_es256_der_def Let_def s(1) COSE_ES256_DER_MAX_def by simp
qed

theorem cose_der_roundtrip_witness:
  "\<exists>der. cose_es256_der (replicate 64 0xFF) 72 = Some der \<and> length der \<le> COSE_ES256_DER_MAX"
  using cose_der_roundtrip [of "replicate 64 0xFF" 72]
  by (simp add: COSE_ES256_DER_MAX_def split: option.splits)

end
