(* ===== verification/Client_Pin.thy ===== *)
theory Client_Pin
  imports Fido_State Cose Ctap2_Parse Pin_Token
begin

text \<open>
  ClientPIN, \<^verbatim>\<open>firmware/src/fido_hid/pin.c\<close>: key agreement, the request parser, setPin,
  changePin and the two ways to get a token, over the PIN object of \<open>Fido_State\<close> and the
  token of \<open>Pin_Token\<close>.  The elliptic-curve and AES routines of trezor-crypto are a
  parameter; the wiping of stack buffers and the calls that keep USB alive during a long
  computation are left out.
\<close>

section \<open>Constants\<close>

definition CP_KEY_PIN_PROTOCOL :: u64 where "CP_KEY_PIN_PROTOCOL = 1"
definition CP_KEY_SUB_COMMAND :: u64 where "CP_KEY_SUB_COMMAND = 2"
definition CP_KEY_KEY_AGREEMENT :: u64 where "CP_KEY_KEY_AGREEMENT = 3"
definition CP_KEY_PIN_AUTH :: u64 where "CP_KEY_PIN_AUTH = 4"
definition CP_KEY_NEW_PIN_ENC :: u64 where "CP_KEY_NEW_PIN_ENC = 5"
definition CP_KEY_PIN_HASH_ENC :: u64 where "CP_KEY_PIN_HASH_ENC = 6"
definition CP_KEY_PERMISSIONS :: u64 where "CP_KEY_PERMISSIONS = 9"
definition CP_KEY_RP_ID :: u64 where "CP_KEY_RP_ID = 10"
definition CP_RESP_KEY_AGREEMENT :: u64 where "CP_RESP_KEY_AGREEMENT = 1"
definition CP_RESP_PIN_TOKEN :: u64 where "CP_RESP_PIN_TOKEN = 2"
definition CP_RESP_RETRIES :: u64 where "CP_RESP_RETRIES = 3"
definition CP_SUB_GET_RETRIES :: u64 where "CP_SUB_GET_RETRIES = 1"
definition CP_SUB_GET_KEY_AGREE :: u64 where "CP_SUB_GET_KEY_AGREE = 2"
definition CP_SUB_SET_PIN :: u64 where "CP_SUB_SET_PIN = 3"
definition CP_SUB_CHANGE_PIN :: u64 where "CP_SUB_CHANGE_PIN = 4"
definition CP_SUB_GET_PIN_TOKEN :: u64 where "CP_SUB_GET_PIN_TOKEN = 5"
definition CP_SUB_GET_PIN_UV_TOKEN_PERMS :: u64 where "CP_SUB_GET_PIN_UV_TOKEN_PERMS = 9"

definition PIN_PROTOCOL_VERSION :: u64 where "PIN_PROTOCOL_VERSION = 1"
definition PIN_HASH_LEN :: nat where "PIN_HASH_LEN = 16"
definition PIN_MIN_BYTES :: nat where "PIN_MIN_BYTES = 4"
definition PIN_MAX_BYTES :: nat where "PIN_MAX_BYTES = 63"
definition PIN_ENC_BUF_LEN :: nat where "PIN_ENC_BUF_LEN = 64"
definition PIN_AUTH_BLOCKED_CONSEC :: u8 where "PIN_AUTH_BLOCKED_CONSEC = 3"

definition PUAT_PERM_MC :: u8 where "PUAT_PERM_MC = 0x01"
definition PUAT_PERM_GA :: u8 where "PUAT_PERM_GA = 0x02"
definition PUAT_PERM_CM :: u8 where "PUAT_PERM_CM = 0x04"
definition PUAT_PERM_BE :: u8 where "PUAT_PERM_BE = 0x08"
definition PUAT_PERM_LBW :: u8 where "PUAT_PERM_LBW = 0x10"
definition PUAT_PERM_ACFG :: u8 where "PUAT_PERM_ACFG = 0x20"

definition CTAP2_OK :: nat where "CTAP2_OK = 0x00"
definition CTAP2_ERR_PIN_INVALID :: nat where "CTAP2_ERR_PIN_INVALID = 0x31"
definition CTAP2_ERR_PIN_BLOCKED :: nat where "CTAP2_ERR_PIN_BLOCKED = 0x32"
definition CTAP2_ERR_PIN_AUTH_INVALID :: nat where "CTAP2_ERR_PIN_AUTH_INVALID = 0x33"
definition CTAP2_ERR_PIN_AUTH_BLOCKED :: nat where "CTAP2_ERR_PIN_AUTH_BLOCKED = 0x34"
definition CTAP2_ERR_PIN_NOT_SET :: nat where "CTAP2_ERR_PIN_NOT_SET = 0x35"
definition CTAP2_ERR_PIN_POLICY_VIOLATION :: nat where "CTAP2_ERR_PIN_POLICY_VIOLATION = 0x37"
definition CTAP2_ERR_UNAUTHORIZED_PERMISSION :: nat where "CTAP2_ERR_UNAUTHORIZED_PERMISSION = 0x40"
definition CTAP2_ERR_OTHER :: nat where "CTAP2_ERR_OTHER = 0x7F"

lemmas pin_errs = CTAP2_OK_def CTAP2_ERR_PIN_INVALID_def CTAP2_ERR_PIN_BLOCKED_def CTAP2_ERR_PIN_AUTH_INVALID_def
  CTAP2_ERR_PIN_AUTH_BLOCKED_def CTAP2_ERR_PIN_NOT_SET_def CTAP2_ERR_PIN_POLICY_VIOLATION_def
  CTAP2_ERR_UNAUTHORIZED_PERMISSION_def CTAP2_ERR_OTHER_def ctap_errs

section \<open>State\<close>

text \<open>The routines of trezor-crypto: \<open>None\<close> is a non-zero return.\<close>

record pin_crypto =
  ecdsa_get_public_key65 :: "bytes \<Rightarrow> bytes option"
  ecdh_multiply :: "bytes \<Rightarrow> bytes \<Rightarrow> bytes option"
  aes_cbc_dec_iv0 :: "bytes \<Rightarrow> bytes \<Rightarrow> bytes option"
  aes_cbc_enc_iv0 :: "bytes \<Rightarrow> bytes \<Rightarrow> bytes option"

text \<open>The statics of \<^verbatim>\<open>pin.c\<close> and the objects they stand beside: token, PIN state, chip.\<close>

record 'c cp =
  cp_initted :: bool
  s_eph_priv :: bytes
  s_eph_pub65 :: bytes
  s_consec_fails :: u8
  s_auth_blocked :: bool
  cp_puat :: puat
  cp_fido :: fido
  cp_chip :: 'c

definition cp_start :: "puat \<Rightarrow> fido \<Rightarrow> 'c \<Rightarrow> 'c cp" where
  "cp_start p f c = \<lparr>cp_initted = False, s_eph_priv = replicate 32 0, s_eph_pub65 = replicate 65 0,
     s_consec_fails = 0, s_auth_blocked = False, cp_puat = p, cp_fido = f, cp_chip = c\<rparr>"

text \<open>The PIN object of \<open>Fido_State\<close> on this state.\<close>

definition cp_pin_state :: "'c tropic \<Rightarrow> crypto \<Rightarrow> 'c cp \<Rightarrow> fido_pin_state \<times> nat \<times> 'c cp" where
  "cp_pin_state T K s =
     (case fido_pin_state T K (cp_fido s) (cp_chip s) of (st, att, f, c) \<Rightarrow>
        (st, att, s\<lparr>cp_fido := f, cp_chip := c\<rparr>))"

definition cp_pin_set :: "'c tropic \<Rightarrow> crypto \<Rightarrow> bytes \<Rightarrow> nat \<Rightarrow> 'c cp \<Rightarrow> int \<times> 'c cp" where
  "cp_pin_set T K mat plen s =
     (case fido_pin_set T K mat plen (cp_fido s) (cp_chip s) of (rc, f, c) \<Rightarrow>
        (rc, s\<lparr>cp_fido := f, cp_chip := c\<rparr>))"

definition cp_pin_verify :: "'c tropic \<Rightarrow> crypto \<Rightarrow> bytes \<Rightarrow> 'c cp \<Rightarrow> int \<times> bool \<times> 'c cp" where
  "cp_pin_verify T K mat s =
     (case fido_pin_verify T K mat (cp_fido s) (cp_chip s) of (rc, ok, f, c) \<Rightarrow>
        (rc, ok, s\<lparr>cp_fido := f, cp_chip := c\<rparr>))"

definition cp_pin_change :: "'c tropic \<Rightarrow> crypto \<Rightarrow> bytes \<Rightarrow> bytes \<Rightarrow> nat \<Rightarrow> 'c cp \<Rightarrow> int \<times> bool \<times> 'c cp" where
  "cp_pin_change T K old_mat new_mat plen s =
     (case fido_pin_change T K old_mat new_mat plen (cp_fido s) (cp_chip s) of (rc, ok, f, c) \<Rightarrow>
        (rc, ok, s\<lparr>cp_fido := f, cp_chip := c\<rparr>))"

section \<open>Key agreement\<close>

fun regen_attempts :: "'c tropic \<Rightarrow> pin_crypto \<Rightarrow> nat \<Rightarrow> 'c cp \<Rightarrow> int \<times> 'c cp" where
  "regen_attempts T P 0 s = (- 1, s)"
| "regen_attempts T P (Suc k) s =
     (case tropic_random T 32 (cp_chip s) of
        (Inl _, c) \<Rightarrow> (- 1, s\<lparr>cp_chip := c\<rparr>)
      | (Inr d, c) \<Rightarrow>
          let priv = (case d of [] \<Rightarrow> [] | b # bs \<Rightarrow> (b AND 0x7F) # bs);
              s1 = s\<lparr>s_eph_priv := priv, cp_chip := c\<rparr>
          in if list_all (\<lambda>b. b = 0) priv then regen_attempts T P k s1
             else case ecdsa_get_public_key65 P priv of
               None \<Rightarrow> regen_attempts T P k s1
             | Some pub \<Rightarrow> (0, s1\<lparr>s_eph_pub65 := pub\<rparr>))"

definition regen_eph :: "'c tropic \<Rightarrow> pin_crypto \<Rightarrow> 'c cp \<Rightarrow> int \<times> 'c cp" where
  "regen_eph T P s = regen_attempts T P 16 s"

definition compute_shared_key :: "crypto \<Rightarrow> pin_crypto \<Rightarrow> bytes \<Rightarrow> 'c cp \<Rightarrow> bytes option" where
  "compute_shared_key K P platform_pub_xy s =
     (case ecdh_multiply P (s_eph_priv s) (0x04 # platform_pub_xy) of
        None \<Rightarrow> None
      | Some shared65 \<Rightarrow> Some (sha256 K (take 32 (drop 1 shared65))))"

definition pin_auth_compute :: "crypto \<Rightarrow> bytes \<Rightarrow> bytes \<Rightarrow> bytes" where
  "pin_auth_compute K key msg = take 16 (hmac_sha256 K key msg)"

definition pin_init :: "'c tropic \<Rightarrow> pin_crypto \<Rightarrow> 'c cp \<Rightarrow> int \<times> 'c cp" where
  "pin_init T P s =
     (case regen_eph T P s of (rc, s1) \<Rightarrow>
      if rc \<noteq> 0 then (rc, s1)
      else (0, s1\<lparr>cp_puat := puat_reset (cp_puat s1), s_consec_fails := 0, s_auth_blocked := False,
              cp_initted := True\<rparr>))"

definition pin_reset_ram :: "'c tropic \<Rightarrow> pin_crypto \<Rightarrow> 'c cp \<Rightarrow> 'c cp" where
  "pin_reset_ram T P s =
     snd (regen_eph T P (s\<lparr>cp_puat := puat_reset (cp_puat s), s_consec_fails := 0, s_auth_blocked := False\<rparr>))"

definition pin_is_set :: "'c tropic \<Rightarrow> crypto \<Rightarrow> 'c cp \<Rightarrow> bool \<times> 'c cp" where
  "pin_is_set T K s = (case cp_pin_state T K s of (st, _, s1) \<Rightarrow> (st \<noteq> FPIN_NOT_SET, s1))"

definition pin_token_is_valid :: "u32 \<Rightarrow> 'c cp \<Rightarrow> bool \<times> 'c cp" where
  "pin_token_is_valid now s =
     (case puat_in_use now (cp_puat s) of (u, p) \<Rightarrow> (u \<and> puat_user_verified p, s\<lparr>cp_puat := p\<rparr>))"

section \<open>The request\<close>

definition rd_or :: "nat \<Rightarrow> (cbor_reader \<Rightarrow> 'a option \<times> cbor_reader) \<Rightarrow> 'a rd" where
  "rd_or e m r = (case m r of (None, r1) \<Rightarrow> (Inl e, r1) | (Some x, r1) \<Rightarrow> (Inr x, r1))"

definition read_fixed :: "nat \<Rightarrow> cbor_reader \<Rightarrow> bytes option \<times> cbor_reader" where
  "read_fixed len r =
     (case cbor_reader_read_bytes r of (None, r1) \<Rightarrow> (None, r1)
      | (Some p, r1) \<Rightarrow> (if length p \<noteq> len then None else Some p, r1))"

definition skip_opt :: "cbor_reader \<Rightarrow> unit option \<times> cbor_reader" where
  "skip_opt r = (case cbor_reader_skip r of (ok, r1) \<Rightarrow> (if ok then Some () else None, r1))"

text \<open>\<open>(x, y)\<close> of the platform key, \<open>None\<close> for \<open>got_x == 0\<close> and \<open>got_y == 0\<close>; every error is -1.\<close>

definition cose_member :: "bytes option \<times> bytes option \<Rightarrow> (bytes option \<times> bytes option) rd" where
  "cose_member xy = bind_rd (rd_or 1 cbor_reader_read_head) (\<lambda>(mt, key).
     if mt = 1 \<and> key = 1 then bind_rd (rd_or 1 (read_fixed 32)) (\<lambda>p. ret_rd (Some p, snd xy))
     else if mt = 1 \<and> key = 2 then bind_rd (rd_or 1 (read_fixed 32)) (\<lambda>p. ret_rd (fst xy, Some p))
     else bind_rd (rd_or 1 skip_opt) (\<lambda>_. ret_rd xy))"

definition parse_cose_p256_pubkey :: "bytes rd" where
  "parse_cose_p256_pubkey = bind_rd (rd_or 1 cbor_reader_read_map_header) (\<lambda>n.
     bind_rd (rd_loop n cose_member (None, None)) (\<lambda>xy. case xy of
       (Some x, Some y) \<Rightarrow> ret_rd (x @ y)
     | _ \<Rightarrow> err_rd 1))"

text \<open>A field that is \<open>None\<close> was not in the request (its \<open>got\<close> flag is 0).\<close>

record pin_req =
  q_peer_xy :: "bytes option"
  q_pin_auth :: "bytes option"
  q_new_pin_enc :: "bytes option"
  q_pin_hash_enc :: "bytes option"
  q_perms :: "u64 option"
  q_rp_id :: "bytes option"

definition no_pin_req :: pin_req where
  "no_pin_req = \<lparr>q_peer_xy = None, q_pin_auth = None, q_new_pin_enc = None, q_pin_hash_enc = None,
     q_perms = None, q_rp_id = None\<rparr>"

definition pin_member :: "pin_req \<Rightarrow> pin_req rd" where
  "pin_member t = bind_rd (rd_or CTAP2_ERR_INVALID_CBOR cbor_reader_read_head) (\<lambda>(mt, key).
     if mt \<noteq> 0 then err_rd CTAP2_ERR_INVALID_CBOR
     else if key = CP_KEY_KEY_AGREEMENT then (\<lambda>r. case parse_cose_p256_pubkey r of
         (Inl _, r1) \<Rightarrow> (Inl CTAP1_ERR_INVALID_PARAMETER, r1)
       | (Inr xy, r1) \<Rightarrow> (Inr (t\<lparr>q_peer_xy := Some xy\<rparr>), r1))
     else if key = CP_KEY_PIN_AUTH then
       bind_rd (rd_or CTAP2_ERR_INVALID_CBOR (read_fixed 16)) (\<lambda>p. ret_rd (t\<lparr>q_pin_auth := Some p\<rparr>))
     else if key = CP_KEY_NEW_PIN_ENC then
       bind_rd (rd_or CTAP2_ERR_INVALID_CBOR (read_fixed PIN_ENC_BUF_LEN)) (\<lambda>p. ret_rd (t\<lparr>q_new_pin_enc := Some p\<rparr>))
     else if key = CP_KEY_PIN_HASH_ENC then
       bind_rd (rd_or CTAP2_ERR_INVALID_CBOR (read_fixed 16)) (\<lambda>p. ret_rd (t\<lparr>q_pin_hash_enc := Some p\<rparr>))
     else if key = CP_KEY_PERMISSIONS then
       bind_rd (rd_or CTAP2_ERR_CBOR_UNEXPECTED_TYPE cbor_reader_read_uint) (\<lambda>v. ret_rd (t\<lparr>q_perms := Some v\<rparr>))
     else if key = CP_KEY_RP_ID then
       bind_rd (rd_or CTAP2_ERR_CBOR_UNEXPECTED_TYPE cbor_reader_read_text) (\<lambda>v. ret_rd (t\<lparr>q_rp_id := Some v\<rparr>))
     else bind_rd (rd_or CTAP2_ERR_INVALID_CBOR skip_opt) (\<lambda>_. ret_rd t))"

definition parse_pin_req :: "cbor_reader \<Rightarrow> nat \<Rightarrow> nat + pin_req" where
  "parse_pin_req r n_keys = fst (rd_loop n_keys pin_member no_pin_req r)"

section \<open>The sub-commands\<close>

text \<open>
  A handler returns what it leaves in \<open>resp\<close>: the bytes of the response, or \<open>None\<close> for the
  negative return value of a framing error.
\<close>

definition status :: "nat \<Rightarrow> bytes option" where
  "status e = Some [of_nat e]"

text \<open>A response of \<open>CTAP2_OK\<close> and a CBOR body, or \<open>CTAP2_ERR_OTHER\<close> if it did not fit.\<close>

definition cbor_answer :: "cbor_writer \<Rightarrow> bytes option" where
  "cbor_answer w = (if cbor_writer_error w then status CTAP2_ERR_OTHER else Some (of_nat CTAP2_OK # w_out w))"

definition build_cose_p256_pubkey :: "cbor_writer \<Rightarrow> 'c cp \<Rightarrow> int \<times> cbor_writer" where
  "build_cose_p256_pubkey w s =
     (let w1 = cbor_seq [\<lambda>w. cbor_write_map_header w 5,
        \<lambda>w. cbor_write_uint w 1, \<lambda>w. cbor_write_uint w 2,
        \<lambda>w. cbor_write_uint w 3, \<lambda>w. cbor_write_negint w (- 25),
        \<lambda>w. cbor_write_negint w (- 1), \<lambda>w. cbor_write_uint w 1,
        \<lambda>w. cbor_write_negint w (- 2), \<lambda>w. cbor_write_byte_string w (take 32 (drop 1 (s_eph_pub65 s))),
        \<lambda>w. cbor_write_negint w (- 3), \<lambda>w. cbor_write_byte_string w (take 32 (drop 33 (s_eph_pub65 s)))] w
      in (if cbor_writer_error w1 then - 1 else 0, w1))"

definition retries_answer :: "nat \<Rightarrow> nat \<Rightarrow> bytes option" where
  "retries_answer retries resp_max =
     (if resp_max < 1 then None
      else cbor_answer (cbor_seq [\<lambda>w. cbor_write_map_header w 1, \<lambda>w. cbor_write_uint w CP_RESP_RETRIES,
        \<lambda>w. cbor_write_uint w (of_nat retries)] (cbor_writer_init (resp_max - 1))))"

definition handle_get_retries :: "'c tropic \<Rightarrow> crypto \<Rightarrow> nat \<Rightarrow> 'c cp \<Rightarrow> bytes option \<times> 'c cp" where
  "handle_get_retries T K resp_max s =
     (case cp_pin_state T K s of
        (FPIN_NOT_SET, _, s1) \<Rightarrow> (retries_answer FIDO_PIN_ROUNDS resp_max, s1)
      | (FPIN_SET, att, s1) \<Rightarrow> (retries_answer att resp_max, s1)
      | (FPIN_BLOCKED, _, s1) \<Rightarrow> (retries_answer 0 resp_max, s1)
      | (FPIN_ERROR, _, s1) \<Rightarrow> (status CTAP2_ERR_OTHER, s1))"

definition handle_get_key_agreement :: "'c tropic \<Rightarrow> pin_crypto \<Rightarrow> nat \<Rightarrow> 'c cp \<Rightarrow> bytes option \<times> 'c cp" where
  "handle_get_key_agreement T P resp_max s =
     (case (if cp_initted s then (0, s) else pin_init T P s) of (rc, s1) \<Rightarrow>
      if rc \<noteq> 0 then (status CTAP2_ERR_OTHER, s1)
      else if resp_max < 1 then (None, s1)
      else
        let w = cbor_seq [\<lambda>w. cbor_write_map_header w 1, \<lambda>w. cbor_write_uint w CP_RESP_KEY_AGREEMENT]
              (cbor_writer_init (resp_max - 1))
        in case build_cose_p256_pubkey w s1 of (rc2, w1) \<Rightarrow>
          (if rc2 \<noteq> 0 then status CTAP2_ERR_OTHER else Some (of_nat CTAP2_OK # w_out w1), s1))"

definition shared_key_for ::
  "'c tropic \<Rightarrow> crypto \<Rightarrow> pin_crypto \<Rightarrow> bytes \<Rightarrow> 'c cp \<Rightarrow> (nat + bytes) \<times> 'c cp" where
  "shared_key_for T K P peer_xy s =
     (case (if cp_initted s then (0, s) else pin_init T P s) of (rc, s1) \<Rightarrow>
      if rc \<noteq> 0 then (Inl CTAP2_ERR_OTHER, s1)
      else (case compute_shared_key K P peer_xy s1 of
              None \<Rightarrow> Inl CTAP1_ERR_INVALID_PARAMETER | Some key \<Rightarrow> Inr key, s1))"

text \<open>The length of the PIN: trailing zero bytes dropped.\<close>

fun unpad :: "bytes \<Rightarrow> nat \<Rightarrow> nat" where
  "unpad p 0 = 0"
| "unpad p (Suc n) = (if p ! n = 0 then unpad p n else Suc n)"

text \<open>The status, the hash and the length; the last two only count where the status is not \<open>OTHER\<close>.\<close>

definition new_pin_hash :: "crypto \<Rightarrow> pin_crypto \<Rightarrow> bytes \<Rightarrow> bytes \<Rightarrow> nat \<times> bytes \<times> nat" where
  "new_pin_hash K P key new_pin_enc =
     (case aes_cbc_dec_iv0 P key new_pin_enc of
        None \<Rightarrow> (CTAP2_ERR_OTHER, [], 0)
      | Some pin_padded \<Rightarrow>
          let len = unpad pin_padded PIN_ENC_BUF_LEN
          in (if len < PIN_MIN_BYTES \<or> len > PIN_MAX_BYTES then CTAP2_ERR_PIN_POLICY_VIOLATION else 0,
              sha256 K (take len pin_padded), len))"

definition pin_mismatch_status :: "'c tropic \<Rightarrow> crypto \<Rightarrow> pin_crypto \<Rightarrow> 'c cp \<Rightarrow> nat \<times> 'c cp" where
  "pin_mismatch_status T K P s =
     (case cp_pin_state T K s of (st, _, s1) \<Rightarrow>
      let s2 = s1\<lparr>s_consec_fails := s_consec_fails s1 + 1\<rparr>;
          s3 = (if s_consec_fails s2 \<ge> PIN_AUTH_BLOCKED_CONSEC then s2\<lparr>s_auth_blocked := True\<rparr> else s2);
          s4 = snd (regen_eph T P s3)
      in (if st = FPIN_BLOCKED then CTAP2_ERR_PIN_BLOCKED
          else if st \<noteq> FPIN_SET then CTAP2_ERR_OTHER
          else if s_auth_blocked s4 then CTAP2_ERR_PIN_AUTH_BLOCKED
          else CTAP2_ERR_PIN_INVALID, s4))"

definition drop_token :: "'c cp \<Rightarrow> 'c cp" where
  "drop_token s = s\<lparr>cp_puat := puat_reset (cp_puat s)\<rparr>"

definition set_pin_with_key ::
  "'c tropic \<Rightarrow> crypto \<Rightarrow> pin_crypto \<Rightarrow> bytes \<Rightarrow> bytes \<Rightarrow> bytes \<Rightarrow> 'c cp \<Rightarrow> nat \<times> 'c cp" where
  "set_pin_with_key T K P key pin_auth new_pin_enc s =
     (if ct_diff 0 (pin_auth_compute K key new_pin_enc) pin_auth \<noteq> 0 then (CTAP2_ERR_PIN_AUTH_INVALID, s)
      else case new_pin_hash K P key new_pin_enc of (rc, hash, plen) \<Rightarrow>
      if rc \<noteq> 0 then (rc, s)
      else case cp_pin_set T K (take PIN_MD_MATERIAL_LEN hash) plen (drop_token s) of (rc2, s1) \<Rightarrow>
      if rc2 \<noteq> 0 then (CTAP2_ERR_OTHER, s1)
      else (0, (drop_token (snd (regen_eph T P s1)))\<lparr>s_consec_fails := 0, s_auth_blocked := False\<rparr>))"

definition handle_set_pin ::
  "'c tropic \<Rightarrow> crypto \<Rightarrow> pin_crypto \<Rightarrow> cbor_reader \<Rightarrow> nat \<Rightarrow> 'c cp \<Rightarrow> bytes option \<times> 'c cp" where
  "handle_set_pin T K P r n_keys s =
     (case cp_pin_state T K s of (st, _, s1) \<Rightarrow>
      if st \<noteq> FPIN_NOT_SET then
        (status (if st = FPIN_ERROR then CTAP2_ERR_OTHER else CTAP2_ERR_PIN_AUTH_INVALID), s1)
      else case parse_pin_req r n_keys of
        Inl e \<Rightarrow> (status e, s1)
      | Inr q \<Rightarrow>
          (case (q_peer_xy q, q_pin_auth q, q_new_pin_enc q) of
             (Some xy, Some pa, Some npe) \<Rightarrow>
               (case shared_key_for T K P xy s1 of
                  (Inl e, s2) \<Rightarrow> (status e, s2)
                | (Inr key, s2) \<Rightarrow>
                    (case set_pin_with_key T K P key pa npe s2 of (rc, s3) \<Rightarrow> (status rc, s3)))
           | _ \<Rightarrow> (status CTAP2_ERR_MISSING_PARAMETER, s1)))"

text \<open>The end of \<open>change_pin_with_key\<close>: what follows the call into the binding.\<close>

definition change_outcome ::
  "'c tropic \<Rightarrow> crypto \<Rightarrow> pin_crypto \<Rightarrow> nat \<Rightarrow> int \<times> bool \<times> 'c cp \<Rightarrow> nat \<times> 'c cp" where
  "change_outcome T K P policy x =
     (case x of (krc, correct, s1) \<Rightarrow>
      case (if krc = - 2 then (CTAP2_ERR_PIN_BLOCKED, snd (regen_eph T P s1))
            else if krc \<noteq> 0 then (CTAP2_ERR_OTHER, s1)
            else if \<not> correct then pin_mismatch_status T K P s1
            else (policy, s1\<lparr>s_consec_fails := 0\<rparr>)) of (rc, s2) \<Rightarrow>
      (rc, if rc = 0 then snd (regen_eph T P s2) else s2))"

definition change_pin_with_key ::
  "'c tropic \<Rightarrow> crypto \<Rightarrow> pin_crypto \<Rightarrow> bytes \<Rightarrow> bytes \<Rightarrow> bytes \<Rightarrow> bytes \<Rightarrow> 'c cp \<Rightarrow> nat \<times> 'c cp" where
  "change_pin_with_key T K P key pin_auth new_pin_enc pin_hash_enc s =
     (if ct_diff 0 (pin_auth_compute K key (new_pin_enc @ pin_hash_enc)) pin_auth \<noteq> 0
      then (CTAP2_ERR_PIN_AUTH_INVALID, s)
      else case aes_cbc_dec_iv0 P key pin_hash_enc of
        None \<Rightarrow> (CTAP2_ERR_OTHER, s)
      | Some old_hash \<Rightarrow>
          (case new_pin_hash K P key new_pin_enc of (policy, new_hash, plen) \<Rightarrow>
           if policy = CTAP2_ERR_OTHER then (CTAP2_ERR_OTHER, s)
           else change_outcome T K P policy
             (if policy = 0
              then cp_pin_change T K old_hash (take PIN_MD_MATERIAL_LEN new_hash) plen (drop_token s)
              else cp_pin_verify T K old_hash (drop_token s))))"

text \<open>The guards that changePin and the token requests share, as the status they answer.\<close>

definition pin_guard :: "fido_pin_state \<Rightarrow> 'c cp \<Rightarrow> nat" where
  "pin_guard st s =
     (case st of
        FPIN_SET \<Rightarrow> if s_auth_blocked s then CTAP2_ERR_PIN_AUTH_BLOCKED else 0
      | FPIN_NOT_SET \<Rightarrow> CTAP2_ERR_PIN_NOT_SET
      | FPIN_BLOCKED \<Rightarrow> CTAP2_ERR_PIN_BLOCKED
      | FPIN_ERROR \<Rightarrow> CTAP2_ERR_OTHER)"

definition handle_change_pin ::
  "'c tropic \<Rightarrow> crypto \<Rightarrow> pin_crypto \<Rightarrow> cbor_reader \<Rightarrow> nat \<Rightarrow> 'c cp \<Rightarrow> bytes option \<times> 'c cp" where
  "handle_change_pin T K P r n_keys s =
     (case cp_pin_state T K s of (st, _, s1) \<Rightarrow>
      if pin_guard st s1 \<noteq> 0 then (status (pin_guard st s1), s1)
      else case parse_pin_req r n_keys of
        Inl e \<Rightarrow> (status e, s1)
      | Inr q \<Rightarrow>
          (case (q_peer_xy q, q_pin_auth q, q_new_pin_enc q, q_pin_hash_enc q) of
             (Some xy, Some pa, Some npe, Some phe) \<Rightarrow>
               (case shared_key_for T K P xy s1 of
                  (Inl e, s2) \<Rightarrow> (status e, s2)
                | (Inr key, s2) \<Rightarrow>
                    (case change_pin_with_key T K P key pa npe phe s2 of (rc, s3) \<Rightarrow> (status rc, s3)))
           | _ \<Rightarrow> (status CTAP2_ERR_MISSING_PARAMETER, s1)))"

definition check_token_req :: "pin_req \<Rightarrow> bool \<Rightarrow> nat + u8" where
  "check_token_req t with_perms =
     (if q_peer_xy t = None \<or> q_pin_hash_enc t = None \<or> with_perms \<and> q_perms t = None
      then Inl CTAP2_ERR_MISSING_PARAMETER
      else if \<not> with_perms then
        (if q_perms t \<noteq> None \<or> q_rp_id t \<noteq> None then Inl CTAP1_ERR_INVALID_PARAMETER
         else Inr (PUAT_PERM_MC OR PUAT_PERM_GA))
      else let perms = (case q_perms t of None \<Rightarrow> 0 | Some p \<Rightarrow> p) in
      if perms = 0 then Inl CTAP1_ERR_INVALID_PARAMETER
      else if perms AND ucast (PUAT_PERM_BE OR PUAT_PERM_LBW) \<noteq> 0 then Inl CTAP2_ERR_UNAUTHORIZED_PERMISSION
      else Inr (ucast (perms AND ucast PUAT_PERMS_KNOWN)))"

definition verify_pin_hash_enc ::
  "'c tropic \<Rightarrow> crypto \<Rightarrow> pin_crypto \<Rightarrow> bytes \<Rightarrow> bytes \<Rightarrow> 'c cp \<Rightarrow> nat \<times> 'c cp" where
  "verify_pin_hash_enc T K P shared_key pin_hash_enc s =
     (case aes_cbc_dec_iv0 P shared_key pin_hash_enc of
        None \<Rightarrow> (CTAP2_ERR_OTHER, s)
      | Some submitted_hash \<Rightarrow>
          (case cp_pin_verify T K submitted_hash s of (rc, correct, s1) \<Rightarrow>
           if rc = - 2 then (CTAP2_ERR_PIN_BLOCKED, snd (regen_eph T P s1))
           else if rc \<noteq> 0 then (CTAP2_ERR_OTHER, s1)
           else if \<not> correct then pin_mismatch_status T K P s1
           else (0, s1\<lparr>s_consec_fails := 0\<rparr>)))"

definition issue_token ::
  "'c tropic \<Rightarrow> crypto \<Rightarrow> pin_crypto \<Rightarrow> bytes \<Rightarrow> u8 \<Rightarrow> bytes option \<Rightarrow> nat \<Rightarrow> u32 \<Rightarrow> 'c cp \<Rightarrow> bytes option \<times> 'c cp" where
  "issue_token T K P shared_key perms rp_id resp_max now s =
     (let s1 = drop_token s in
      case tropic_random T PUAT_TOKEN_LEN (cp_chip s1) of
        (Inl _, c) \<Rightarrow> (status CTAP2_ERR_OTHER, s1\<lparr>cp_chip := c\<rparr>)
      | (Inr token, c) \<Rightarrow>
          let s2 = s1\<lparr>cp_chip := c,
                cp_puat := puat_begin token perms (map_option (sha256 K) rp_id) now (cp_puat s1)\<rparr>
          in case aes_cbc_enc_iv0 P shared_key token of
               None \<Rightarrow> (status CTAP2_ERR_OTHER, drop_token s2)
             | Some token_enc \<Rightarrow>
                 let w = cbor_seq [\<lambda>w. cbor_write_map_header w 1, \<lambda>w. cbor_write_uint w CP_RESP_PIN_TOKEN,
                       \<lambda>w. cbor_write_byte_string w (take PUAT_TOKEN_LEN token_enc)]
                       (cbor_writer_init (resp_max - 1))
                 in if cbor_writer_error w then (status CTAP2_ERR_OTHER, drop_token s2)
                    else (Some (of_nat CTAP2_OK # w_out w), s2))"

definition handle_get_pin_token ::
  "'c tropic \<Rightarrow> crypto \<Rightarrow> pin_crypto \<Rightarrow> cbor_reader \<Rightarrow> nat \<Rightarrow> nat \<Rightarrow> bool \<Rightarrow> u32 \<Rightarrow> 'c cp \<Rightarrow> bytes option \<times> 'c cp" where
  "handle_get_pin_token T K P r n_keys resp_max with_perms now s =
     (case parse_pin_req r n_keys of
        Inl e \<Rightarrow> (status e, s)
      | Inr t \<Rightarrow>
          (case check_token_req t with_perms of
             Inl e \<Rightarrow> (status e, s)
           | Inr perms \<Rightarrow>
               (case cp_pin_state T K s of (st, _, s1) \<Rightarrow>
                if pin_guard st s1 \<noteq> 0 then (status (pin_guard st s1), s1)
                else case (q_peer_xy t, q_pin_hash_enc t) of
                  (Some xy, Some phe) \<Rightarrow>
                    (case compute_shared_key K P xy s1 of
                       None \<Rightarrow> (status CTAP1_ERR_INVALID_PARAMETER, s1)
                     | Some shared_key \<Rightarrow>
                         (case verify_pin_hash_enc T K P shared_key phe s1 of (rc, s2) \<Rightarrow>
                          if rc \<noteq> 0 then (status rc, s2)
                          else issue_token T K P shared_key perms (q_rp_id t) resp_max now s2))
                | _ \<Rightarrow> (status CTAP2_ERR_MISSING_PARAMETER, s1))))"

section \<open>The command\<close>

text \<open>The two leading members, protocol and sub-command, and the reader behind them.\<close>

definition head_or :: "nat \<Rightarrow> nat \<Rightarrow> (u64 \<Rightarrow> bool) \<Rightarrow> u64 rd" where
  "head_or e mt ok = bind_rd (rd_or e cbor_reader_read_head) (\<lambda>(m, v).
     if m \<noteq> mt \<or> \<not> ok v then err_rd e else ret_rd v)"

definition pin_command :: "(nat \<times> u64) rd" where
  "pin_command = bind_rd (rd_or CTAP2_ERR_INVALID_CBOR cbor_reader_read_map_header) (\<lambda>n_keys.
     if n_keys < 2 then err_rd CTAP2_ERR_MISSING_PARAMETER
     else bind_rd (head_or CTAP2_ERR_MISSING_PARAMETER 0 (\<lambda>key. key = CP_KEY_PIN_PROTOCOL)) (\<lambda>_.
     bind_rd (head_or CTAP2_ERR_INVALID_CBOR 0 (\<lambda>_. True)) (\<lambda>pp_v.
     if pp_v \<noteq> PIN_PROTOCOL_VERSION then err_rd CTAP1_ERR_INVALID_PARAMETER
     else bind_rd (head_or CTAP2_ERR_MISSING_PARAMETER 0 (\<lambda>key. key = CP_KEY_SUB_COMMAND)) (\<lambda>_.
     bind_rd (head_or CTAP2_ERR_INVALID_CBOR 0 (\<lambda>_. True)) (\<lambda>sc_v.
     if sc_v > 0xFF then err_rd CTAP1_ERR_INVALID_PARAMETER else ret_rd (n_keys - 2, sc_v))))))"

definition skip_pair :: "unit \<Rightarrow> unit rd" where
  "skip_pair _ = bind_rd (rd_or CTAP2_ERR_INVALID_CBOR cbor_reader_read_head) (\<lambda>_.
     rd_or CTAP2_ERR_INVALID_CBOR skip_opt)"

definition pin_handle_cbor ::
  "'c tropic \<Rightarrow> crypto \<Rightarrow> pin_crypto \<Rightarrow> bytes \<Rightarrow> nat \<Rightarrow> u32 \<Rightarrow> 'c cp \<Rightarrow> bytes option \<times> 'c cp" where
  "pin_handle_cbor T K P req resp_max now s =
     (case (if cp_initted s then (0, s) else pin_init T P s) of (rc, s1) \<Rightarrow>
      if rc \<noteq> 0 then (status CTAP2_ERR_OTHER, s1)
      else case pin_command (cbor_reader_init req) of
        (Inl e, r) \<Rightarrow> (status e, s1)
      | (Inr (rest, sub), r) \<Rightarrow>
          if sub = CP_SUB_GET_RETRIES then
            (case rd_loop rest skip_pair () r of
               (Inl e, _) \<Rightarrow> (status e, s1) | (Inr _, _) \<Rightarrow> handle_get_retries T K resp_max s1)
          else if sub = CP_SUB_GET_KEY_AGREE then
            (case rd_loop rest skip_pair () r of
               (Inl e, _) \<Rightarrow> (status e, s1) | (Inr _, _) \<Rightarrow> handle_get_key_agreement T P resp_max s1)
          else if sub = CP_SUB_SET_PIN then handle_set_pin T K P r rest s1
          else if sub = CP_SUB_CHANGE_PIN then handle_change_pin T K P r rest s1
          else if sub = CP_SUB_GET_PIN_TOKEN then handle_get_pin_token T K P r rest resp_max False now s1
          else if sub = CP_SUB_GET_PIN_UV_TOKEN_PERMS then handle_get_pin_token T K P r rest resp_max True now s1
          else (status CTAP1_ERR_INVALID_PARAMETER, s1))"

section \<open>What each part leaves alone\<close>

text \<open>The statics that decide: initialisation, failure count, lockout and token.\<close>

definition ram :: "'c cp \<Rightarrow> bool \<times> u8 \<times> bool \<times> puat" where
  "ram s = (cp_initted s, s_consec_fails s, s_auth_blocked s, cp_puat s)"

lemma ram_fields:
  "ram s' = ram s \<longleftrightarrow> cp_initted s' = cp_initted s \<and> s_consec_fails s' = s_consec_fails s \<and>
     s_auth_blocked s' = s_auth_blocked s \<and> cp_puat s' = cp_puat s"
  by (auto simp: ram_def)

lemma ram_upd [simp]:
  "ram (s\<lparr>cp_fido := f\<rparr>) = ram s" "ram (s\<lparr>cp_chip := c\<rparr>) = ram s"
  "ram (s\<lparr>s_eph_priv := x\<rparr>) = ram s" "ram (s\<lparr>s_eph_pub65 := y\<rparr>) = ram s"
  by (simp_all add: ram_def)

lemma cp_pin_ram:
  "cp_pin_state T K s = (st, att, s1) \<Longrightarrow> ram s1 = ram s"
  "cp_pin_set T K m n s = (rc, s1) \<Longrightarrow> ram s1 = ram s"
  "cp_pin_verify T K m s = (rc, ok, s1) \<Longrightarrow> ram s1 = ram s"
  "cp_pin_change T K m m' n s = (rc, ok, s1) \<Longrightarrow> ram s1 = ram s"
  by (auto simp: cp_pin_state_def cp_pin_set_def cp_pin_verify_def cp_pin_change_def split: prod.splits)

lemma regen_attempts_ram: "ram (snd (regen_attempts T P k s)) = ram s"
  by (induction k arbitrary: s) (auto simp: Let_def split: sum.splits prod.splits option.splits)

lemma regen_ram: "ram (snd (regen_eph T P s)) = ram s"
  by (simp add: regen_eph_def regen_attempts_ram)

text \<open>The count of wrong PINs in a row and the lockout it leads to.\<close>

definition cp_inv :: "'c cp \<Rightarrow> bool" where
  "cp_inv s \<longleftrightarrow> s_consec_fails s \<le> PIN_AUTH_BLOCKED_CONSEC \<and>
     (s_consec_fails s = PIN_AUTH_BLOCKED_CONSEC \<longrightarrow> s_auth_blocked s)"

text \<open>One wrong PIN: the count goes up by one, and at three the lockout is on.\<close>

lemma mismatch_spec:
  assumes "pin_mismatch_status T K P s = (rc, s')" and "cp_inv s" and "\<not> s_auth_blocked s"
  shows "cp_inv s'" and "s_consec_fails s' = s_consec_fails s + 1" and "cp_puat s' = cp_puat s"
    and "cp_initted s' = cp_initted s" and "rc \<noteq> 0"
    and "s_auth_blocked s' \<longleftrightarrow> s_consec_fails s' = PIN_AUTH_BLOCKED_CONSEC"
proof -
  obtain st att s1 where 1: "cp_pin_state T K s = (st, att, s1)" by (metis prod_cases3)
  note r1 = cp_pin_ram(1) [OF 1]
  let ?s2 = "s1\<lparr>s_consec_fails := s_consec_fails s1 + 1\<rparr>"
  define s3 where "s3 = (if s_consec_fails ?s2 \<ge> PIN_AUTH_BLOCKED_CONSEC then ?s2\<lparr>s_auth_blocked := True\<rparr> else ?s2)"
  have s': "s' = snd (regen_eph T P s3)" using assms(1) by (simp add: pin_mismatch_status_def 1 Let_def s3_def)
  have r: "ram s' = ram s3" unfolding s' by (rule regen_ram)
  have lt: "unat (s_consec_fails s) < 3"
    using assms(2,3) by (auto simp: cp_inv_def PIN_AUTH_BLOCKED_CONSEC_def word_le_nat_alt word_unat_eq_iff)
  then have up: "unat (s_consec_fails s + 1) = Suc (unat (s_consec_fails s))" by (simp add: unat_word_ariths)
  have f3: "s_consec_fails s3 = s_consec_fails s + 1" "cp_puat s3 = cp_puat s" "cp_initted s3 = cp_initted s"
    "s_auth_blocked s3 \<longleftrightarrow> s_consec_fails s + 1 \<ge> PIN_AUTH_BLOCKED_CONSEC"
    using r1 assms(3) by (auto simp: s3_def ram_fields)
  have b: "s_consec_fails s + 1 \<ge> PIN_AUTH_BLOCKED_CONSEC \<longleftrightarrow> s_consec_fails s + 1 = PIN_AUTH_BLOCKED_CONSEC"
    "s_consec_fails s + 1 \<le> PIN_AUTH_BLOCKED_CONSEC"
    using lt up by (auto simp: PIN_AUTH_BLOCKED_CONSEC_def word_le_nat_alt word_unat_eq_iff)
  show "s_consec_fails s' = s_consec_fails s + 1" and "cp_puat s' = cp_puat s" and "cp_initted s' = cp_initted s"
    using r f3 by (auto simp: ram_fields)
  show "s_auth_blocked s' \<longleftrightarrow> s_consec_fails s' = PIN_AUTH_BLOCKED_CONSEC" and "cp_inv s'"
    using r f3 b by (auto simp: ram_fields cp_inv_def)
  show "rc \<noteq> 0" using assms(1) by (auto simp: pin_mismatch_status_def 1 Let_def pin_errs split: if_splits)
qed

lemma inv_ram: "ram s' = ram s \<Longrightarrow> cp_inv s' = cp_inv s"
  by (simp add: ram_fields cp_inv_def)

lemma inv_zero: "cp_inv s \<Longrightarrow> cp_inv (s\<lparr>s_consec_fails := 0\<rparr>)"
  by (auto simp: cp_inv_def PIN_AUTH_BLOCKED_CONSEC_def)

lemma inv_token: "cp_inv (drop_token s) = cp_inv s" "s_auth_blocked (drop_token s) = s_auth_blocked s"
  "cp_initted (drop_token s) = cp_initted s" "\<not> t_in_use (cp_puat (drop_token s))"
  "s_consec_fails (drop_token s) = s_consec_fails s"
  by (simp_all add: drop_token_def cp_inv_def puat_reset_def)

lemma verify_spec:
  assumes "verify_pin_hash_enc T K P key phe s = (rc, s')" and "cp_inv s" and "\<not> s_auth_blocked s"
  shows "cp_inv s'" and "cp_puat s' = cp_puat s" and "cp_initted s' = cp_initted s"
    and "rc = 0 \<Longrightarrow> \<exists>mat f' c'. fido_pin_verify T K mat (cp_fido s) (cp_chip s) = (0, True, f', c')"
proof -
  have *: "cp_inv s' \<and> cp_puat s' = cp_puat s \<and> cp_initted s' = cp_initted s \<and>
    (rc = 0 \<longrightarrow> (\<exists>mat f' c'. fido_pin_verify T K mat (cp_fido s) (cp_chip s) = (0, True, f', c')))"
  proof (cases "aes_cbc_dec_iv0 P key phe")
    case None
    then show ?thesis using assms by (auto simp: verify_pin_hash_enc_def pin_errs)
  next
    case (Some mat)
    obtain vrc ok s1 where v: "cp_pin_verify T K mat s = (vrc, ok, s1)" by (metis prod_cases3)
    note r1 = cp_pin_ram(3) [OF v]
    have i1: "cp_inv s1" "\<not> s_auth_blocked s1"
      using inv_ram [OF r1] r1 [unfolded ram_fields] assms(2,3) by simp_all
    have fv: "\<exists>f' c'. fido_pin_verify T K mat (cp_fido s) (cp_chip s) = (vrc, ok, f', c')"
      using v by (auto simp: cp_pin_verify_def split: prod.splits)
    obtain mrc s2 where m: "pin_mismatch_status T K P s1 = (mrc, s2)" by fastforce
    note ms = mismatch_spec [OF m i1]
    have r2: "ram (snd (regen_eph T P s1)) = ram s" using r1 by (simp add: regen_ram)
    have eq: "verify_pin_hash_enc T K P key phe s =
      (if vrc = - 2 then (CTAP2_ERR_PIN_BLOCKED, snd (regen_eph T P s1))
       else if vrc \<noteq> 0 then (CTAP2_ERR_OTHER, s1)
       else if \<not> ok then (mrc, s2) else (0, s1\<lparr>s_consec_fails := 0\<rparr>))"
      by (simp add: verify_pin_hash_enc_def Some v m)
    have ne: "CTAP2_ERR_PIN_BLOCKED \<noteq> 0" "CTAP2_ERR_OTHER \<noteq> 0" by (simp_all add: pin_errs)
    have f1: "cp_puat s1 = cp_puat s" "cp_initted s1 = cp_initted s" using r1 by (simp_all add: ram_fields)
    have f2: "cp_puat (snd (regen_eph T P s1)) = cp_puat s" "cp_initted (snd (regen_eph T P s1)) = cp_initted s"
      using r2 by (simp_all add: ram_fields)
    consider "vrc = - 2" "rc = CTAP2_ERR_PIN_BLOCKED" "s' = snd (regen_eph T P s1)"
      | "vrc \<noteq> - 2" "vrc \<noteq> 0" "rc = CTAP2_ERR_OTHER" "s' = s1"
      | "vrc = 0" "\<not> ok" "rc = mrc" "s' = s2"
      | "vrc = 0" "ok" "rc = 0" "s' = s1\<lparr>s_consec_fails := 0\<rparr>"
      using assms(1) unfolding eq by (auto split: if_splits)
    then show ?thesis
    proof cases
      case 1
      then show ?thesis using f2 ne inv_ram [OF r2] assms(2) by simp
    next
      case 2
      then show ?thesis using f1 ne i1 by simp
    next
      case 3
      then show ?thesis using f1 ms by simp
    next
      case 4
      then show ?thesis using f1 inv_zero [OF i1(1)] fv by auto
    qed
  qed
  then show "cp_inv s'" and "cp_puat s' = cp_puat s" and "cp_initted s' = cp_initted s"
    and "rc = 0 \<Longrightarrow> \<exists>mat f' c'. fido_pin_verify T K mat (cp_fido s) (cp_chip s) = (0, True, f', c')"
    by blast+
qed

lemma change_outcome_spec:
  assumes "change_outcome T K P policy (krc, ok, s) = (rc, s')" and "cp_inv s" and "\<not> s_auth_blocked s"
  shows "cp_inv s' \<and> cp_puat s' = cp_puat s \<and> cp_initted s' = cp_initted s"
proof -
  obtain mrc s2 where m: "pin_mismatch_status T K P s = (mrc, s2)" by fastforce
  note ms = mismatch_spec [OF m assms(2,3)]
  let ?good = "\<lambda>x. cp_inv x \<and> cp_puat x = cp_puat s \<and> cp_initted x = cp_initted s"
  have g: "?good (snd (regen_eph T P x))" if gx: "?good x" for x
    using gx inv_ram [OF regen_ram [of T P x]] regen_ram [of T P x, unfolded ram_fields] by simp
  have g0: "?good s" using assms(2) by simp
  have gm: "?good s2" using ms by simp
  have gz: "?good (s\<lparr>s_consec_fails := 0\<rparr>)" using inv_zero [OF assms(2)] by simp
  consider "s' = snd (regen_eph T P s)" | "s' = s" | "s' = s2"
    | "s' = s\<lparr>s_consec_fails := 0\<rparr>" | "s' = snd (regen_eph T P (s\<lparr>s_consec_fails := 0\<rparr>))"
    | "s' = snd (regen_eph T P s2)" | "s' = snd (regen_eph T P (snd (regen_eph T P s)))"
    using assms(1) by (auto simp: change_outcome_def m split: if_splits)
  then show ?thesis
    by cases (use g0 gm gz g [OF g0] g [OF gm] g [OF gz] g [OF g [OF g0]] in \<open>simp_all\<close>)
qed

lemma issue_cases:
  assumes "issue_token T K P key perms rp mx now s = (r, s')"
  obtains c where "s' = (drop_token s)\<lparr>cp_chip := c\<rparr>"
    | c p where "s' = drop_token ((drop_token s)\<lparr>cp_chip := c, cp_puat := p\<rparr>)"
    | c token where "s' = (drop_token s)\<lparr>cp_chip := c,
        cp_puat := puat_begin token perms (map_option (sha256 K) rp) now (cp_puat (drop_token s))\<rparr>"
  using assms
  by (auto simp: issue_token_def Let_def split: sum.splits prod.splits option.splits if_splits)


text \<open>The guards pass exactly when a PIN is set and the lockout is off.\<close>

lemma pin_guard_zero: "pin_guard st s = 0 \<longleftrightarrow> st = FPIN_SET \<and> \<not> s_auth_blocked s"
  by (cases st) (auto simp: pin_guard_def pin_errs)

text \<open>
  What a token request can do: nothing, read the PIN state, spend an attempt, or spend one with
  the right PIN and issue a token.
\<close>

lemma token_cases:
  assumes h: "handle_get_pin_token T K P r n mx wp now s = (resp, s')"
  obtains (none) "s' = s"
    | (read) st att where "cp_pin_state T K s = (st, att, s')"
    | (spent) st att s1 key phe rc where "cp_pin_state T K s = (st, att, s1)" "st = FPIN_SET" "\<not> s_auth_blocked s1"
        "verify_pin_hash_enc T K P key phe s1 = (rc, s')" "rc \<noteq> 0"
    | (issued) st att s1 key phe s2 perms rp q where "cp_pin_state T K s = (st, att, s1)" "st = FPIN_SET"
        "\<not> s_auth_blocked s1" "verify_pin_hash_enc T K P key phe s1 = (0, s2)"
        "check_token_req q wp = Inr perms" "issue_token T K P key perms rp mx now s2 = (resp, s')"
proof -
  obtain st att s1 where 1: "cp_pin_state T K s = (st, att, s1)" by (metis prod_cases3)
  show thesis
  proof (cases "parse_pin_req r n")
    case (Inl e)
    then show thesis using h none by (simp add: handle_get_pin_token_def)
  next
    case q: (Inr q)
    show thesis
    proof (cases "check_token_req q wp")
      case (Inl e)
      then show thesis using h q none by (simp add: handle_get_pin_token_def)
    next
      case perms: (Inr perms)
      show thesis
      proof (cases "pin_guard st s1 = 0 \<and> q_peer_xy q \<noteq> None \<and> q_pin_hash_enc q \<noteq> None")
        case False
        then have "s' = s1"
          using h by (auto simp: handle_get_pin_token_def q perms 1 split: option.splits if_splits)
        then show thesis using 1 read by simp
      next
        case True
        then obtain xy phe where xy: "q_peer_xy q = Some xy" "q_pin_hash_enc q = Some phe"
          and g: "pin_guard st s1 = 0" by auto
        show thesis
        proof (cases "compute_shared_key K P xy s1")
          case None
          then have "s' = s1" using h by (simp add: handle_get_pin_token_def q perms 1 xy g)
          then show thesis using 1 read by simp
        next
          case key: (Some key)
          obtain rc s2 where v: "verify_pin_hash_enc T K P key phe s1 = (rc, s2)" by fastforce
          have e: "(resp, s') = (if rc \<noteq> 0 then (status rc, s2)
              else issue_token T K P key perms (q_rp_id q) mx now s2)"
            using h by (simp add: handle_get_pin_token_def q perms 1 xy g key v)
          show thesis
          proof (cases "rc = 0")
            case True
            then show thesis using issued [of st att s1 key phe s2 q perms "q_rp_id q"] 1 g v perms e
              by (simp add: pin_guard_zero)
          next
            case False
            then show thesis using spent [of st att s1 key phe rc] 1 g v e by (simp add: pin_guard_zero)
          qed
        qed
      qed
    qed
  qed
qed


lemma set_cases:
  assumes h: "handle_set_pin T K P r n s = (resp, s')" and init: "cp_initted s"
  obtains (read) st att where "cp_pin_state T K s = (st, att, s')"
    | (keyed) att s1 key pa npe rc where "cp_pin_state T K s = (FPIN_NOT_SET, att, s1)"
        "set_pin_with_key T K P key pa npe s1 = (rc, s')" "resp = status rc"
proof -
  obtain st att s1 where 1: "cp_pin_state T K s = (st, att, s1)" by (metis prod_cases3)
  have i1: "cp_initted s1" using cp_pin_ram(1) [OF 1] init by (simp add: ram_fields)
  consider "s' = s1" | key pa npe rc where "st = FPIN_NOT_SET"
      "set_pin_with_key T K P key pa npe s1 = (rc, s')" "resp = status rc"
    using h i1 by (auto simp: handle_set_pin_def shared_key_for_def 1 split: if_splits sum.splits option.splits prod.splits)
  then show thesis
    by cases (use 1 read keyed in auto)
qed

lemma change_cases:
  assumes h: "handle_change_pin T K P r n s = (resp, s')" and init: "cp_initted s"
  obtains (read) st att where "cp_pin_state T K s = (st, att, s')"
    | (keyed) att s1 key pa npe phe rc where "cp_pin_state T K s = (FPIN_SET, att, s1)" "\<not> s_auth_blocked s1"
        "change_pin_with_key T K P key pa npe phe s1 = (rc, s')" "resp = status rc"
proof -
  obtain st att s1 where 1: "cp_pin_state T K s = (st, att, s1)" by (metis prod_cases3)
  have i1: "cp_initted s1" using cp_pin_ram(1) [OF 1] init by (simp add: ram_fields)
  consider "s' = s1" | key pa npe phe rc where "pin_guard st s1 = 0"
      "change_pin_with_key T K P key pa npe phe s1 = (rc, s')" "resp = status rc"
    using h i1 by (auto simp: handle_change_pin_def shared_key_for_def 1 split: if_splits sum.splits option.splits prod.splits)
  then show thesis
    by cases (use 1 read keyed pin_guard_zero [of st s1] in auto)
qed

lemma set_key_cases:
  assumes "set_pin_with_key T K P key pa npe s = (rc, s')"
  obtains (refused) "s' = s" "rc \<noteq> 0"
    | (failed) hash plen rc2 where "new_pin_hash K P key npe = (0, hash, plen)"
        "cp_pin_set T K (take PIN_MD_MATERIAL_LEN hash) plen (drop_token s) = (rc2, s')" "rc2 \<noteq> 0" "rc \<noteq> 0"
    | (stored) hash plen s1 where "new_pin_hash K P key npe = (0, hash, plen)"
        "ct_diff 0 (pin_auth_compute K key npe) pa = 0"
        "cp_pin_set T K (take PIN_MD_MATERIAL_LEN hash) plen (drop_token s) = (0, s1)" "rc = 0"
        "s' = (drop_token (snd (regen_eph T P s1)))\<lparr>s_consec_fails := 0, s_auth_blocked := False\<rparr>"
  using assms by (auto simp: set_pin_with_key_def pin_errs split: if_splits prod.splits)

lemma change_key_cases:
  assumes "change_pin_with_key T K P key pa npe phe s = (rc, s')"
  obtains (refused) "s' = s" "rc \<noteq> 0"
    | (outcome) old plen policy hash krc ok s1 where "new_pin_hash K P key npe = (policy, hash, plen)"
        "ct_diff 0 (pin_auth_compute K key (npe @ phe)) pa = 0" "aes_cbc_dec_iv0 P key phe = Some old"
        "(krc, ok, s1) = (if policy = 0
           then cp_pin_change T K old (take PIN_MD_MATERIAL_LEN hash) plen (drop_token s)
           else cp_pin_verify T K old (drop_token s))"
        "change_outcome T K P policy (krc, ok, s1) = (rc, s')"
proof -
  show thesis
  proof (cases "ct_diff 0 (pin_auth_compute K key (npe @ phe)) pa = 0 \<and> aes_cbc_dec_iv0 P key phe \<noteq> None \<and>
      fst (new_pin_hash K P key npe) \<noteq> CTAP2_ERR_OTHER")
    case False
    then have "s' = s \<and> rc \<noteq> 0"
      using assms by (auto simp: change_pin_with_key_def pin_errs split: if_splits prod.splits option.splits)
    then show thesis using refused by blast
  next
    case True
    then obtain old where o: "aes_cbc_dec_iv0 P key phe = Some old" by auto
    obtain policy hash plen where p: "new_pin_hash K P key npe = (policy, hash, plen)" by (metis prod_cases3)
    let ?x = "if policy = 0 then cp_pin_change T K old (take PIN_MD_MATERIAL_LEN hash) plen (drop_token s)
      else cp_pin_verify T K old (drop_token s)"
    obtain krc ok s1 where x: "?x = (krc, ok, s1)" by (metis prod_cases3)
    have "change_outcome T K P policy (krc, ok, s1) = (rc, s')"
      unfolding x [symmetric] using assms True o p by (simp add: change_pin_with_key_def)
    then show thesis using outcome [OF p _ o x [symmetric]] True by blast
  qed
qed


lemma retries_state:
  assumes "handle_get_retries T K mx s = (resp, s')"
  obtains st att where "cp_pin_state T K s = (st, att, s')"
proof -
  obtain st att s1 where 1: "cp_pin_state T K s = (st, att, s1)" by (metis prod_cases3)
  then have "s1 = s'" using assms by (cases st) (simp_all add: handle_get_retries_def)
  then show thesis using 1 that by simp
qed

lemma agreement_state:
  "handle_get_key_agreement T P mx s = (resp, s') \<Longrightarrow> cp_initted s \<Longrightarrow> s' = s"
  by (auto simp: handle_get_key_agreement_def Let_def split: if_splits prod.splits)

lemma command_cases:
  assumes "pin_handle_cbor T K P req mx now s = (resp, s')" and init: "cp_initted s"
  obtains (none) "s' = s"
    | (read) st att where "cp_pin_state T K s = (st, att, s')"
    | (setp) r n where "handle_set_pin T K P r n s = (resp, s')"
    | (change) r n where "handle_change_pin T K P r n s = (resp, s')"
    | (token) r n wp where "handle_get_pin_token T K P r n mx wp now s = (resp, s')"
proof -
  consider "s' = s" | "handle_get_retries T K mx s = (resp, s')"
    | "handle_get_key_agreement T P mx s = (resp, s')"
    | r n where "handle_set_pin T K P r n s = (resp, s')"
    | r n where "handle_change_pin T K P r n s = (resp, s')"
    | r n wp where "handle_get_pin_token T K P r n mx wp now s = (resp, s')"
    using assms by (auto simp: pin_handle_cbor_def split: if_splits sum.splits prod.splits)
  then show thesis
  proof cases
    case 2
    then show thesis by (rule retries_state) (rule read)
  next
    case 3
    show thesis by (rule none) (rule agreement_state [OF 3 init])
  qed (fact none setp change token)+
qed

section \<open>What a command can do\<close>

lemma set_safe:
  assumes "handle_set_pin T K P r n s = (resp, s')" and "cp_initted s" and "cp_inv s"
  shows "cp_inv s' \<and> cp_initted s' \<and>
    ((\<exists>st att. cp_pin_state T K s = (st, att, s')) \<or>
     (\<exists>att s1. cp_pin_state T K s = (FPIN_NOT_SET, att, s1)) \<and> \<not> t_in_use (cp_puat s'))"
  using assms(1,2)
proof (cases rule: set_cases)
  case (read st att)
  note r = cp_pin_ram(1) [OF read]
  show ?thesis using read inv_ram [OF r] r [unfolded ram_fields] assms(2,3) by auto
next
  case (keyed att s1 key pa npe rc)
  note r = cp_pin_ram(1) [OF keyed(1)]
  have s1: "cp_inv s1" "cp_initted s1" using inv_ram [OF r] r [unfolded ram_fields] assms(2,3) by simp_all
  from keyed(2) show ?thesis
  proof (cases rule: set_key_cases)
    case refused
    then show ?thesis using keyed(1) s1 by auto
  next
    case (failed hash plen rc2)
    note r2 = cp_pin_ram(2) [OF failed(2)]
    then have "cp_inv s'" "cp_initted s'" "\<not> t_in_use (cp_puat s')"
      using inv_ram [OF r2] r2 [unfolded ram_fields] s1 by (simp_all add: inv_token)
    then show ?thesis using keyed(1) by blast
  next
    case (stored hash plen s2)
    note r2 = cp_pin_ram(2) [OF stored(3)] and r3 = regen_ram [of T P s2]
    have i: "cp_initted s'" using r2 [unfolded ram_fields] r3 [unfolded ram_fields] s1(2) stored(5)
      by (simp add: inv_token)
    have "cp_inv s'" "\<not> t_in_use (cp_puat s')"
      using stored(5) by (simp_all add: cp_inv_def PIN_AUTH_BLOCKED_CONSEC_def drop_token_def puat_reset_def)
    then show ?thesis using i keyed(1) by blast
  qed
qed

lemma change_safe:
  assumes "handle_change_pin T K P r n s = (resp, s')" and "cp_initted s" and "cp_inv s"
  shows "cp_inv s' \<and> cp_initted s' \<and>
    ((\<exists>st att. cp_pin_state T K s = (st, att, s')) \<or>
     (\<exists>att s1. cp_pin_state T K s = (FPIN_SET, att, s1)) \<and> \<not> s_auth_blocked s \<and> \<not> t_in_use (cp_puat s'))"
  using assms(1,2)
proof (cases rule: change_cases)
  case (read st att)
  note r = cp_pin_ram(1) [OF read]
  show ?thesis using read inv_ram [OF r] r [unfolded ram_fields] assms(2,3) by auto
next
  case (keyed att s1 key pa npe phe rc)
  note r = cp_pin_ram(1) [OF keyed(1)]
  have s1: "cp_inv s1" "cp_initted s1" "s_auth_blocked s1 = s_auth_blocked s"
    using inv_ram [OF r] r [unfolded ram_fields] assms(2,3) by simp_all
  from keyed(3) show ?thesis
  proof (cases rule: change_key_cases)
    case refused
    then show ?thesis using keyed(1) s1 by auto
  next
    case (outcome old plen policy hash krc ok s2)
    have r2: "ram s2 = ram (drop_token s1)"
      using outcome(4) cp_pin_ram(3,4) [OF sym] by (cases "policy = 0") auto
    then have i2: "cp_inv s2" "\<not> s_auth_blocked s2"
      using inv_ram [OF r2] r2 [unfolded ram_fields] s1 keyed(2) by (simp_all add: inv_token)
    show ?thesis
      using change_outcome_spec [OF outcome(5) i2] r2 [unfolded ram_fields] s1 keyed(1,2)
      by (simp add: inv_token)
  qed
qed


text \<open>The permissions a token is issued with never hold the two the device does not support.\<close>

lemma perms_supported:
  assumes "check_token_req q wp = Inr perms"
  shows "perms AND (PUAT_PERM_BE OR PUAT_PERM_LBW) = 0"
proof (cases "wp \<and> q_perms q \<noteq> None")
  case False
  then show ?thesis using assms
    by (auto simp: check_token_req_def PUAT_PERM_MC_def PUAT_PERM_GA_def PUAT_PERM_BE_def PUAT_PERM_LBW_def
        split: if_splits)
next
  case True
  then obtain p where p: "q_perms q = Some p" "wp" by auto
  have z: "p AND ucast (0x18 :: u8) = 0" and e: "perms = ucast (p AND ucast PUAT_PERMS_KNOWN)"
    using assms p by (auto simp: check_token_req_def Let_def PUAT_PERM_BE_def PUAT_PERM_LBW_def
        split: if_splits)
  have "perms AND 0x18 = 0"
  proof (rule bit_word_eqI)
    fix i :: nat assume i: "i < LENGTH(8)"
    have "bit (p AND ucast (0x18 :: u8)) i = False" using z by simp
    then show "bit (perms AND 0x18) i = bit (0 :: u8) i"
      using i by (simp add: e bit_and_iff bit_ucast_iff)
  qed
  then show ?thesis by (simp add: PUAT_PERM_BE_def PUAT_PERM_LBW_def)
qed

lemma token_safe:
  assumes "handle_get_pin_token T K P r n mx wp now s = (resp, s')" and "cp_initted s" and "cp_inv s"
  shows "cp_inv s' \<and> cp_initted s' \<and>
    (s' = s \<or> (\<exists>st att. cp_pin_state T K s = (st, att, s')) \<or>
     (\<exists>att s1. cp_pin_state T K s = (FPIN_SET, att, s1) \<and> \<not> s_auth_blocked s \<and>
       (t_in_use (cp_puat s') \<longrightarrow> cp_puat s' = cp_puat s \<or>
         t_perms (cp_puat s') AND (PUAT_PERM_BE OR PUAT_PERM_LBW) = 0 \<and>
         (\<exists>mat f' c'. fido_pin_verify T K mat (cp_fido s1) (cp_chip s1) = (0, True, f', c')))))"
  using assms(1)
proof (cases rule: token_cases)
  case none
  then show ?thesis using assms by simp
next
  case (read st att)
  note r = cp_pin_ram(1) [OF read]
  show ?thesis using read inv_ram [OF r] r [unfolded ram_fields] assms(2,3) by auto
next
  case (spent st att s1 key phe rc)
  note r = cp_pin_ram(1) [OF spent(1)]
  have i: "cp_inv s1" "cp_initted s1" "cp_puat s1 = cp_puat s" "s_auth_blocked s1 = s_auth_blocked s"
    using inv_ram [OF r] r [unfolded ram_fields] assms(2,3) by simp_all
  show ?thesis using verify_spec(1-3) [OF spent(4) i(1) spent(3)] spent(1,2,3) i by auto
next
  case (issued st att s1 key phe s2 perms rp q)
  note r = cp_pin_ram(1) [OF issued(1)]
  have i: "cp_inv s1" "cp_initted s1" "s_auth_blocked s1 = s_auth_blocked s"
    using inv_ram [OF r] r [unfolded ram_fields] assms(2,3) by simp_all
  note v = verify_spec [OF issued(4) i(1) issued(3)]
  from v(4) obtain mat f' c' where m: "fido_pin_verify T K mat (cp_fido s1) (cp_chip s1) = (0, True, f', c')"
    by blast
  have p: "(perms AND PUAT_PERMS_KNOWN) AND (PUAT_PERM_BE OR PUAT_PERM_LBW) = 0"
    using perms_supported [OF issued(5)] by (metis and.assoc and.commute and_zero_eq)
  from issued(6) have "cp_inv s' \<and> cp_initted s' \<and>
      (t_in_use (cp_puat s') \<longrightarrow> t_perms (cp_puat s') AND (PUAT_PERM_BE OR PUAT_PERM_LBW) = 0)"
  proof (cases rule: issue_cases)
    case (1 c)
    then show ?thesis using v(1,3) i by (simp add: cp_inv_def drop_token_def puat_reset_def)
  next
    case (2 c p)
    then show ?thesis using v(1,3) i by (simp add: cp_inv_def drop_token_def puat_reset_def)
  next
    case (3 c token)
    then show ?thesis using v(1,3) i p
      by (simp add: cp_inv_def drop_token_def puat_begin_def puat_reset_def Let_def split: option.splits)
  qed
  then show ?thesis using issued(1,2,3) i(3) m by blast
qed

lemma command_safe:
  assumes "pin_handle_cbor T K P req mx now s = (resp, s')" and "cp_initted s" and "cp_inv s"
  shows "cp_inv s' \<and> cp_initted s' \<and>
    (s_auth_blocked s \<and> fst (cp_pin_state T K s) \<noteq> FPIN_NOT_SET \<longrightarrow>
      s' = s \<or> s' = snd (snd (cp_pin_state T K s)))"
  using assms(1,2)
proof (cases rule: command_cases)
  case none
  then show ?thesis using assms by simp
next
  case (read st att)
  note r = cp_pin_ram(1) [OF read]
  show ?thesis using read inv_ram [OF r] r [unfolded ram_fields] assms(2,3) by simp
next
  case (setp r n)
  show ?thesis using set_safe [OF setp assms(2,3)] by auto
next
  case (change r n)
  show ?thesis using change_safe [OF change assms(2,3)] by auto
next
  case (token r n wp)
  show ?thesis using token_safe [OF token assms(2,3)] by auto
qed

section \<open>The new PIN\<close>

text \<open>What the 64 bytes of \<open>newPinEnc\<close> stand for: the PIN without its zero padding.\<close>

definition pin_text :: "bytes \<Rightarrow> bytes" where
  "pin_text p = rev (dropWhile (\<lambda>b. b = 0) (rev (take PIN_ENC_BUF_LEN p)))"

lemma unpad_take: "n \<le> length p \<Longrightarrow> take (unpad p n) p = rev (dropWhile (\<lambda>b. b = 0) (rev (take n p)))"
  by (induction n) (simp_all add: take_Suc_conv_app_nth)

lemma unpad_le: "unpad p n \<le> n"
  by (induction n) auto

definition pin_allowed :: "bytes \<Rightarrow> bool" where
  "pin_allowed pin \<longleftrightarrow> PIN_MIN_BYTES \<le> length pin \<and> length pin \<le> PIN_MAX_BYTES"

lemma new_pin_hash_spec:
  assumes "aes_cbc_dec_iv0 P key npe = Some p" and "length p = PIN_ENC_BUF_LEN"
  shows "new_pin_hash K P key npe = (if pin_allowed (pin_text p) then 0 else CTAP2_ERR_PIN_POLICY_VIOLATION,
    sha256 K (pin_text p), length (pin_text p))"
proof -
  have t: "take (unpad p PIN_ENC_BUF_LEN) p = pin_text p"
    using unpad_take [of PIN_ENC_BUF_LEN p] assms(2) by (simp add: pin_text_def)
  moreover have "length (pin_text p) = unpad p PIN_ENC_BUF_LEN"
    using unpad_le [of p PIN_ENC_BUF_LEN] assms(2) by (simp flip: t)
  ultimately show ?thesis by (auto simp: new_pin_hash_def assms(1) Let_def pin_allowed_def)
qed

lemma pin_mac_iff:
  "crypto_ok K \<Longrightarrow> length pa = 16 \<Longrightarrow>
    ct_diff 0 (pin_auth_compute K key m) pa = 0 \<longleftrightarrow> pa = pin_auth_compute K key m"
  by (auto simp: pin_auth_compute_def ct_diff_zero_iff)

text \<open>The outcome of changePin is 0 only if the binding changed, and then it is.\<close>

lemma change_outcome_ok:
  "fst (change_outcome T K P policy (krc, ok, s)) = 0 \<longleftrightarrow> policy = 0 \<and> krc = 0 \<and> ok"
proof -
  obtain st att s1 where 1: "cp_pin_state T K s = (st, att, s1)" by (metis prod_cases3)
  have "fst (pin_mismatch_status T K P s) \<noteq> 0"
    by (auto simp: pin_mismatch_status_def 1 Let_def pin_errs split: if_splits)
  then show ?thesis by (auto simp: change_outcome_def pin_errs split: prod.splits if_splits)
qed

text \<open>A platform and a device for the witnesses: AES that copies, keys that are their own points.\<close>

definition demo_pin_crypto :: pin_crypto where
  "demo_pin_crypto = \<lparr>ecdsa_get_public_key65 = (\<lambda>k. Some (4 # k @ k)),
     ecdh_multiply = (\<lambda>k p. Some p), aes_cbc_dec_iv0 = (\<lambda>_ x. Some x), aes_cbc_enc_iv0 = (\<lambda>_ x. Some x)\<rparr>"

definition demo_locked :: "mock cp" where
  "demo_locked = (cp_start (puat_begin [1] 3 None 0 demo_puat) fido_start demo_mock)
     \<lparr>cp_initted := True, s_consec_fails := 3, s_auth_blocked := True\<rparr>"

definition demo_padded :: bytes where
  "demo_padded = [49, 50, 51, 52, 53] @ replicate 59 0"

lemma demo_locked_state: "cp_pin_state demo_chip demo_crypto demo_locked = (FPIN_ERROR, 0, demo_locked)"
  by (simp add: cp_pin_state_def demo_locked_def cp_start_def fido_pin_state_def fido_start_def
      slots_pin_bound_def slots_usable_def slots_start_def)

lemma demo_locked_ok: "cp_initted demo_locked" "cp_inv demo_locked" "s_auth_blocked demo_locked"
  "t_in_use (cp_puat demo_locked)"
  by (simp_all add: demo_locked_def cp_start_def cp_inv_def PIN_AUTH_BLOCKED_CONSEC_def puat_begin_def Let_def)

lemma demo_locked_stays: "snd (pin_handle_cbor demo_chip demo_crypto P req mx now demo_locked) = demo_locked"
  using command_safe [OF prod.collapse [symmetric] demo_locked_ok(1,2)] demo_locked_ok(3) demo_locked_state
  by (metis fido_pin_state.distinct(5) fst_conv snd_conv)

lemma demo_text: "pin_text demo_padded = [49, 50, 51, 52, 53]" "length demo_padded = PIN_ENC_BUF_LEN"
proof -
  have "dropWhile (\<lambda>b. b = 0) (rev demo_padded) = [53, 52, 51, 50, 49 :: u8]"
    unfolding demo_padded_def rev_append rev_replicate by (subst dropWhile_append2) auto
  moreover have "take PIN_ENC_BUF_LEN demo_padded = demo_padded"
    by (simp add: demo_padded_def PIN_ENC_BUF_LEN_def)
  ultimately show "pin_text demo_padded = [49, 50, 51, 52, 53]" by (simp add: pin_text_def)
  show "length demo_padded = PIN_ENC_BUF_LEN" by (simp add: demo_padded_def PIN_ENC_BUF_LEN_def)
qed

lemma demo_mac_length: "length (pin_auth_compute demo_crypto k m) = 16"
  by (simp add: pin_auth_compute_def)

section \<open>Properties\<close>






text \<open>
  setPin succeeds exactly if the platform's MAC covers the new PIN, the decrypted PIN has
  4 to 63 bytes without its padding and the PIN object takes the first half of its hash and
  its length.
\<close>

theorem set_pin_exact:
  assumes "crypto_ok K" and "length pin_auth = 16" and "aes_cbc_dec_iv0 P key new_pin_enc = Some p"
    and "length p = PIN_ENC_BUF_LEN"
  shows "fst (set_pin_with_key T K P key pin_auth new_pin_enc s) = 0 \<longleftrightarrow>
    pin_auth = pin_auth_compute K key new_pin_enc \<and> pin_allowed (pin_text p) \<and>
    fst (fido_pin_set T K (take 16 (sha256 K (pin_text p))) (length (pin_text p)) (cp_fido s) (cp_chip s)) = 0"
  by (auto simp: set_pin_with_key_def new_pin_hash_spec [OF assms(3,4)] pin_mac_iff [OF assms(1,2)]
      cp_pin_set_def drop_token_def pin_errs PIN_MD_MATERIAL_LEN_def split: prod.splits)

theorem set_pin_exact_witness:
  "fst (set_pin_with_key demo_chip demo_crypto demo_pin_crypto [1]
       (pin_auth_compute demo_crypto [1] demo_padded) demo_padded demo_locked) = 0 \<longleftrightarrow>
     fst (fido_pin_set demo_chip demo_crypto (replicate 16 255) (length [49, 50, 51, 52, 53 :: u8]) fido_start demo_mock) = 0"
  using set_pin_exact [OF crypto_ok_demo demo_mac_length [of "[1]" demo_padded], of demo_pin_crypto "[1]"
      demo_padded demo_padded demo_chip demo_locked]
  by (simp add: demo_text demo_pin_crypto_def pin_allowed_def PIN_MIN_BYTES_def PIN_MAX_BYTES_def
      demo_crypto_def demo_locked_def cp_start_def)


text \<open>
  changePin succeeds exactly if the platform's MAC covers the new PIN and the old PIN's
  hash, the new PIN has 4 to 63 bytes and the PIN object accepts the old hash and changes to
  the new one with its length.
\<close>

theorem change_pin_exact:
  assumes "crypto_ok K" and "length pin_auth = 16" and "aes_cbc_dec_iv0 P key new_pin_enc = Some p"
    and "length p = PIN_ENC_BUF_LEN" and "aes_cbc_dec_iv0 P key pin_hash_enc = Some old"
  shows "fst (change_pin_with_key T K P key pin_auth new_pin_enc pin_hash_enc s) = 0 \<longleftrightarrow>
    pin_auth = pin_auth_compute K key (new_pin_enc @ pin_hash_enc) \<and> pin_allowed (pin_text p) \<and>
    (\<exists>f c. fido_pin_change T K old (take 16 (sha256 K (pin_text p))) (length (pin_text p))
       (cp_fido s) (cp_chip s) = (0, True, f, c))"
proof -
  let ?pol = "if pin_allowed (pin_text p) then 0 else CTAP2_ERR_PIN_POLICY_VIOLATION"
  obtain krc ok f c where ch: "fido_pin_change T K old (take 16 (sha256 K (pin_text p))) (length (pin_text p))
      (cp_fido s) (cp_chip s) = (krc, ok, f, c)" by (metis prod_cases4)
  obtain x where x: "cp_pin_change T K old (take PIN_MD_MATERIAL_LEN (sha256 K (pin_text p)))
      (length (pin_text p)) (drop_token s) = (krc, ok, x)"
    by (simp add: cp_pin_change_def drop_token_def PIN_MD_MATERIAL_LEN_def ch)
  obtain krc2 ok2 y where v: "cp_pin_verify T K old (drop_token s) = (krc2, ok2, y)" by (metis prod_cases3)
  show ?thesis
  proof (cases "pin_auth = pin_auth_compute K key (new_pin_enc @ pin_hash_enc)")
    case False
    then show ?thesis using assms(1,2) by (simp add: change_pin_with_key_def pin_mac_iff pin_errs)
  next
    case True
    have "change_pin_with_key T K P key pin_auth new_pin_enc pin_hash_enc s =
        change_outcome T K P ?pol (if pin_allowed (pin_text p) then (krc, ok, x) else (krc2, ok2, y))"
      using True assms(1,2) by (simp add: change_pin_with_key_def pin_mac_iff assms(5)
          new_pin_hash_spec [OF assms(3,4)] x v pin_errs)
    then show ?thesis using True ch by (simp add: change_outcome_ok pin_errs)
  qed
qed

theorem change_pin_exact_witness:
  "fst (change_pin_with_key demo_chip demo_crypto demo_pin_crypto [1]
       (pin_auth_compute demo_crypto [1] (demo_padded @ replicate 16 2)) demo_padded (replicate 16 2) demo_locked) = 0 \<longleftrightarrow>
     (\<exists>f c. fido_pin_change demo_chip demo_crypto (replicate 16 2) (replicate 16 255)
        (length [49, 50, 51, 52, 53 :: u8]) fido_start demo_mock = (0, True, f, c))"
  using change_pin_exact [OF crypto_ok_demo demo_mac_length [of "[1]" "demo_padded @ replicate 16 2"],
      of demo_pin_crypto "[1]" demo_padded demo_padded "replicate 16 2" "replicate 16 2" demo_chip demo_locked]
  by (simp add: demo_text demo_pin_crypto_def pin_allowed_def PIN_MIN_BYTES_def PIN_MAX_BYTES_def
      demo_crypto_def demo_locked_def cp_start_def)

end
