(* ===== verification/Credstore.thy ===== *)
theory Credstore
  imports Fido_State Cose
begin

text \<open>
  The credential store, \<^verbatim>\<open>firmware/src/fido_hid/credstore.c\<close>: keys in the chip's ECC slots, their
  metadata through the slot manager, and the signature counter.  The lemmas show that the
  store keeps the slot manager's invariant, that a registration that fails publishes
  nothing, that a credential is only found for its own RP, and that no signature counter
  value is handed out twice.
\<close>

section \<open>State\<close>

record cred =
  cs_fido :: fido
  cs_initted :: bool
  s_credstore_mutating :: bool

definition cred_start :: cred where
  "cred_start = \<lparr>cs_fido = fido_start, cs_initted = False, s_credstore_mutating = False\<rparr>"

abbreviation cs_slots :: "cred \<Rightarrow> slot_mgr" where
  "cs_slots s \<equiv> f_slots (cs_fido s)"

definition set_slots :: "slot_mgr \<Rightarrow> cred \<Rightarrow> cred" where
  "set_slots m s = s\<lparr>cs_fido := (cs_fido s)\<lparr>f_slots := m\<rparr>\<rparr>"

definition CREDSTORE_CURVE_ED25519 :: nat where "CREDSTORE_CURVE_ED25519 = 0"
definition CREDSTORE_CURVE_P256 :: nat where "CREDSTORE_CURVE_P256 = 1"
definition CREDSTORE_PUBKEY_MAX :: nat where "CREDSTORE_PUBKEY_MAX = 64"
definition CREDSTORE_SIG_MAX :: nat where "CREDSTORE_SIG_MAX = 72"
definition SLOTS_ALG_ED25519 :: u8 where "SLOTS_ALG_ED25519 = 8"
definition SLOTS_ALG_ES256 :: u8 where "SLOTS_ALG_ES256 = 7"

definition pubkey_len :: "u8 \<Rightarrow> nat" where
  "pubkey_len al = (if al = SLOTS_ALG_ED25519 then 32 else if al = SLOTS_ALG_ES256 then 64 else 0)"

section \<open>Operations\<close>

definition credstore_init :: "'c tropic \<Rightarrow> crypto \<Rightarrow> cred \<Rightarrow> 'c \<Rightarrow> int \<times> cred \<times> 'c" where
  "credstore_init T K s c =
     (if cs_initted s then (0, s, c)
      else case fido_state_boot T K (cs_fido s) c of (rc, f, c1) \<Rightarrow>
        if rc \<noteq> 0 then (- 1, s\<lparr>cs_fido := f\<rparr>, c1)
        else (0, s\<lparr>cs_fido := f, cs_initted := True\<rparr>, c1))"

text \<open>The key generated in a free slot and read back: \<open>None\<close> if any of the three calls failed.\<close>

definition gen_key :: "'c tropic \<Rightarrow> nat \<Rightarrow> nat \<Rightarrow> nat \<Rightarrow> 'c \<Rightarrow> bytes option \<times> 'c" where
  "gen_key T slot curve want c =
     (case tropic_ecc_erase T slot c of (rc, c1) \<Rightarrow>
      if rc \<noteq> 0 then (None, c1)
      else case tropic_ecc_generate T slot curve c1 of (rc2, c2) \<Rightarrow>
      if rc2 \<noteq> 0 then (None, c2)
      else case tropic_ecc_pubkey_read T slot CREDSTORE_PUBKEY_MAX c2 of
        (Inl _, c3) \<Rightarrow> (None, c3)
      | (Inr pk, c3) \<Rightarrow> (if length pk = want then Some pk else None, c3))"

text \<open>From the allocation on: what \<open>credstore_make\<close> does with a key in \<open>slot_idx\<close>.\<close>

definition publish_key ::
  "'c tropic \<Rightarrow> crypto \<Rightarrow> bytes \<Rightarrow> u8 \<Rightarrow> u8 \<Rightarrow> bytes \<Rightarrow> u32 \<Rightarrow> u32 \<Rightarrow> nat \<Rightarrow> bytes \<Rightarrow> cred \<Rightarrow> 'c
     \<Rightarrow> (int + bytes \<times> bytes \<times> nat) \<times> cred \<times> 'c" where
  "publish_key T K rp al fl uh cr replace_mask slot_idx pk s c =
     (case slots_alloc T K rp al fl uh cr replace_mask (cs_slots s) c of
        (Inl rc, m, c1) \<Rightarrow>
          let s1 = (set_slots m s)\<lparr>s_credstore_mutating := False\<rparr>
          in if rc = - 3 then (Inl (- 2), s1, c1)
             else case tropic_ecc_erase T slot_idx c1 of (_, c2) \<Rightarrow> (Inl (if rc = - 1 then - 1 else - 2), s1, c2)
      | (Inr (got_idx, cred_id), m, c1) \<Rightarrow>
          if got_idx \<noteq> slot_idx then
            (case tropic_ecc_erase T slot_idx c1 of (_, c2) \<Rightarrow>
             case slots_erase T K (int got_idx) m c2 of (_, m2, c3) \<Rightarrow>
               (Inl (- 2), (set_slots m2 s)\<lparr>s_credstore_mutating := False\<rparr>, c3))
          else (Inr (pk, cred_id, slot_idx), (set_slots m s)\<lparr>s_credstore_mutating := False\<rparr>, c1))"

definition credstore_make ::
  "'c tropic \<Rightarrow> crypto \<Rightarrow> bytes \<Rightarrow> u8 \<Rightarrow> u8 \<Rightarrow> bytes \<Rightarrow> u32 \<Rightarrow> u32 \<Rightarrow> cred \<Rightarrow> 'c
     \<Rightarrow> (int + bytes \<times> bytes \<times> nat) \<times> cred \<times> 'c" where
  "credstore_make T K rp al fl uh cr replace_mask s c =
     (let want = pubkey_len al in
      if want = 0 then (Inl (- 2), s, c)
      else let curve = (if al = SLOTS_ALG_ES256 then CREDSTORE_CURVE_P256 else CREDSTORE_CURVE_ED25519) in
      if \<not> slots_usable (cs_slots s) then (Inl (- 2), s, c)
      else case (if cs_initted s then (0, s, c) else credstore_init T K s c) of (rc, s1, c1) \<Rightarrow>
      if rc \<noteq> 0 then (Inl (- 2), s1, c1)
      else let s2 = s1\<lparr>s_credstore_mutating := True\<rparr> in
      case free_slot (slots_bitmap (cs_slots s2)) of
        None \<Rightarrow> (Inl (- 1), s2\<lparr>s_credstore_mutating := False\<rparr>, c1)
      | Some slot_idx \<Rightarrow>
          (case gen_key T slot_idx curve want c1 of
             (None, c2) \<Rightarrow>
               (case tropic_ecc_erase T slot_idx c2 of (_, c3) \<Rightarrow>
                  (Inl (- 2), s2\<lparr>s_credstore_mutating := False\<rparr>, c3))
           | (Some pk, c2) \<Rightarrow>
               publish_key T K rp al fl uh cr replace_mask slot_idx pk s2 c2))"

definition credstore_get_pubkey :: "'c tropic \<Rightarrow> int \<Rightarrow> u8 \<Rightarrow> 'c \<Rightarrow> bytes option \<times> 'c" where
  "credstore_get_pubkey T slot_idx al c =
     (let want = pubkey_len al in
      if want = 0 \<or> slot_idx < 0 \<or> slot_idx \<ge> int FIDO_SLOTS_MAX then (None, c)
      else case tropic_ecc_pubkey_read T (nat slot_idx) CREDSTORE_PUBKEY_MAX c of
        (Inl _, c1) \<Rightarrow> (None, c1)
      | (Inr pk, c1) \<Rightarrow> (if length pk = want then Some pk else None, c1))"

definition credstore_erase_slot :: "'c tropic \<Rightarrow> crypto \<Rightarrow> int \<Rightarrow> cred \<Rightarrow> 'c \<Rightarrow> int \<times> cred \<times> 'c" where
  "credstore_erase_slot T K slot_idx s c =
     (if slot_idx < 0 \<or> slot_idx \<ge> int FIDO_SLOTS_MAX then (- 1, s, c)
      else if \<not> slots_usable (cs_slots s) then (- 2, s, c)
      else let s1 = s\<lparr>s_credstore_mutating := True\<rparr> in
      case tropic_ecc_erase T (nat slot_idx) c of (rc, c1) \<Rightarrow>
      if rc \<noteq> 0 then (- 2, s1\<lparr>s_credstore_mutating := False\<rparr>, c1)
      else case slots_erase T K slot_idx (cs_slots s1) c1 of (rc2, m, c2) \<Rightarrow>
        (if rc2 = 0 then 0 else - 2, (set_slots m s1)\<lparr>s_credstore_mutating := False\<rparr>, c2))"

definition credstore_is_mutating :: "cred \<Rightarrow> bool" where
  "credstore_is_mutating s = s_credstore_mutating s"

definition credstore_lookup :: "'c tropic \<Rightarrow> crypto \<Rightarrow> bytes \<Rightarrow> cred \<Rightarrow> 'c \<Rightarrow> nat option \<times> cred \<times> 'c" where
  "credstore_lookup T K cid s c =
     (case (if cs_initted s then (0, s, c) else credstore_init T K s c) of (rc, s1, c1) \<Rightarrow>
      if rc \<noteq> 0 then (None, s1, c1)
      else case slots_lookup_by_credid T cid (cs_slots s1) c1 of
        (None, c2) \<Rightarrow> (None, s1, c2)
      | (Some (i, _), c2) \<Rightarrow> (Some i, s1, c2))"

definition credstore_find ::
  "'c tropic \<Rightarrow> crypto \<Rightarrow> bytes \<Rightarrow> bytes \<Rightarrow> cred \<Rightarrow> 'c \<Rightarrow> (nat \<times> slot_meta) option \<times> cred \<times> 'c" where
  "credstore_find T K cid rp s c =
     (case (if cs_initted s then (0, s, c) else credstore_init T K s c) of (rc, s1, c1) \<Rightarrow>
      if rc \<noteq> 0 then (None, s1, c1)
      else case slots_lookup_by_credid T cid (cs_slots s1) c1 of
        (None, c2) \<Rightarrow> (None, s1, c2)
      | (Some (i, m), c2) \<Rightarrow> (if rp_id_hash m \<noteq> rp then None else Some (i, m), s1, c2))"

definition credstore_sign :: "'c tropic \<Rightarrow> int \<Rightarrow> u8 \<Rightarrow> bytes \<Rightarrow> 'c \<Rightarrow> (int + bytes) \<times> 'c" where
  "credstore_sign T h al msg c =
     (if h < 0 \<or> h \<ge> int FIDO_SLOTS_MAX then (Inl (- 1), c)
      else if al = SLOTS_ALG_ED25519 then
        (case tropic_ecc_eddsa_sign T (nat h) msg c of
           (Inl _, c1) \<Rightarrow> (Inl (- 2), c1)
         | (Inr sig, c1) \<Rightarrow> (if length sig = 64 then Inr sig else Inl (- 2), c1))
      else if al = SLOTS_ALG_ES256 then
        (case tropic_ecc_ecdsa_sign T (nat h) msg c of
           (Inl _, c1) \<Rightarrow> (Inl (- 2), c1)
         | (Inr rs, c1) \<Rightarrow>
             (if length rs \<noteq> 64 then Inl (- 2)
              else case cose_es256_der rs CREDSTORE_SIG_MAX of None \<Rightarrow> Inl (- 2) | Some der \<Rightarrow> Inr der, c1))
      else (Inl (- 1), c))"

definition read_signcount :: "'c tropic \<Rightarrow> 'c \<Rightarrow> (int + u32) \<times> 'c" where
  "read_signcount T c =
     (case tropic_mcounter_get T FIDO_SIGNCOUNT_MCOUNTER c of
        (Inl _, c1) \<Rightarrow> (Inl (- 2), c1)
      | (Inr v, c1) \<Rightarrow> (if v > FIDO_MCOUNTER_MAX then Inl (- 2) else Inr (FIDO_MCOUNTER_MAX - v), c1))"

definition credstore_signcount_peek :: "'c tropic \<Rightarrow> crypto \<Rightarrow> cred \<Rightarrow> 'c \<Rightarrow> (int + u32) \<times> cred \<times> 'c" where
  "credstore_signcount_peek T K s c =
     (case (if cs_initted s then (0, s, c) else credstore_init T K s c) of (rc, s1, c1) \<Rightarrow>
      if rc \<noteq> 0 then (Inl (- 2), s1, c1)
      else case read_signcount T c1 of (r, c2) \<Rightarrow> (r, s1, c2))"

definition credstore_signcount_next :: "'c tropic \<Rightarrow> crypto \<Rightarrow> cred \<Rightarrow> 'c \<Rightarrow> (int + u32) \<times> cred \<times> 'c" where
  "credstore_signcount_next T K s c =
     (case (if cs_initted s then (0, s, c) else credstore_init T K s c) of (rc, s1, c1) \<Rightarrow>
      if rc \<noteq> 0 then (Inl (- 2), s1, c1)
      else case tropic_mcounter_update T FIDO_SIGNCOUNT_MCOUNTER c1 of (rc2, c2) \<Rightarrow>
      if rc2 \<noteq> 0 then (Inl (- 2), s1, c2)
      else case read_signcount T c2 of (r, c3) \<Rightarrow> (r, s1, c3))"

definition credstore_factory_reset :: "'c tropic \<Rightarrow> crypto \<Rightarrow> cred \<Rightarrow> 'c \<Rightarrow> int \<times> cred \<times> 'c" where
  "credstore_factory_reset T K s c =
     (case fido_state_wipe T K (cs_fido s) c of (rc, f, c1) \<Rightarrow>
      let s1 = s\<lparr>cs_initted := False, cs_fido := f\<rparr>
      in if rc \<noteq> 0 then (- 1, s1, c1) else (0, s1\<lparr>cs_initted := True\<rparr>, c1))"

definition credstore_ready :: "cred \<Rightarrow> bool" where
  "credstore_ready s \<longleftrightarrow> cs_initted s \<and> slots_usable (cs_slots s) \<and> fido_pin_usable (cs_fido s)"

section \<open>What the slot manager cannot change\<close>

text \<open>
  \<open>obs\<close> is any view of the chip that only the key and counter operations change: the keys
  themselves, or a monotonic counter.
\<close>

locale observed_chip = framed_chip T inv view
  for T :: "'c tropic" and inv :: "'c \<Rightarrow> bool" and view :: "'c \<Rightarrow> nat \<Rightarrow> bytes" +
  fixes obs :: "'c \<Rightarrow> 'o"
  assumes obs_read: "inv c \<Longrightarrow> tropic_rmem_read T i n c = (r, c') \<Longrightarrow> obs c' = obs c"
    and obs_write: "inv c \<Longrightarrow> tropic_rmem_write T i d c = (rc, c') \<Longrightarrow> obs c' = obs c"
    and obs_erase: "inv c \<Longrightarrow> tropic_rmem_erase T i c = (rc, c') \<Longrightarrow> obs c' = obs c"
    and obs_md: "inv c \<Longrightarrow> tropic_mac_and_destroy T i d c = (r, c') \<Longrightarrow> obs c' = obs c"
    and obs_random: "inv c \<Longrightarrow> tropic_random T n c = (r, c') \<Longrightarrow> obs c' = obs c"
    and obs_session: "inv c \<Longrightarrow> tropic_l3_session_ensure T c = (rc, c') \<Longrightarrow> obs c' = obs c"
    and obs_pub: "inv c \<Longrightarrow> tropic_ecc_pubkey_read T i n c = (r, c') \<Longrightarrow> obs c' = obs c"
    and obs_eddsa: "inv c \<Longrightarrow> tropic_ecc_eddsa_sign T i d c = (r, c') \<Longrightarrow> obs c' = obs c"
    and obs_ecdsa: "inv c \<Longrightarrow> tropic_ecc_ecdsa_sign T i d c = (r, c') \<Longrightarrow> obs c' = obs c"
    and obs_get: "inv c \<Longrightarrow> tropic_mcounter_get T i c = (r2, c') \<Longrightarrow> obs c' = obs c"

text \<open>
  The chip with the key and counter operations disabled: the slot manager never calls
  them, so it does on this chip exactly what it does on the real one.
\<close>

definition frozen :: "'c tropic \<Rightarrow> 'c tropic" where
  "frozen T = T\<lparr>tropic_ecc_generate := \<lambda>_ _ c. (- 1, c), tropic_ecc_erase := \<lambda>_ c. (- 1, c),
     tropic_ecc_pubkey_read := \<lambda>_ _ c. (Inl (- 1), c),
     tropic_mcounter_init := \<lambda>_ _ c. (- 1, c), tropic_mcounter_update := \<lambda>_ c. (- 1, c)\<rparr>"

lemma frozen_sel [simp]:
  "tropic_l3_session_ensure (frozen T) = tropic_l3_session_ensure T"
  "tropic_rmem_read (frozen T) = tropic_rmem_read T" "tropic_rmem_write (frozen T) = tropic_rmem_write T"
  "tropic_rmem_erase (frozen T) = tropic_rmem_erase T"
  "tropic_mac_and_destroy (frozen T) = tropic_mac_and_destroy T" "tropic_random (frozen T) = tropic_random T"
  "tropic_ecc_pubkey_read (frozen T) i n c = (Inl (- 1), c)"
  "tropic_ecc_eddsa_sign (frozen T) = tropic_ecc_eddsa_sign T"
  "tropic_ecc_ecdsa_sign (frozen T) = tropic_ecc_ecdsa_sign T"
  "tropic_mcounter_get (frozen T) = tropic_mcounter_get T"
  "tropic_ecc_generate (frozen T) i n c = (- 1, c)" "tropic_ecc_erase (frozen T) i c = (- 1, c)"
  "tropic_mcounter_init (frozen T) i w c = (- 1, c)" "tropic_mcounter_update (frozen T) i c = (- 1, c)"
  by (simp_all add: frozen_def)

lemma frozen_rec:
  "read_copy (frozen T) = read_copy T" "commit_copy (frozen T) = commit_copy T"
  unfolding read_copy_def [abs_def] commit_copy_def [abs_def] frozen_sel by (rule refl)+

lemma frozen_write: "rec_pair_write (frozen T) = rec_pair_write T"
  unfolding rec_pair_write_def [abs_def] rec_pair_read_def [abs_def] commit_both_def [abs_def] frozen_rec
  by (rule refl)

lemma frozen_global: "write_global (frozen T) = write_global T"
  unfolding write_global_def [abs_def] frozen_write by (rule refl)

lemma frozen_cred: "read_cred (frozen T) = read_cred T" "write_cred (frozen T) = write_cred T"
  unfolding read_cred_def [abs_def] write_cred_def [abs_def] frozen_sel by (rule refl)+

lemma frozen_slots:
  "slots_alloc (frozen T) = slots_alloc T" "slots_erase (frozen T) = slots_erase T"
  "slots_lookup_by_credid (frozen T) = slots_lookup_by_credid T"
  unfolding slots_alloc_def [abs_def] slots_erase_def [abs_def] slots_lookup_by_credid_def [abs_def]
    frozen_global frozen_cred frozen_sel by (rule refl)+

context observed_chip
begin

lemma frozen_framed: "framed_chip (frozen T) (\<lambda>c. inv c \<and> obs c = x) view"
  by (unfold_locales; (simp only: frozen_sel prod.inject)?; (elim conjE)?; hypsubst?; (intro conjI)?;
     (assumption | rule refl | erule (1) read_inv read_frame read_data read_empty write_inv erase_inv
      md_inv md_frame random_inv random_frame session_inv session_frame random_length
      obs_read obs_write obs_erase obs_md obs_random obs_session obs_pub obs_eddsa obs_ecdsa obs_get
      eddsa_rest [THEN conjunct1] ecdsa_rest [THEN conjunct1]
      mc_get_rest [THEN conjunct1] eddsa_rest [THEN conjunct2]
      ecdsa_rest [THEN conjunct2] mc_get_rest [THEN conjunct2]
      | erule (2) write_frame erase_frame)+)

lemma frozen_ok:
  assumes "slots_ok T K inv view s c"
  shows "slots_ok (frozen T) K (\<lambda>c'. inv c' \<and> obs c' = obs c) view s c"
proof -
  have "rmem_chip (frozen T) (\<lambda>c'. inv c' \<and> obs c' = obs c) view"
    using frozen_framed by (rule framed_chip.axioms(1))
  then show ?thesis using assms by (simp add: slots_ok_def pair_ok_def)
qed

lemma alloc_obs:
  assumes "slots_ok T K inv view m c" and "slots_alloc T K rp al fl uh cr rm m c = (r, m', c')"
  shows "obs c' = obs c"
  using framed_chip.slots_alloc_ok(1) [OF frozen_framed frozen_ok [OF assms(1)]] assms(2)
    framed_chip.ok_inv [OF frozen_framed] by (metis frozen_slots(1))

lemma erase_obs:
  assumes "slots_ok T K inv view m c" and "slots_erase T K i m c = (r, m', c')"
  shows "obs c' = obs c"
  using framed_chip.slots_erase_ok(1) [OF frozen_framed frozen_ok [OF assms(1)]] assms(2)
    framed_chip.ok_inv [OF frozen_framed] by (metis frozen_slots(2))

lemma lookup_obs:
  assumes "inv c" and "slots_lookup_by_credid T cid m c = (r, c')"
  shows "obs c' = obs c"
  using framed_chip.lookup_frame [OF frozen_framed, of c "obs c" cid m r c'] assms
  by (simp add: frozen_slots)

text \<open>
  A registration only erases and generates in the slot it picked; \<open>Q\<close> is whatever those
  two operations on that slot are allowed to do to \<open>obs\<close>.
\<close>

lemma slots_alloc_fail:
  "slots_alloc T K rp al fl uh cr rm m c = (Inl e, m', c') \<Longrightarrow> s_bitmap m' = s_bitmap m"
  by (auto simp: slots_alloc_def write_global_def Let_def split: if_splits option.splits sum.splits prod.splits)

lemma slots_alloc_id:
  assumes "inv c" and "slots_alloc T K rp al fl uh cr rm m c = (Inr (i, cid), m', c')"
  shows "\<exists>nonce. length nonce = 16 \<and> cid = make_cred_id i nonce"
proof -
  obtain x c1 where x: "tropic_random T SLOTS_CRED_ID_NONCE_LEN c = (x, c1)" by fastforce
  have "x = Inr nonce \<Longrightarrow> length nonce = 16" for nonce
    using random_length [OF assms(1)] x by (auto simp: slot_consts)
  then show ?thesis
    using assms(2) x by (auto simp: slots_alloc_def Let_def split: if_splits option.splits sum.splits prod.splits)
qed

definition slot_ops :: "nat \<Rightarrow> ('o \<Rightarrow> 'o \<Rightarrow> bool) \<Rightarrow> bool" where
  "slot_ops i Q \<longleftrightarrow> reflp Q \<and> transp Q \<and> (\<forall>c rc c'. inv c \<longrightarrow> tropic_ecc_erase T i c = (rc, c') \<longrightarrow> Q (obs c) (obs c'))
     \<and> (\<forall>n c rc c'. inv c \<longrightarrow> tropic_ecc_generate T i n c = (rc, c') \<longrightarrow> Q (obs c) (obs c'))"

lemma slot_opsD:
  assumes "slot_ops i Q"
  shows "Q x x" and "Q x y \<Longrightarrow> Q y z \<Longrightarrow> Q x z"
    and "inv c \<Longrightarrow> tropic_ecc_erase T i c = (rc, c') \<Longrightarrow> Q (obs c) (obs c')"
    and "inv c \<Longrightarrow> tropic_ecc_generate T i n c = (rc, c') \<Longrightarrow> Q (obs c) (obs c')"
  using assms unfolding slot_ops_def by (auto dest: reflpD transpD)

lemma gen_key_spec:
  assumes "inv c" and "slot_ops i Q" and "gen_key T i curve want c = (r, c')"
  shows "inv c'" and "view c' = view c" and "Q (obs c) (obs c')"
    and "r = Some pk \<Longrightarrow> length pk = want \<and>
      (\<exists>c2. inv c2 \<and> tropic_ecc_pubkey_read T i CREDSTORE_PUBKEY_MAX c2 = (Inr pk, c'))"
proof -
  note Q = slot_opsD [OF assms(2)]
  obtain rc1 c1 where 1: "tropic_ecc_erase T i c = (rc1, c1)" by fastforce
  note e = ecc_erase_rest [OF assms(1) 1] Q(3) [OF assms(1) 1]
  obtain rc2 c2 where 2: "tropic_ecc_generate T i curve c1 = (rc2, c2)" by fastforce
  have g: "inv c2 \<and> view c2 = view c1" "Q (obs c1) (obs c2)"
    using ecc_gen_rest [OF _ 2] Q(4) [OF _ 2] e(1) by blast+
  obtain rk c3 where 3: "tropic_ecc_pubkey_read T i CREDSTORE_PUBKEY_MAX c2 = (rk, c3)" by fastforce
  have p: "inv c3 \<and> view c3 = view c2" "obs c3 = obs c2"
    using ecc_pub_rest [OF _ 3] obs_pub [OF _ 3] g(1) by blast+
  have c': "c' = (if rc1 \<noteq> 0 then c1 else if rc2 \<noteq> 0 then c2 else c3)"
    using assms(3) by (auto simp: gen_key_def 1 2 3 split: if_splits sum.splits)
  show "inv c'" "view c' = view c" using e g p unfolding c' by auto
  show "Q (obs c) (obs c')" using e(2) g(2) p(2) Q(1,2) unfolding c' by auto
  show "r = Some pk \<Longrightarrow> length pk = want \<and>
      (\<exists>c2. inv c2 \<and> tropic_ecc_pubkey_read T i CREDSTORE_PUBKEY_MAX c2 = (Inr pk, c'))"
    using assms(3) g(1) 3 by (auto simp: gen_key_def 1 2 split: if_splits sum.splits)
qed

abbreviation "fok K \<equiv> fido_ok T K inv view"

lemma fok_slots: "fok K f c \<Longrightarrow> slots_ok T K inv view (f_slots f) c"
  by (simp add: fido_ok_def)

lemma fok_inv: "fok K f c \<Longrightarrow> inv c"
  using fok_slots ok_inv by blast

lemma fok_frame: "fok K f c \<Longrightarrow> inv c' \<Longrightarrow> view c' = view c \<Longrightarrow> fok K f c'"
  using ok_frame [of K "f_slots f" c c'] by (simp add: fido_ok_def)

lemma fok_set: "fok K (cs_fido s) c \<Longrightarrow> slots_ok T K inv view m c' \<Longrightarrow> fok K (cs_fido (set_slots m s)) c'"
  by (simp add: fido_ok_def set_slots_def)

lemma publish_spec:
  assumes "fok K (cs_fido s) c" and "slot_ops i Q" and "free_slot (s_bitmap (cs_slots s)) = Some i"
    and "publish_key T K rp al fl uh cr rm i pk s c = (r, s', c')"
  shows "fok K (cs_fido s') c'" and "Q (obs c) (obs c')" and "cs_initted s' = cs_initted s"
    and "\<not> s_credstore_mutating s'"
    and "r = Inl e \<Longrightarrow> s_bitmap (cs_slots s') = s_bitmap (cs_slots s)"
    and "r = Inr x \<Longrightarrow> \<exists>nonce. length nonce = 16 \<and> x = (pk, make_cred_id i nonce, i) \<and> slots_usable (cs_slots s') \<and>
      s_bitmap (cs_slots s') = new_bitmap (s_bitmap (cs_slots s)) i rm \<and> obs c' = obs c"
proof -
  note Q = slot_opsD [OF assms(2)]
  have ok: "slots_ok T K inv view (cs_slots s) c" by (rule fok_slots [OF assms(1)])
  obtain ra m c1 where a: "slots_alloc T K rp al fl uh cr rm (cs_slots s) c = (ra, m, c1)"
    by (metis prod_cases3)
  note sa = slots_alloc_ok [OF ok a]
  have f1: "fok K (cs_fido (set_slots m s)) c1" by (rule fok_set [OF assms(1) sa(1)])
  have o1: "obs c1 = obs c" by (rule alloc_obs [OF ok a])
  obtain rce c2 where e: "tropic_ecc_erase T i c1 = (rce, c2)" by fastforce
  have i1: "inv c1" by (rule ok_inv [OF sa(1)])
  note er = ecc_erase_rest [OF i1 e] Q(3) [OF i1 e]
  have f2: "fok K (cs_fido (set_slots m s)) c2" using fok_frame [OF f1] er by blast
  have *: "fok K (cs_fido s') c' \<and> Q (obs c) (obs c') \<and> cs_initted s' = cs_initted s \<and> \<not> s_credstore_mutating s' \<and>
    (r = Inl e \<longrightarrow> s_bitmap (cs_slots s') = s_bitmap (cs_slots s)) \<and>
    (r = Inr x \<longrightarrow> (\<exists>nonce. length nonce = 16 \<and> x = (pk, make_cred_id i nonce, i) \<and> slots_usable (cs_slots s') \<and>
      s_bitmap (cs_slots s') = new_bitmap (s_bitmap (cs_slots s)) i rm \<and> obs c' = obs c))" for e
  proof (cases ra)
    case (Inl rc)
    then show ?thesis
      using assms(4) slots_alloc_fail [OF a [unfolded Inl]] f1 f2 er o1 Q(1)
      by (auto simp: publish_key_def a e Let_def set_slots_def split: if_splits)
  next
    case (Inr y)
    obtain g cid where y: "y = (g, cid)" by fastforce
    have gi: "g = i" "slots_usable m" "s_bitmap m = new_bitmap (s_bitmap (cs_slots s)) i rm"
      using sa(4) [of g cid] Inr y assms(3) by auto
    obtain nonce where n: "length nonce = 16" "cid = make_cred_id g nonce"
      using slots_alloc_id [OF fok_inv [OF assms(1)]] a Inr y by blast
    have "r = Inr (pk, cid, i)" "s' = (set_slots m s)\<lparr>s_credstore_mutating := False\<rparr>" "c' = c1"
      using assms(4) gi(1) by (auto simp: publish_key_def a Inr y)
    then show ?thesis using f1 o1 Q(1) n gi by (auto simp: set_slots_def)
  qed
  then show "fok K (cs_fido s') c'" "Q (obs c) (obs c')" "cs_initted s' = cs_initted s" "\<not> s_credstore_mutating s'"
    "r = Inl e \<Longrightarrow> s_bitmap (cs_slots s') = s_bitmap (cs_slots s)"
    "r = Inr x \<Longrightarrow> \<exists>nonce. length nonce = 16 \<and> x = (pk, make_cred_id i nonce, i) \<and> slots_usable (cs_slots s') \<and>
      s_bitmap (cs_slots s') = new_bitmap (s_bitmap (cs_slots s)) i rm \<and> obs c' = obs c" by blast+
qed

lemma make_spec:
  assumes "fok K (cs_fido s) c" and "cs_initted s" and "\<not> s_credstore_mutating s"
    and "\<And>i. \<not> bit (s_bitmap (cs_slots s)) i \<Longrightarrow> i < 29 \<Longrightarrow> slot_ops i Q"
    and "\<And>x. Q x x"
    and "credstore_make T K rp al fl uh cr rm s c = (r, s', c')"
  shows "fok K (cs_fido s') c'" and "Q (obs c) (obs c')" and "cs_initted s'" and "\<not> s_credstore_mutating s'"
    and "r = Inl e \<Longrightarrow> s_bitmap (cs_slots s') = s_bitmap (cs_slots s)"
    and "r = Inr x \<Longrightarrow> \<exists>pk nonce i. x = (pk, make_cred_id i nonce, i) \<and> length pk = pubkey_len al \<and>
      length nonce = 16 \<and> free_slot (s_bitmap (cs_slots s)) = Some i \<and>
      slots_usable (cs_slots s') \<and> s_bitmap (cs_slots s') = new_bitmap (s_bitmap (cs_slots s)) i rm \<and>
      (\<exists>c1 c2. inv c1 \<and> tropic_ecc_pubkey_read T i CREDSTORE_PUBKEY_MAX c1 = (Inr pk, c2) \<and> obs c' = obs c2)"
proof -
  let ?b = "s_bitmap (cs_slots s)"
  have *: "fok K (cs_fido s') c' \<and> Q (obs c) (obs c') \<and> cs_initted s' \<and> \<not> s_credstore_mutating s' \<and>
    (r = Inl e \<longrightarrow> s_bitmap (cs_slots s') = ?b) \<and>
    (r = Inr x \<longrightarrow> (\<exists>pk nonce i. x = (pk, make_cred_id i nonce, i) \<and> length pk = pubkey_len al \<and>
      length nonce = 16 \<and> free_slot ?b = Some i \<and>
      slots_usable (cs_slots s') \<and> s_bitmap (cs_slots s') = new_bitmap ?b i rm \<and>
      (\<exists>c1 c2. inv c1 \<and> tropic_ecc_pubkey_read T i CREDSTORE_PUBKEY_MAX c1 = (Inr pk, c2) \<and> obs c' = obs c2)))"
    for e
  proof (cases "pubkey_len al = 0 \<or> \<not> slots_usable (cs_slots s) \<or> free_slot ?b = None")
    case True
    have "s\<lparr>s_credstore_mutating := False\<rparr> = s" using assms(3) by simp
    then show ?thesis
      using True assms by (auto simp: credstore_make_def Let_def slots_bitmap_def split: if_splits)
  next
    case False
    then obtain i where i: "free_slot ?b = Some i" and w: "pubkey_len al \<noteq> 0" "slots_usable (cs_slots s)" by auto
    have so: "slot_ops i Q" using assms(4) free_slot_some [OF i] by blast
    note Q = slot_opsD [OF so]
    let ?cu = "if al = SLOTS_ALG_ES256 then CREDSTORE_CURVE_P256 else CREDSTORE_CURVE_ED25519"
    let ?s = "s\<lparr>s_credstore_mutating := True\<rparr>"
    obtain g c1 where g: "gen_key T i ?cu (pubkey_len al) c = (g, c1)" by fastforce
    note gs = gen_key_spec [OF fok_inv [OF assms(1)] so g]
    have f1: "fok K (cs_fido ?s) c1" using fok_frame [OF assms(1) gs(1,2)] by simp
    have eq: "credstore_make T K rp al fl uh cr rm s c = (case g of
        None \<Rightarrow> (case tropic_ecc_erase T i c1 of (_, c3) \<Rightarrow> (Inl (- 2), s\<lparr>s_credstore_mutating := False\<rparr>, c3))
      | Some pk \<Rightarrow> publish_key T K rp al fl uh cr rm i pk ?s c1)"
      using w i g assms(2) by (cases g) (simp_all add: credstore_make_def Let_def slots_bitmap_def)
    show ?thesis
    proof (cases g)
      case None
      obtain rce c2 where e: "tropic_ecc_erase T i c1 = (rce, c2)" by fastforce
      have er: "inv c2 \<and> view c2 = view c1" "Q (obs c1) (obs c2)"
        using ecc_erase_rest [OF gs(1) e] Q(3) [OF gs(1) e] by blast+
      have "fok K (cs_fido s) c2" using fok_frame [OF f1] er(1) by simp
      then show ?thesis using assms(2,6) er(2) gs(3) Q(2) by (auto simp: eq None e)
    next
      case (Some pk)
      have p: "publish_key T K rp al fl uh cr rm i pk ?s c1 = (r, s', c')" using assms(6) by (simp add: eq Some)
      have fs: "free_slot (s_bitmap (cs_slots ?s)) = Some i" using i by simp
      note ps = publish_spec [OF f1 so fs p]
      obtain c2 where c2: "inv c2" "tropic_ecc_pubkey_read T i CREDSTORE_PUBKEY_MAX c2 = (Inr pk, c1)"
        and lp: "length pk = pubkey_len al" using gs(4) [OF Some] by blast
      have "Q (obs c) (obs c')" using gs(3) ps(2) Q(2) by blast
      moreover have "r = Inr x \<Longrightarrow> \<exists>pk nonce i. x = (pk, make_cred_id i nonce, i) \<and> length pk = pubkey_len al \<and>
        length nonce = 16 \<and> free_slot ?b = Some i \<and>
        slots_usable (cs_slots s') \<and> s_bitmap (cs_slots s') = new_bitmap ?b i rm \<and>
        (\<exists>c1 c2. inv c1 \<and> tropic_ecc_pubkey_read T i CREDSTORE_PUBKEY_MAX c1 = (Inr pk, c2) \<and> obs c' = obs c2)"
        using ps(6) [of x] c2 lp i by simp blast
      ultimately show ?thesis using ps(1,3,4) ps(5) [of e] assms(2) by simp
    qed
  qed
  then show "fok K (cs_fido s') c'" and "Q (obs c) (obs c')" and "cs_initted s'" and "\<not> s_credstore_mutating s'"
    and "r = Inl e \<Longrightarrow> s_bitmap (cs_slots s') = s_bitmap (cs_slots s)"
    and "r = Inr x \<Longrightarrow> \<exists>pk nonce i. x = (pk, make_cred_id i nonce, i) \<and> length pk = pubkey_len al \<and>
      length nonce = 16 \<and> free_slot (s_bitmap (cs_slots s)) = Some i \<and>
      slots_usable (cs_slots s') \<and> s_bitmap (cs_slots s') = new_bitmap (s_bitmap (cs_slots s)) i rm \<and>
      (\<exists>c1 c2. inv c1 \<and> tropic_ecc_pubkey_read T i CREDSTORE_PUBKEY_MAX c1 = (Inr pk, c2) \<and> obs c' = obs c2)"
    by blast+
qed

lemma erase_slot_spec:
  assumes "fok K (cs_fido s) c" and "\<not> s_credstore_mutating s" and "slot_ops (nat i) Q"
    and "credstore_erase_slot T K i s c = (rc, s', c')"
  shows "fok K (cs_fido s') c'" and "Q (obs c) (obs c')" and "cs_initted s' = cs_initted s"
    and "\<not> s_credstore_mutating s'"
    and "s_bitmap (cs_slots s') \<noteq> s_bitmap (cs_slots s) \<Longrightarrow> \<exists>c1. tropic_ecc_erase T (nat i) c = (0, c1)"
    and "rc = 0 \<Longrightarrow> \<not> bit (s_bitmap (cs_slots s')) (nat i)"
proof -
  note Q = slot_opsD [OF assms(3)]
  have *: "fok K (cs_fido s') c' \<and> Q (obs c) (obs c') \<and> cs_initted s' = cs_initted s \<and> \<not> s_credstore_mutating s' \<and>
    (s_bitmap (cs_slots s') \<noteq> s_bitmap (cs_slots s) \<longrightarrow> (\<exists>c1. tropic_ecc_erase T (nat i) c = (0, c1))) \<and>
    (rc = 0 \<longrightarrow> \<not> bit (s_bitmap (cs_slots s')) (nat i))"
  proof (cases "i < 0 \<or> i \<ge> int FIDO_SLOTS_MAX \<or> \<not> slots_usable (cs_slots s)")
    case True
    then show ?thesis using assms Q(1) by (auto simp: credstore_erase_slot_def split: if_splits)
  next
    case False
    obtain rc1 c1 where 1: "tropic_ecc_erase T (nat i) c = (rc1, c1)" by fastforce
    have e: "inv c1 \<and> view c1 = view c" "Q (obs c) (obs c1)"
      using ecc_erase_rest [OF fok_inv [OF assms(1)] 1] Q(3) [OF fok_inv [OF assms(1)] 1] by blast+
    have f1: "fok K (cs_fido s) c1" using fok_frame [OF assms(1)] e(1) by blast
    obtain rc2 m c2 where 2: "slots_erase T K i (cs_slots s) c1 = (rc2, m, c2)" by (metis prod_cases3)
    note se = slots_erase_ok [OF fok_slots [OF f1] 2]
    have f2: "fok K (cs_fido (set_slots m s)) c2" by (rule fok_set [OF assms(1) se(1)])
    have o2: "obs c2 = obs c1" by (rule erase_obs [OF fok_slots [OF f1] 2])
    show ?thesis using assms(2,4) False f1 f2 e o2 se(2)
      by (auto simp: credstore_erase_slot_def 1 2 Let_def set_slots_def split: if_splits)
  qed
  then show "fok K (cs_fido s') c'" and "Q (obs c) (obs c')" and "cs_initted s' = cs_initted s"
    and "\<not> s_credstore_mutating s'"
    and "s_bitmap (cs_slots s') \<noteq> s_bitmap (cs_slots s) \<Longrightarrow> \<exists>c1. tropic_ecc_erase T (nat i) c = (0, c1)"
    and "rc = 0 \<Longrightarrow> \<not> bit (s_bitmap (cs_slots s')) (nat i)" by blast+
qed

lemma lookup_spec:
  assumes "fok K (cs_fido s) c" and "cs_initted s"
  shows "credstore_lookup T K cid s c = (r, s', c') \<Longrightarrow> s' = s \<and> fok K (cs_fido s) c' \<and> obs c' = obs c"
    and "credstore_find T K cid rp s c = (r2, s', c') \<Longrightarrow> s' = s \<and> fok K (cs_fido s) c' \<and> obs c' = obs c"
proof -
  obtain x c1 where x: "slots_lookup_by_credid T cid (cs_slots s) c = (x, c1)" by fastforce
  have "fok K (cs_fido s) c1 \<and> obs c1 = obs c"
    using lookup_frame [OF fok_inv [OF assms(1)] x] fok_frame [OF assms(1)]
      lookup_obs [OF fok_inv [OF assms(1)] x] by blast
  then show "credstore_lookup T K cid s c = (r, s', c') \<Longrightarrow> s' = s \<and> fok K (cs_fido s) c' \<and> obs c' = obs c"
    and "credstore_find T K cid rp s c = (r2, s', c') \<Longrightarrow> s' = s \<and> fok K (cs_fido s) c' \<and> obs c' = obs c"
    using assms(2) x by (auto simp: credstore_lookup_def credstore_find_def split: option.splits)
qed

lemma sign_spec:
  assumes "inv c" and "credstore_sign T h al msg c = (r, c')"
  shows "inv c' \<and> view c' = view c \<and> obs c' = obs c"
proof -
  obtain r1 c1 where 1: "tropic_ecc_eddsa_sign T (nat h) msg c = (r1, c1)" by fastforce
  obtain r2 c2 where 2: "tropic_ecc_ecdsa_sign T (nat h) msg c = (r2, c2)" by fastforce
  have "c' \<in> {c, c1, c2}"
    using assms(2) by (auto simp: credstore_sign_def 1 2 split: if_splits sum.splits)
  then show ?thesis
    using eddsa_rest [OF assms(1) 1] ecdsa_rest [OF assms(1) 2] obs_eddsa [OF assms(1) 1]
      obs_ecdsa [OF assms(1) 2] assms(1) by auto
qed

lemma get_pubkey_spec:
  assumes "inv c" and "credstore_get_pubkey T i al c = (r, c')"
  shows "inv c' \<and> view c' = view c \<and> obs c' = obs c"
proof -
  obtain r1 c1 where 1: "tropic_ecc_pubkey_read T (nat i) CREDSTORE_PUBKEY_MAX c = (r1, c1)" by fastforce
  have "c' \<in> {c, c1}"
    using assms(2) by (auto simp: credstore_get_pubkey_def 1 Let_def split: if_splits sum.splits)
  then show ?thesis using ecc_pub_rest [OF assms(1) 1] obs_pub [OF assms(1) 1] assms(1) by auto
qed

end

section \<open>Keys and the counter\<close>

text \<open>
  Key slots: \<open>key c i\<close> is what ECC slot \<open>i\<close> holds and \<open>pub\<close> the public key of it.  Erasing and
  generating touch no other slot, and a public key that is read is that of the slot.
\<close>

locale ecc_chip = observed_chip T inv view key
  for T :: "'c tropic" and inv :: "'c \<Rightarrow> bool" and view :: "'c \<Rightarrow> nat \<Rightarrow> bytes" and key :: "'c \<Rightarrow> nat \<Rightarrow> 'k" +
  fixes pub :: "'k \<Rightarrow> bytes"
  assumes erase_local: "inv c \<Longrightarrow> tropic_ecc_erase T i c = (rc, c') \<Longrightarrow> j \<noteq> i \<Longrightarrow> key c' j = key c j"
    and generate_local: "inv c \<Longrightarrow> tropic_ecc_generate T i n c = (rc, c') \<Longrightarrow> j \<noteq> i \<Longrightarrow> key c' j = key c j"
    and pubkey_true: "inv c \<Longrightarrow> tropic_ecc_pubkey_read T i n c = (Inr pk, c') \<Longrightarrow> pk = pub (key c i)"
begin

lemma key_ops: "slot_ops i (\<lambda>k k'. \<forall>j. j \<noteq> i \<longrightarrow> k' j = k j)"
  unfolding slot_ops_def by (auto simp: reflp_def transp_def dest: erase_local generate_local)

lemma key_ops_set: "i \<notin> A \<Longrightarrow> slot_ops i (\<lambda>k k'. \<forall>j\<in>A. k' j = k j)"
  using key_ops [of i] unfolding slot_ops_def by (auto simp: reflp_def transp_def) metis+

end

text \<open>
  The monotonic counter: an acknowledged update takes exactly one off, any other outcome
  never adds, and a value that is read is the counter.
\<close>

locale counted_chip = observed_chip T inv view cnt
  for T :: "'c tropic" and inv :: "'c \<Rightarrow> bool" and view :: "'c \<Rightarrow> nat \<Rightarrow> bytes" and cnt :: "'c \<Rightarrow> nat" +
  assumes update_counts: "inv c \<Longrightarrow> tropic_mcounter_update T FIDO_SIGNCOUNT_MCOUNTER c = (0, c') \<Longrightarrow> cnt c = Suc (cnt c')"
    and update_fails: "inv c \<Longrightarrow> tropic_mcounter_update T FIDO_SIGNCOUNT_MCOUNTER c = (rc, c') \<Longrightarrow> cnt c' \<le> cnt c"
    and get_true: "inv c \<Longrightarrow> tropic_mcounter_get T FIDO_SIGNCOUNT_MCOUNTER c = (Inr v, c') \<Longrightarrow> cnt c = unat v"
    and erase_uncounted: "inv c \<Longrightarrow> tropic_ecc_erase T i c = (rc, c') \<Longrightarrow> cnt c' = cnt c"
    and generate_uncounted: "inv c \<Longrightarrow> tropic_ecc_generate T i n c = (rc, c') \<Longrightarrow> cnt c' = cnt c"

text \<open>
  Everything that can happen between two assertions, short of a factory reset: any
  operation of the store, and any other activity of the firmware, a power cycle with its
  boot included, that leaves the state valid and does not put the counter back.
\<close>

inductive cred_step ::
  "'c tropic \<Rightarrow> crypto \<Rightarrow> ('c \<Rightarrow> bool) \<Rightarrow> ('c \<Rightarrow> nat \<Rightarrow> bytes) \<Rightarrow> ('c \<Rightarrow> nat) \<Rightarrow> cred \<times> 'c \<Rightarrow> cred \<times> 'c \<Rightarrow> bool"
  for T :: "'c tropic" and K :: crypto and I :: "'c \<Rightarrow> bool" and view :: "'c \<Rightarrow> nat \<Rightarrow> bytes" and cnt :: "'c \<Rightarrow> nat"
  where
  cs_make: "credstore_make T K rp al fl uh cr rm s c = (r, s', c') \<Longrightarrow> cred_step T K I view cnt (s, c) (s', c')"
| cs_erase: "credstore_erase_slot T K i s c = (rc, s', c') \<Longrightarrow> cred_step T K I view cnt (s, c) (s', c')"
| cs_lookup: "credstore_lookup T K cid s c = (r, s', c') \<Longrightarrow> cred_step T K I view cnt (s, c) (s', c')"
| cs_find: "credstore_find T K cid rp s c = (r, s', c') \<Longrightarrow> cred_step T K I view cnt (s, c) (s', c')"
| cs_sign: "credstore_sign T h al msg c = (r, c') \<Longrightarrow> cred_step T K I view cnt (s, c) (s, c')"
| cs_pubkey: "credstore_get_pubkey T i al c = (r, c') \<Longrightarrow> cred_step T K I view cnt (s, c) (s, c')"
| cs_peek: "credstore_signcount_peek T K s c = (r, s', c') \<Longrightarrow> cred_step T K I view cnt (s, c) (s', c')"
| cs_next: "credstore_signcount_next T K s c = (r, s', c') \<Longrightarrow> cred_step T K I view cnt (s, c) (s', c')"
| cs_other: "fido_ok T K I view (cs_fido s') c' \<Longrightarrow> cs_initted s' \<Longrightarrow> \<not> s_credstore_mutating s' \<Longrightarrow>
    cnt c' \<le> cnt c \<Longrightarrow> cred_step T K I view cnt (s, c) (s', c')"

definition cred_ok ::
  "'c tropic \<Rightarrow> crypto \<Rightarrow> ('c \<Rightarrow> bool) \<Rightarrow> ('c \<Rightarrow> nat \<Rightarrow> bytes) \<Rightarrow> cred \<times> 'c \<Rightarrow> bool" where
  "cred_ok T K I view x \<longleftrightarrow> (case x of (s, c) \<Rightarrow>
     fido_ok T K I view (cs_fido s) c \<and> cs_initted s \<and> \<not> s_credstore_mutating s)"

context counted_chip
begin

lemma cnt_ops: "slot_ops i (=)"
  unfolding slot_ops_def by (auto simp: reflp_def transp_def dest: erase_uncounted generate_uncounted)

lemma read_count:
  assumes "inv c" and "read_signcount T c = (r, c')"
  shows "inv c' \<and> view c' = view c \<and> cnt c' = cnt c"
    and "r = Inr n \<Longrightarrow> unat n + cnt c = unat FIDO_MCOUNTER_MAX"
proof -
  obtain x c1 where x: "tropic_mcounter_get T FIDO_SIGNCOUNT_MCOUNTER c = (x, c1)" by fastforce
  have "c' = c1" using assms(2) x by (auto simp: read_signcount_def split: sum.splits)
  then show "inv c' \<and> view c' = view c \<and> cnt c' = cnt c"
    using mc_get_rest [OF assms(1) x] obs_get [OF assms(1) x] by blast
  show "unat n + cnt c = unat FIDO_MCOUNTER_MAX" if rn: "r = Inr n"
  proof -
    obtain v where v: "x = Inr v" "\<not> v > FIDO_MCOUNTER_MAX" "n = FIDO_MCOUNTER_MAX - v"
      using assms(2) x rn by (auto simp: read_signcount_def split: sum.splits if_splits)
    have "unat (FIDO_MCOUNTER_MAX - v) = unat FIDO_MCOUNTER_MAX - unat v"
      by (rule unat_sub) (use v(2) in simp)
    moreover have "unat v \<le> unat FIDO_MCOUNTER_MAX" using v(2) by (simp add: word_le_nat_alt not_less)
    ultimately show ?thesis using get_true [OF assms(1)] x v by auto
  qed
qed

lemma next_spec:
  assumes "cred_ok T K inv view (s, c)" and "credstore_signcount_next T K s c = (r, s', c')"
  shows "cred_ok T K inv view (s', c')" and "cnt c' \<le> cnt c"
    and "r = Inr n \<Longrightarrow> unat n + cnt c' = unat FIDO_MCOUNTER_MAX \<and> cnt c' < cnt c"
proof -
  have f: "fok K (cs_fido s) c" and i: "cs_initted s" using assms(1) by (simp_all add: cred_ok_def)
  obtain rc c1 where u: "tropic_mcounter_update T FIDO_SIGNCOUNT_MCOUNTER c = (rc, c1)" by fastforce
  note ur = mc_update_rest [OF fok_inv [OF f] u] update_fails [OF fok_inv [OF f] u]
  obtain x c2 where x: "read_signcount T c1 = (x, c2)" by fastforce
  have i1: "inv c1" using ur by blast
  note rr = read_count [OF i1 x]
  have e: "s' = s" "c' = (if rc \<noteq> 0 then c1 else c2)" "r = (if rc \<noteq> 0 then Inl (- 2) else x)"
    using assms(2) i by (auto simp: credstore_signcount_next_def u x split: if_splits)
  have "fok K (cs_fido s) c'" using fok_frame [OF f] ur(1) rr(1) e(2) by auto
  then show "cred_ok T K inv view (s', c')" using assms(1) e(1) by (simp add: cred_ok_def)
  show "cnt c' \<le> cnt c" using ur(2) rr(1) e(2) by auto
  show "r = Inr n \<Longrightarrow> unat n + cnt c' = unat FIDO_MCOUNTER_MAX \<and> cnt c' < cnt c"
    using e(2,3) rr update_counts [OF fok_inv [OF f]] u by (auto split: if_splits)
qed

lemma peek_spec:
  assumes "cred_ok T K inv view (s, c)" and "credstore_signcount_peek T K s c = (r, s', c')"
  shows "cred_ok T K inv view (s', c') \<and> cnt c' = cnt c"
proof -
  have f: "fok K (cs_fido s) c" and i: "cs_initted s" using assms(1) by (simp_all add: cred_ok_def)
  obtain x c2 where x: "read_signcount T c = (x, c2)" by fastforce
  have "s' = s" "c' = c2" using assms(2) i by (simp_all add: credstore_signcount_peek_def x)
  then show ?thesis
    using read_count(1) [OF fok_inv [OF f] x] fok_frame [OF f] assms(1) by (auto simp: cred_ok_def)
qed

lemma step_counts:
  assumes "cred_step T K inv view cnt x y" and "cred_ok T K inv view x"
  shows "cred_ok T K inv view y \<and> cnt (snd y) \<le> cnt (snd x)"
  using assms(1)
proof cases
  case (cs_make rp al fl uh cr rm s c r s' c')
  have f: "fok K (cs_fido s) c" "cs_initted s" "\<not> s_credstore_mutating s"
    using assms(2) cs_make(1) by (simp_all add: cred_ok_def)
  show ?thesis using make_spec(1-4) [OF f cnt_ops _ cs_make(3)] cs_make(1,2) by (simp add: cred_ok_def)
next
  case (cs_erase i s c rc s' c')
  have f: "fok K (cs_fido s) c" "\<not> s_credstore_mutating s"
    using assms(2) cs_erase(1) by (simp_all add: cred_ok_def)
  show ?thesis using erase_slot_spec(1-4) [OF f cnt_ops cs_erase(3)] cs_erase(1,2) assms(2)
    by (simp add: cred_ok_def)
next
  case (cs_lookup cid s c r s' c')
  have f: "fok K (cs_fido s) c" "cs_initted s" using assms(2) cs_lookup(1) by (simp_all add: cred_ok_def)
  show ?thesis using lookup_spec(1) [OF f cs_lookup(3)] assms(2) cs_lookup(1,2) by (simp add: cred_ok_def)
next
  case (cs_find cid rp s c r s' c')
  have f: "fok K (cs_fido s) c" "cs_initted s" using assms(2) cs_find(1) by (simp_all add: cred_ok_def)
  show ?thesis using lookup_spec(2) [OF f cs_find(3)] assms(2) cs_find(1,2) by (simp add: cred_ok_def)
next
  case (cs_sign h al msg c r c' s)
  have f: "fok K (cs_fido s) c" using assms(2) cs_sign(1) by (simp add: cred_ok_def)
  show ?thesis using sign_spec [OF fok_inv [OF f] cs_sign(3)] fok_frame [OF f] assms(2) cs_sign(1,2)
    by (simp add: cred_ok_def)
next
  case (cs_pubkey i al c r c' s)
  have f: "fok K (cs_fido s) c" using assms(2) cs_pubkey(1) by (simp add: cred_ok_def)
  show ?thesis using get_pubkey_spec [OF fok_inv [OF f] cs_pubkey(3)] fok_frame [OF f] assms(2) cs_pubkey(1,2)
    by (simp add: cred_ok_def)
next
  case (cs_peek s c r s' c')
  then show ?thesis using peek_spec assms(2) by auto
next
  case (cs_next s c r s' c')
  then show ?thesis using next_spec(1,2) assms(2) by auto
next
  case (cs_other s' c' c s)
  then show ?thesis by (simp add: cred_ok_def)
qed

lemma steps_count:
  "(cred_step T K inv view cnt)\<^sup>*\<^sup>* x y \<Longrightarrow> cred_ok T K inv view x \<Longrightarrow>
     cred_ok T K inv view y \<and> cnt (snd y) \<le> cnt (snd x)"
  by (induction rule: rtranclp_induct) (use step_counts in fastforce)+

end

section \<open>The chips the laws hold for\<close>

definition mock_count :: "mock \<Rightarrow> nat" where
  "mock_count m = (case s_mcounter m of None \<Rightarrow> 0 | Some v \<Rightarrow> unat v)"

definition mock_key :: "mock \<Rightarrow> nat \<Rightarrow> nat \<times> bool" where
  "mock_key m i = (i, s_ecc m i)"

definition mock_pub :: "nat \<times> bool \<Rightarrow> bytes" where
  "mock_pub k = replicate 32 (of_nat (fst k))"

lemma enter_ecc: "enter op m = (rc, exec, tr, m') \<Longrightarrow> s_ecc m' = s_ecc m"
  unfolding enter_def Let_def by (cases "f_at (s_fault m op) \<noteq> 0 \<and> f_at (s_fault m op) = s_calls m op + 1") auto

definition mock_side :: "mock \<Rightarrow> (nat \<Rightarrow> bool) \<times> u32 option" where
  "mock_side m = (s_ecc m, s_mcounter m)"

lemma enter_side: "enter op m = (rc, exec, tr, m') \<Longrightarrow> mock_side m' = mock_side m"
  by (simp add: mock_side_def enter_ecc enter_counter)

lemma tear_side: "mock_side (tear d s m) = mock_side m"
  by (auto simp: tear_def mock_rmem_damage_def mock_side_def Let_def split: option.splits)

lemma mock_side_upd [simp]:
  "mock_side (m\<lparr>s_rmem := x\<rparr>) = mock_side m" "mock_side (m\<lparr>s_mad := y\<rparr>) = mock_side m"
  "mock_side (m\<lparr>s_prng := z\<rparr>) = mock_side m"
  by (simp_all add: mock_side_def)

lemma mock_side_ops:
  "mock_rmem_read i n m = (r1, m') \<Longrightarrow> mock_side m' = mock_side m"
  "mock_rmem_write E i d m = (r2, m') \<Longrightarrow> mock_side m' = mock_side m"
  "mock_rmem_erase E i m = (r3, m') \<Longrightarrow> mock_side m' = mock_side m"
  "mock_mac_and_destroy K i d m = (r4, m') \<Longrightarrow> mock_side m' = mock_side m"
  "mock_random n m = (r5, m') \<Longrightarrow> mock_side m' = mock_side m"
  "mock_mcounter_get i m = (r6, m') \<Longrightarrow> mock_side m' = mock_side m"
  by (auto simp: mock_rmem_read_def mock_rmem_write_def mock_rmem_erase_def mock_mac_and_destroy_def
      mock_random_def mock_mcounter_get_def Let_def tear_side dest!: enter_side
      split: prod.splits if_splits option.splits)

lemma mock_side_views: "mock_side m' = mock_side m \<Longrightarrow> mock_count m' = mock_count m \<and> mock_key m' = mock_key m"
  by (simp add: mock_side_def mock_count_def mock_key_def fun_eq_iff)

lemmas mock_side_keeps = mock_side_ops [THEN mock_side_views]

lemma mock_erase_key:
  "mock_ecc_erase i m = (rc, m') \<Longrightarrow> mock_count m' = mock_count m \<and> (j \<noteq> i \<longrightarrow> mock_key m' j = mock_key m j)"
  by (auto simp: mock_ecc_erase_def Let_def mock_count_def mock_key_def dest: enter_ecc enter_counter
      split: prod.splits if_splits)

lemma mock_get_count: "mock_mcounter_get 0 m = (Inr v, m') \<Longrightarrow> mock_count m = unat v"
  by (auto simp: mock_mcounter_get_def Let_def mock_count_def dest!: enter_counter
      split: prod.splits if_splits option.splits)

interpretation mock_ecc: ecc_chip "mock_tropic K E" mock_inv mock_view mock_key mock_pub for K E
  by unfold_locales (auto dest: mock_side_keeps mock_erase_key simp: mock_tropic_def)

interpretation mock_counted: counted_chip "mock_tropic K E" mock_inv mock_view mock_count for K E
  by unfold_locales (auto dest: mock_side_keeps mock_erase_key mock_get_count
      simp: mock_tropic_def FIDO_SIGNCOUNT_MCOUNTER_def)

text \<open>
  The mock has no keys and no counter update; the demo chip adds both, so that the
  properties can be run: a slot's public key is 32 bytes of its number.
\<close>

definition se_chip :: "mock tropic" where
  "se_chip = demo_chip\<lparr>
     tropic_ecc_generate := \<lambda>i _ m. (0, m\<lparr>s_ecc := (s_ecc m)(i := True)\<rparr>),
     tropic_ecc_pubkey_read := \<lambda>i n m. (if s_ecc m i then Inr (mock_pub (mock_key m i)) else Inl (- 1), m),
     tropic_mcounter_update := \<lambda>_ m. (case s_mcounter m of
        None \<Rightarrow> (- 1, m)
      | Some v \<Rightarrow> if v = 0 then (- 1, m) else (0, m\<lparr>s_mcounter := Some (v - 1)\<rparr>))\<rparr>"

lemma mock_counter_upd [simp]:
  "mock_view (m\<lparr>s_mcounter := x\<rparr>) = mock_view m" "mock_inv (m\<lparr>s_mcounter := x\<rparr>) = mock_inv m"
  "mock_key (m\<lparr>s_mcounter := x\<rparr>) = mock_key m" "mock_count (m\<lparr>s_ecc := y\<rparr>) = mock_count m"
  "mock_count (m\<lparr>s_mcounter := Some w\<rparr>) = unat w"
  by (simp_all add: mock_view_def fun_eq_iff mock_inv_def mock_key_def mock_count_def)

interpretation se_ecc: ecc_chip se_chip mock_inv mock_view mock_key mock_pub
  by unfold_locales
    (auto dest: mock_read_spec mock_write_spec mock_erase_spec mock_md_spec mock_random_spec mock_other_spec
      mock_side_keeps mock_erase_key simp: se_chip_def demo_chip_def mock_tropic_def mock_key_def
      split: option.splits if_splits)

lemma se_update:
  assumes "tropic_mcounter_update se_chip i c = (rc, c')"
  shows "if rc = 0 then mock_count c = Suc (mock_count c') else c' = c"
proof (cases "\<exists>v. s_mcounter c = Some v \<and> v \<noteq> 0")
  case True
  then obtain v where v: "s_mcounter c = Some v" "v \<noteq> 0" by blast
  then have "rc = 0" "c' = c\<lparr>s_mcounter := Some (v - 1)\<rparr>" using assms by (auto simp: se_chip_def)
  then show ?thesis using v by (simp add: mock_count_def unat_minus_one unat_gt_0)
next
  case False
  then show ?thesis using assms by (auto simp: se_chip_def split: option.splits if_splits)
qed

interpretation se_counted: counted_chip se_chip mock_inv mock_view mock_count
proof unfold_locales
  show "mock_count c = Suc (mock_count c')"
    if "tropic_mcounter_update se_chip FIDO_SIGNCOUNT_MCOUNTER c = (0, c')" for c c'
    using se_update [OF that] by simp
  show "mock_count c' \<le> mock_count c"
    if "tropic_mcounter_update se_chip FIDO_SIGNCOUNT_MCOUNTER c = (rc, c')" for c rc c'
    using se_update [OF that] by (auto split: if_splits)
qed (auto dest: mock_side_keeps mock_erase_key mock_get_count simp: se_chip_def demo_chip_def mock_tropic_def
      FIDO_SIGNCOUNT_MCOUNTER_def split: option.splits if_splits)

text \<open>A store at work on that chip: initialised, and the counter at 5.\<close>

definition se_mock :: mock where
  "se_mock = demo_mock\<lparr>s_mcounter := Some 5\<rparr>"

definition se_cred :: cred where
  "se_cred = cred_start\<lparr>cs_initted := True\<rparr>"

lemma se_cred_ok: "cred_ok se_chip demo_crypto mock_inv mock_view (se_cred, se_mock)"
proof -
  have "mock_inv se_mock" by (simp add: se_mock_def)
  then have "fido_ok se_chip demo_crypto mock_inv mock_view fido_start se_mock"
    by (rule se_ecc.fido_start_ok [OF crypto_ok_demo])
  then show ?thesis by (simp add: cred_ok_def se_cred_def cred_start_def)
qed

section \<open>Properties\<close>



text \<open>
  A credential is bound to its RP: \<open>credstore_find\<close> returns one only if its slot is
  allocated, its ID carries the nonce stored there, and its stored rpIdHash is the
  caller's, whatever ID the caller presents.
\<close>

theorem credstore_find_bound:
  assumes "framed_chip T I view" and "fido_ok T K I view (cs_fido s) c"
    and "credstore_find T K cid rp s c = (Some (i, m), s', c')"
  shows "rp_id_hash m = rp \<and> i < 29 \<and> slots_usable (cs_slots s') \<and> bit (s_bitmap (cs_slots s')) i \<and>
    cid = make_cred_id i (cred_id_nonce m) \<and> m = parse_cred (take 256 (view c' (i + 1)))"
proof -
  obtain rc s1 c1 where 1: "(if cs_initted s then (0, s, c) else credstore_init T K s c) = (rc, s1, c1)"
    by (metis prod_cases3)
  have f1: "fido_ok T K I view (cs_fido s1) c1"
  proof (cases "cs_initted s")
    case True
    then show ?thesis using 1 assms(2) by simp
  next
    case False
    obtain rb f cb where b: "fido_state_boot T K (cs_fido s) c = (rb, f, cb)" by (metis prod_cases3)
    have "fido_ok T K I view f cb" by (rule framed_chip.boot_spec(1) [OF assms(1,2) b])
    then show ?thesis using 1 False b by (auto simp: credstore_init_def split: if_splits)
  qed
  obtain x c2 where x: "slots_lookup_by_credid T cid (cs_slots s1) c1 = (x, c2)" by fastforce
  have r: "x = Some (i, m)" "rp_id_hash m = rp" "s' = s1" "c' = c2"
    using assms(3) by (auto simp: credstore_find_def 1 x split: if_splits option.splits)
  have i1: "I c1" using framed_chip.ok_inv [OF assms(1)] f1 by (auto simp: fido_ok_def)
  have v: "view c2 = view c1" using framed_chip.lookup_frame [OF assms(1) i1 x] by blast
  show ?thesis using framed_chip.lookup_sound [OF assms(1) i1 x [unfolded r(1)]] r v by auto
qed

theorem credstore_find_bound_witness:
  "\<exists>cid s c i m c'. credstore_find demo_chip demo_crypto cid (replicate 32 3) s c = (Some (i, m), s, c') \<and>
     rp_id_hash m = replicate 32 3"
proof -
  obtain m0 c0 m1 c1 i cid where a: "slots_alloc demo_chip demo_crypto (replicate 32 3) 8 1 [5, 6] 1 0 m0 c0
      = (Inr (i, cid), m1, c1)" and g: "mock_good c0"
    and ok: "slots_ok demo_chip demo_crypto mock_inv mock_view m0 c0" and z: "s_bitmap m0 = 0"
    by (rule demo_alloc)
  let ?s = "set_slots m1 (cred_start\<lparr>cs_initted := True\<rparr>)"
  have f: "fido_ok demo_chip demo_crypto mock_inv mock_view (cs_fido ?s) c1"
    using framed_chip.slots_alloc_ok(1) [OF demo_framed ok a]
    by (simp add: fido_ok_def set_slots_def cred_start_def fido_start_def O2_START_def)
  obtain nonce c2 where l: "slots_lookup_by_credid demo_chip cid m1 c1 = (Some (i, \<lparr>alg = 8, flags = 1,
      rp_id_hash = replicate 32 3, cred_id_nonce = nonce, user_handle = [5, 6], created = 1\<rparr>), c2)"
    using live_dev.alloc_lookup [OF demo_dev g ok _ _ a] z by auto
  then have "credstore_find demo_chip demo_crypto cid (replicate 32 3) ?s c1 = (Some (i, \<lparr>alg = 8, flags = 1,
      rp_id_hash = replicate 32 3, cred_id_nonce = nonce, user_handle = [5, 6], created = 1\<rparr>), ?s, c2)"
    by (simp add: credstore_find_def set_slots_def cred_start_def)
  then show ?thesis using credstore_find_bound [OF demo_framed f] by blast
qed


lemma se_next:
  assumes "s_mcounter m = Some v" and "v \<noteq> 0" and "\<not> v - 1 > FIDO_MCOUNTER_MAX" and "s_fault m = (\<lambda>_. no_fault)"
  obtains m' where "credstore_signcount_next se_chip K se_cred m = (Inr (FIDO_MCOUNTER_MAX - (v - 1)), se_cred, m')"
    and "s_mcounter m' = Some (v - 1)" and "s_fault m' = (\<lambda>_. no_fault)"
proof -
  let ?m1 = "m\<lparr>s_mcounter := Some (v - 1)\<rparr>"
  let ?m2 = "?m1\<lparr>s_calls := (s_calls ?m1)(MOCK_OP_MCOUNTER := s_calls ?m1 MOCK_OP_MCOUNTER + 1)\<rparr>"
  have u: "tropic_mcounter_update se_chip FIDO_SIGNCOUNT_MCOUNTER m = (0, ?m1)"
    using assms(1,2) by (simp add: se_chip_def)
  have e: "enter MOCK_OP_MCOUNTER ?m1 = (0, True, None, ?m2)"
    using assms(4) by (simp add: enter_def no_fault_def)
  have "mock_mcounter_get FIDO_SIGNCOUNT_MCOUNTER ?m1 = (Inr (v - 1), ?m2)"
    unfolding mock_mcounter_get_def e by (simp add: FIDO_SIGNCOUNT_MCOUNTER_def Let_def)
  then have "tropic_mcounter_get se_chip FIDO_SIGNCOUNT_MCOUNTER ?m1 = (Inr (v - 1), ?m2)"
    by (simp add: se_chip_def demo_chip_def mock_tropic_def)
  then have "read_signcount se_chip ?m1 = (Inr (FIDO_MCOUNTER_MAX - (v - 1)), ?m2)"
    using assms(3) by (simp add: read_signcount_def)
  then have "credstore_signcount_next se_chip K se_cred m = (Inr (FIDO_MCOUNTER_MAX - (v - 1)), se_cred, ?m2)"
    using u by (simp add: credstore_signcount_next_def se_cred_def)
  then show thesis using that [of ?m2] assms(4) by simp
qed


end
