(* ===== verification/Authenticator.thy ===== *)
theory Authenticator
  imports Op_Monad Client_Pin Credstore User_Presence
begin

text \<open>
  The state the CTAP2 commands share, as one record: the PIN module with its token, the FIDO
  state and the chip, the credential store's flags, the touch button, what GetAssertion
  remembers and the iterator of credential management; and the ways a command acts on a part of it.  The clock and the button are
  oracles: the values \<open>HAL_GetTick\<close> returns one after the other, and for every wait the
  rounds of the wait loop, as in \<open>User_Presence\<close>.
\<close>

section \<open>State\<close>

text \<open>The \<open>s_ga\<close> of \<^verbatim>\<open>ctap2_creds.c\<close>.\<close>

record ga_state =
  g_active :: bool
  g_slots :: "nat list"
  g_count :: nat
  g_pos :: nat
  g_client_hash :: bytes
  g_rp_hash :: bytes
  g_flags :: u8
  g_last_ms :: u32

definition ga_zero :: ga_state where
  "ga_zero = \<lparr>g_active = False, g_slots = replicate FIDO_SLOTS_MAX 0, g_count = 0, g_pos = 0,
     g_client_hash = replicate 32 0, g_rp_hash = replicate 32 0, g_flags = 0, g_last_ms = 0\<rparr>"

text \<open>The iterator of \<^verbatim>\<open>credmgmt.c\<close>.\<close>

datatype iter_kind = ITER_NONE | ITER_RPS | ITER_CREDS

record cm_iter =
  s_iter_kind :: iter_kind
  s_iter_gen :: u32
  s_iter_rp_slots :: "nat list"
  s_iter_rp_count :: nat
  s_iter_rp_pos :: nat
  s_iter_cred_rp_hash :: bytes
  s_iter_cred_slots :: "nat list"
  s_iter_cred_count :: nat
  s_iter_cred_pos :: nat

definition SLOTS_MAX :: nat where "SLOTS_MAX = 32"

definition iter_zero :: cm_iter where
  "iter_zero = \<lparr>s_iter_kind = ITER_NONE, s_iter_gen = 0, s_iter_rp_slots = replicate SLOTS_MAX 0,
     s_iter_rp_count = 0, s_iter_rp_pos = 0, s_iter_cred_rp_hash = replicate 32 0,
     s_iter_cred_slots = replicate SLOTS_MAX 0, s_iter_cred_count = 0, s_iter_cred_pos = 0\<rparr>"

record 'c auth =
  a_pin :: "'c cp"
  a_initted :: bool
  a_mutating :: bool
  a_up :: up
  a_ga :: ga_state
  a_iter :: cm_iter
  a_clock :: "nat \<Rightarrow> u32"
  a_ticks :: nat
  a_touch :: "nat \<Rightarrow> u32 \<times> up_round list"
  a_touches :: nat

abbreviation a_fido :: "'c auth \<Rightarrow> fido" where "a_fido s \<equiv> cp_fido (a_pin s)"
abbreviation a_chip :: "'c auth \<Rightarrow> 'c" where "a_chip s \<equiv> cp_chip (a_pin s)"
abbreviation a_slots :: "'c auth \<Rightarrow> slot_mgr" where "a_slots s \<equiv> f_slots (a_fido s)"
abbreviation a_puat :: "'c auth \<Rightarrow> puat" where "a_puat s \<equiv> cp_puat (a_pin s)"

section \<open>Acting on a part of the state\<close>

type_synonym ('c, 'a) op = "('c auth, 'a) st_op"

definition on_pin :: "('c cp \<Rightarrow> 'a \<times> 'c cp) \<Rightarrow> ('c, 'a) op" where
  "on_pin f s = (case f (a_pin s) of (x, p) \<Rightarrow> (Val x, s\<lparr>a_pin := p\<rparr>))"

definition on_puat :: "(puat \<Rightarrow> 'a \<times> puat) \<Rightarrow> ('c, 'a) op" where
  "on_puat f = on_pin (\<lambda>p. case f (cp_puat p) of (x, t) \<Rightarrow> (x, p\<lparr>cp_puat := t\<rparr>))"

definition on_chip :: "('c \<Rightarrow> 'a \<times> 'c) \<Rightarrow> ('c, 'a) op" where
  "on_chip f = on_pin (\<lambda>p. case f (cp_chip p) of (x, c) \<Rightarrow> (x, p\<lparr>cp_chip := c\<rparr>))"

definition cred_of :: "'c auth \<Rightarrow> cred" where
  "cred_of s = \<lparr>cs_fido = a_fido s, cs_initted = a_initted s, s_credstore_mutating = a_mutating s\<rparr>"

definition put_cred :: "cred \<Rightarrow> 'c \<Rightarrow> 'c auth \<Rightarrow> 'c auth" where
  "put_cred k c s = s\<lparr>a_pin := (a_pin s)\<lparr>cp_fido := cs_fido k, cp_chip := c\<rparr>, a_initted := cs_initted k,
     a_mutating := s_credstore_mutating k\<rparr>"

definition on_cred :: "(cred \<Rightarrow> 'c \<Rightarrow> 'a \<times> cred \<times> 'c) \<Rightarrow> ('c, 'a) op" where
  "on_cred f s = (case f (cred_of s) (a_chip s) of (x, k, c) \<Rightarrow> (Val x, put_cred k c s))"

definition tick :: "('c, u32) op" where
  "tick s = (Val (a_clock s (a_ticks s)), s\<lparr>a_ticks := Suc (a_ticks s)\<rparr>)"

text \<open>One call of \<open>user_presence_check\<close>.\<close>

definition presence :: "u32 \<Rightarrow> ('c, up_result) op" where
  "presence timeout s =
     (case a_touch s (a_touches s) of (start, rs) \<Rightarrow>
      case user_presence_check timeout start rs (a_up s) of (r, u) \<Rightarrow>
        (case r of None \<Rightarrow> Waits | Some x \<Rightarrow> Val x, s\<lparr>a_up := u, a_touches := Suc (a_touches s)\<rparr>))"

text \<open>
  What a handler leaves in \<open>resp\<close>; \<open>None\<close> while it still waits, or for the negative return
  value of a handler that was given no room for a status byte.
\<close>

definition respond :: "('c, bytes) op \<Rightarrow> 'c auth \<Rightarrow> bytes option \<times> 'c auth" where
  "respond m s = (case m s of
     (Val r, s1) \<Rightarrow> (Some r, s1)
   | (Fail e, s1) \<Rightarrow> (status e, s1)
   | (Waits, s1) \<Rightarrow> (None, s1))"

section \<open>Reasoning about operations\<close>

lemma tick_val [op_vals]:
  "tick s = (Val y, s') \<longleftrightarrow> y = a_clock s (a_ticks s) \<and> s' = s\<lparr>a_ticks := Suc (a_ticks s)\<rparr>"
  by (auto simp: tick_def)

lemma on_pin_val [op_vals]:
  "on_pin f s = (Val y, s') \<longleftrightarrow> y = fst (f (a_pin s)) \<and> s' = s\<lparr>a_pin := snd (f (a_pin s))\<rparr>"
  by (auto simp: on_pin_def split: prod.splits)

lemma on_cred_val [op_vals]:
  "on_cred f s = (Val y, s') \<longleftrightarrow> (\<exists>k c. f (cred_of s) (a_chip s) = (y, k, c) \<and> s' = put_cred k c s)"
  by (auto simp: on_cred_def split: prod.splits)

lemma presence_val [op_vals]:
  "presence timeout s = (Val y, s') \<longleftrightarrow>
     (\<exists>start rs u. a_touch s (a_touches s) = (start, rs) \<and> user_presence_check timeout start rs (a_up s) = (Some y, u) \<and>
       s' = s\<lparr>a_up := u, a_touches := Suc (a_touches s)\<rparr>)"
  by (auto simp: presence_def split: prod.splits option.splits)

lemma respond_some:
  "respond m s = (Some r, s') \<Longrightarrow> length r > 1 \<Longrightarrow> m s = (Val r, s')"
  by (auto simp: respond_def status_def split: prod.splits res.splits)

text \<open>The credentials stay: no boot, no allocation, no erase.\<close>

definition same_creds :: "'c auth \<Rightarrow> 'c auth \<Rightarrow> bool" where
  "same_creds s s' \<longleftrightarrow> (a_initted s \<longrightarrow> a_initted s' \<and> a_slots s' = a_slots s \<and> a_mutating s' = a_mutating s)"

text \<open>The button and its oracle stay: nobody was asked.\<close>

definition unasked :: "'c auth \<Rightarrow> 'c auth \<Rightarrow> bool" where
  "unasked s s' \<longleftrightarrow> a_up s' = a_up s \<and> a_touch s' = a_touch s \<and> a_touches s' = a_touches s"

lemma frame_orders [simp]:
  "reflp same_creds" "transp same_creds" "reflp unasked" "transp unasked"
  by (auto simp: same_creds_def unasked_def reflp_def transp_def)

lemma frame_refl [simp]: "same_creds s s" "unasked s s"
  by (simp_all add: same_creds_def unasked_def)

lemma same_creds_tick: "keeps same_creds tick" "keeps unasked tick"
  by (simp_all add: keeps_def tick_def same_creds_def unasked_def)

lemma same_creds_presence: "keeps same_creds (presence t)"
  by (simp add: keeps_def presence_def same_creds_def split: prod.splits)

lemma same_creds_pin:
  assumes "\<And>p. f_slots (cp_fido (snd (f p))) = f_slots (cp_fido p)"
  shows "keeps same_creds (on_pin f)"
  unfolding keeps_def same_creds_def
proof
  fix s
  show "a_initted s \<longrightarrow> a_initted (snd (on_pin f s)) \<and> a_slots (snd (on_pin f s)) = a_slots s \<and>
      a_mutating (snd (on_pin f s)) = a_mutating s"
    using assms [of "a_pin s"] by (cases "f (a_pin s)") (simp add: on_pin_def)
qed

lemma unasked_pin: "keeps unasked (on_pin f)"
  by (simp add: keeps_def on_pin_def unasked_def split: prod.splits)

lemma unasked_cred: "keeps unasked (on_cred f)"
  by (simp add: keeps_def on_cred_def put_cred_def unasked_def split: prod.splits)

lemma same_creds_cred:
  fixes f :: "cred \<Rightarrow> 'c \<Rightarrow> 'a \<times> cred \<times> 'c"
  assumes "\<And>k c x k' c'. cs_initted k \<Longrightarrow> f k c = (x, k', c') \<Longrightarrow> k' = k"
  shows "keeps same_creds (on_cred f)"
  unfolding keeps_def same_creds_def
proof (intro allI impI)
  fix s :: "'c auth"
  assume i: "a_initted s"
  obtain x k c where f: "f (cred_of s) (a_chip s) = (x, k, c)" by (metis prod_cases3)
  have "k = cred_of s" using assms [OF _ f] i by (simp add: cred_of_def)
  then show "a_initted (snd (on_cred f s)) \<and> a_slots (snd (on_cred f s)) = a_slots s \<and>
      a_mutating (snd (on_cred f s)) = a_mutating s"
    using f i by (simp add: on_cred_def put_cred_def) (simp add: cred_of_def)
qed

lemma pin_state_slots: "f_slots (cp_fido (snd (pin_is_set T K p))) = f_slots (cp_fido p)"
  by (auto simp: pin_is_set_def cp_pin_state_def fido_pin_state_def Let_def split: prod.splits if_splits pmd_state.splits)

lemma pin_state_puat: "cp_puat (snd (pin_is_set T K p)) = cp_puat p"
  by (auto simp: pin_is_set_def cp_pin_state_def split: prod.splits)

lemma same_creds_puat: "keeps same_creds (on_puat f)" "keeps unasked (on_puat f)"
  "keeps same_creds (on_chip g)" "keeps unasked (on_chip g)"
  unfolding on_puat_def on_chip_def
  by (rule unasked_pin | (rule same_creds_pin, simp split: prod.splits))+

lemma same_creds_is_set: "keeps same_creds (on_pin (pin_is_set T K))"
  by (rule same_creds_pin) (rule pin_state_slots)

lemma credstore_reads_only:
  assumes "cs_initted k"
  shows "credstore_find T K cid rp k c = (x, k', c') \<Longrightarrow> k' = k"
    and "credstore_signcount_peek T K k c = (y, k', c') \<Longrightarrow> k' = k"
    and "credstore_signcount_next T K k c = (y, k', c') \<Longrightarrow> k' = k"
  using assms
  by (auto simp: credstore_find_def credstore_signcount_peek_def credstore_signcount_next_def
      split: prod.splits option.splits if_splits)

lemma same_creds_store:
  "keeps same_creds (on_cred (credstore_find T K cid rp))"
  "keeps same_creds (on_cred (credstore_signcount_peek T K))"
  "keeps same_creds (on_cred (credstore_signcount_next T K))"
  by (rule same_creds_cred, erule credstore_reads_only, assumption)+

lemmas frames = keeps_pure same_creds_tick same_creds_presence same_creds_puat same_creds_is_set
  same_creds_store unasked_pin unasked_cred

end
