(* ===== verification/Ctap2_Creds.thy ===== *)
theory Ctap2_Creds
  imports Authenticator
begin

text \<open>
  MakeCredential, GetAssertion and GetNextAssertion, \<^verbatim>\<open>firmware/src/fido_hid/ctap2_creds.c\<close>, over
  the request parser, the credential store, the token and the touch button.
\<close>

section \<open>Constants\<close>

definition COSE_KEY_MAX :: nat where "COSE_KEY_MAX = 96"
definition FLAG_UP :: u8 where "FLAG_UP = 0x01"
definition FLAG_UV :: u8 where "FLAG_UV = 0x04"
definition FLAG_AT :: u8 where "FLAG_AT = 0x40"
definition FLAG_ED :: u8 where "FLAG_ED = 0x80"
definition UP_TIMEOUT_MS :: u32 where "UP_TIMEOUT_MS = 30000"
definition GET_NEXT_TIMEOUT_MS :: u32 where "GET_NEXT_TIMEOUT_MS = 30000"
definition SLOTS_FLAG_RESIDENT :: u8 where "SLOTS_FLAG_RESIDENT = 0x01"

definition CTAP2_ERR_CREDENTIAL_EXCLUDED :: nat where "CTAP2_ERR_CREDENTIAL_EXCLUDED = 0x19"
definition CTAP2_ERR_OPERATION_DENIED :: nat where "CTAP2_ERR_OPERATION_DENIED = 0x27"
definition CTAP2_ERR_KEY_STORE_FULL :: nat where "CTAP2_ERR_KEY_STORE_FULL = 0x28"
definition CTAP2_ERR_UNSUPPORTED_OPTION :: nat where "CTAP2_ERR_UNSUPPORTED_OPTION = 0x2B"
definition CTAP2_ERR_INVALID_OPTION :: nat where "CTAP2_ERR_INVALID_OPTION = 0x2C"
definition CTAP2_ERR_KEEPALIVE_CANCEL :: nat where "CTAP2_ERR_KEEPALIVE_CANCEL = 0x2D"
definition CTAP2_ERR_NO_CREDENTIALS :: nat where "CTAP2_ERR_NO_CREDENTIALS = 0x2E"
definition CTAP2_ERR_NOT_ALLOWED :: nat where "CTAP2_ERR_NOT_ALLOWED = 0x30"
definition CTAP2_ERR_PUAT_REQUIRED :: nat where "CTAP2_ERR_PUAT_REQUIRED = 0x36"

section \<open>Authenticator data\<close>

text \<open>\<open>None\<close> is -1: \<open>out\<close> is too small.\<close>

definition build_authdata :: "bytes \<Rightarrow> u8 \<Rightarrow> u32 \<Rightarrow> bytes \<Rightarrow> bytes \<Rightarrow> nat \<Rightarrow> bytes option" where
  "build_authdata rp fl sign_count cred_id cose_pubkey out_max =
     (let have_at = fl AND FLAG_AT \<noteq> 0;
          need = 37 + (if have_at then 16 + 2 + length cred_id + length cose_pubkey else 0)
      in if need > out_max then None
         else Some (rp @ [fl] @ be32_store sign_count @
           (if have_at then replicate 16 0 @ be16_store (length cred_id) @ cred_id @ cose_pubkey else [])))"

section \<open>Steps the commands share\<close>

definition touch_status :: "up_result \<Rightarrow> nat" where
  "touch_status r = (if r = UP_CANCEL then CTAP2_ERR_KEEPALIVE_CANCEL else CTAP2_ERR_OPERATION_DENIED)"

definition wait_touch :: "('c, unit) op" where
  "wait_touch = op_bind (presence UP_TIMEOUT_MS) (\<lambda>r. op_unless (r \<noteq> UP_OK) (touch_status r))"

text \<open>Every outcome of \<open>pin_probe\<close> is a status.\<close>

definition pin_probe :: "'c tropic \<Rightarrow> crypto \<Rightarrow> ('c, 'a) op" where
  "pin_probe T K = op_bind wait_touch (\<lambda>_. op_bind (on_pin (pin_is_set T K)) (\<lambda>set.
     op_fail (if set then CTAP2_ERR_PIN_INVALID else CTAP2_ERR_PIN_NOT_SET)))"

definition check_pin_uv_protocol :: "ctap2_pin_uv \<Rightarrow> ('c, unit) op" where
  "check_pin_uv_protocol pu =
     (if \<not> pu_has_param pu then op_ret ()
      else if pu_protocol pu = CTAP2_OPT_ABSENT then op_fail CTAP2_ERR_MISSING_PARAMETER
      else op_unless (pu_protocol pu \<noteq> int (unat PIN_PROTOCOL_VERSION)) CTAP1_ERR_INVALID_PARAMETER)"

definition check_token :: "crypto \<Rightarrow> ctap2_pin_uv \<Rightarrow> bytes \<Rightarrow> u8 \<Rightarrow> bytes \<Rightarrow> ('c, unit) op" where
  "check_token K pu client_hash perm rp_hash =
     op_bind tick (\<lambda>now.
     op_bind (on_puat (puat_verify K (Some (pu_param pu)) client_hash now)) (\<lambda>rc.
     op_bind (op_get a_puat) (\<lambda>t.
     op_bind (op_unless (rc \<noteq> 0 \<or> \<not> puat_user_verified t \<or> \<not> puat_has_perm perm t \<or> \<not> puat_rp_matches rp_hash t)
       CTAP2_ERR_PIN_AUTH_INVALID) (\<lambda>_.
     on_puat (\<lambda>t. ((), puat_bind_rp rp_hash t))))))"

text \<open>The list iterator drives the search of both commands: the first listed credential of this RP.\<close>

lemma iter_next_left:
  "ctap2_cred_iter_next it = (Some i, it1) \<Longrightarrow> it_left it1 < it_left it"
proof (induction it rule: ctap2_cred_iter_next.induct)
  case (1 it)
  have n: "it_left it \<noteq> 0" using 1(2) by (cases "it_left it = 0") (simp_all add: ctap2_cred_iter_next.simps)
  obtain x r where rd: "rd_descriptor (it_r it) = (x, r)" by fastforce
  obtain k pk where x: "x = Inr (k, pk)"
    using 1(2) n rd by (cases x) (auto simp: ctap2_cred_iter_next.simps [of it])
  let ?it = "\<lparr>it_r = r, it_left = it_left it - 1\<rparr>"
  have e: "ctap2_cred_iter_next it = (if pk then (Some k, ?it) else ctap2_cred_iter_next ?it)"
    using n rd x by (subst ctap2_cred_iter_next.simps) simp
  show ?case
  proof (cases pk)
    case True
    then show ?thesis using 1(2) e n by auto
  next
    case False
    then have "it_left it1 < it_left ?it" using 1(1) [of x r "(k, pk)" k pk ?it] 1(2) e n rd x by simp
    then show ?thesis by simp
  qed
qed

function find_listed :: "'c tropic \<Rightarrow> crypto \<Rightarrow> bytes \<Rightarrow> ctap2_cred_iter \<Rightarrow> 'c auth \<Rightarrow> nat option res \<times> 'c auth" where
  "find_listed T K rp_hash it s =
     (case ctap2_cred_iter_next it of
        (None, _) \<Rightarrow> (Val None, s)
      | (Some cid, it1) \<Rightarrow>
          (case credstore_find T K cid rp_hash (cred_of s) (a_chip s) of
             (Some (h, _), k, c) \<Rightarrow> (Val (Some h), put_cred k c s)
           | (None, k, c) \<Rightarrow> find_listed T K rp_hash it1 (put_cred k c s)))"
  by pat_completeness auto
termination
  by (relation "measure (\<lambda>(T, K, rp, it, s). it_left it)") (auto dest!: iter_next_left [OF sym])

declare find_listed.simps [simp del]

section \<open>MakeCredential\<close>

definition mc_uv_policy :: "'c tropic \<Rightarrow> crypto \<Rightarrow> ctap2_mc_req \<Rightarrow> bool \<Rightarrow> bytes \<Rightarrow> ('c, u8) op" where
  "mc_uv_policy T K q rk rp_hash =
     op_bind (on_pin (pin_is_set T K)) (\<lambda>pin_set.
     op_bind (op_get (\<lambda>s. slots_force_uv_get (a_slots s) \<noteq> 0)) (\<lambda>always_uv.
     op_bind (op_unless (if always_uv then \<not> pin_set \<or> \<not> pu_has_param (mc_pin_uv q)
                         else pin_set \<and> \<not> pu_has_param (mc_pin_uv q) \<and> rk) CTAP2_ERR_PUAT_REQUIRED) (\<lambda>_.
     if pin_set \<and> pu_has_param (mc_pin_uv q)
     then op_bind (check_token K (mc_pin_uv q) (mc_client_hash q) PUAT_PERM_MC rp_hash) (\<lambda>_. op_ret FLAG_UV)
     else op_ret 0)))"

definition mc_excluded :: "'c tropic \<Rightarrow> crypto \<Rightarrow> ctap2_mc_req \<Rightarrow> bytes \<Rightarrow> ('c, unit) op" where
  "mc_excluded T K q rp_hash =
     op_bind (find_listed T K rp_hash (ctap2_cred_iter_init (mc_exclude q))) (\<lambda>h.
     case h of
       None \<Rightarrow> op_ret ()
     | Some _ \<Rightarrow> op_bind (presence UP_TIMEOUT_MS) (\<lambda>r.
         op_fail (if r = UP_CANCEL then CTAP2_ERR_KEEPALIVE_CANCEL else CTAP2_ERR_CREDENTIAL_EXCLUDED)))"

text \<open>The highest sequence number and the credentials to replace, slot by slot; \<open>None\<close> is -1.\<close>

definition same_account :: "ctap2_mc_req \<Rightarrow> bytes \<Rightarrow> bool \<Rightarrow> slot_meta \<Rightarrow> bool" where
  "same_account q rp_hash rk m \<longleftrightarrow> rk \<and> flags m AND SLOTS_FLAG_RESIDENT \<noteq> 0 \<and> rp_id_hash m = rp_hash \<and>
     user_handle m = mc_user_id q"

fun scan_slots ::
  "'c tropic \<Rightarrow> (slot_meta \<Rightarrow> bool) \<Rightarrow> slot_mgr \<Rightarrow> u32 \<Rightarrow> nat list \<Rightarrow> u32 \<times> u32 \<Rightarrow> 'c \<Rightarrow> (u32 \<times> u32) option \<times> 'c" where
  "scan_slots T same m bm [] x c = (Some x, c)"
| "scan_slots T same m bm (i # is) (mx, rs) c =
     (if \<not> slot_bit bm i then scan_slots T same m bm is (mx, rs) c
      else case slots_read_meta T (int i) m c of
        (Inl _, c1) \<Rightarrow> (None, c1)
      | (Inr meta, c1) \<Rightarrow>
          scan_slots T same m bm is
            (if created meta > mx then created meta else mx,
             if same meta then rs OR push_bit i 1 else rs) c1)"

definition mc_scan :: "'c tropic \<Rightarrow> ctap2_mc_req \<Rightarrow> bytes \<Rightarrow> bool \<Rightarrow> ('c, (u32 \<times> u32) option) op" where
  "mc_scan T q rp_hash rk =
     op_bind (op_get a_slots) (\<lambda>m.
     op_bind (on_chip (scan_slots T (same_account q rp_hash rk) m (slots_bitmap m) [0..<FIDO_SLOTS_MAX] (0, 0))) (\<lambda>r.
     op_ret (case r of
       None \<Rightarrow> None
     | Some (mx, repl) \<Rightarrow> if mx = 0xFFFFFFFF then None else Some (mx + 1, repl))))"

definition mc_respond ::
  "ctap2_mc_req \<Rightarrow> bytes \<Rightarrow> u8 \<Rightarrow> bool \<Rightarrow> u32 \<Rightarrow> bytes \<Rightarrow> bytes \<Rightarrow> nat \<Rightarrow> bytes res" where
  "mc_respond q rp_hash fl rk sc pubkey cred_id resp_max =
     (case cose_write_pubkey (cbor_writer_init COSE_KEY_MAX) (mc_alg q) pubkey of (rc, kw) \<Rightarrow>
      if rc \<noteq> 0 then Fail CTAP2_ERR_OTHER
      else
        let fl1 = (if mc_want_cred_props q then fl OR FLAG_ED else fl)
        in case build_authdata rp_hash fl1 sc cred_id (w_out kw) 256 of
          None \<Rightarrow> Fail CTAP2_ERR_OTHER
        | Some ad \<Rightarrow>
            let ew = (if mc_want_cred_props q
                  then cbor_seq [\<lambda>w. cbor_write_map_header w 1, \<lambda>w. cbor_write_text w (ascii ''credProps''),
                    \<lambda>w. cbor_write_map_header w 1, \<lambda>w. cbor_write_text w (ascii ''rk''),
                    \<lambda>w. cbor_write_bool w rk] (cbor_writer_init (256 - length ad))
                  else cbor_writer_init 0)
            in if cbor_writer_error ew then Fail CTAP2_ERR_OTHER
               else
                 let w = cbor_seq [\<lambda>w. cbor_write_map_header w 3,
                       \<lambda>w. cbor_write_uint w 1, \<lambda>w. cbor_write_text w (ascii ''none''),
                       \<lambda>w. cbor_write_uint w 2, \<lambda>w. cbor_write_byte_string w (ad @ w_out ew),
                       \<lambda>w. cbor_write_uint w 3, \<lambda>w. cbor_write_map_header w 0]
                       (cbor_writer_init (resp_max - 1))
                 in if cbor_writer_error w then Fail CTAP2_ERR_OTHER else Val (of_nat CTAP2_OK # w_out w))"

fun erase_replaced :: "'c tropic \<Rightarrow> crypto \<Rightarrow> u32 \<Rightarrow> nat list \<Rightarrow> cred \<Rightarrow> 'c \<Rightarrow> unit \<times> cred \<times> 'c" where
  "erase_replaced T K repl [] k c = ((), k, c)"
| "erase_replaced T K repl (i # is) k c =
     (if \<not> slot_bit repl i then erase_replaced T K repl is k c
      else case credstore_erase_slot T K (int i) k c of (_, k1, c1) \<Rightarrow> erase_replaced T K repl is k1 c1)"

definition op_res :: "'a res \<Rightarrow> ('c, 'a) op" where "op_res r s = (r, s)"

text \<open>What the new credential needs, read before the touch.\<close>

definition mc_collect ::
  "'c tropic \<Rightarrow> crypto \<Rightarrow> ctap2_mc_req \<Rightarrow> bytes \<Rightarrow> bool \<Rightarrow> ('c, u32 \<times> u32 \<times> u32) op" where
  "mc_collect T K q rp_hash rk =
     op_bind (on_cred (credstore_signcount_peek T K)) (\<lambda>peek.
     case peek of
       Inl _ \<Rightarrow> op_fail CTAP2_ERR_OTHER
     | Inr sc \<Rightarrow>
         op_bind (mc_scan T q rp_hash rk) (\<lambda>scan.
         case scan of
           None \<Rightarrow> op_fail CTAP2_ERR_OTHER
         | Some (cr, repl) \<Rightarrow> op_ret (sc, cr, repl)))"

text \<open>
  \<open>mc_checked\<close> is the handler up to the touch: what it found out before the user is asked, as the UV
  flag and (signature count, sequence number, credentials to replace).
\<close>

definition mc_checked ::
  "'c tropic \<Rightarrow> crypto \<Rightarrow> ctap2_mc_req \<Rightarrow> bytes \<Rightarrow> bool \<Rightarrow> ('c, u8 \<times> u32 \<times> u32 \<times> u32) op" where
  "mc_checked T K q rp_hash rk =
     op_bind (if pu_has_param (mc_pin_uv q) \<and> pu_param (mc_pin_uv q) = [] then pin_probe T K else op_ret ()) (\<lambda>_.
     op_bind (check_pin_uv_protocol (mc_pin_uv q)) (\<lambda>_.
     op_bind (op_unless (opt_uv (mc_opt q) = 1 \<or> opt_up (mc_opt q) = 0) CTAP2_ERR_INVALID_OPTION) (\<lambda>_.
     op_bind (mc_uv_policy T K q rk rp_hash) (\<lambda>uv_flag.
     op_bind (op_get cred_of) (\<lambda>k.
     op_bind (op_unless (credstore_is_mutating k) CTAP2_ERR_NOT_ALLOWED) (\<lambda>_.
     op_bind (mc_excluded T K q rp_hash) (\<lambda>_.
     op_bind (mc_collect T K q rp_hash rk) (\<lambda>x. op_ret (uv_flag, x)))))))))"

definition mc_create ::
  "'c tropic \<Rightarrow> crypto \<Rightarrow> ctap2_mc_req \<Rightarrow> bytes \<Rightarrow> bool \<Rightarrow> nat \<Rightarrow> u8 \<times> u32 \<times> u32 \<times> u32 \<Rightarrow> ('c, bytes) op" where
  "mc_create T K q rp_hash rk resp_max x =
     (case x of (uv_flag, sc, cr, repl) \<Rightarrow>
      op_bind (on_cred (credstore_make T K rp_hash (word_of_int (- mc_alg q))
          (if rk then SLOTS_FLAG_RESIDENT else 0) (mc_user_id q) cr repl)) (\<lambda>made.
      case made of
        Inl rc \<Rightarrow> op_fail (if rc = - 1 then CTAP2_ERR_KEY_STORE_FULL else CTAP2_ERR_OTHER)
      | Inr (pubkey, cred_id, _) \<Rightarrow>
          op_bind (on_cred (erase_replaced T K repl [0..<FIDO_SLOTS_MAX])) (\<lambda>_.
          op_res (mc_respond q rp_hash (FLAG_UP OR uv_flag OR FLAG_AT) rk sc pubkey cred_id resp_max))))"

definition ctap2_make_credential ::
  "'c tropic \<Rightarrow> crypto \<Rightarrow> bytes \<Rightarrow> nat \<Rightarrow> 'c auth \<Rightarrow> bytes option \<times> 'c auth" where
  "ctap2_make_credential T K req resp_max = respond
     (case ctap2_parse_make_cred req of
        Inl e \<Rightarrow> op_fail e
      | Inr q \<Rightarrow>
          let rk = (opt_rk (mc_opt q) = 1); rp_hash = sha256 K (mc_rp_id q)
          in op_bind (mc_checked T K q rp_hash rk) (\<lambda>x.
             op_bind wait_touch (\<lambda>_.
             op_bind (on_puat (\<lambda>t. ((), puat_consume t))) (\<lambda>_.
             mc_create T K q rp_hash rk resp_max x))))"

section \<open>GetAssertion and GetNextAssertion\<close>

definition ctap2_assertion_reset :: "('c, unit) op" where
  "ctap2_assertion_reset s = (Val (), s\<lparr>a_ga := ga_zero\<rparr>)"

definition ga_uv_policy :: "'c tropic \<Rightarrow> crypto \<Rightarrow> ctap2_ga_req \<Rightarrow> bool \<Rightarrow> bytes \<Rightarrow> ('c, u8) op" where
  "ga_uv_policy T K q u rp_hash =
     op_bind (on_pin (pin_is_set T K)) (\<lambda>pin_set.
     op_bind (op_get (\<lambda>s. slots_force_uv_get (a_slots s) \<noteq> 0)) (\<lambda>always_uv.
     op_bind (op_unless (always_uv \<and> u \<and> (\<not> pin_set \<or> \<not> pu_has_param (ga_pin_uv q))) CTAP2_ERR_PUAT_REQUIRED) (\<lambda>_.
     if pin_set \<and> pu_has_param (ga_pin_uv q)
     then op_bind (check_token K (ga_pin_uv q) (ga_client_hash q) PUAT_PERM_GA rp_hash) (\<lambda>_. op_ret FLAG_UV)
     else op_ret 0)))"

definition ga_from_allow_list :: "'c tropic \<Rightarrow> crypto \<Rightarrow> ctap2_ga_req \<Rightarrow> bytes \<Rightarrow> ('c, nat) op" where
  "ga_from_allow_list T K q rp_hash =
     op_bind (find_listed T K rp_hash (ctap2_cred_iter_init (ga_allow q))) (\<lambda>h.
     case h of
       None \<Rightarrow> op_ret 0
     | Some i \<Rightarrow> (\<lambda>s. (Val 1, s\<lparr>a_ga := (a_ga s)\<lparr>g_slots := (g_slots (a_ga s))[0 := i]\<rparr>\<rparr>)))"

text \<open>
  The insertion of \<open>ga_discover\<close>, over the two arrays \<open>created\<close> and \<open>s_ga.slots\<close> as one list of
  pairs: older entries move up from position \<open>j\<close> until the new one fits.
\<close>

fun shift_in :: "u32 \<times> nat \<Rightarrow> nat \<Rightarrow> (u32 \<times> nat) list \<Rightarrow> (u32 \<times> nat) list" where
  "shift_in x 0 l = l[0 := x]"
| "shift_in x (Suc j) l = (if fst (l ! j) < fst x then shift_in x j (l[Suc j := l ! j]) else l[Suc j := x])"

fun discover ::
  "'c tropic \<Rightarrow> (slot_meta \<Rightarrow> bool) \<Rightarrow> slot_mgr \<Rightarrow> u32 \<Rightarrow> nat list \<Rightarrow> nat \<times> (u32 \<times> nat) list \<Rightarrow> 'c
     \<Rightarrow> (nat \<times> (u32 \<times> nat) list) \<times> 'c" where
  "discover T mine m bm [] x c = (x, c)"
| "discover T mine m bm (i # is) x c =
     (if \<not> slot_bit bm i then discover T mine m bm is x c
      else case slots_read_meta T (int i) m c of
        (Inl _, c1) \<Rightarrow> discover T mine m bm is x c1
      | (Inr meta, c1) \<Rightarrow>
          discover T mine m bm is
            (if mine meta then (Suc (fst x), shift_in (created meta, i) (fst x) (snd x)) else x) c1)"

definition ga_discover :: "'c tropic \<Rightarrow> bytes \<Rightarrow> ('c, nat) op" where
  "ga_discover T rp_hash =
     op_bind (op_get a_slots) (\<lambda>m.
     op_bind (op_get (\<lambda>s. map (\<lambda>i. (0, i)) (g_slots (a_ga s)))) (\<lambda>arr.
     op_bind (on_chip (discover T (\<lambda>meta. flags meta AND SLOTS_FLAG_RESIDENT \<noteq> 0 \<and> rp_id_hash meta = rp_hash)
       m (slots_bitmap m) [0..<FIDO_SLOTS_MAX] (0, arr))) (\<lambda>x.
     (\<lambda>s. (Val (fst x), s\<lparr>a_ga := (a_ga s)\<lparr>g_slots := map snd (snd x)\<rparr>\<rparr>)))))"

definition ga_response :: "slot_meta \<Rightarrow> nat \<Rightarrow> bytes \<Rightarrow> bytes \<Rightarrow> nat \<Rightarrow> nat \<Rightarrow> bytes res" where
  "ga_response meta slot ad sig number_of_creds resp_max =
     (let with_user = (flags meta AND SLOTS_FLAG_RESIDENT \<noteq> 0 \<and> length (user_handle meta) > 0);
          w = cbor_seq ([\<lambda>w. cbor_write_map_header w
                (3 + (if with_user then 1 else 0) + (if number_of_creds > 1 then 1 else 0)),
              \<lambda>w. cbor_write_uint w 1, \<lambda>w. cbor_write_map_header w 2,
              \<lambda>w. cbor_write_text w (ascii ''id''),
              \<lambda>w. cbor_write_byte_string w (make_cred_id slot (cred_id_nonce meta)),
              \<lambda>w. cbor_write_text w (ascii ''type''), \<lambda>w. cbor_write_text w (ascii ''public-key''),
              \<lambda>w. cbor_write_uint w 2, \<lambda>w. cbor_write_byte_string w ad,
              \<lambda>w. cbor_write_uint w 3, \<lambda>w. cbor_write_byte_string w sig] @
            (if with_user then [\<lambda>w. cbor_write_uint w 4, \<lambda>w. cbor_write_map_header w 1,
              \<lambda>w. cbor_write_text w (ascii ''id''), \<lambda>w. cbor_write_byte_string w (user_handle meta)] else []) @
            (if number_of_creds > 1 then [\<lambda>w. cbor_write_uint w 5,
              \<lambda>w. cbor_write_uint w (of_nat number_of_creds)] else []))
            (cbor_writer_init (resp_max - 1))
      in if cbor_writer_error w then Fail CTAP2_ERR_OTHER else Val (of_nat CTAP2_OK # w_out w))"

definition ga_sign_respond ::
  "'c tropic \<Rightarrow> crypto \<Rightarrow> nat \<Rightarrow> bytes \<Rightarrow> u8 \<Rightarrow> bytes \<Rightarrow> nat \<Rightarrow> nat \<Rightarrow> ('c, bytes) op" where
  "ga_sign_respond T K slot rp_hash fl client_hash number_of_creds resp_max =
     op_bind (op_get a_slots) (\<lambda>m.
     op_bind (on_chip (slots_read_meta T (int slot) m)) (\<lambda>r.
     case r of
       Inl _ \<Rightarrow> op_fail CTAP2_ERR_OTHER
     | Inr meta \<Rightarrow>
         op_bind (op_unless (rp_id_hash meta \<noteq> rp_hash) CTAP2_ERR_NO_CREDENTIALS) (\<lambda>_.
         op_bind (op_unless (alg meta \<noteq> SLOTS_ALG_ED25519 \<and> alg meta \<noteq> SLOTS_ALG_ES256) CTAP2_ERR_OTHER) (\<lambda>_.
         op_bind (on_cred (credstore_signcount_next T K)) (\<lambda>n.
         case n of
           Inl _ \<Rightarrow> op_fail CTAP2_ERR_OTHER
         | Inr sc \<Rightarrow>
             (case build_authdata rp_hash fl sc [] [] (37 + 32) of
                None \<Rightarrow> op_fail CTAP2_ERR_OTHER
              | Some ad \<Rightarrow>
                  op_bind (on_chip (credstore_sign T (int slot) (alg meta) (ad @ client_hash))) (\<lambda>sg.
                  case sg of
                    Inl _ \<Rightarrow> op_fail CTAP2_ERR_OTHER
                  | Inr sig \<Rightarrow>
                      if length sig = 0 then op_fail CTAP2_ERR_OTHER
                      else op_res (ga_response meta slot ad sig number_of_creds resp_max))))))))"

text \<open>\<open>ga_checked\<close> is the handler up to the touch: how many credentials it found, and the UV flag.\<close>

definition ga_checked :: "'c tropic \<Rightarrow> crypto \<Rightarrow> ctap2_ga_req \<Rightarrow> bool \<Rightarrow> bytes \<Rightarrow> ('c, nat \<times> u8) op" where
  "ga_checked T K q u rp_hash =
     op_bind (if pu_has_param (ga_pin_uv q) \<and> pu_param (ga_pin_uv q) = [] then pin_probe T K else op_ret ()) (\<lambda>_.
     op_bind (check_pin_uv_protocol (ga_pin_uv q)) (\<lambda>_.
     op_bind (op_unless (opt_uv (ga_opt q) = 1) CTAP2_ERR_INVALID_OPTION) (\<lambda>_.
     op_bind (op_unless (opt_rk (ga_opt q) \<noteq> CTAP2_OPT_ABSENT) CTAP2_ERR_UNSUPPORTED_OPTION) (\<lambda>_.
     op_bind (ga_uv_policy T K q u rp_hash) (\<lambda>uv_flag.
     op_bind (op_get cred_of) (\<lambda>k.
     op_bind (op_unless (credstore_is_mutating k) CTAP2_ERR_NOT_ALLOWED) (\<lambda>_.
     op_bind (if ga_allow q \<noteq> None then ga_from_allow_list T K q rp_hash else ga_discover T rp_hash) (\<lambda>count.
     op_bind (op_unless (count = 0) CTAP2_ERR_NO_CREDENTIALS) (\<lambda>_.
     op_ret (count, uv_flag))))))))))"

definition ga_answer ::
  "'c tropic \<Rightarrow> crypto \<Rightarrow> ctap2_ga_req \<Rightarrow> bool \<Rightarrow> bytes \<Rightarrow> nat \<Rightarrow> nat \<times> u8 \<Rightarrow> ('c, bytes) op" where
  "ga_answer T K q u rp_hash resp_max x =
     (case x of (count, uv_flag) \<Rightarrow>
      let fl = (if u then FLAG_UP else 0) OR uv_flag in
      op_bind (op_get (\<lambda>s. g_slots (a_ga s) ! 0)) (\<lambda>slot.
      op_bind (ga_sign_respond T K slot rp_hash fl (ga_client_hash q)
        (if ga_allow q \<noteq> None then 0 else count) resp_max) (\<lambda>resp.
      if count > 1 then
        op_bind tick (\<lambda>now s. (Val resp, s\<lparr>a_ga := (a_ga s)\<lparr>g_active := True, g_count := count, g_pos := 1,
          g_client_hash := ga_client_hash q, g_rp_hash := rp_hash, g_flags := fl, g_last_ms := now\<rparr>\<rparr>))
      else op_ret resp)))"

definition ctap2_get_assertion ::
  "'c tropic \<Rightarrow> crypto \<Rightarrow> bytes \<Rightarrow> nat \<Rightarrow> 'c auth \<Rightarrow> bytes option \<times> 'c auth" where
  "ctap2_get_assertion T K req resp_max = respond
     (op_bind ctap2_assertion_reset (\<lambda>_.
      case ctap2_parse_get_assertion req of
        Inl e \<Rightarrow> op_fail e
      | Inr q \<Rightarrow>
          let u = (opt_up (ga_opt q) \<noteq> 0); rp_hash = sha256 K (ga_rp_id q)
          in op_bind (ga_checked T K q u rp_hash) (\<lambda>x.
             op_bind (if u then op_bind wait_touch (\<lambda>_. on_puat (\<lambda>t. ((), puat_consume t))) else op_ret ()) (\<lambda>_.
             ga_answer T K q u rp_hash resp_max x))))"

definition ctap2_get_next_assertion ::
  "'c tropic \<Rightarrow> crypto \<Rightarrow> nat \<Rightarrow> 'c auth \<Rightarrow> bytes option \<times> 'c auth" where
  "ctap2_get_next_assertion T K resp_max = respond
     (op_bind (op_get a_ga) (\<lambda>g.
      op_bind (op_unless (\<not> g_active g \<or> g_pos g \<ge> g_count g) CTAP2_ERR_NOT_ALLOWED) (\<lambda>_.
      op_bind tick (\<lambda>now.
      if now - g_last_ms g > GET_NEXT_TIMEOUT_MS then
        op_bind ctap2_assertion_reset (\<lambda>_. op_fail CTAP2_ERR_NOT_ALLOWED)
      else
        op_bind tick (\<lambda>now2 s. ga_sign_respond T K (g_slots g ! g_pos g) (g_rp_hash g) (g_flags g)
          (g_client_hash g) 0 resp_max
          (s\<lparr>a_ga := g\<lparr>g_pos := Suc (g_pos g), g_last_ms := now2\<rparr>\<rparr>))))))"

section \<open>What a value means\<close>

text \<open>The token verifies over the client data hash at a time the clock shows, with the permission, for this RP.\<close>

definition token_ok :: "crypto \<Rightarrow> ctap2_pin_uv \<Rightarrow> bytes \<Rightarrow> u8 \<Rightarrow> bytes \<Rightarrow> 'c auth \<Rightarrow> bool" where
  "token_ok K pu client_hash perm rp_hash s \<longleftrightarrow>
     (\<exists>n t. puat_verify K (Some (pu_param pu)) client_hash (a_clock s n) (a_puat s) = (0, t) \<and>
        puat_user_verified t \<and> puat_has_perm perm t \<and> puat_rp_matches rp_hash t)"

text \<open>The next wait for a touch ends with a confirmed press.\<close>

definition touched :: "'c auth \<Rightarrow> bool" where
  "touched s \<longleftrightarrow> (case a_touch s (a_touches s) of (start, rs) \<Rightarrow>
     fst (user_presence_check UP_TIMEOUT_MS start rs (a_up s)) = Some UP_OK)"

lemma check_token_val:
  assumes "check_token K pu h perm rp s = (Val x, s')"
  shows "token_ok K pu h perm rp s"
proof -
  let ?v = "puat_verify K (Some (pu_param pu)) h (a_clock s (a_ticks s)) (a_puat s)"
  have "fst ?v = 0" "puat_user_verified (snd ?v)" "puat_has_perm perm (snd ?v)" "puat_rp_matches rp (snd ?v)"
    using assms by (auto simp: check_token_def op_vals on_puat_def split: prod.splits)
  then show ?thesis unfolding token_ok_def by (metis prod.collapse)
qed

lemma token_ok_pin_state:
  "token_ok K pu h perm rp (s\<lparr>a_pin := snd (pin_is_set T K (a_pin s))\<rparr>) = token_ok K pu h perm rp s"
  by (simp add: token_ok_def pin_state_puat)

lemma mc_uv_policy_val:
  assumes "mc_uv_policy T K q rk rp s = (Val uv, s')"
  shows "uv = 0 \<or> uv = FLAG_UV"
    and "uv \<noteq> 0 \<Longrightarrow> token_ok K (mc_pin_uv q) (mc_client_hash q) PUAT_PERM_MC rp s"
    and "slots_force_uv_get (a_slots s) \<noteq> 0 \<or> rk \<and> fst (pin_is_set T K (a_pin s)) \<Longrightarrow> uv = FLAG_UV"
proof -
  let ?s = "s\<lparr>a_pin := snd (pin_is_set T K (a_pin s))\<rparr>"
  let ?tok = "fst (pin_is_set T K (a_pin s)) \<and> pu_has_param (mc_pin_uv q)"
  have v: "if ?tok then uv = FLAG_UV \<and> (\<exists>x s2. check_token K (mc_pin_uv q) (mc_client_hash q) PUAT_PERM_MC rp ?s = (Val x, s2))
      else uv = 0"
    and g: "slots_force_uv_get (a_slots s) \<noteq> 0 \<longrightarrow> ?tok" "fst (pin_is_set T K (a_pin s)) \<and> rk \<longrightarrow> ?tok"
    using assms by (auto simp: mc_uv_policy_def op_vals pin_state_slots split: if_splits)
  show "uv = 0 \<or> uv = FLAG_UV" using v by presburger
  show "token_ok K (mc_pin_uv q) (mc_client_hash q) PUAT_PERM_MC rp s" if "uv \<noteq> 0"
    using v that check_token_val token_ok_pin_state by metis
  show "uv = FLAG_UV" if "slots_force_uv_get (a_slots s) \<noteq> 0 \<or> rk \<and> fst (pin_is_set T K (a_pin s))"
    using v g that by metis
qed

lemma ga_uv_policy_val:
  assumes "ga_uv_policy T K q u rp s = (Val uv, s')"
  shows "uv = 0 \<or> uv = FLAG_UV"
    and "uv \<noteq> 0 \<Longrightarrow> token_ok K (ga_pin_uv q) (ga_client_hash q) PUAT_PERM_GA rp s"
    and "slots_force_uv_get (a_slots s) \<noteq> 0 \<and> u \<Longrightarrow> uv = FLAG_UV"
proof -
  let ?s = "s\<lparr>a_pin := snd (pin_is_set T K (a_pin s))\<rparr>"
  let ?tok = "fst (pin_is_set T K (a_pin s)) \<and> pu_has_param (ga_pin_uv q)"
  have v: "if ?tok then uv = FLAG_UV \<and> (\<exists>x s2. check_token K (ga_pin_uv q) (ga_client_hash q) PUAT_PERM_GA rp ?s = (Val x, s2))
      else uv = 0"
    and g: "slots_force_uv_get (a_slots s) \<noteq> 0 \<and> u \<longrightarrow> ?tok"
    using assms by (auto simp: ga_uv_policy_def op_vals pin_state_slots split: if_splits)
  show "uv = 0 \<or> uv = FLAG_UV" using v by presburger
  show "token_ok K (ga_pin_uv q) (ga_client_hash q) PUAT_PERM_GA rp s" if "uv \<noteq> 0"
    using v that check_token_val token_ok_pin_state by metis
  show "uv = FLAG_UV" if "slots_force_uv_get (a_slots s) \<noteq> 0 \<and> u"
    using v g that by metis
qed

section \<open>What the steps leave alone\<close>

lemma find_listed_frame: "keeps same_creds (find_listed T K rp it)" "keeps unasked (find_listed T K rp it)"
proof -
  have "same_creds s (snd (find_listed T K rp it s)) \<and> unasked s (snd (find_listed T K rp it s))" for s
  proof (induction T K rp it s rule: find_listed.induct)
    case (1 T K rp it s)
    show ?case
    proof (cases "ctap2_cred_iter_next it")
      case (Pair i it1)
      show ?thesis
      proof (cases i)
        case None
        then show ?thesis using Pair by (simp add: find_listed.simps [of T K rp it])
      next
        case (Some cid)
        obtain x k c where f: "credstore_find T K cid rp (cred_of s) (a_chip s) = (x, k, c)"
          by (metis prod_cases3)
        have "on_cred (credstore_find T K cid rp) s = (Val x, put_cred k c s)" by (simp add: on_cred_def f)
        then have fr: "same_creds s (put_cred k c s)" "unasked s (put_cred k c s)"
          using keepsD [OF same_creds_store(1)] keepsD [OF unasked_cred] by blast+
        have ih: "same_creds (put_cred k c s) (snd (find_listed T K rp it1 (put_cred k c s))) \<and>
            unasked (put_cred k c s) (snd (find_listed T K rp it1 (put_cred k c s)))" if "x = None"
          using 1 [OF Pair [symmetric] Some f [symmetric]] that by simp
        have e: "find_listed T K rp it s = (case x of None \<Rightarrow> find_listed T K rp it1 (put_cred k c s)
            | Some y \<Rightarrow> (Val (Option.Some (fst y)), put_cred k c s))"
          by (simp add: find_listed.simps [of T K rp it] Pair Some f split: option.splits prod.splits)
        show ?thesis unfolding e
          using fr ih transpD [OF frame_orders(2) fr(1)] transpD [OF frame_orders(4) fr(2)]
          by (cases x) auto
      qed
    qed
  qed
  then show "keeps same_creds (find_listed T K rp it)" "keeps unasked (find_listed T K rp it)"
    by (simp_all add: keeps_def)
qed

lemma check_token_frame: "keeps same_creds (check_token K pu h perm rp)" "keeps unasked (check_token K pu h perm rp)"
  unfolding check_token_def by (intro keeps_bind frames frame_orders)+

lemma touch_frame: "keeps same_creds wait_touch" "keeps same_creds (pin_probe T K)"
  unfolding pin_probe_def wait_touch_def by (intro keeps_bind frames frame_orders)+

lemma protocol_frame: "keeps same_creds (check_pin_uv_protocol pu)" "keeps unasked (check_pin_uv_protocol pu)"
  unfolding check_pin_uv_protocol_def by (intro keeps_cases frames frame_orders)+

lemma probe_quiet: "val_keeps unasked (if b then pin_probe T K else op_ret ())"
  unfolding pin_probe_def by (intro val_keeps_cases val_keeps_fail val_keeps_keeps frames frame_orders)

lemma mc_policy_frame: "keeps same_creds (mc_uv_policy T K q rk rp)" "keeps unasked (mc_uv_policy T K q rk rp)"
  unfolding mc_uv_policy_def by (intro keeps_bind keeps_cases frames check_token_frame frame_orders)+

lemma ga_policy_frame: "keeps same_creds (ga_uv_policy T K q u rp)" "keeps unasked (ga_uv_policy T K q u rp)"
  unfolding ga_uv_policy_def by (intro keeps_bind keeps_cases frames check_token_frame frame_orders)+

lemma excluded_frame: "keeps same_creds (mc_excluded T K q rp)" "val_keeps unasked (mc_excluded T K q rp)"
proof -
  show "keeps same_creds (mc_excluded T K q rp)"
    unfolding mc_excluded_def by (intro keeps_bind keeps_cases frames find_listed_frame frame_orders)
  show "val_keeps unasked (mc_excluded T K q rp)"
    unfolding mc_excluded_def
    by (intro val_keeps_bind val_keeps_cases val_keeps_fail val_keeps_keeps find_listed_frame frames frame_orders)
qed

lemma mc_scan_frame: "keeps same_creds (mc_scan T q rp rk)" "keeps unasked (mc_scan T q rp rk)"
  unfolding mc_scan_def by (intro keeps_bind frames frame_orders)+

lemma mc_collect_frame: "keeps same_creds (mc_collect T K q rp rk)" "keeps unasked (mc_collect T K q rp rk)"
  unfolding mc_collect_def by (intro keeps_bind keeps_cases frames mc_scan_frame frame_orders)+

lemma mc_checked_frame: "keeps same_creds (mc_checked T K q rp rk)" "val_keeps unasked (mc_checked T K q rp rk)"
proof -
  show "keeps same_creds (mc_checked T K q rp rk)"
    unfolding mc_checked_def
    by (intro keeps_bind keeps_cases frames touch_frame protocol_frame mc_policy_frame excluded_frame mc_collect_frame
        frame_orders)
  show "val_keeps unasked (mc_checked T K q rp rk)"
    unfolding mc_checked_def
    by (intro val_keeps_bind probe_quiet excluded_frame val_keeps_cases val_keeps_fail
        val_keeps_keeps [OF protocol_frame(2)] val_keeps_keeps [OF mc_policy_frame(2)]
        val_keeps_keeps [OF mc_collect_frame(2)] val_keeps_keeps frames frame_orders)
qed

lemma wait_touch_val: "wait_touch s = (Val x, s') \<Longrightarrow> touched s"
  by (auto simp: wait_touch_def op_vals touched_def)

lemma touched_unasked: "unasked s s' \<Longrightarrow> touched s' = touched s"
  by (simp add: unasked_def touched_def)

text \<open>The steps before the policy leave the state as it is when they let a request pass.\<close>

lemma before_policy:
  "(if b then pin_probe T K else op_ret ()) s = (Val x, s') \<Longrightarrow> s' = s"
  "check_pin_uv_protocol pu s = (Val x, s') \<Longrightarrow> s' = s"
  by (auto simp: pin_probe_def check_pin_uv_protocol_def op_vals split: if_splits)

lemma mc_checked_val:
  assumes "mc_checked T K q rp rk s = (Val (uv, x), s')"
  obtains s1 where "mc_uv_policy T K q rk rp s = (Val uv, s1)"
proof -
  from assms obtain y s1 z s2 s3 where "(if pu_has_param (mc_pin_uv q) \<and> pu_param (mc_pin_uv q) = [] then pin_probe T K
        else op_ret ()) s = (Val y, s1)"
    and "check_pin_uv_protocol (mc_pin_uv q) s1 = (Val z, s2)" and m: "mc_uv_policy T K q rk rp s2 = (Val uv, s3)"
    unfolding mc_checked_def op_vals by blast
  then have "s2 = s" using before_policy by metis
  then show thesis using m that by simp
qed

text \<open>Creating and answering do not touch the token.\<close>

abbreviation same_puat :: "'c auth \<Rightarrow> 'c auth \<Rightarrow> bool" where
  "same_puat s s' \<equiv> a_puat s' = a_puat s"

lemma puat_frame:
  "keeps same_puat (on_cred f)" "keeps same_puat (on_chip g)" "keeps same_puat (op_res r)"
  "reflp (\<lambda>s s'. same_puat s s')" "transp (\<lambda>s s'. same_puat s s')"
  by (auto simp: keeps_def on_cred_def put_cred_def on_chip_def on_pin_def op_res_def reflp_def transp_def
      split: prod.splits)

lemma mc_create_puat: "keeps same_puat (mc_create T K q rp rk mx x)"
  unfolding mc_create_def by (intro keeps_bind keeps_cases puat_frame keeps_pure)

section \<open>Assertions\<close>

text \<open>
  \<open>r\<close> answers a signature that the credential in \<open>slot\<close>, allocated and made for this RP, gave over the
  authenticator data and the client data hash, and nothing else.
\<close>

definition signed ::
  "'c tropic \<Rightarrow> slot_mgr \<Rightarrow> bytes \<Rightarrow> u8 \<Rightarrow> bytes \<Rightarrow> nat \<Rightarrow> nat \<Rightarrow> nat \<Rightarrow> bytes \<Rightarrow> bool" where
  "signed T m rp fl client_hash slot n resp_max r \<longleftrightarrow>
     (\<exists>meta sc sig c1 c1' c2 c2'.
        slots_read_meta T (int slot) m c1 = (Inr meta, c1') \<and> rp_id_hash meta = rp \<and>
        credstore_sign T (int slot) (alg meta) (rp @ [fl] @ be32_store sc @ client_hash) c2 = (Inr sig, c2') \<and>
        ga_response meta slot (rp @ [fl] @ be32_store sc) sig n resp_max = Val r)"

lemma authdata_plain:
  "fl AND FLAG_AT = 0 \<Longrightarrow> build_authdata rp fl sc [] [] (37 + 32) = Some (rp @ [fl] @ be32_store sc)"
  by (simp add: build_authdata_def)

lemma op_res_val [op_vals]: "op_res r s = (Val y, s') \<longleftrightarrow> r = Val y \<and> s' = s"
  by (auto simp: op_res_def)

lemma sign_respond_val:
  assumes "ga_sign_respond T K slot rp fl h n mx s = (Val r, s')" and "fl AND FLAG_AT = 0"
  shows "signed T (a_slots s) rp fl h slot n mx r"
proof -
  obtain s1 s2 s3 meta sc sig where x: "on_chip (slots_read_meta T (int slot) (a_slots s)) s = (Val (Inr meta), s1)"
    and "rp_id_hash meta = rp"
    and sg: "on_chip (credstore_sign T (int slot) (alg meta) ((rp @ [fl] @ be32_store sc) @ h)) s2 = (Val (Inr sig), s3)"
    and r: "ga_response meta slot (rp @ [fl] @ be32_store sc) sig n mx = Val r"
    using assms(1) unfolding ga_sign_respond_def authdata_plain [OF assms(2)] op_bind_val op_get_val op_sum_val
      op_option_val op_unless_val op_if_fail_val op_res_val by blast
  moreover obtain c1 where "slots_read_meta T (int slot) (a_slots s) (a_chip s) = (Inr meta, c1)"
    using x by (auto simp: on_chip_def on_pin_val split: prod.splits)
  moreover obtain c2 where "credstore_sign T (int slot) (alg meta) ((rp @ [fl] @ be32_store sc) @ h) (a_chip s2)
      = (Inr sig, c2)"
    using sg by (auto simp: on_chip_def on_pin_val split: prod.splits)
  ultimately show ?thesis unfolding signed_def append_assoc by blast
qed

lemma sign_respond_frame: "keeps same_creds (ga_sign_respond T K slot rp fl h n mx)"
  "keeps unasked (ga_sign_respond T K slot rp fl h n mx)" "keeps same_puat (ga_sign_respond T K slot rp fl h n mx)"
  unfolding ga_sign_respond_def
  by (intro keeps_bind keeps_cases frames puat_frame frame_orders | simp add: keeps_def op_res_def)+

text \<open>The remembered assertion state, untouched or but for the slots found.\<close>

abbreviation same_ga :: "'c auth \<Rightarrow> 'c auth \<Rightarrow> bool" where
  "same_ga s s' \<equiv> a_ga s' = a_ga s"

abbreviation same_active :: "'c auth \<Rightarrow> 'c auth \<Rightarrow> bool" where
  "same_active s s' \<equiv> g_active (a_ga s') = g_active (a_ga s)"

lemma ga_frame:
  "keeps same_ga (on_cred f)" "keeps same_ga (on_chip g)" "keeps same_ga (on_pin h)" "keeps same_ga (on_puat p)"
  "keeps same_ga tick" "keeps same_ga (presence t)" "keeps same_ga (op_res r)" "keeps same_ga (find_listed T K rp it)"
  "reflp (\<lambda>s s'. same_ga s s')" "transp (\<lambda>s s'. same_ga s s')"
  "reflp (\<lambda>s s'. same_active s s')" "transp (\<lambda>s s'. same_active s s')"
proof -
  have "a_ga (snd (find_listed T K rp it s)) = a_ga s" for s
  proof (induction T K rp it s rule: find_listed.induct)
    case (1 T K rp it s)
    then show ?case
      by (subst find_listed.simps) (simp add: put_cred_def split: option.splits prod.splits)
  qed
  then show "keeps same_ga (find_listed T K rp it)" by (simp add: keeps_def)
qed (auto simp: keeps_def on_cred_def put_cred_def on_chip_def on_puat_def on_pin_def op_res_def tick_def presence_def
    reflp_def transp_def split: prod.splits)

lemma active_of_same: "keeps same_ga m \<Longrightarrow> keeps same_active m"
  by (simp add: keeps_def)

lemma sign_respond_ga: "keeps same_ga (ga_sign_respond T K slot rp fl h n mx)"
  unfolding ga_sign_respond_def by (intro keeps_bind keeps_cases ga_frame keeps_pure)

lemma found_frames:
  "keeps same_creds (ga_from_allow_list T K q rp)" "keeps unasked (ga_from_allow_list T K q rp)"
  "keeps same_active (ga_from_allow_list T K q rp)"
  "keeps same_creds (ga_discover T rp)" "keeps unasked (ga_discover T rp)" "keeps same_active (ga_discover T rp)"
proof -
  have upd: "keeps same_creds (\<lambda>s. (x s, s\<lparr>a_ga := (a_ga s)\<lparr>g_slots := y s\<rparr>\<rparr>))"
    "keeps unasked (\<lambda>s. (x s, s\<lparr>a_ga := (a_ga s)\<lparr>g_slots := y s\<rparr>\<rparr>))"
    "keeps same_active (\<lambda>s. (x s, s\<lparr>a_ga := (a_ga s)\<lparr>g_slots := y s\<rparr>\<rparr>))" for x y
    by (simp_all add: keeps_def same_creds_def unasked_def)
  show "keeps same_creds (ga_from_allow_list T K q rp)" "keeps unasked (ga_from_allow_list T K q rp)"
    "keeps same_active (ga_from_allow_list T K q rp)"
    unfolding ga_from_allow_list_def
    by (intro keeps_bind keeps_cases frames find_listed_frame frame_orders ga_frame
        active_of_same [OF ga_frame(8)] upd)+
  show "keeps same_creds (ga_discover T rp)" "keeps unasked (ga_discover T rp)" "keeps same_active (ga_discover T rp)"
    unfolding ga_discover_def
    by (intro keeps_bind keeps_cases frames frame_orders ga_frame active_of_same [OF ga_frame(2)] upd)+
qed

lemma touch_ga: "keeps same_ga wait_touch" "keeps same_ga (pin_probe T K)"
  unfolding wait_touch_def pin_probe_def by (intro keeps_bind ga_frame keeps_pure)+

lemma policy_ga: "keeps same_ga (ga_uv_policy T K q u rp)" "keeps same_ga (check_pin_uv_protocol pu)"
  unfolding ga_uv_policy_def check_token_def check_pin_uv_protocol_def
  by (intro keeps_bind keeps_cases ga_frame keeps_pure)+

lemma ga_checked_frame: "keeps same_creds (ga_checked T K q u rp)" "val_keeps unasked (ga_checked T K q u rp)"
  "keeps same_active (ga_checked T K q u rp)"
proof -
  show "keeps same_creds (ga_checked T K q u rp)"
    unfolding ga_checked_def
    by (intro keeps_bind keeps_cases frames touch_frame protocol_frame ga_policy_frame found_frames frame_orders)
  show "val_keeps unasked (ga_checked T K q u rp)"
    unfolding ga_checked_def
    by (intro val_keeps_bind probe_quiet val_keeps_keeps [OF protocol_frame(2)] val_keeps_keeps [OF ga_policy_frame(2)]
        val_keeps_cases val_keeps_keeps [OF found_frames(2)] val_keeps_keeps [OF found_frames(5)]
        val_keeps_keeps frames frame_orders)
  show "keeps same_active (ga_checked T K q u rp)"
    unfolding ga_checked_def
    by (intro keeps_bind keeps_cases active_of_same [OF touch_ga(2)] active_of_same [OF policy_ga(2)]
        active_of_same [OF policy_ga(1)] found_frames keeps_pure ga_frame)
qed

lemma ga_checked_val:
  assumes "ga_checked T K q u rp s = (Val (count, uv), s')"
  obtains s1 where "ga_uv_policy T K q u rp s = (Val uv, s1)"
proof -
  from assms obtain y s1 z s2 s3 where "(if pu_has_param (ga_pin_uv q) \<and> pu_param (ga_pin_uv q) = [] then pin_probe T K
        else op_ret ()) s = (Val y, s1)"
    and "check_pin_uv_protocol (ga_pin_uv q) s1 = (Val z, s2)" and m: "ga_uv_policy T K q u rp s2 = (Val uv, s3)"
    unfolding ga_checked_def op_vals by blast
  then have "s2 = s" using before_policy by metis
  then show thesis using m that by simp
qed

text \<open>What the flags of an assertion say, and that the always-UV setting is kept.\<close>

definition consent :: "'c tropic \<Rightarrow> crypto \<Rightarrow> ctap2_ga_req \<Rightarrow> u8 \<Rightarrow> 'c auth \<Rightarrow> bool" where
  "consent T K q fl s \<longleftrightarrow>
     (fl AND FLAG_UP \<noteq> 0 \<longleftrightarrow> opt_up (ga_opt q) \<noteq> 0) \<and>
     (fl AND FLAG_UP \<noteq> 0 \<longrightarrow> touched s) \<and>
     (fl AND FLAG_UV \<noteq> 0 \<longrightarrow> token_ok K (ga_pin_uv q) (ga_client_hash q) PUAT_PERM_GA (sha256 K (ga_rp_id q)) s) \<and>
     (slots_force_uv_get (a_slots s) \<noteq> 0 \<and> fl AND FLAG_UP \<noteq> 0 \<longrightarrow> fl AND FLAG_UV \<noteq> 0)"

lemma flag_bits:
  assumes "uv = 0 \<or> uv = FLAG_UV"
  shows "((if u then FLAG_UP else 0) OR uv) AND FLAG_AT = 0"
    and "((if u then FLAG_UP else 0) OR uv) AND FLAG_UP \<noteq> 0 \<longleftrightarrow> u"
    and "((if u then FLAG_UP else 0) OR uv) AND FLAG_UV \<noteq> 0 \<longleftrightarrow> uv \<noteq> 0"
  using assms by (auto simp: FLAG_UP_def FLAG_UV_def FLAG_AT_def)

lemma reset_frame: "ctap2_assertion_reset s = (Val (), s\<lparr>a_ga := ga_zero\<rparr>)"
  by (simp add: ctap2_assertion_reset_def)

lemma reset_views:
  "touched (s\<lparr>a_ga := g\<rparr>) = touched s" "token_ok K pu h p rp (s\<lparr>a_ga := g\<rparr>) = token_ok K pu h p rp s"
  "consent T K q fl (s\<lparr>a_ga := g\<rparr>) = consent T K q fl s"
  by (simp_all add: touched_def token_ok_def consent_def)

text \<open>Either nothing more can be returned, or the state is the one of \<open>g\<close> at position \<open>i\<close>.\<close>

definition session_at :: "ga_state \<Rightarrow> nat \<Rightarrow> 'c auth \<Rightarrow> bool" where
  "session_at g i s \<longleftrightarrow> \<not> g_active (a_ga s) \<or> g_pos (a_ga s) \<ge> g_count (a_ga s) \<or>
     (\<exists>x. a_ga s = g\<lparr>g_pos := i, g_last_ms := x\<rparr>)"

lemma session_start:
  "a_ga s = g\<lparr>g_active := True, g_count := c, g_pos := 1, g_client_hash := h, g_rp_hash := rp, g_flags := fl,
     g_last_ms := now\<rparr> \<Longrightarrow>
   session_at \<lparr>g_active = True, g_slots = g_slots g, g_count = c, g_pos = 1, g_client_hash = h, g_rp_hash = rp,
     g_flags = fl, g_last_ms = 0\<rparr> 1 s"
  by (cases g) (simp add: session_at_def)

lemma get_assertion_val:
  assumes "a_initted s" and ga: "ctap2_get_assertion T K req mx s = (Some r, s')" and "length r > 1"
  obtains q fl n count slots where "ctap2_parse_get_assertion req = Inr q" "consent T K q fl s" "fl AND FLAG_AT = 0"
    "same_creds s s'"
    "signed T (a_slots s) (sha256 K (ga_rp_id q)) fl (ga_client_hash q) (slots ! 0) n mx r"
    "session_at \<lparr>g_active = True, g_slots = slots, g_count = count, g_pos = 1, g_client_hash = ga_client_hash q,
       g_rp_hash = sha256 K (ga_rp_id q), g_flags = fl, g_last_ms = 0\<rparr> 1 s'"
proof -
  let ?s = "s\<lparr>a_ga := ga_zero\<rparr>"
  have v: "op_bind ctap2_assertion_reset (\<lambda>_. case ctap2_parse_get_assertion req of Inl e \<Rightarrow> op_fail e | Inr q \<Rightarrow>
      let u = (opt_up (ga_opt q) \<noteq> 0); rp_hash = sha256 K (ga_rp_id q)
      in op_bind (ga_checked T K q u rp_hash) (\<lambda>x.
         op_bind (if u then op_bind wait_touch (\<lambda>_. on_puat (\<lambda>t. ((), puat_consume t))) else op_ret ()) (\<lambda>_.
         ga_answer T K q u rp_hash mx x))) s = (Val r, s')"
    using respond_some ga assms(3) unfolding ctap2_get_assertion_def by blast
  obtain q where q: "ctap2_parse_get_assertion req = Inr q"
    using v by (cases "ctap2_parse_get_assertion req") (auto simp: op_vals reset_frame)
  let ?u = "opt_up (ga_opt q) \<noteq> 0" and ?rp = "sha256 K (ga_rp_id q)" and ?h = "ga_client_hash q"
  let ?touch = "if ?u then op_bind wait_touch (\<lambda>_. on_puat (\<lambda>t. ((), puat_consume t))) else op_ret ()"
  from v obtain count uv s1 y s2 where 1: "ga_checked T K q ?u ?rp ?s = (Val (count, uv), s1)"
    and 2: "?touch s1 = (Val y, s2)" and 3: "ga_answer T K q ?u ?rp mx (count, uv) s2 = (Val r, s')"
    unfolding op_bind_val reset_frame q Let_def sum.case by auto
  let ?fl = "(if ?u then FLAG_UP else 0) OR uv" and ?n = "if ga_allow q \<noteq> None then 0 else count"
  obtain t where pol: "ga_uv_policy T K q ?u ?rp ?s = (Val uv, t)" using ga_checked_val [OF 1] .
  note uv = ga_uv_policy_val [OF pol] and fl = flag_bits [OF ga_uv_policy_val(1) [OF pol], of ?u]
  have kt: "keeps same_creds ?touch" "keeps same_active ?touch"
    by (intro keeps_cases keeps_bind touch_frame frames frame_orders)
      (intro keeps_cases keeps_bind active_of_same touch_ga ga_frame keeps_pure)
  have c12: "same_creds s s1" "same_creds s1 s2"
    using keepsD [OF ga_checked_frame(1) 1] keepsD [OF kt(1) 2] by (simp_all add: same_creds_def)
  have act: "\<not> g_active (a_ga s2)"
    using keepsD [OF ga_checked_frame(3) 1] keepsD [OF kt(2) 2] by (simp add: ga_zero_def)
  have tch: "touched s" if hu: "?u"
  proof -
    obtain z s3 where "wait_touch s1 = (Val z, s3)" using 2 unfolding if_P [OF hu] op_bind_val by blast
    then show ?thesis
      using wait_touch_val touched_unasked [OF val_keepsD [OF ga_checked_frame(2) 1]] reset_views(1) by blast
  qed
  have con: "consent T K q ?fl s"
  proof -
    have "uv \<noteq> 0 \<Longrightarrow> token_ok K (ga_pin_uv q) ?h PUAT_PERM_GA ?rp s" using uv(2) reset_views(2) by blast
    moreover have "slots_force_uv_get (a_slots s) \<noteq> 0 \<and> ?u \<Longrightarrow> uv \<noteq> 0" using uv(3) by (simp add: FLAG_UV_def)
    ultimately show ?thesis unfolding consent_def fl(2,3) using tch by blast
  qed
  obtain resp s3 where sg: "ga_sign_respond T K (g_slots (a_ga s2) ! 0) ?rp ?fl ?h ?n mx s2 = (Val resp, s3)"
    and tail: "(if count > 1 then
        op_bind tick (\<lambda>now s. (Val resp, s\<lparr>a_ga := (a_ga s)\<lparr>g_active := True, g_count := count, g_pos := 1,
          g_client_hash := ?h, g_rp_hash := ?rp, g_flags := ?fl, g_last_ms := now\<rparr>\<rparr>))
      else op_ret resp) s3 = (Val r, s')"
    using 3 unfolding ga_answer_def op_bind_val op_get_val Let_def prod.case by blast
  have sl: "a_slots s2 = a_slots s" using c12 assms(1) by (auto simp: same_creds_def)
  have r: "resp = r" using tail by (auto simp: op_vals split: if_splits)
  have g3: "a_ga s3 = a_ga s2" using keepsD [OF sign_respond_ga sg] .
  have c3: "same_creds s2 s3" using keepsD [OF sign_respond_frame(1) sg] .
  have c4: "same_creds s3 s'" using tail by (auto simp: op_vals same_creds_def split: if_splits)
  have "same_creds s s'" using c12 c3 c4 by (auto simp: same_creds_def)
  moreover have "signed T (a_slots s) ?rp ?fl ?h (g_slots (a_ga s2) ! 0) ?n mx r"
    using sign_respond_val [OF sg fl(1)] sl r by simp
  moreover have "session_at \<lparr>g_active = True, g_slots = g_slots (a_ga s2), g_count = count, g_pos = 1, g_client_hash = ?h,
       g_rp_hash = ?rp, g_flags = ?fl, g_last_ms = 0\<rparr> 1 s'"
  proof (cases "count > 1")
    case True
    then have "a_ga s' = (a_ga s2)\<lparr>g_active := True, g_count := count, g_pos := 1, g_client_hash := ?h,
        g_rp_hash := ?rp, g_flags := ?fl, g_last_ms := a_clock s3 (a_ticks s3)\<rparr>"
      using tail g3 by (clarsimp simp only: if_True op_bind_val tick_val prod.inject) simp
    then show ?thesis by (rule session_start)
  next
    case False
    then show ?thesis using tail act g3 by (simp add: op_vals session_at_def)
  qed
  ultimately show thesis using q con fl(1) that by blast
qed

text \<open>Repeated GetNextAssertion.\<close>

fun next_assertions :: "'c tropic \<Rightarrow> crypto \<Rightarrow> nat \<Rightarrow> nat \<Rightarrow> 'c auth \<Rightarrow> bytes option list \<times> 'c auth" where
  "next_assertions T K mx 0 s = ([], s)"
| "next_assertions T K mx (Suc k) s =
     (case ctap2_get_next_assertion T K mx s of (r, s1) \<Rightarrow>
      case next_assertions T K mx k s1 of (rs, s2) \<Rightarrow> (r # rs, s2))"

lemma next_step:
  assumes nx: "ctap2_get_next_assertion T K mx s = (resp, s')" and "session_at g i s"
    and "g_flags g AND FLAG_AT = 0"
  shows "session_at g (Suc i) s'" and "same_creds s s'"
    and "resp = Some r \<Longrightarrow> length r > 1 \<Longrightarrow>
      signed T (a_slots s) (g_rp_hash g) (g_flags g) (g_client_hash g) (g_slots g ! i) 0 mx r \<and> i < g_count g"
proof -
  let ?g = "a_ga s"
  let ?t1 = "s\<lparr>a_ticks := Suc (a_ticks s)\<rparr>"
  let ?t2 = "s\<lparr>a_ticks := Suc (Suc (a_ticks s)),
    a_ga := ?g\<lparr>g_pos := Suc (g_pos ?g), g_last_ms := a_clock s (Suc (a_ticks s))\<rparr>\<rparr>"
  obtain rs s2 where sg: "ga_sign_respond T K (g_slots ?g ! g_pos ?g) (g_rp_hash ?g) (g_flags ?g) (g_client_hash ?g) 0 mx
      ?t2 = (rs, s2)" by fastforce
  have ga2: "a_ga s2 = a_ga ?t2" and c2: "same_creds ?t2 s2"
    using keepsD [OF sign_respond_ga sg] keepsD [OF sign_respond_frame(1) sg] .
  have dead: "\<not> g_active ?g \<or> g_pos ?g \<ge> g_count ?g \<Longrightarrow> s' = s \<and> resp = status CTAP2_ERR_NOT_ALLOWED"
    using nx by (auto simp: ctap2_get_next_assertion_def op_bind_def op_get_def op_unless_def op_fail_def respond_def)
  consider (dead) "\<not> g_active ?g \<or> g_pos ?g \<ge> g_count ?g"
    | (late) "g_active ?g" "g_pos ?g < g_count ?g" "a_clock s (a_ticks s) - g_last_ms ?g > GET_NEXT_TIMEOUT_MS"
    | (live) "g_active ?g" "g_pos ?g < g_count ?g" "\<not> a_clock s (a_ticks s) - g_last_ms ?g > GET_NEXT_TIMEOUT_MS"
    by fastforce
  then have "session_at g (Suc i) s' \<and> same_creds s s' \<and> (resp = Some r \<longrightarrow> length r > 1 \<longrightarrow>
      signed T (a_slots s) (g_rp_hash g) (g_flags g) (g_client_hash g) (g_slots g ! i) 0 mx r \<and> i < g_count g)"
  proof cases
    case dead
    then show ?thesis using \<open>_ \<Longrightarrow> s' = s \<and> _\<close> by (auto simp: session_at_def status_def)
  next
    case late
    then have "s' = ?t1\<lparr>a_ga := ga_zero\<rparr> \<and> resp = status CTAP2_ERR_NOT_ALLOWED"
      using nx by (simp add: ctap2_get_next_assertion_def op_bind_def op_get_def op_unless_def op_ret_def op_fail_def
          tick_def reset_frame respond_def)
    then show ?thesis by (auto simp: session_at_def ga_zero_def same_creds_def status_def)
  next
    case live
    have e: "respond (\<lambda>_. (rs, s2)) s = (resp, s')"
      using nx live by (simp add: ctap2_get_next_assertion_def op_bind_def op_get_def op_unless_def op_ret_def
          tick_def respond_def sg)
    then have s': "s' = s2" by (auto simp: respond_def split: res.splits)
    obtain x where x: "?g = g\<lparr>g_pos := i, g_last_ms := x\<rparr>" using assms(2) live by (auto simp: session_at_def)
    have "session_at g (Suc i) s'" using ga2 x s' by (auto simp: session_at_def)
    moreover have "same_creds s s'" using c2 s' by (auto simp: same_creds_def)
    moreover have "signed T (a_slots s) (g_rp_hash g) (g_flags g) (g_client_hash g) (g_slots g ! i) 0 mx r \<and> i < g_count g"
      if "resp = Some r" "length r > 1"
    proof -
      have "rs = Val r" using e that by (auto simp: respond_def status_def split: res.splits)
      then show ?thesis using sign_respond_val [of T K "g_slots ?g ! g_pos ?g"] sg assms(3) x live(2) by fastforce
    qed
    ultimately show ?thesis by blast
  qed
  then show "session_at g (Suc i) s'" and "same_creds s s'"
    and "resp = Some r \<Longrightarrow> length r > 1 \<Longrightarrow>
      signed T (a_slots s) (g_rp_hash g) (g_flags g) (g_client_hash g) (g_slots g ! i) 0 mx r \<and> i < g_count g"
    by blast+
qed

lemma next_walk:
  assumes "a_initted s" and "session_at g i s" and "g_flags g AND FLAG_AT = 0"
    and "next_assertions T K mx k s = (rs, s')" and "j < k" and "rs ! j = Some r" and "length r > 1"
  shows "signed T (a_slots s) (g_rp_hash g) (g_flags g) (g_client_hash g) (g_slots g ! (i + j)) 0 mx r \<and> i + j < g_count g"
  using assms
proof (induction k arbitrary: s i rs j)
  case (Suc k)
  obtain r1 s1 where 1: "ctap2_get_next_assertion T K mx s = (r1, s1)" by fastforce
  obtain rs2 where 2: "next_assertions T K mx k s1 = (rs2, s')" and rs: "rs = r1 # rs2"
    using Suc.prems(4) 1 by (auto split: prod.splits)
  note st = next_step [OF 1 Suc.prems(2,3)]
  show ?case
  proof (cases j)
    case 0
    then show ?thesis using st(3) [of r] Suc.prems rs by simp
  next
    case (Suc j')
    then show ?thesis using Suc.IH [OF _ st(1) Suc.prems(3) 2, of j'] Suc.prems st(2) rs
      by (auto simp: same_creds_def)
  qed
qed simp

section \<open>A small device\<close>

text \<open>
  A device on which the commands run: a data memory as a list of slots, a key operation that
  always answers, and a button that is pressed in every wait.
\<close>

definition flat_crypto :: crypto where
  "flat_crypto = \<lparr>sha256 = \<lambda>_. replicate 32 1, hmac_sha256 = \<lambda>_ _. replicate 32 2\<rparr>"

definition mem_chip :: "(nat \<times> bytes) list tropic" where
  "mem_chip = \<lparr>tropic_l3_session_ensure = \<lambda>c. (0, c),
     tropic_rmem_read = \<lambda>i n c. (case map_of c i of None \<Rightarrow> Inl TROPIC_ERR_RMEM_SLOT_EMPTY | Some d \<Rightarrow> Inr d, c),
     tropic_rmem_write = \<lambda>i d c. (0, (i, d) # c),
     tropic_rmem_erase = \<lambda>i c. (0, filter (\<lambda>x. fst x \<noteq> i) c),
     tropic_mac_and_destroy = \<lambda>_ _ c. (Inl (- 1), c), tropic_random = \<lambda>n c. (Inr (replicate n 1), c),
     tropic_ecc_generate = \<lambda>_ _ c. (0, c), tropic_ecc_pubkey_read = \<lambda>_ _ c. (Inr (replicate 64 3), c),
     tropic_ecc_eddsa_sign = \<lambda>_ _ c. (Inr (replicate 64 7), c), tropic_ecc_ecdsa_sign = \<lambda>_ _ c. (Inl (- 1), c),
     tropic_ecc_erase = \<lambda>_ c. (0, c), tropic_mcounter_init = \<lambda>_ _ c. (0, c),
     tropic_mcounter_update = \<lambda>_ c. (0, c), tropic_mcounter_get = \<lambda>_ c. (Inr 0xFFFFFFF0, c)\<rparr>"

definition mem_auth :: "u32 \<Rightarrow> (nat \<times> bytes) list \<Rightarrow> (nat \<times> bytes) list auth" where
  "mem_auth bm creds = (let rec = encode flat_crypto (s_o1 slots_start) 1 (o1_encode bm 0 0) in
    \<lparr>a_pin = (cp_start demo_puat (fido_start\<lparr>f_slots := slots_start\<lparr>s_initted := True, s_bitmap := bm\<rparr>\<rparr>)
       ([(0, rec), (40, rec)] @ creds))\<lparr>cp_initted := True\<rparr>,
     a_initted = True, a_mutating = False, a_up = up_start, a_ga = ga_zero, a_iter = iter_zero, a_clock = \<lambda>_. 5, a_ticks = 0,
     a_touch = \<lambda>_. (5, [\<lparr>u_now = 5, u_pump = replicate 3 (Sample True), u_delay = [Sample True]\<rparr>,
       \<lparr>u_now = 9, u_pump = replicate 6 (Sample True), u_delay = []\<rparr>]), a_touches = 0\<rparr>)"

text \<open>Empty, and with two discoverable credentials of the RP, the second one newer.\<close>

definition empty_auth :: "(nat \<times> bytes) list auth" where
  "empty_auth = mem_auth 0 []"

definition two_auth :: "(nat \<times> bytes) list auth" where
  "two_auth = mem_auth 3 [(1, cred_bytes 8 1 (replicate 32 1) (replicate 16 9) [1, 2] 4),
     (2, cred_bytes 8 1 (replicate 32 1) (replicate 16 8) [3] 5)]"

lemma mem_auth_initted: "a_initted empty_auth" "a_initted two_auth"
  by (simp_all add: empty_auth_def two_auth_def mem_auth_def Let_def)

lemma empty_makes:
  "s_bitmap (a_slots (snd (ctap2_make_credential mem_chip flat_crypto mc_request 1000 empty_auth))) = 1"
  "s_bitmap (a_slots empty_auth) = 0"
  by code_simp+

lemma two_asserts:
  "(case ctap2_get_assertion mem_chip flat_crypto ga_request 1000 two_auth of (Some r, s) \<Rightarrow> length r > 1 | (None, _) \<Rightarrow> False)"
  by code_simp

lemma mc_consent:
  assumes "a_initted s" and "ctap2_make_credential T K req resp_max s = (resp, s')"
  shows "a_slots s' = a_slots s \<or>
    (\<exists>q. ctap2_parse_make_cred req = Inr q \<and> touched s \<and>
      (slots_force_uv_get (a_slots s) \<noteq> 0 \<or> opt_rk (mc_opt q) = 1 \<and> fst (pin_is_set T K (a_pin s)) \<longrightarrow>
        token_ok K (mc_pin_uv q) (mc_client_hash q) PUAT_PERM_MC (sha256 K (mc_rp_id q)) s) \<and>
      (\<forall>p. \<not> puat_has_perm p (a_puat s')))"
proof (cases "ctap2_parse_make_cred req")
  case (Inl e)
  then show ?thesis using assms(2) by (auto simp: ctap2_make_credential_def respond_def op_fail_def)
next
  case (Inr q)
  let ?rk = "opt_rk (mc_opt q) = 1" and ?rp = "sha256 K (mc_rp_id q)"
  obtain r1 s1 where 1: "mc_checked T K q ?rp ?rk s = (r1, s1)" by fastforce
  obtain r2 s2 where 2: "wait_touch s1 = (r2, s2)" by fastforce
  have sl: "a_slots s1 = a_slots s" "a_slots s2 = a_slots s"
    using keepsD [OF mc_checked_frame(1) 1] keepsD [OF touch_frame(1) 2] assms(1) by (auto simp: same_creds_def)
  have e: "s' = snd (op_bind (mc_checked T K q ?rp ?rk) (\<lambda>x. op_bind wait_touch (\<lambda>_.
      op_bind (on_puat (\<lambda>t. ((), puat_consume t))) (\<lambda>_. mc_create T K q ?rp ?rk resp_max x))) s)"
    using assms(2) Inr by (auto simp: ctap2_make_credential_def respond_def Let_def split: prod.splits res.splits)
  show ?thesis
  proof (cases "\<exists>x y. r1 = Val x \<and> r2 = Val y")
    case False
    then have "s' = s1 \<or> s' = s2" using e 1 2 by (cases r1; cases r2) (auto simp: op_bind_def)
    then show ?thesis using sl by auto
  next
    case True
    then obtain x y where v: "r1 = Val x" "r2 = Val y" by blast
    obtain uv w where x: "x = (uv, w)" by (rule prod.exhaust)
    obtain s3 where pol: "mc_uv_policy T K q ?rk ?rp s = (Val uv, s3)"
      using mc_checked_val 1 v(1) x by blast
    let ?t = "s2\<lparr>a_pin := (a_pin s2)\<lparr>cp_puat := puat_consume (a_puat s2)\<rparr>\<rparr>"
    have "s' = snd (mc_create T K q ?rp ?rk resp_max x ?t)"
      using e 1 2 v by (simp add: op_bind_def on_puat_def on_pin_def)
    then have "a_puat s' = puat_consume (a_puat s2)"
      using mc_create_puat [of T K q ?rp ?rk resp_max x] by (simp add: keeps_def)
    then have "\<forall>p. \<not> puat_has_perm p (a_puat s')" by (auto simp: puat_consume_def puat_has_perm_def)
    moreover have "touched s"
      using wait_touch_val 2 v(2) touched_unasked [OF val_keepsD [OF mc_checked_frame(2)]] 1 v(1) by blast
    moreover have "slots_force_uv_get (a_slots s) \<noteq> 0 \<or> ?rk \<and> fst (pin_is_set T K (a_pin s)) \<longrightarrow>
        token_ok K (mc_pin_uv q) (mc_client_hash q) PUAT_PERM_MC ?rp s"
      using mc_uv_policy_val(2,3) [OF pol] by (auto simp: FLAG_UV_def)
    ultimately show ?thesis using Inr by blast
  qed
qed

section \<open>Properties\<close>

text \<open>
  C3. No MakeCredential changes the set of credentials without consent: if the slot manager's
  state is not what it was, then the request parsed, the wait for a touch it made ended with
  a confirmed press, with always-UV or for a discoverable credential on a device with a PIN
  its token verified over the client data hash with the permission and for the RP, and
  afterwards the token has no permission left.
\<close>

theorem mc_needs_consent:
  assumes "a_initted s" and "ctap2_make_credential T K req resp_max s = (resp, s')"
  shows "a_slots s' = a_slots s \<or>
    (\<exists>q. ctap2_parse_make_cred req = Inr q \<and> touched s \<and>
      (slots_force_uv_get (a_slots s) \<noteq> 0 \<or> opt_rk (mc_opt q) = 1 \<and> fst (pin_is_set T K (a_pin s)) \<longrightarrow>
        token_ok K (mc_pin_uv q) (mc_client_hash q) PUAT_PERM_MC (sha256 K (mc_rp_id q)) s) \<and>
      (\<forall>p. \<not> puat_has_perm p (a_puat s')))"
  using assms by (rule mc_consent)

theorem mc_needs_consent_witness: "touched empty_auth"
proof -
  let ?m = "ctap2_make_credential mem_chip flat_crypto mc_request 1000 empty_auth"
  have "a_slots (snd ?m) \<noteq> a_slots empty_auth" using empty_makes by auto
  then show ?thesis
    using mc_needs_consent [OF mem_auth_initted(1) prod.collapse [symmetric], of mem_chip flat_crypto mc_request 1000]
    by blast
qed

text \<open>
  C4. No assertion without consent: every answer of GetAssertion, and of any number of
  GetNextAssertion calls after it, that is more than a status byte holds a signature by an
  allocated credential made for the RP asked for, over its RP ID hash, flags, signature
  count and client data hash and nothing else, with the same RP, client data hash and flags
  throughout; its UP flag is set exactly if a touch was asked for, and then the wait for
  it ended with a confirmed press; its UV flag only if the token verified with the
  permission and for the RP, and with always-UV whenever a touch was asked for.
\<close>

theorem assertions_need_consent:
  assumes "a_initted s" and "ctap2_get_assertion T K req resp_max s = (Some r, s')" and "length r > 1"
    and "next_assertions T K resp_max k s' = (rs, s2)"
  shows "\<exists>q fl n slots. ctap2_parse_get_assertion req = Inr q \<and> consent T K q fl s \<and>
    signed T (a_slots s) (sha256 K (ga_rp_id q)) fl (ga_client_hash q) (slots ! 0) n resp_max r \<and>
    (\<forall>i < k. \<forall>r'. rs ! i = Some r' \<and> length r' > 1 \<longrightarrow>
      signed T (a_slots s) (sha256 K (ga_rp_id q)) fl (ga_client_hash q) (slots ! Suc i) 0 resp_max r')"
proof -
  obtain q fl n count slots where q: "ctap2_parse_get_assertion req = Inr q" "consent T K q fl s" "fl AND FLAG_AT = 0"
    and c: "same_creds s s'"
    and sg: "signed T (a_slots s) (sha256 K (ga_rp_id q)) fl (ga_client_hash q) (slots ! 0) n resp_max r"
    and ses: "session_at \<lparr>g_active = True, g_slots = slots, g_count = count, g_pos = 1, g_client_hash = ga_client_hash q,
       g_rp_hash = sha256 K (ga_rp_id q), g_flags = fl, g_last_ms = 0\<rparr> 1 s'"
    by (rule get_assertion_val [OF assms(1-3)])
  have i': "a_initted s'" "a_slots s' = a_slots s" using c assms(1) by (simp_all add: same_creds_def)
  have "signed T (a_slots s) (sha256 K (ga_rp_id q)) fl (ga_client_hash q) (slots ! Suc i) 0 resp_max r'"
    if "i < k" "rs ! i = Some r'" "length r' > 1" for i r'
    using next_walk [OF i'(1) ses _ assms(4) that] q(3) i'(2) by simp
  then show ?thesis using q sg by blast
qed

theorem assertions_need_consent_witness:
  "\<exists>q fl. ctap2_parse_get_assertion ga_request = Inr q \<and> consent mem_chip flat_crypto q fl two_auth"
proof -
  obtain r s' where m: "ctap2_get_assertion mem_chip flat_crypto ga_request 1000 two_auth = (Some r, s')"
    and r: "length r > 1"
    using two_asserts by (auto split: option.splits prod.splits)
  obtain rs s2 where "next_assertions mem_chip flat_crypto 1000 1 s' = (rs, s2)" by fastforce
  then show ?thesis using assertions_need_consent [OF mem_auth_initted(2) m r] by blast
qed

end
