(* ===== verification/Ctap2_Order.thy ===== *)
theory Ctap2_Order
  imports Ctap2_Creds "HOL-Library.Multiset"
begin

text \<open>
  The two passes over the stored credentials in \<^verbatim>\<open>ctap2_creds.c\<close>: the insertion sort of
  \<open>ga_discover\<close> against a stable sort, and what \<open>mc_scan\<close> promises the new credential.
\<close>

section \<open>Newest first\<close>

text \<open>The reference: the credentials wanted, in slot order, with their sequence numbers.\<close>

fun found_creds ::
  "'c tropic \<Rightarrow> (slot_meta \<Rightarrow> bool) \<Rightarrow> slot_mgr \<Rightarrow> nat list \<Rightarrow> 'c \<Rightarrow> (u32 \<times> nat) list \<times> 'c" where
  "found_creds T mine m [] c = ([], c)"
| "found_creds T mine m (i # is) c =
     (if \<not> bit (slots_bitmap m) i then found_creds T mine m is c
      else case slots_read_meta T (int i) m c of (r, c1) \<Rightarrow>
        case found_creds T mine m is c1 of (f, c2) \<Rightarrow>
          (case r of Inr meta \<Rightarrow> if mine meta then (created meta, i) # f else f | Inl _ \<Rightarrow> f, c2))"

text \<open>Newest first; equal sequence numbers stay in slot order.\<close>

definition age :: "u32 \<times> nat \<Rightarrow> nat" where
  "age x = 2 ^ 32 - unat (fst x)"

definition newest_first :: "(u32 \<times> nat) list \<Rightarrow> (u32 \<times> nat) list" where
  "newest_first f = sort_key age f"

lemma age_iff: "age x < age y \<longleftrightarrow> fst y < fst x" "age x \<le> age y \<longleftrightarrow> fst y \<le> fst x"
proof -
  have n: "a < N \<Longrightarrow> b < N \<Longrightarrow> (N - a < N - b \<longleftrightarrow> b < a) \<and> (N - a \<le> N - b \<longleftrightarrow> b \<le> a)" for a b N :: nat
    by arith
  have lt: "unat (fst z) < 2 ^ 32" for z :: "u32 \<times> nat" by simp
  show "age x < age y \<longleftrightarrow> fst y < fst x" "age x \<le> age y \<longleftrightarrow> fst y \<le> fst x"
    using n [OF lt [of x] lt [of y]] by (simp_all only: age_def word_less_nat_alt word_le_nat_alt)
qed

lemma shift_in_length [simp]: "length (shift_in x n l) = length l"
  by (induction n arbitrary: l) simp_all

lemma shift_in_above: "k > n \<Longrightarrow> shift_in x n l ! k = l ! k"
  by (induction n arbitrary: l) auto

lemma shift_in_split:
  assumes "n < length l"
  shows "\<exists>A B. take n l = A @ B \<and> take (Suc n) (shift_in x n l) = A @ x # B \<and>
    (\<forall>b \<in> set B. fst b < fst x) \<and> (A \<noteq> [] \<longrightarrow> fst x \<le> fst (last A))"
  using assms
proof (induction n arbitrary: l)
  case 0
  then show ?case by (cases l) auto
next
  case (Suc n)
  show ?case
  proof (cases "fst (l ! n) < fst x")
    case False
    have "take (Suc (Suc n)) (l[Suc n := x]) = take (Suc n) l @ [x]"
      using Suc.prems by (simp add: take_Suc_conv_app_nth [of "Suc n"])
    moreover have "last (take (Suc n) l) = l ! n"
      using Suc.prems by (simp add: take_Suc_conv_app_nth)
    ultimately show ?thesis using False Suc.prems
      by (intro exI [of _ "take (Suc n) l"] exI [of _ "[]"]) auto
  next
    case True
    let ?l = "l[Suc n := l ! n]"
    obtain A B where ab: "take n ?l = A @ B" "take (Suc n) (shift_in x n ?l) = A @ x # B"
        "\<forall>b \<in> set B. fst b < fst x" "A \<noteq> [] \<longrightarrow> fst x \<le> fst (last A)"
      using Suc.IH [of ?l] Suc.prems by auto
    have "take (Suc n) l = A @ (B @ [l ! n])" using ab(1) Suc.prems by (simp add: take_Suc_conv_app_nth)
    moreover have "take (Suc (Suc n)) (shift_in x (Suc n) l) = A @ x # (B @ [l ! n])"
      using ab(2) True Suc.prems shift_in_above [of n "Suc n" x ?l]
      by (simp add: take_Suc_conv_app_nth [of "Suc n"])
    ultimately show ?thesis using ab(3,4) True by (intro exI [of _ A] exI [of _ "B @ [l ! n]"]) auto
  qed
qed

text \<open>Inserting the next credential keeps the array the stable sort of what was found.\<close>

lemma sort_key_snoc:
  assumes "sort_key f xs = A @ B" and "\<forall>b \<in> set B. f x < f b" and "\<forall>a \<in> set A. f a \<le> f x"
  shows "sort_key f (xs @ [x]) = A @ x # B"
proof (rule properties_for_sort_key)
  have m: "mset (A @ B) = mset xs" using assms(1) by (metis mset_sort)
  show "mset (A @ x # B) = mset (xs @ [x])" using m by simp
  show "filter (\<lambda>y. f k = f y) (A @ x # B) = filter (\<lambda>y. f k = f y) (xs @ [x])" if "k \<in> set (A @ x # B)" for k
  proof -
    have "filter (\<lambda>y. f k = f y) xs = filter (\<lambda>y. f k = f y) (A @ B)"
      using sort_key_stable [of f "f k" xs] unfolding assms(1) by (simp add: eq_commute)
    moreover have "f k = f x \<Longrightarrow> filter (\<lambda>y. f k = f y) B = []" using assms(2) by (auto simp: filter_empty_conv)
    ultimately show ?thesis by auto
  qed
  show "sorted (map f (A @ x # B))"
    using sorted_sort_key [of f xs] assms by (auto simp: sorted_append)
qed

lemma discover_step:
  assumes "n < length l" and "take n l = newest_first f" 
  shows "take (Suc n) (shift_in x n l) = newest_first (f @ [x])"
proof -
  obtain A B where ab: "take n l = A @ B" "take (Suc n) (shift_in x n l) = A @ x # B"
      "\<forall>b \<in> set B. fst b < fst x" "A \<noteq> [] \<longrightarrow> fst x \<le> fst (last A)"
    using shift_in_split [OF assms(1)] by blast
  have s: "sort_key age f = A @ B" using assms(2) ab(1) by (simp add: newest_first_def)
  have "\<forall>a \<in> set A. age a \<le> age x"
  proof (cases "A = []")
    case False
    have "sorted (map age A)" using sorted_sort_key [of age f] unfolding s by (simp add: sorted_append)
    then have "\<forall>a \<in> set A. age a \<le> age (last A)"
      using False by (induction A rule: rev_induct) (auto simp: sorted_append)
    moreover have "age (last A) \<le> age x" using ab(4) False by (simp add: age_iff)
    ultimately show ?thesis by fastforce
  qed simp
  then show ?thesis using sort_key_snoc [OF s, of x] ab(2,3) by (simp add: newest_first_def age_iff)
qed

lemma discover_found:
  assumes "discover T mine m (slots_bitmap m) is (n, l) c = ((n', l'), c')" and "length f = n"
    and "n + length is \<le> length l" and "take n l = newest_first f"
  shows "\<exists>g. found_creds T mine m is c = (g, c') \<and> n' = length (f @ g) \<and> take n' l' = newest_first (f @ g)"
  using assms
proof (induction "is" arbitrary: n l c f)
  case (Cons i js)
  show ?case
  proof (cases "bit (slots_bitmap m) i")
    case False
    then show ?thesis using Cons.IH [of n l c f] Cons.prems by simp
  next
    case True
    obtain r c1 where r: "slots_read_meta T (int i) m c = (r, c1)" by fastforce
    show ?thesis
    proof (cases "\<exists>meta. r = Inr meta \<and> mine meta")
      case False
      then have "discover T mine m (slots_bitmap m) js (n, l) c1 = ((n', l'), c')"
        using Cons.prems(1) True r by (auto split: sum.splits)
      then show ?thesis using Cons.IH [of n l c1 f] Cons.prems True r False by (auto split: sum.splits)
    next
      case m: True
      then obtain meta where m: "r = Inr meta" "mine meta" by blast
      let ?x = "(created meta, i)"
      have d: "discover T mine m (slots_bitmap m) js (Suc n, shift_in ?x n l) c1 = ((n', l'), c')"
        using Cons.prems(1) True r m by simp
      have "take (Suc n) (shift_in ?x n l) = newest_first (f @ [?x])"
        using discover_step Cons.prems(3,4) by simp
      then show ?thesis using Cons.IH [OF d, of "f @ [?x]"] Cons.prems True r m by auto
    qed
  qed
qed simp

lemma found_slots:
  assumes "found_creds T mine m is c = (f, c')" and "distinct is"
  shows "set (map snd f) \<subseteq> set is" and "distinct (map snd f)"
proof -
  have "set (map snd f) \<subseteq> set is \<and> distinct (map snd f)"
    using assms
  proof (induction "is" arbitrary: c f c')
    case (Cons i js)
    obtain r c1 where r: "slots_read_meta T (int i) m c = (r, c1)" by fastforce
    obtain g c2 where g: "found_creds T mine m js c1 = (g, c2)" by fastforce
    have ih: "set (map snd g) \<subseteq> set js \<and> distinct (map snd g)" using Cons.IH [OF g] Cons.prems(2) by simp
    show ?case
    proof (cases "bit (slots_bitmap m) i")
      case False
      then show ?thesis using Cons.IH [of c f c'] Cons.prems by auto
    next
      case True
      then have "f = g \<or> (\<exists>x. f = (x, i) # g)"
        using Cons.prems(1) r g by (auto split: sum.splits if_splits)
      moreover have "i \<notin> set (map snd g)" using ih Cons.prems(2) by auto
      ultimately show ?thesis using ih by (auto simp del: set_map)
    qed
  qed simp
  then show "set (map snd f) \<subseteq> set is" and "distinct (map snd f)" by simp_all
qed

section \<open>The next sequence number and the credentials to replace\<close>

lemma scan_reads:
  assumes "scan_slots T same m bm is (mx, rs) c = (Some (mx', rs'), c')" and "\<forall>i \<in> set is. i < 32" and "distinct is"
  shows "mx \<le> mx' \<and> (\<exists>metas. (\<forall>i \<in> set is. bit bm i \<longrightarrow>
      (\<exists>c1 c2. slots_read_meta T (int i) m c1 = (Inr (metas i), c2)) \<and> created (metas i) \<le> mx') \<and>
    (\<forall>j. bit rs' j \<longleftrightarrow> bit rs j \<or> j \<in> set is \<and> bit bm j \<and> same (metas j)))"
  using assms
proof (induction "is" arbitrary: mx rs c)
  case (Cons i js)
  show ?case
  proof (cases "bit bm i")
    case False
    then have "scan_slots T same m bm js (mx, rs) c = (Some (mx', rs'), c')" using Cons.prems(1) by simp
    from Cons.IH [OF this] Cons.prems(2,3) False show ?thesis by auto
  next
    case True
    obtain r c1 where r: "slots_read_meta T (int i) m c = (r, c1)" by fastforce
    obtain meta where m: "r = Inr meta" using Cons.prems(1) True r by (cases r) auto
    let ?mx = "if created meta > mx then created meta else mx"
    let ?rs = "if same meta then rs OR push_bit i 1 else rs"
    have "scan_slots T same m bm js (?mx, ?rs) c1 = (Some (mx', rs'), c')"
      using Cons.prems(1) True r m by simp
    from Cons.IH [OF this] Cons.prems(2,3) obtain metas where ih: "?mx \<le> mx'"
      "\<forall>i \<in> set js. bit bm i \<longrightarrow>
        (\<exists>c1 c2. slots_read_meta T (int i) m c1 = (Inr (metas i), c2)) \<and> created (metas i) \<le> mx'"
      "\<forall>j. bit rs' j \<longleftrightarrow> bit ?rs j \<or> j \<in> set js \<and> bit bm j \<and> same (metas j)"
      by auto
    let ?metas = "metas(i := meta)"
    have ne: "j \<in> set js \<Longrightarrow> j \<noteq> i" for j using Cons.prems(3) by auto
    have le: "mx \<le> mx'" "created meta \<le> mx'" using ih(1) by (auto split: if_splits)
    have "\<exists>c1 c2. slots_read_meta T (int i) m c1 = (Inr (?metas i), c2)" using r m by auto
    then have 1: "\<forall>k \<in> set (i # js). bit bm k \<longrightarrow>
        (\<exists>c1 c2. slots_read_meta T (int k) m c1 = (Inr (?metas k), c2)) \<and> created (?metas k) \<le> mx'"
      using ih(2) le(2) ne by simp
    have bits: "bit ?rs j \<longleftrightarrow> bit rs j \<or> j = i \<and> same meta" for j
      using set_bit_iff [of i rs j] Cons.prems(2) by auto
    have "\<forall>j. bit rs' j \<longleftrightarrow> bit rs j \<or> j \<in> set (i # js) \<and> bit bm j \<and> same (?metas j)"
      using ih(3) bits ne True by auto
    with 1 le(1) show ?thesis by blast
  qed
qed auto

section \<open>Properties\<close>

text \<open>
  C5. GetAssertion without an allowList finds exactly the discoverable credentials of the RP
  that could be read, each once, newest first, equal sequence numbers in slot order: its
  insertion into the two arrays is a stable sort.
\<close>

theorem ga_discover_newest_first:
  assumes "ga_discover T rp s = (Val n, s')" and "length (g_slots (a_ga s)) = FIDO_SLOTS_MAX"
  shows "\<exists>f c. found_creds T (\<lambda>m. flags m AND SLOTS_FLAG_RESIDENT \<noteq> 0 \<and> rp_id_hash m = rp) (a_slots s)
      [0..<FIDO_SLOTS_MAX] (a_chip s) = (f, c) \<and> n = length f \<and>
    take n (g_slots (a_ga s')) = map snd (newest_first f) \<and> distinct (take n (g_slots (a_ga s')))"
proof -
  let ?mine = "\<lambda>m. flags m AND SLOTS_FLAG_RESIDENT \<noteq> 0 \<and> rp_id_hash m = rp"
  let ?arr = "map (\<lambda>i. (0 :: u32, i)) (g_slots (a_ga s))"
  obtain l c where d: "discover T ?mine (a_slots s) (slots_bitmap (a_slots s)) [0..<FIDO_SLOTS_MAX] (0, ?arr) (a_chip s)
      = ((n, l), c)" and g: "g_slots (a_ga s') = map snd l"
    using assms(1) by (auto simp: ga_discover_def op_vals on_chip_def split: prod.splits)
  obtain f where f: "found_creds T ?mine (a_slots s) [0..<FIDO_SLOTS_MAX] (a_chip s) = (f, c)" "n = length f"
    "take n l = newest_first f"
    using discover_found [OF d, of "[]"] assms(2) by (auto simp: newest_first_def)
  have t: "take n (g_slots (a_ga s')) = map snd (newest_first f)" using g f(3) by (simp add: take_map)
  have "mset (map snd (newest_first f)) = mset (map snd f)" by (simp add: newest_first_def)
  then have "distinct (map snd (newest_first f))"
    using found_slots(2) [OF f(1)] by (metis distinct_upt mset_eq_imp_distinct_iff)
  then show ?thesis using f t by auto
qed

lemma two_discovers: "fst (ga_discover mem_chip (replicate 32 1) two_auth) = Val 2"
  by code_simp

theorem ga_discover_newest_first_witness:
  "\<exists>f c. found_creds mem_chip (\<lambda>m. flags m AND SLOTS_FLAG_RESIDENT \<noteq> 0 \<and> rp_id_hash m = replicate 32 1)
      (a_slots two_auth) [0..<FIDO_SLOTS_MAX] (a_chip two_auth) = (f, c) \<and> length f = 2"
proof -
  obtain s' where d: "ga_discover mem_chip (replicate 32 1) two_auth = (Val 2, s')"
    using two_discovers by (metis prod.collapse)
  have "length (g_slots (a_ga two_auth)) = FIDO_SLOTS_MAX"
    by (simp add: two_auth_def mem_auth_def Let_def ga_zero_def)
  from ga_discover_newest_first [OF d this] show ?thesis by auto
qed

text \<open>
  Before the touch MakeCredential has read every allocated credential, or it answers an
  error: the new sequence number exceeds all of theirs, and the credentials it will replace
  are exactly the discoverable ones of the same RP and user.
\<close>

theorem mc_scan_exact:
  assumes "mc_scan T q rp rk s = (Val (Some (cr, repl)), s')"
  shows "\<exists>metas. \<forall>i < FIDO_SLOTS_MAX. bit (slots_bitmap (a_slots s)) i \<longrightarrow>
      (\<exists>c c'. slots_read_meta T (int i) (a_slots s) c = (Inr (metas i), c')) \<and> created (metas i) < cr \<and>
      (bit repl i \<longleftrightarrow> same_account q rp rk (metas i))"
proof -
  obtain mx c' where sc: "scan_slots T (same_account q rp rk) (a_slots s) (slots_bitmap (a_slots s)) [0..<FIDO_SLOTS_MAX]
      (0, 0) (a_chip s) = (Some (mx, repl), c')" and mx: "mx \<noteq> 0xFFFFFFFF" "cr = mx + 1"
    using assms by (auto simp: mc_scan_def op_vals on_chip_def split: prod.splits option.splits if_splits)
  have "mx < cr"
  proof -
    have "unat mx \<noteq> 0xFFFFFFFF" using mx(1) by (simp add: word_unat_eq_iff)
    then have "unat mx < 0xFFFFFFFF" using u32_lt [of mx] by linarith
    then show ?thesis by (simp add: mx(2) word_less_nat_alt unat_word_ariths)
  qed
  moreover have "\<forall>i \<in> set [0..<FIDO_SLOTS_MAX]. i < 32" by (simp add: FIDO_SLOTS_MAX_def)
  ultimately obtain metas where m: "\<forall>i \<in> set [0..<FIDO_SLOTS_MAX]. bit (slots_bitmap (a_slots s)) i \<longrightarrow>
      (\<exists>c1 c2. slots_read_meta T (int i) (a_slots s) c1 = (Inr (metas i), c2)) \<and> created (metas i) \<le> mx"
    "\<forall>j. bit repl j \<longleftrightarrow> bit (0 :: u32) j \<or> j \<in> set [0..<FIDO_SLOTS_MAX] \<and> bit (slots_bitmap (a_slots s)) j \<and>
      same_account q rp rk (metas j)"
    using scan_reads [OF sc] by auto
  then show ?thesis using \<open>mx < cr\<close> by (intro exI [of _ metas]) (auto intro: le_less_trans)
qed

definition demo_mc :: ctap2_mc_req where
  "demo_mc = mc_start\<lparr>mc_user_id := [3]\<rparr>"

lemma two_scans: "fst (mc_scan mem_chip demo_mc (replicate 32 1) True two_auth) = Val (Some (6, 2))"
  by code_simp

theorem mc_scan_exact_witness:
  "\<exists>m. created m < 6 \<and> same_account demo_mc (replicate 32 1) True m"
proof -
  obtain s' where d: "mc_scan mem_chip demo_mc (replicate 32 1) True two_auth = (Val (Some (6, 2)), s')"
    using two_scans by (metis prod.collapse)
  have "bit (slots_bitmap (a_slots two_auth)) 1" "bit (2 :: u32) 1"
    by (simp_all add: two_auth_def mem_auth_def Let_def slots_bitmap_def slots_usable_def slots_start_def cp_start_def)
  moreover obtain metas where "\<forall>i < FIDO_SLOTS_MAX. bit (slots_bitmap (a_slots two_auth)) i \<longrightarrow>
      (\<exists>c c'. slots_read_meta mem_chip (int i) (a_slots two_auth) c = (Inr (metas i), c')) \<and> created (metas i) < 6 \<and>
      (bit (2 :: u32) i \<longleftrightarrow> same_account demo_mc (replicate 32 1) True (metas i))"
    using mc_scan_exact [OF d] by blast
  moreover have "1 < FIDO_SLOTS_MAX" by (simp add: FIDO_SLOTS_MAX_def)
  ultimately show ?thesis by blast
qed

end
