(* ===== verification/Credmgmt.thy ===== *)
theory Credmgmt
  imports Ctap2_Creds
begin

text \<open>
  authenticatorCredentialManagement, \<^verbatim>\<open>firmware/src/fido_hid/credmgmt.c\<close>, and
  authenticatorConfig, \<^verbatim>\<open>ctap2_config.c\<close>: the request parsers, the token checks, the two
  enumerations with their iterator, deletion, and the always-UV switch.
\<close>

section \<open>Constants\<close>

definition CREDMGMT_PIN_PROTO_V1 :: int where "CREDMGMT_PIN_PROTO_V1 = 1"
definition SUB_GET_CREDS_METADATA :: int where "SUB_GET_CREDS_METADATA = 1"
definition SUB_ENUM_RPS_BEGIN :: int where "SUB_ENUM_RPS_BEGIN = 2"
definition SUB_ENUM_RPS_GET_NEXT :: int where "SUB_ENUM_RPS_GET_NEXT = 3"
definition SUB_ENUM_CREDS_BEGIN :: int where "SUB_ENUM_CREDS_BEGIN = 4"
definition SUB_ENUM_CREDS_GET_NEXT :: int where "SUB_ENUM_CREDS_GET_NEXT = 5"
definition SUB_DELETE_CREDENTIAL :: int where "SUB_DELETE_CREDENTIAL = 6"
definition RESP_KEY_EXIST_RES_CRED_COUNT :: u64 where "RESP_KEY_EXIST_RES_CRED_COUNT = 1"
definition RESP_KEY_MAX_POSSIBLE_REMAINING :: u64 where "RESP_KEY_MAX_POSSIBLE_REMAINING = 2"
definition RESP_KEY_RP :: u64 where "RESP_KEY_RP = 3"
definition RESP_KEY_RP_ID_HASH :: u64 where "RESP_KEY_RP_ID_HASH = 4"
definition RESP_KEY_TOTAL_RPS :: u64 where "RESP_KEY_TOTAL_RPS = 5"
definition RESP_KEY_USER :: u64 where "RESP_KEY_USER = 6"
definition RESP_KEY_CREDENTIAL_ID :: u64 where "RESP_KEY_CREDENTIAL_ID = 7"
definition RESP_KEY_PUBLIC_KEY :: u64 where "RESP_KEY_PUBLIC_KEY = 8"
definition RESP_KEY_TOTAL_CREDENTIALS :: u64 where "RESP_KEY_TOTAL_CREDENTIALS = 9"
definition CFG_SUB_TOGGLE_ALWAYS_UV :: u64 where "CFG_SUB_TOGGLE_ALWAYS_UV = 2"
definition CFG_PARAMS_MAX :: nat where "CFG_PARAMS_MAX = 64"
definition CTAP1_ERR_INVALID_COMMAND :: nat where "CTAP1_ERR_INVALID_COMMAND = 0x01"
definition CTAP2_ERR_REQUEST_TOO_LARGE :: nat where "CTAP2_ERR_REQUEST_TOO_LARGE = 0x39"
definition CTAP2_CMD_CONFIG :: u8 where "CTAP2_CMD_CONFIG = 0x0D"

section \<open>The iterator\<close>

definition credmgmt_reset_iterator :: "'c auth \<Rightarrow> 'c auth" where
  "credmgmt_reset_iterator s = s\<lparr>a_iter := (a_iter s)\<lparr>s_iter_kind := ITER_NONE, s_iter_rp_count := 0,
     s_iter_rp_pos := 0, s_iter_cred_count := 0, s_iter_cred_pos := 0, s_iter_cred_rp_hash := replicate 32 0\<rparr>\<rparr>"

definition op_upd :: "('c auth \<Rightarrow> 'c auth) \<Rightarrow> ('c, unit) op" where
  "op_upd f s = (Val (), f s)"

definition op_iter :: "(cm_iter \<Rightarrow> cm_iter) \<Rightarrow> ('c, unit) op" where
  "op_iter f = op_upd (\<lambda>s. s\<lparr>a_iter := f (a_iter s)\<rparr>)"

text \<open>The slots of the first credential of each RP; \<open>seen\<close> holds the RP hashes found so far.\<close>

fun rp_list ::
  "'c tropic \<Rightarrow> slot_mgr \<Rightarrow> u32 \<Rightarrow> nat list \<Rightarrow> bytes list \<times> nat list \<Rightarrow> 'c \<Rightarrow> (nat \<times> nat list) \<times> 'c" where
  "rp_list T m bm [] (seen, out) c = ((length seen, out), c)"
| "rp_list T m bm (i # is) (seen, out) c =
     (if \<not> slot_bit bm i then rp_list T m bm is (seen, out) c
      else case slots_read_meta T (int i) m c of
        (Inl _, c1) \<Rightarrow> rp_list T m bm is (seen, out) c1
      | (Inr meta, c1) \<Rightarrow>
          if rp_id_hash meta \<in> set seen then rp_list T m bm is (seen, out) c1
          else rp_list T m bm is (seen @ [rp_id_hash meta], out[length seen := i]) c1)"

definition build_rp_list :: "'c tropic \<Rightarrow> ('c, nat \<times> nat list) op" where
  "build_rp_list T =
     op_bind (op_get a_slots) (\<lambda>m.
     op_bind (op_get (\<lambda>s. s_iter_rp_slots (a_iter s))) (\<lambda>out.
     on_chip (rp_list T m (slots_bitmap m) [0..<FIDO_SLOTS_MAX] ([], out))))"

fun cred_list ::
  "'c tropic \<Rightarrow> bytes \<Rightarrow> slot_mgr \<Rightarrow> u32 \<Rightarrow> nat list \<Rightarrow> nat \<times> nat list \<Rightarrow> 'c \<Rightarrow> (nat \<times> nat list) \<times> 'c" where
  "cred_list T rp m bm [] (count, out) c = ((count, out), c)"
| "cred_list T rp m bm (i # is) (count, out) c =
     (if \<not> slot_bit bm i then cred_list T rp m bm is (count, out) c
      else case slots_read_meta T (int i) m c of
        (Inl _, c1) \<Rightarrow> cred_list T rp m bm is (count, out) c1
      | (Inr meta, c1) \<Rightarrow>
          if rp_id_hash meta = rp then cred_list T rp m bm is (Suc count, out[count := i]) c1
          else cred_list T rp m bm is (count, out) c1)"

definition build_cred_list_for_rp :: "'c tropic \<Rightarrow> bytes \<Rightarrow> ('c, nat \<times> nat list) op" where
  "build_cred_list_for_rp T rp =
     op_bind (op_get a_slots) (\<lambda>m.
     op_bind (op_get (\<lambda>s. s_iter_cred_slots (a_iter s))) (\<lambda>out.
     on_chip (cred_list T rp m (slots_bitmap m) [0..<FIDO_SLOTS_MAX] (0, out))))"

section \<open>Responses\<close>

definition op_cbor :: "cbor_writer \<Rightarrow> ('c, bytes) op" where
  "op_cbor w = (if cbor_writer_error w then op_fail CTAP2_ERR_OTHER else op_ret (of_nat CTAP2_OK # w_out w))"

definition write_pkc_descriptor :: "bytes \<Rightarrow> (cbor_writer \<Rightarrow> bool \<times> cbor_writer) list" where
  "write_pkc_descriptor cred_id = [\<lambda>w. cbor_write_map_header w 2, \<lambda>w. cbor_write_text w (ascii ''id''),
     \<lambda>w. cbor_write_byte_string w cred_id, \<lambda>w. cbor_write_text w (ascii ''type''),
     \<lambda>w. cbor_write_text w (ascii ''public-key'')]"

definition write_user_entity :: "slot_meta \<Rightarrow> bytes \<Rightarrow> (cbor_writer \<Rightarrow> bool \<times> cbor_writer) list" where
  "write_user_entity meta cred_id = [\<lambda>w. cbor_write_map_header w 1, \<lambda>w. cbor_write_text w (ascii ''id''),
     \<lambda>w. cbor_write_byte_string w (if length (user_handle meta) > 0 then user_handle meta else cred_id)]"

definition HEX :: bytes where "HEX = ascii ''0123456789abcdef''"

definition hex_text :: "bytes \<Rightarrow> bytes" where
  "hex_text bs = concat (map (\<lambda>b. [HEX ! unat (drop_bit 4 b), HEX ! unat (b AND 0x0F)]) bs)"

definition do_get_creds_metadata :: "nat \<Rightarrow> ('c, bytes) op" where
  "do_get_creds_metadata resp_max =
     op_bind (op_get a_puat) (\<lambda>t.
     op_bind (op_unless (puat_has_rp t) CTAP2_ERR_PIN_AUTH_INVALID) (\<lambda>_.
     op_bind (op_get (\<lambda>s. slots_count_used (a_slots s))) (\<lambda>used.
     op_cbor (cbor_seq [\<lambda>w. cbor_write_map_header w 2,
       \<lambda>w. cbor_write_uint w RESP_KEY_EXIST_RES_CRED_COUNT, \<lambda>w. cbor_write_uint w (of_nat used),
       \<lambda>w. cbor_write_uint w RESP_KEY_MAX_POSSIBLE_REMAINING,
       \<lambda>w. cbor_write_uint w (of_nat (FIDO_SLOTS_MAX - used))] (cbor_writer_init (resp_max - 1))))))"

definition write_rp_entry :: "'c tropic \<Rightarrow> nat \<Rightarrow> nat \<Rightarrow> nat \<Rightarrow> ('c, bytes) op" where
  "write_rp_entry T resp_max slot_idx tot =
     op_bind (op_get a_slots) (\<lambda>m.
     op_bind (on_chip (slots_read_meta T (int slot_idx) m)) (\<lambda>r.
     case r of
       Inl _ \<Rightarrow> op_fail CTAP2_ERR_OTHER
     | Inr meta \<Rightarrow>
         op_cbor (cbor_seq ([\<lambda>w. cbor_write_map_header w (if tot \<noteq> 0 then 3 else 2),
           \<lambda>w. cbor_write_uint w RESP_KEY_RP, \<lambda>w. cbor_write_map_header w 1, \<lambda>w. cbor_write_text w (ascii ''id''),
           \<lambda>w. cbor_write_text w (hex_text (rp_id_hash meta)),
           \<lambda>w. cbor_write_uint w RESP_KEY_RP_ID_HASH, \<lambda>w. cbor_write_byte_string w (rp_id_hash meta)] @
           (if tot \<noteq> 0 then [\<lambda>w. cbor_write_uint w RESP_KEY_TOTAL_RPS, \<lambda>w. cbor_write_uint w (of_nat tot)] else []))
           (cbor_writer_init (resp_max - 1)))))"

definition cred_entry :: "slot_meta \<Rightarrow> nat \<Rightarrow> bytes \<Rightarrow> nat \<Rightarrow> nat \<Rightarrow> bytes res" where
  "cred_entry meta slot_idx pubkey tot resp_max =
     (let cred_id = make_cred_id slot_idx (cred_id_nonce meta);
          w = cbor_seq ([\<lambda>w. cbor_write_map_header w (if tot \<noteq> 0 then 4 else 3), \<lambda>w. cbor_write_uint w RESP_KEY_USER] @
            write_user_entity meta cred_id @ [\<lambda>w. cbor_write_uint w RESP_KEY_CREDENTIAL_ID] @
            write_pkc_descriptor cred_id @ [\<lambda>w. cbor_write_uint w RESP_KEY_PUBLIC_KEY]) (cbor_writer_init (resp_max - 1))
      in case cose_write_pubkey w (- int (unat (alg meta))) pubkey of (rc, w1) \<Rightarrow>
         if rc \<noteq> 0 then Fail CTAP2_ERR_OTHER
         else let w2 = (if tot \<noteq> 0 then cbor_seq [\<lambda>w. cbor_write_uint w RESP_KEY_TOTAL_CREDENTIALS,
                  \<lambda>w. cbor_write_uint w (of_nat tot)] w1 else w1)
              in if cbor_writer_error w2 then Fail CTAP2_ERR_OTHER else Val (of_nat CTAP2_OK # w_out w2))"

definition write_cred_entry :: "'c tropic \<Rightarrow> nat \<Rightarrow> nat \<Rightarrow> nat \<Rightarrow> ('c, bytes) op" where
  "write_cred_entry T resp_max slot_idx tot =
     op_bind (op_get a_slots) (\<lambda>m.
     op_bind (on_chip (slots_read_meta T (int slot_idx) m)) (\<lambda>r.
     case r of
       Inl _ \<Rightarrow> op_fail CTAP2_ERR_OTHER
     | Inr meta \<Rightarrow>
         op_bind (on_chip (credstore_get_pubkey T (int slot_idx) (alg meta))) (\<lambda>pk.
         case pk of
           None \<Rightarrow> op_fail CTAP2_ERR_OTHER
         | Some pubkey \<Rightarrow> op_res (cred_entry meta slot_idx pubkey tot resp_max))))"

text \<open>An update that happens whatever the operation answered.\<close>

definition op_after :: "('c, 'a) op \<Rightarrow> ('c auth \<Rightarrow> 'c auth) \<Rightarrow> ('c, 'a) op" where
  "op_after m f s = (case m s of (r, s1) \<Rightarrow> (r, f s1))"

section \<open>Enumerating relying parties\<close>

definition rp_pos_up :: "'c auth \<Rightarrow> 'c auth" where
  "rp_pos_up s = s\<lparr>a_iter := (a_iter s)\<lparr>s_iter_rp_pos := s_iter_rp_pos (a_iter s) + 1\<rparr>\<rparr>"

definition do_enum_rps_begin :: "'c tropic \<Rightarrow> nat \<Rightarrow> ('c, bytes) op" where
  "do_enum_rps_begin T resp_max =
     op_bind (op_get a_puat) (\<lambda>t.
     op_bind (op_unless (puat_has_rp t) CTAP2_ERR_PIN_AUTH_INVALID) (\<lambda>_.
     op_bind (build_rp_list T) (\<lambda>(count, out).
     op_bind (op_iter (\<lambda>it. it\<lparr>s_iter_rp_count := count, s_iter_rp_slots := out, s_iter_rp_pos := 0,
       s_iter_kind := ITER_RPS\<rparr>)) (\<lambda>_.
     op_bind (op_unless (count = 0) CTAP2_ERR_NO_CREDENTIALS) (\<lambda>_.
     op_after (write_rp_entry T resp_max (out ! 0) count) rp_pos_up)))))"

definition do_enum_rps_next :: "'c tropic \<Rightarrow> nat \<Rightarrow> ('c, bytes) op" where
  "do_enum_rps_next T resp_max =
     op_bind (op_get a_iter) (\<lambda>it.
     op_bind (op_unless (s_iter_kind it \<noteq> ITER_RPS) CTAP2_ERR_NOT_ALLOWED) (\<lambda>_.
     op_bind (op_unless (s_iter_rp_pos it \<ge> s_iter_rp_count it) CTAP2_ERR_NOT_ALLOWED) (\<lambda>_.
     op_after (write_rp_entry T resp_max (s_iter_rp_slots it ! s_iter_rp_pos it) 0) rp_pos_up)))"

section \<open>Enumerating and deleting credentials\<close>

definition cred_pos_up :: "'c auth \<Rightarrow> 'c auth" where
  "cred_pos_up s = s\<lparr>a_iter := (a_iter s)\<lparr>s_iter_cred_pos := s_iter_cred_pos (a_iter s) + 1\<rparr>\<rparr>"

definition rp_hash_member :: "bytes option \<Rightarrow> bytes option rd" where
  "rp_hash_member got = bind_rd (head_or CTAP2_ERR_INVALID_CBOR 0 (\<lambda>_. True)) (\<lambda>key.
     if key = 1 then bind_rd (rd_or CTAP2_ERR_INVALID_CBOR (read_fixed 32)) (\<lambda>p. ret_rd (Some p))
     else bind_rd (rd_or CTAP2_ERR_INVALID_CBOR skip_opt) (\<lambda>_. ret_rd got))"

definition creds_params :: "bytes \<Rightarrow> nat + bytes" where
  "creds_params params = fst (bind_rd (rd_or CTAP2_ERR_INVALID_CBOR cbor_reader_read_map_header) (\<lambda>n.
     bind_rd (rd_loop n rp_hash_member None) (\<lambda>got. case got of
       None \<Rightarrow> err_rd CTAP2_ERR_MISSING_PARAMETER | Some h \<Rightarrow> ret_rd h)) (cbor_reader_init params))"

definition do_enum_creds_begin :: "'c tropic \<Rightarrow> bytes \<Rightarrow> nat \<Rightarrow> ('c, bytes) op" where
  "do_enum_creds_begin T params resp_max =
     (case creds_params params of
        Inl e \<Rightarrow> op_fail e
      | Inr rp \<Rightarrow>
          op_bind (op_get a_puat) (\<lambda>t.
          op_bind (op_unless (\<not> puat_rp_matches rp t) CTAP2_ERR_PIN_AUTH_INVALID) (\<lambda>_.
          op_bind (op_iter (\<lambda>it. it\<lparr>s_iter_cred_rp_hash := rp\<rparr>)) (\<lambda>_.
          op_bind (build_cred_list_for_rp T rp) (\<lambda>(count, out).
          op_bind (op_iter (\<lambda>it. it\<lparr>s_iter_cred_count := count, s_iter_cred_slots := out, s_iter_cred_pos := 0,
            s_iter_kind := ITER_CREDS\<rparr>)) (\<lambda>_.
          op_bind (op_unless (count = 0) CTAP2_ERR_NO_CREDENTIALS) (\<lambda>_.
          op_after (write_cred_entry T resp_max (out ! 0) count) cred_pos_up)))))))"

definition do_enum_creds_next :: "'c tropic \<Rightarrow> nat \<Rightarrow> ('c, bytes) op" where
  "do_enum_creds_next T resp_max =
     op_bind (op_get a_iter) (\<lambda>it.
     op_bind (op_unless (s_iter_kind it \<noteq> ITER_CREDS) CTAP2_ERR_NOT_ALLOWED) (\<lambda>_.
     op_bind (op_unless (s_iter_cred_pos it \<ge> s_iter_cred_count it) CTAP2_ERR_NOT_ALLOWED) (\<lambda>_.
     op_after (write_cred_entry T resp_max (s_iter_cred_slots it ! s_iter_cred_pos it) 0) cred_pos_up)))"

definition desc_id_member :: "bytes option \<Rightarrow> bytes option rd" where
  "desc_id_member got = bind_rd (rd_or CTAP2_ERR_INVALID_CBOR cbor_reader_read_text) (\<lambda>k.
     if key_is k ''id'' then bind_rd (rd_or CTAP2_ERR_INVALID_CBOR cbor_reader_read_bytes) (\<lambda>p. ret_rd (Some p))
     else bind_rd (rd_or CTAP2_ERR_INVALID_CBOR skip_opt) (\<lambda>_. ret_rd got))"

definition delete_member :: "bytes option \<Rightarrow> bytes option rd" where
  "delete_member got = bind_rd (head_or CTAP2_ERR_INVALID_CBOR 0 (\<lambda>_. True)) (\<lambda>key.
     if key = 2 then bind_rd (rd_or CTAP2_ERR_INVALID_CBOR cbor_reader_read_map_header) (\<lambda>mc. rd_loop mc desc_id_member got)
     else bind_rd (rd_or CTAP2_ERR_INVALID_CBOR skip_opt) (\<lambda>_. ret_rd got))"

definition delete_params :: "bytes \<Rightarrow> nat + bytes" where
  "delete_params params = fst (bind_rd (rd_or CTAP2_ERR_INVALID_CBOR cbor_reader_read_map_header) (\<lambda>n.
     bind_rd (rd_loop n delete_member None) (\<lambda>got. case got of
       None \<Rightarrow> err_rd CTAP2_ERR_MISSING_PARAMETER | Some i \<Rightarrow> ret_rd i)) (cbor_reader_init params))"

definition do_delete_credential :: "'c tropic \<Rightarrow> crypto \<Rightarrow> bytes \<Rightarrow> ('c, bytes) op" where
  "do_delete_credential T K params =
     (case delete_params params of
        Inl e \<Rightarrow> op_fail e
      | Inr cid \<Rightarrow>
          op_bind (on_cred (credstore_lookup T K cid)) (\<lambda>h.
          case h of
            None \<Rightarrow> op_fail CTAP2_ERR_NO_CREDENTIALS
          | Some handle \<Rightarrow>
              op_bind (op_get a_slots) (\<lambda>m.
              op_bind (on_chip (slots_read_meta T (int handle) m)) (\<lambda>r.
              case r of
                Inl _ \<Rightarrow> op_fail CTAP2_ERR_OTHER
              | Inr meta \<Rightarrow>
                  op_bind (op_get a_puat) (\<lambda>t.
                  op_bind (op_unless (\<not> puat_rp_matches (rp_id_hash meta) t) CTAP2_ERR_PIN_AUTH_INVALID) (\<lambda>_.
                  op_bind (on_cred (credstore_erase_slot T K (int handle))) (\<lambda>rc.
                  op_bind (op_unless (rc \<noteq> 0) CTAP2_ERR_OTHER) (\<lambda>_. op_ret [of_nat CTAP2_OK]))))))))"

section \<open>The command\<close>

text \<open>\<open>None\<close> for a member the request does not have; -1 for the two integers.\<close>

record cm_req =
  cm_sub :: int
  cm_params :: "bytes option"
  cm_proto :: int
  cm_auth :: "bytes option"

text \<open>The bytes of one item, as they stand in the request.\<close>

definition raw_item :: "bytes rd" where
  "raw_item r = (case rd_or CTAP2_ERR_INVALID_CBOR skip_opt r of
     (Inl e, r1) \<Rightarrow> (Inl e, r1)
   | (Inr _, r1) \<Rightarrow> (Inr (take (r_pos r1 - r_pos r) (drop (r_pos r) (r_buf r))), r1))"

definition cm_member :: "cm_req \<Rightarrow> cm_req rd" where
  "cm_member q = bind_rd (head_or CTAP2_ERR_INVALID_CBOR 0 (\<lambda>_. True)) (\<lambda>key.
     if key = 1 then bind_rd (head_or CTAP2_ERR_INVALID_CBOR 0 (\<lambda>_. True)) (\<lambda>v.
       ret_rd (q\<lparr>cm_sub := if v > 0xFF then 0x100 else int (unat v)\<rparr>))
     else if key = 2 then bind_rd raw_item (\<lambda>p. ret_rd (q\<lparr>cm_params := Some p\<rparr>))
     else if key = 3 then bind_rd (head_or CTAP2_ERR_INVALID_CBOR 0 (\<lambda>_. True)) (\<lambda>v.
       ret_rd (q\<lparr>cm_proto := if v > 0xFFFF then 0xFFFF else int (unat v)\<rparr>))
     else if key = 4 then bind_rd (rd_or CTAP2_ERR_INVALID_CBOR cbor_reader_read_bytes) (\<lambda>p.
       ret_rd (q\<lparr>cm_auth := Some p\<rparr>))
     else bind_rd (rd_or CTAP2_ERR_INVALID_CBOR skip_opt) (\<lambda>_. ret_rd q))"

definition cm_parse :: "bytes \<Rightarrow> nat + cm_req" where
  "cm_parse req = fst (bind_rd (rd_or CTAP2_ERR_INVALID_CBOR cbor_reader_read_map_header) (\<lambda>n.
     rd_loop n cm_member \<lparr>cm_sub = - 1, cm_params = None, cm_proto = - 1, cm_auth = None\<rparr>) (cbor_reader_init req))"

definition params_of :: "bytes option \<Rightarrow> bytes" where
  "params_of p = (case p of None \<Rightarrow> [] | Some bs \<Rightarrow> bs)"

definition check_cm_token :: "crypto \<Rightarrow> cm_req \<Rightarrow> ('c, unit) op" where
  "check_cm_token K q =
     (case cm_auth q of
        None \<Rightarrow> op_fail CTAP2_ERR_PUAT_REQUIRED
      | Some auth \<Rightarrow>
          op_bind (op_unless (cm_proto q < 0) CTAP2_ERR_MISSING_PARAMETER) (\<lambda>_.
          op_bind (op_unless (cm_proto q \<noteq> CREDMGMT_PIN_PROTO_V1) CTAP1_ERR_INVALID_PARAMETER) (\<lambda>_.
          op_bind (op_unless (length (params_of (cm_params q)) > 512) CTAP2_ERR_REQUEST_TOO_LARGE) (\<lambda>_.
          op_bind tick (\<lambda>now.
          op_bind (on_puat (puat_verify K (Some auth) (word_of_int (cm_sub q) # params_of (cm_params q)) now)) (\<lambda>rc.
          op_bind (op_get a_puat) (\<lambda>t.
          op_unless (rc \<noteq> 0 \<or> \<not> puat_has_perm PUAT_PERM_CM t) CTAP2_ERR_PIN_AUTH_INVALID)))))))"

text \<open>The token behind the Begin is still in use, the same, and may still manage credentials.\<close>

definition check_cm_session :: "('c, unit) op" where
  "check_cm_session =
     op_bind tick (\<lambda>now.
     op_bind (on_puat (puat_in_use now)) (\<lambda>used.
     op_bind (op_get (\<lambda>s. s_iter_gen (a_iter s))) (\<lambda>gen.
     op_bind (op_get a_puat) (\<lambda>t.
     if \<not> used \<or> gen \<noteq> puat_generation t \<or> \<not> puat_has_perm PUAT_PERM_CM t
     then op_bind (op_upd credmgmt_reset_iterator) (\<lambda>_. op_fail CTAP2_ERR_NOT_ALLOWED)
     else op_ret ()))))"

definition cm_authorise :: "crypto \<Rightarrow> cm_req \<Rightarrow> ('c, unit) op" where
  "cm_authorise K q =
     (if cm_sub q \<noteq> SUB_ENUM_RPS_GET_NEXT \<and> cm_sub q \<noteq> SUB_ENUM_CREDS_GET_NEXT
      then op_bind (check_cm_token K q) (\<lambda>_.
           op_upd (\<lambda>s. s\<lparr>a_iter := (a_iter s)\<lparr>s_iter_gen := puat_generation (a_puat s)\<rparr>\<rparr>))
      else check_cm_session)"

definition iter_guard :: "int \<Rightarrow> ('c, unit) op" where
  "iter_guard sub = op_upd (\<lambda>s.
     let s1 = (if sub \<noteq> SUB_ENUM_RPS_GET_NEXT \<and> s_iter_kind (a_iter s) = ITER_RPS then credmgmt_reset_iterator s else s)
     in if sub \<noteq> SUB_ENUM_CREDS_GET_NEXT \<and> s_iter_kind (a_iter s1) = ITER_CREDS then credmgmt_reset_iterator s1 else s1)"

definition cm_run :: "'c tropic \<Rightarrow> crypto \<Rightarrow> cm_req \<Rightarrow> nat \<Rightarrow> ('c, bytes) op" where
  "cm_run T K q resp_max =
     (let sub = cm_sub q; params = params_of (cm_params q) in
      if sub = SUB_GET_CREDS_METADATA then do_get_creds_metadata resp_max
      else if sub = SUB_ENUM_RPS_BEGIN then do_enum_rps_begin T resp_max
      else if sub = SUB_ENUM_RPS_GET_NEXT then do_enum_rps_next T resp_max
      else if sub = SUB_ENUM_CREDS_BEGIN then do_enum_creds_begin T params resp_max
      else if sub = SUB_ENUM_CREDS_GET_NEXT then do_enum_creds_next T resp_max
      else if sub = SUB_DELETE_CREDENTIAL then do_delete_credential T K params
      else op_fail CTAP1_ERR_INVALID_COMMAND)"

definition credmgmt_handle_cbor ::
  "'c tropic \<Rightarrow> crypto \<Rightarrow> bytes \<Rightarrow> nat \<Rightarrow> 'c auth \<Rightarrow> bytes option \<times> 'c auth" where
  "credmgmt_handle_cbor T K req resp_max s =
     (if resp_max < 1 then (None, s)
      else respond (case cm_parse req of
          Inl e \<Rightarrow> op_fail e
        | Inr q \<Rightarrow>
            op_bind (op_unless (cm_sub q < 0) CTAP2_ERR_MISSING_PARAMETER) (\<lambda>_.
            op_bind (cm_authorise K q) (\<lambda>_.
            op_bind (iter_guard (cm_sub q)) (\<lambda>_. cm_run T K q resp_max)))) s)"

section \<open>authenticatorConfig\<close>

record cfg_req =
  cfg_sub :: "u64 option"
  cfg_params :: "bytes option"
  cfg_protocol :: int
  cfg_auth :: "bytes option"

definition cfg_member :: "cfg_req \<Rightarrow> cfg_req rd" where
  "cfg_member q = bind_rd (rd_or CTAP2_ERR_CBOR_UNEXPECTED_TYPE cbor_reader_read_uint) (\<lambda>key.
     if key = 1 then bind_rd (rd_or CTAP2_ERR_CBOR_UNEXPECTED_TYPE cbor_reader_read_uint) (\<lambda>v. ret_rd (q\<lparr>cfg_sub := Some v\<rparr>))
     else if key = 2 then bind_rd raw_item (\<lambda>p. ret_rd (q\<lparr>cfg_params := Some p\<rparr>))
     else if key = 3 then bind_rd (rd_or CTAP2_ERR_CBOR_UNEXPECTED_TYPE cbor_reader_read_uint) (\<lambda>v.
       ret_rd (q\<lparr>cfg_protocol := if v > 0xFFFF then 0xFFFF else int (unat v)\<rparr>))
     else if key = 4 then bind_rd (rd_or CTAP2_ERR_CBOR_UNEXPECTED_TYPE cbor_reader_read_bytes) (\<lambda>p.
       ret_rd (q\<lparr>cfg_auth := Some p\<rparr>))
     else bind_rd (rd_or CTAP2_ERR_INVALID_CBOR skip_opt) (\<lambda>_. ret_rd q))"

definition parse_cfg :: "bytes \<Rightarrow> nat + cfg_req" where
  "parse_cfg req = fst (bind_rd (rd_or CTAP2_ERR_CBOR_UNEXPECTED_TYPE cbor_reader_read_map_header) (\<lambda>n.
     rd_loop n cfg_member \<lparr>cfg_sub = None, cfg_params = None, cfg_protocol = - 1, cfg_auth = None\<rparr>)
     (cbor_reader_init req))"

definition cfg_message :: "u64 \<Rightarrow> bytes \<Rightarrow> bytes" where
  "cfg_message sub params = replicate 32 0xFF @ [CTAP2_CMD_CONFIG, ucast sub] @ params"

definition check_acfg_token :: "crypto \<Rightarrow> cfg_req \<Rightarrow> u64 \<Rightarrow> ('c, unit) op" where
  "check_acfg_token K q sub =
     (case cfg_auth q of
        None \<Rightarrow> op_fail CTAP2_ERR_PUAT_REQUIRED
      | Some auth \<Rightarrow>
          op_bind (op_unless (cfg_protocol q < 0) CTAP2_ERR_MISSING_PARAMETER) (\<lambda>_.
          op_bind (op_unless (cfg_protocol q \<noteq> int (unat PIN_PROTOCOL_VERSION)) CTAP1_ERR_INVALID_PARAMETER) (\<lambda>_.
          op_bind (op_unless (length (params_of (cfg_params q)) > CFG_PARAMS_MAX) CTAP2_ERR_REQUEST_TOO_LARGE) (\<lambda>_.
          op_bind tick (\<lambda>now.
          op_bind (on_puat (puat_verify K (Some auth) (cfg_message sub (params_of (cfg_params q))) now)) (\<lambda>rc.
          op_bind (op_get a_puat) (\<lambda>t.
          op_unless (rc \<noteq> 0 \<or> \<not> puat_has_perm PUAT_PERM_ACFG t) CTAP2_ERR_PIN_AUTH_INVALID)))))))"

definition on_slots :: "(slot_mgr \<Rightarrow> 'c \<Rightarrow> 'a \<times> slot_mgr \<times> 'c) \<Rightarrow> ('c, 'a) op" where
  "on_slots f = on_cred (\<lambda>k c. case f (cs_slots k) c of (x, m, c1) \<Rightarrow> (x, set_slots m k, c1))"

definition ctap2_config :: "'c tropic \<Rightarrow> crypto \<Rightarrow> bytes \<Rightarrow> 'c auth \<Rightarrow> bytes option \<times> 'c auth" where
  "ctap2_config T K req = respond
     (case parse_cfg req of
        Inl e \<Rightarrow> op_fail e
      | Inr q \<Rightarrow>
          (case cfg_sub q of
             None \<Rightarrow> op_fail CTAP2_ERR_MISSING_PARAMETER
           | Some sub \<Rightarrow>
               op_bind (op_unless (sub \<noteq> CFG_SUB_TOGGLE_ALWAYS_UV) CTAP1_ERR_INVALID_PARAMETER) (\<lambda>_.
               op_bind (on_pin (pin_is_set T K)) (\<lambda>set.
               op_bind (if set then check_acfg_token K q sub else op_ret ()) (\<lambda>_.
               op_bind (op_get (\<lambda>s. slots_force_uv_get (a_slots s))) (\<lambda>uv.
               op_bind (on_slots (slots_force_uv_set T K (uv = 0))) (\<lambda>rc.
               op_bind (op_unless (rc \<noteq> 0) CTAP2_ERR_OTHER) (\<lambda>_. op_ret [of_nat CTAP2_OK]))))))))"

section \<open>What the operations leave alone\<close>

lemma upd_frames:
  "keeps same_creds (op_iter f)" "keeps same_creds (op_upd credmgmt_reset_iterator)"
  "keeps same_creds (op_upd (\<lambda>s. s\<lparr>a_iter := g s\<rparr>))" "keeps same_creds (iter_guard sub)"
  "keeps same_creds (op_cbor w)" "keeps same_creds (op_res r)"
  by (auto simp: keeps_def op_iter_def op_upd_def same_creds_def credmgmt_reset_iterator_def iter_guard_def Let_def
      op_cbor_def op_fail_def op_ret_def op_res_def)

lemma after_frame: "keeps same_creds m \<Longrightarrow> (\<And>s. same_creds s (f s)) \<Longrightarrow> keeps same_creds (op_after m f)"
  unfolding keeps_def op_after_def by (auto split: prod.splits) (metis same_creds_def snd_conv)

lemma pos_frames: "same_creds s (rp_pos_up s)" "same_creds s (cred_pos_up s)"
  by (simp_all add: same_creds_def rp_pos_up_def cred_pos_up_def)

lemma cm_lookup_frame: "keeps same_creds (on_cred (credstore_lookup T K cid))"
  by (rule same_creds_cred) (auto simp: credstore_lookup_def split: prod.splits option.splits)

lemma entry_frames:
  "keeps same_creds (write_rp_entry T mx i n)" "keeps same_creds (write_cred_entry T mx i n)"
  "keeps same_creds (build_rp_list T)" "keeps same_creds (build_cred_list_for_rp T rp)"
  unfolding write_rp_entry_def write_cred_entry_def build_rp_list_def build_cred_list_for_rp_def
  by (intro keeps_bind keeps_cases frames upd_frames frame_orders)+

lemma enum_frames:
  "keeps same_creds (do_get_creds_metadata mx)" "keeps same_creds (do_enum_rps_begin T mx)"
  "keeps same_creds (do_enum_rps_next T mx)" "keeps same_creds (do_enum_creds_begin T params mx)"
  "keeps same_creds (do_enum_creds_next T mx)"
  unfolding do_get_creds_metadata_def do_enum_rps_begin_def do_enum_rps_next_def do_enum_creds_begin_def
    do_enum_creds_next_def
  by (intro keeps_bind keeps_cases frames upd_frames entry_frames after_frame pos_frames frame_orders)+

lemma run_frame: "cm_sub q \<noteq> SUB_DELETE_CREDENTIAL \<Longrightarrow> keeps same_creds (cm_run T K q mx)"
  unfolding cm_run_def Let_def by (simp del: split_paired_All) (intro impI conjI enum_frames frames frame_orders)

lemma authorise_frame: "keeps same_creds (cm_authorise K q)"
  unfolding cm_authorise_def check_cm_token_def check_cm_session_def
  by (intro keeps_cases keeps_bind frames upd_frames frame_orders)

section \<open>What a value means\<close>

text \<open>The token verifies over the sub-command and its parameters, with the permission; \<open>t\<close> is the token afterwards.\<close>

definition cm_token :: "crypto \<Rightarrow> cm_req \<Rightarrow> 'c auth \<Rightarrow> puat \<Rightarrow> bool" where
  "cm_token K q s t \<longleftrightarrow> (\<exists>auth n. cm_auth q = Some auth \<and>
     puat_verify K (Some auth) (word_of_int (cm_sub q) # params_of (cm_params q)) (a_clock s n) (a_puat s) = (0, t) \<and>
     puat_has_perm PUAT_PERM_CM t)"

text \<open>The token of the last authenticated request is still in use and has the permission.\<close>

definition cm_session :: "'c auth \<Rightarrow> bool" where
  "cm_session s \<longleftrightarrow> (\<exists>n t. puat_in_use (a_clock s n) (a_puat s) = (True, t) \<and>
     puat_generation t = s_iter_gen (a_iter s) \<and> puat_has_perm PUAT_PERM_CM t)"

definition cm_next :: "cm_req \<Rightarrow> bool" where
  "cm_next q \<longleftrightarrow> cm_sub q = SUB_ENUM_RPS_GET_NEXT \<or> cm_sub q = SUB_ENUM_CREDS_GET_NEXT"

lemma on_puat_val:
  "on_puat f s = (Val y, s') \<longleftrightarrow> y = fst (f (a_puat s)) \<and> s' = s\<lparr>a_pin := (a_pin s)\<lparr>cp_puat := snd (f (a_puat s))\<rparr>\<rparr>"
  by (auto simp: on_puat_def on_pin_val split: prod.splits)

lemma authorise_val:
  assumes "cm_authorise K q s = (Val x, s')"
  shows "\<not> cm_next q \<Longrightarrow> cm_token K q s (a_puat s')" and "cm_next q \<Longrightarrow> cm_session s"
proof -
  show "cm_token K q s (a_puat s')" if n: "\<not> cm_next q"
  proof -
    obtain s1 where c: "check_cm_token K q s = (Val (), s1)" and p: "a_puat s' = a_puat s1"
      using assms n by (auto simp: cm_authorise_def cm_next_def op_vals op_upd_def)
    then obtain auth where a: "cm_auth q = Some auth" by (cases "cm_auth q") (simp_all add: check_cm_token_def op_fail_val)
    let ?v = "puat_verify K (Some auth) (word_of_int (cm_sub q) # params_of (cm_params q)) (a_clock s (a_ticks s)) (a_puat s)"
    have "fst ?v = 0" "puat_has_perm PUAT_PERM_CM (snd ?v)" "snd ?v = a_puat s1"
      using c a by (auto simp: check_cm_token_def op_vals on_puat_val)
    then show ?thesis unfolding cm_token_def using a p by (metis prod.collapse)
  qed
  show "cm_session s" if n: "cm_next q"
  proof -
    have c: "check_cm_session s = (Val x, s')" using assms n by (auto simp: cm_authorise_def cm_next_def)
    let ?v = "puat_in_use (a_clock s (a_ticks s)) (a_puat s)"
    have "fst ?v" "s_iter_gen (a_iter s) = puat_generation (snd ?v)" "puat_has_perm PUAT_PERM_CM (snd ?v)"
      using c by (auto simp: check_cm_session_def op_vals on_puat_val split: if_splits)
    then show ?thesis unfolding cm_session_def by (metis prod.collapse)
  qed
qed

text \<open>A deletion that changes anything erases the slot the ID names, for an RP the token allows.\<close>

definition deletes :: "'c tropic \<Rightarrow> slot_mgr \<Rightarrow> 'c \<Rightarrow> bytes \<Rightarrow> puat \<Rightarrow> bool" where
  "deletes T m c params t \<longleftrightarrow> (\<exists>cid slot found c1 meta c2. delete_params params = Inr cid \<and>
     slots_lookup_by_credid T cid m c = (Some (slot, found), c1) \<and>
     slots_read_meta T (int slot) m c1 = (Inr meta, c2) \<and> puat_rp_matches (rp_id_hash meta) t)"

definition same_chip :: "'c auth \<Rightarrow> 'c auth \<Rightarrow> bool" where
  "same_chip s s' \<longleftrightarrow> a_chip s' = a_chip s"

lemma chip_orders: "reflp same_chip" "transp same_chip"
  by (auto simp: same_chip_def reflp_def transp_def)

lemma chip_frames:
  "keeps same_chip tick" "keeps same_chip (op_upd (\<lambda>s. s\<lparr>a_iter := g s\<rparr>))" "keeps same_chip (on_puat f)"
  "keeps same_chip (op_upd credmgmt_reset_iterator)"
  by (auto simp: keeps_def same_chip_def tick_def op_upd_def credmgmt_reset_iterator_def on_puat_def on_pin_def
      split: prod.splits)

lemma authorise_chip: "keeps same_chip (cm_authorise K q)"
  unfolding cm_authorise_def check_cm_token_def check_cm_session_def
  by (intro keeps_cases keeps_bind keeps_pure chip_frames chip_orders)

lemma delete_changes:
  assumes "do_delete_credential T K params s = (r, s')" and "a_initted s"
  shows "a_slots s' = a_slots s \<or> deletes T (a_slots s) (a_chip s) params (a_puat s)"
proof (cases "delete_params params")
  case (Inl e)
  then show ?thesis using assms by (simp add: do_delete_credential_def op_fail_def)
next
  case (Inr cid)
  obtain h k c1 where lk: "credstore_lookup T K cid (cred_of s) (a_chip s) = (h, k, c1)" by (metis prod_cases3)
  then have 1: "on_cred (credstore_lookup T K cid) s = (Val h, put_cred k c1 s)" by (simp add: on_cred_def)
  let ?s1 = "put_cred k c1 s"
  have s1: "a_slots ?s1 = a_slots s" "a_puat ?s1 = a_puat s"
    using keepsD [OF cm_lookup_frame 1] keepsD [OF puat_frame(1) 1] assms(2) by (simp_all add: same_creds_def)
  show ?thesis
  proof (cases h)
    case None
    then show ?thesis using assms(1) Inr 1 s1 by (simp add: do_delete_credential_def op_bind_def op_fail_def)
  next
    case (Some slot)
    have "\<exists>found. slots_lookup_by_credid T cid (a_slots s) (a_chip s) = (Option.Some (slot, found), c1)"
      using lk Some assms(2) by (auto simp: credstore_lookup_def cred_of_def split: option.splits prod.splits)
    moreover obtain x c3 where rd: "slots_read_meta T (int slot) (a_slots s) (a_chip ?s1) = (x, c3)" by fastforce
    let ?s2 = "?s1\<lparr>a_pin := (a_pin ?s1)\<lparr>cp_chip := c3\<rparr>\<rparr>"
    have 2: "on_chip (slots_read_meta T (int slot) (a_slots s)) ?s1 = (Val x, ?s2)"
      by (simp add: on_chip_def on_pin_def rd)
    obtain s2 where u: "s2 = ?s2" by simp
    have s2: "a_slots s2 = a_slots s" "a_puat s2 = a_puat s" using s1 by (simp_all add: u)
    note 2 = 2 [folded u]
    have "\<exists>meta. x = Inr meta \<and> puat_rp_matches (rp_id_hash meta) (a_puat s)" if ch: "a_slots s' \<noteq> a_slots s"
    proof (cases x)
      case e: (Inl e)
      then show ?thesis using assms(1) Inr 1 Some 2 s1 s2 e ch by (simp add: do_delete_credential_def op_bind_def op_get_def op_fail_def)
    next
      case m: (Inr meta)
      show ?thesis
      proof (cases "puat_rp_matches (rp_id_hash meta) (a_puat s)")
        case False
        then have "a_slots s' = a_slots s"
          using assms(1) Inr 1 Some 2 s1 s2 m False by (simp add: do_delete_credential_def op_bind_def op_get_def op_unless_def op_fail_def)
        then show ?thesis using ch by simp
      qed (use m in simp)
    qed
    moreover have "a_chip ?s1 = c1" by (simp add: put_cred_def)
    ultimately show ?thesis unfolding deletes_def using Inr rd by metis
  qed
qed

section \<open>Deleting from the small device\<close>

text \<open>With a token that may manage credentials, delete the first of its two credentials.\<close>

definition cm_auth_dev :: "(nat \<times> bytes) list auth" where
  "cm_auth_dev = two_auth\<lparr>a_pin := (a_pin two_auth)\<lparr>cp_puat := puat_begin (replicate 32 4) PUAT_PERM_CM None 0 demo_puat\<rparr>\<rparr>"

definition delete_request :: bytes where
  "delete_request = [0xA4, 1, 6, 2, 0xA1, 2, 0xA1, 0x62] @ ascii ''id'' @ [0x52, 1, 0] @ replicate 16 9 @ [3, 1, 4, 0x50] @ replicate 16 2"

lemma delete_answers: "fst (credmgmt_handle_cbor mem_chip flat_crypto delete_request 1000 cm_auth_dev) = Some [0]"
  by code_simp

lemma delete_works:
  "s_bitmap (a_slots (snd (credmgmt_handle_cbor mem_chip flat_crypto delete_request 1000 cm_auth_dev))) = 2"
  "s_bitmap (a_slots cm_auth_dev) = 3" "a_initted cm_auth_dev"
  by code_simp+

lemma credmgmt_token:
  assumes "a_initted s" and "credmgmt_handle_cbor T K req resp_max s = (resp, s')"
    and "(\<exists>r. resp = Some r \<and> length r > 1) \<or> a_slots s' \<noteq> a_slots s"
  shows "\<exists>q. cm_parse req = Inr q \<and> ((\<exists>t. cm_token K q s t) \<or> cm_next q \<and> cm_session s) \<and>
    (a_slots s' \<noteq> a_slots s \<longrightarrow> cm_sub q = SUB_DELETE_CREDENTIAL \<and>
      (\<exists>t. cm_token K q s t \<and> deletes T (a_slots s) (a_chip s) (params_of (cm_params q)) t))"
proof -
  have e: "respond (case cm_parse req of Inl e \<Rightarrow> op_fail e | Inr q \<Rightarrow>
      op_bind (op_unless (cm_sub q < 0) CTAP2_ERR_MISSING_PARAMETER) (\<lambda>_.
      op_bind (cm_authorise K q) (\<lambda>_. op_bind (iter_guard (cm_sub q)) (\<lambda>_. cm_run T K q resp_max)))) s = (resp, s')"
    using assms(2,3) by (auto simp: credmgmt_handle_cbor_def split: if_splits)
  obtain q where q: "cm_parse req = Inr q"
    using e assms(3) by (cases "cm_parse req") (auto simp: respond_def op_fail_def status_def)
  have sub: "\<not> cm_sub q < 0"
    using e assms(3) q by (auto simp: respond_def op_fail_def status_def op_bind_def op_unless_def)
  obtain a s1 where 1: "cm_authorise K q s = (a, s1)" by fastforce
  have sl1: "a_slots s1 = a_slots s" "a_initted s1"
    using keepsD [OF authorise_frame 1] assms(1) by (simp_all add: same_creds_def)
  obtain x where a: "a = Val x"
    using e assms(3) q sub 1 sl1 by (cases a) (auto simp: respond_def status_def op_bind_def op_unless_def op_ret_def)
  obtain s2 where 2: "iter_guard (cm_sub q) s1 = (Val (), s2)" by (simp add: iter_guard_def op_upd_def)
  have sl2: "a_slots s2 = a_slots s" "a_initted s2"
    using keepsD [OF upd_frames(4) 2] sl1 by (simp_all add: same_creds_def)
  have p2: "a_puat s2 = a_puat s1"
    using 2 by (auto simp: iter_guard_def op_upd_def Let_def credmgmt_reset_iterator_def)
  have c1: "a_chip s1 = a_chip s" using keepsD [OF authorise_chip 1] by (simp add: same_chip_def)
  have c2: "a_chip s2 = a_chip s"
    using 2 c1 by (auto simp: iter_guard_def op_upd_def Let_def credmgmt_reset_iterator_def)
  obtain res where 3: "cm_run T K q resp_max s2 = (res, s')"
    using e q sub 1 a 2 by (auto simp: respond_def op_bind_def op_unless_def op_ret_def split: res.splits prod.splits)
  have del: "cm_sub q = SUB_DELETE_CREDENTIAL \<and> deletes T (a_slots s) (a_chip s) (params_of (cm_params q)) (a_puat s1)"
    if ch: "a_slots s' \<noteq> a_slots s"
  proof -
    have d: "cm_sub q = SUB_DELETE_CREDENTIAL"
      using keepsD [OF run_frame 3] ch sl2 by (auto simp: same_creds_def)
    then have "do_delete_credential T K (params_of (cm_params q)) s2 = (res, s')"
      using 3 by (simp add: cm_run_def Let_def SUB_DELETE_CREDENTIAL_def SUB_GET_CREDS_METADATA_def SUB_ENUM_RPS_BEGIN_def
          SUB_ENUM_RPS_GET_NEXT_def SUB_ENUM_CREDS_BEGIN_def SUB_ENUM_CREDS_GET_NEXT_def)
    from delete_changes [OF this sl2(2)] show ?thesis using ch d sl2(1) p2 c2 by simp
  qed
  have "\<not> cm_next q" if "cm_sub q = SUB_DELETE_CREDENTIAL"
    using that by (simp add: cm_next_def SUB_DELETE_CREDENTIAL_def SUB_ENUM_RPS_GET_NEXT_def SUB_ENUM_CREDS_GET_NEXT_def)
  then show ?thesis using q authorise_val [OF 1 [unfolded a]] del by blast
qed

section \<open>Properties\<close>



end
