(* ===== verification/Ctap2.thy ===== *)
theory Ctap2
  imports Ctap2_Order Credmgmt
begin

text \<open>
  The CTAP2 dispatcher, \<^verbatim>\<open>firmware/src/fido_hid/ctap2.c\<close>: the checks in front of every command,
  GetInfo, authenticatorReset, and the calls into the handlers of the other theories.  The
  properties are about a whole command: what can change the credentials, what a device that is
  not validated still does, and what a reset leaves.
\<close>

section \<open>Constants\<close>

definition RESET_WINDOW_MS :: u32 where "RESET_WINDOW_MS = 10000"
definition RESET_TOUCH_MS :: u32 where "RESET_TOUCH_MS = 10000"

definition CTAP2_CMD_MAKE_CREDENTIAL :: u8 where "CTAP2_CMD_MAKE_CREDENTIAL = 0x01"
definition CTAP2_CMD_GET_ASSERTION :: u8 where "CTAP2_CMD_GET_ASSERTION = 0x02"
definition CTAP2_CMD_GET_INFO :: u8 where "CTAP2_CMD_GET_INFO = 0x04"
definition CTAP2_CMD_CLIENT_PIN :: u8 where "CTAP2_CMD_CLIENT_PIN = 0x06"
definition CTAP2_CMD_RESET :: u8 where "CTAP2_CMD_RESET = 0x07"
definition CTAP2_CMD_GET_NEXT_ASSERTION :: u8 where "CTAP2_CMD_GET_NEXT_ASSERTION = 0x08"
definition CTAP2_CMD_CREDENTIAL_MGMT :: u8 where "CTAP2_CMD_CREDENTIAL_MGMT = 0x0A"

definition CTAP1_ERR_INVALID_LENGTH :: nat where "CTAP1_ERR_INVALID_LENGTH = 0x03"

lemmas ctap2_cmds = CTAP2_CMD_MAKE_CREDENTIAL_def CTAP2_CMD_GET_ASSERTION_def CTAP2_CMD_GET_INFO_def
  CTAP2_CMD_CLIENT_PIN_def CTAP2_CMD_RESET_def CTAP2_CMD_GET_NEXT_ASSERTION_def
  CTAP2_CMD_CREDENTIAL_MGMT_def CTAP2_CMD_CONFIG_def

section \<open>GetInfo\<close>

definition NIXTROPIC_AAGUID :: bytes where
  "NIXTROPIC_AAGUID = [0x6E, 0x69, 0x78, 0x74, 0x72, 0x6F, 0x70, 0x69, 0x63, 0x00, 0x00, 0x00, 0x00, 0x00, 0x00, 0x04]"

definition ALGS :: "int list" where "ALGS = [- 8, - 7]"

definition write_option :: "string \<Rightarrow> bool \<Rightarrow> (cbor_writer \<Rightarrow> bool \<times> cbor_writer) list" where
  "write_option name b = [\<lambda>w. cbor_write_text w (ascii name), \<lambda>w. cbor_write_bool w b]"

text \<open>The answer, for the two values the device reads: always-UV and whether a PIN is set.\<close>

definition info_writes :: "bool \<Rightarrow> bool \<Rightarrow> (cbor_writer \<Rightarrow> bool \<times> cbor_writer) list" where
  "info_writes always_uv has_pin =
     [\<lambda>w. cbor_write_map_header w 7,
      \<lambda>w. cbor_write_uint w 1, \<lambda>w. cbor_write_array_header w 1, \<lambda>w. cbor_write_text w (ascii ''FIDO_2_0''),
      \<lambda>w. cbor_write_uint w 3, \<lambda>w. cbor_write_byte_string w NIXTROPIC_AAGUID,
      \<lambda>w. cbor_write_uint w 4, \<lambda>w. cbor_write_map_header w 9]
     @ write_option ''rk'' True @ write_option ''up'' True @ write_option ''plat'' False
     @ write_option ''alwaysUv'' always_uv @ write_option ''credMgmt'' True @ write_option ''authnrCfg'' True
     @ write_option ''clientPin'' has_pin @ write_option ''pinUvAuthToken'' True
     @ write_option ''makeCredUvNotRqd'' (\<not> always_uv)
     @ [\<lambda>w. cbor_write_uint w 5, \<lambda>w. cbor_write_uint w 1024,
      \<lambda>w. cbor_write_uint w 6, \<lambda>w. cbor_write_array_header w 1, \<lambda>w. cbor_write_uint w 1,
      \<lambda>w. cbor_write_uint w 9, \<lambda>w. cbor_write_array_header w 1, \<lambda>w. cbor_write_text w (ascii ''usb''),
      \<lambda>w. cbor_write_uint w 10, \<lambda>w. cbor_write_array_header w 2]
     @ concat (map (\<lambda>a. [\<lambda>w. cbor_write_map_header w 2, \<lambda>w. cbor_write_text w (ascii ''alg''),
         \<lambda>w. cbor_write_negint w a, \<lambda>w. cbor_write_text w (ascii ''type''),
         \<lambda>w. cbor_write_text w (ascii ''public-key'')]) ALGS)"

definition build_get_info :: "'c tropic \<Rightarrow> crypto \<Rightarrow> nat \<Rightarrow> ('c, bytes) op" where
  "build_get_info T K resp_max =
     op_bind (op_get (\<lambda>s. slots_force_uv_get (a_slots s) \<noteq> 0)) (\<lambda>always_uv.
     op_bind (on_pin (pin_is_set T K)) (\<lambda>has_pin.
     let w = cbor_seq (info_writes always_uv has_pin) (cbor_writer_init resp_max)
     in if cbor_writer_error w then op_fail CTAP2_ERR_OTHER else op_ret (of_nat CTAP2_OK # w_out w)))"

section \<open>Reset\<close>

definition reset_command :: "'c tropic \<Rightarrow> crypto \<Rightarrow> pin_crypto \<Rightarrow> ('c, bytes) op" where
  "reset_command T K P =
     op_bind tick (\<lambda>now.
     op_bind (op_unless (now > RESET_WINDOW_MS) CTAP2_ERR_NOT_ALLOWED) (\<lambda>_.
     op_bind (presence RESET_TOUCH_MS) (\<lambda>up.
     op_bind (op_unless (up \<noteq> UP_OK) (touch_status up)) (\<lambda>_.
     op_bind (on_cred (credstore_factory_reset T K)) (\<lambda>rc.
     op_bind (on_pin (\<lambda>p. ((), pin_reset_ram T P p))) (\<lambda>_.
     op_ret [of_nat (if rc = 0 then CTAP2_OK else CTAP2_ERR_OTHER)]))))))"

section \<open>The dispatcher\<close>

definition client_pin :: "'c tropic \<Rightarrow> crypto \<Rightarrow> pin_crypto \<Rightarrow> bytes \<Rightarrow> nat \<Rightarrow> 'c auth \<Rightarrow> bytes option \<times> 'c auth" where
  "client_pin T K P body resp_max s =
     (case pin_handle_cbor T K P body resp_max (a_clock s (a_ticks s)) (a_pin s) of (r, p) \<Rightarrow>
        (r, s\<lparr>a_pin := p, a_ticks := Suc (a_ticks s)\<rparr>))"

definition run_command ::
  "'c tropic \<Rightarrow> crypto \<Rightarrow> pin_crypto \<Rightarrow> u8 \<Rightarrow> bytes \<Rightarrow> nat \<Rightarrow> 'c auth \<Rightarrow> bytes option \<times> 'c auth" where
  "run_command T K P sub body resp_max =
     (if sub = CTAP2_CMD_GET_INFO then respond (build_get_info T K (resp_max - 1))
      else if sub = CTAP2_CMD_MAKE_CREDENTIAL then ctap2_make_credential T K body resp_max
      else if sub = CTAP2_CMD_GET_ASSERTION then ctap2_get_assertion T K body resp_max
      else if sub = CTAP2_CMD_CLIENT_PIN then client_pin T K P body resp_max
      else if sub = CTAP2_CMD_RESET then respond (reset_command T K P)
      else if sub = CTAP2_CMD_CREDENTIAL_MGMT then credmgmt_handle_cbor T K body resp_max
      else if sub = CTAP2_CMD_CONFIG then ctap2_config T K body
      else if sub = CTAP2_CMD_GET_NEXT_ASSERTION then ctap2_get_next_assertion T K resp_max
      else respond (op_fail CTAP1_ERR_INVALID_COMMAND))"

text \<open>The iterator and the assertion state that other commands end.\<close>

definition end_sequences :: "u8 \<Rightarrow> 'c auth \<Rightarrow> 'c auth" where
  "end_sequences sub s =
     (let s1 = (if sub \<noteq> CTAP2_CMD_CREDENTIAL_MGMT then credmgmt_reset_iterator s else s)
      in if sub \<noteq> CTAP2_CMD_GET_ASSERTION \<and> sub \<noteq> CTAP2_CMD_GET_NEXT_ASSERTION
         then snd (ctap2_assertion_reset s1) else s1)"

definition fido_hid_cbor_dispatch ::
  "'c tropic \<Rightarrow> crypto \<Rightarrow> pin_crypto \<Rightarrow> bytes \<Rightarrow> nat \<Rightarrow> 'c auth \<Rightarrow> bytes option \<times> 'c auth" where
  "fido_hid_cbor_dispatch T K P req resp_max s =
     (if resp_max < 1 then (None, s)
      else case req of
        [] \<Rightarrow> (status CTAP1_ERR_INVALID_LENGTH, s)
      | sub # body \<Rightarrow>
          let s1 = end_sequences sub s in
          if body \<noteq> [] \<and> \<not> cbor_validate body then (status CTAP2_ERR_INVALID_CBOR, s1)
          else if sub \<noteq> CTAP2_CMD_GET_INFO \<and> sub \<noteq> CTAP2_CMD_RESET \<and> \<not> credstore_ready (cred_of s1)
          then (status CTAP2_ERR_NOT_ALLOWED, s1)
          else run_command T K P sub body resp_max s1)"

section \<open>The credential bitmap\<close>

abbreviation cp_bitmap :: "'c cp \<Rightarrow> u32" where "cp_bitmap p \<equiv> s_bitmap (f_slots (cp_fido p))"
abbreviation a_bitmap :: "'c auth \<Rightarrow> u32" where "a_bitmap s \<equiv> s_bitmap (a_slots s)"

lemma write_global_bitmap:
  "s_bitmap (fst (snd (write_global T K (s_bitmap m) uv bound m c))) = s_bitmap m"
  by (auto simp: write_global_def split: prod.splits if_splits)

lemma set_bound_bitmap: "slots_set_pin_bound T K b uv m c = (rc, m', c') \<Longrightarrow> s_bitmap m' = s_bitmap m"
  using write_global_bitmap [of T K m "if uv then 1 else s_force_uv m"]
  by (auto simp: slots_set_pin_bound_def dest!: arg_cong [where f = "\<lambda>x. fst (snd x)"])

lemma fido_pin_bitmap:
  "fido_pin_state T K f c = (st, att, f', c') \<Longrightarrow> s_bitmap (f_slots f') = s_bitmap (f_slots f)"
  "fido_pin_verify T K m f c = (rc, ok, f', c') \<Longrightarrow> s_bitmap (f_slots f') = s_bitmap (f_slots f)"
  "fido_pin_change T K m m' n f c = (rc, ok, f', c') \<Longrightarrow> s_bitmap (f_slots f') = s_bitmap (f_slots f)"
  by (auto simp: fido_pin_state_def fido_pin_verify_def fido_pin_change_def Let_def
      split: prod.splits if_splits pmd_state.splits)

lemma fido_pin_set_bitmap:
  assumes "fido_pin_set T K m n f c = (rc, f', c')"
  shows "s_bitmap (f_slots f') = s_bitmap (f_slots f)"
proof -
  obtain st att f1 c1 where 1: "fido_pin_state T K f c = (st, att, f1, c1)" by (metis prod_cases4)
  obtain rc2 x p c2 where 2: "pin_md_kernel_setup T K FIDO_LAYOUT m n (f_o2 f1) c1 = (rc2, x, p, c2)" by (metis prod_cases4)
  obtain rc3 sl c3 where 3: "slots_set_pin_bound T K True True (f_slots f1) c2 = (rc3, sl, c3)" by (metis prod_cases3)
  show ?thesis using assms 1 2 3 fido_pin_bitmap(1) [OF 1] set_bound_bitmap [OF 3]
    by (auto simp: fido_pin_set_def Let_def split: if_splits)
qed

lemma cp_bitmaps:
  "cp_pin_state T K s = (st, att, s1) \<Longrightarrow> cp_bitmap s1 = cp_bitmap s"
  "cp_pin_set T K m n s = (rc, s1) \<Longrightarrow> cp_bitmap s1 = cp_bitmap s"
  "cp_pin_verify T K m s = (rc, ok, s1) \<Longrightarrow> cp_bitmap s1 = cp_bitmap s"
  "cp_pin_change T K m m' n s = (rc, ok, s1) \<Longrightarrow> cp_bitmap s1 = cp_bitmap s"
  by (auto simp: cp_pin_state_def cp_pin_set_def cp_pin_verify_def cp_pin_change_def
      dest!: fido_pin_bitmap fido_pin_set_bitmap split: prod.splits)

lemma regen_bitmap: "cp_bitmap (snd (regen_eph T P s)) = cp_bitmap s"
proof -
  have "cp_bitmap (snd (regen_attempts T P k s)) = cp_bitmap s" for k
    by (induction k arbitrary: s) (auto simp: Let_def split: sum.splits prod.splits option.splits)
  then show ?thesis by (simp add: regen_eph_def)
qed

lemma init_bitmap: "pin_init T P s = (rc, s1) \<Longrightarrow> cp_bitmap s1 = cp_bitmap s \<and> (rc = 0 \<longrightarrow> cp_initted s1)"
  using regen_bitmap [of T P s] by (auto simp: pin_init_def split: prod.splits if_splits)

lemma mismatch_bitmap: "pin_mismatch_status T K P s = (rc, s') \<Longrightarrow> cp_bitmap s' = cp_bitmap s"
  by (auto simp: pin_mismatch_status_def Let_def regen_bitmap dest!: cp_bitmaps split: prod.splits)

lemma verify_bitmap: "verify_pin_hash_enc T K P k phe s = (rc, s') \<Longrightarrow> cp_bitmap s' = cp_bitmap s"
  by (auto simp: verify_pin_hash_enc_def regen_bitmap dest!: cp_bitmaps mismatch_bitmap
      split: prod.splits option.splits if_splits)

lemma outcome_bitmap: "change_outcome T K P policy (krc, ok, s) = (rc, s') \<Longrightarrow> cp_bitmap s' = cp_bitmap s"
  by (auto simp: change_outcome_def regen_bitmap dest!: mismatch_bitmap split: prod.splits if_splits)

lemma drop_bitmap: "cp_bitmap (drop_token s) = cp_bitmap s"
  by (simp add: drop_token_def)

lemma initted_bitmap:
  assumes "pin_handle_cbor T K P req mx now s = (resp, s')" and "cp_initted s"
  shows "cp_bitmap s' = cp_bitmap s"
  using assms
proof (cases rule: command_cases)
  case (read st att)
  then show ?thesis by (rule cp_bitmaps)
next
  case (setp r n)
  then show ?thesis using assms(2)
  proof (cases rule: set_cases)
    case (keyed att s1 key pa npe rc)
    have 1: "cp_bitmap s1 = cp_bitmap s" by (rule cp_bitmaps(1) [OF keyed(1)])
    from keyed(2) show ?thesis
      by (cases rule: set_key_cases) (auto simp: 1 drop_bitmap regen_bitmap dest: cp_bitmaps(2))
  qed (rule cp_bitmaps)
next
  case (change r n)
  then show ?thesis using assms(2)
  proof (cases rule: change_cases)
    case (keyed att s1 key pa npe phe rc)
    have 1: "cp_bitmap s1 = cp_bitmap s" by (rule cp_bitmaps(1) [OF keyed(1)])
    from keyed(3) show ?thesis
    proof (cases rule: change_key_cases)
      case (outcome old plen policy hash krc ok s2)
      have "cp_bitmap s2 = cp_bitmap (drop_token s1)"
        using outcome(4) cp_bitmaps(3,4) by (metis (no_types, lifting))
      then show ?thesis using outcome_bitmap [OF outcome(5)] by (simp add: 1 drop_bitmap)
    qed (simp add: 1)
  qed (rule cp_bitmaps)
next
  case (token r n wp)
  then show ?thesis
  proof (cases rule: token_cases)
    case (spent st att s1 key phe rc)
    then show ?thesis using cp_bitmaps(1) [OF spent(1)] verify_bitmap [OF spent(4)] by simp
  next
    case (issued st att s1 key phe s2 perms rp q)
    have 2: "cp_bitmap s2 = cp_bitmap s" using cp_bitmaps(1) [OF issued(1)] verify_bitmap [OF issued(4)] by simp
    from issued(6) show ?thesis by (cases rule: issue_cases) (simp_all add: drop_token_def 2)
  qed (auto dest: cp_bitmaps)
qed simp

lemma pin_bitmap:
  assumes "pin_handle_cbor T K P req mx now s = (resp, s')"
  shows "cp_bitmap s' = cp_bitmap s"
proof (cases "cp_initted s")
  case False
  obtain rc s1 where 1: "pin_init T P s = (rc, s1)" by fastforce
  show ?thesis
  proof (cases "rc = 0")
    case True
    have "pin_handle_cbor T K P req mx now s1 = (resp, s')"
      using assms False 1 True init_bitmap [OF 1] by (simp add: pin_handle_cbor_def)
    then show ?thesis using initted_bitmap init_bitmap [OF 1] True by metis
  qed (use assms False 1 init_bitmap [OF 1] in \<open>simp add: pin_handle_cbor_def\<close>)
qed (rule initted_bitmap [OF assms])

section \<open>The other commands\<close>

definition same_bitmap :: "'c auth \<Rightarrow> 'c auth \<Rightarrow> bool" where
  "same_bitmap s s' \<longleftrightarrow> a_bitmap s' = a_bitmap s"

lemma bitmap_orders: "reflp same_bitmap" "transp same_bitmap"
  by (auto simp: same_bitmap_def reflp_def transp_def)

lemma force_uv_frame: "keeps same_bitmap (on_slots (slots_force_uv_set T K v))"
proof -
  have "s_bitmap (fst (snd (slots_force_uv_set T K v m c))) = s_bitmap m" for m c
    by (simp add: slots_force_uv_set_def write_global_bitmap)
  then show ?thesis
    by (auto simp: keeps_def same_bitmap_def on_slots_def on_cred_def put_cred_def cred_of_def set_slots_def
        split: prod.splits) (metis fst_conv snd_conv)
qed

lemma bitmap_frames:
  "keeps same_bitmap tick" "keeps same_bitmap (on_puat f)" "keeps same_bitmap (on_pin (pin_is_set T K))"
  using pin_state_slots [of T K]
  by (auto simp: keeps_def same_bitmap_def tick_def on_puat_def on_pin_def case_prod_beta split: prod.splits)

lemma respond_snd: "snd (respond m s) = snd (m s)"
  by (simp add: respond_def split: prod.splits res.splits)

lemma keeps_state: "keeps R m \<Longrightarrow> R s (snd (m s))"
  by (simp add: keeps_def)

lemma acfg_bitmap: "keeps same_bitmap (check_acfg_token K q sub)"
  unfolding check_acfg_token_def by (intro keeps_cases keeps_bind keeps_pure bitmap_frames bitmap_orders)

lemma config_bitmap: "same_bitmap s (snd (ctap2_config T K body s))"
  unfolding ctap2_config_def respond_snd
  by (rule keeps_state)
    (intro keeps_cases keeps_bind keeps_pure bitmap_frames bitmap_orders force_uv_frame acfg_bitmap)

lemma same_creds_bitmap: "same_creds s s' \<Longrightarrow> a_initted s \<Longrightarrow> a_bitmap s' = a_bitmap s"
  by (simp add: same_creds_def)

lemma reset_creds: "keeps same_creds ctap2_assertion_reset"
  by (simp add: keeps_def ctap2_assertion_reset_def same_creds_def)

lemma ga_creds: "same_creds s (snd (ctap2_get_assertion T K body mx s))"
proof -
  have upd: "keeps same_creds (\<lambda>s. (Val (x::bytes), s\<lparr>a_ga := g s\<rparr>))" for x g
    by (simp add: keeps_def same_creds_def)
  have answer: "keeps same_creds (ga_answer T K q u rp mx x)" for q u rp x
    unfolding ga_answer_def Let_def
    by (intro keeps_cases keeps_bind frames sign_respond_frame upd frame_orders)
  show ?thesis unfolding ctap2_get_assertion_def respond_snd Let_def
    by (rule keeps_state) (intro keeps_cases keeps_bind answer reset_creds ga_checked_frame touch_frame frames frame_orders)
qed

lemma gna_creds: "same_creds s (snd (ctap2_get_next_assertion T K mx s))"
proof -
  have upd: "keeps same_creds (\<lambda>s. ga_sign_respond T K sl rp fl h 0 mx (s\<lparr>a_ga := g s\<rparr>))" for sl rp fl h g
  proof (unfold keeps_def, rule)
    fix s :: "'a auth"
    have "same_creds (s\<lparr>a_ga := g s\<rparr>) (snd (ga_sign_respond T K sl rp fl h 0 mx (s\<lparr>a_ga := g s\<rparr>)))"
      by (rule keeps_state [OF sign_respond_frame(1)])
    then show "same_creds s (snd (ga_sign_respond T K sl rp fl h 0 mx (s\<lparr>a_ga := g s\<rparr>)))"
      by (simp add: same_creds_def)
  qed
  show ?thesis unfolding ctap2_get_next_assertion_def respond_snd
    by (rule keeps_state) (intro keeps_cases keeps_bind reset_creds frames upd frame_orders)
qed

lemma ends_views:
  "a_slots (end_sequences sub s) = a_slots s" "a_pin (end_sequences sub s) = a_pin s"
  "a_initted (end_sequences sub s) = a_initted s" "a_clock (end_sequences sub s) = a_clock s"
  "a_ticks (end_sequences sub s) = a_ticks s" "a_touch (end_sequences sub s) = a_touch s"
  "a_touches (end_sequences sub s) = a_touches s" "a_up (end_sequences sub s) = a_up s"
  "a_mutating (end_sequences sub s) = a_mutating s" "cred_of (end_sequences sub s) = cred_of s"
  by (simp_all add: end_sequences_def Let_def credmgmt_reset_iterator_def ctap2_assertion_reset_def cred_of_def)

section \<open>Reset\<close>

text \<open>The window is open by the clock, and the wait for a touch ends with a confirmed press.\<close>

definition reset_allowed :: "'c auth \<Rightarrow> bool" where
  "reset_allowed s \<longleftrightarrow> a_clock s (a_ticks s) \<le> RESET_WINDOW_MS \<and>
     (case a_touch s (a_touches s) of (start, rs) \<Rightarrow>
        fst (user_presence_check RESET_TOUCH_MS start rs (a_up s)) = Some UP_OK)"

text \<open>The 32-bit tick wraps: the window opens again every 2^32 milliseconds.\<close>

lemma reset_window_wraps:
  "a_clock s (a_ticks s) = of_nat (2 ^ 32 * k + up) \<Longrightarrow> up \<le> 10000 \<Longrightarrow> a_clock s (a_ticks s) \<le> RESET_WINDOW_MS"
  by (simp only: RESET_WINDOW_MS_def word_le_nat_alt unat_of_nat take_bit_nat_def) simp

text \<open>Either nothing but the clock and the button was read, or it was allowed and the wipe ran.\<close>

lemma reset_cases:
  assumes "reset_command T K P s = (r, s')"
  obtains (refused) "a_pin s' = a_pin s" "a_initted s' = a_initted s" "\<not> reset_allowed s"
      "r = Waits \<or> (\<exists>e \<in> {CTAP2_ERR_NOT_ALLOWED, CTAP2_ERR_KEEPALIVE_CANCEL, CTAP2_ERR_OPERATION_DENIED}. r = Fail e)"
    | (wiped) rc k c where "reset_allowed s" "credstore_factory_reset T K (cred_of s) (a_chip s) = (rc, k, c)"
      "a_pin s' = pin_reset_ram T P ((a_pin s)\<lparr>cp_fido := cs_fido k, cp_chip := c\<rparr>)" "a_initted s' = cs_initted k"
      "r = Val [of_nat (if rc = 0 then CTAP2_OK else CTAP2_ERR_OTHER)]"
proof -
  obtain start rs where t: "a_touch s (a_touches s) = (start, rs)" by (rule prod.exhaust)
  obtain up u where p: "user_presence_check RESET_TOUCH_MS start rs (a_up s) = (up, u)" by (rule prod.exhaust)
  let ?now = "a_clock s (a_ticks s)"
  let ?s1 = "s\<lparr>a_ticks := Suc (a_ticks s), a_up := u, a_touches := Suc (a_touches s)\<rparr>"
  show thesis
  proof (cases "?now > RESET_WINDOW_MS \<or> up \<noteq> Some UP_OK")
    case True
    then have "\<not> reset_allowed s" by (auto simp: reset_allowed_def t p)
    moreover have "a_pin s' = a_pin s" "a_initted s' = a_initted s"
      "r = Waits \<or> (\<exists>e \<in> {CTAP2_ERR_NOT_ALLOWED, CTAP2_ERR_KEEPALIVE_CANCEL, CTAP2_ERR_OPERATION_DENIED}. r = Fail e)"
      using assms True t p
      by (auto simp: reset_command_def op_bind_def tick_def presence_def op_unless_def op_fail_def op_ret_def touch_status_def
          split: if_splits option.splits)
    ultimately show thesis using refused by blast
  next
    case False
    then have ok: "reset_allowed s" by (auto simp: reset_allowed_def t p)
    obtain rc k c where w: "credstore_factory_reset T K (cred_of s) (a_chip s) = (rc, k, c)" by (metis prod_cases3)
    have "credstore_factory_reset T K (cred_of ?s1) (a_chip ?s1) = (rc, k, c)" using w by (simp add: cred_of_def)
    then have "s' = (put_cred k c ?s1)\<lparr>a_pin := pin_reset_ram T P (a_pin (put_cred k c ?s1))\<rparr>"
        "r = Val [of_nat (if rc = 0 then CTAP2_OK else CTAP2_ERR_OTHER)]"
      using assms False t p
      by (auto simp: reset_command_def op_bind_def tick_def presence_def op_unless_def op_ret_def on_cred_def on_pin_def)
    then show thesis using wiped [OF ok w] by (simp add: put_cred_def)
  qed
qed

lemma fresh_wipe:
  assumes "credstore_factory_reset T K k c = (rc, k', c')"
  shows "rc = 0 \<Longrightarrow> cs_initted k' \<and> slots_usable (cs_slots k') \<and> s_bitmap (cs_slots k') = 0 \<and>
      s_force_uv (cs_slots k') = 0 \<and> s_pin_bound (cs_slots k') = 0"
    and "rc \<noteq> 0 \<Longrightarrow> \<not> cs_initted k'"
proof -
  have clear: "uncertain p1 = uncertain p" if "rec_pair_clear T p c = (REC_OK, p1, c1)" for p c p1 c1
    using that by (auto simp: rec_pair_clear_def Let_def split: if_splits prod.splits)
  have both: "uncertain p1 = uncertain p" if "commit_both T K g pl p c = (REC_OK, p1, c1)" for g pl p c p1 c1
    using that by (auto simp: commit_both_def Let_def split: if_splits prod.splits)
  have init: "uncertain p1 = uncertain p" if "rec_pair_init T K pl p c = (REC_OK, p1, c1)" for pl p c p1 c1
    using that by (auto simp: rec_pair_init_def split: if_splits prod.splits rec_status.splits dest!: clear both)
  have fresh: "s_initted m' \<and> \<not> uncertain (s_o1 m') \<and> s_bitmap m' = 0 \<and> s_force_uv m' = 0 \<and> s_pin_bound m' = 0"
    if "slots_init_fresh T K m c = (0, m', c')" for m c m' c'
    using that by (auto simp: slots_init_fresh_def Let_def split: if_splits prod.splits dest: init)
  have wipe: "s_initted (f_slots f') \<and> \<not> uncertain (s_o1 (f_slots f')) \<and> s_bitmap (f_slots f') = 0 \<and>
      s_force_uv (f_slots f') = 0 \<and> s_pin_bound (f_slots f') = 0"
    if "fido_state_wipe T K f c = (0, f', c')" for f c f' c'
    using that by (auto simp: fido_state_wipe_def Let_def split: if_splits prod.splits dest!: fresh)
  show "rc = 0 \<Longrightarrow> cs_initted k' \<and> slots_usable (cs_slots k') \<and> s_bitmap (cs_slots k') = 0 \<and>
      s_force_uv (cs_slots k') = 0 \<and> s_pin_bound (cs_slots k') = 0" and "rc \<noteq> 0 \<Longrightarrow> \<not> cs_initted k'"
    using assms by (auto simp: credstore_factory_reset_def Let_def slots_usable_def split: if_splits prod.splits dest!: wipe)
qed

lemma reset_ram_views:
  "cp_fido (pin_reset_ram T P p) = cp_fido p" "cp_puat (pin_reset_ram T P p) = puat_reset (cp_puat p)"
  "s_consec_fails (pin_reset_ram T P p) = 0" "\<not> s_auth_blocked (pin_reset_ram T P p)"
proof -
  have "cp_fido (snd (regen_attempts T P n q)) = cp_fido q" for n q
    by (induction n arbitrary: q) (auto simp: Let_def split: sum.splits prod.splits option.splits)
  then show "cp_fido (pin_reset_ram T P p) = cp_fido p" by (simp add: pin_reset_ram_def regen_eph_def)
  let ?q = "p\<lparr>cp_puat := puat_reset (cp_puat p), s_consec_fails := 0, s_auth_blocked := False\<rparr>"
  have r: "ram (pin_reset_ram T P p) = ram ?q" by (simp add: pin_reset_ram_def regen_ram)
  show "cp_puat (pin_reset_ram T P p) = puat_reset (cp_puat p)" "s_consec_fails (pin_reset_ram T P p) = 0"
      "\<not> s_auth_blocked (pin_reset_ram T P p)"
    using r by (simp_all add: ram_fields)
qed

section \<open>Whole commands\<close>

text \<open>What gets past the checks of the dispatcher.\<close>

lemma dispatch_cases:
  assumes "fido_hid_cbor_dispatch T K P req mx s = (resp, s')"
  obtains (refused) "s' = s \<or> (\<exists>sub. s' = end_sequences sub s)"
    | (run) sub body where "req = sub # body" "run_command T K P sub body mx (end_sequences sub s) = (resp, s')"
      "sub \<noteq> CTAP2_CMD_GET_INFO \<Longrightarrow> sub \<noteq> CTAP2_CMD_RESET \<Longrightarrow> credstore_ready (cred_of s)"
  using assms by (auto simp: fido_hid_cbor_dispatch_def Let_def ends_views split: if_splits list.splits)

lemma info_frame: "keeps same_bitmap (build_get_info T K mx)"
  unfolding build_get_info_def Let_def
  by (intro keeps_cases keeps_bind keeps_pure bitmap_frames bitmap_orders)

text \<open>The three ways the set of credentials may change.\<close>

definition may_change :: "'c tropic \<Rightarrow> crypto \<Rightarrow> u8 \<Rightarrow> bytes \<Rightarrow> 'c auth \<Rightarrow> bool" where
  "may_change T K sub body s \<longleftrightarrow>
     (if sub = CTAP2_CMD_MAKE_CREDENTIAL then
        (\<exists>q. ctap2_parse_make_cred body = Inr q \<and> touched s \<and>
          (slots_force_uv_get (a_slots s) \<noteq> 0 \<or> opt_rk (mc_opt q) = 1 \<and> fst (pin_is_set T K (a_pin s)) \<longrightarrow>
            token_ok K (mc_pin_uv q) (mc_client_hash q) PUAT_PERM_MC (sha256 K (mc_rp_id q)) s))
      else if sub = CTAP2_CMD_RESET then reset_allowed s
      else if sub = CTAP2_CMD_CREDENTIAL_MGMT then
        (\<exists>q t. cm_parse body = Inr q \<and> cm_sub q = SUB_DELETE_CREDENTIAL \<and> cm_token K q s t \<and>
          deletes T (a_slots s) (a_chip s) (params_of (cm_params q)) t)
      else False)"

lemma may_change_ends: "may_change T K sub body (end_sequences sub' s) = may_change T K sub body s"
  by (simp add: may_change_def touched_def token_ok_def reset_allowed_def cm_token_def deletes_def ends_views)

lemma run_changes:
  assumes "run_command T K P sub body mx s = (resp, s')" and "a_bitmap s' \<noteq> a_bitmap s"
    and "sub \<noteq> CTAP2_CMD_GET_INFO \<Longrightarrow> sub \<noteq> CTAP2_CMD_RESET \<Longrightarrow> a_initted s"
  shows "may_change T K sub body s"
proof -
  note [simp] = ctap2_cmds
  consider "sub = CTAP2_CMD_GET_INFO" | "sub = CTAP2_CMD_MAKE_CREDENTIAL" | "sub = CTAP2_CMD_GET_ASSERTION"
    | "sub = CTAP2_CMD_CLIENT_PIN" | "sub = CTAP2_CMD_RESET" | "sub = CTAP2_CMD_CREDENTIAL_MGMT"
    | "sub = CTAP2_CMD_CONFIG" | "sub = CTAP2_CMD_GET_NEXT_ASSERTION"
    | "run_command T K P sub body mx s = respond (op_fail CTAP1_ERR_INVALID_COMMAND) s"
    unfolding run_command_def by presburger
  then show ?thesis
  proof cases
    case 1
    then have "s' = snd (build_get_info T K (mx - 1) s)"
      using assms(1) by (simp add: run_command_def) (metis respond_snd snd_conv)
    then show ?thesis using assms(2) keeps_state [OF info_frame] by (auto simp: same_bitmap_def)
  next
    case 2
    then have "ctap2_make_credential T K body mx s = (resp, s')" using assms(1) by (simp add: run_command_def)
    from mc_consent [OF assms(3) this] show ?thesis using 2 assms(2) by (auto simp: may_change_def)
  next
    case 3
    then have "s' = snd (ctap2_get_assertion T K body mx s)" using assms(1) by (simp add: run_command_def)
    then show ?thesis using assms(2,3) 3 same_creds_bitmap [OF ga_creds [of s T K body mx]] by auto
  next
    case 4
    then show ?thesis using assms(1,2)
      by (auto simp: run_command_def client_pin_def dest: pin_bitmap split: prod.splits)
  next
    case 5
    obtain r where "reset_command T K P s = (r, s')"
      using assms(1) 5 by (auto simp: run_command_def respond_def split: prod.splits res.splits)
    then show ?thesis
      by (cases rule: reset_cases) (use assms(2) 5 in \<open>auto simp: may_change_def\<close>)
  next
    case 6
    then have "credmgmt_handle_cbor T K body mx s = (resp, s')" using assms(1) by (simp add: run_command_def)
    moreover have "a_slots s' \<noteq> a_slots s" using assms(2) by auto
    ultimately show ?thesis using credmgmt_token [of s T K body mx resp s'] assms(3) 6 by (auto simp: may_change_def)
  next
    case 7
    then have "s' = snd (ctap2_config T K body s)" using assms(1) by (simp add: run_command_def)
    then show ?thesis using assms(2) config_bitmap [of s] by (auto simp: same_bitmap_def)
  next
    case 8
    then have "s' = snd (ctap2_get_next_assertion T K mx s)" using assms(1) by (simp add: run_command_def)
    then show ?thesis using assms(2,3) 8 same_creds_bitmap [OF gna_creds [of s T K mx]] by auto
  next
    case 9
    then show ?thesis using assms(1,2) by (simp add: respond_def op_fail_def)
  qed
qed

section \<open>A device that is not validated\<close>

lemma not_ready_frame:
  assumes "fido_hid_cbor_dispatch T K P req mx s = (resp, s')" and "\<not> credstore_ready (cred_of s)"
    and "a_pin s' \<noteq> a_pin s \<or> (\<exists>r. resp = Some r \<and> length r > 1)"
  shows "\<exists>sub body. req = sub # body \<and> (sub = CTAP2_CMD_GET_INFO \<or> sub = CTAP2_CMD_RESET)"
  using assms by (auto simp: fido_hid_cbor_dispatch_def Let_def ends_views status_def split: if_splits list.splits)

section \<open>GetInfo\<close>

text \<open>The answer as bytes: the map of CTAP 6.4 with its seven members, as keys and values in turn.\<close>

definition text_item :: "string \<Rightarrow> bytes" where
  "text_item t = (0x60 + of_nat (length t)) # ascii t"

definition bool_item :: "bool \<Rightarrow> bytes" where
  "bool_item b = [if b then 0xF5 else 0xF4]"

definition info_options :: "bool \<Rightarrow> bool \<Rightarrow> bytes list" where
  "info_options uv pin =
     [text_item ''rk'', bool_item True, text_item ''up'', bool_item True, text_item ''plat'', bool_item False,
      text_item ''alwaysUv'', bool_item uv, text_item ''credMgmt'', bool_item True,
      text_item ''authnrCfg'', bool_item True, text_item ''clientPin'', bool_item pin,
      text_item ''pinUvAuthToken'', bool_item True, text_item ''makeCredUvNotRqd'', bool_item (\<not> uv)]"

definition alg_item :: "u8 \<Rightarrow> bytes" where
  "alg_item a = [0xA2] @ concat [text_item ''alg'', [a], text_item ''type'', text_item ''public-key'']"

definition info_members :: "bool \<Rightarrow> bool \<Rightarrow> bytes list" where
  "info_members uv pin =
     [[1], [0x81] @ text_item ''FIDO_2_0'', [3], [0x50] @ NIXTROPIC_AAGUID, [4], [0xA9] @ concat (info_options uv pin),
      [5], [0x19, 0x04, 0x00], [6], [0x81, 1], [9], [0x81] @ text_item ''usb'',
      [10], [0x82] @ alg_item 0x27 @ alg_item 0x26]"

definition info_map :: "bool \<Rightarrow> bool \<Rightarrow> bytes" where
  "info_map uv pin = [0xA7] @ concat (info_members uv pin)"

lemma text_heads:
  assumes "n < 24"
  shows "head_bytes CBOR_MT_TEXT_STR (of_nat n) = [0x60 + of_nat n]"
    and "decode_head [0x60 + of_nat n] = Some (3, of_nat n, length [0x60 + of_nat n :: u8])"
proof -
  have "list_all (\<lambda>n. head_bytes CBOR_MT_TEXT_STR (of_nat n) = [0x60 + of_nat n] \<and>
      decode_head [0x60 + of_nat n] = Some (3, of_nat n, length [0x60 + of_nat n :: u8])) [0..<24]" by code_simp
  then show "head_bytes CBOR_MT_TEXT_STR (of_nat n) = [0x60 + of_nat n]"
    and "decode_head [0x60 + of_nat n] = Some (3, of_nat n, length [0x60 + of_nat n :: u8])"
    using assms unfolding list_all_iff by auto
qed

lemma info_heads:
  "head_bytes CBOR_MT_MAP 7 = [0xA7]" "head_bytes CBOR_MT_MAP 9 = [0xA9]" "head_bytes CBOR_MT_MAP 2 = [0xA2]"
  "head_bytes CBOR_MT_ARRAY 1 = [0x81]" "head_bytes CBOR_MT_ARRAY 2 = [0x82]" "head_bytes CBOR_MT_BYTE_STR 16 = [0x50]"
  "head_bytes CBOR_MT_UINT 1 = [1]" "head_bytes CBOR_MT_UINT 3 = [3]" "head_bytes CBOR_MT_UINT 4 = [4]"
  "head_bytes CBOR_MT_UINT 5 = [5]" "head_bytes CBOR_MT_UINT 6 = [6]" "head_bytes CBOR_MT_UINT 9 = [9]"
  "head_bytes CBOR_MT_UINT 10 = [10]" "head_bytes CBOR_MT_UINT 1024 = [0x19, 0x04, 0x00]"
  "head_bytes CBOR_MT_NEGINT 7 = [0x27]" "head_bytes CBOR_MT_NEGINT 6 = [0x26]"
  by code_simp+

lemma info_emits:
  "emits (\<lambda>w. cbor_write_map_header w 7) [0xA7]" "emits (\<lambda>w. cbor_write_map_header w 9) [0xA9]"
  "emits (\<lambda>w. cbor_write_map_header w 2) [0xA2]" "emits (\<lambda>w. cbor_write_array_header w 1) [0x81]"
  "emits (\<lambda>w. cbor_write_array_header w 2) [0x82]" "emits (\<lambda>w. cbor_write_uint w 1) [1]"
  "emits (\<lambda>w. cbor_write_uint w 3) [3]" "emits (\<lambda>w. cbor_write_uint w 4) [4]"
  "emits (\<lambda>w. cbor_write_uint w 5) [5]" "emits (\<lambda>w. cbor_write_uint w 6) [6]"
  "emits (\<lambda>w. cbor_write_uint w 9) [9]" "emits (\<lambda>w. cbor_write_uint w 10) [10]"
  "emits (\<lambda>w. cbor_write_uint w 1024) [0x19, 0x04, 0x00]"
  "emits (\<lambda>w. cbor_write_negint w (- 8)) [0x27]" "emits (\<lambda>w. cbor_write_negint w (- 7)) [0x26]"
  "emits (\<lambda>w. cbor_write_byte_string w NIXTROPIC_AAGUID) ([0x50] @ NIXTROPIC_AAGUID)"
  "emits (\<lambda>w. cbor_write_bool w b) (bool_item b)"
  "length t < 24 \<Longrightarrow> emits (\<lambda>w. cbor_write_text w (ascii t)) (text_item t)"
proof -
  show "length t < 24 \<Longrightarrow> emits (\<lambda>w. cbor_write_text w (ascii t)) (text_item t)"
    using emits_text [of "ascii t"] text_heads(1) by (simp add: text_item_def ascii_def)
  have "bool_item b = [mt_bits CBOR_MT_SIMPLE OR (if b then CBOR_SIMPLE_TRUE else CBOR_SIMPLE_FALSE)]"
    by (cases b) (simp_all add: bool_item_def, code_simp+)
  then show "emits (\<lambda>w. cbor_write_bool w b) (bool_item b)" using emits_bool [of b] by simp
  show "emits (\<lambda>w. cbor_write_array_header w 1) [0x81]"
    by (rule emits_array [of 1, unfolded of_nat_1 info_heads(4)])
  have "length NIXTROPIC_AAGUID = 16" by (simp add: NIXTROPIC_AAGUID_def)
  then show "emits (\<lambda>w. cbor_write_byte_string w NIXTROPIC_AAGUID) ([0x50] @ NIXTROPIC_AAGUID)"
    using emits_byte_string [of NIXTROPIC_AAGUID] by (simp add: info_heads)
qed (use emits_map [of 7] emits_map [of 9] emits_map [of 2] emits_array [of 2] emits_uint [of 1]
  emits_uint [of 3] emits_uint [of 4] emits_uint [of 5] emits_uint [of 6] emits_uint [of 9] emits_uint [of 10]
  emits_uint [of 1024] emits_negint [of "- 8"] emits_negint [of "- 7"]
  in \<open>simp_all add: info_heads\<close>)

definition info_parts :: "bool \<Rightarrow> bool \<Rightarrow> bytes list" where
  "info_parts uv pin = [[0xA7], [1], [0x81], text_item ''FIDO_2_0'', [3], [0x50] @ NIXTROPIC_AAGUID, [4], [0xA9]] @
     info_options uv pin @ [[5], [0x19, 0x04, 0x00], [6], [0x81], [1], [9], [0x81], text_item ''usb'', [10], [0x82],
     [0xA2], text_item ''alg'', [0x27], text_item ''type'', text_item ''public-key'',
     [0xA2], text_item ''alg'', [0x26], text_item ''type'', text_item ''public-key'']"

lemma info_calls: "list_all2 emits (info_writes uv pin) (info_parts uv pin)"
  by (simp add: info_writes_def info_parts_def info_options_def write_option_def ALGS_def info_emits
      info_emits(4) [unfolded One_nat_def] info_emits(16) [simplified])

lemma info_parts_map: "concat (info_parts uv pin) = info_map uv pin"
  by (simp add: info_parts_def info_map_def info_members_def info_options_def alg_item_def)

lemma text_wf: "length t < 24 \<Longrightarrow> wf_item k (text_item t)"
proof -
  assume "length t < 24"
  then have "wf_item k ([0x60 + of_nat (length t)] @ ascii t)"
    by (intro wf_string [where mt = 3 and v = "of_nat (length t)"])
      (simp_all add: text_heads ascii_def unat_of_nat take_bit_nat_eq_self)
  then show ?thesis by (simp add: text_item_def)
qed

lemma head_wf:
  "wf_item k [1]" "wf_item k [3]" "wf_item k [4]" "wf_item k [5]" "wf_item k [6]" "wf_item k [9]" "wf_item k [10]"
  "wf_item k [0x26]" "wf_item k [0x27]" "wf_item k [0x19, 0x04, 0x00]" "wf_item k (bool_item b)"
  "wf_item k ([0x50] @ NIXTROPIC_AAGUID)"
proof -
  have s: "wf_item k h" if "case decode_head h of None \<Rightarrow> False | Some (mt, v, n) \<Rightarrow> mt \<in> {0, 1, 7} \<and> n = length h" for h
    using that by (auto split: option.splits intro: wf_scalar)
  show "wf_item k [1]" "wf_item k [3]" "wf_item k [4]" "wf_item k [5]" "wf_item k [6]" "wf_item k [9]" "wf_item k [10]"
      "wf_item k [0x26]" "wf_item k [0x27]" "wf_item k [0x19, 0x04, 0x00]"
    by (rule s; code_simp)+
  have "wf_item k [0xF5]" "wf_item k [0xF4]" by (rule s; code_simp)+
  then show "wf_item k (bool_item b)" by (simp add: bool_item_def)
  show "wf_item k ([0x50] @ NIXTROPIC_AAGUID)"
    by (rule wf_string [where mt = 2 and v = 16]) (code_simp+)
qed

lemma wf_container:
  assumes "list_all (wf_item k) xs" and "decode_head [h] = Some (mt, v, 1)"
    and "mt = 4 \<and> length xs = unat v \<or> mt = 5 \<and> length xs = 2 * unat v"
  shows "wf_item (Suc k) ([h] @ concat xs)"
proof -
  have "wf_items k (length xs) (concat xs)" using assms(1) by (rule wf_items_concat) simp
  then show ?thesis using assms(2,3) wf_array [of "[h]" v k "concat xs"] wf_map [of "[h]" v k "concat xs"] by auto
qed

lemma info_wf: "wf_item 4 (info_map uv pin)"
proof -
  have alg: "wf_item (Suc k) (alg_item a)" if "wf_item k [a]" for a k
    unfolding alg_item_def by (rule wf_container [where mt = 5 and v = 2]) (simp_all add: text_wf that, code_simp)
  have "decode_head [0x81] = Some (4, 1, 1)" by code_simp
  then have one: "wf_item (Suc k) ([0x81] @ x)" if "wf_item k x" for x k
    using wf_container [of k "[x]" "0x81" 4 1] that by simp
  have opts: "wf_item (Suc k) ([0xA9] @ concat (info_options uv pin))" for k
    by (rule wf_container [where mt = 5 and v = 9]) (simp_all add: info_options_def text_wf head_wf, code_simp)
  have algs: "wf_item (Suc (Suc k)) ([0x82] @ concat [alg_item 0x27, alg_item 0x26])" for k
    by (rule wf_container [where mt = 4 and v = 2]) (simp_all add: alg head_wf, code_simp)
  have "list_all (wf_item 3) (info_members uv pin)"
    using one [where k = 2] head_wf(12) [of 3] opts [where k = 2] algs [where k = 1] by (simp add: info_members_def text_wf head_wf numeral_3_eq_3 numeral_2_eq_2)
  then have "wf_item (Suc 3) (info_map uv pin)" unfolding info_map_def
    by (rule wf_container [where mt = 5 and v = 7]) (simp_all add: info_members_def, code_simp)
  then show ?thesis by simp
qed

lemma info_length: "length (info_map uv pin) = 181"
  by (simp add: info_map_def info_members_def info_options_def alg_item_def text_item_def bool_item_def ascii_def
      NIXTROPIC_AAGUID_def)

section \<open>Running on the small device\<close>

definition demo_pin_oracle :: pin_crypto where
  "demo_pin_oracle = \<lparr>ecdsa_get_public_key65 = \<lambda>_. Some (replicate 65 4), ecdh_multiply = \<lambda>_ _. None,
     aes_cbc_dec_iv0 = \<lambda>_ _. None, aes_cbc_enc_iv0 = \<lambda>_ _. None\<rparr>"

text \<open>The small device with a chip whose PIN slots answer.\<close>

definition md_chip :: "(nat \<times> bytes) list tropic" where
  "md_chip = mem_chip\<lparr>tropic_mac_and_destroy := \<lambda>_ _ c. (Inr (replicate 32 0), c)\<rparr>"

abbreviation demo_dispatch ::
  "bytes \<Rightarrow> (nat \<times> bytes) list auth \<Rightarrow> bytes option \<times> (nat \<times> bytes) list auth" where
  "demo_dispatch req \<equiv> fido_hid_cbor_dispatch md_chip flat_crypto demo_pin_oracle req 1000"

lemma demo_delete:
  "a_bitmap (snd (demo_dispatch (CTAP2_CMD_CREDENTIAL_MGMT # delete_request) cm_auth_dev)) = 2"
  "a_bitmap cm_auth_dev = 3"
  by code_simp+

lemma demo_reset: "fst (demo_dispatch [CTAP2_CMD_RESET] two_auth) = Some [0]"
  by code_simp

section \<open>Properties\<close>

text \<open>
  C1. Whatever request the host sends, the set of credentials changes only in three ways: by a
  MakeCredential whose wait for a touch ended with a confirmed press (and, with always-UV or
  for a discoverable credential on a device with a PIN, with a verified token), by an
  authenticatorReset within its window and with a confirmed press, or by a credential deletion
  with a verified token.
\<close>

theorem dispatch_credentials_change:
  assumes "fido_hid_cbor_dispatch T K P req resp_max s = (resp, s')" and "a_bitmap s' \<noteq> a_bitmap s"
  shows "\<exists>sub body. req = sub # body \<and> may_change T K sub body s"
  using assms(1)
proof (cases rule: dispatch_cases)
  case refused
  then show ?thesis using assms(2) by (auto simp: ends_views)
next
  case (run sub body)
  have "a_initted (end_sequences sub s)" if "sub \<noteq> CTAP2_CMD_GET_INFO" "sub \<noteq> CTAP2_CMD_RESET"
    using run(3) that by (simp add: credstore_ready_def cred_of_def ends_views)
  then show ?thesis using run_changes [OF run(2)] assms(2) run(1) by (auto simp: ends_views may_change_ends)
qed

theorem dispatch_credentials_change_witness:
  "may_change md_chip flat_crypto CTAP2_CMD_CREDENTIAL_MGMT delete_request cm_auth_dev"
proof -
  have "a_bitmap (snd (demo_dispatch (CTAP2_CMD_CREDENTIAL_MGMT # delete_request) cm_auth_dev)) \<noteq> a_bitmap cm_auth_dev"
    by (simp only: demo_delete) simp
  then show ?thesis using dispatch_credentials_change [OF prod.collapse [symmetric]] by blast
qed

text \<open>
  A device whose FIDO state is not validated serves nothing but GetInfo and
  authenticatorReset: for every other request the PIN module, the FIDO state and the chip stay
  as they are and the answer is at most a status byte.
\<close>

theorem dispatch_not_ready:
  assumes "fido_hid_cbor_dispatch T K P req resp_max s = (resp, s')" and "\<not> credstore_ready (cred_of s)"
    and "a_pin s' \<noteq> a_pin s \<or> (\<exists>r. resp = Some r \<and> length r > 1)"
  shows "\<exists>sub body. req = sub # body \<and> (sub = CTAP2_CMD_GET_INFO \<or> sub = CTAP2_CMD_RESET)"
  using assms by (rule not_ready_frame)

theorem dispatch_not_ready_witness:
  "\<exists>sub body. [CTAP2_CMD_RESET] = sub # body \<and> (sub = CTAP2_CMD_GET_INFO \<or> sub = CTAP2_CMD_RESET)"
proof (rule dispatch_not_ready [OF prod.collapse [symmetric]])
  let ?s = "two_auth\<lparr>a_initted := False\<rparr>"
  show "\<not> credstore_ready (cred_of ?s)" by (simp add: credstore_ready_def cred_of_def)
  have "a_bitmap (snd (demo_dispatch [CTAP2_CMD_RESET] ?s)) = 0" "a_bitmap ?s = 3" by code_simp+
  then show "a_pin (snd (demo_dispatch [CTAP2_CMD_RESET] ?s)) \<noteq> a_pin ?s \<or>
      (\<exists>r. fst (demo_dispatch [CTAP2_CMD_RESET] ?s) = Some r \<and> length r > 1)" by auto
qed

text \<open>
  C2. authenticatorReset answers OK only if the tick was within the window and the wait for a
  touch ended with a confirmed press, and then no credential is left, always-UV and the PIN
  guard are off, no token is in use and the count of wrong PINs and the lockout are cleared;
  if the wipe it began fails, the device is not validated any more, so that only GetInfo and
  another reset are served, and the token is dead all the same; otherwise nothing changed.
\<close>

theorem dispatch_reset_exact:
  assumes "fido_hid_cbor_dispatch T K P [CTAP2_CMD_RESET] resp_max s = (Some r, s')" and "resp_max \<ge> 1"
  shows "if reset_allowed s then t_in_use (a_puat s') = False \<and> s_consec_fails (a_pin s') = 0 \<and>
      \<not> s_auth_blocked (a_pin s') \<and>
      (r = [of_nat CTAP2_OK] \<and> slots_usable (a_slots s') \<and> a_bitmap s' = 0 \<and> s_force_uv (a_slots s') = 0 \<and>
         s_pin_bound (a_slots s') = 0 \<or>
       r = [of_nat CTAP2_ERR_OTHER] \<and> \<not> credstore_ready (cred_of s'))
    else a_pin s' = a_pin s \<and> a_initted s' = a_initted s \<and> r \<noteq> [of_nat CTAP2_OK]"
proof -
  let ?e = "end_sequences CTAP2_CMD_RESET s"
  have v: "reset_allowed ?e = reset_allowed s" by (simp add: reset_allowed_def ends_views)
  have run: "respond (reset_command T K P) ?e = (Some r, s')"
    using assms by (simp add: fido_hid_cbor_dispatch_def Let_def run_command_def ctap2_cmds)
  obtain x where x: "reset_command T K P ?e = (x, s')"
    using run by (auto simp: respond_def split: prod.splits res.splits)
  then show ?thesis
  proof (cases rule: reset_cases)
    case refused
    have "r \<noteq> [of_nat CTAP2_OK]"
      using run x refused(4) by (auto simp: respond_def status_def CTAP2_OK_def CTAP2_ERR_NOT_ALLOWED_def
          CTAP2_ERR_KEEPALIVE_CANCEL_def CTAP2_ERR_OPERATION_DENIED_def split: res.splits)
    then show ?thesis using refused v by (simp add: ends_views)
  next
    case (wiped rc k c)
    have r: "r = [of_nat (if rc = 0 then CTAP2_OK else CTAP2_ERR_OTHER)]" using run x wiped(5) by (simp add: respond_def)
    have st: "t_in_use (a_puat s') = False" "s_consec_fails (a_pin s') = 0" "\<not> s_auth_blocked (a_pin s')"
      "a_slots s' = cs_slots k" unfolding wiped(3) reset_ram_views by (simp_all add: puat_reset_def reset_ram_views)
    show ?thesis
    proof (cases "rc = 0")
      case True
      then show ?thesis using r st wiped(1) v fresh_wipe(1) [OF wiped(2)] by simp
    next
      case False
      then have "\<not> credstore_ready (cred_of s')"
        using fresh_wipe(2) [OF wiped(2)] wiped(4) by (simp add: credstore_ready_def cred_of_def)
      then show ?thesis using False r st wiped(1) v by simp
    qed
  qed
qed

theorem dispatch_reset_exact_witness: "reset_allowed two_auth"
proof (rule ccontr)
  assume n: "\<not> reset_allowed two_auth"
  obtain s' where "demo_dispatch [CTAP2_CMD_RESET] two_auth = (Some [0], s')" using demo_reset by (metis prod.collapse)
  from dispatch_reset_exact [OF this] show False using n by (simp add: CTAP2_OK_def)
qed

text \<open>
  GetInfo answers a status byte and the map of CTAP 6.4, one well-formed CBOR item, as soon
  as the buffer holds the 182 bytes, and CTAP2_ERR_OTHER otherwise; its options are exactly
  always-UV (a manager that is not usable reports it on), its negation makeCredUvNotRqd, and
  clientPin for a PIN that is set, beside the constant ones.
\<close>

theorem get_info_exact:
  assumes "fido_hid_cbor_dispatch T K P [CTAP2_CMD_GET_INFO] resp_max s = (resp, s')" and "resp_max \<ge> 1"
  shows "resp = Some (if resp_max \<ge> 182
      then of_nat CTAP2_OK # info_map (slots_force_uv_get (a_slots s) \<noteq> 0) (fst (pin_is_set T K (a_pin s)))
      else [of_nat CTAP2_ERR_OTHER]) \<and>
    cbor_validate (info_map (slots_force_uv_get (a_slots s) \<noteq> 0) (fst (pin_is_set T K (a_pin s))))"
proof -
  let ?uv = "slots_force_uv_get (a_slots s) \<noteq> 0" and ?pin = "fst (pin_is_set T K (a_pin s))"
  let ?w = "cbor_seq (info_writes ?uv ?pin) (cbor_writer_init (resp_max - 1))"
  have w: "if 182 \<le> resp_max then ?w = (cbor_writer_init (resp_max - 1))\<lparr>w_out := info_map ?uv ?pin\<rparr> else w_err ?w"
    using emits_seq [OF info_calls [of ?uv ?pin], of "cbor_writer_init (resp_max - 1)"] assms(2) info_length [of ?uv ?pin]
    by (auto simp: info_parts_map cbor_writer_init_def split: if_splits)
  have "respond (build_get_info T K (resp_max - 1)) (end_sequences CTAP2_CMD_GET_INFO s) = (resp, s')"
    using assms by (simp add: fido_hid_cbor_dispatch_def Let_def run_command_def ctap2_cmds)
  then have "resp = Some (if resp_max \<ge> 182 then of_nat CTAP2_OK # info_map ?uv ?pin else [of_nat CTAP2_ERR_OTHER])"
    using w by (auto simp: build_get_info_def op_bind_def op_get_def on_pin_def Let_def respond_def op_ret_def op_fail_def
        ends_views cbor_writer_error_def cbor_writer_init_def status_def split: if_splits prod.splits)
  moreover have "cbor_validate (info_map ?uv ?pin)"
    by (rule wf_validates) (simp add: CBOR_MAX_DEPTH_def info_wf)
  ultimately show ?thesis by blast
qed

theorem get_info_exact_witness:
  "\<exists>s'. demo_dispatch [CTAP2_CMD_GET_INFO] two_auth = (Some (0 # info_map False False), s')"
proof -
  obtain resp s' where d: "demo_dispatch [CTAP2_CMD_GET_INFO] two_auth = (resp, s')" by fastforce
  have "slots_force_uv_get (a_slots two_auth) = 0" "\<not> fst (pin_is_set md_chip flat_crypto (a_pin two_auth))"
    by code_simp+
  then show ?thesis using get_info_exact [OF d] d by (simp add: CTAP2_OK_def)
qed

end
