(* ===== verification/Ctaphid.thy ===== *)
theory Ctaphid
  imports User_Presence
begin

text \<open>
  CTAPHID framing, \<^verbatim>\<open>firmware/src/fido_hid/ctaphid.c\<close> and \<^verbatim>\<open>proto.h\<close>: reassembly of HID
  OUT reports into a request, its dispatch from the main loop, fragmentation of the
  answer into HID IN reports, KEEPALIVE, CANCEL and resync.  The USB stack is an oracle:
  the answers of the IN endpoint are a list consumed call by call, the reports it took
  are recorded, and the packets a pump delivers are an argument.  The debug counters
  (\<open>NIXTROPIC_DEBUG\<close>) are left out.
\<close>

section \<open>Protocol constants\<close>

definition FIDO_HID_REPORT_LEN :: nat where "FIDO_HID_REPORT_LEN = 64"
definition FIDO_HID_INIT_DATA_LEN :: nat where "FIDO_HID_INIT_DATA_LEN = 57"
definition FIDO_HID_CONT_DATA_LEN :: nat where "FIDO_HID_CONT_DATA_LEN = 59"
definition FIDO_HID_CID_BROADCAST :: u32 where "FIDO_HID_CID_BROADCAST = 0xFFFFFFFF"
definition FIDO_HID_CMD_INIT_FLAG :: u8 where "FIDO_HID_CMD_INIT_FLAG = 0x80"
definition FIDO_HID_CMD_PING :: u8 where "FIDO_HID_CMD_PING = 0x01"
definition FIDO_HID_CMD_MSG :: u8 where "FIDO_HID_CMD_MSG = 0x03"
definition FIDO_HID_CMD_INIT :: u8 where "FIDO_HID_CMD_INIT = 0x06"
definition FIDO_HID_CMD_CBOR :: u8 where "FIDO_HID_CMD_CBOR = 0x10"
definition FIDO_HID_CMD_CANCEL :: u8 where "FIDO_HID_CMD_CANCEL = 0x11"
definition FIDO_HID_CMD_KEEPALIVE :: u8 where "FIDO_HID_CMD_KEEPALIVE = 0x3B"
definition FIDO_HID_CMD_ERROR :: u8 where "FIDO_HID_CMD_ERROR = 0x3F"
definition FIDO_HID_CAPABILITIES :: u8 where "FIDO_HID_CAPABILITIES = 0x04 OR 0x08"
definition FIDO_HID_ERR_INVALID_CMD :: u8 where "FIDO_HID_ERR_INVALID_CMD = 0x01"
definition FIDO_HID_ERR_INVALID_LEN :: u8 where "FIDO_HID_ERR_INVALID_LEN = 0x03"
definition FIDO_HID_ERR_INVALID_SEQ :: u8 where "FIDO_HID_ERR_INVALID_SEQ = 0x04"
definition FIDO_HID_ERR_CHANNEL_BUSY :: u8 where "FIDO_HID_ERR_CHANNEL_BUSY = 0x06"
definition FIDO_HID_ERR_INVALID_CHANNEL :: u8 where "FIDO_HID_ERR_INVALID_CHANNEL = 0x0B"
definition FIDO_HID_ERR_OTHER :: u8 where "FIDO_HID_ERR_OTHER = 0x7F"
definition FIDO_HID_MAX_PAYLOAD :: nat where "FIDO_HID_MAX_PAYLOAD = 2048"
definition KA_INTERVAL_MS :: u32 where "KA_INTERVAL_MS = 50"
definition KA_PROCESSING :: u8 where "KA_PROCESSING = 1"
definition KA_UPNEEDED :: u8 where "KA_UPNEEDED = 2"

lemmas hid_lens = FIDO_HID_REPORT_LEN_def FIDO_HID_INIT_DATA_LEN_def FIDO_HID_CONT_DATA_LEN_def
  FIDO_HID_MAX_PAYLOAD_def
lemmas hid_cmds = FIDO_HID_CMD_INIT_FLAG_def FIDO_HID_CMD_PING_def FIDO_HID_CMD_MSG_def
  FIDO_HID_CMD_INIT_def FIDO_HID_CMD_CBOR_def FIDO_HID_CMD_CANCEL_def FIDO_HID_CMD_KEEPALIVE_def
  FIDO_HID_CMD_ERROR_def

section \<open>State\<close>

datatype fh_state = FH_STATE_IDLE | FH_STATE_ASSEMBLING

text \<open>
  The static variables of the file, then the touch wait, the coming answers of the IN
  endpoint and the reports it took.  The 16-bit counters are naturals: what is stored in
  them is at most \<open>FIDO_HID_MAX_PAYLOAD\<close> (\<open>hid_ok\<close> below), or reduced where the code casts.
\<close>

record hid =
  h_state :: fh_state
  h_cur_cid :: u32
  h_req_cmd :: u8
  h_req_total :: nat
  h_req_received :: nat
  h_next_seq :: u8
  h_req_buf :: bytes
  h_resp_cid :: u32
  h_resp_cmd :: u8
  h_resp_total :: nat
  h_resp_sent :: nat
  h_resp_seq :: u8
  h_resp_pending :: bool
  h_resp_buf :: bytes
  h_next_cid :: u32
  h_busy_cid :: u32
  h_running :: bool
  h_in_progress :: bool
  h_ka_status :: u8
  h_ka_last :: u32
  h_short_pkt :: bytes
  h_short_pending :: bool
  h_abandoned :: bool
  h_resync_pkt :: bytes
  h_resync_pending :: bool
  h_up :: up
  h_usb :: "bool list"
  h_sent :: "bytes list"

text \<open>\<open>memcpy(&buf[off], bs, length bs)\<close>.\<close>

definition mem_write :: "nat \<Rightarrow> bytes \<Rightarrow> bytes \<Rightarrow> bytes" where
  "mem_write off bs buf = take off buf @ bs @ drop (off + length bs) buf"

definition reset_assembly :: "hid \<Rightarrow> hid" where
  "reset_assembly s = s\<lparr>h_state := FH_STATE_IDLE, h_cur_cid := 0, h_req_cmd := 0, h_req_total := 0,
     h_req_received := 0, h_next_seq := 0, h_req_buf := replicate FIDO_HID_MAX_PAYLOAD 0\<rparr>"

section \<open>Sending\<close>

definition build_packet :: "u32 \<Rightarrow> u8 \<Rightarrow> bytes \<Rightarrow> bytes" where
  "build_packet cid cmd payload =
     mem_write 7 payload (be32_store cid @ [cmd] @ be16_store (length payload)
       @ replicate (FIDO_HID_REPORT_LEN - 7) 0)"

definition usb_ask :: "hid \<Rightarrow> bool \<times> hid" where
  "usb_ask s = (case h_usb s of [] \<Rightarrow> (False, s) | b # bs \<Rightarrow> (b, s\<lparr>h_usb := bs\<rparr>))"

definition usb_report :: "bytes \<Rightarrow> hid \<Rightarrow> bool \<times> hid" where
  "usb_report pkt s =
     (case usb_ask s of (ok, s1) \<Rightarrow> (ok, if ok then s1\<lparr>h_sent := h_sent s1 @ [pkt]\<rparr> else s1))"

definition push_packet :: "bytes \<Rightarrow> hid \<Rightarrow> bool \<times> hid" where
  "push_packet pkt s =
     (case usb_ask s of (ready, s1) \<Rightarrow> if \<not> ready then (False, s1) else usb_report pkt s1)"

definition flush_short :: "hid \<Rightarrow> hid" where
  "flush_short s =
     (if h_short_pending s then
        (case push_packet (h_short_pkt s) s of (ok, s1) \<Rightarrow> if ok then s1\<lparr>h_short_pending := False\<rparr> else s1)
      else s)"

definition flush_resync :: "hid \<Rightarrow> hid" where
  "flush_resync s =
     (if \<not> h_short_pending s \<and> h_resync_pending s \<and> \<not> h_abandoned s then
        (case push_packet (h_resync_pkt s) s of (ok, s1) \<Rightarrow> if ok then s1\<lparr>h_resync_pending := False\<rparr> else s1)
      else s)"

definition flush_pending :: "hid \<Rightarrow> bool \<times> hid" where
  "flush_pending s = (let s1 = flush_resync (flush_short s) in (\<not> h_short_pending s1, s1))"

definition send_now :: "u32 \<Rightarrow> u8 \<Rightarrow> bytes \<Rightarrow> hid \<Rightarrow> hid" where
  "send_now cid cmd payload s =
     (if length payload > FIDO_HID_INIT_DATA_LEN then s
      else
        let pkt = build_packet cid cmd payload
        in case flush_pending s of
             (idle, s1) \<Rightarrow>
               (case (if idle then push_packet pkt s1 else (False, s1)) of
                  (True, s2) \<Rightarrow> s2
                | (False, s2) \<Rightarrow>
                    if \<not> h_short_pending s2 then s2\<lparr>h_short_pkt := pkt, h_short_pending := True\<rparr> else s2))"

definition queue_response :: "u32 \<Rightarrow> u8 \<Rightarrow> bytes \<Rightarrow> hid \<Rightarrow> hid" where
  "queue_response cid cmd payload s =
     (let p = take FIDO_HID_MAX_PAYLOAD payload
      in s\<lparr>h_resp_buf := mem_write 0 p (h_resp_buf s), h_resp_cid := cid, h_resp_cmd := cmd,
           h_resp_total := length p mod 65536, h_resp_sent := 0, h_resp_seq := 0,
           h_resp_pending := True\<rparr>)"

definition reply_short :: "u32 \<Rightarrow> u8 \<Rightarrow> bytes \<Rightarrow> hid \<Rightarrow> hid" where
  "reply_short cid cmd payload s =
     (if h_abandoned s \<and> cid = h_busy_cid s then s
      else if h_busy_cid s \<noteq> 0 \<or> h_resp_pending s then send_now cid cmd payload s
      else queue_response cid cmd payload s)"

definition queue_error :: "u32 \<Rightarrow> u8 \<Rightarrow> hid \<Rightarrow> hid" where
  "queue_error cid err s = reply_short cid (FIDO_HID_CMD_INIT_FLAG OR FIDO_HID_CMD_ERROR) [err] s"

definition emit_response_packet :: "hid \<Rightarrow> bool \<times> hid" where
  "emit_response_packet s =
     (if \<not> h_resp_pending s then (False, s)
      else case usb_ask s of
        (ready, s0) \<Rightarrow>
          if \<not> ready then (False, s0)
          else
            let is_first = (h_resp_sent s0 = 0);
                hdr = be32_store (h_resp_cid s0) @
                  (if is_first then h_resp_cmd s0 # be16_store (h_resp_total s0)
                   else [h_resp_seq s0 AND 0x7F]);
                cap = (if is_first then FIDO_HID_INIT_DATA_LEN else FIDO_HID_CONT_DATA_LEN);
                s1 = (if is_first then s0 else s0\<lparr>h_resp_seq := h_resp_seq s0 + 1\<rparr>);
                chunk = min (h_resp_total s1 - h_resp_sent s1) cap;
                pkt = mem_write (length hdr) (take chunk (drop (h_resp_sent s1) (h_resp_buf s1)))
                  (hdr @ replicate (FIDO_HID_REPORT_LEN - length hdr) 0);
                s2 = s1\<lparr>h_resp_sent := h_resp_sent s1 + chunk\<rparr>
            in case usb_report pkt s2 of
                 (ok, s3) \<Rightarrow>
                   if \<not> ok then
                     (False, s3\<lparr>h_resp_sent := h_resp_sent s3 - chunk,
                        h_resp_seq := (if is_first then h_resp_seq s3 else h_resp_seq s3 - 1)\<rparr>)
                   else (True, if h_resp_sent s3 \<ge> h_resp_total s3 then s3\<lparr>h_resp_pending := False\<rparr> else s3))"

section \<open>Channels and commands\<close>

definition alloc_channel :: "hid \<Rightarrow> u32 \<times> hid" where
  "alloc_channel s =
     (let cid = h_next_cid s;
          n1 = cid + 1;
          n2 = (if n1 = 0 then 1 else n1);
          n3 = (if n2 = FIDO_HID_CID_BROADCAST then 1 else n2)
      in (cid, s\<lparr>h_next_cid := n3\<rparr>))"

definition read_be32 :: "bytes \<Rightarrow> u32" where
  "read_be32 p = be32_load (p ! 0) (p ! 1) (p ! 2) (p ! 3)"

abbreviation init_answer :: u8 where
  "init_answer \<equiv> FIDO_HID_CMD_INIT_FLAG OR FIDO_HID_CMD_INIT"

definition init_response :: "bytes \<Rightarrow> u32 \<Rightarrow> bytes" where
  "init_response payload out_cid =
     take 8 payload @ be32_store out_cid @ [2, 0, 4, 0, FIDO_HID_CAPABILITIES]"

text \<open>The parts of \<open>handle_init\<close>, in the order of its body.\<close>

definition init_channel :: "u32 \<Rightarrow> hid \<Rightarrow> u32 \<times> hid" where
  "init_channel req_cid s =
     (if req_cid = FIDO_HID_CID_BROADCAST then alloc_channel s
      else (req_cid,
            if h_state s = FH_STATE_ASSEMBLING \<and> h_cur_cid s = req_cid then reset_assembly s else s))"

definition supersede_resync :: "u32 \<Rightarrow> hid \<Rightarrow> hid" where
  "supersede_resync req_cid s =
     (if req_cid \<noteq> FIDO_HID_CID_BROADCAST \<and> h_resync_pending s \<and> read_be32 (h_resync_pkt s) = req_cid
      then s\<lparr>h_resync_pending := False\<rparr> else s)"

definition supersede_short :: "u32 \<Rightarrow> hid \<Rightarrow> hid" where
  "supersede_short req_cid s =
     (if req_cid \<noteq> FIDO_HID_CID_BROADCAST \<and> h_short_pending s \<and> read_be32 (h_short_pkt s) = req_cid \<and>
         h_short_pkt s ! 4 = init_answer
      then s\<lparr>h_short_pending := False\<rparr> else s)"

definition abandon_request :: "u32 \<Rightarrow> bytes \<Rightarrow> hid \<Rightarrow> hid" where
  "abandon_request req_cid resp s =
     s\<lparr>h_abandoned := True,
       h_up := (if h_running s then user_presence_cancel (h_up s) else h_up s),
       h_resync_pkt := build_packet req_cid init_answer resp,
       h_resync_pending := True\<rparr>"

definition drop_answer :: "u32 \<Rightarrow> hid \<Rightarrow> hid" where
  "drop_answer req_cid s =
     (if req_cid \<noteq> FIDO_HID_CID_BROADCAST \<and> h_resp_pending s \<and> h_resp_cid s = req_cid
      then s\<lparr>h_resp_pending := False\<rparr> else s)"

definition handle_init :: "u32 \<Rightarrow> bytes \<Rightarrow> hid \<Rightarrow> hid" where
  "handle_init req_cid payload s =
     (if length payload \<noteq> 8 then queue_error req_cid FIDO_HID_ERR_INVALID_LEN s
      else
        case init_channel req_cid s of
          (out_cid, s1) \<Rightarrow>
            let resp = init_response payload out_cid;
                s2 = supersede_short req_cid (supersede_resync req_cid s1)
            in if req_cid \<noteq> FIDO_HID_CID_BROADCAST \<and> req_cid = h_busy_cid s2 then
                 abandon_request req_cid resp s2
               else reply_short req_cid init_answer resp (drop_answer req_cid s2))"

definition handle_ping :: "u32 \<Rightarrow> bytes \<Rightarrow> hid \<Rightarrow> hid" where
  "handle_ping cid payload s = queue_response cid (FIDO_HID_CMD_INIT_FLAG OR FIDO_HID_CMD_PING) payload s"

definition handle_msg :: "u32 \<Rightarrow> hid \<Rightarrow> hid" where
  "handle_msg cid s = queue_response cid (FIDO_HID_CMD_INIT_FLAG OR FIDO_HID_CMD_MSG) [0x6E, 0x00] s"

definition complete_request :: "u32 \<Rightarrow> hid \<Rightarrow> hid" where
  "complete_request cid s =
     (let s1 = s\<lparr>h_state := FH_STATE_IDLE, h_cur_cid := 0\<rparr>
      in if h_busy_cid s1 \<noteq> 0 then queue_error cid FIDO_HID_ERR_CHANNEL_BUSY s1
         else if user_presence_is_awaiting (h_up s1) then
           reset_assembly (queue_error cid FIDO_HID_ERR_CHANNEL_BUSY s1)
         else s1\<lparr>h_busy_cid := cid\<rparr>)"

section \<open>Packets\<close>

definition handle_init_packet :: "u32 \<Rightarrow> bytes \<Rightarrow> hid \<Rightarrow> hid" where
  "handle_init_packet cid pkt s =
     (let bcnt = be16_load (pkt ! 5) (pkt ! 6);
          cmd = pkt ! 4 AND 0x7F
      in if cid = FIDO_HID_CID_BROADCAST \<and> cmd \<noteq> FIDO_HID_CMD_INIT then
           queue_error cid FIDO_HID_ERR_INVALID_CHANNEL s
         else if cmd = FIDO_HID_CMD_INIT then
           if bcnt > FIDO_HID_INIT_DATA_LEN then queue_error cid FIDO_HID_ERR_INVALID_LEN s
           else
             handle_init cid (take bcnt (drop 7 pkt))
               (if h_state s = FH_STATE_ASSEMBLING \<and> cid = h_cur_cid s then reset_assembly s else s)
         else if cmd = FIDO_HID_CMD_CANCEL then
           let s1 = (if cid = h_busy_cid s \<and> h_running s then s\<lparr>h_up := user_presence_cancel (h_up s)\<rparr> else s)
           in if h_state s1 = FH_STATE_ASSEMBLING \<and> cid = h_cur_cid s1 then reset_assembly s1 else s1
         else if user_presence_is_awaiting (h_up s) \<or> h_busy_cid s \<noteq> 0 then
           queue_error cid FIDO_HID_ERR_CHANNEL_BUSY s
         else if h_state s = FH_STATE_ASSEMBLING \<and> cid \<noteq> h_cur_cid s then
           queue_error cid FIDO_HID_ERR_CHANNEL_BUSY s
         else if bcnt > FIDO_HID_MAX_PAYLOAD then
           queue_error cid FIDO_HID_ERR_INVALID_LEN (reset_assembly s)
         else
           let avail = min bcnt FIDO_HID_INIT_DATA_LEN;
               s1 = s\<lparr>h_cur_cid := cid, h_req_cmd := cmd, h_req_total := bcnt, h_next_seq := 0,
                      h_req_received := avail,
                      h_req_buf := mem_write 0 (take avail (drop 7 pkt)) (replicate FIDO_HID_MAX_PAYLOAD 0)\<rparr>
           in if h_req_received s1 \<ge> h_req_total s1 then complete_request cid s1
              else s1\<lparr>h_state := FH_STATE_ASSEMBLING\<rparr>)"

definition handle_cont_packet :: "u32 \<Rightarrow> bytes \<Rightarrow> hid \<Rightarrow> hid" where
  "handle_cont_packet cid pkt s =
     (if h_state s \<noteq> FH_STATE_ASSEMBLING \<or> cid \<noteq> h_cur_cid s then s
      else
        let seq = pkt ! 4 AND 0x7F
        in if seq \<noteq> h_next_seq s then queue_error cid FIDO_HID_ERR_INVALID_SEQ (reset_assembly s)
           else
             let chunk = min (h_req_total s - h_req_received s) FIDO_HID_CONT_DATA_LEN;
                 s1 = s\<lparr>h_next_seq := h_next_seq s + 1,
                        h_req_buf := mem_write (h_req_received s) (take chunk (drop 5 pkt)) (h_req_buf s),
                        h_req_received := h_req_received s + chunk\<rparr>
             in if h_req_received s1 \<ge> h_req_total s1 then complete_request cid s1 else s1)"

definition fido_hid_handle_packet :: "bytes \<Rightarrow> hid \<Rightarrow> hid" where
  "fido_hid_handle_packet pkt s =
     (if length pkt < FIDO_HID_REPORT_LEN then s
      else
        let cid = read_be32 pkt
        in if cid = 0 then queue_error cid FIDO_HID_ERR_INVALID_CHANNEL s
           else if pkt ! 4 AND FIDO_HID_CMD_INIT_FLAG \<noteq> 0 then handle_init_packet cid pkt s
           else handle_cont_packet cid pkt s)"

text \<open>\<open>tud_task\<close> calls \<open>fido_hid_handle_packet\<close> for every report that has come in.\<close>

definition tud_task :: "bytes list \<Rightarrow> hid \<Rightarrow> hid" where
  "tud_task pkts s = fold fido_hid_handle_packet pkts s"

section \<open>The main loop\<close>

definition fido_hid_progress :: "bytes list \<Rightarrow> u32 \<Rightarrow> hid \<Rightarrow> hid" where
  "fido_hid_progress pkts now s =
     (if \<not> h_running s \<or> h_in_progress s then s
      else
        case flush_pending (tud_task pkts (s\<lparr>h_in_progress := True\<rparr>)) of
          (idle, s1) \<Rightarrow>
            let s2 =
              (if idle \<and> \<not> h_abandoned s1 then
                 let status = (if user_presence_is_awaiting (h_up s1) then KA_UPNEEDED else KA_PROCESSING)
                 in if status \<noteq> h_ka_status s1 \<or> now - h_ka_last s1 \<ge> KA_INTERVAL_MS then
                      case push_packet (build_packet (h_busy_cid s1)
                          (FIDO_HID_CMD_INIT_FLAG OR FIDO_HID_CMD_KEEPALIVE) [status]) s1 of
                        (ok, s2) \<Rightarrow> if ok then s2\<lparr>h_ka_status := status, h_ka_last := now\<rparr> else s2
                    else s1
               else s1)
            in s2\<lparr>h_in_progress := False\<rparr>)"

text \<open>
  What happens while a CBOR handler runs: its progress points, the pump of the touch wait,
  samples, and \<open>user_presence_check\<close> setting and clearing \<open>s_awaiting\<close>.  \<open>run_result\<close> and \<open>run_out\<close> are what
  the handler returns and writes.
\<close>

datatype run_event = Progress "bytes list" u32 | Pump "bytes list" | SysTick bool | Awaiting bool

record handler_run =
  run_events :: "run_event list"
  run_result :: int
  run_out :: bytes

fun run_step :: "run_event \<Rightarrow> hid \<Rightarrow> hid" where
  "run_step (Progress pkts now) s = fido_hid_progress pkts now s"
| "run_step (Pump pkts) s = tud_task pkts s"
| "run_step (SysTick raw) s = s\<lparr>h_up := user_presence_systick_tick raw (h_up s)\<rparr>"
| "run_step (Awaiting b) s = s\<lparr>h_up := (h_up s)\<lparr>s_awaiting := b\<rparr>\<rparr>"

definition handle_cbor :: "handler_run \<Rightarrow> u32 \<Rightarrow> hid \<Rightarrow> hid" where
  "handle_cbor run cid s =
     (let s1 = fold run_step (run_events run) s;
          s2 = s1\<lparr>h_resp_buf := mem_write 0 (run_out run) (h_resp_buf s1)\<rparr>
      in if run_result run < 0 then queue_error cid FIDO_HID_ERR_OTHER s2
         else s2\<lparr>h_resp_cid := cid, h_resp_cmd := FIDO_HID_CMD_INIT_FLAG OR FIDO_HID_CMD_CBOR,
                h_resp_total := nat (run_result run mod 65536), h_resp_sent := 0, h_resp_seq := 0,
                h_resp_pending := True\<rparr>)"

definition dispatch_request :: "handler_run \<Rightarrow> u32 \<Rightarrow> hid \<Rightarrow> hid" where
  "dispatch_request run cid s =
     (let cmd = h_req_cmd s; data = take (h_req_received s) (h_req_buf s)
      in if cmd = FIDO_HID_CMD_INIT then handle_init cid data s
         else if cmd = FIDO_HID_CMD_PING then handle_ping cid data s
         else if cmd = FIDO_HID_CMD_MSG then handle_msg cid s
         else if cmd = FIDO_HID_CMD_CBOR then handle_cbor run cid s
         else queue_error cid FIDO_HID_ERR_INVALID_CMD s)"

text \<open>A complete request from \<open>s_busy_cid\<close> set to \<open>s_busy_cid\<close> cleared.\<close>

definition request_begin :: "u32 \<Rightarrow> hid \<Rightarrow> hid" where
  "request_begin now s =
     s\<lparr>h_ka_status := 0, h_ka_last := now, h_up := user_presence_clear_cancel (h_up s), h_running := True\<rparr>"

definition request_end :: "hid \<Rightarrow> hid" where
  "request_end s =
     (let s1 = s\<lparr>h_running := False\<rparr>;
          s2 = (if h_abandoned s1 then s1\<lparr>h_resp_pending := False\<rparr> else s1);
          s3 = reset_assembly (s2\<lparr>h_up := user_presence_clear_cancel (h_up s2)\<rparr>)
      in s3\<lparr>h_busy_cid := 0, h_abandoned := False\<rparr>)"

definition run_request :: "handler_run \<Rightarrow> u32 \<Rightarrow> hid \<Rightarrow> hid" where
  "run_request run now s =
     (let cid = h_busy_cid s; s1 = request_begin now s
      in request_end (if \<not> h_abandoned s1 then dispatch_request run cid s1 else s1))"

lemma emit_progress:
  assumes "emit_response_packet s = (True, s')"
  shows "(if h_resp_pending s' then Suc (h_resp_total s' - h_resp_sent s') else 0)
    < (if h_resp_pending s then Suc (h_resp_total s - h_resp_sent s) else 0)"
  using assms
  by (auto simp: emit_response_packet_def usb_ask_def usb_report_def Let_def hid_lens min_def
      split: if_splits list.splits prod.splits)

function drain_responses :: "hid \<Rightarrow> hid" where
  "drain_responses s =
     (case emit_response_packet s of (again, s1) \<Rightarrow> if again then drain_responses s1 else s1)"
  by pat_completeness auto
termination
  by (relation "measure (\<lambda>s. if h_resp_pending s then Suc (h_resp_total s - h_resp_sent s) else 0)")
     (simp_all add: emit_progress)

declare drain_responses.simps [simp del]

definition fido_hid_task :: "handler_run \<Rightarrow> u32 \<Rightarrow> hid \<Rightarrow> hid" where
  "fido_hid_task run now s =
     (let s1 = (if h_busy_cid s \<noteq> 0 \<and> \<not> h_resp_pending s then run_request run now s else s)
      in case flush_pending s1 of
           (idle, s2) \<Rightarrow> if idle \<and> \<not> h_resync_pending s2 then drain_responses s2 else s2)"

definition fido_hid_is_running :: "hid \<Rightarrow> bool" where
  "fido_hid_is_running s = h_running s"

definition fido_hid_init :: "hid \<Rightarrow> hid" where
  "fido_hid_init s =
     (reset_assembly s)\<lparr>h_resp_pending := False, h_resp_total := 0, h_resp_sent := 0, h_resp_cid := 0,
        h_resp_cmd := 0, h_resp_seq := 0, h_short_pending := False, h_resync_pending := False,
        h_abandoned := False, h_busy_cid := 0, h_next_cid := 1\<rparr>"

text \<open>The zero-initialised statics at reset.\<close>

definition hid_zero :: hid where
  "hid_zero = \<lparr>h_state = FH_STATE_IDLE, h_cur_cid = 0, h_req_cmd = 0, h_req_total = 0, h_req_received = 0,
     h_next_seq = 0, h_req_buf = replicate 2048 0, h_resp_cid = 0, h_resp_cmd = 0, h_resp_total = 0,
     h_resp_sent = 0, h_resp_seq = 0, h_resp_pending = False, h_resp_buf = replicate 2048 0, h_next_cid = 0,
     h_busy_cid = 0, h_running = False, h_in_progress = False, h_ka_status = 0, h_ka_last = 0,
     h_short_pkt = replicate 64 0, h_short_pending = False, h_abandoned = False,
     h_resync_pkt = replicate 64 0, h_resync_pending = False, h_up = up_start, h_usb = [], h_sent = []\<rparr>"

definition hid_start :: hid where
  "hid_start = fido_hid_init hid_zero"

end
