(* ===== verification/Ctaphid_Frames.thy ===== *)
theory Ctaphid_Frames
  imports Ctaphid
begin

text \<open>
  What \<^verbatim>\<open>ctaphid.c\<close> puts on the wire and takes from it: messages as the packets the
  CTAPHID specification cuts them into, answers sent packet by packet under any
  backpressure, requests reassembled among the packets of other channels, the isolation
  of the request that runs, and the bounds of every buffer.
\<close>

section \<open>Frames\<close>

text \<open>The packets a message of the specification is sent as.\<close>

definition pad :: "nat \<Rightarrow> bytes \<Rightarrow> bytes" where
  "pad n bs = bs @ replicate (n - length bs) 0"

fun conts :: "u32 \<Rightarrow> u8 \<Rightarrow> bytes \<Rightarrow> bytes list" where
  "conts cid seq d =
     (if d = [] then []
      else (be32_store cid @ [seq AND 0x7F] @ pad 59 (take 59 d)) # conts cid (seq + 1) (drop 59 d))"

declare conts.simps [simp del]

definition frames :: "u32 \<Rightarrow> u8 \<Rightarrow> bytes \<Rightarrow> bytes list" where
  "frames cid cmd d =
     (be32_store cid @ [cmd] @ be16_store (length d) @ pad 57 (take 57 d)) # conts cid 0 (drop 57 d)"

lemma conts_Nil [simp]: "conts cid seq [] = []"
  by (simp add: conts.simps)

lemma mem_write_pad: "length bs \<le> n \<Longrightarrow> mem_write (length h) bs (h @ replicate n 0) = h @ pad n bs"
  by (simp add: mem_write_def pad_def)

lemma length_mem_write [simp]: "off + length bs \<le> length buf \<Longrightarrow> length (mem_write off bs buf) = length buf"
  by (simp add: mem_write_def)

lemma take_mem_write: "off + length bs \<le> length buf \<Longrightarrow>
    take (off + length bs) (mem_write off bs buf) = take off buf @ bs"
  by (simp add: mem_write_def)

lemma build_packet_eq: "length p \<le> 57 \<Longrightarrow> build_packet cid cmd p = be32_store cid @ [cmd] @ be16_store (length p) @ pad 57 p"
  using mem_write_pad [of p 57 "be32_store cid @ [cmd] @ be16_store (length p)"]
  by (simp add: build_packet_def hid_lens)

section \<open>Sending an answer\<close>

text \<open>The packets still to come, and when the sender's variables are in order.\<close>

definition resp_rest :: "hid \<Rightarrow> bytes list" where
  "resp_rest s =
     (let d = take (h_resp_total s) (h_resp_buf s)
      in if \<not> h_resp_pending s then []
         else if h_resp_sent s = 0 then frames (h_resp_cid s) (h_resp_cmd s) d
         else conts (h_resp_cid s) (h_resp_seq s) (drop (h_resp_sent s) d))"

definition resp_ok :: "hid \<Rightarrow> bool" where
  "resp_ok s \<longleftrightarrow> length (h_resp_buf s) = FIDO_HID_MAX_PAYLOAD \<and>
     (h_resp_pending s \<longrightarrow> h_resp_total s \<le> FIDO_HID_MAX_PAYLOAD \<and>
        (h_resp_sent s = 0 \<longrightarrow> h_resp_seq s = 0) \<and> (0 < h_resp_sent s \<longrightarrow> h_resp_sent s < h_resp_total s))"

definition answer :: "bool list \<Rightarrow> bool" where
  "answer us \<longleftrightarrow> us \<noteq> [] \<and> hd us"

lemma usb_ask_eq: "usb_ask s = (answer (h_usb s), s\<lparr>h_usb := tl (h_usb s)\<rparr>)"
  by (cases "h_usb s") (simp_all add: usb_ask_def answer_def)

definition emit_chunk :: "hid \<Rightarrow> nat" where
  "emit_chunk s = min (h_resp_total s - h_resp_sent s) (if h_resp_sent s = 0 then 57 else 59)"

definition emitted :: "hid \<Rightarrow> hid" where
  "emitted s = s\<lparr>h_resp_sent := h_resp_sent s + emit_chunk s,
     h_resp_seq := (if h_resp_sent s = 0 then h_resp_seq s else h_resp_seq s + 1),
     h_resp_pending := (h_resp_sent s + emit_chunk s < h_resp_total s)\<rparr>"

definition emit_pkt :: "hid \<Rightarrow> bytes" where
  "emit_pkt s =
     (let d = take (emit_chunk s) (drop (h_resp_sent s) (h_resp_buf s))
      in be32_store (h_resp_cid s) @
         (if h_resp_sent s = 0 then h_resp_cmd s # be16_store (h_resp_total s) @ pad 57 d
          else (h_resp_seq s AND 0x7F) # pad 59 d))"

text \<open>An attempt either leaves all but the endpoint's answers as it was, or sends one packet.\<close>

lemma emit_cases:
  assumes "emit_response_packet s = (b, s')"
  obtains us where "\<not> b" "s' = s\<lparr>h_usb := us\<rparr>"
  | us where "b" "h_resp_pending s" "s' = (emitted s)\<lparr>h_usb := us, h_sent := h_sent s @ [emit_pkt s]\<rparr>"
proof -
  let ?d = "take (emit_chunk s) (drop (h_resp_sent s) (h_resp_buf s))"
  have p1: "mem_write 7 ?d (be32_store (h_resp_cid s) @ h_resp_cmd s # be16_store (h_resp_total s) @ replicate 57 0)
      = be32_store (h_resp_cid s) @ h_resp_cmd s # be16_store (h_resp_total s) @ pad 57 ?d"
    if "h_resp_sent s = 0"
    using mem_write_pad [of ?d 57 "be32_store (h_resp_cid s) @ h_resp_cmd s # be16_store (h_resp_total s)"] that
    by (simp add: emit_chunk_def)
  have p2: "mem_write 5 ?d (be32_store (h_resp_cid s) @ (h_resp_seq s AND 0x7F) # replicate 59 0)
      = be32_store (h_resp_cid s) @ (h_resp_seq s AND 0x7F) # pad 59 ?d"
    if "h_resp_sent s \<noteq> 0"
    using mem_write_pad [of ?d 59 "be32_store (h_resp_cid s) @ [h_resp_seq s AND 0x7F]"] that
    by (simp add: emit_chunk_def)
  let ?us = "tl (h_usb s)"
  have e: "emit_response_packet s = (if answer ?us
      then (True, (emitted s)\<lparr>h_usb := tl ?us, h_sent := h_sent s @ [emit_pkt s]\<rparr>) else (False, s\<lparr>h_usb := tl ?us\<rparr>))"
    if "h_resp_pending s" "answer (h_usb s)"
  proof (cases "h_resp_sent s = 0")
    case True
    then have "min (h_resp_total s) 57 = emit_chunk s" by (simp add: emit_chunk_def)
    then show ?thesis using that p1 True
      by (simp add: emit_response_packet_def usb_ask_eq usb_report_def Let_def hid_lens
          emitted_def emit_pkt_def)
  next
    case False
    then have "min (h_resp_total s - h_resp_sent s) 59 = emit_chunk s" by (simp add: emit_chunk_def)
    then show ?thesis using that p2 False
      by (simp add: emit_response_packet_def usb_ask_eq usb_report_def Let_def hid_lens
          emitted_def emit_pkt_def)
  qed
  have "emit_response_packet s = (False, s\<lparr>h_usb := tl (h_usb s)\<rparr>)" if "h_resp_pending s" "\<not> answer (h_usb s)"
    using that by (simp add: emit_response_packet_def usb_ask_eq)
  moreover have "emit_response_packet s = (False, s\<lparr>h_usb := h_usb s\<rparr>)" if "\<not> h_resp_pending s"
    using that by (simp add: emit_response_packet_def)
  ultimately show ?thesis using e assms that by (metis prod.inject)
qed

lemma conts_unfold: "d \<noteq> [] \<Longrightarrow>
    conts cid seq d = (be32_store cid @ [seq AND 0x7F] @ pad 59 (take 59 d)) # conts cid (seq + 1) (drop 59 d)"
  by (simp add: conts.simps)

lemma emitted_rest:
  assumes "resp_ok s" and "h_resp_pending s"
  shows "resp_rest s = emit_pkt s # resp_rest (emitted s)" "resp_ok (emitted s)"
proof -
  let ?d = "take (h_resp_total s) (h_resp_buf s)"
  have t: "h_resp_total s \<le> 2048" "length (h_resp_buf s) = 2048" "h_resp_sent s = 0 \<longrightarrow> h_resp_seq s = 0"
    "0 < h_resp_sent s \<longrightarrow> h_resp_sent s < h_resp_total s" using assms by (auto simp: resp_ok_def hid_lens)
  then have ld: "length ?d = h_resp_total s" by simp
  have "resp_rest s = emit_pkt s # resp_rest (emitted s) \<and> resp_ok (emitted s)"
  proof (cases "h_resp_sent s = 0")
    case True
    then have c: "emit_chunk s = min (h_resp_total s) 57" by (simp add: emit_chunk_def)
    show ?thesis using True t ld assms(2)
      by (auto simp: resp_rest_def emitted_def emit_pkt_def c frames_def Let_def resp_ok_def hid_lens min_def)
  next
    case False
    then have c: "emit_chunk s = min (h_resp_total s - h_resp_sent s) 59" by (simp add: emit_chunk_def)
    have "drop (h_resp_sent s) ?d \<noteq> []" using t ld False by simp
    from conts_unfold [OF this] show ?thesis using False t ld assms(2)
      by (auto simp: resp_rest_def emitted_def emit_pkt_def c Let_def resp_ok_def hid_lens min_def drop_take add.commute)
  qed
  then show "resp_rest s = emit_pkt s # resp_rest (emitted s)" "resp_ok (emitted s)" by simp_all
qed

lemma rest_upd [simp]: "resp_rest (s\<lparr>h_usb := a\<rparr>) = resp_rest s" "resp_rest (s\<lparr>h_sent := b\<rparr>) = resp_rest s"
  "resp_ok (s\<lparr>h_usb := a\<rparr>) = resp_ok s" "resp_ok (s\<lparr>h_sent := b\<rparr>) = resp_ok s"
  by (simp_all add: resp_rest_def resp_ok_def Let_def)

lemma emit_rest:
  assumes "resp_ok s" and "emit_response_packet s = (b, s')"
  shows "resp_ok s'" "h_sent s' @ resp_rest s' = h_sent s @ resp_rest s"
    "b \<Longrightarrow> h_resp_pending s"
  using assms emitted_rest [OF assms(1)] by (auto elim!: emit_cases)

lemma drain_rest:
  assumes "resp_ok s"
  shows "resp_ok (drain_responses s) \<and> h_sent (drain_responses s) @ resp_rest (drain_responses s) = h_sent s @ resp_rest s"
  using assms
proof (induction s rule: drain_responses.induct)
  case (1 s)
  obtain b s1 where e: "emit_response_packet s = (b, s1)" by fastforce
  show ?case using 1(1) [OF e [symmetric]] emit_rest [OF 1(2) e] e by (simp add: drain_responses.simps [of s])
qed

lemma resp_rest_Nil_iff: "resp_ok s \<Longrightarrow> resp_rest s = [] \<longleftrightarrow> \<not> h_resp_pending s"
  by (auto simp: resp_rest_def resp_ok_def Let_def frames_def conts.simps hid_lens)

definition attempts :: "bool list list \<Rightarrow> hid \<Rightarrow> hid" where
  "attempts uss s = fold (\<lambda>us s. drain_responses (s\<lparr>h_usb := us\<rparr>)) uss s"

lemma attempts_rest:
  "resp_ok s \<Longrightarrow> resp_ok (attempts uss s) \<and>
     h_sent (attempts uss s) @ resp_rest (attempts uss s) = h_sent s @ resp_rest s"
proof (induction uss arbitrary: s)
  case (Cons us uss)
  have "resp_ok (s\<lparr>h_usb := us\<rparr>)" using Cons.prems by simp
  from drain_rest [OF this] Cons.IH [of "drain_responses (s\<lparr>h_usb := us\<rparr>)"]
  show ?case by (simp add: attempts_def)
qed (simp add: attempts_def)

text \<open>C36.
  An answer goes out whole, once and in order: whatever the endpoint answers, over any
  number of attempts, the reports it took so far followed by those still due are the
  frames of the queued answer; and it is no longer pending exactly when all are sent.
\<close>

theorem hid_answer_complete:
  assumes "length (h_resp_buf s) = FIDO_HID_MAX_PAYLOAD" and "length d \<le> FIDO_HID_MAX_PAYLOAD"
  shows "\<exists>due. h_sent (attempts uss (queue_response cid cmd d s)) @ due = h_sent s @ frames cid cmd d \<and>
    (due = [] \<longleftrightarrow> \<not> h_resp_pending (attempts uss (queue_response cid cmd d s)))"
proof -
  let ?q = "queue_response cid cmd d s"
  have ok: "resp_ok ?q" and rest: "resp_rest ?q = frames cid cmd d"
    using assms by (simp_all add: resp_ok_def resp_rest_def queue_response_def Let_def hid_lens mem_write_def)
  have "h_sent ?q = h_sent s" by (simp add: queue_response_def Let_def)
  with attempts_rest [OF ok, of uss] rest resp_rest_Nil_iff show ?thesis
    by (intro exI [of _ "resp_rest (attempts uss ?q)"]) auto
qed

lemma hid_answer_complete_witness:
  "\<exists>due. h_sent (attempts [[True, False], [True, True]] (queue_response 7 0x83 [0x6E, 0x00] hid_start)) @ due
     = [be32_store 7 @ [0x83, 0, 2, 0x6E, 0x00] @ replicate 55 0]"
proof -
  have "length (h_resp_buf hid_start) = FIDO_HID_MAX_PAYLOAD"
    by (simp add: hid_start_def hid_zero_def fido_hid_init_def reset_assembly_def hid_lens)
  from hid_answer_complete [OF this, of "[0x6E, 0x00]" "[[True, False], [True, True]]" 7 "0x83"]
  obtain due where "h_sent (attempts [[True, False], [True, True]] (queue_response 7 0x83 [0x6E, 0x00] hid_start)) @ due
      = h_sent hid_start @ frames 7 0x83 [0x6E, 0x00]" by (auto simp: hid_lens)
  moreover have "h_sent hid_start = []"
    by (simp add: hid_start_def hid_zero_def fido_hid_init_def reset_assembly_def)
  moreover have "frames 7 0x83 [0x6E, 0x00] = [be32_store 7 @ [0x83, 0, 2, 0x6E, 0x00] @ replicate 55 0]"
    by code_simp
  ultimately show ?thesis by auto
qed

section \<open>The assembly and what leaves it alone\<close>

definition asm :: "hid \<Rightarrow> fh_state \<times> u32 \<times> u8 \<times> nat \<times> nat \<times> u8 \<times> bytes \<times> u32" where
  "asm s = (h_state s, h_cur_cid s, h_req_cmd s, h_req_total s, h_req_received s, h_next_seq s,
     h_req_buf s, h_busy_cid s)"

definition touch :: "hid \<Rightarrow> bool \<times> bool" where
  "touch s = (s_awaiting (h_up s), h_running s)"

text \<open>\<open>core\<close> forgets the endpoint and the held one-packet answers.\<close>

definition core :: "hid \<Rightarrow> hid" where
  "core s = s\<lparr>h_usb := [], h_sent := [], h_short_pkt := [], h_short_pending := False, h_resync_pending := False\<rparr>"

lemma core_upd [simp]:
  "core (s\<lparr>h_usb := a\<rparr>) = core s" "core (s\<lparr>h_sent := b\<rparr>) = core s" "core (s\<lparr>h_short_pkt := c\<rparr>) = core s"
  "core (s\<lparr>h_short_pending := d\<rparr>) = core s" "core (s\<lparr>h_resync_pending := e\<rparr>) = core s"
  by (simp_all add: core_def)

lemma core_fields [simp]:
  "h_state (core s) = h_state s" "h_cur_cid (core s) = h_cur_cid s" "h_req_cmd (core s) = h_req_cmd s"
  "h_req_total (core s) = h_req_total s" "h_req_received (core s) = h_req_received s"
  "h_next_seq (core s) = h_next_seq s" "h_req_buf (core s) = h_req_buf s" "h_busy_cid (core s) = h_busy_cid s"
  "h_resp_cid (core s) = h_resp_cid s" "h_resp_cmd (core s) = h_resp_cmd s" "h_resp_total (core s) = h_resp_total s"
  "h_resp_sent (core s) = h_resp_sent s" "h_resp_seq (core s) = h_resp_seq s" "h_resp_buf (core s) = h_resp_buf s"
  "h_resp_pending (core s) = h_resp_pending s" "h_next_cid (core s) = h_next_cid s" "h_up (core s) = h_up s"
  "h_running (core s) = h_running s" "h_in_progress (core s) = h_in_progress s"
  "h_abandoned (core s) = h_abandoned s" "h_resync_pkt (core s) = h_resync_pkt s"
  by (simp_all add: core_def)

text \<open>A field that \<open>core\<close> keeps is the same in two states with the same core.\<close>

lemma core_asm: "asm (core s) = asm s" and core_touch: "touch (core s) = touch s"
  by (simp_all add: asm_def touch_def)

definition packets_ok :: "hid \<Rightarrow> bool" where
  "packets_ok s \<longleftrightarrow> length (h_short_pkt s) = 64 \<and> length (h_resync_pkt s) = 64 \<and> (\<forall>q \<in> set (h_sent s). length q = 64)"

definition sends :: "hid \<Rightarrow> hid \<Rightarrow> bool" where
  "sends s s' \<longleftrightarrow> core s' = core s \<and> prefix (h_sent s) (h_sent s') \<and>
     (h_resync_pending s' \<longrightarrow> h_resync_pending s) \<and> (packets_ok s \<longrightarrow> packets_ok s')"

lemma sends_refl [simp]: "sends s s"
  by (simp add: sends_def)

lemma sends_trans: "sends a b \<Longrightarrow> sends b c \<Longrightarrow> sends a c"
  by (auto simp: sends_def dest: prefix_order.trans)

lemma push_sends: "push_packet p s = (b, s') \<Longrightarrow> length p = 64 \<or> \<not> packets_ok s \<Longrightarrow> sends s s'"
  by (auto simp: push_packet_def usb_report_def usb_ask_eq sends_def packets_ok_def split: if_splits)

lemma flush_parts_sends: "sends s (flush_short s)" "sends s (flush_resync s)"
proof -
  obtain b1 t1 where p1: "push_packet (h_short_pkt s) s = (b1, t1)" by fastforce
  have "sends s t1" by (rule push_sends [OF p1]) (simp add: packets_ok_def)
  moreover have "sends t1 (t1\<lparr>h_short_pending := False\<rparr>)" by (simp add: sends_def packets_ok_def)
  ultimately show "sends s (flush_short s)" using sends_trans by (auto simp: flush_short_def p1)
  obtain b2 t2 where p2: "push_packet (h_resync_pkt s) s = (b2, t2)" by fastforce
  have "sends s t2" by (rule push_sends [OF p2]) (simp add: packets_ok_def)
  moreover have "sends t2 (t2\<lparr>h_resync_pending := False\<rparr>)" by (simp add: sends_def packets_ok_def)
  ultimately show "sends s (flush_resync s)" using sends_trans by (auto simp: flush_resync_def p2)
qed

lemma flush_sends:
  assumes "flush_pending s = (b, s')"
  shows "sends s s'" "b = (\<not> h_short_pending s')"
  using assms sends_trans [OF flush_parts_sends] by (auto simp: flush_pending_def Let_def)

lemma length_build_packet: "length p \<le> 57 \<Longrightarrow> length (build_packet cid cmd p) = 64"
  by (simp add: build_packet_eq pad_def)

lemma send_now_sends: "sends s (send_now cid cmd p s)"
proof (cases "length p \<le> 57")
  case True
  let ?pkt = "build_packet cid cmd p"
  have l: "length ?pkt = 64" by (rule length_build_packet [OF True])
  obtain b s1 where f: "flush_pending s = (b, s1)" by fastforce
  obtain ok s2 where p: "(if b then push_packet ?pkt s1 else (False, s1)) = (ok, s2)" by fastforce
  have "sends s1 s2" using p push_sends [of ?pkt s1] l by (auto split: if_splits)
  then have 12: "sends s s2" using flush_sends(1) [OF f] sends_trans by blast
  moreover have "sends s2 (s2\<lparr>h_short_pkt := ?pkt, h_short_pending := True\<rparr>)"
    using l by (simp add: sends_def packets_ok_def)
  ultimately show ?thesis using True sends_trans
    by (auto simp: send_now_def hid_lens Let_def f p split: bool.splits)
qed (simp add: send_now_def hid_lens)

end
