(* ===== verification/Ctaphid_Requests.thy ===== *)
theory Ctaphid_Requests
  imports Ctaphid_Frames
begin

text \<open>
  Requests in \<^verbatim>\<open>ctaphid.c\<close>: which packets can change the assembly or the request that
  runs, reassembly of a request among the packets of other channels, CANCEL, channel
  allocation, and the bounds that hold in every reachable state.
\<close>

section \<open>What a packet can change\<close>

lemma sends_asm: "sends s s' \<Longrightarrow> asm s' = asm s" and sends_touch: "sends s s' \<Longrightarrow> touch s' = touch s"
  unfolding sends_def using core_asm core_touch by metis+

lemma asm_fields:
  assumes "asm s' = asm s"
  shows "h_state s' = h_state s" "h_cur_cid s' = h_cur_cid s" "h_req_cmd s' = h_req_cmd s"
    "h_req_total s' = h_req_total s" "h_req_received s' = h_req_received s" "h_next_seq s' = h_next_seq s"
    "h_req_buf s' = h_req_buf s" "h_busy_cid s' = h_busy_cid s"
  using assms by (simp_all add: asm_def)

lemma asm_upd [simp]:
  "asm (s\<lparr>h_resp_pending := a\<rparr>) = asm s" "asm (s\<lparr>h_resync_pending := b\<rparr>) = asm s"
  "asm (s\<lparr>h_short_pending := c\<rparr>) = asm s" "asm (s\<lparr>h_up := d\<rparr>) = asm s" "asm (s\<lparr>h_next_cid := e\<rparr>) = asm s"
  "asm (s\<lparr>h_abandoned := f\<rparr>) = asm s" "asm (s\<lparr>h_resync_pkt := g\<rparr>) = asm s"
  "asm (s\<lparr>h_in_progress := h\<rparr>) = asm s" "asm (s\<lparr>h_ka_status := i\<rparr>) = asm s" "asm (s\<lparr>h_ka_last := j\<rparr>) = asm s"
  "asm (s\<lparr>h_resp_buf := k\<rparr>) = asm s" "asm (s\<lparr>h_running := l\<rparr>) = asm s"
  by (simp_all add: asm_def)

lemma touch_upd [simp]:
  "touch (s\<lparr>h_resp_pending := a\<rparr>) = touch s" "touch (s\<lparr>h_resync_pending := b\<rparr>) = touch s"
  "touch (s\<lparr>h_short_pending := c\<rparr>) = touch s" "touch (s\<lparr>h_next_cid := e\<rparr>) = touch s"
  "touch (s\<lparr>h_abandoned := f\<rparr>) = touch s" "touch (s\<lparr>h_resync_pkt := g\<rparr>) = touch s"
  "touch (s\<lparr>h_in_progress := h\<rparr>) = touch s" "touch (s\<lparr>h_ka_status := i\<rparr>) = touch s"
  "touch (s\<lparr>h_ka_last := j\<rparr>) = touch s" "touch (s\<lparr>h_resp_buf := k\<rparr>) = touch s"
  "touch (s\<lparr>h_up := user_presence_cancel (h_up s)\<rparr>) = touch s"
  "touch (reset_assembly s) = touch s"
  by (simp_all add: touch_def user_presence_cancel_def reset_assembly_def)

lemma reply_short_keeps [simp]:
  "asm (reply_short cid cmd p s) = asm s" "touch (reply_short cid cmd p s) = touch s"
  by (simp_all add: reply_short_def sends_asm [OF send_now_sends] sends_touch [OF send_now_sends])
     (simp_all add: queue_response_def Let_def asm_def touch_def)

lemma queue_error_keeps [simp]: "asm (queue_error cid e s) = asm s" "touch (queue_error cid e s) = touch s"
  by (simp_all add: queue_error_def)

lemma init_parts_keep [simp]:
  "asm (supersede_resync c s) = asm s" "touch (supersede_resync c s) = touch s"
  "asm (supersede_short c s) = asm s" "touch (supersede_short c s) = touch s"
  "asm (abandon_request c r s) = asm s" "touch (abandon_request c r s) = touch s"
  "asm (drop_answer c s) = asm s" "touch (drop_answer c s) = touch s"
  by (simp_all add: supersede_resync_def supersede_short_def abandon_request_def drop_answer_def)
     (simp add: touch_def user_presence_cancel_def)

lemma init_channel_keeps:
  assumes "init_channel c s = (o1, s1)"
  shows "touch s1 = touch s" "\<not> (h_state s = FH_STATE_ASSEMBLING \<and> h_cur_cid s = c) \<Longrightarrow> asm s1 = asm s"
  using assms by (auto simp: init_channel_def alloc_channel_def Let_def split: if_splits)

lemma handle_init_keeps:
  "touch (handle_init cid p s) = touch s"
  "\<not> (h_state s = FH_STATE_ASSEMBLING \<and> h_cur_cid s = cid) \<Longrightarrow> asm (handle_init cid p s) = asm s"
  using init_channel_keeps [of cid s] by (auto simp: handle_init_def Let_def split: prod.splits)

lemma complete_request_keeps: "touch (complete_request cid s) = touch s"
  by (simp add: complete_request_def Let_def) (simp add: touch_def)

lemma packet_touch [simp]: "touch (fido_hid_handle_packet pkt s) = touch s"
proof -
  have i: "touch (handle_init_packet cid pkt s) = touch s" for cid
    by (simp add: handle_init_packet_def Let_def handle_init_keeps complete_request_keeps)
       (simp add: touch_def)
  have "touch (handle_cont_packet cid pkt s) = touch s" for cid
    by (simp add: handle_cont_packet_def Let_def complete_request_keeps) (simp add: touch_def)
  with i show ?thesis by (simp add: fido_hid_handle_packet_def Let_def)
qed

text \<open>No packet of another channel touches an assembly, and none touches a complete request.\<close>

lemma other_packet_keeps:
  assumes "h_state s = FH_STATE_ASSEMBLING" and "read_be32 pkt \<noteq> h_cur_cid s" and "h_busy_cid s = 0"
  shows "asm (fido_hid_handle_packet pkt s) = asm s"
  using assms by (simp add: fido_hid_handle_packet_def handle_init_packet_def handle_cont_packet_def Let_def
      handle_init_keeps)

lemma busy_packet_keeps:
  assumes "h_state s = FH_STATE_IDLE" and "h_busy_cid s \<noteq> 0"
  shows "asm (fido_hid_handle_packet pkt s) = asm s"
  using assms by (simp add: fido_hid_handle_packet_def handle_init_packet_def handle_cont_packet_def Let_def
      handle_init_keeps)

section \<open>Reassembly\<close>

definition assembling :: "u32 \<Rightarrow> u8 \<Rightarrow> bytes \<Rightarrow> hid \<Rightarrow> bool" where
  "assembling cid cmd d s \<longleftrightarrow>
     h_state s = FH_STATE_ASSEMBLING \<and> h_cur_cid s = cid \<and> h_req_cmd s = cmd \<and> h_busy_cid s = 0 \<and>
     h_req_total s = length d \<and> h_req_received s < length d \<and>
     h_req_received s = 57 + 59 * unat (h_next_seq s) \<and> length (h_req_buf s) = 2048 \<and>
     take (h_req_received s) (h_req_buf s) = take (h_req_received s) d"

definition requested :: "u32 \<Rightarrow> u8 \<Rightarrow> bytes \<Rightarrow> hid \<Rightarrow> bool" where
  "requested cid cmd d s \<longleftrightarrow>
     h_state s = FH_STATE_IDLE \<and> h_busy_cid s = cid \<and> h_req_cmd s = cmd \<and>
     h_req_received s = length d \<and> take (length d) (h_req_buf s) = d"

lemma asm_views:
  assumes "asm s' = asm s"
  shows "requested cid cmd d s' = requested cid cmd d s" "assembling cid cmd d s' = assembling cid cmd d s"
  unfolding requested_def assembling_def asm_fields [OF assms] by (rule refl)+

lemma read_be32_store [simp]: "read_be32 (be32_store cid @ rest) = cid"
  by (simp add: read_be32_def be32_store_def be32_load_store)

lemma low_seq: "unat seq < 128 \<Longrightarrow> seq AND 0x7F = (seq :: u8)"
proof -
  assume "unat seq < 128"
  then have "take_bit 7 (unat seq) = unat seq" by (simp add: take_bit_nat_eq_self)
  then have "take_bit 7 seq = seq" by (simp add: word_unat_eq_iff unsigned_take_bit_eq)
  moreover have "(0x7F :: u8) = mask 7" by (simp add: mask_eq_exp_minus_1)
  ultimately show ?thesis by (simp only: take_bit_eq_mask)
qed

lemma low_and_high: "((x :: u8) AND 0x7F) AND 0x80 = 0"
proof -
  have "(0x7F :: u8) AND 0x80 = 0" by simp
  then show ?thesis by (simp add: and.assoc)
qed

lemma low_low: "((x :: u8) AND 0x7F) AND 0x7F = x AND 0x7F"
  by (simp add: and.assoc)

lemma complete_requested:
  assumes "h_busy_cid s = 0" and "\<not> s_awaiting (h_up s)" and "h_req_cmd s = cmd"
    and "h_req_received s = length d" and "take (length d) (h_req_buf s) = d"
  shows "requested cid cmd d (complete_request cid s)"
  using assms by (simp add: complete_request_def requested_def user_presence_is_awaiting_def Let_def)

lemma cont_step:
  assumes a: "assembling cid cmd d s" and "length d \<le> 2048" and "\<not> s_awaiting (h_up s)" and "cid \<noteq> 0"
    and pkt: "pkt = be32_store cid @ [h_next_seq s AND 0x7F] @ pad 59 (take 59 (drop (h_req_received s) d))"
  shows "(length d \<le> h_req_received s + 59 \<longrightarrow> requested cid cmd d (fido_hid_handle_packet pkt s)) \<and>
    (h_req_received s + 59 < length d \<longrightarrow> assembling cid cmd d (fido_hid_handle_packet pkt s) \<and>
       h_req_received (fido_hid_handle_packet pkt s) = h_req_received s + 59 \<and>
       h_next_seq (fido_hid_handle_packet pkt s) = h_next_seq s + 1)"
proof -
  let ?n = "h_req_received s"
  define c where "c = min (length d - ?n) 59"
  have st: "h_state s = FH_STATE_ASSEMBLING" "h_cur_cid s = cid" "h_req_cmd s = cmd" "h_busy_cid s = 0"
    "h_req_total s = length d" "?n < length d" "?n = 57 + 59 * unat (h_next_seq s)" "length (h_req_buf s) = 2048"
    "take ?n (h_req_buf s) = take ?n d" using a unfolding assembling_def by blast+
  have seq: "unat (h_next_seq s) < 128" using st(6,7) assms(2) by linarith
  have len: "length pkt = 64" by (simp add: pkt pad_def)
  have cid: "read_be32 pkt = cid" unfolding pkt by (simp only: read_be32_store)
  have p4: "pkt ! 4 = h_next_seq s" by (simp add: pkt nth_append low_seq [OF seq])
  have hi: "pkt ! 4 AND 0x80 = 0" and lo: "pkt ! 4 AND 0x7F = h_next_seq s"
    using low_and_high [of "h_next_seq s"] by (simp_all add: p4 low_seq [OF seq])
  have data: "take c (drop 5 pkt) = take c (drop ?n d)" by (simp add: pkt pad_def c_def min_def)
  let ?s1 = "s\<lparr>h_next_seq := h_next_seq s + 1, h_req_buf := mem_write ?n (take c (drop ?n d)) (h_req_buf s),
    h_req_received := ?n + c\<rparr>"
  have step: "fido_hid_handle_packet pkt s = (if length d \<le> ?n + c then complete_request cid ?s1 else ?s1)"
    using \<open>cid \<noteq> 0\<close>
    by (simp add: fido_hid_handle_packet_def handle_cont_packet_def len cid hi lo hid_lens hid_cmds Let_def st(1-5)
        c_def [symmetric] data)
  have lc: "length (take c (drop ?n d)) = c" using st(6) by (simp add: c_def)
  have fits: "?n + length (take c (drop ?n d)) \<le> length (h_req_buf s)" using st(6,8) assms(2) by (simp add: c_def)
  have buf: "take (?n + c) (mem_write ?n (take c (drop ?n d)) (h_req_buf s)) = take (?n + c) d"
    using take_mem_write [OF fits, unfolded lc] st(9) by (simp add: take_add [of _ c d])
  have nseq: "unat (h_next_seq s + 1) = Suc (unat (h_next_seq s))" if "?n + 59 < length d"
    using st(7) that assms(2) by (simp add: unat_word_ariths)
  show ?thesis
  proof (intro conjI impI)
    assume e: "length d \<le> ?n + 59"
    then have c: "?n + c = length d" using st(6) by (simp add: c_def)
    have "requested cid cmd d (complete_request cid ?s1)"
      by (rule complete_requested) (use st assms(3) c buf in simp_all)
    then show "requested cid cmd d (fido_hid_handle_packet pkt s)" using step c by simp
  next
    assume e: "?n + 59 < length d"
    then have c: "c = 59" by (simp add: c_def)
    then have s': "fido_hid_handle_packet pkt s = ?s1" using step e by simp
    show "assembling cid cmd d (fido_hid_handle_packet pkt s)"
      unfolding s' assembling_def using st e c buf fits nseq by simp
    show "h_req_received (fido_hid_handle_packet pkt s) = ?n + 59"
      "h_next_seq (fido_hid_handle_packet pkt s) = h_next_seq s + 1" using s' c by simp_all
  qed
qed

lemma init_step:
  assumes "h_state s = FH_STATE_IDLE" "h_busy_cid s = 0" "\<not> s_awaiting (h_up s)"
    and "length d \<le> 2048" and "cid \<noteq> 0" "cid \<noteq> FIDO_HID_CID_BROADCAST"
    and "cmdb AND 0x80 \<noteq> 0" and "cmdb AND 0x7F \<notin> {FIDO_HID_CMD_INIT, FIDO_HID_CMD_CANCEL}"
    and pkt: "pkt = be32_store cid @ [cmdb] @ be16_store (length d) @ pad 57 (take 57 d)"
  shows "(length d \<le> 57 \<longrightarrow> requested cid (cmdb AND 0x7F) d (fido_hid_handle_packet pkt s)) \<and>
    (57 < length d \<longrightarrow> assembling cid (cmdb AND 0x7F) d (fido_hid_handle_packet pkt s) \<and>
       h_req_received (fido_hid_handle_packet pkt s) = 57 \<and> h_next_seq (fido_hid_handle_packet pkt s) = 0)"
proof -
  define c where "c = min (length d) 57"
  have len: "length pkt = 64" by (simp add: pkt pad_def)
  have cid: "read_be32 pkt = cid" unfolding pkt by (simp only: read_be32_store)
  have p4: "pkt ! 4 = cmdb" by (simp add: pkt nth_append)
  have "be16_load (pkt ! 5) (pkt ! 6) = be16_load (of_nat (drop_bit 8 (length d))) (of_nat (length d))"
    by (simp add: pkt nth_append be16_store_def)
  then have bc: "be16_load (pkt ! 5) (pkt ! 6) = length d"
    using be16_load_store [of "length d"] assms(4) by simp
  have data: "take c (drop 7 pkt) = take c d" by (simp add: pkt pad_def c_def min_def)
  let ?s1 = "s\<lparr>h_cur_cid := cid, h_req_cmd := cmdb AND 0x7F, h_req_total := length d, h_next_seq := 0,
    h_req_received := c, h_req_buf := mem_write 0 (take c d) (replicate 2048 0)\<rparr>"
  have step: "fido_hid_handle_packet pkt s =
      (if length d \<le> c then complete_request cid ?s1 else ?s1\<lparr>h_state := FH_STATE_ASSEMBLING\<rparr>)"
    using assms(1-8)
    by (simp add: fido_hid_handle_packet_def handle_init_packet_def len cid p4 bc hid_lens Let_def
        c_def [symmetric] data FIDO_HID_CMD_INIT_FLAG_def user_presence_is_awaiting_def)
  have lc: "length (take c d) = c" by (simp add: c_def)
  then have "0 + length (take c d) \<le> length (replicate 2048 (0 :: u8))" using assms(4) by (simp add: c_def)
  from take_mem_write [OF this] length_mem_write [OF this] lc
  have buf: "take c (mem_write 0 (take c d) (replicate 2048 0)) = take c d"
    "length (mem_write 0 (take c d) (replicate 2048 0)) = 2048" by simp_all
  show ?thesis
  proof (intro conjI impI)
    assume "length d \<le> 57"
    then have c: "c = length d" by (simp add: c_def)
    have "requested cid (cmdb AND 0x7F) d (complete_request cid ?s1)"
      by (rule complete_requested) (use assms(2,3) c buf in simp_all)
    then show "requested cid (cmdb AND 0x7F) d (fido_hid_handle_packet pkt s)" using step c by simp
  next
    assume l: "57 < length d"
    then have c: "c = 57" by (simp add: c_def)
    then have s': "fido_hid_handle_packet pkt s = ?s1\<lparr>h_state := FH_STATE_ASSEMBLING\<rparr>" using step l by simp
    show "assembling cid (cmdb AND 0x7F) d (fido_hid_handle_packet pkt s)"
      unfolding s' assembling_def using assms(2) l c buf by simp
    show "h_req_received (fido_hid_handle_packet pkt s) = 57" "h_next_seq (fido_hid_handle_packet pkt s) = 0"
      using s' c by simp_all
  qed
qed

lemma requested_stays:
  "requested cid cmd d s \<Longrightarrow> cid \<noteq> 0 \<Longrightarrow> requested cid cmd d (tud_task ps s)"
proof (induction ps arbitrary: s)
  case (Cons p ps)
  have "asm (fido_hid_handle_packet p s) = asm s"
    using Cons.prems by (intro busy_packet_keeps) (simp_all add: requested_def)
  from asm_views(1) [OF this] Cons show ?case by (simp add: tud_task_def)
qed (simp add: tud_task_def)

lemma touch_awaiting: "touch s' = touch s \<Longrightarrow> s_awaiting (h_up s') = s_awaiting (h_up s)"
  by (simp add: touch_def)

lemma conts_reassemble:
  assumes "assembling cid cmd d s" and "length d \<le> 2048" and "\<not> s_awaiting (h_up s)" and "cid \<noteq> 0"
    and "filter (\<lambda>p. read_be32 p = cid) ps = conts cid (h_next_seq s) (drop (h_req_received s) d)"
  shows "requested cid cmd d (tud_task ps s)"
  using assms(1,3,5)
proof (induction ps arbitrary: s)
  case Nil
  then show ?case by (simp add: assembling_def conts.simps)
next
  case (Cons p ps)
  let ?s = "fido_hid_handle_packet p s"
  have aw: "\<not> s_awaiting (h_up ?s)" using Cons.prems(2) touch_awaiting [OF packet_touch] by simp
  have run: "tud_task (p # ps) s = tud_task ps ?s" by (simp add: tud_task_def)
  show ?case
  proof (cases "read_be32 p = cid")
    case False
    have "asm ?s = asm s"
      using Cons.prems(1) False by (intro other_packet_keeps) (auto simp: assembling_def)
    from asm_views(2) [OF this] asm_fields [OF this] Cons.IH [of ?s] Cons.prems aw False run show ?thesis
      by simp
  next
    case True
    let ?rest = "drop (h_req_received s) d"
    have ne: "?rest \<noteq> []" using Cons.prems(1) by (simp add: assembling_def)
    have p: "p = be32_store cid @ [h_next_seq s AND 0x7F] @ pad 59 (take 59 ?rest)"
      and ps: "filter (\<lambda>p. read_be32 p = cid) ps = conts cid (h_next_seq s + 1) (drop 59 ?rest)"
      using Cons.prems(3) True unfolding conts_unfold [OF ne] by simp_all
    note st = cont_step [OF Cons.prems(1) assms(2) Cons.prems(2) assms(4) p]
    show ?thesis
    proof (cases "length d \<le> h_req_received s + 59")
      case True
      then have "requested cid cmd d ?s" using st by blast
      from requested_stays [OF this assms(4)] run show ?thesis by simp
    next
      case False
      then have a: "assembling cid cmd d ?s" and r: "h_req_received ?s = h_req_received s + 59"
        and n: "h_next_seq ?s = h_next_seq s + 1" using st by auto
      have "drop 59 ?rest = drop (h_req_received ?s) d" unfolding r by (simp add: add.commute)
      then show ?thesis using Cons.IH [OF a aw] ps n run by simp
    qed
  qed
qed

text \<open>C37.
  A request arrives whole: if the packets of a channel that follow its first one are the
  frames of a message, then whatever packets of other channels come in between and after
  them, and whatever the endpoint does, the request handed to the main loop is exactly
  that message, on that channel, with that command.
\<close>

theorem hid_request_reassembled:
  assumes "h_state s = FH_STATE_IDLE" and "h_busy_cid s = 0" and "\<not> s_awaiting (h_up s)"
    and "length d \<le> FIDO_HID_MAX_PAYLOAD" and "cid \<noteq> 0" and "cid \<noteq> FIDO_HID_CID_BROADCAST"
    and "cmdb AND 0x80 \<noteq> 0" and "cmdb AND 0x7F \<notin> {FIDO_HID_CMD_INIT, FIDO_HID_CMD_CANCEL}"
    and "p # filter (\<lambda>p. read_be32 p = cid) ps = frames cid cmdb d"
  shows "requested cid (cmdb AND 0x7F) d (tud_task (p # ps) s)"
proof -
  let ?s = "fido_hid_handle_packet p s"
  have l: "length d \<le> 2048" using assms(4) by (simp add: hid_lens)
  have p: "p = be32_store cid @ [cmdb] @ be16_store (length d) @ pad 57 (take 57 d)"
    and ps: "filter (\<lambda>p. read_be32 p = cid) ps = conts cid 0 (drop 57 d)"
    using assms(9) by (simp_all add: frames_def)
  note st = init_step [OF assms(1-3) l assms(5-8) p]
  have run: "tud_task (p # ps) s = tud_task ps ?s" by (simp add: tud_task_def)
  show ?thesis
  proof (cases "length d \<le> 57")
    case True
    then show ?thesis using st requested_stays assms(5) run by simp
  next
    case False
    then have a: "assembling cid (cmdb AND 0x7F) d ?s" "h_req_received ?s = 57" "h_next_seq ?s = 0"
      using st by auto
    have "\<not> s_awaiting (h_up ?s)" using assms(3) touch_awaiting [OF packet_touch] by simp
    from conts_reassemble [OF a(1) l this assms(5), of ps] a(2,3) ps run show ?thesis by simp
  qed
qed

abbreviation demo_frames :: "bytes list" where
  "demo_frames \<equiv> frames 1 0x90 (replicate 60 7)"

lemma hid_request_reassembled_witness:
  "requested 1 0x10 (replicate 60 7)
     (tud_task [hd demo_frames, build_packet 2 0x81 [9], hd (tl demo_frames)] hid_start)"
proof -
  have "hd demo_frames # filter (\<lambda>p. read_be32 p = 1) [build_packet 2 0x81 [9], hd (tl demo_frames)] = demo_frames"
    by code_simp
  moreover have "h_state hid_start = FH_STATE_IDLE" "h_busy_cid hid_start = 0" "\<not> s_awaiting (h_up hid_start)"
    by (simp_all add: hid_start_def fido_hid_init_def hid_zero_def up_start_def reset_assembly_def)
  ultimately show ?thesis
    using hid_request_reassembled [of hid_start "replicate 60 7" 1 "0x90"]
    by (simp add: hid_lens hid_cmds FIDO_HID_CID_BROADCAST_def)
qed

section \<open>The request that runs\<close>

definition resp :: "hid \<Rightarrow> u32 \<times> u8 \<times> nat \<times> nat \<times> u8 \<times> bytes \<times> bool" where
  "resp s = (h_resp_cid s, h_resp_cmd s, h_resp_total s, h_resp_sent s, h_resp_seq s, h_resp_buf s, h_resp_pending s)"

lemma core_resp: "resp (core s) = resp s"
  by (simp add: resp_def)

lemma sends_resp: "sends s s' \<Longrightarrow> resp s' = resp s"
  unfolding sends_def using core_resp by metis

lemma resp_upd [simp]:
  "resp (s\<lparr>h_resync_pending := b\<rparr>) = resp s" "resp (s\<lparr>h_short_pending := c\<rparr>) = resp s"
  "resp (s\<lparr>h_up := d\<rparr>) = resp s" "resp (s\<lparr>h_next_cid := e\<rparr>) = resp s" "resp (s\<lparr>h_abandoned := f\<rparr>) = resp s"
  "resp (s\<lparr>h_resync_pkt := g\<rparr>) = resp s" "resp (s\<lparr>h_in_progress := h\<rparr>) = resp s"
  "resp (s\<lparr>h_ka_status := i\<rparr>) = resp s" "resp (s\<lparr>h_ka_last := j\<rparr>) = resp s" "resp (s\<lparr>h_running := l\<rparr>) = resp s"
  "resp (reset_assembly s) = resp s"
  by (simp_all add: resp_def reset_assembly_def)

lemma pending_resp: "resp s' = resp s \<Longrightarrow> h_resp_pending s' = h_resp_pending s"
  by (simp add: resp_def)

lemma busy_reply_resp: "h_busy_cid s \<noteq> 0 \<Longrightarrow> resp (reply_short cid cmd p s) = resp s"
  by (simp add: reply_short_def sends_resp [OF send_now_sends])

lemma busy_init_resp:
  assumes "h_busy_cid s \<noteq> 0" and "h_state s = FH_STATE_IDLE" and "\<not> h_resp_pending s"
  shows "resp (handle_init cid p s) = resp s"
proof -
  obtain o1 s1 where i: "init_channel cid s = (o1, s1)" by fastforce
  have r1: "resp s1 = resp s" using i assms(2) by (auto simp: init_channel_def alloc_channel_def Let_def split: if_splits)
  have a1: "asm s1 = asm s" using init_channel_keeps(2) [OF i] assms(2) by simp
  let ?s2 = "supersede_short cid (supersede_resync cid s1)"
  have r2: "resp ?s2 = resp s" using r1 by (simp add: supersede_short_def supersede_resync_def)
  have b2: "h_busy_cid ?s2 \<noteq> 0" using asm_fields(8) [of ?s2 s] a1 assms(1) by simp
  have "drop_answer cid ?s2 = ?s2" using pending_resp [OF r2] assms(3) by (simp add: drop_answer_def)
  then have "resp (reply_short cid init_answer r (drop_answer cid ?s2)) = resp s" for r
    using busy_reply_resp [OF b2] r2 by simp
  moreover have "resp (abandon_request cid r ?s2) = resp s" for r using r2 by (simp add: abandon_request_def)
  ultimately show ?thesis using busy_reply_resp [OF assms(1)] i
    by (simp add: handle_init_def Let_def queue_error_def)
qed

lemma busy_packet_resp:
  assumes "h_busy_cid s \<noteq> 0" and "h_state s = FH_STATE_IDLE" and "\<not> h_resp_pending s"
  shows "resp (fido_hid_handle_packet pkt s) = resp s"
  using assms by (simp add: fido_hid_handle_packet_def handle_init_packet_def handle_cont_packet_def Let_def
      busy_init_resp busy_reply_resp queue_error_def)

text \<open>\<open>held s t\<close>: the request and answer variables of \<open>t\<close> are those of \<open>s\<close>, which runs a request.\<close>

definition held :: "hid \<Rightarrow> hid \<Rightarrow> bool" where
  "held s t \<longleftrightarrow> asm t = asm s \<and> resp t = resp s \<and> h_running t = h_running s"

lemma held_trans: "held s t \<Longrightarrow> held t u \<Longrightarrow> held s u"
  by (simp add: held_def)

lemma held_packets:
  assumes "h_busy_cid s \<noteq> 0" and "h_state s = FH_STATE_IDLE" and "\<not> h_resp_pending s"
  shows "held s (tud_task ps s)"
  using assms
proof (induction ps arbitrary: s)
  case (Cons p ps)
  let ?s = "fido_hid_handle_packet p s"
  have a: "asm ?s = asm s" using Cons.prems by (intro busy_packet_keeps)
  have r: "resp ?s = resp s" using Cons.prems by (intro busy_packet_resp)
  have "h_running ?s = h_running s" using packet_touch [of p s] by (simp add: touch_def)
  then have "held s ?s" using a r by (simp add: held_def)
  moreover have "held ?s (tud_task ps ?s)"
    using asm_fields(1,8) [OF a] pending_resp [OF r] Cons.prems by (intro Cons.IH) simp_all
  ultimately show ?case using held_trans by (simp add: tud_task_def)
qed (simp add: tud_task_def held_def)

lemma sends_held: "sends s t \<Longrightarrow> held s t"
  using sends_asm sends_resp sends_touch [of s t] by (simp add: held_def touch_def)

lemma held_upd [simp]:
  "held s (t\<lparr>h_in_progress := a\<rparr>) = held s t" "held s (t\<lparr>h_ka_status := b\<rparr>) = held s t"
  "held s (t\<lparr>h_ka_last := c\<rparr>) = held s t" "held s (t\<lparr>h_up := d\<rparr>) = held s t" "held s s"
  by (simp_all add: held_def)

lemma held_busy: "held s t \<Longrightarrow> h_busy_cid t = h_busy_cid s \<and> h_state t = h_state s \<and> h_resp_pending t = h_resp_pending s"
  by (simp add: held_def asm_def resp_def)

lemma held_push: "length p = 64 \<Longrightarrow> held s (snd (push_packet p s))"
  using push_sends [of p s] sends_held by (metis prod.collapse)

lemma held_progress:
  assumes "h_busy_cid s \<noteq> 0" and "h_state s = FH_STATE_IDLE" and "\<not> h_resp_pending s"
  shows "held s (fido_hid_progress ps now s)"
proof (cases "h_running s \<and> \<not> h_in_progress s")
  case True
  let ?t = "tud_task ps (s\<lparr>h_in_progress := True\<rparr>)"
  obtain b s1 where f: "flush_pending ?t = (b, s1)" by fastforce
  have "held (s\<lparr>h_in_progress := True\<rparr>) ?t" by (rule held_packets) (use assms in simp_all)
  then have "held s ?t" by (simp add: held_def asm_def resp_def)
  then have s1: "held s s1" using held_trans sends_held [OF flush_sends(1) [OF f]] by blast
  then have "held s (snd (push_packet (build_packet c k [x]) s1))" for c k x
    using held_trans held_push length_build_packet [of "[x]"] by simp
  then have "push_packet (build_packet c k [x]) s1 = (ok, s2) \<Longrightarrow> held s s2" for c k x ok s2
    by (metis snd_conv)
  then show ?thesis using True s1
    by (auto simp: fido_hid_progress_def f Let_def split: prod.splits)
next
  case False
  then show ?thesis by (simp add: fido_hid_progress_def)
qed

lemma held_steps:
  assumes "h_busy_cid s \<noteq> 0" and "h_state s = FH_STATE_IDLE" and "\<not> h_resp_pending s"
  shows "held s (fold run_step evs s)"
  using assms
proof (induction evs arbitrary: s)
  case (Cons e evs)
  have e: "held s (run_step e s)"
    by (cases e) (simp_all add: held_progress held_packets Cons.prems)
  then have "held (run_step e s) (fold run_step evs (run_step e s))"
    using Cons.prems held_busy by (intro Cons.IH) simp_all
  with e show ?case using held_trans by simp
qed simp

text \<open>C38.
  The request that runs owns its buffers: whatever packets come in while its handler works
  and waits for touch, from its own channel or others, the request bytes, its channel and
  command, and the answer variables stay as they were when it began, no assembly starts,
  and it stays the running request.
\<close>

theorem hid_run_isolated:
  assumes "requested cid cmd d s" and "cid \<noteq> 0" and "\<not> h_resp_pending s" and "h_running s"
  shows "requested cid cmd d (fold run_step evs s) \<and> resp (fold run_step evs s) = resp s \<and>
    h_running (fold run_step evs s)"
proof -
  have "h_busy_cid s \<noteq> 0" "h_state s = FH_STATE_IDLE" using assms(1,2) by (simp_all add: requested_def)
  from held_steps [OF this assms(3)] have h: "held s (fold run_step evs s)" .
  then have "asm (fold run_step evs s) = asm s" by (simp add: held_def)
  from asm_views(1) [OF this] assms(1) h assms(4) show ?thesis by (simp add: held_def)
qed

abbreviation demo_request :: hid where
  "demo_request \<equiv> hid_start\<lparr>h_busy_cid := 1, h_req_cmd := 0x10, h_req_received := 1,
     h_req_buf := 4 # replicate 2047 0\<rparr>"

lemma demo_request: "requested 1 0x10 [4] demo_request" "\<not> h_resp_pending demo_request"
  "\<not> h_abandoned demo_request" "length (h_resp_buf demo_request) = 2048"
  by (simp_all add: requested_def hid_start_def fido_hid_init_def hid_zero_def reset_assembly_def)

lemma hid_run_isolated_witness:
  "requested 1 0x10 [4] (fold run_step [Progress [build_packet 2 0x90 [5], build_packet 1 0x91 []] 60, Awaiting True,
     Pump [build_packet 1 0x86 (replicate 8 3)]] (demo_request\<lparr>h_running := True\<rparr>))"
proof -
  have "requested 1 0x10 [4] (demo_request\<lparr>h_running := True\<rparr>)"
    using demo_request(1) by (simp add: requested_def)
  then show ?thesis by (rule conjunct1 [OF hid_run_isolated]) (use demo_request(2) in simp_all)
qed

text \<open>A request is answered on its channel with what its handler returned: a PING with its own
  data, a CBOR request with the first \<open>n\<close> bytes the handler wrote when it returned \<open>n\<close>, in
  full frames; an INIT on the channel before the end leaves no answer; and the request is
  over either way.
\<close>

theorem hid_request_answered:
  assumes "requested cid cmd d s" and "cid \<noteq> 0" and "length d \<le> FIDO_HID_MAX_PAYLOAD"
    and "\<not> h_resp_pending s" and "\<not> h_abandoned s" and "length (h_resp_buf s) = FIDO_HID_MAX_PAYLOAD"
    and "0 \<le> run_result run" and "run_result run \<le> int (length (run_out run))"
    and "length (run_out run) \<le> FIDO_HID_MAX_PAYLOAD"
  shows "(cmd = FIDO_HID_CMD_PING \<longrightarrow> resp_rest (run_request run now s) = frames cid 0x81 d) \<and>
    (cmd = FIDO_HID_CMD_CBOR \<longrightarrow> resp_rest (run_request run now s) =
       (if h_abandoned (fold run_step (run_events run) (request_begin now s)) then []
        else frames cid 0x90 (take (nat (run_result run)) (run_out run)))) \<and>
    h_busy_cid (run_request run now s) = 0 \<and> \<not> h_running (run_request run now s)"
proof -
  let ?b = "request_begin now s"
  have b: "asm ?b = asm s" "resp ?b = resp s" "\<not> h_abandoned ?b" "h_running ?b"
    using assms(5) by (simp_all add: request_begin_def)
  have rq: "requested cid cmd d ?b" using asm_views(1) [OF b(1)] assms(1) by simp
  have bf: "h_busy_cid s = cid" "h_req_cmd ?b = cmd" "take (h_req_received ?b) (h_req_buf ?b) = d"
    using rq assms(1) by (simp_all add: requested_def)
  have rr: "resp_rest (request_end t) = (if h_abandoned t then [] else resp_rest t)" for t
    by (simp add: request_end_def resp_rest_def reset_assembly_def Let_def)
  have re: "h_busy_cid (request_end t) = 0" "\<not> h_running (request_end t)" for t
    by (simp_all add: request_end_def reset_assembly_def Let_def)
  have run: "run_request run now s = request_end (dispatch_request run cid ?b)"
    using b(3) bf(1) by (simp add: run_request_def Let_def)
  have bufl: "length (h_resp_buf ?b) = 2048" using b(2) assms(6) by (simp add: resp_def hid_lens)
  have "resp_rest (run_request run now s) = frames cid 0x81 d" if "cmd = FIDO_HID_CMD_PING"
  proof -
    have "dispatch_request run cid ?b = queue_response cid 0x81 d ?b"
      using bf that by (simp add: dispatch_request_def handle_ping_def hid_cmds)
    moreover have "resp_rest (queue_response cid 0x81 d ?b) = frames cid 0x81 d"
      using bufl assms(3) by (simp add: resp_rest_def queue_response_def Let_def hid_lens mem_write_def)
    moreover have "\<not> h_abandoned (queue_response cid 0x81 d ?b)"
      using b(3) by (simp add: queue_response_def Let_def)
    ultimately show ?thesis unfolding run rr by simp
  qed
  moreover have "resp_rest (run_request run now s) =
       (if h_abandoned (fold run_step (run_events run) ?b) then []
        else frames cid 0x90 (take (nat (run_result run)) (run_out run)))" if "cmd = FIDO_HID_CMD_CBOR"
  proof -
    let ?m = "fold run_step (run_events run) ?b" and ?n = "nat (run_result run)"
    have "h_resp_buf ?m = h_resp_buf ?b"
      using hid_run_isolated [OF rq assms(2) _ b(4), of "run_events run"] pending_resp [OF b(2)] assms(4)
      by (simp add: resp_def)
    then have ml: "length (h_resp_buf ?m) = 2048" using bufl by simp
    have n: "?n \<le> 2048" "nat (run_result run mod 65536) = ?n" "?n \<le> length (run_out run)"
      using assms(7-9) by (simp_all add: hid_lens)
    have "dispatch_request run cid ?b = handle_cbor run cid ?b"
      using bf that by (simp add: dispatch_request_def hid_cmds)
    moreover have "resp_rest (handle_cbor run cid ?b) = frames cid 0x90 (take ?n (run_out run))"
      using n assms(7) ml by (simp add: handle_cbor_def Let_def resp_rest_def hid_cmds mem_write_def)
    moreover have "h_abandoned (handle_cbor run cid ?b) = h_abandoned ?m"
      using assms(7) by (simp add: handle_cbor_def Let_def)
    ultimately show ?thesis unfolding run rr by simp
  qed
  ultimately show ?thesis using re run by simp
qed

lemma hid_request_answered_witness:
  "resp_rest (run_request \<lparr>run_events = [], run_result = 1, run_out = [0x2E]\<rparr> 9 demo_request) = frames 1 0x90 [0x2E]"
proof -
  have "\<not> h_abandoned (request_begin 9 demo_request)" using demo_request(3) by (simp add: request_begin_def)
  then show ?thesis
    using hid_request_answered [OF demo_request(1) _ _ demo_request(2,3),
        of "\<lparr>run_events = [], run_result = 1, run_out = [0x2E]\<rparr>" 9] demo_request(4)
    by (simp add: hid_lens hid_cmds)
qed

section \<open>Channels and CANCEL\<close>

fun alloc_n :: "nat \<Rightarrow> hid \<Rightarrow> u32 list \<times> hid" where
  "alloc_n 0 s = ([], s)"
| "alloc_n (Suc n) s = (case alloc_channel s of (c, s1) \<Rightarrow> case alloc_n n s1 of (cs, s2) \<Rightarrow> (c # cs, s2))"

lemma alloc_step:
  assumes "h_next_cid s = of_nat (m mod (2 ^ 32 - 2) + 1)"
  shows "fst (alloc_channel s) = of_nat (m mod (2 ^ 32 - 2) + 1)"
    "h_next_cid (snd (alloc_channel s)) = of_nat (Suc m mod (2 ^ 32 - 2) + 1)"
proof -
  show "fst (alloc_channel s) = of_nat (m mod (2 ^ 32 - 2) + 1)"
    using assms by (simp add: alloc_channel_def Let_def)
  let ?k = "m mod 4294967294"
  have k: "?k < 4294967294" by simp
  have u: "unat (of_nat (?k + 2) :: u32) = ?k + 2" using k by (intro unat_of_nat_u32) simp
  have n1: "h_next_cid s + 1 = of_nat (?k + 2)" using assms by simp
  have z: "(of_nat (?k + 2) :: u32) \<noteq> 0" using u by (metis add_is_0 unsigned_0 zero_neq_numeral)
  show "h_next_cid (snd (alloc_channel s)) = of_nat (Suc m mod (2 ^ 32 - 2) + 1)"
  proof (cases "?k + 2 = 4294967295")
    case True
    then have "(of_nat (?k + 2) :: u32) = FIDO_HID_CID_BROADCAST"
      by (simp add: FIDO_HID_CID_BROADCAST_def)
    moreover have "Suc m mod 4294967294 = 0" using True by (simp add: mod_Suc)
    ultimately show ?thesis using n1 z by (simp add: alloc_channel_def Let_def)
  next
    case False
    then have "(of_nat (?k + 2) :: u32) \<noteq> FIDO_HID_CID_BROADCAST"
      using u by (auto simp: word_unat_eq_iff FIDO_HID_CID_BROADCAST_def)
    moreover have "Suc m mod 4294967294 = Suc ?k" using False by (simp add: mod_Suc)
    ultimately show ?thesis using n1 z by (simp add: alloc_channel_def Let_def add.commute)
  qed
qed

lemma alloc_n_from:
  "h_next_cid s = of_nat (m mod (2 ^ 32 - 2) + 1) \<Longrightarrow>
     fst (alloc_n n s) = map (\<lambda>i. of_nat ((m + i) mod (2 ^ 32 - 2) + 1)) [0..<n]"
proof (induction n arbitrary: s m)
  case (Suc n)
  have "map (\<lambda>i. of_nat ((Suc m + i) mod (2 ^ 32 - 2) + 1) :: u32) [0..<n]
      = map (\<lambda>i. of_nat ((m + i) mod (2 ^ 32 - 2) + 1)) [Suc 0..<Suc n]"
    unfolding map_Suc_upt [symmetric] by simp
  with Suc.IH [OF alloc_step(2) [OF Suc.prems]] alloc_step(1) [OF Suc.prems] show ?case
    by (simp add: upt_conv_Cons split: prod.splits del: upt_Suc) (metis fst_conv snd_conv)
qed simp

text \<open>Channel allocation: the \<open>i\<close>-th channel handed out after start (from 0) is
  \<open>i mod (2^32 - 2) + 1\<close>, so neither 0 nor the broadcast channel is ever given, and the
  first \<open>2^32 - 2\<close> hosts get distinct channels.
\<close>

theorem hid_channels_distinct:
  "fst (alloc_n n hid_start) = map (\<lambda>i. of_nat (i mod (2 ^ 32 - 2) + 1)) [0..<n] \<and>
   (\<forall>c \<in> set (fst (alloc_n n hid_start)). c \<noteq> 0 \<and> c \<noteq> FIDO_HID_CID_BROADCAST) \<and>
   (n \<le> 2 ^ 32 - 2 \<longrightarrow> distinct (fst (alloc_n n hid_start)))"
proof -
  have "h_next_cid hid_start = of_nat (0 mod (2 ^ 32 - 2) + 1)"
    by (simp add: hid_start_def fido_hid_init_def)
  from alloc_n_from [OF this, of n]
  have l: "fst (alloc_n n hid_start) = map (\<lambda>i. of_nat (i mod (2 ^ 32 - 2) + 1)) [0..<n]" by simp
  have u: "unat (of_nat (i mod 4294967294 + 1) :: u32) = i mod 4294967294 + 1" for i
    using mod_less_divisor [of 4294967294 i] by (intro unat_of_nat_u32) linarith
  have "c \<noteq> 0 \<and> c \<noteq> FIDO_HID_CID_BROADCAST" if mem: "c \<in> set (fst (alloc_n n hid_start))" for c
  proof -
    obtain i where "c = of_nat (i mod (2 ^ 32 - 2) + 1)" using mem unfolding l set_map by blast
    then have c: "c = of_nat (i mod 4294967294 + 1)" by simp
    have "0 < unat c" "unat c < 4294967295"
      unfolding c u using mod_less_divisor [of 4294967294 i] by linarith+
    then show ?thesis by (auto simp: FIDO_HID_CID_BROADCAST_def)
  qed
  moreover have "distinct (fst (alloc_n n hid_start))" if "n \<le> 2 ^ 32 - 2"
  proof -
    have "inj_on (\<lambda>i. of_nat (i mod 4294967294 + 1) :: u32) (set [0..<n])"
    proof (rule inj_onI)
      fix i j assume "i \<in> set [0..<n]" "j \<in> set [0..<n]"
        and e: "of_nat (i mod 4294967294 + 1) = (of_nat (j mod 4294967294 + 1) :: u32)"
      then have "i mod 4294967294 = i" "j mod 4294967294 = j" using that by auto
      with arg_cong [OF e, of unat] show "i = j" unfolding u by simp
    qed
    then show ?thesis using l by (simp add: distinct_map)
  qed
  ultimately show ?thesis using l by blast
qed

lemma hid_channels_distinct_witness:
  "fst (alloc_n 3 hid_start) = [1, 2, 3] \<and> distinct (fst (alloc_n 3 hid_start))"
proof -
  have "[0..<3] = [0, 1, 2 :: nat]" by (simp add: upt_rec)
  then have "map (\<lambda>i. of_nat (i mod (2 ^ 32 - 2) + 1)) [0..<3] = [1, 2, 3 :: u32]" by simp
  then show ?thesis using hid_channels_distinct [of 3] by simp
qed

lemma reply_short_up [simp]: "h_up (reply_short cid cmd p s) = h_up s"
proof -
  have "h_up (core (send_now cid cmd p s)) = h_up (core s)"
    using send_now_sends [of s cid cmd p] by (simp only: sends_def)
  then show ?thesis by (simp add: reply_short_def queue_response_def Let_def)
qed

lemma up_reset [simp]: "h_up (reset_assembly s) = h_up s"
  by (simp add: reset_assembly_def)

lemma init_parts_up:
  "h_up (supersede_resync c s) = h_up s" "h_up (supersede_short c s) = h_up s" "h_up (drop_answer c s) = h_up s"
  "init_channel c s = (o1, s1) \<Longrightarrow> h_up s1 = h_up s"
  by (auto simp: supersede_resync_def supersede_short_def drop_answer_def init_channel_def alloc_channel_def Let_def
      split: if_splits)

lemma handle_init_up:
  assumes "s_cancel (h_up (handle_init cid p s))" and "\<not> s_cancel (h_up s)"
  shows "h_running s \<and> cid = h_busy_cid s"
proof -
  obtain o1 s1 where i: "init_channel cid s = (o1, s1)" by fastforce
  let ?s2 = "supersede_short cid (supersede_resync cid s1)"
  have "touch ?s2 = touch s" using init_channel_keeps(1) [OF i] by simp
  then have "h_running ?s2 = h_running s" by (simp add: touch_def)
  moreover have "h_busy_cid ?s2 = h_busy_cid s"
    using i by (auto simp: init_channel_def alloc_channel_def Let_def reset_assembly_def supersede_short_def
        supersede_resync_def split: if_splits)
  ultimately show ?thesis using assms i init_parts_up(4) [OF i]
    by (auto simp: handle_init_def Let_def queue_error_def abandon_request_def init_parts_up split: if_splits)
qed

text \<open>A CANCEL reaches only the request it is meant for: a packet sets the cancel latch only
  while a request runs and only if it comes on that request's channel, and a request
  starts and ends with the latch clear, so no cancel is left for another request or wait.
\<close>

theorem hid_cancel_scope:
  "(s_cancel (h_up (fido_hid_handle_packet pkt s)) \<longrightarrow>
      s_cancel (h_up s) \<or> h_running s \<and> read_be32 pkt = h_busy_cid s) \<and>
   \<not> s_cancel (h_up (request_begin now s)) \<and> \<not> s_cancel (h_up (run_request run now s))"
proof (intro conjI impI)
  let ?c = "read_be32 pkt"
  assume c: "s_cancel (h_up (fido_hid_handle_packet pkt s))"
  have cr: "h_up (complete_request cid t) = h_up t" for cid t
    by (simp add: complete_request_def Let_def queue_error_def)
  have hc: "h_up (handle_cont_packet ?c pkt s) = h_up s"
    by (simp add: handle_cont_packet_def Let_def cr queue_error_def)
  have hi: "h_running s \<and> ?c = h_busy_cid s" if "s_cancel (h_up (handle_init_packet ?c pkt s))" "\<not> s_cancel (h_up s)"
  proof -
    let ?s = "if h_state s = FH_STATE_ASSEMBLING \<and> ?c = h_cur_cid s then reset_assembly s else s"
    have "h_running ?s = h_running s" "h_busy_cid ?s = h_busy_cid s" by (simp_all add: reset_assembly_def)
    then show ?thesis using that handle_init_up [of ?c _ ?s]
      by (auto simp: handle_init_packet_def Let_def cr queue_error_def user_presence_cancel_def split: if_splits)
  qed
  show "s_cancel (h_up s) \<or> h_running s \<and> ?c = h_busy_cid s"
    using c hi hc by (auto simp: fido_hid_handle_packet_def Let_def queue_error_def split: if_splits)
next
  show "\<not> s_cancel (h_up (request_begin now s))" by (simp add: request_begin_def user_presence_clear_cancel_def)
  show "\<not> s_cancel (h_up (run_request run now s))"
    by (simp add: run_request_def request_end_def Let_def user_presence_clear_cancel_def)
qed

lemma hid_cancel_scope_witness:
  "\<not> s_cancel (h_up (fido_hid_handle_packet (build_packet 2 0x91 []) (demo_request\<lparr>h_running := True\<rparr>)))"
proof -
  have "read_be32 (build_packet 2 0x91 []) = 2" by (simp add: build_packet_eq)
  moreover have "\<not> s_cancel (h_up hid_start)"
    by (simp add: hid_start_def fido_hid_init_def hid_zero_def up_start_def)
  ultimately show ?thesis
    using conjunct1 [OF hid_cancel_scope, of "build_packet 2 0x91 []" "demo_request\<lparr>h_running := True\<rparr>"] by auto
qed

end
