(* ===== verification/Ctaphid_Bounds.thy ===== *)
theory Ctaphid_Bounds
  imports Ctaphid_Requests
begin

text \<open>
  The bounds of \<^verbatim>\<open>ctaphid.c\<close>: a step relation over packets, main-loop rounds and the
  environment, and the invariant of its reachable states.  A write beyond a buffer would
  change the length of its list, so the lengths say that no \<open>memcpy\<close> leaves its buffer.
\<close>

definition asm_ok :: "hid \<Rightarrow> bool" where
  "asm_ok s \<longleftrightarrow> length (h_req_buf s) = FIDO_HID_MAX_PAYLOAD \<and> h_req_received s \<le> FIDO_HID_MAX_PAYLOAD \<and>
     (h_state s = FH_STATE_ASSEMBLING \<longrightarrow> h_busy_cid s = 0 \<and> h_req_received s < h_req_total s \<and>
        h_req_total s \<le> FIDO_HID_MAX_PAYLOAD \<and> h_req_received s = 57 + 59 * unat (h_next_seq s))"

definition link_ok :: "hid \<Rightarrow> bool" where
  "link_ok s \<longleftrightarrow> h_next_cid s \<noteq> 0 \<and> h_next_cid s \<noteq> FIDO_HID_CID_BROADCAST \<and>
     (h_abandoned s \<longrightarrow> h_busy_cid s \<noteq> 0)"

definition hid_ok :: "hid \<Rightarrow> bool" where
  "hid_ok s \<longleftrightarrow> asm_ok s \<and> resp_ok s \<and> packets_ok s \<and> link_ok s"

lemma asm_ok_asm: "asm s' = asm s \<Longrightarrow> asm_ok s' = asm_ok s"
  by (simp add: asm_ok_def asm_def)

lemma resp_ok_resp: "resp s' = resp s \<Longrightarrow> resp_ok s' = resp_ok s"
  by (simp add: resp_ok_def resp_def)

lemma link_ok_core: "core s' = core s \<Longrightarrow> link_ok s' = link_ok s"
proof -
  assume "core s' = core s"
  then have "h_next_cid s' = h_next_cid s \<and> h_abandoned s' = h_abandoned s \<and> h_busy_cid s' = h_busy_cid s"
    using core_fields by metis
  then show ?thesis by (simp add: link_ok_def)
qed

lemma sends_ok: "sends s s' \<Longrightarrow> hid_ok s \<Longrightarrow> hid_ok s'"
  using asm_ok_asm [OF sends_asm] resp_ok_resp [OF sends_resp] link_ok_core
  unfolding hid_ok_def by (metis sends_def)

lemma queue_ok: "hid_ok s \<Longrightarrow> length p \<le> 2048 \<Longrightarrow> hid_ok (queue_response cid cmd p s)"
  by (auto simp: hid_ok_def asm_ok_def resp_ok_def packets_ok_def link_ok_def queue_response_def Let_def hid_lens
      mem_write_def)

lemma reply_ok: "hid_ok s \<Longrightarrow> length p \<le> 2048 \<Longrightarrow> hid_ok (reply_short cid cmd p s)"
  by (simp add: reply_short_def queue_ok sends_ok [OF send_now_sends])

lemma error_ok: "hid_ok s \<Longrightarrow> hid_ok (queue_error cid e s)"
  by (simp add: queue_error_def reply_ok)

lemma reset_ok: "hid_ok s \<Longrightarrow> hid_ok (reset_assembly s)"
  by (simp add: hid_ok_def asm_ok_def resp_ok_def packets_ok_def link_ok_def reset_assembly_def hid_lens)

lemma small_ok:
  "hid_ok (s\<lparr>h_up := u\<rparr>) = hid_ok s" "hid_ok (s\<lparr>h_usb := us\<rparr>) = hid_ok s" "hid_ok (s\<lparr>h_running := b\<rparr>) = hid_ok s"
  "hid_ok (s\<lparr>h_in_progress := b\<rparr>) = hid_ok s" "hid_ok (s\<lparr>h_ka_status := k\<rparr>) = hid_ok s"
  "hid_ok (s\<lparr>h_ka_last := t\<rparr>) = hid_ok s" "hid_ok (s\<lparr>h_short_pending := b\<rparr>) = hid_ok s"
  "hid_ok (s\<lparr>h_resync_pending := b\<rparr>) = hid_ok s"
  by (simp_all add: hid_ok_def asm_ok_def resp_ok_def packets_ok_def link_ok_def)

lemma unpend_ok: "hid_ok s \<Longrightarrow> hid_ok (s\<lparr>h_resp_pending := False\<rparr>)"
  by (auto simp: hid_ok_def asm_ok_def resp_ok_def packets_ok_def link_ok_def)

lemma alloc_ok: "hid_ok s \<Longrightarrow> hid_ok (snd (alloc_channel s))"
  by (auto simp: alloc_channel_def Let_def hid_ok_def asm_ok_def resp_ok_def packets_ok_def link_ok_def
      FIDO_HID_CID_BROADCAST_def)

lemma complete_ok:
  assumes "hid_ok s"
  shows "hid_ok (complete_request cid s)"
proof -
  let ?s = "s\<lparr>h_state := FH_STATE_IDLE, h_cur_cid := 0\<rparr>"
  have "hid_ok ?s" using assms by (simp add: hid_ok_def asm_ok_def resp_ok_def packets_ok_def link_ok_def)
  moreover have "h_busy_cid s = 0 \<Longrightarrow> hid_ok (?s\<lparr>h_busy_cid := cid\<rparr>)"
    using assms by (simp add: hid_ok_def asm_ok_def resp_ok_def packets_ok_def link_ok_def)
  ultimately show ?thesis by (simp add: complete_request_def Let_def error_ok reset_ok)
qed

lemma handle_init_ok:
  assumes "hid_ok s" and "cid \<noteq> 0"
  shows "hid_ok (handle_init cid p s)"
proof (cases "length p = 8")
  case True
  obtain o1 s1 where i: "init_channel cid s = (o1, s1)" by fastforce
  have s1: "hid_ok s1"
    using i assms alloc_ok [of s] reset_ok [of s] by (auto simp: init_channel_def split: if_splits)
  let ?s2 = "supersede_short cid (supersede_resync cid s1)"
  let ?r = "init_response p o1"
  have s2: "hid_ok ?s2" using s1 by (simp add: supersede_short_def supersede_resync_def small_ok)
  have r: "length ?r = 17" using True by (simp add: init_response_def)
  have "length (build_packet cid init_answer ?r) = 64" using r by (intro length_build_packet) simp
  then have "hid_ok (abandon_request cid ?r ?s2)" if "cid = h_busy_cid ?s2"
    using s2 that assms(2)
    by (auto simp: abandon_request_def hid_ok_def asm_ok_def resp_ok_def packets_ok_def link_ok_def)
  moreover have "hid_ok (reply_short cid init_answer ?r (drop_answer cid ?s2))"
    using r s2 unpend_ok [OF s2] by (intro reply_ok) (simp_all add: drop_answer_def)
  ultimately show ?thesis using True i by (simp add: handle_init_def Let_def)
qed (simp add: handle_init_def error_ok assms(1))

lemma init_packet_ok:
  assumes "hid_ok s" and "cid \<noteq> 0"
  shows "hid_ok (handle_init_packet cid pkt s)"
proof -
  let ?n = "be16_load (pkt ! 5) (pkt ! 6)"
  define av where "av = min ?n 57"
  let ?s1 = "s\<lparr>h_cur_cid := cid, h_req_cmd := pkt ! 4 AND 0x7F, h_req_total := ?n, h_next_seq := 0,
    h_req_received := av, h_req_buf := mem_write 0 (take av (drop 7 pkt)) (replicate 2048 0)\<rparr>"
  have len: "length (mem_write 0 (take av (drop 7 pkt)) (replicate 2048 0)) = 2048"
    by (simp add: mem_write_def av_def)
  have new: "hid_ok ?s1" if "h_state s = FH_STATE_IDLE"
    using assms that len by (simp add: hid_ok_def asm_ok_def resp_ok_def packets_ok_def link_ok_def hid_lens av_def)
  have as: "hid_ok (?s1\<lparr>h_state := FH_STATE_ASSEMBLING\<rparr>)" if "?n \<le> 2048" "av < ?n" "h_busy_cid s = 0"
    using assms that len by (simp add: hid_ok_def asm_ok_def resp_ok_def packets_ok_def link_ok_def hid_lens av_def)
  have cp: "hid_ok (complete_request cid ?s1)" if "?n \<le> 2048"
  proof -
    have "hid_ok (complete_request cid (?s1\<lparr>h_state := FH_STATE_IDLE\<rparr>))"
      by (rule complete_ok)
         (use assms that len in \<open>simp add: hid_ok_def asm_ok_def resp_ok_def packets_ok_def link_ok_def hid_lens av_def\<close>)
    moreover have "complete_request cid (t\<lparr>h_state := FH_STATE_IDLE\<rparr>) = complete_request cid t" for t
      by (simp add: complete_request_def Let_def)
    ultimately show ?thesis by simp
  qed
  show ?thesis
    using assms as cp handle_init_ok error_ok reset_ok small_ok
    by (cases "cid = h_busy_cid s"; cases "cid = h_cur_cid s")
       (simp_all add: handle_init_packet_def Let_def hid_lens av_def [symmetric])
qed

lemma cont_packet_ok:
  assumes "hid_ok s"
  shows "hid_ok (handle_cont_packet cid pkt s)"
proof -
  define c where "c = min (h_req_total s - h_req_received s) 59"
  let ?s1 = "s\<lparr>h_next_seq := h_next_seq s + 1,
    h_req_buf := mem_write (h_req_received s) (take c (drop 5 pkt)) (h_req_buf s),
    h_req_received := h_req_received s + c\<rparr>"
  have ok: "hid_ok ?s1 \<or> h_req_total s \<le> h_req_received s + c \<and> hid_ok (?s1\<lparr>h_state := FH_STATE_IDLE\<rparr>)"
    if "h_state s = FH_STATE_ASSEMBLING"
  proof -
    have a: "h_busy_cid s = 0" "h_req_received s < h_req_total s" "h_req_total s \<le> 2048" "length (h_req_buf s) = 2048"
      "h_req_received s = 57 + 59 * unat (h_next_seq s)"
      using assms that by (auto simp: hid_ok_def asm_ok_def hid_lens)
    have c: "h_req_received s + c \<le> h_req_total s" using a(2) by (simp add: c_def)
    have "length (take c (drop 5 pkt)) \<le> c" by simp
    then have "h_req_received s + length (take c (drop 5 pkt)) \<le> 2048" using c a(3) by linarith
    then have l: "length (mem_write (h_req_received s) (take c (drop 5 pkt)) (h_req_buf s)) = 2048"
      using a(4) by simp
    have q: "unat (h_next_seq s + 1) = Suc (unat (h_next_seq s))"
      using a(2,3,5) by (simp add: unat_word_ariths)
    show ?thesis
    proof (cases "h_req_total s \<le> h_req_received s + c")
      case True
      then have "hid_ok (?s1\<lparr>h_state := FH_STATE_IDLE\<rparr>)" using assms a c l
        by (simp add: hid_ok_def asm_ok_def resp_ok_def packets_ok_def link_ok_def hid_lens)
      with True show ?thesis by blast
    next
      case False
      then have "c = 59" by (simp add: c_def)
      then have "hid_ok ?s1" using assms a l q False
        by (simp add: hid_ok_def asm_ok_def resp_ok_def packets_ok_def link_ok_def hid_lens)
      then show ?thesis ..
    qed
  qed
  have cr: "complete_request k (t\<lparr>h_state := FH_STATE_IDLE\<rparr>) = complete_request k t" for k t
    by (simp add: complete_request_def Let_def)
  have "hid_ok (complete_request k ?s1)" if "h_state s = FH_STATE_ASSEMBLING" for k
    using ok [OF that] complete_ok cr by metis
  moreover have "hid_ok ?s1" if "h_state s = FH_STATE_ASSEMBLING" "\<not> h_req_total s \<le> h_req_received s + c"
    using ok [OF that(1)] that(2) by blast
  ultimately show ?thesis using assms error_ok reset_ok
    by (simp add: handle_cont_packet_def Let_def hid_lens c_def [symmetric])
qed

lemma packet_ok: "hid_ok s \<Longrightarrow> hid_ok (fido_hid_handle_packet pkt s)"
  by (simp add: fido_hid_handle_packet_def Let_def error_ok init_packet_ok cont_packet_ok)

lemma packets_run_ok: "hid_ok s \<Longrightarrow> hid_ok (tud_task ps s)"
  unfolding tud_task_def by (induction ps arbitrary: s) (simp_all add: packet_ok)

lemma progress_ok:
  assumes "hid_ok s"
  shows "hid_ok (fido_hid_progress ps now s)"
proof -
  let ?t = "tud_task ps (s\<lparr>h_in_progress := True\<rparr>)"
  obtain b s1 where f: "flush_pending ?t = (b, s1)" by fastforce
  have "hid_ok ?t" using assms by (intro packets_run_ok) (simp add: small_ok)
  then have s1: "hid_ok s1" by (rule sends_ok [OF flush_sends(1) [OF f]])
  have "hid_ok s2" if "push_packet (build_packet c k [x]) s1 = (ok, s2)" for c k x ok s2
  proof -
    have "length (build_packet c k [x]) = 64" by (rule length_build_packet) simp
    then show ?thesis using sends_ok [OF push_sends [OF that] s1] by blast
  qed
  then show ?thesis using assms s1
    by (auto simp: fido_hid_progress_def f Let_def small_ok split: prod.splits)
qed

lemma run_steps_ok: "hid_ok s \<Longrightarrow> hid_ok (fold run_step evs s)"
proof (induction evs arbitrary: s)
  case (Cons e evs)
  have "hid_ok (run_step e s)" using Cons.prems by (cases e) (simp_all add: progress_ok packets_run_ok small_ok)
  then show ?case using Cons.IH by simp
qed simp

text \<open>
  The contract of \<open>fido_hid_cbor_dispatch\<close> (\<^verbatim>\<open>ctaphid.h\<close>): it writes at most \<open>resp_max\<close> bytes
  and returns their number or a negative value.
\<close>

definition handler_ok :: "handler_run \<Rightarrow> bool" where
  "handler_ok run \<longleftrightarrow> length (run_out run) \<le> FIDO_HID_MAX_PAYLOAD \<and> run_result run \<le> int (length (run_out run))"

lemma answer_ok:
  "hid_ok s \<Longrightarrow> length buf = 2048 \<Longrightarrow> hid_ok (s\<lparr>h_resp_buf := buf\<rparr>)"
  "hid_ok s \<Longrightarrow> n \<le> 2048 \<Longrightarrow> hid_ok (s\<lparr>h_resp_cid := c, h_resp_cmd := k, h_resp_total := n,
     h_resp_sent := 0, h_resp_seq := 0, h_resp_pending := True\<rparr>)"
  by (auto simp: hid_ok_def asm_ok_def resp_ok_def packets_ok_def link_ok_def hid_lens)

lemma handle_cbor_ok:
  assumes "hid_ok s" and "handler_ok run"
  shows "hid_ok (handle_cbor run cid s)"
proof -
  let ?s1 = "fold run_step (run_events run) s"
  let ?s2 = "?s1\<lparr>h_resp_buf := mem_write 0 (run_out run) (h_resp_buf ?s1)\<rparr>"
  have s1: "hid_ok ?s1" by (rule run_steps_ok [OF assms(1)])
  then have l: "length (h_resp_buf ?s1) = 2048" by (simp add: hid_ok_def resp_ok_def hid_lens)
  have lo: "length (run_out run) \<le> 2048" using assms(2) by (simp add: handler_ok_def hid_lens)
  have "length (mem_write 0 (run_out run) (h_resp_buf ?s1)) = 2048" using l lo by simp
  then have s2: "hid_ok ?s2" by (rule answer_ok(1) [OF s1])
  have n: "nat (run_result run mod 65536) \<le> 2048" if "0 \<le> run_result run"
  proof -
    have "run_result run \<le> 2048" using assms(2) by (auto simp: handler_ok_def hid_lens)
    then show ?thesis using that by simp
  qed
  have "hid_ok (?s2\<lparr>h_resp_cid := c, h_resp_cmd := k, h_resp_total := nat (run_result run mod 65536),
      h_resp_sent := 0, h_resp_seq := 0, h_resp_pending := True\<rparr>)" if "0 \<le> run_result run" for c k
    by (rule answer_ok(2) [OF s2 n [OF that]])
  then show ?thesis using error_ok [OF s2] by (simp add: handle_cbor_def Let_def)
qed

lemma dispatch_ok:
  assumes "hid_ok s" and "handler_ok run" and "cid \<noteq> 0"
  shows "hid_ok (dispatch_request run cid s)"
proof -
  have "length (take (h_req_received s) (h_req_buf s)) \<le> 2048"
    using assms(1) by (simp add: hid_ok_def asm_ok_def hid_lens)
  then show ?thesis using assms
    by (simp add: dispatch_request_def Let_def handle_init_ok handle_cbor_ok error_ok handle_ping_def handle_msg_def
        queue_ok)
qed

lemma run_request_ok:
  assumes "hid_ok s" and "handler_ok run" and "h_busy_cid s \<noteq> 0"
  shows "hid_ok (run_request run now s)"
proof -
  have "hid_ok (request_end t)" if "hid_ok t" for t
  proof -
    have "hid_ok (reset_assembly u)" if "hid_ok u" for u by (rule reset_ok [OF that])
    moreover have "h_state (reset_assembly u) = FH_STATE_IDLE" for u by (simp add: reset_assembly_def)
    moreover have "hid_ok (u\<lparr>h_busy_cid := 0, h_abandoned := False\<rparr>)" if "hid_ok u" "h_state u = FH_STATE_IDLE" for u
      using that by (simp add: hid_ok_def asm_ok_def resp_ok_def packets_ok_def link_ok_def)
    ultimately show ?thesis using that unpend_ok [of "t\<lparr>h_running := False\<rparr>"]
      by (simp add: request_end_def Let_def small_ok)
  qed
  moreover have "hid_ok (request_begin now s)" using assms(1) by (simp add: request_begin_def small_ok)
  ultimately show ?thesis using dispatch_ok [of "request_begin now s" run] assms(2,3)
    by (simp add: run_request_def Let_def)
qed

lemma emit_ok:
  assumes "hid_ok s" and "emit_response_packet s = (b, s')"
  shows "hid_ok s'"
  using assms(2)
proof (cases rule: emit_cases)
  case (1 us)
  then show ?thesis using assms(1) by (simp add: small_ok)
next
  case (2 us)
  have r: "resp_ok s" using assms(1) by (simp add: hid_ok_def)
  have "length (emit_pkt s) = 64"
    by (simp add: emit_pkt_def emit_chunk_def pad_def Let_def)
  moreover have "asm (emitted s) = asm s" "packets_ok (emitted s) = packets_ok s" "link_ok (emitted s) = link_ok s"
    by (simp_all add: emitted_def asm_def packets_ok_def link_ok_def)
  ultimately show ?thesis using assms(1) emitted_rest(2) [OF r 2(2)] 2(3) asm_ok_asm [of "emitted s" s]
    by (simp add: hid_ok_def) (simp add: asm_ok_def packets_ok_def link_ok_def emitted_def)
qed

lemma drain_ok: "hid_ok s \<Longrightarrow> hid_ok (drain_responses s)"
proof (induction s rule: drain_responses.induct)
  case (1 s)
  obtain b s1 where e: "emit_response_packet s = (b, s1)" by fastforce
  show ?case using 1(1) [OF e [symmetric]] emit_ok [OF 1(2) e] e by (simp add: drain_responses.simps [of s])
qed

lemma task_ok:
  assumes "hid_ok s" and "handler_ok run"
  shows "hid_ok (fido_hid_task run now s)"
proof -
  let ?s1 = "if h_busy_cid s \<noteq> 0 \<and> \<not> h_resp_pending s then run_request run now s else s"
  have s1: "hid_ok ?s1" using assms run_request_ok by simp
  obtain b s2 where f: "flush_pending ?s1 = (b, s2)" by fastforce
  have "hid_ok s2" by (rule sends_ok [OF flush_sends(1) [OF f] s1])
  then show ?thesis using f drain_ok by (simp add: fido_hid_task_def Let_def)
qed

section \<open>Reachable states\<close>

text \<open>
  What can happen: the main loop pumps a packet or runs a round, with a handler that does
  anything its contract allows; outside a request the button or an OpenPGP wait changes the
  touch state; and the host polls the endpoint as it likes.
\<close>

inductive hid_step :: "hid \<Rightarrow> hid \<Rightarrow> bool" where
  packet: "hid_step s (fido_hid_handle_packet pkt s)"
| task: "handler_ok run \<Longrightarrow> hid_step s (fido_hid_task run now s)"
| button: "hid_step s (s\<lparr>h_up := u\<rparr>)"
| endpoint: "hid_step s (s\<lparr>h_usb := us\<rparr>)"
| restart: "hid_step s (fido_hid_init s)"

inductive_cases hid_stepE: "hid_step s s'"

lemma hid_init_ok: "hid_ok s \<Longrightarrow> hid_ok (fido_hid_init s)"
  by (simp add: fido_hid_init_def reset_assembly_def hid_ok_def asm_ok_def resp_ok_def packets_ok_def link_ok_def
      hid_lens FIDO_HID_CID_BROADCAST_def)

lemma hid_step_ok: "hid_step s s' \<Longrightarrow> hid_ok s \<Longrightarrow> hid_ok s'"
  by (erule hid_stepE) (simp_all add: packet_ok task_ok small_ok hid_init_ok)

lemma hid_start_ok: "hid_ok hid_start"
  by (simp add: hid_start_def fido_hid_init_def hid_zero_def reset_assembly_def hid_ok_def asm_ok_def resp_ok_def
      packets_ok_def link_ok_def hid_lens FIDO_HID_CID_BROADCAST_def)

text \<open>C40.
  No host can make the framing leave its buffers: in every reachable state the request and
  answer buffers keep their 2048 bytes and the held packets their 64, an assembly stays
  short of its announced total, which is at most 2048, and is nobody's finished request;
  a pending answer is cut at most at its total; and every report sent has 64 bytes.
\<close>

theorem hid_bounds:
  assumes "hid_step\<^sup>*\<^sup>* hid_start s"
  shows "length (h_req_buf s) = 2048 \<and> length (h_resp_buf s) = 2048 \<and> length (h_short_pkt s) = 64 \<and>
    length (h_resync_pkt s) = 64 \<and> h_req_received s \<le> 2048 \<and>
    (h_state s = FH_STATE_ASSEMBLING \<longrightarrow> h_busy_cid s = 0 \<and> h_req_received s < h_req_total s \<and> h_req_total s \<le> 2048) \<and>
    (h_resp_pending s \<longrightarrow> h_resp_total s \<le> 2048 \<and> h_resp_sent s \<le> h_resp_total s) \<and>
    (\<forall>r \<in> set (h_sent s). length r = 64)"
proof -
  have "hid_ok s" using assms by (induction rule: rtranclp_induct) (auto simp: hid_start_ok hid_step_ok)
  then show ?thesis
    by (cases "h_resp_sent s = 0") (auto simp: hid_ok_def asm_ok_def resp_ok_def packets_ok_def hid_lens)
qed

lemma hid_bounds_witness:
  "length (h_req_buf (fido_hid_handle_packet (build_packet 3 0x90 [4]) hid_start)) = 2048"
proof -
  have "hid_step\<^sup>*\<^sup>* hid_start (fido_hid_handle_packet (build_packet 3 0x90 [4]) hid_start)"
    by (rule r_into_rtranclp, rule packet)
  from hid_bounds [OF this] show ?thesis by blast
qed

end
