(* ===== verification/Spec2Isabelle.thy ===== *)
theory Spec2Isabelle
  imports Ccid Openpgp_Effects Pin_Md_Scheme Fido_State Pin_Token Ctap2_Parse Ctap2 Ctaphid_Bounds
begin

text \<open>
  A verification development for nixtropic, firmware that turns the TS1302 board into a
  FIDO2 and OpenPGP key on the TROPIC01 secure element.
\<close>

end
